(* ===== verification/Prelude.thy ===== *)
theory Prelude
  imports Main "HOL-Library.Word" "HOL-Library.Code_Target_Numeral"
begin

text \<open>
  Shared vocabulary of the development: bytes and machine words, Go errors as
  values, the big-endian codecs of \<^verbatim>\<open>encoding/binary\<close>, string
  literals as byte strings, and the list, option and word lemmas that several
  components use. A Go \<open>string\<close> and a Go \<open>[]byte\<close> are both byte lists here.
\<close>

unbundle bit_operations_syntax

named_theorems wire_simps \<open>length and slicing facts of the wire codecs\<close>
named_theorems guard_intros \<open>preservation facts of component invariants\<close>

type_synonym byte = "8 word"
type_synonym bytes = "byte list"
type_synonym u16 = "16 word"
type_synonym u32 = "32 word"
type_synonym u64 = "64 word"

text \<open>
  Errors as values. Sentinel errors of the standard library keep their own
  constructor; \<open>Errorf\<close> carries the static part of the message of
  \<^verbatim>\<open>errors.New\<close> or \<^verbatim>\<open>fmt.Errorf\<close>; \<open>Timeout\<close> is any
  \<^verbatim>\<open>net.Error\<close> whose \<open>Timeout()\<close> is true, \<open>OSError\<close> any other
  failure of the environment.
\<close>

datatype goerr =
    EOF
  | UnexpectedEOF
  | ErrShortWrite
  | ErrShortBuffer
  | ErrClosedPipe
  | NetErrClosed
  | Timeout nat
  | OSError nat
  | Errorf string

fun isTimeout :: "goerr \<Rightarrow> bool" where
  "isTimeout (Timeout _) = True"
| "isTimeout _ = False"

type_synonym 'a result = "goerr + 'a"

definition lit :: "string \<Rightarrow> bytes" where
  "lit s = map of_char s"

lemma length_lit [simp]: "length (lit s) = length s"
  by (simp add: lit_def)

subsection \<open>Big-endian integers\<close>

lemma unat_bound: "unat (w :: 'a::len word) < 2 ^ LENGTH('a)"
  by (rule unsigned_less)

primrec be_put :: "nat \<Rightarrow> nat \<Rightarrow> bytes" where
  "be_put 0 n = []"
| "be_put (Suc k) n = be_put k (n div 256) @ [word_of_nat n]"

definition be_get :: "bytes \<Rightarrow> nat" where
  "be_get bs = foldl (\<lambda>a b. a * 256 + unat b) 0 bs"

lemma length_be_put [simp, wire_simps]: "length (be_put k n) = k"
  by (induction k arbitrary: n) auto

lemma be_get_Nil [simp]: "be_get [] = 0"
  by (simp add: be_get_def)

lemma be_get_snoc [simp]: "be_get (bs @ [b]) = be_get bs * 256 + unat b"
  by (simp add: be_get_def)

lemma unat_byte_of_nat [simp]: "unat (word_of_nat n :: byte) = n mod 256"
  by (simp add: unat_of_nat)

lemma be_get_put: "be_get (be_put k n) = n mod 256 ^ k"
proof (induction k arbitrary: n)
  case 0
  then show ?case by simp
next
  case (Suc k)
  have "n mod (256 * 256 ^ k) = 256 * (n div 256 mod 256 ^ k) + n mod 256"
    by (rule mod_mult2_eq)
  then show ?case by (simp add: Suc mult.commute)
qed

lemma be_get_less: "be_get bs < 256 ^ length bs"
proof (induction bs rule: rev_induct)
  case Nil
  then show ?case by simp
next
  case (snoc b bs)
  have "unat b < 256" using unat_bound [of b] by simp
  with snoc have "be_get bs * 256 + unat b < (be_get bs + 1) * 256" by simp
  also have "\<dots> \<le> 256 ^ length bs * 256" using snoc by (intro mult_right_mono) auto
  finally show ?case by (simp add: mult.commute)
qed

lemma be_put_get: "be_put (length bs) (be_get bs) = bs"
proof (induction bs rule: rev_induct)
  case Nil
  then show ?case by simp
next
  case (snoc b bs)
  have b: "unat b < 256" using unat_bound [of b] by simp
  then have "(be_get bs * 256 + unat b) div 256 = be_get bs" by simp
  moreover have "(word_of_nat (be_get bs * 256 + unat b) :: byte) = b"
  proof -
    have "unat (word_of_nat (be_get bs * 256 + unat b) :: byte) = unat b"
      using b by (simp only: unat_byte_of_nat) simp
    then show ?thesis by (rule word_unat_eq_iff [THEN iffD2])
  qed
  ultimately show ?case using snoc by simp
qed

definition putUint16 :: "u16 \<Rightarrow> bytes" where "putUint16 w = be_put 2 (unat w)"
definition putUint32 :: "u32 \<Rightarrow> bytes" where "putUint32 w = be_put 4 (unat w)"
definition putUint64 :: "u64 \<Rightarrow> bytes" where "putUint64 w = be_put 8 (unat w)"
definition getUint16 :: "bytes \<Rightarrow> u16" where "getUint16 bs = word_of_nat (be_get bs)"
definition getUint32 :: "bytes \<Rightarrow> u32" where "getUint32 bs = word_of_nat (be_get bs)"
definition getUint64 :: "bytes \<Rightarrow> u64" where "getUint64 bs = word_of_nat (be_get bs)"

lemma length_putUint [simp, wire_simps]:
  "length (putUint16 a) = 2" "length (putUint32 b) = 4" "length (putUint64 c) = 8"
  by (simp_all add: putUint16_def putUint32_def putUint64_def)

lemma putUint_nonempty [simp]: "putUint16 a \<noteq> []" "putUint32 b \<noteq> []" "putUint64 c \<noteq> []"
  by (metis length_putUint list.size(3) zero_neq_numeral)+

lemma get_put_Uint [simp, wire_simps]:
  "getUint16 (putUint16 a) = a" "getUint32 (putUint32 b) = b" "getUint64 (putUint64 c) = c"
proof -
  have "unat a < 256 ^ 2" using unat_bound [of a] by simp
  then show "getUint16 (putUint16 a) = a"
    by (simp add: getUint16_def putUint16_def be_get_put)
  have "unat b < 256 ^ 4" using unat_bound [of b] by simp
  then show "getUint32 (putUint32 b) = b"
    by (simp add: getUint32_def putUint32_def be_get_put)
  have "unat c < 256 ^ 8" using unat_bound [of c] by simp
  then show "getUint64 (putUint64 c) = c"
    by (simp add: getUint64_def putUint64_def be_get_put)
qed

lemma put_get_Uint [simp, wire_simps]:
  "length xs = 2 \<Longrightarrow> putUint16 (getUint16 xs) = xs"
  "length ys = 4 \<Longrightarrow> putUint32 (getUint32 ys) = ys"
  "length zs = 8 \<Longrightarrow> putUint64 (getUint64 zs) = zs"
proof -
  assume "length xs = 2"
  then show "putUint16 (getUint16 xs) = xs"
    using be_get_less [of xs] be_put_get [of xs]
    by (simp add: getUint16_def putUint16_def unat_of_nat)
next
  assume "length ys = 4"
  then show "putUint32 (getUint32 ys) = ys"
    using be_get_less [of ys] be_put_get [of ys]
    by (simp add: getUint32_def putUint32_def unat_of_nat)
next
  assume "length zs = 8"
  then show "putUint64 (getUint64 zs) = zs"
    using be_get_less [of zs] be_put_get [of zs]
    by (simp add: getUint64_def putUint64_def unat_of_nat)
qed

lemma putUint64_inj [simp]: "putUint64 a = putUint64 b \<longleftrightarrow> a = b"
  by (metis get_put_Uint(3))

subsection \<open>Slices\<close>

text \<open>\<open>gslice i j xs\<close> is Go's \<open>xs[i:j]\<close>; the callers check the bounds first.\<close>

definition gslice :: "nat \<Rightarrow> nat \<Rightarrow> 'a list \<Rightarrow> 'a list" where
  "gslice i j xs = take (j - i) (drop i xs)"

lemma length_gslice [simp, wire_simps]: "length (gslice i j xs) = min (j - i) (length xs - i)"
  by (simp add: gslice_def min.commute)

lemma gslice_append_left [wire_simps]: "j \<le> length xs \<Longrightarrow> gslice i j (xs @ ys) = gslice i j xs"
  by (cases "i \<le> j") (simp_all add: gslice_def)

lemma gslice_append_right [wire_simps]:
  "length xs \<le> i \<Longrightarrow> gslice i j (xs @ ys) = gslice (i - length xs) (j - length xs) ys"
  by (simp add: gslice_def)

lemma gslice_all [wire_simps]: "j = length xs \<Longrightarrow> gslice 0 j xs = xs"
  by (simp add: gslice_def)

lemma gslice_0_append [wire_simps]: "j = length xs \<Longrightarrow> gslice 0 j (xs @ ys) = xs"
  by (simp add: gslice_def)

lemma gslice_drop: "i \<le> j \<Longrightarrow> gslice i j xs @ drop j xs = drop i xs"
  by (simp add: gslice_def) (metis append_take_drop_id drop_drop le_add_diff_inverse2)

lemma gslice_Cons_Suc [wire_simps]: "gslice (Suc i) (Suc j) (x # xs) = gslice i j xs"
  by (simp add: gslice_def)

lemma gslice_hd: "i < j \<Longrightarrow> j \<le> length xs \<Longrightarrow> gslice i j xs = xs ! i # gslice (Suc i) j xs"
  by (simp add: gslice_def Cons_nth_drop_Suc [symmetric] Suc_diff_Suc [symmetric])

lemma drop_numeral_add_Cons [simp]: "drop (numeral k + n) (x # xs) = drop (pred_numeral k + n) xs"
  by (simp add: numeral_eq_Suc)

subsection \<open>Constant-time comparison\<close>

text \<open>\<open>crypto/hmac.Equal\<close> decides equality of the two byte strings.\<close>

definition hmac_Equal :: "bytes \<Rightarrow> bytes \<Rightarrow> bool" where
  "hmac_Equal a b \<longleftrightarrow> a = b"

subsection \<open>Go's min on lengths, int64 differences\<close>

text \<open>\<open>int64(a) - int64(b)\<close> for two \<open>uint64\<close> values: a wrapping 64-bit difference read as signed.\<close>

definition int64_diff :: "u64 \<Rightarrow> u64 \<Rightarrow> int" where
  "int64_diff a b = sint (a - b)"

lemma int64_diff_self [simp]: "int64_diff a a = 0"
  by (simp add: int64_diff_def)

lemma int64_diff_bounded:
  "- (2 ^ 63) \<le> int64_diff a b \<and> int64_diff a b < 2 ^ 63"
  using sint_ge [of "a - b"] sint_lt [of "a - b"] by (simp add: int64_diff_def)

text \<open>Differences of two clock readings to one timestamp differ by as much as the readings.\<close>

lemma int64_diff_shift:
  fixes a b :: int and ts :: u64
  assumes "0 \<le> a" "a \<le> b" "b < 2 ^ 63" "\<bar>int64_diff (word_of_int a) ts\<bar> \<le> 1000" "\<bar>int64_diff (word_of_int b) ts\<bar> \<le> 1000"
  shows "int64_diff (word_of_int b) ts - int64_diff (word_of_int a) ts = b - a"
proof -
  define d1 d2 where "d1 = int64_diff (word_of_int a) ts" and "d2 = int64_diff (word_of_int b) ts"
  have w: "word_of_int d1 = (word_of_int a - ts :: u64)" "word_of_int d2 = (word_of_int b - ts :: u64)"
    by (simp_all add: d1_def d2_def int64_diff_def)
  have "word_of_int (d2 - d1) = (word_of_int d2 - word_of_int d1 :: u64)" by simp
  also have "\<dots> = word_of_int (b - a)" unfolding w by (simp add: algebra_simps)
  finally have "word_of_int (d2 - d1) = (word_of_int (b - a) :: u64)" .
  moreover have len64: "LENGTH(64) = 64" by simp
  ultimately have "take_bit 64 (d2 - d1) = take_bit 64 (b - a)" by (simp only: word_of_int_eq_iff len64)
  then have "(d2 - d1) mod 2 ^ 64 = (b - a) mod 2 ^ 64" by (simp only: take_bit_eq_mod)
  moreover have "(b - a) mod 2 ^ 64 = b - a" using assms(1-3) by (intro mod_pos_pos_trivial) auto
  ultimately have e: "(d2 - d1) mod 2 ^ 64 = b - a" by simp
  have d: "\<bar>d1\<bar> \<le> 1000" "\<bar>d2\<bar> \<le> 1000" using assms(4,5) by (simp_all add: d1_def d2_def)
  have "d2 - d1 = b - a"
  proof (cases "0 \<le> d2 - d1")
    case True
    then have "(d2 - d1) mod 2 ^ 64 = d2 - d1" using d by (intro mod_pos_pos_trivial) auto
    then show ?thesis using e by simp
  next
    case False
    have "(d2 - d1 + 2 ^ 64) mod 2 ^ 64 = d2 - d1 + 2 ^ 64" using d False by (intro mod_pos_pos_trivial) auto
    then have "b - a = d2 - d1 + 18446744073709551616" using e by simp
    moreover have "b < 9223372036854775808" using assms(3) by simp
    ultimately show ?thesis using d assms(1) by linarith
  qed
  then show ?thesis by (simp add: d1_def d2_def)
qed

end
