(* ===== verification/GoIO.thy ===== *)
theory GoIO
  imports Prelude
begin

text \<open>
  The part of Go's \<^verbatim>\<open>io\<close> package the program relies on. The environment's
  side of an \<open>io.Reader\<close> is a script: one pair of bytes and optional error per
  call of \<open>Read\<close> whose buffer is large enough; a call with a smaller buffer takes a
  prefix and leaves the rest (and the error) for later calls. The exhausted script
  answers \<open>EOF\<close>. An \<open>io.Writer\<close> is the list of bytes it has taken and a
  script of its answers (count, error); the exhausted script takes everything.
  Theorems quantify over the scripts, so over every behaviour of the environment.
\<close>

subsection \<open>Readers\<close>

type_synonym source = "(bytes \<times> goerr option) list"

fun src_read :: "nat \<Rightarrow> source \<Rightarrow> bytes \<times> goerr option \<times> source" where
  "src_read n [] = ([], Some EOF, [])"
| "src_read n ((bs, e) # rest) =
     (if n < length bs then (take n bs, None, (drop n bs, e) # rest) else (bs, e, rest))"

definition src_size :: "source \<Rightarrow> nat" where
  "src_size src = (\<Sum>c\<leftarrow>src. Suc (length (fst c)))"

definition src_bytes :: "source \<Rightarrow> bytes" where
  "src_bytes src = concat (map fst src)"

definition src_clean :: "source \<Rightarrow> bool" where
  "src_clean src \<longleftrightarrow> (\<forall>c \<in> set src. snd c = None)"

lemma src_size_simps [simp]:
  "src_size [] = 0" "src_size (c # src) = Suc (length (fst c) + src_size src)"
  by (simp_all add: src_size_def)

lemma src_bytes_simps [simp]:
  "src_bytes [] = []" "src_bytes (c # src) = fst c @ src_bytes src"
  by (simp_all add: src_bytes_def)

lemma src_clean_simps [simp]:
  "src_clean []" "src_clean (c # src) \<longleftrightarrow> snd c = None \<and> src_clean src"
  by (auto simp: src_clean_def)

lemma src_read_size:
  "src_read n src = (bs, None, src') \<Longrightarrow> 0 < n \<Longrightarrow> src_size src' < src_size src"
  by (cases "(n, src)" rule: src_read.cases) (auto split: if_splits)

lemma src_read_length: "src_read n src = (bs, e, src') \<Longrightarrow> length bs \<le> n"
  by (cases "(n, src)" rule: src_read.cases) (auto split: if_splits)

lemma src_read_clean:
  assumes "src_clean src" "src_read n src = (bs, e, src')"
  shows "src_clean src'" "src_bytes src = bs @ src_bytes src'"
    "e = None \<or> e = Some EOF \<and> src = [] \<and> bs = []"
  using assms by (cases "(n, src)" rule: src_read.cases; auto split: if_splits)+

text \<open>\<open>io.ReadFull\<close>: loop until the buffer is full or an error; a short read after some bytes
  turns \<open>EOF\<close> into \<open>UnexpectedEOF\<close>.\<close>

function read_loop :: "nat \<Rightarrow> bytes \<Rightarrow> source \<Rightarrow> bytes \<times> goerr option \<times> source" where
  "read_loop n acc src =
     (if length acc < n then
        (case src_read (n - length acc) src of
           (bs, None, src') \<Rightarrow> read_loop n (acc @ bs) src'
         | (bs, Some e, src') \<Rightarrow> (acc @ bs, Some e, src'))
      else (acc, None, src))"
  by pat_completeness auto
termination
  by (relation "measure (\<lambda>(n, acc, src). src_size src)") (auto dest: src_read_size [OF sym])

declare read_loop.simps [simp del]

definition readFull :: "nat \<Rightarrow> source \<Rightarrow> bytes \<times> goerr option \<times> source" where
  "readFull n src =
     (case read_loop n [] src of
        (bs, e, src') \<Rightarrow>
          (bs, if n \<le> length bs then None
               else if bs \<noteq> [] \<and> e = Some EOF then Some UnexpectedEOF else e, src'))"

lemma read_loop_length: "length acc \<le> n \<Longrightarrow> read_loop n acc src = (bs, e, src') \<Longrightarrow>
    length bs \<le> n \<and> (e = None \<longrightarrow> length bs = n)"
proof (induction n acc src arbitrary: bs e src' rule: read_loop.induct)
  case (1 n acc src)
  obtain cs f s where r: "src_read (n - length acc) src = (cs, f, s)" by (cases "src_read (n - length acc) src") auto
  have l: "length cs \<le> n - length acc" by (rule src_read_length [OF r])
  consider "\<not> length acc < n" | "length acc < n" "f = None" | e' where "length acc < n" "f = Some e'"
    by (cases f) auto
  then show ?case
  proof cases
    case 1
    with "1.prems" show ?thesis by (auto simp: read_loop.simps [of n acc src])
  next
    case 2
    have "read_loop n (acc @ cs) s = (bs, e, src')"
      using "1.prems"(2) r 2 by (simp add: read_loop.simps [of n acc src])
    moreover have "length (acc @ cs) \<le> n" using l 2(1) by simp
    ultimately show ?thesis using "1.IH" [OF 2(1) r [symmetric] refl 2(2)] by blast
  next
    case 3
    with "1.prems"(2) r l show ?thesis by (auto simp: read_loop.simps [of n acc src])
  qed
qed

lemma readFull_length:
  assumes "readFull n src = (bs, e, src')"
  shows "length bs \<le> n" "e = None \<longleftrightarrow> length bs = n"
proof -
  obtain cs f s where r: "read_loop n [] src = (cs, f, s)" by (cases "read_loop n [] src") auto
  have "length cs \<le> n \<and> (f = None \<longrightarrow> length cs = n)" using read_loop_length [OF _ r] by simp
  with r assms show "length bs \<le> n" "e = None \<longleftrightarrow> length bs = n"
    by (auto simp: readFull_def split: if_splits)
qed

lemma read_loop_size:
  "read_loop n acc src = (bs, e, src') \<Longrightarrow> src_size src' + length bs \<le> src_size src + length acc"
proof (induction n acc src arbitrary: bs e src' rule: read_loop.induct)
  case (1 n acc src)
  obtain cs f s where r: "src_read (n - length acc) src = (cs, f, s)"
    by (cases "src_read (n - length acc) src") auto
  have le: "src_size s + length cs \<le> src_size src"
    using r by (cases "(n - length acc, src)" rule: src_read.cases) (auto split: if_splits)
  consider "\<not> length acc < n" | "length acc < n" "f = None" | x where "length acc < n" "f = Some x" by (cases f) auto
  then show ?case
  proof cases
    case 1
    then show ?thesis using "1.prems" by (simp add: read_loop.simps [of n acc src])
  next
    case 2
    then have "read_loop n (acc @ cs) s = (bs, e, src')" using "1.prems" r by (simp add: read_loop.simps [of n acc src])
    from "1.IH" [OF 2(1) r [symmetric] refl 2(2) this] show ?thesis using le by simp
  next
    case 3
    then show ?thesis using "1.prems" r le by (auto simp: read_loop.simps [of n acc src])
  qed
qed

lemma readFull_size: "readFull n src = (bs, e, src') \<Longrightarrow> src_size src' + length bs \<le> src_size src"
  using read_loop_size [of n "[]" src] by (auto simp: readFull_def split: prod.splits)

text \<open>Whatever errors occur, the bytes delivered are the bytes that leave the script.\<close>

lemma src_read_bytes: "src_read n src = (bs, e, src') \<Longrightarrow> src_bytes src = bs @ src_bytes src'"
  by (cases "(n, src)" rule: src_read.cases) (auto split: if_splits simp flip: append.assoc)

lemma read_loop_bytes: "read_loop n acc src = (bs, e, src') \<Longrightarrow> acc @ src_bytes src = bs @ src_bytes src'"
proof (induction n acc src arbitrary: bs e src' rule: read_loop.induct)
  case (1 n acc src)
  obtain cs f s where r: "src_read (n - length acc) src = (cs, f, s)"
    by (cases "src_read (n - length acc) src") auto
  note b = src_read_bytes [OF r]
  consider "\<not> length acc < n" | "length acc < n" "f = None" | x where "length acc < n" "f = Some x" by (cases f) auto
  then show ?case
  proof cases
    case 1
    then show ?thesis using "1.prems" by (simp add: read_loop.simps [of n acc src])
  next
    case 2
    then have "read_loop n (acc @ cs) s = (bs, e, src')" using "1.prems" r by (simp add: read_loop.simps [of n acc src])
    from "1.IH" [OF 2(1) r [symmetric] refl 2(2) this] show ?thesis using b by simp
  next
    case 3
    then show ?thesis using "1.prems" r b by (auto simp: read_loop.simps [of n acc src])
  qed
qed

lemma readFull_bytes: "readFull n src = (bs, e, src') \<Longrightarrow> src_bytes src = bs @ src_bytes src'"
  using read_loop_bytes [of n "[]" src] by (auto simp: readFull_def split: prod.splits)

lemma readFull_0 [simp]: "readFull 0 src = ([], None, src)"
  by (simp add: readFull_def read_loop.simps)

lemma read_loop_clean:
  "src_clean src \<Longrightarrow> length acc \<le> n \<Longrightarrow> n \<le> length acc + length (src_bytes src) \<Longrightarrow>
   \<exists>src'. read_loop n acc src = (acc @ take (n - length acc) (src_bytes src), None, src') \<and>
          src_clean src' \<and> src_bytes src' = drop (n - length acc) (src_bytes src)"
proof (induction n acc src rule: read_loop.induct)
  case (1 n acc src)
  show ?case
  proof (cases "length acc < n")
    case False
    with "1.prems" show ?thesis by (simp add: read_loop.simps)
  next
    case True
    obtain cs f s where r: "src_read (n - length acc) src = (cs, f, s)"
      by (cases "src_read (n - length acc) src") auto
    note facts = src_read_clean [OF "1.prems"(1) r]
    have l: "length cs \<le> n - length acc" by (rule src_read_length [OF r])
    have f: "f = None" using facts(3) "1.prems" True by auto
    have "\<exists>src'. read_loop n (acc @ cs) s = (acc @ cs @ take (n - length (acc @ cs)) (src_bytes s), None, src') \<and>
          src_clean src' \<and> src_bytes src' = drop (n - length (acc @ cs)) (src_bytes s)"
      using "1.IH" [OF True r [symmetric] _ f] facts l "1.prems" True f by simp
    then show ?thesis
      using True r f l facts(2) by (auto simp: read_loop.simps [of n acc src])
  qed
qed

text \<open>However the environment splits an error-free byte stream into reads, \<open>ReadFull\<close> sees its prefix.\<close>

lemma readFull_clean:
  assumes "src_clean src" "n \<le> length (src_bytes src)"
  obtains src' where "readFull n src = (take n (src_bytes src), None, src')"
    "src_clean src'" "src_bytes src' = drop n (src_bytes src)"
  using read_loop_clean [OF assms(1), of "[]" n] assms(2) by (auto simp: readFull_def)

lemma readFull_append_clean:
  assumes "src_clean src" "src_bytes src = xs @ ys" "n = length xs"
  obtains src' where "readFull n src = (xs, None, src')" "src_clean src'" "src_bytes src' = ys"
  using readFull_clean [OF assms(1), of n] assms(2,3) by auto

lemma read_loop_clean_short:
  "src_clean src \<Longrightarrow> length acc + length (src_bytes src) < n \<Longrightarrow>
   read_loop n acc src = (acc @ src_bytes src, Some EOF, [])"
proof (induction n acc src rule: read_loop.induct)
  case (1 n acc src)
  obtain cs f s where r: "src_read (n - length acc) src = (cs, f, s)"
    by (cases "src_read (n - length acc) src") auto
  note facts = src_read_clean [OF "1.prems"(1) r]
  show ?case
  proof (cases f)
    case None
    have "read_loop n (acc @ cs) s = ((acc @ cs) @ src_bytes s, Some EOF, [])"
      using "1.IH" [OF _ r [symmetric] _ None] facts "1.prems" by simp
    then show ?thesis using "1.prems" r facts(2) None by (simp add: read_loop.simps [of n acc src])
  next
    case (Some e)
    with facts(3) r "1.prems" show ?thesis by (auto simp: read_loop.simps [of n acc "[]"])
  qed
qed

lemma readFull_clean_short:
  "src_clean src \<Longrightarrow> length (src_bytes src) < n \<Longrightarrow>
   readFull n src = (src_bytes src, Some (if src_bytes src = [] then EOF else UnexpectedEOF), [])"
  using read_loop_clean_short [of src "[]" n] by (simp add: readFull_def)

text \<open>A \<open>bufio.Reader\<close> hands out the bytes of a read before the error that came with them.\<close>

definition bufioReader :: "source \<Rightarrow> source" where
  "bufioReader src = concat (map (\<lambda>(bs, e). if e = None then [(bs, None)] else [(bs, None), ([], e)]) src)"

lemma bufioReader_bytes [simp]: "src_bytes (bufioReader src) = src_bytes src"
  by (induction src) (auto simp: bufioReader_def)

lemma bufioReader_clean [simp]: "src_clean src \<Longrightarrow> src_clean (bufioReader src)"
  by (induction src) (auto simp: bufioReader_def)

subsection \<open>Sources whose only errors are timeouts\<close>

text \<open>A recoverable deadline shows up as a \<open>Timeout\<close> between, or together with, some bytes.\<close>

definition soft :: "goerr option \<Rightarrow> bool" where
  "soft e \<longleftrightarrow> (case e of None \<Rightarrow> True | Some x \<Rightarrow> isTimeout x)"

definition src_calm :: "source \<Rightarrow> bool" where
  "src_calm src \<longleftrightarrow> (\<forall>c \<in> set src. soft (snd c))"

lemma soft_simps [simp]: "soft None" "soft (Some e) = isTimeout e"
  by (auto simp: soft_def)

lemma src_calm_simps [simp]:
  "src_calm []" "src_calm (c # src) \<longleftrightarrow> soft (snd c) \<and> src_calm src"
  by (auto simp: src_calm_def)

lemma src_clean_calm: "src_clean src \<Longrightarrow> src_calm src"
  by (auto simp: src_clean_def src_calm_def)

lemma src_read_calm:
  assumes "src_calm src" "src_read n src = (bs, e, src')" "src \<noteq> []" "0 < n"
  shows "src_calm src'" "src_bytes src = bs @ src_bytes src'" "soft e" "src_size src' < src_size src"
  using assms by (cases "(n, src)" rule: src_read.cases; auto split: if_splits)+

lemma read_loop_calm:
  "src_calm src \<Longrightarrow> length acc < n \<Longrightarrow> n \<le> length acc + length (src_bytes src) \<Longrightarrow>
   read_loop n acc src = (bs, e, src') \<Longrightarrow>
   src_calm src' \<and> acc @ src_bytes src = bs @ src_bytes src' \<and> soft e \<and> src_size src' < src_size src"
proof (induction n acc src arbitrary: bs e src' rule: read_loop.induct)
  case (1 n acc src)
  obtain cs f s where r: "src_read (n - length acc) src = (cs, f, s)"
    by (cases "src_read (n - length acc) src") auto
  have ne: "src \<noteq> []" using "1.prems" by auto
  note facts = src_read_calm [OF "1.prems"(1) r ne] and l = src_read_length [OF r]
  show ?case
  proof (cases f)
    case (Some x)
    then show ?thesis using "1.prems" r facts by (auto simp: read_loop.simps [of n acc src])
  next
    case None
    then have eq: "read_loop n (acc @ cs) s = (bs, e, src')"
      using "1.prems" r by (simp add: read_loop.simps [of n acc src])
    show ?thesis
    proof (cases "length (acc @ cs) < n")
      case True
      have "n \<le> length (acc @ cs) + length (src_bytes s)" using facts "1.prems" by simp
      from "1.IH" [OF "1.prems"(2) r [symmetric] refl None _ True this eq] facts "1.prems"
      show ?thesis by auto
    next
      case False
      then show ?thesis using eq facts "1.prems" by (auto simp: read_loop.simps [of n "acc @ cs" s])
    qed
  qed
qed

lemma readFull_calm:
  assumes "src_calm src" "0 < n" "n \<le> length (src_bytes src)" "readFull n src = (bs, e, src')"
  shows "src_calm src'" "src_bytes src = bs @ src_bytes src'" "soft e" "src_size src' < src_size src"
proof -
  obtain cs f s where r: "read_loop n [] src = (cs, f, s)" by (cases "read_loop n [] src") auto
  have k: "src_calm s \<and> src_bytes src = cs @ src_bytes s \<and> soft f \<and> src_size s < src_size src"
    using read_loop_calm [OF assms(1) _ _ r] assms(2,3) by simp
  have eq: "bs = cs" "src' = s" "e = (if n \<le> length cs then None else if cs \<noteq> [] \<and> f = Some EOF then Some UnexpectedEOF else f)"
    using assms(4) r by (auto simp: readFull_def)
  show "src_calm src'" "src_bytes src = bs @ src_bytes src'" "src_size src' < src_size src"
    using k eq by auto
  show "soft e" using k eq(3) by auto
qed

text \<open>A read that is interrupted by a timeout consumes more of the script than the bytes it delivers.\<close>

lemma read_loop_calm_strict:
  "src_calm src \<Longrightarrow> n \<le> length acc + length (src_bytes src) \<Longrightarrow> read_loop n acc src = (bs, Some x, src') \<Longrightarrow>
   src_size src' + length bs < src_size src + length acc"
proof (induction n acc src arbitrary: bs x src' rule: read_loop.induct)
  case (1 n acc src)
  have lt: "length acc < n" using "1.prems"(3) by (auto simp: read_loop.simps [of n acc src] split: if_splits)
  obtain cs f s where r: "src_read (n - length acc) src = (cs, f, s)"
    by (cases "src_read (n - length acc) src") auto
  have ne: "src \<noteq> []" using "1.prems"(2) lt by auto
  note facts = src_read_calm [OF "1.prems"(1) r ne]
  have le: "src_size s + length cs \<le> src_size src" "f \<noteq> None \<Longrightarrow> src_size s + length cs < src_size src"
    using r ne by (cases "(n - length acc, src)" rule: src_read.cases; auto split: if_splits)+
  show ?case
  proof (cases f)
    case None
    have "read_loop n (acc @ cs) s = (bs, Some x, src')" using "1.prems"(3) lt r None by (simp add: read_loop.simps [of n acc src])
    from "1.IH" [OF lt r [symmetric] refl None _ _ this] facts "1.prems"(2) lt le(1) show ?thesis by simp
  next
    case (Some y)
    then show ?thesis using "1.prems"(3) lt r le(2) by (auto simp: read_loop.simps [of n acc src])
  qed
qed

lemma readFull_calm_strict:
  assumes "src_calm src" "n \<le> length (src_bytes src)" "readFull n src = (bs, Some e, src')"
  shows "src_size src' + length bs < src_size src"
proof -
  obtain cs f s where r: "read_loop n [] src = (cs, f, s)" by (cases "read_loop n [] src") auto
  then obtain x where "f = Some x" "bs = cs" "src' = s" using assms(3) by (auto simp: readFull_def split: if_splits)
  then show ?thesis using read_loop_calm_strict [OF assms(1), of n "[]"] assms(2) r by auto
qed

lemma bufioReader_calm [simp]: "src_calm src \<Longrightarrow> src_calm (bufioReader src)"
  by (induction src) (auto simp: bufioReader_def)

subsection \<open>Writers\<close>

record sink =
  snk_out :: bytes
  snk_resp :: "(nat \<times> goerr option) list"

definition sink_write :: "bytes \<Rightarrow> sink \<Rightarrow> nat \<times> goerr option \<times> sink" where
  "sink_write p s =
     (case snk_resp s of
        [] \<Rightarrow> (length p, None, s\<lparr>snk_out := snk_out s @ p\<rparr>)
      | (n, e) # r \<Rightarrow>
          (let k = min n (length p)
           in (k, e, s\<lparr>snk_out := snk_out s @ take k p, snk_resp := r\<rparr>)))"

definition sink_ok :: "sink \<Rightarrow> bool" where
  "sink_ok s \<longleftrightarrow> snk_resp s = []"

lemma sink_write_ok [simp]:
  "sink_ok s \<Longrightarrow> sink_write p s = (length p, None, s\<lparr>snk_out := snk_out s @ p\<rparr>)"
  by (simp add: sink_write_def sink_ok_def)

lemma sink_ok_out [simp]: "sink_ok (s\<lparr>snk_out := b\<rparr>) = sink_ok s"
  by (simp add: sink_ok_def)

lemma sink_write_le: "sink_write p s = (n, e, s') \<Longrightarrow> n \<le> length p \<and> snk_out s' = snk_out s @ take n p"
  by (auto simp: sink_write_def Let_def split: list.splits prod.splits)

end
