(* ===== verification/Interfaces.thy ===== *)
theory Interfaces
  imports GoIO
begin

text \<open>
  The interfaces of the program, each as a locale: what a client component relies on
  and what follows from it once, for every provider. \<open>byte_channel\<close> is the contract
  of a framed writer and its reader (frame streams, RawStream and H1 record streams);
  \<open>replay_guard\<close> is the contract of an anti-replay filter.
\<close>

subsection \<open>Framed byte channels\<close>

text \<open>Read with buffers of \<open>n\<close> bytes until the first error that is not a recoverable timeout.\<close>

fun drain :: "(nat \<Rightarrow> 'r \<Rightarrow> bytes \<times> goerr option \<times> 'r) \<Rightarrow> nat \<Rightarrow> nat \<Rightarrow> 'r \<Rightarrow> (bytes \<times> goerr) option" where
  "drain rd 0 n r = None"
| "drain rd (Suc fuel) n r =
     (case rd n r of
        (bs, e, r') \<Rightarrow>
          if soft e then map_option (\<lambda>(cs, e). (bs @ cs, e)) (drain rd fuel n r')
          else Some (bs, the e))"

fun write_all :: "(bytes \<Rightarrow> 'w \<Rightarrow> nat \<times> goerr option \<times> 'w) \<Rightarrow> bytes list \<Rightarrow> 'w \<Rightarrow> goerr option \<times> 'w" where
  "write_all wr [] w = (None, w)"
| "write_all wr (p # ps) w =
     (case wr p w of
        (n, Some e, w') \<Rightarrow> (Some e, w')
      | (n, None, w') \<Rightarrow> write_all wr ps w')"

text \<open>
  \<open>carries r pl\<close>: the reader's unread input is the encoding of \<open>pl\<close> and its end mark, which
  the reader reports as \<open>fin\<close>. \<open>bound\<close> is the largest read buffer the reader is specified
  for. \<open>wrote w pl\<close>: the writer works and has accepted the plaintext \<open>pl\<close>; \<open>allowed pl\<close>: the
  channel is specified for it.
\<close>

locale framed_reader =
  fixes rd :: "nat \<Rightarrow> 'r \<Rightarrow> bytes \<times> goerr option \<times> 'r"
    and carries :: "'r \<Rightarrow> bytes \<Rightarrow> bool"
    and rsize :: "'r \<Rightarrow> nat"
    and bound :: nat
    and fin :: goerr
  assumes fin_hard: "\<not> isTimeout fin"
    and read_progress: "carries r pl \<Longrightarrow> 0 < n \<Longrightarrow> n \<le> bound \<Longrightarrow> rd n r = (bs, e, r') \<Longrightarrow>
      (soft e \<and> (\<exists>pl'. pl = bs @ pl' \<and> carries r' pl') \<and> rsize r' < rsize r) \<or>
      (e = Some fin \<and> bs = [] \<and> pl = [])"
begin

lemma drain_carries:
  "carries r pl \<Longrightarrow> 0 < n \<Longrightarrow> n \<le> bound \<Longrightarrow> rsize r < fuel \<Longrightarrow> drain rd fuel n r = Some (pl, fin)"
proof (induction fuel arbitrary: r pl)
  case 0
  then show ?case by simp
next
  case (Suc fuel)
  obtain bs e r' where r: "rd n r = (bs, e, r')" by (cases "rd n r") auto
  from read_progress [OF Suc.prems(1,2,3) r]
  consider (more) pl' where "soft e" "pl = bs @ pl'" "carries r' pl'" "rsize r' < rsize r"
    | (stop) "e = Some fin" "bs = []" "pl = []" by blast
  then show ?case
  proof cases
    case more
    then have "drain rd fuel n r' = Some (pl', fin)" using Suc by simp
    then show ?thesis using r more by simp
  next
    case stop
    then show ?thesis using r fin_hard by simp
  qed
qed

end

text \<open>A writer together with the reader of its encoding, which ends in a clean \<open>EOF\<close>.\<close>

locale byte_channel = framed_reader rd carries rsize bound EOF
  for rd :: "nat \<Rightarrow> 'r \<Rightarrow> bytes \<times> goerr option \<times> 'r"
    and carries :: "'r \<Rightarrow> bytes \<Rightarrow> bool"
    and rsize :: "'r \<Rightarrow> nat"
    and bound :: nat +
  fixes wr :: "bytes \<Rightarrow> 'w \<Rightarrow> nat \<times> goerr option \<times> 'w"
    and closew :: "'w \<Rightarrow> goerr option \<times> 'w"
    and wire :: "'w \<Rightarrow> bytes"
    and wrote :: "'w \<Rightarrow> bytes \<Rightarrow> bool"
    and reader :: "source \<Rightarrow> 'r"
    and allowed :: "bytes \<Rightarrow> bool"
  assumes allowed_prefix: "allowed (pl @ p) \<Longrightarrow> allowed pl"
    and write_accepts: "wrote w pl \<Longrightarrow> allowed (pl @ p) \<Longrightarrow> wr p w = (n, e, w') \<Longrightarrow> n = length p \<and> e = None \<and> wrote w' (pl @ p)"
    and close_carries: "wrote w pl \<Longrightarrow> allowed pl \<Longrightarrow> closew w = (e, w') \<Longrightarrow>
      e = None \<and> (\<forall>src. src_calm src \<longrightarrow> src_bytes src = wire w' \<longrightarrow> carries (reader src) pl)"
begin

lemma write_all_wrote:
  "wrote w pl \<Longrightarrow> allowed (pl @ concat ps) \<Longrightarrow> \<exists>w'. write_all wr ps w = (None, w') \<and> wrote w' (pl @ concat ps)"
proof (induction ps arbitrary: w pl)
  case Nil
  then show ?case by simp
next
  case (Cons p ps)
  obtain n e w1 where w1: "wr p w = (n, e, w1)" by (cases "wr p w") auto
  have a: "allowed ((pl @ p) @ concat ps)" using Cons.prems(2) by simp
  have "e = None" "wrote w1 (pl @ p)" using write_accepts [OF Cons.prems(1) allowed_prefix [OF a] w1] by auto
  with Cons.IH [of w1 "pl @ p"] w1 a show ?case by auto
qed

text \<open>Everything written before the close, and nothing else, comes out, followed by a clean end.\<close>

lemma roundtrip:
  assumes "wrote w []" "allowed (concat ps)" "write_all wr ps w = (e1, w1)" "closew w1 = (e2, w2)"
    and "src_calm src" "src_bytes src = wire w2" "0 < n" "n \<le> bound" "rsize (reader src) < fuel"
  shows "e1 = None \<and> e2 = None \<and> drain rd fuel n (reader src) = Some (concat ps, EOF)"
proof -
  have w1: "e1 = None" "wrote w1 (concat ps)" using write_all_wrote [OF assms(1), of ps] assms(2,3) by auto
  have "e2 = None" "carries (reader src) (concat ps)"
    using close_carries [OF w1(2) assms(2,4)] assms(5,6) by auto
  then show ?thesis using w1 drain_carries assms(7,8,9) by blast
qed

end

subsection \<open>Readers of sealed records\<close>

text \<open>The encoding of a list of plaintexts under a stream state that advances with every record.\<close>

fun sealed_run :: "('s \<Rightarrow> bytes \<Rightarrow> bytes) \<Rightarrow> ('s \<Rightarrow> 's) \<Rightarrow> 's \<Rightarrow> bytes list \<Rightarrow> bytes" where
  "sealed_run seal nxt s [] = []"
| "sealed_run seal nxt s (c # cs) = seal s c @ sealed_run seal nxt (nxt s) cs"

text \<open>
  A reader that delivers only what it could open: a read hands out buffered plaintext, or leaves the
  input as it is, or consumes exactly one sealed record, or meets the sealed empty record that marks
  the end, or fails. \<open>input\<close> is all input not yet opened, including partially read records.
\<close>

locale authentic_reader =
  fixes rd :: "nat \<Rightarrow> 'r \<Rightarrow> bytes \<times> goerr option \<times> 'r"
    and wf :: "'r \<Rightarrow> bool"
    and buffered :: "'r \<Rightarrow> bytes"
    and input :: "'r \<Rightarrow> bytes"
    and stream :: "'r \<Rightarrow> 's"
    and seal :: "'s \<Rightarrow> bytes \<Rightarrow> bytes"
    and nxt :: "'s \<Rightarrow> 's"
  assumes read_buffered: "wf r \<Longrightarrow> buffered r \<noteq> [] \<Longrightarrow> 0 < n \<Longrightarrow> rd n r = (bs, e, r') \<Longrightarrow>
      soft e \<and> wf r' \<and> bs @ buffered r' = buffered r \<and> stream r' = stream r \<and> input r' = input r"
    and read_outcome: "wf r \<Longrightarrow> buffered r = [] \<Longrightarrow> 0 < n \<Longrightarrow> rd n r = (bs, e, r') \<Longrightarrow>
      (soft e \<and> wf r' \<and> bs = [] \<and> buffered r' = [] \<and> stream r' = stream r \<and> input r' = input r) \<or>
      (soft e \<and> wf r' \<and> input r = seal (stream r) (bs @ buffered r') @ input r' \<and> stream r' = nxt (stream r)) \<or>
      (e = Some EOF \<and> bs = [] \<and> input r = seal (stream r) [] @ input r') \<or>
      (\<not> soft e \<and> e \<noteq> Some EOF)"
begin

text \<open>A clean end is reported only after the sealed end mark, with every record before it delivered in order.\<close>

lemma drain_authentic:
  "wf r \<Longrightarrow> 0 < n \<Longrightarrow> drain rd fuel n r = Some (pl, EOF) \<Longrightarrow>
   \<exists>cs rest. pl = buffered r @ concat cs \<and> input r = sealed_run seal nxt (stream r) (cs @ [[]]) @ rest"
proof (induction fuel arbitrary: r pl)
  case 0
  then show ?case by simp
next
  case (Suc fuel)
  obtain bs e r' where rd: "rd n r = (bs, e, r')" by (cases "rd n r") auto
  have next_read: "\<exists>cs rest. pl = bs @ buffered r' @ concat cs \<and> input r' = sealed_run seal nxt (stream r') (cs @ [[]]) @ rest"
    if "soft e" "wf r'" using Suc.prems(2,3) Suc.IH [OF that(2)] rd that(1) by (auto split: option.splits)
  show ?case
  proof (cases "buffered r = []")
    case False
    from read_buffered [OF Suc.prems(1) False Suc.prems(2) rd] next_read show ?thesis by (metis append.assoc)
  next
    case True
    from read_outcome [OF Suc.prems(1) True Suc.prems(2) rd]
    consider (wait) "soft e" "wf r'" "bs = []" "buffered r' = []" "stream r' = stream r" "input r' = input r"
      | (data) "soft e" "wf r'" "input r = seal (stream r) (bs @ buffered r') @ input r'" "stream r' = nxt (stream r)"
      | (stop) "e = Some EOF" "bs = []" "input r = seal (stream r) [] @ input r'"
      | (fail) "\<not> soft e" "e \<noteq> Some EOF" by blast
    then show ?thesis
    proof cases
      case wait
      then show ?thesis using next_read True by simp
    next
      case data
      obtain cs rest where "pl = bs @ buffered r' @ concat cs" "input r' = sealed_run seal nxt (stream r') (cs @ [[]]) @ rest"
        using next_read [OF data(1,2)] by blast
      then show ?thesis using data True by (intro exI [of _ "(bs @ buffered r') # cs"] exI [of _ rest]) simp
    next
      case stop
      then have "pl = []" using Suc.prems(3) rd by simp
      then show ?thesis using stop True by (intro exI [of _ "[]"] exI [of _ "input r'"]) simp
    next
      case fail
      then show ?thesis using Suc.prems(3) rd by (cases e) auto
    qed
  qed
qed

end

subsection \<open>Anti-replay filters\<close>

fun accept_run :: "('s \<Rightarrow> 'i \<Rightarrow> bool \<times> 's) \<Rightarrow> 's \<Rightarrow> 'i list \<Rightarrow> 'i list" where
  "accept_run acc s [] = []"
| "accept_run acc s (i # is) =
     (case acc s i of (ok, s') \<Rightarrow> (if ok then i # accept_run acc s' is else accept_run acc s' is))"

text \<open>The state after a sequence of identities.\<close>

definition state_after :: "('s \<Rightarrow> 'i \<Rightarrow> bool \<times> 's) \<Rightarrow> 's \<Rightarrow> 'i list \<Rightarrow> 's" where
  "state_after acc s is = foldl (\<lambda>s i. snd (acc s i)) s is"

lemma state_after_simps [simp]:
  "state_after acc s [] = s" "state_after acc s (is @ [i]) = snd (acc (state_after acc s is) i)"
  by (simp_all add: state_after_def)

locale replay_guard =
  fixes accept :: "'s \<Rightarrow> 'i \<Rightarrow> bool \<times> 's"
    and inv :: "'s \<Rightarrow> bool"
    and blocked :: "'s \<Rightarrow> 'i \<Rightarrow> bool"
  assumes inv_accept: "inv s \<Longrightarrow> inv (snd (accept s i))"
    and blocked_rejects: "inv s \<Longrightarrow> blocked s i \<Longrightarrow> \<not> fst (accept s i)"
    and accept_blocks: "inv s \<Longrightarrow> fst (accept s i) \<Longrightarrow> blocked (snd (accept s i)) i"
    and blocked_stays: "inv s \<Longrightarrow> blocked s j \<Longrightarrow> blocked (snd (accept s i)) j"
begin

lemma inv_state_after: "inv s \<Longrightarrow> inv (state_after accept s is)"
  by (induction "is" rule: rev_induct) (use inv_accept in auto)

lemma run_avoids_blocked:
  "inv s \<Longrightarrow> blocked s j \<Longrightarrow> j \<notin> set (accept_run accept s is)"
proof (induction "is" arbitrary: s)
  case Nil
  then show ?case by simp
next
  case (Cons i "is")
  have "j \<notin> set (accept_run accept (snd (accept s i)) is)"
    using Cons inv_accept blocked_stays by blast
  then show ?case using blocked_rejects [OF Cons.prems] by (cases "accept s i") auto
qed

text \<open>Whatever the order, the gaps and the repetitions of the input, no identity is admitted twice.\<close>

lemma run_distinct: "inv s \<Longrightarrow> distinct (accept_run accept s is)"
proof (induction "is" arbitrary: s)
  case Nil
  then show ?case by simp
next
  case (Cons i "is")
  have "distinct (accept_run accept (snd (accept s i)) is)"
    using Cons inv_accept by blast
  moreover have "fst (accept s i) \<Longrightarrow> i \<notin> set (accept_run accept (snd (accept s i)) is)"
    using Cons.prems inv_accept accept_blocks run_avoids_blocked by blast
  ultimately show ?case by (cases "accept s i") auto
qed

end

text \<open>The verdicts of a filter on a sequence of identities, and filters that decide like a specification.\<close>

fun verdicts :: "('s \<Rightarrow> 'i \<Rightarrow> bool \<times> 's) \<Rightarrow> 's \<Rightarrow> 'i list \<Rightarrow> bool list" where
  "verdicts acc s [] = []"
| "verdicts acc s (i # is) = fst (acc s i) # verdicts acc (snd (acc s i)) is"

locale filter_refinement =
  fixes acc :: "'s \<Rightarrow> 'i \<Rightarrow> bool \<times> 's"
    and spec :: "'t \<Rightarrow> 'j \<Rightarrow> bool \<times> 't"
    and rel :: "'s \<Rightarrow> 't \<Rightarrow> bool"
    and conv :: "'i \<Rightarrow> 'j"
  assumes step_refines: "rel s t \<Longrightarrow>
    fst (acc s i) = fst (spec t (conv i)) \<and> rel (snd (acc s i)) (snd (spec t (conv i)))"
begin

lemma verdicts_refine: "rel s t \<Longrightarrow> verdicts acc s is = verdicts spec t (map conv is)"
  by (induction "is" arbitrary: s t) (use step_refines in auto)

end

subsection \<open>Self-delimiting address codecs\<close>

text \<open>
  An encoder of destination addresses and a decoder that finds the end of the address by itself.
  \<open>canon\<close> is the address the decoder reports, \<open>fits\<close> what has to follow an encoded address for
  the decoder to accept it.
\<close>

locale addr_codec =
  fixes enc :: "bytes \<Rightarrow> bytes result"
    and dec :: "bytes \<Rightarrow> (bytes \<times> bytes) result"
    and canon :: "bytes \<Rightarrow> bytes"
    and fits :: "bytes \<Rightarrow> bytes \<Rightarrow> bool"
  assumes decode_encode: "enc a = Inr w \<Longrightarrow> fits w rest \<Longrightarrow> dec (w @ rest) = Inr (canon a, rest)"
begin

lemma unambiguous:
  assumes "enc a = Inr w" "enc b = Inr v" "fits w r" "fits v s" "w @ r = v @ s"
  shows "canon a = canon b \<and> r = s"
  using decode_encode [OF assms(1,3)] decode_encode [OF assms(2,4)] assms(5) by simp

lemma decode_canonical: "enc a = Inr w \<Longrightarrow> fits w rest \<Longrightarrow> canon a = a \<Longrightarrow> dec (w @ rest) = Inr (a, rest)"
  using decode_encode by simp

end

end
