(* ===== verification/Frame.thy ===== *)
theory Frame
  imports Interfaces "HOL-Library.Sublist"
begin

text \<open>
  The stream frames of \<^verbatim>\<open>internal/frame\<close>: the 8-byte header, whole frames, the
  copy loop of the relays (\<open>CopyAsDataFrames\<close>, \<open>CopyAsDataFramesAndClose\<close>), the
  concurrent-safe \<open>StreamWriter\<close> and the resumable \<open>StreamReader\<close>. The last two
  form a \<open>byte_channel\<close>. Buffer pools appear only through the capacities they hand
  out; the locks make each method one atomic operation.
\<close>

abbreviation (input) HeaderSize :: nat where "HeaderSize \<equiv> 8"
abbreviation (input) FrameVersion :: byte where "FrameVersion \<equiv> 1"
definition DataChunkSize :: nat where "DataChunkSize = 262144"
definition MaxPayload :: nat where "MaxPayload = 16777216"

abbreviation (input) TypeOpen :: byte where "TypeOpen \<equiv> 1"
abbreviation (input) TypeOpenAck :: byte where "TypeOpenAck \<equiv> 2"
abbreviation (input) TypeData :: byte where "TypeData \<equiv> 3"
abbreviation (input) TypeHalfClose :: byte where "TypeHalfClose \<equiv> 4"
abbreviation (input) TypeReset :: byte where "TypeReset \<equiv> 5"
abbreviation (input) TypeWindowUpdate :: byte where "TypeWindowUpdate \<equiv> 6"

record frame_header =
  fh_Type :: byte
  fh_Flags :: u16
  fh_Length :: u32

definition parse_header :: "bytes \<Rightarrow> frame_header" where
  "parse_header raw = \<lparr>fh_Type = raw ! 1, fh_Flags = getUint16 (gslice 2 4 raw), fh_Length = getUint32 (gslice 4 8 raw)\<rparr>"

definition ReadHeader :: "source \<Rightarrow> frame_header result \<times> source" where
  "ReadHeader r =
     (case readFull HeaderSize r of
        (raw, Some e, r') \<Rightarrow> (Inl e, r')
      | (raw, None, r') \<Rightarrow>
          if raw ! 0 \<noteq> FrameVersion then (Inl (Errorf ''unsupported frame version''), r')
          else let header = parse_header raw
               in if MaxPayload < unat (fh_Length header) then (Inl (Errorf ''frame payload too large''), r')
                  else (Inr header, r'))"

text \<open>On a short read Go returns the zero-filled buffer together with the error.\<close>

definition ReadPayload :: "source \<Rightarrow> u32 \<Rightarrow> bytes \<times> goerr option \<times> source" where
  "ReadPayload r len =
     (if MaxPayload < unat len then ([], Some (Errorf ''frame payload too large''), r)
      else case readFull (unat len) r of
             (bs, e, r') \<Rightarrow> (bs @ replicate (unat len - length bs) 0, e, r'))"

definition encodeHeader :: "byte \<Rightarrow> u16 \<Rightarrow> u32 \<Rightarrow> bytes" where
  "encodeHeader frameType flags len = [FrameVersion, frameType] @ putUint16 flags @ putUint32 len"

function writeFull :: "sink \<Rightarrow> bytes \<Rightarrow> goerr option \<times> sink" where
  "writeFull w payload =
     (if payload = [] then (None, w)
      else case sink_write payload w of
             (n, Some e, w') \<Rightarrow> (Some e, w')
           | (n, None, w') \<Rightarrow>
               if n = 0 then (Some ErrShortWrite, w') else writeFull w' (drop n payload))"
  by pat_completeness auto
termination
  by (relation "measure (\<lambda>(w, p). length p)") auto

declare writeFull.simps [simp del]

definition WriteFrame :: "sink \<Rightarrow> byte \<Rightarrow> u16 \<Rightarrow> bytes \<Rightarrow> goerr option \<times> sink" where
  "WriteFrame w frameType flags payload =
     (if MaxPayload < length payload then (Some (Errorf ''frame payload too large''), w)
      else writeFull w (encodeHeader frameType flags (word_of_nat (length payload)) @ payload))"

function copyDataLoop :: "sink \<Rightarrow> source \<Rightarrow> nat \<Rightarrow> nat \<times> goerr option \<times> sink \<times> source" where
  "copyDataLoop w r tot =
     (case src_read DataChunkSize r of
        (bs, readErr, r') \<Rightarrow>
          (case (if bs \<noteq> [] then writeFull w (encodeHeader TypeData 0 (word_of_nat (length bs)) @ bs)
                 else (None, w)) of
             (Some e, w') \<Rightarrow> (tot, Some e, w', r')
           | (None, w') \<Rightarrow>
               (case readErr of
                  None \<Rightarrow> copyDataLoop w' r' (tot + length bs)
                | Some e \<Rightarrow> (tot + length bs, if e = EOF then None else Some e, w', r'))))"
  by pat_completeness auto
termination
  by (relation "measure (\<lambda>(w, r, tot). src_size r)")
    (auto simp: DataChunkSize_def dest: src_read_size [OF sym])

declare copyDataLoop.simps [simp del]

definition CopyAsDataFrames :: "sink \<Rightarrow> source \<Rightarrow> nat \<times> goerr option \<times> sink \<times> source" where
  "CopyAsDataFrames w r = copyDataLoop w r 0"

definition CopyAsDataFramesAndClose :: "sink \<Rightarrow> source \<Rightarrow> goerr option \<times> sink" where
  "CopyAsDataFramesAndClose w r =
     (case CopyAsDataFrames w r of
        (_, Some e, w', _) \<Rightarrow> (Some e, snd (WriteFrame w' TypeReset 0 []))
      | (_, None, w', _) \<Rightarrow> WriteFrame w' TypeHalfClose 0 [])"

subsection \<open>StreamWriter\<close>

record stream_writer =
  sw_w :: sink
  sw_closed :: bool
  sw_failed :: "goerr option"

definition NewStreamWriter :: "sink \<Rightarrow> stream_writer" where
  "NewStreamWriter w = \<lparr>sw_w = w, sw_closed = False, sw_failed = None\<rparr>"

text \<open>The payload capacity of the pooled buffer that is borrowed for a call.\<close>

definition streamWritePool :: "nat \<Rightarrow> nat" where
  "streamWritePool payload =
     (if payload \<le> 256 then 256
      else if payload \<le> 4096 then 4096
      else if payload \<le> 32768 then 32768
      else DataChunkSize)"

text \<open>One DATA frame per round; slicing the borrowed buffer past its end would panic.\<close>

function sw_loop :: "nat \<Rightarrow> stream_writer \<Rightarrow> nat \<Rightarrow> bytes \<Rightarrow> nat \<times> goerr option \<times> stream_writer" where
  "sw_loop cap w n p =
     (if p = [] then (n, None, w)
      else let size = min (length p) DataChunkSize
           in if cap < size then (n, Some (Errorf ''panic: slice bounds out of range''), w)
              else case writeFull (sw_w w) (encodeHeader TypeData 0 (word_of_nat size) @ take size p) of
                     (Some e, s) \<Rightarrow> (n, Some e, w\<lparr>sw_w := s, sw_failed := Some e\<rparr>)
                   | (None, s) \<Rightarrow> sw_loop cap (w\<lparr>sw_w := s\<rparr>) (n + size) (drop size p))"
  by pat_completeness auto
termination
  by (relation "measure (\<lambda>(cap, w, n, p). length p)") (auto simp: DataChunkSize_def)

declare sw_loop.simps [simp del]

definition StreamWriter_Write :: "bytes \<Rightarrow> stream_writer \<Rightarrow> nat \<times> goerr option \<times> stream_writer" where
  "StreamWriter_Write p w =
     (case sw_failed w of
        Some e \<Rightarrow> (0, Some e, w)
      | None \<Rightarrow>
          if sw_closed w then (0, Some ErrClosedPipe, w)
          else if p = [] then (0, None, w)
          else sw_loop (streamWritePool (min (length p) DataChunkSize)) w 0 p)"

definition StreamWriter_CloseWrite :: "stream_writer \<Rightarrow> goerr option \<times> stream_writer" where
  "StreamWriter_CloseWrite w =
     (case sw_failed w of
        Some e \<Rightarrow> (Some e, w)
      | None \<Rightarrow>
          if sw_closed w then (None, w)
          else case WriteFrame (sw_w w) TypeHalfClose 0 [] of
                 (e, s) \<Rightarrow> (e, \<lparr>sw_w = s, sw_closed = True, sw_failed = e\<rparr>))"

subsection \<open>StreamReader\<close>

text \<open>
  \<open>sr_header\<close> is the part of the header buffer that is filled (\<open>header[:headerRead]\<close>); it
  survives a timeout in the middle of a header.
\<close>

record stream_reader =
  sr_r :: source
  sr_remaining :: u32
  sr_terminal :: "goerr option"
  sr_header :: bytes

definition NewStreamReader :: "source \<Rightarrow> stream_reader" where
  "NewStreamReader r = \<lparr>sr_r = r, sr_remaining = 0, sr_terminal = None, sr_header = []\<rparr>"

definition sr_data :: "nat \<Rightarrow> stream_reader \<Rightarrow> bytes \<times> goerr option \<times> stream_reader" where
  "sr_data n r =
     (let m = (if sr_remaining r < (word_of_nat n :: u32) then unat (sr_remaining r) else n)
      in case src_read m (sr_r r) of
           (bs, e, src) \<Rightarrow>
             let e' = (if e = Some EOF then Some UnexpectedEOF else e);
                 r' = r\<lparr>sr_r := src, sr_remaining := sr_remaining r - word_of_nat (length bs)\<rparr>
             in case e' of
                  None \<Rightarrow> (bs, None, r')
                | Some x \<Rightarrow> (bs, Some x, if isTimeout x then r' else r'\<lparr>sr_terminal := Some x\<rparr>))"

definition sr_frame :: "bytes \<Rightarrow> stream_reader \<Rightarrow> stream_reader" where
  "sr_frame raw r =
     (let h = parse_header raw; r' = r\<lparr>sr_header := []\<rparr>
      in if raw ! 0 \<noteq> FrameVersion \<or> MaxPayload < unat (fh_Length h)
         then r'\<lparr>sr_terminal := Some (Errorf ''invalid stream frame header'')\<rparr>
         else if fh_Flags h \<noteq> 0 then r'\<lparr>sr_terminal := Some (Errorf ''unsupported stream frame flags'')\<rparr>
         else if fh_Type h = TypeData then
           (if fh_Length h = 0 then r'\<lparr>sr_terminal := Some (Errorf ''empty DATA frame'')\<rparr>
            else r'\<lparr>sr_remaining := fh_Length h\<rparr>)
         else if fh_Type h = TypeHalfClose then
           (if fh_Length h \<noteq> 0 then r'\<lparr>sr_terminal := Some (Errorf ''invalid HALF_CLOSE frame'')\<rparr>
            else r'\<lparr>sr_terminal := Some EOF\<rparr>)
         else if fh_Type h = TypeReset then r'\<lparr>sr_terminal := Some (Errorf ''peer reset stream'')\<rparr>
         else r'\<lparr>sr_terminal := Some (Errorf ''unexpected stream frame'')\<rparr>)"

lemma sr_frame_progress:
  "sr_terminal (sr_frame raw r) = None \<Longrightarrow> sr_remaining (sr_frame raw r) \<noteq> 0 \<or> sr_terminal r \<noteq> None"
  by (auto simp: sr_frame_def Let_def split: if_splits)

function sr_loop :: "nat \<Rightarrow> stream_reader \<Rightarrow> bytes \<times> goerr option \<times> stream_reader" where
  "sr_loop n r =
     (case sr_terminal r of
        Some e \<Rightarrow> ([], Some e, r)
      | None \<Rightarrow>
          if sr_remaining r \<noteq> 0 then sr_data n r
          else case readFull (HeaderSize - length (sr_header r)) (sr_r r) of
                 (bs, Some e, src) \<Rightarrow>
                   (let r' = r\<lparr>sr_r := src, sr_header := sr_header r @ bs\<rparr>
                    in if isTimeout e then ([], Some e, r')
                       else let e' = (if e = EOF then UnexpectedEOF else e)
                            in ([], Some e', r'\<lparr>sr_terminal := Some e'\<rparr>))
               | (bs, None, src) \<Rightarrow>
                   sr_loop n (sr_frame (sr_header r @ bs) (r\<lparr>sr_r := src\<rparr>)))"
  by pat_completeness auto
termination
proof (relation "measure (\<lambda>(n, r). if sr_terminal r \<noteq> None then 0 else if sr_remaining r \<noteq> 0 then 1 else (2::nat))", goal_cases)
  case 1
  show ?case by simp
next
  case (2 n r x y bs z)
  then show ?case
    using sr_frame_progress [of "sr_header r @ x" "r\<lparr>sr_r := z\<rparr>"] by auto
qed

declare sr_loop.simps [simp del]

definition StreamReader_Read :: "nat \<Rightarrow> stream_reader \<Rightarrow> bytes \<times> goerr option \<times> stream_reader" where
  "StreamReader_Read n r = (if n = 0 then ([], None, r) else sr_loop n r)"

subsection \<open>Headers and whole frames\<close>

lemma length_encodeHeader [simp, wire_simps]: "length (encodeHeader t f l) = 8"
  by (simp add: encodeHeader_def)

lemma encodeHeader_0 [simp]: "encodeHeader t f l ! 0 = FrameVersion"
  by (simp add: encodeHeader_def)

lemma parse_encodeHeader [simp]:
  "parse_header (encodeHeader t f l) = \<lparr>fh_Type = t, fh_Flags = f, fh_Length = l\<rparr>"
  by (simp add: parse_header_def encodeHeader_def gslice_def numeral_eq_Suc)

lemma writeFull_ok [simp]:
  "sink_ok w \<Longrightarrow> writeFull w p = (None, w\<lparr>snk_out := snk_out w @ p\<rparr>)"
  by (subst writeFull.simps) (auto simp: writeFull.simps [of _ "[]"])

text \<open>Whatever the writer does, what reached it is a prefix, and all of it when no error is reported.\<close>

lemma writeFull_prefix:
  "writeFull w p = (e, w') \<Longrightarrow> \<exists>k. k \<le> length p \<and> snk_out w' = snk_out w @ take k p \<and> (e = None \<longrightarrow> k = length p)"
proof (induction w p arbitrary: e w' rule: writeFull.induct)
  case (1 w p)
  obtain n f s where sw: "sink_write p w = (n, f, s)" by (cases "sink_write p w") auto
  note le = sink_write_le [OF sw]
  consider "p = []" | "p \<noteq> []" "f \<noteq> None \<or> n = 0" | "p \<noteq> []" "f = None" "n \<noteq> 0" by auto
  then show ?case
  proof cases
    case 1
    with "1.prems" show ?thesis by (auto simp: writeFull.simps [of w])
  next
    case 2
    with "1.prems" sw le show ?thesis
      by (intro exI [of _ n]) (auto simp: writeFull.simps [of w] split: option.splits if_splits)
  next
    case 3
    then have eq: "writeFull s (drop n p) = (e, w')" using "1.prems" sw by (simp add: writeFull.simps [of w])
    obtain k where "k \<le> length (drop n p)" "snk_out w' = snk_out s @ take k (drop n p)"
      "e = None \<longrightarrow> k = length (drop n p)"
      using "1.IH" [OF 3(1) sw [symmetric] refl 3(2,3) eq] by auto
    with le show ?thesis by (intro exI [of _ "n + k"]) (auto simp: take_add)
  qed
qed

definition data_frame :: "bytes \<Rightarrow> bytes" where
  "data_frame c = encodeHeader TypeData 0 (word_of_nat (length c)) @ c"

definition eof_frame :: bytes where
  "eof_frame = encodeHeader TypeHalfClose 0 0"

definition reset_frame :: bytes where
  "reset_frame = encodeHeader TypeReset 0 0"

definition frames_of :: "bytes list \<Rightarrow> bytes" where
  "frames_of cs = concat (map data_frame cs)"

definition chunks_ok :: "bytes list \<Rightarrow> bool" where
  "chunks_ok cs \<longleftrightarrow> (\<forall>c \<in> set cs. c \<noteq> [] \<and> length c \<le> DataChunkSize)"

lemma frames_of_simps [simp]:
  "frames_of [] = []" "frames_of (c # cs) = data_frame c @ frames_of cs"
  "frames_of (as @ bs) = frames_of as @ frames_of bs"
  by (simp_all add: frames_of_def)

lemma chunks_ok_simps [simp]:
  "chunks_ok []" "chunks_ok (c # cs) \<longleftrightarrow> (c \<noteq> [] \<and> length c \<le> DataChunkSize) \<and> chunks_ok cs"
  "chunks_ok (as @ bs) \<longleftrightarrow> chunks_ok as \<and> chunks_ok bs"
  by (auto simp: chunks_ok_def)

lemma WriteFrame_empty_ok [simp]:
  "sink_ok w \<Longrightarrow> WriteFrame w t 0 [] = (None, w\<lparr>snk_out := snk_out w @ encodeHeader t 0 0\<rparr>)"
  by (simp add: WriteFrame_def)

subsection \<open>The writer splits its input into DATA frames\<close>

lemma streamWritePool_enough: "n \<le> DataChunkSize \<Longrightarrow> n \<le> streamWritePool n"
  by (simp add: streamWritePool_def)

lemma sw_loop_ok:
  "sink_ok (sw_w w) \<Longrightarrow> min (length p) DataChunkSize \<le> cap \<Longrightarrow>
   \<exists>cs. sw_loop cap w n p = (n + length p, None, w\<lparr>sw_w := (sw_w w)\<lparr>snk_out := snk_out (sw_w w) @ frames_of cs\<rparr>\<rparr>) \<and>
        concat cs = p \<and> chunks_ok cs"
proof (induction cap w n p rule: sw_loop.induct)
  case (1 cap w n p)
  show ?case
  proof (cases "p = []")
    case True
    then show ?thesis by (intro exI [of _ "[]"]) (simp add: sw_loop.simps)
  next
    case False
    define size where "size = min (length p) DataChunkSize"
    let ?s = "(sw_w w)\<lparr>snk_out := snk_out (sw_w w) @ data_frame (take size p)\<rparr>"
    have size: "length (take size p) = size" "0 < size"
      using False by (auto simp: size_def DataChunkSize_def)
    have wf: "(None, ?s) = writeFull (sw_w w) (encodeHeader TypeData 0 (word_of_nat size) @ take size p)"
      using "1.prems" size by (simp add: data_frame_def)
    have step: "sw_loop cap w n p = sw_loop cap (w\<lparr>sw_w := ?s\<rparr>) (n + size) (drop size p)"
      using False "1.prems" size by (simp add: sw_loop.simps [of cap w n p] Let_def size_def [symmetric] data_frame_def)
    have "\<exists>cs. sw_loop cap (w\<lparr>sw_w := ?s\<rparr>) (n + size) (drop size p) =
        (n + size + length (drop size p), None,
          (w\<lparr>sw_w := ?s\<rparr>)\<lparr>sw_w := ?s\<lparr>snk_out := snk_out ?s @ frames_of cs\<rparr>\<rparr>) \<and> concat cs = drop size p \<and> chunks_ok cs"
    proof -
      have ncap: "\<not> cap < size" "min (length (drop size p)) DataChunkSize \<le> cap"
        using "1.prems"(2) by (auto simp: size_def)
      show ?thesis using "1.IH" [OF False size_def ncap(1) wf refl] "1.prems"(1) ncap(2) by simp
    qed
    then obtain cs where cs: "sw_loop cap (w\<lparr>sw_w := ?s\<rparr>) (n + size) (drop size p) =
        (n + size + length (drop size p), None,
          (w\<lparr>sw_w := ?s\<rparr>)\<lparr>sw_w := ?s\<lparr>snk_out := snk_out ?s @ frames_of cs\<rparr>\<rparr>)"
      "concat cs = drop size p" "chunks_ok cs" by auto
    have "chunks_ok (take size p # cs)" using size cs by (auto simp: size_def)
    then show ?thesis using step cs size by (intro exI [of _ "take size p # cs"]) (simp add: size_def)
  qed
qed

subsection \<open>StreamWriter and StreamReader as a byte channel\<close>

definition sw_wrote :: "stream_writer \<Rightarrow> bytes \<Rightarrow> bool" where
  "sw_wrote w pl \<longleftrightarrow> sw_failed w = None \<and> \<not> sw_closed w \<and> sink_ok (sw_w w) \<and>
     (\<exists>cs. snk_out (sw_w w) = frames_of cs \<and> concat cs = pl \<and> chunks_ok cs)"

text \<open>A header-only frame that ends the stream for the reader, with the error it reports.\<close>

definition sr_ends :: "bytes \<Rightarrow> goerr \<Rightarrow> bool" where
  "sr_ends tail err \<longleftrightarrow> length tail = 8 \<and> \<not> isTimeout err \<and>
     (\<forall>r. sr_frame tail r = r\<lparr>sr_header := [], sr_terminal := Some err\<rparr>)"

definition sr_carries :: "bytes \<Rightarrow> stream_reader \<Rightarrow> bytes \<Rightarrow> bool" where
  "sr_carries tail r pl \<longleftrightarrow> sr_terminal r = None \<and> src_calm (sr_r r) \<and>
     (\<exists>cur cs. pl = cur @ concat cs \<and> unat (sr_remaining r) = length cur \<and> chunks_ok cs \<and>
        (cur \<noteq> [] \<longrightarrow> sr_header r = []) \<and> length (sr_header r) < 8 \<and>
        sr_header r @ src_bytes (sr_r r) = cur @ frames_of cs @ tail)"

lemma data_frame_length_word: "chunks_ok [c] \<Longrightarrow> unat (word_of_nat (length c) :: u32) = length c"
  by (simp add: unat_of_nat DataChunkSize_def)

lemma sr_data_carries:
  assumes c: "sr_carries tail r pl" and nz: "sr_remaining r \<noteq> 0" and n: "0 < n" "n < 2 ^ 32"
    and rd: "sr_data n r = (bs, e, r')"
  shows "soft e \<and> (\<exists>pl'. pl = bs @ pl' \<and> sr_carries tail r' pl') \<and> src_size (sr_r r') < src_size (sr_r r)"
proof -
  define m where "m = (if sr_remaining r < (word_of_nat n :: u32) then unat (sr_remaining r) else n)"
  obtain cs f src where sr: "src_read m (sr_r r) = (cs, f, src)" by (cases "src_read m (sr_r r)") auto
  obtain cur ds where h: "pl = cur @ concat ds" "unat (sr_remaining r) = length cur" "chunks_ok ds"
    "src_bytes (sr_r r) = cur @ frames_of ds @ tail" "sr_header r = []"
    using c nz unfolding sr_carries_def by (auto simp: unat_eq_0)
  have ne: "cur \<noteq> []" using nz h(2) by (auto simp: unat_eq_0)
  have m: "0 < m" "m \<le> length cur"
    using n ne h(2) by (auto simp: m_def word_less_nat_alt unat_of_nat split: if_splits)
  have calm: "src_calm (sr_r r)" "sr_r r \<noteq> []" using c h(4) ne by (auto simp: sr_carries_def)
  note k = src_read_calm [OF calm(1) sr calm(2) m(1)]
  have l: "length cs \<le> length cur" using src_read_length [OF sr] m by simp
  have whole: "cs @ src_bytes src = cur @ frames_of ds @ tail" using k(2) h(4) by simp
  have cs: "cs = take (length cs) cur" "src_bytes src = drop (length cs) cur @ frames_of ds @ tail"
    using l arg_cong [OF whole, of "take (length cs)"] arg_cong [OF whole, of "drop (length cs)"] by simp_all
  have rem: "unat (sr_remaining r - word_of_nat (length cs)) = length cur - length cs"
  proof -
    have "unat (word_of_nat (length cs) :: u32) = length cs"
      using l h(2) unat_bound [of "sr_remaining r"] by (simp add: unat_of_nat)
    then show ?thesis using l h(2) by (subst unat_sub) (auto simp: word_le_nat_alt)
  qed
  have f: "f \<noteq> Some EOF" using k(3) by auto
  have out: "bs = cs" "e = f" "r' = r\<lparr>sr_r := src, sr_remaining := sr_remaining r - word_of_nat (length cs)\<rparr>"
    using rd sr f k(3) by (auto simp: sr_data_def Let_def m_def [symmetric] split: option.splits)
  have "sr_carries tail r' (drop (length cs) cur @ concat ds)"
    unfolding sr_carries_def using out k(1) c h cs rem
    by (auto simp: sr_carries_def intro!: exI [of _ "drop (length cs) cur"] exI [of _ ds])
  moreover have "pl = bs @ drop (length cs) cur @ concat ds"
    using h(1) out(1) cs(1) by (metis append.assoc append_take_drop_id)
  ultimately show ?thesis using out k by auto
qed

lemma sr_ends_frames [simp]:
  "sr_ends eof_frame EOF" "sr_ends reset_frame (Errorf ''peer reset stream'')"
  by (simp_all add: sr_ends_def sr_frame_def eof_frame_def reset_frame_def MaxPayload_def)

lemma sr_frame_data [simp]:
  "(c :: bytes) \<noteq> [] \<Longrightarrow> length c \<le> DataChunkSize \<Longrightarrow>
   sr_frame (encodeHeader TypeData 0 (word_of_nat (length c))) r =
     r\<lparr>sr_header := [], sr_remaining := word_of_nat (length c)\<rparr>"
  using data_frame_length_word [of c]
  by (auto simp: sr_frame_def MaxPayload_def DataChunkSize_def Let_def unat_eq_0 [symmetric])

text \<open>The first header of the encoding tells the end mark from a chunk.\<close>

lemma first_header:
  assumes "length tail = 8" "length raw = 8" "raw @ rest = frames_of cs @ tail"
  shows "cs = [] \<and> raw = tail \<and> rest = [] \<or>
    (\<exists>c ds. cs = c # ds \<and> raw = encodeHeader TypeData 0 (word_of_nat (length c)) \<and> rest = c @ frames_of ds @ tail)"
proof (cases cs)
  case Nil
  then show ?thesis using assms append_eq_append_conv [of raw tail rest "[]"] by simp
next
  case (Cons c ds)
  then have "raw @ rest = encodeHeader TypeData 0 (word_of_nat (length c)) @ (c @ frames_of ds @ tail)"
    using assms(3) by (simp add: data_frame_def)
  then show ?thesis using Cons assms(2) by (simp add: append_eq_append_conv)
qed

lemma sr_loop_data: "sr_terminal r = None \<Longrightarrow> sr_remaining r \<noteq> 0 \<Longrightarrow> sr_loop n r = sr_data n r"
  by (simp add: sr_loop.simps [of n r])

lemma sr_header_carries:
  assumes tail: "sr_ends tail err" and c: "sr_carries tail r pl" and z: "sr_remaining r = 0" and n: "0 < n" "n < 2 ^ 32"
    and rd: "sr_loop n r = (bs, e, r')"
  shows "(soft e \<and> (\<exists>pl'. pl = bs @ pl' \<and> sr_carries tail r' pl') \<and> src_size (sr_r r') < src_size (sr_r r)) \<or>
    (e = Some err \<and> bs = [] \<and> pl = [])"
proof -
  obtain cs where h: "pl = concat cs" "chunks_ok cs" "length (sr_header r) < 8"
    "sr_header r @ src_bytes (sr_r r) = frames_of cs @ tail" "sr_terminal r = None" "src_calm (sr_r r)"
    using c z unfolding sr_carries_def by auto
  let ?k = "HeaderSize - length (sr_header r)"
  obtain hs f src where rf: "readFull ?k (sr_r r) = (hs, f, src)" by (cases "readFull ?k (sr_r r)") auto
  have "8 \<le> length (sr_header r) + length (src_bytes (sr_r r))"
    using tail arg_cong [OF h(4), of length] by (simp add: sr_ends_def)
  then have k: "0 < ?k" "?k \<le> length (src_bytes (sr_r r))" using h(3) by auto
  note calm = readFull_calm [OF h(6) k rf] and len = readFull_length [OF rf]
  have whole: "(sr_header r @ hs) @ src_bytes src = frames_of cs @ tail" using calm(2) h(4) by simp
  show ?thesis
  proof (cases f)
    case (Some x)
    have out: "bs = []" "e = Some x" "r' = r\<lparr>sr_r := src, sr_header := sr_header r @ hs\<rparr>"
      using rd h(5) z rf Some calm(3) by (auto simp: sr_loop.simps [of n r])
    have "length (sr_header r @ hs) < 8" using len Some h(3) by auto
    then have "sr_carries tail r' pl"
      unfolding sr_carries_def using out h z calm(1) whole by (auto intro!: exI [of _ "[]"] exI [of _ cs])
    then show ?thesis using out calm Some by auto
  next
    case None
    let ?r = "sr_frame (sr_header r @ hs) (r\<lparr>sr_r := src\<rparr>)"
    have step: "sr_loop n r = sr_loop n ?r" using h(5) z rf None by (simp add: sr_loop.simps [of n r])
    have raw: "length (sr_header r @ hs) = 8" using len None h(3) by auto
    from first_header [OF _ raw whole] tail
    consider (stop) "cs = []" "sr_header r @ hs = tail"
      | (chunk) a ds where "cs = a # ds" "sr_header r @ hs = encodeHeader TypeData 0 (word_of_nat (length a))"
          "src_bytes src = a @ frames_of ds @ tail" by (auto simp: sr_ends_def)
    then show ?thesis
    proof cases
      case stop
      then show ?thesis using rd step h(1) tail by (simp add: sr_ends_def sr_loop.simps [of n "_\<lparr>sr_terminal := _\<rparr>"])
    next
      case chunk
      have a: "a \<noteq> []" "length a \<le> DataChunkSize" "chunks_ok ds" using chunk(1) h(2) by auto
      then have l: "unat (word_of_nat (length a) :: u32) = length a" using data_frame_length_word [of a] by simp
      have r: "?r = r\<lparr>sr_r := src, sr_header := [], sr_remaining := word_of_nat (length a)\<rparr>"
        using a chunk(2) by simp
      have nz: "sr_remaining ?r \<noteq> 0" using r l a(1) by (auto simp: unat_eq_0 [symmetric])
      have car: "sr_carries tail ?r pl"
        unfolding sr_carries_def r using h chunk a calm(1) l by (auto intro!: exI [of _ a] exI [of _ ds])
      have "sr_data n ?r = (bs, e, r')" 
        using rd step sr_loop_data [OF _ nz, of n] r h(5) by simp
      from sr_data_carries [OF car nz n this] show ?thesis using calm(4) r by auto
    qed
  qed
qed

lemma StreamReader_Read_carries:
  assumes tail: "sr_ends tail err" and c: "sr_carries tail r pl" and n: "0 < n" "n < 2 ^ 32" and rd: "StreamReader_Read n r = (bs, e, r')"
  shows "(soft e \<and> (\<exists>pl'. pl = bs @ pl' \<and> sr_carries tail r' pl') \<and> src_size (sr_r r') < src_size (sr_r r)) \<or>
    (e = Some err \<and> bs = [] \<and> pl = [])"
proof (cases "sr_remaining r = 0")
  case True
  then show ?thesis using sr_header_carries [OF tail c True n] rd n by (simp add: StreamReader_Read_def)
next
  case False
  then have "sr_data n r = (bs, e, r')"
    using rd n c False by (simp add: StreamReader_Read_def sr_loop_data sr_carries_def)
  then show ?thesis using sr_data_carries [OF c False n] by blast
qed

lemma StreamWriter_Write_wrote:
  assumes "sw_wrote w pl" "StreamWriter_Write p w = (n, e, w')"
  shows "n = length p \<and> e = None \<and> sw_wrote w' (pl @ p)"
proof (cases "p = []")
  case True
  then show ?thesis using assms by (auto simp: StreamWriter_Write_def sw_wrote_def)
next
  case False
  let ?cap = "streamWritePool (min (length p) DataChunkSize)"
  obtain ds where ds: "snk_out (sw_w w) = frames_of ds" "concat ds = pl" "chunks_ok ds"
    using assms(1) by (auto simp: sw_wrote_def)
  have "sw_loop ?cap w 0 p = (n, e, w')"
    using assms False by (simp add: StreamWriter_Write_def sw_wrote_def)
  moreover obtain cs where "sw_loop ?cap w 0 p = (length p, None, w\<lparr>sw_w := (sw_w w)\<lparr>snk_out := snk_out (sw_w w) @ frames_of cs\<rparr>\<rparr>)"
    "concat cs = p" "chunks_ok cs"
    using sw_loop_ok [of w p ?cap 0] streamWritePool_enough [of "min (length p) DataChunkSize"] assms(1)
    by (auto simp: sw_wrote_def)
  ultimately show ?thesis using assms(1) ds
    by (auto simp: sw_wrote_def intro!: exI [of _ "ds @ cs"])
qed

lemma StreamWriter_CloseWrite_carries:
  assumes "sw_wrote w pl" "StreamWriter_CloseWrite w = (e, w')"
  shows "e = None \<and> (\<forall>src. src_calm src \<longrightarrow> src_bytes src = snk_out (sw_w w') \<longrightarrow> sr_carries eof_frame (NewStreamReader src) pl)"
proof -
  obtain ds where ds: "snk_out (sw_w w) = frames_of ds" "concat ds = pl" "chunks_ok ds"
    using assms(1) by (auto simp: sw_wrote_def)
  have "e = None" "snk_out (sw_w w') = frames_of ds @ eof_frame"
    using assms ds(1) by (auto simp: StreamWriter_CloseWrite_def sw_wrote_def eof_frame_def)
  then show ?thesis using ds
    by (auto simp: sr_carries_def NewStreamReader_def intro!: exI [of _ "[]"] exI [of _ ds])
qed

lemma framed_reader_stream:
  "sr_ends tail err \<Longrightarrow> framed_reader StreamReader_Read (sr_carries tail) (\<lambda>r. src_size (sr_r r)) (2 ^ 32 - 1) err"
  by unfold_locales (simp add: sr_ends_def, rule StreamReader_Read_carries, auto)

interpretation frame_reset: framed_reader
  StreamReader_Read "sr_carries reset_frame" "\<lambda>r. src_size (sr_r r)" "2 ^ 32 - 1" "Errorf ''peer reset stream''"
  by (rule framed_reader_stream) simp

interpretation frame_stream: byte_channel
  StreamReader_Read "sr_carries eof_frame" "\<lambda>r. src_size (sr_r r)" "2 ^ 32 - 1"
  StreamWriter_Write StreamWriter_CloseWrite "\<lambda>w. snk_out (sw_w w)" sw_wrote NewStreamReader "\<lambda>_. True"
proof (intro byte_channel.intro byte_channel_axioms.intro)
  show "framed_reader StreamReader_Read (sr_carries eof_frame) (\<lambda>r. src_size (sr_r r)) (2 ^ 32 - 1) EOF"
    by (rule framed_reader_stream) simp
next
  fix w pl p n e w'
  assume "sw_wrote w pl" "StreamWriter_Write p w = (n, e, w')"
  then show "n = length p \<and> e = None \<and> sw_wrote w' (pl @ p)" by (rule StreamWriter_Write_wrote)
next
  fix w pl e w'
  assume "sw_wrote w pl" "StreamWriter_CloseWrite w = (e, w')"
  then show "e = None \<and> (\<forall>src. src_calm src \<longrightarrow> src_bytes src = snk_out (sw_w w') \<longrightarrow>
      sr_carries eof_frame (NewStreamReader src) pl)"
    by (rule StreamWriter_CloseWrite_carries)
qed

subsection \<open>The wire under arbitrary transport failures\<close>

lemma writeFull_prefix_of:
  assumes "writeFull w p = (e, w')"
  shows "prefix (snk_out w') (snk_out w @ p)" "e = None \<Longrightarrow> snk_out w' = snk_out w @ p"
  using writeFull_prefix [OF assms] by (auto simp: take_is_prefix)

lemma sw_loop_any:
  "min (length p) DataChunkSize \<le> cap \<Longrightarrow> sw_failed w = None \<Longrightarrow> sw_loop cap w n p = (m, e, w') \<Longrightarrow>
   sw_closed w' = sw_closed w \<and> sw_failed w' = e \<and>
   (\<exists>cs. chunks_ok cs \<and> prefix (concat cs) p \<and> prefix (snk_out (sw_w w')) (snk_out (sw_w w) @ frames_of cs) \<and>
      (e = None \<longrightarrow> concat cs = p \<and> snk_out (sw_w w') = snk_out (sw_w w) @ frames_of cs))"
proof (induction cap w n p arbitrary: m e w' rule: sw_loop.induct)
  case (1 cap w n p)
  show ?case
  proof (cases "p = []")
    case True
    then show ?thesis using "1.prems" by (auto simp: sw_loop.simps [of cap w n "[]"] intro!: exI [of _ "[]"])
  next
    case False
    define size where "size = min (length p) DataChunkSize"
    have size: "length (take size p) = size" "0 < size" using False by (auto simp: size_def DataChunkSize_def)
    have ncap: "\<not> cap < size" "min (length (drop size p)) DataChunkSize \<le> cap"
      using "1.prems"(1) by (auto simp: size_def)
    obtain f s where wf: "writeFull (sw_w w) (encodeHeader TypeData 0 (word_of_nat size) @ take size p) = (f, s)"
      by (cases "writeFull (sw_w w) (encodeHeader TypeData 0 (word_of_nat size) @ take size p)") auto
    have pre: "prefix (snk_out s) (snk_out (sw_w w) @ data_frame (take size p))"
      "f = None \<Longrightarrow> snk_out s = snk_out (sw_w w) @ data_frame (take size p)"
      using writeFull_prefix_of [OF wf] size by (auto simp: data_frame_def)
    have chunk: "chunks_ok [take size p]" using size by (auto simp: size_def)
    note eq = sw_loop.simps [of cap w n p]
    show ?thesis
    proof (cases f)
      case (Some x)
      then have "e = Some x" "w' = w\<lparr>sw_w := s, sw_failed := Some x\<rparr>"
        using "1.prems"(3) False wf ncap(1) by (auto simp: eq Let_def size_def [symmetric])
      then show ?thesis using pre(1) chunk by (auto intro!: exI [of _ "[take size p]"] simp: take_is_prefix)
    next
      case None
      then have "sw_loop cap (w\<lparr>sw_w := s\<rparr>) (n + size) (drop size p) = (m, e, w')"
        using "1.prems"(3) False wf ncap(1) by (simp add: eq Let_def size_def [symmetric])
      from "1.IH" [OF False size_def ncap(1) wf [symmetric] None ncap(2) _ this] "1.prems"(2)
      obtain cs where cs: "sw_closed w' = sw_closed w" "sw_failed w' = e" "chunks_ok cs" "prefix (concat cs) (drop size p)"
        "prefix (snk_out (sw_w w')) (snk_out s @ frames_of cs)"
        "e = None \<longrightarrow> concat cs = drop size p \<and> snk_out (sw_w w') = snk_out s @ frames_of cs" by auto
      have "prefix (take size p @ concat cs) (take size p @ drop size p)" using cs(4) by (simp only: same_prefix_prefix)
      then show ?thesis using cs chunk pre(2) None by (auto intro!: exI [of _ "take size p # cs"])
    qed
  qed
qed

text \<open>
  The methods of a \<open>StreamWriter\<close> run under its mutex, so the calls of any number of goroutines
  are one sequence of operations.
\<close>

datatype sw_op = SwWrite bytes | SwCloseWrite

fun sw_step :: "sw_op \<Rightarrow> stream_writer \<Rightarrow> stream_writer" where
  "sw_step (SwWrite p) w = snd (snd (StreamWriter_Write p w))"
| "sw_step SwCloseWrite w = snd (StreamWriter_CloseWrite w)"

fun sw_payload :: "sw_op \<Rightarrow> bytes" where
  "sw_payload (SwWrite p) = p"
| "sw_payload SwCloseWrite = []"

definition sw_inv :: "stream_writer \<Rightarrow> bytes \<Rightarrow> bool" where
  "sw_inv w pl \<longleftrightarrow> (\<exists>cs. chunks_ok cs \<and> prefix (concat cs) pl \<and>
     prefix (snk_out (sw_w w)) (frames_of cs @ eof_frame) \<and>
     (sw_failed w = None \<longrightarrow> snk_out (sw_w w) = frames_of cs @ (if sw_closed w then eof_frame else [])) \<and>
     (sw_failed w = None \<and> \<not> sw_closed w \<longrightarrow> concat cs = pl))"

lemma sw_inv_weaken: "sw_inv w pl \<Longrightarrow> sw_failed w \<noteq> None \<or> sw_closed w \<Longrightarrow> sw_inv w (pl @ q)"
  unfolding sw_inv_def by (metis prefix_prefix)

lemma sw_inv_write: "sw_inv w pl \<Longrightarrow> sw_inv (snd (snd (StreamWriter_Write p w))) (pl @ p)"
proof (cases "sw_failed w = None \<and> \<not> sw_closed w \<and> p \<noteq> []")
  case False
  assume "sw_inv w pl"
  then show ?thesis using False sw_inv_weaken [of w pl p]
    by (auto simp: StreamWriter_Write_def split: option.splits)
next
  case True
  assume "sw_inv w pl"
  then obtain ds where ds: "chunks_ok ds" "concat ds = pl" "snk_out (sw_w w) = frames_of ds"
    using True by (auto simp: sw_inv_def)
  let ?cap = "streamWritePool (min (length p) DataChunkSize)"
  obtain m e w' where l: "sw_loop ?cap w 0 p = (m, e, w')" by (cases "sw_loop ?cap w 0 p") auto
  have "sw_closed w' = sw_closed w \<and> sw_failed w' = e \<and>
   (\<exists>cs. chunks_ok cs \<and> prefix (concat cs) p \<and> prefix (snk_out (sw_w w')) (snk_out (sw_w w) @ frames_of cs) \<and>
      (e = None \<longrightarrow> concat cs = p \<and> snk_out (sw_w w') = snk_out (sw_w w) @ frames_of cs))"
    using sw_loop_any [OF _ _ l] True streamWritePool_enough [of "min (length p) DataChunkSize"] by simp
  then obtain cs where cs: "sw_closed w' = sw_closed w" "sw_failed w' = e" "chunks_ok cs" "prefix (concat cs) p"
    "prefix (snk_out (sw_w w')) (frames_of (ds @ cs))"
    "e = None \<longrightarrow> concat cs = p \<and> snk_out (sw_w w') = frames_of (ds @ cs)" using ds(3) by auto
  have "prefix (snk_out (sw_w w')) (frames_of (ds @ cs) @ eof_frame)" using cs(5) by (rule prefix_prefix)
  then have "sw_inv w' (pl @ p)" unfolding sw_inv_def
    using cs ds True by (intro exI [of _ "ds @ cs"]) auto
  then show ?thesis using True l by (simp add: StreamWriter_Write_def)
qed

lemma sw_inv_close: "sw_inv w pl \<Longrightarrow> sw_inv (snd (StreamWriter_CloseWrite w)) pl"
proof (cases "sw_failed w = None \<and> \<not> sw_closed w")
  case False
  assume "sw_inv w pl"
  then show ?thesis using False by (auto simp: StreamWriter_CloseWrite_def split: option.splits)
next
  case True
  assume "sw_inv w pl"
  then obtain ds where ds: "chunks_ok ds" "concat ds = pl" "snk_out (sw_w w) = frames_of ds"
    using True by (auto simp: sw_inv_def)
  obtain e s where wf: "WriteFrame (sw_w w) TypeHalfClose 0 [] = (e, s)"
    by (cases "WriteFrame (sw_w w) TypeHalfClose 0 []") auto
  then have "writeFull (sw_w w) eof_frame = (e, s)" by (simp add: WriteFrame_def eof_frame_def)
  note pre = writeFull_prefix_of [OF this]
  have "StreamWriter_CloseWrite w = (e, \<lparr>sw_w = s, sw_closed = True, sw_failed = e\<rparr>)"
    using True wf by (simp add: StreamWriter_CloseWrite_def)
  then show ?thesis using ds pre by (auto simp: sw_inv_def intro!: exI [of _ ds])
qed

lemma sw_inv_run:
  "sw_inv w pl \<Longrightarrow> sw_inv (fold sw_step ops w) (pl @ concat (map sw_payload ops))"
proof (induction ops arbitrary: w pl)
  case Nil
  then show ?case by simp
next
  case (Cons op ops)
  have "sw_inv (sw_step op w) (pl @ sw_payload op)"
    using Cons.prems sw_inv_write sw_inv_close by (cases op) auto
  from Cons.IH [OF this] show ?case by simp
qed

subsection \<open>The relay copy loop\<close>

text \<open>What a reader delivers up to its first error, and that error.\<close>

fun src_until :: "source \<Rightarrow> bytes \<times> goerr" where
  "src_until [] = ([], EOF)"
| "src_until ((bs, Some e) # rest) = (bs, e)"
| "src_until ((bs, None) # rest) = (bs @ fst (src_until rest), snd (src_until rest))"

lemma src_read_until:
  "src_read n src = (bs, e, src') \<Longrightarrow>
   src_until src = (case e of None \<Rightarrow> (bs @ fst (src_until src'), snd (src_until src')) | Some x \<Rightarrow> (bs, x))"
proof (induction n src rule: src_read.induct)
  case (1 n)
  then show ?case by auto
next
  case (2 n cs f rest)
  then show ?case by (cases f) (auto split: if_splits simp flip: append.assoc)
qed

lemma copyDataLoop_ok:
  "sink_ok w \<Longrightarrow> \<exists>cs r'. copyDataLoop w r tot =
      (tot + length (fst (src_until r)), if snd (src_until r) = EOF then None else Some (snd (src_until r)),
       w\<lparr>snk_out := snk_out w @ frames_of cs\<rparr>, r') \<and> concat cs = fst (src_until r) \<and> chunks_ok cs"
proof (induction w r tot rule: copyDataLoop.induct)
  case (1 w r tot)
  obtain bs e r1 where rd: "src_read DataChunkSize r = (bs, e, r1)" by (cases "src_read DataChunkSize r") auto
  define ds where "ds = (if bs = [] then [] else [bs])"
  let ?w = "w\<lparr>snk_out := snk_out w @ frames_of ds\<rparr>"
  have ds: "concat ds = bs" "chunks_ok ds" using src_read_length [OF rd] by (auto simp: ds_def)
  have wr: "(None, ?w) = (if bs \<noteq> [] then writeFull w (encodeHeader TypeData 0 (word_of_nat (length bs)) @ bs) else (None, w))"
    using "1.prems" by (simp add: ds_def data_frame_def)
  note eq = copyDataLoop.simps [of w r tot] and until = src_read_until [OF rd]
  show ?case
  proof (cases e)
    case (Some x)
    then show ?thesis using rd wr [symmetric] until ds by (auto simp: eq intro!: exI [of _ ds])
  next
    case None
    have "\<exists>cs r'. copyDataLoop ?w r1 (tot + length bs) =
      (tot + length bs + length (fst (src_until r1)), if snd (src_until r1) = EOF then None else Some (snd (src_until r1)),
       ?w\<lparr>snk_out := snk_out ?w @ frames_of cs\<rparr>, r') \<and> concat cs = fst (src_until r1) \<and> chunks_ok cs"
      using "1.IH" [OF rd [symmetric] refl wr refl None] "1.prems" by simp
    then obtain cs r' where cs: "copyDataLoop ?w r1 (tot + length bs) =
      (tot + length bs + length (fst (src_until r1)), if snd (src_until r1) = EOF then None else Some (snd (src_until r1)),
       ?w\<lparr>snk_out := snk_out ?w @ frames_of cs\<rparr>, r')" "concat cs = fst (src_until r1)" "chunks_ok cs" by blast
    have "copyDataLoop w r tot = copyDataLoop ?w r1 (tot + length bs)"
      using rd wr [symmetric] None by (simp add: eq)
    then show ?thesis using cs ds until None by (auto intro!: exI [of _ "ds @ cs"])
  qed
qed

subsection \<open>Properties of the stream frames\<close>

text \<open>C1: Whatever payloads are written to a \<open>StreamWriter\<close> over a working connection before
  \<open>CloseWrite\<close>, and however the network splits the resulting bytes into reads and interrupts
  them with timeouts (also in the middle of a frame header), a \<open>StreamReader\<close> that is read with
  any buffer size below 4 GiB delivers exactly the concatenation of the payloads and then a clean
  \<open>io.EOF\<close>, within one more read than the source can answer.\<close>

theorem frame_stream_roundtrip:
  assumes "sink_ok s" "snk_out s = []"
    and "write_all StreamWriter_Write ps (NewStreamWriter s) = (e1, w1)"
    and "StreamWriter_CloseWrite w1 = (e2, w2)"
    and "src_calm src" "src_bytes src = snk_out (sw_w w2)" "0 < n" "n < 2 ^ 32"
  shows "e1 = None \<and> e2 = None \<and>
    drain StreamReader_Read (Suc (src_size src)) n (NewStreamReader src) = Some (concat ps, EOF)"
proof (rule frame_stream.roundtrip [OF _ _ assms(3,4,5,6,7)])
  show "sw_wrote (NewStreamWriter s) []"
    using assms(1,2) by (auto simp: sw_wrote_def NewStreamWriter_def intro!: exI [of _ "[]"])
  show True ..
  show "n \<le> 2 ^ 32 - 1" using assms(8) by simp
  show "src_size (sr_r (NewStreamReader src)) < Suc (src_size src)" by (simp add: NewStreamReader_def)
qed

theorem frame_stream_roundtrip_witness:
  "drain StreamReader_Read 100 2
     (NewStreamReader [([1, 3, 0, 0], Some (Timeout 1)), ([0, 0, 0, 2, 7], None), ([8, 1, 3, 0, 0, 0, 0, 0, 1, 9, 1, 4, 0, 0, 0, 0, 0, 0], None)])
   = Some ([7, 8, 9], EOF)"
proof -
  let ?s = "\<lparr>snk_out = [], snk_resp = []\<rparr>"
  let ?src = "[([1, 3, 0, 0], Some (Timeout 1)), ([0, 0, 0, 2, 7], None), ([8, 1, 3, 0, 0, 0, 0, 0, 1, 9, 1, 4, 0, 0, 0, 0, 0, 0], None)] :: source"
  let ?w1 = "\<lparr>sw_w = \<lparr>snk_out = [1, 3, 0, 0, 0, 0, 0, 2, 7, 8, 1, 3, 0, 0, 0, 0, 0, 1, 9], snk_resp = []\<rparr>, sw_closed = False, sw_failed = None\<rparr>"
  let ?w2 = "\<lparr>sw_w = \<lparr>snk_out = [1, 3, 0, 0, 0, 0, 0, 2, 7, 8, 1, 3, 0, 0, 0, 0, 0, 1, 9, 1, 4, 0, 0, 0, 0, 0, 0], snk_resp = []\<rparr>, sw_closed = True, sw_failed = None\<rparr>"
  have w1: "write_all StreamWriter_Write [[7, 8], [9]] (NewStreamWriter ?s) = (None, ?w1)" by code_simp
  have w2: "StreamWriter_CloseWrite ?w1 = (None, ?w2)" by code_simp
  have "drain StreamReader_Read (Suc (src_size ?src)) 2 (NewStreamReader ?src) = Some (concat [[7, 8], [9]], EOF)"
    using frame_stream_roundtrip [OF _ _ w1 w2, of ?src 2] by (simp add: sink_ok_def)
  moreover have "drain StreamReader_Read 100 2 (NewStreamReader ?src) = drain StreamReader_Read (Suc (src_size ?src)) 2 (NewStreamReader ?src)"
    by code_simp
  ultimately show ?thesis by simp
qed

text \<open>C2: \<open>CopyAsDataFramesAndClose\<close> relays everything its source delivers before its first error and
  tells the peer how the source ended: a peer's \<open>StreamReader\<close> sees \<open>io.EOF\<close> exactly when the source
  ended with \<open>io.EOF\<close>, and a peer reset when the source was aborted, never a clean end of file for an
  aborted source. The relay itself returns the source's error.\<close>

theorem relay_end_is_honest:
  assumes "sink_ok w" "snk_out w = []" "CopyAsDataFramesAndClose w r = (e, w')"
    and "src_calm src" "src_bytes src = snk_out w'" "0 < n" "n < 2 ^ 32"
  shows "e = (if snd (src_until r) = EOF then None else Some (snd (src_until r))) \<and>
    drain StreamReader_Read (Suc (src_size src)) n (NewStreamReader src) =
      Some (fst (src_until r), if snd (src_until r) = EOF then EOF else Errorf ''peer reset stream'')"
proof -
  obtain cs r' where cs: "CopyAsDataFrames w r =
      (length (fst (src_until r)), if snd (src_until r) = EOF then None else Some (snd (src_until r)),
       w\<lparr>snk_out := frames_of cs\<rparr>, r')" "concat cs = fst (src_until r)" "chunks_ok cs"
    using copyDataLoop_ok [OF assms(1), of r 0] assms(2) by (auto simp: CopyAsDataFrames_def)
  define fr where "fr = (if snd (src_until r) = EOF then eof_frame else reset_frame)"
  have out: "e = (if snd (src_until r) = EOF then None else Some (snd (src_until r)))" "snk_out w' = frames_of cs @ fr"
    using assms(1,3) cs(1)
    by (auto simp: CopyAsDataFramesAndClose_def fr_def eof_frame_def reset_frame_def split: if_splits)
  have car: "sr_carries fr (NewStreamReader src) (fst (src_until r))"
    using assms(4,5) out(2) cs(2,3)
    by (auto simp: sr_carries_def NewStreamReader_def intro!: exI [of _ "[]"] exI [of _ cs])
  have n: "0 < n" "n \<le> 2 ^ 32 - 1" "src_size (sr_r (NewStreamReader src)) < Suc (src_size src)"
    using assms(6,7) by (auto simp: NewStreamReader_def)
  show ?thesis
    using out(1) car frame_stream.drain_carries [OF _ n, of "fst (src_until r)"]
      frame_reset.drain_carries [OF _ n, of "fst (src_until r)"] by (auto simp: fr_def)
qed

theorem relay_end_is_honest_witness:
  "drain StreamReader_Read 19 4 (NewStreamReader [([1, 3, 0, 0, 0, 0, 0, 1, 5, 1, 5, 0, 0, 0, 0, 0, 0], None)]) =
     Some ([5], Errorf ''peer reset stream'')"
proof -
  let ?src = "[([1, 3, 0, 0, 0, 0, 0, 1, 5, 1, 5, 0, 0, 0, 0, 0, 0], None)] :: source"
  have r: "CopyAsDataFramesAndClose \<lparr>snk_out = [], snk_resp = []\<rparr> [([5], None), ([], Some (OSError 3))] =
     (Some (OSError 3), \<lparr>snk_out = [1, 3, 0, 0, 0, 0, 0, 1, 5, 1, 5, 0, 0, 0, 0, 0, 0], snk_resp = []\<rparr>)"
    by code_simp
  have eq: "Suc (src_size ?src) = 19" by simp
  have "drain StreamReader_Read (Suc (src_size ?src)) 4 (NewStreamReader ?src) = Some ([5], Errorf ''peer reset stream'')"
    using conjunct2 [OF relay_end_is_honest [OF _ _ r, of ?src 4]] by (simp add: sink_ok_def)
  then show ?thesis by (simp only: eq)
qed

text \<open>C3: However the transport fails (short writes, errors in the middle of a frame), and in whatever
  order goroutines call \<open>Write\<close> and \<open>CloseWrite\<close>, the bytes a \<open>StreamWriter\<close> has put on the wire are
  a prefix of one well-formed sequence of DATA frames closed by HALF_CLOSE, whose payload is a prefix
  of what was submitted: a partial frame is never followed by anything, and nothing follows the close.
  While the writer has neither failed nor been closed the wire holds all submitted bytes.\<close>

theorem StreamWriter_wire_wellformed:
  fixes s :: sink and ops :: "sw_op list"
  assumes "snk_out s = []"
  defines "w \<equiv> fold sw_step ops (NewStreamWriter s)"
  shows "\<exists>cs. chunks_ok cs \<and> prefix (concat cs) (concat (map sw_payload ops)) \<and>
    prefix (snk_out (sw_w w)) (frames_of cs @ eof_frame) \<and>
    (sw_failed w = None \<longrightarrow> snk_out (sw_w w) = frames_of cs @ (if sw_closed w then eof_frame else [])) \<and>
    (sw_failed w = None \<and> \<not> sw_closed w \<longrightarrow> concat cs = concat (map sw_payload ops))"
proof -
  have "sw_inv (NewStreamWriter s) []"
    using assms(1) by (auto simp: sw_inv_def NewStreamWriter_def intro!: exI [of _ "[]"])
  from sw_inv_run [OF this, of ops] show ?thesis by (simp add: sw_inv_def w_def)
qed

theorem StreamWriter_wire_wellformed_witness:
  "\<exists>cs. chunks_ok cs \<and> prefix (concat cs) [7, 8, 9] \<and> prefix [1, 3, 0, 0, 0] (frames_of cs @ eof_frame)"
proof -
  have "snk_out (sw_w (fold sw_step [SwWrite [7, 8], SwCloseWrite, SwWrite [9]]
      (NewStreamWriter \<lparr>snk_out = [], snk_resp = [(3, None), (2, Some (OSError 1))]\<rparr>))) = [1, 3, 0, 0, 0]"
    by code_simp
  then show ?thesis
    using StreamWriter_wire_wellformed [of "\<lparr>snk_out = [], snk_resp = [(3, None), (2, Some (OSError 1))]\<rparr>"
        "[SwWrite [7, 8], SwCloseWrite, SwWrite [9]]"] by auto
qed

end
