(* ===== verification/Datagram.thy ===== *)
theory Datagram
  imports Interfaces
begin

text \<open>
  The UDP datagrams of \<^verbatim>\<open>internal/frame/frame.go\<close>: the datagram codec with its address
  cache, and \<open>ReplayWindow\<close>, the 2048-slot sliding window over \<open>uint64\<close> sequence numbers, which
  is refined to a window over an unbounded set of accepted numbers.
\<close>

definition maxDatagramAddress :: nat where "maxDatagramAddress = 512"
definition MaxDatagramPayload :: nat where "MaxDatagramPayload = 1350"
abbreviation (input) datagramVersion :: byte where "datagramVersion \<equiv> 1"
abbreviation (input) datagramHeaderSize :: nat where "datagramHeaderSize \<equiv> 11"

text \<open>\<open>dst\<close> is the capacity of the caller's buffer; all bytes of the result are overwritten.\<close>

definition EncodeDatagramInto :: "nat \<Rightarrow> u64 \<Rightarrow> bytes \<Rightarrow> bytes \<Rightarrow> bytes result" where
  "EncodeDatagramInto dst sequence address payload =
     (if address = [] \<or> maxDatagramAddress < length address then Inl (Errorf ''invalid datagram address'')
      else if MaxDatagramPayload < length payload then Inl (Errorf ''datagram payload too large'')
      else if dst < datagramHeaderSize + length address + length payload
        then Inl (Errorf ''datagram buffer too small'')
      else Inr ([datagramVersion] @ putUint64 sequence @ putUint16 (word_of_nat (length address)) @ address @ payload))"

definition EncodeDatagram :: "u64 \<Rightarrow> bytes \<Rightarrow> bytes \<Rightarrow> bytes result" where
  "EncodeDatagram sequence address payload =
     EncodeDatagramInto (datagramHeaderSize + length address + length payload) sequence address payload"

record datagram_cache =
  dc_key :: bytes
  dc_address :: bytes

definition DatagramCache_Decode :: "datagram_cache \<Rightarrow> bytes \<Rightarrow> (u64 \<times> bytes \<times> bytes) result \<times> datagram_cache" where
  "DatagramCache_Decode c packet =
     (if length packet < datagramHeaderSize \<or> packet ! 0 \<noteq> datagramVersion
      then (Inl (Errorf ''invalid datagram header''), c)
      else let addressLength = unat (getUint16 (gslice 9 11 packet))
           in if addressLength = 0 \<or> maxDatagramAddress < addressLength \<or> length packet < datagramHeaderSize + addressLength
              then (Inl (Errorf ''invalid datagram address length''), c)
              else let payload = drop (datagramHeaderSize + addressLength) packet
                   in if MaxDatagramPayload < length payload then (Inl (Errorf ''datagram payload too large''), c)
                      else let addressBytes = gslice datagramHeaderSize (datagramHeaderSize + addressLength) packet;
                               c' = (if dc_address c = [] \<or> dc_key c \<noteq> addressBytes
                                     then \<lparr>dc_key = addressBytes, dc_address = addressBytes\<rparr> else c)
                           in (Inr (getUint64 (gslice 1 9 packet), dc_address c', payload), c'))"

definition DecodeDatagram :: "bytes \<Rightarrow> (u64 \<times> bytes \<times> bytes) result" where
  "DecodeDatagram packet = fst (DatagramCache_Decode \<lparr>dc_key = [], dc_address = []\<rparr> packet)"

subsection \<open>The sliding window\<close>

definition ReplayWindowSize :: u64 where "ReplayWindowSize = 2048"

record replay_window =
  rw_initialized :: bool
  rw_highest :: u64
  rw_bits :: "u64 list"

definition new_window :: replay_window where
  "new_window = \<lparr>rw_initialized = False, rw_highest = 0, rw_bits = replicate 32 0\<rparr>"

definition replaySlot :: "u64 \<Rightarrow> nat \<times> u64" where
  "replaySlot sequence =
     (let slot = sequence mod ReplayWindowSize in (unat (slot div 64), push_bit (unat (slot mod 64)) 1))"

definition mark :: "u64 \<Rightarrow> u64 list \<Rightarrow> u64 list" where
  "mark sequence bits = (case replaySlot sequence of (word, msk) \<Rightarrow> bits[word := bits ! word OR msk])"

function clearSlots :: "u64 list \<Rightarrow> u64 \<Rightarrow> u64 \<Rightarrow> u64 list" where
  "clearSlots bits sequence count =
     (if count = 0 then bits
      else let slot = sequence mod ReplayWindowSize;
               word = unat (slot div 64);
               b = slot mod 64;
               chunk = min count (64 - b);
               msk = (if chunk < 64 then push_bit (unat chunk) 1 - 1 else NOT 0)
           in clearSlots (bits[word := bits ! word AND NOT (push_bit (unat b) msk)]) (sequence + chunk) (count - chunk))"
  by pat_completeness auto

lemma unat_sub_mod64: "unat (64 - (s :: u64) mod 64) = 64 - unat s mod 64"
proof -
  have "s mod 64 \<le> 64" by (simp add: word_le_nat_alt unat_mod)
  then show ?thesis by (simp add: unat_sub unat_mod)
qed

termination clearSlots
proof (relation "measure (\<lambda>(bits, s, c). unat c)", goal_cases)
  case 1
  show ?case by simp
next
  case (2 bits s c slot word b chunk msk)
  have "unat (64 - b) \<noteq> 0" using 2(4) by (simp add: unat_sub_mod64)
  then have "0 < unat chunk" "chunk \<le> c"
    using 2(1) unfolding 2(5) by (auto simp only: min_def unat_gt_0 unat_eq_0 split: if_splits) 
  then show ?case by (simp add: unat_sub word_le_nat_alt)
qed

declare clearSlots.simps [simp del]

definition ReplayWindow_Accept :: "replay_window \<Rightarrow> u64 \<Rightarrow> bool \<times> replay_window" where
  "ReplayWindow_Accept w sequence =
     (if \<not> rw_initialized w then
        (True, \<lparr>rw_initialized = True, rw_highest = sequence, rw_bits = mark sequence (rw_bits w)\<rparr>)
      else if rw_highest w < sequence then
        (let advance = sequence - rw_highest w;
             bits = (if ReplayWindowSize \<le> advance then replicate 32 0
                     else clearSlots (rw_bits w) (rw_highest w + 1) (advance - 1))
         in (True, w\<lparr>rw_highest := sequence, rw_bits := mark sequence bits\<rparr>))
      else if ReplayWindowSize \<le> rw_highest w - sequence then (False, w)
      else case replaySlot sequence of
             (word, msk) \<Rightarrow>
               if rw_bits w ! word AND msk \<noteq> 0 then (False, w)
               else (True, w\<lparr>rw_bits := (rw_bits w)[word := rw_bits w ! word OR msk]\<rparr>))"

subsection \<open>Codec lemmas\<close>

definition datagram_cache_ok :: "datagram_cache \<Rightarrow> bool" where
  "datagram_cache_ok c \<longleftrightarrow> dc_address c = [] \<or> dc_address c = dc_key c"

lemma DatagramCache_Decode_ok: "datagram_cache_ok c \<Longrightarrow> datagram_cache_ok (snd (DatagramCache_Decode c p))"
  by (auto simp: DatagramCache_Decode_def Let_def datagram_cache_ok_def)

lemma DatagramCache_Decode_transparent:
  "datagram_cache_ok c \<Longrightarrow> fst (DatagramCache_Decode c p) = DecodeDatagram p"
  by (cases "dc_address c = []") (simp_all add: DatagramCache_Decode_def DecodeDatagram_def Let_def datagram_cache_ok_def)

lemma decode_encode_datagram:
  assumes "EncodeDatagram sequence address payload = Inr packet"
  shows "DecodeDatagram packet = Inr (sequence, address, payload)"
proof -
  let ?hd = "[1] @ putUint64 sequence @ putUint16 (word_of_nat (length address))"
  have packet: "packet = ?hd @ address @ payload" and addr: "address \<noteq> []" "length address \<le> 512"
    and pay: "length payload \<le> MaxDatagramPayload"
    using assms by (auto simp: EncodeDatagram_def EncodeDatagramInto_def maxDatagramAddress_def split: if_splits)
  have fields: "packet ! 0 = 1" "gslice 1 9 packet = putUint64 sequence"
    "gslice 9 11 packet = putUint16 (word_of_nat (length address))"
    "gslice 11 (11 + length address) packet = address" "drop (11 + length address) packet = payload"
    "length packet = 11 + length address + length payload"
    using packet by (simp_all add: gslice_def flip: drop_drop add.commute [of _ 11])
  have "unat (word_of_nat (length address) :: u16) = length address" using addr by (simp add: unat_of_nat)
  then show ?thesis using addr pay
    by (simp add: DecodeDatagram_def DatagramCache_Decode_def fields fields(2) [simplified] Let_def maxDatagramAddress_def)
qed

lemma encode_decode_datagram:
  assumes "DecodeDatagram packet = Inr (sequence, address, payload)"
  shows "EncodeDatagram sequence address payload = Inr packet"
proof -
  let ?n = "unat (getUint16 (gslice 9 11 packet))"
  have ok: "11 + ?n \<le> length packet" "packet ! 0 = 1" "0 < ?n" "?n \<le> maxDatagramAddress"
    "sequence = getUint64 (gslice 1 9 packet)" "address = gslice 11 (11 + ?n) packet"
    "payload = drop (11 + ?n) packet" "length payload \<le> MaxDatagramPayload"
    using assms by (auto simp: DecodeDatagram_def DatagramCache_Decode_def Let_def split: if_splits)
  have len: "length address = ?n" using ok by simp
  then have nw: "putUint16 (word_of_nat (length address)) = gslice 9 11 packet" using ok(1) by simp
  have "packet = [packet ! 0] @ drop 1 packet" using ok(1) by (cases packet) auto
  also have "drop 1 packet = gslice 1 9 packet @ gslice 9 11 packet @ gslice 11 (11 + ?n) packet @ drop (11 + ?n) packet"
    by (simp add: gslice_drop)
  finally have "packet = [1] @ putUint64 sequence @ putUint16 (word_of_nat (length address)) @ address @ payload"
    using ok nw by simp
  moreover have "address \<noteq> []" "\<not> maxDatagramAddress < length address" "\<not> MaxDatagramPayload < length payload"
    using len ok(3,4,8) by auto
  ultimately show ?thesis by (simp add: EncodeDatagram_def EncodeDatagramInto_def)
qed

subsection \<open>Window slots\<close>

text \<open>Slot \<open>k < 2048\<close> of the bit array.\<close>

definition slot_set :: "u64 list \<Rightarrow> nat \<Rightarrow> bool" where
  "slot_set bits k = bit (bits ! (k div 64)) (k mod 64)"

lemma unat_slot: "unat (s mod ReplayWindowSize) = unat s mod 2048"
  by (simp add: ReplayWindowSize_def unat_mod)

lemma replaySlot_unat: "replaySlot s = (unat s mod 2048 div 64, push_bit (unat s mod 64) 1)"
proof -
  have "unat s mod 2048 mod 64 = unat s mod 64" by (simp add: mod_mod_cancel)
  then show ?thesis by (simp add: replaySlot_def Let_def unat_div unat_mod ReplayWindowSize_def)
qed

lemma length_mark [simp]: "length (mark s bits) = length bits"
  by (simp add: mark_def split: prod.splits)

lemma slot_set_mark:
  assumes "length bits = 32" "k < 2048"
  shows "slot_set (mark s bits) k \<longleftrightarrow> slot_set bits k \<or> k = unat s mod 2048"
proof -
  let ?j = "unat s mod 2048"
  have j: "unat s mod 64 = ?j mod 64" by (simp add: mod_mod_cancel)
  have "k div 64 < 32" "?j div 64 < 32" using assms(2) by auto
  moreover have "k = ?j \<longleftrightarrow> k div 64 = ?j div 64 \<and> k mod 64 = ?j mod 64" by (metis div_mult_mod_eq)
  ultimately show ?thesis
    using assms by (auto simp: slot_set_def mark_def replaySlot_unat j nth_list_update bit_or_iff bit_exp_iff)
qed

lemma slot_free_test:
  "length bits = 32 \<Longrightarrow> replaySlot s = (word, msk) \<Longrightarrow> bits ! word AND msk \<noteq> 0 \<longleftrightarrow> slot_set bits (unat s mod 2048)"
proof -
  assume l: "length bits = 32" and r: "replaySlot s = (word, msk)"
  have wm: "word = unat s mod 2048 div 64" "msk = push_bit (unat s mod 2048 mod 64) 1"
    using r by (auto simp: replaySlot_unat mod_mod_cancel)
  have lt: "unat s mod 2048 mod 64 < 64" by simp
  have "bits ! word AND msk \<noteq> 0 \<longleftrightarrow> bit (bits ! word) (unat s mod 2048 mod 64)"
    unfolding wm(2) using bit_eq_iff [of "bits ! word AND push_bit (unat s mod 2048 mod 64) 1" 0]
    by (auto simp only: bit_and_iff bit_push_bit_iff bit_1_iff bit_0_eq bot_apply) (use lt in \<open>auto, blast\<close>)
  then show ?thesis by (simp add: slot_set_def wm(1))
qed

lemma bit_clear_mask:
  assumes "c \<le> 64" "(c :: u64) \<noteq> 0"
  shows "bit (if c < 64 then push_bit (unat c) 1 - 1 else NOT 0 :: u64) j \<longleftrightarrow> j < unat c"
proof (cases "c < 64")
  case True
  have "push_bit (unat c) 1 - 1 = (mask (unat c) :: u64)" by (simp add: mask_eq_exp_minus_1 push_bit_eq_mult)
  then show ?thesis using True by (auto simp: bit_mask_iff word_less_nat_alt)
next
  case False
  then have "c = 64" using assms(1) by simp
  then show ?thesis by (simp add: bit_not_iff)
qed

lemma clear_step:
  assumes l: "length bits = 32" and k: "k < 2048" and s: "j < 2048" and c: "(c :: u64) \<noteq> 0" "unat c \<le> 64 - j mod 64"
  shows "slot_set (bits[j div 64 := bits ! (j div 64) AND
      NOT (push_bit (j mod 64) (if c < 64 then push_bit (unat c) 1 - 1 else NOT 0 :: u64))]) k \<longleftrightarrow>
    slot_set bits k \<and> \<not> (j \<le> k \<and> k < j + unat c)"
proof -
  have c64: "c \<le> 64" using c(2) by (simp add: word_le_nat_alt)
  have ix: "k div 64 < 32" "j div 64 < 32" using k s by auto
  have j: "j = 64 * (j div 64) + j mod 64" and kk: "k = 64 * (k div 64) + k mod 64" by simp_all
  have range: "j \<le> k \<and> k < j + unat c \<longleftrightarrow> k div 64 = j div 64 \<and> j mod 64 \<le> k mod 64 \<and> k mod 64 < j mod 64 + unat c"
  proof
    assume a: "j \<le> k \<and> k < j + unat c"
    then have "k < 64 * (j div 64) + 64" using c(2) j by linarith
    then have "k div 64 = j div 64" 
      using a j by (intro div_nat_eqI) (linarith, simp only: mult_Suc_right add.commute)
    then show "k div 64 = j div 64 \<and> j mod 64 \<le> k mod 64 \<and> k mod 64 < j mod 64 + unat c" using a j kk by linarith
  next
    assume "k div 64 = j div 64 \<and> j mod 64 \<le> k mod 64 \<and> k mod 64 < j mod 64 + unat c"
    then show "j \<le> k \<and> k < j + unat c" using j kk by linarith
  qed
  show ?thesis
  proof (cases "k div 64 = j div 64")
    case True
    have "bit (NOT (push_bit (j mod 64) m)) (k mod 64) \<longleftrightarrow> \<not> (j mod 64 \<le> k mod 64 \<and> bit m (k mod 64 - j mod 64))"
      for m :: u64 by (simp add: bit_not_iff bit_push_bit_iff)
    moreover have "k mod 64 - j mod 64 < unat c \<longleftrightarrow> k mod 64 < j mod 64 + unat c" if "j mod 64 \<le> k mod 64"
      using that by linarith
    ultimately show ?thesis unfolding range slot_set_def True
      using l ix(2) bit_clear_mask [OF c64 c(1)] by (auto simp only: nth_list_update_eq bit_and_iff)
  next
    case False
    then show ?thesis unfolding range slot_set_def by simp
  qed
qed

lemma covered_step:
  fixes q c n :: nat
  assumes "c \<le> n" "q mod 2048 + c \<le> 2048"
  shows "(\<exists>i<n. (q + i) mod 2048 = k) \<longleftrightarrow>
    (q mod 2048 \<le> k \<and> k < q mod 2048 + c) \<or> (\<exists>i<n - c. (q + c + i) mod 2048 = k)"
proof -
  have low: "(q + i) mod 2048 = q mod 2048 + i" if "i < c" for i
    using assms(2) that by (subst mod_add_left_eq [symmetric]) (simp del: mod_add_left_eq)
  show ?thesis
  proof
    assume "\<exists>i<n. (q + i) mod 2048 = k"
    then obtain i where i: "i < n" "(q + i) mod 2048 = k" by blast
    show "(q mod 2048 \<le> k \<and> k < q mod 2048 + c) \<or> (\<exists>i<n - c. (q + c + i) mod 2048 = k)"
    proof (cases "i < c")
      case True
      then show ?thesis using low [OF True] i by auto
    next
      case False
      then show ?thesis using i by (intro disjI2 exI [of _ "i - c"]) auto
    qed
  next
    assume "(q mod 2048 \<le> k \<and> k < q mod 2048 + c) \<or> (\<exists>i<n - c. (q + c + i) mod 2048 = k)"
    then show "\<exists>i<n. (q + i) mod 2048 = k"
    proof
      assume "q mod 2048 \<le> k \<and> k < q mod 2048 + c"
      then show ?thesis using low [of "k - q mod 2048"] assms(1) by (intro exI [of _ "k - q mod 2048"]) auto
    next
      assume "\<exists>i<n - c. (q + c + i) mod 2048 = k"
      then obtain i where "i < n - c" "(q + c + i) mod 2048 = k" by blast
      then show ?thesis by (intro exI [of _ "c + i"]) (auto simp: add.assoc)
    qed
  qed
qed

lemma clearSlots_cleared:
  "length bits = 32 \<Longrightarrow> length (clearSlots bits s c) = 32 \<and>
    (\<forall>k<2048. slot_set (clearSlots bits s c) k \<longleftrightarrow>
       slot_set bits k \<and> \<not> (\<exists>i<unat c. (unat s + i) mod 2048 = k))"
proof (induction bits s c rule: clearSlots.induct)
  case (1 bits s c)
  show ?case
  proof (cases "c = 0")
    case True
    then show ?thesis using "1.prems" by (simp add: clearSlots.simps [of bits s 0])
  next
    case False
    define slot where "slot = s mod ReplayWindowSize"
    define word where "word = unat (slot div 64)"
    define b where "b = slot mod 64"
    define chunk where "chunk = min c (64 - b)"
    define msk where "msk = (if chunk < 64 then push_bit (unat chunk) 1 - 1 else NOT 0 :: u64)"
    let ?bits = "bits[word := bits ! word AND NOT (push_bit (unat b) msk)]"
    let ?j = "unat s mod 2048"
    have slot: "unat slot = ?j" by (simp add: slot_def unat_slot)
    have wb: "word = ?j div 64" "unat b = ?j mod 64" using slot by (simp_all add: word_def b_def unat_div unat_mod)
    have ub: "unat (64 - b) = 64 - ?j mod 64" using slot unat_sub_mod64 [of slot] by (simp add: b_def)
    have chunk: "unat chunk = min (unat c) (64 - ?j mod 64)"
      using ub by (auto simp: chunk_def min_def word_le_nat_alt)
    have nz: "chunk \<noteq> 0" using chunk False by (auto simp: unat_eq_0 [symmetric])
    have cb: "unat chunk \<le> 64 - ?j mod 64" "unat chunk \<le> unat c" using chunk by auto
    have sum: "?j + unat chunk \<le> 2048" 
    proof -
      have "?j < 32 * 64" by simp
      then have "?j div 64 < 32" by (rule less_mult_imp_div_less)
      then show ?thesis using cb(1) div_mult_mod_eq [of ?j 64] mod_less_divisor [of 64 ?j] by linarith
    qed
    have us: "unat (s + chunk) mod 2048 = (unat s + unat chunk) mod 2048"
      by (simp add: unat_word_ariths mod_mod_cancel)
    have uc: "unat (c - chunk) = unat c - unat chunk" using cb(2) by (simp add: unat_sub word_le_nat_alt)
    have step: "clearSlots bits s c = clearSlots ?bits (s + chunk) (c - chunk)"
      using False unfolding clearSlots.simps [of bits s c] slot_def b_def word_def chunk_def msk_def by (simp only: Let_def if_False)
    have IH: "length (clearSlots ?bits (s + chunk) (c - chunk)) = 32 \<and>
      (\<forall>k<2048. slot_set (clearSlots ?bits (s + chunk) (c - chunk)) k \<longleftrightarrow>
         slot_set ?bits k \<and> \<not> (\<exists>i<unat (c - chunk). (unat (s + chunk) + i) mod 2048 = k))"
      using "1.IH" [OF False slot_def word_def b_def chunk_def msk_def] "1.prems" by simp
    have covered: "(\<exists>i<unat (c - chunk). (unat (s + chunk) + i) mod 2048 = k) \<longleftrightarrow>
        (\<exists>i<unat c - unat chunk. (unat s + unat chunk + i) mod 2048 = k)" for k
      using mod_add_cong [OF us refl] by (simp only: uc)
    show ?thesis
      using IH clear_step [OF "1.prems" _ _ nz cb(1)] covered_step [OF cb(2) sum] covered
      by (simp add: step wb msk_def)
  qed
qed

subsection \<open>Refinement to an unbounded set of accepted numbers\<close>

text \<open>
  The specification: the highest number and the set of all numbers ever accepted. A number above the
  highest is accepted; a number 2048 or more behind is rejected; a number within the window is accepted
  exactly when it has not been accepted before.
\<close>

type_synonym window_spec = "(nat \<times> nat set) option"

fun window_spec_accept :: "window_spec \<Rightarrow> nat \<Rightarrow> bool \<times> window_spec" where
  "window_spec_accept None s = (True, Some (s, {s}))"
| "window_spec_accept (Some (hi, S)) s =
     (if hi < s then (True, Some (s, insert s S))
      else if 2048 \<le> hi - s \<or> s \<in> S then (False, Some (hi, S))
      else (True, Some (hi, insert s S)))"

definition window_refines :: "replay_window \<Rightarrow> window_spec \<Rightarrow> bool" where
  "window_refines w sp \<longleftrightarrow> length (rw_bits w) = 32 \<and>
     (case sp of
        None \<Rightarrow> \<not> rw_initialized w \<and> (\<forall>k<2048. \<not> slot_set (rw_bits w) k)
      | Some (hi, S) \<Rightarrow> rw_initialized w \<and> hi = unat (rw_highest w) \<and> (\<forall>s\<in>S. s \<le> hi) \<and>
          (\<forall>s. s \<le> hi \<longrightarrow> hi - s < 2048 \<longrightarrow> (slot_set (rw_bits w) (s mod 2048) \<longleftrightarrow> s \<in> S)))"

lemma slot_set_zero [simp]: "k < 2048 \<Longrightarrow> \<not> slot_set (replicate 32 0) k"
  by (simp add: slot_set_def)

lemma new_window_refines: "window_refines new_window None"
  by (simp add: window_refines_def new_window_def)

lemma window_mod_inj:
  fixes s t hi :: nat
  assumes "s \<le> hi" "hi - s < 2048" "t \<le> hi" "hi - t < 2048" "s mod 2048 = t mod 2048"
  shows "s = t"
proof -
  have "x = y" if "x \<le> y" "x mod 2048 = y mod 2048" "y - x < 2048" for x y :: nat
  proof -
    have "2048 dvd y - x" by (rule mod_eq_dvd_iff_nat [THEN iffD1, OF that(1) that(2) [symmetric]])
    then have "y - x = 0" using that(3) nat_dvd_not_less [of "y - x" 2048] by fastforce
    then show ?thesis using that(1) by simp
  qed
  moreover have "t - s < 2048" "s - t < 2048" using assms(1-4) by linarith+
  ultimately show ?thesis using assms(5) by (metis nat_le_linear)
qed

lemma mark_refines:
  assumes "length bits = 32" "s \<le> unat q" "unat q - s < 2048"
  shows "slot_set (mark q bits) (s mod 2048) \<longleftrightarrow> slot_set bits (s mod 2048) \<or> s = unat q"
proof -
  have "s mod 2048 = unat q mod 2048 \<longleftrightarrow> s = unat q"
    using window_mod_inj [of s "unat q" "unat q"] assms by auto
  then show ?thesis using slot_set_mark [OF assms(1), of "s mod 2048" q] by simp
qed

lemma advance_refines:
  fixes s hi q :: nat
  assumes "hi < q" "q - hi < 2048" "s \<le> q" "q - s < 2048" "s \<noteq> q"
  shows "(\<exists>i<q - hi - 1. (hi + 1 + i) mod 2048 = s mod 2048) \<longleftrightarrow> hi < s"
proof
  assume "\<exists>i<q - hi - 1. (hi + 1 + i) mod 2048 = s mod 2048"
  then obtain i where i: "i < q - hi - 1" "(hi + 1 + i) mod 2048 = s mod 2048" by blast
  have "hi + 1 + i \<le> q" "q - (hi + 1 + i) < 2048" using i(1) assms(1,2) by linarith+
  from window_mod_inj [OF this assms(3,4) i(2)] show "hi < s" by simp
next
  assume "hi < s"
  then have "hi + 1 + (s - hi - 1) = s" "s - hi - 1 < q - hi - 1" using assms(3,5) by linarith+
  then show "\<exists>i<q - hi - 1. (hi + 1 + i) mod 2048 = s mod 2048"
    by (intro exI [of _ "s - hi - 1"]) simp
qed

lemma Accept_refines:
  assumes r: "window_refines w sp"
  shows "fst (ReplayWindow_Accept w q) = fst (window_spec_accept sp (unat q)) \<and>
    window_refines (snd (ReplayWindow_Accept w q)) (snd (window_spec_accept sp (unat q)))"
proof (cases sp)
  case None
  have l: "length (rw_bits w) = 32" and z: "\<forall>k<2048. \<not> slot_set (rw_bits w) k" and i: "\<not> rw_initialized w"
    using r None by (auto simp: window_refines_def)
  then show ?thesis using None mark_refines [OF l]
    by (auto simp: ReplayWindow_Accept_def window_refines_def)
next
  case (Some hS)
  obtain S where sp: "sp = Some (unat (rw_highest w), S)"
    using r Some by (cases hS) (auto simp: window_refines_def)
  let ?hi = "unat (rw_highest w)" and ?q = "unat q"
  have l: "length (rw_bits w) = 32" and i: "rw_initialized w" and below: "\<And>s. s \<in> S \<Longrightarrow> s \<le> ?hi"
    and win: "\<And>s. s \<le> ?hi \<Longrightarrow> ?hi - s < 2048 \<Longrightarrow> slot_set (rw_bits w) (s mod 2048) \<longleftrightarrow> s \<in> S"
    using r sp by (auto simp: window_refines_def)
  consider (far) "?hi < ?q" "2048 \<le> ?q - ?hi" | (near) "?hi < ?q" "?q - ?hi < 2048"
    | (old) "?q \<le> ?hi" "2048 \<le> ?hi - ?q" | (inside) "?q \<le> ?hi" "?hi - ?q < 2048" by linarith
  then show ?thesis
  proof cases
    case far
    have adv: "rw_highest w < q" "ReplayWindowSize \<le> q - rw_highest w"
      using far by (auto simp: word_less_nat_alt word_le_nat_alt unat_sub ReplayWindowSize_def)
    have "window_refines \<lparr>rw_initialized = True, rw_highest = q, rw_bits = mark q (replicate 32 0)\<rparr> (Some (?q, insert ?q S))"
      using mark_refines [of "replicate 32 0" _ q] below far
      by (auto simp: window_refines_def dest: below)
    then show ?thesis using far(1) adv i sp by (cases w) (simp add: ReplayWindow_Accept_def)
  next
    case near
    have adv: "rw_highest w < q" "\<not> ReplayWindowSize \<le> q - rw_highest w"
      "unat (q - rw_highest w - 1) = ?q - ?hi - 1" "unat (rw_highest w + 1) = ?hi + 1"
    proof -
      show lt: "rw_highest w < q" using near by (simp add: word_less_nat_alt)
      then have d: "unat (q - rw_highest w) = ?q - ?hi" by (simp add: unat_sub)
      then show "\<not> ReplayWindowSize \<le> q - rw_highest w"
        using near by (simp add: word_le_nat_alt ReplayWindowSize_def)
      have "1 \<le> q - rw_highest w" using d near by (simp add: word_le_nat_alt)
      then show "unat (q - rw_highest w - 1) = ?q - ?hi - 1" using d by (subst unat_sub) auto
      show "unat (rw_highest w + 1) = ?hi + 1" using near unat_bound [of q] by (simp add: unat_word_ariths)
    qed
    let ?b = "clearSlots (rw_bits w) (rw_highest w + 1) (q - rw_highest w - 1)"
    have cl: "length ?b = 32" "\<And>k. k < 2048 \<Longrightarrow> slot_set ?b k \<longleftrightarrow>
         slot_set (rw_bits w) k \<and> \<not> (\<exists>i<?q - ?hi - 1. (?hi + 1 + i) mod 2048 = k)"
      using clearSlots_cleared [OF l, of "rw_highest w + 1" "q - rw_highest w - 1"] adv by auto
    have "slot_set (mark q ?b) (s mod 2048) \<longleftrightarrow> s \<in> insert ?q S" if s: "s \<le> ?q" "?q - s < 2048" for s
    proof (cases "s = ?q")
      case True
      then show ?thesis using mark_refines [OF cl(1) s] by simp
    next
      case False
      have "?hi - s < 2048" using near(1) s(2) by linarith
      then show ?thesis using False
        using mark_refines [OF cl(1) s] cl(2) [of "s mod 2048"] advance_refines [OF near s False] win [of s] below [of s] s
        by (cases "?hi < s") auto
    qed
    then have "window_refines (w\<lparr>rw_highest := q, rw_bits := mark q ?b\<rparr>) (Some (?q, insert ?q S))"
      using cl(1) i near(1) by (auto simp: window_refines_def dest: below)
    then show ?thesis using near adv(1,2) i sp by (simp add: ReplayWindow_Accept_def Let_def)
  next
    case old
    have "\<not> rw_highest w < q" "ReplayWindowSize \<le> rw_highest w - q"
      using old by (auto simp: word_less_nat_alt word_le_nat_alt unat_sub ReplayWindowSize_def)
    then show ?thesis using old r i sp by (simp add: ReplayWindow_Accept_def)
  next
    case inside
    obtain word msk where rs: "replaySlot q = (word, msk)" by (cases "replaySlot q") auto
    have c: "\<not> rw_highest w < q" "\<not> ReplayWindowSize \<le> rw_highest w - q"
      using inside by (auto simp: word_less_nat_alt word_le_nat_alt unat_sub ReplayWindowSize_def)
    have t: "rw_bits w ! word AND msk \<noteq> 0 \<longleftrightarrow> ?q \<in> S" using slot_free_test [OF l rs] win inside by simp
    have mk: "(rw_bits w)[word := rw_bits w ! word OR msk] = mark q (rw_bits w)" by (simp add: mark_def rs)
    have "slot_set (mark q (rw_bits w)) (s mod 2048) \<longleftrightarrow> s \<in> insert ?q S" if "s \<le> ?hi" "?hi - s < 2048" for s
      using slot_set_mark [OF l, of "s mod 2048" q] window_mod_inj [of s ?hi ?q] win [OF that] that inside by auto
    then have "window_refines (w\<lparr>rw_bits := mark q (rw_bits w)\<rparr>) (Some (?hi, insert ?q S))"
      using l i inside by (auto simp: window_refines_def dest: below)
    then show ?thesis using c t inside r i sp rs mk by (auto simp: ReplayWindow_Accept_def)
  qed
qed

interpretation window_spec: filter_refinement ReplayWindow_Accept window_spec_accept window_refines unat
  by unfold_locales (rule Accept_refines)

lemma spec_rejects_stays:
  "\<not> fst (window_spec_accept sp j) \<Longrightarrow> \<not> fst (window_spec_accept (snd (window_spec_accept sp i)) j)"
  by (cases "(sp, i)" rule: window_spec_accept.cases) (auto split: if_splits)

lemma spec_accept_rejects: "\<not> fst (window_spec_accept (snd (window_spec_accept sp i)) i)"
  by (cases "(sp, i)" rule: window_spec_accept.cases) (auto split: if_splits)

interpretation replay_window: replay_guard
  ReplayWindow_Accept "\<lambda>w. \<exists>sp. window_refines w sp" "\<lambda>w q. \<not> fst (ReplayWindow_Accept w q)"
proof
  fix s i
  assume "\<exists>sp. window_refines s sp"
  then show "\<exists>sp. window_refines (snd (ReplayWindow_Accept s i)) sp" using Accept_refines by blast
next
  fix s i
  assume "\<exists>sp. window_refines s sp"
  then show "\<not> fst (ReplayWindow_Accept (snd (ReplayWindow_Accept s i)) i)"
    using Accept_refines spec_accept_rejects by metis
next
  fix s i j
  assume "\<exists>sp. window_refines s sp" "\<not> fst (ReplayWindow_Accept s j)"
  then show "\<not> fst (ReplayWindow_Accept (snd (ReplayWindow_Accept s i)) j)"
    using Accept_refines spec_rejects_stays by metis
qed

subsection \<open>Properties of datagrams\<close>

text \<open>C5: The datagram codec is exact: a packet decodes to a sequence number, an address and a payload
  if and only if it is what \<open>EncodeDatagram\<close> produces for them. So every encoded datagram is read back
  unchanged, no two datagrams share a packet, and no byte string outside the encoder's image is accepted.\<close>

theorem datagram_codec_exact:
  "DecodeDatagram packet = Inr (sequence, address, payload) \<longleftrightarrow> EncodeDatagram sequence address payload = Inr packet"
  using decode_encode_datagram encode_decode_datagram by blast

fun decode_all :: "datagram_cache \<Rightarrow> bytes list \<Rightarrow> (u64 \<times> bytes \<times> bytes) result list" where
  "decode_all c [] = []"
| "decode_all c (p # ps) = (case DatagramCache_Decode c p of (r, c') \<Rightarrow> r # decode_all c' ps)"

lemma decode_all_transparent: "datagram_cache_ok c \<Longrightarrow> decode_all c ps = map DecodeDatagram ps"
proof (induction ps arbitrary: c)
  case Nil
  then show ?case by simp
next
  case (Cons p ps)
  then show ?case
    using DatagramCache_Decode_transparent [of c p] DatagramCache_Decode_ok [of c p]
    by (cases "DatagramCache_Decode c p") auto
qed

text \<open>The address cache of a flow never changes what is decoded: a connection that decodes any
  sequence of packets (valid or not) through one \<open>DatagramCache\<close> gets for each of them what a decoder
  with an empty cache returns.\<close>

lemma datagram_cache_transparent:
  "decode_all \<lparr>dc_key = [], dc_address = []\<rparr> packets = map DecodeDatagram packets"
  by (rule decode_all_transparent) (simp add: datagram_cache_ok_def)

text \<open>C4: \<open>ReplayWindow.Accept\<close>, which keeps 2048 bits in 32 machine words and clears only the skipped
  slots, decides every sequence of \<open>uint64\<close> numbers exactly as the window over the set of all accepted
  numbers: above the highest number it accepts, 2048 or more behind it rejects, and in between it accepts
  exactly the numbers not accepted before (no false rejections within the window either).\<close>

theorem replay_window_refines_set:
  "verdicts ReplayWindow_Accept new_window qs = verdicts window_spec_accept None (map unat qs)"
  by (rule window_spec.verdicts_refine [OF new_window_refines])

text \<open>No sequence number is admitted twice by a \<open>ReplayWindow\<close>, in whatever order and however
  often numbers arrive.\<close>

theorem replay_window_admits_once: "distinct (accept_run ReplayWindow_Accept new_window qs)"
  using new_window_refines by (intro replay_window.run_distinct) blast

end
