(* ===== verification/GoNet.thy ===== *)
theory GoNet
  imports Prelude
begin

text \<open>
  The part of Go's \<^verbatim>\<open>net\<close>, \<^verbatim>\<open>net/netip\<close> and \<^verbatim>\<open>strconv\<close> the address codecs
  use: \<open>SplitHostPort\<close>, \<open>JoinHostPort\<close>, \<open>Atoi\<close>, \<open>Itoa\<close>, \<open>ParseIP\<close>, \<open>To4\<close> and
  \<open>IP.String\<close>. Strings are byte lists; where only failure matters the result is an option.
\<close>

abbreviation (input) chColon :: byte where "chColon \<equiv> 58"
abbreviation (input) chDot :: byte where "chDot \<equiv> 46"
abbreviation (input) chLB :: byte where "chLB \<equiv> 91"
abbreviation (input) chRB :: byte where "chRB \<equiv> 93"
abbreviation (input) chPct :: byte where "chPct \<equiv> 37"

subsection \<open>strconv\<close>

definition isDigit :: "byte \<Rightarrow> bool" where
  "isDigit c \<longleftrightarrow> 48 \<le> c \<and> c \<le> 57"

definition digit :: "byte \<Rightarrow> nat" where
  "digit c = unat (c - 48)"

function Itoa :: "nat \<Rightarrow> bytes" where
  "Itoa n = (if n < 10 then [48 + word_of_nat n] else Itoa (n div 10) @ [48 + word_of_nat (n mod 10)])"
  by pat_completeness auto
termination
  by (relation "measure id") auto

declare Itoa.simps [simp del]

definition decimal :: "bytes \<Rightarrow> nat" where
  "decimal s = foldl (\<lambda>n c. n * 10 + digit c) 0 s"

text \<open>\<open>None\<close> is a syntax or range error.\<close>

definition Atoi :: "bytes \<Rightarrow> int option" where
  "Atoi s =
     (let neg = (s \<noteq> [] \<and> hd s = 45);
          ds = (if s \<noteq> [] \<and> (hd s = 45 \<or> hd s = 43) then tl s else s)
      in if ds = [] \<or> \<not> list_all isDigit ds then None
         else let n = int (decimal ds)
              in if neg then (if n \<le> 2 ^ 63 then Some (- n) else None)
                 else if n < 2 ^ 63 then Some n else None)"

subsection \<open>Host and port\<close>

text \<open>The text front and after the last occurrence of a byte.\<close>

fun split_last :: "byte \<Rightarrow> bytes \<Rightarrow> (bytes \<times> bytes) option" where
  "split_last c [] = None"
| "split_last c (x # xs) =
     (case split_last c xs of
        Some (a, b) \<Rightarrow> Some (x # a, b)
      | None \<Rightarrow> if x = c then Some ([], xs) else None)"

definition SplitHostPort :: "bytes \<Rightarrow> (bytes \<times> bytes) result" where
  "SplitHostPort hp =
     (case split_last chColon hp of
        None \<Rightarrow> Inl (Errorf ''missing port in address'')
      | Some (front, port) \<Rightarrow>
          if hd hp = chLB then
            (let host = takeWhile (\<lambda>c. c \<noteq> chRB) (tl hp); rest = dropWhile (\<lambda>c. c \<noteq> chRB) (tl hp)
             in if rest = [] then Inl (Errorf ''missing ']' in address'')
                else if tl rest = [] then Inl (Errorf ''missing port in address'')
                else if tl rest \<noteq> chColon # port then
                  (if hd (tl rest) = chColon then Inl (Errorf ''too many colons in address'')
                   else Inl (Errorf ''missing port in address''))
                else if chLB \<in> set (tl hp) then Inl (Errorf ''unexpected '[' in address'')
                else if chRB \<in> set (tl rest) then Inl (Errorf ''unexpected ']' in address'')
                else Inr (host, port))
          else if chColon \<in> set front then Inl (Errorf ''too many colons in address'')
          else if chLB \<in> set hp then Inl (Errorf ''unexpected '[' in address'')
          else if chRB \<in> set hp then Inl (Errorf ''unexpected ']' in address'')
          else Inr (front, port))"

definition JoinHostPort :: "bytes \<Rightarrow> bytes \<Rightarrow> bytes" where
  "JoinHostPort host port =
     (if chColon \<in> set host then [chLB] @ host @ [chRB, chColon] @ port else host @ [chColon] @ port)"

subsection \<open>IP addresses\<close>

text \<open>\<open>parseIPv4Fields\<close>: the previous byte, the value and digit count of the current octet, the octets so far.\<close>

fun parse4 :: "bytes \<Rightarrow> byte option \<Rightarrow> nat \<Rightarrow> nat \<Rightarrow> bytes \<Rightarrow> bytes option" where
  "parse4 [] prev val digLen fields =
     (if length fields < 3 then None else Some (fields @ [word_of_nat val]))"
| "parse4 (c # s) prev val digLen fields =
     (if isDigit c then
        (if digLen = 1 \<and> val = 0 then None
         else let val' = val * 10 + digit c
              in if 255 < val' then None else parse4 s (Some c) val' (Suc digLen) fields)
      else if c = chDot then
        (if prev = None \<or> s = [] \<or> prev = Some chDot then None
         else if length fields = 3 then None
         else parse4 s (Some c) 0 0 (fields @ [word_of_nat val]))
      else None)"

definition hexval :: "byte \<Rightarrow> nat option" where
  "hexval c = (if 48 \<le> c \<and> c \<le> 57 then Some (unat (c - 48))
     else if 97 \<le> c \<and> c \<le> 102 then Some (unat (c - 97) + 10)
     else if 65 \<le> c \<and> c \<le> 70 then Some (unat (c - 65) + 10) else None)"

function parse6 :: "bytes \<Rightarrow> bytes \<Rightarrow> nat option \<Rightarrow> (bytes \<times> bytes \<times> nat option) option" where
  "parse6 s ip ell =
     (if 16 \<le> length ip then Some (s, ip, ell)
      else let hs = takeWhile (\<lambda>c. hexval c \<noteq> None) s;
               s' = drop (length hs) s;
               acc = foldl (\<lambda>a c. a * 16 + the (hexval c)) 0 hs
           in if hs = [] \<or> 4 < length hs then None
              else if s' \<noteq> [] \<and> hd s' = chDot then
                (if ell = None \<and> length ip \<noteq> 12 then None
                 else if 16 < length ip + 4 then None
                 else map_option (\<lambda>f. ([], ip @ f, ell)) (parse4 s None 0 0 []))
              else let ip' = ip @ be_put 2 acc
                   in if s' = [] then Some ([], ip', ell)
                      else if hd s' \<noteq> chColon \<or> tl s' = [] then None
                      else if hd (tl s') = chColon then
                        (if ell \<noteq> None then None
                         else if tl (tl s') = [] then Some ([], ip', Some (length ip'))
                         else parse6 (tl (tl s')) ip' (Some (length ip')))
                      else parse6 (tl s') ip' ell)"
  by pat_completeness auto
termination
  by (relation "measure (\<lambda>(s, ip, ell). 16 - length ip)") auto

declare parse6.simps [simp del]

definition parseIPv6 :: "bytes \<Rightarrow> bytes option" where
  "parseIPv6 s =
     (if chPct \<in> set s then None
      else let lead = (take 2 s = [chColon, chColon])
           in if lead \<and> length s = 2 then Some (replicate 16 0)
              else case parse6 (if lead then drop 2 s else s) [] (if lead then Some 0 else None) of
                     None \<Rightarrow> None
                   | Some (rest, ip, ell) \<Rightarrow>
                       if rest \<noteq> [] then None
                       else if length ip < 16 then
                         (case ell of
                            None \<Rightarrow> None
                          | Some e \<Rightarrow> Some (take e ip @ replicate (16 - length ip) 0 @ drop e ip))
                       else if ell \<noteq> None then None else Some ip)"

definition v4mapped :: "bytes \<Rightarrow> bytes" where
  "v4mapped ip = replicate 10 0 @ [255, 255] @ ip"

text \<open>The first of the bytes '.', ':' and '%' selects the parser; a zone is not an IP here.\<close>

definition ParseIP :: "bytes \<Rightarrow> bytes option" where
  "ParseIP s =
     (case dropWhile (\<lambda>c. c \<noteq> chDot \<and> c \<noteq> chColon \<and> c \<noteq> chPct) s of
        [] \<Rightarrow> None
      | c # _ \<Rightarrow> if c = chDot then map_option v4mapped (parse4 s None 0 0 [])
                 else if c = chColon then parseIPv6 s else None)"

definition To4 :: "bytes \<Rightarrow> bytes option" where
  "To4 ip = (if length ip = 4 then Some ip
     else if length ip = 16 \<and> take 12 ip = replicate 10 0 @ [255, 255] then Some (drop 12 ip) else None)"

definition dotted :: "bytes \<Rightarrow> bytes" where
  "dotted ip = Itoa (unat (ip ! 0)) @ [chDot] @ Itoa (unat (ip ! 1)) @ [chDot] @
     Itoa (unat (ip ! 2)) @ [chDot] @ Itoa (unat (ip ! 3))"

definition hexdigit :: "nat \<Rightarrow> byte" where
  "hexdigit n = (if n < 10 then 48 + word_of_nat n else 87 + word_of_nat n)"

definition appendHex :: "nat \<Rightarrow> bytes" where
  "appendHex x = (if 4096 \<le> x then [hexdigit (x div 4096)] else []) @
     (if 256 \<le> x then [hexdigit (x div 256 mod 16)] else []) @
     (if 16 \<le> x then [hexdigit (x div 16 mod 16)] else []) @ [hexdigit (x mod 16)]"

definition zero_run :: "nat list \<Rightarrow> nat \<times> nat" where
  "zero_run gs = fold (\<lambda>i (st, en). let l = length (takeWhile (\<lambda>g. g = 0) (drop i gs))
       in if 2 \<le> l \<and> en - st < l then (i, i + l) else (st, en)) [0..<8] (255, 255)"

text \<open>\<open>zeroStart < zeroEnd\<close> whenever there is a run, so the maximum is \<open>zeroEnd\<close>.\<close>

function string6 :: "nat list \<Rightarrow> nat \<Rightarrow> nat \<Rightarrow> nat \<Rightarrow> bytes" where
  "string6 gs zeroStart zeroEnd i =
     (if 8 \<le> i then []
      else if i = zeroStart then
        [chColon, chColon] @
        (if 8 \<le> zeroEnd then [] else appendHex (gs ! zeroEnd) @ string6 gs zeroStart zeroEnd (Suc (max i zeroEnd)))
      else (if 0 < i then [chColon] else []) @ appendHex (gs ! i) @ string6 gs zeroStart zeroEnd (Suc i))"
  by pat_completeness auto
termination
  by (relation "measure (\<lambda>(gs, st, en, i). 8 - i)") auto

declare string6.simps [simp del]

definition IP_String :: "bytes \<Rightarrow> bytes" where
  "IP_String ip =
     (case To4 ip of
        Some p4 \<Rightarrow> dotted p4
      | None \<Rightarrow> let gs = map (\<lambda>i. be_get (gslice (2 * i) (2 * i + 2) ip)) [0..<8]
                in case zero_run gs of (st, en) \<Rightarrow> string6 gs st en 0)"

subsection \<open>Numbers\<close>

lemma digit_char [simp]:
  assumes "d < 10"
  shows "isDigit (48 + word_of_nat d)" "digit (48 + word_of_nat d) = d"
    "48 + word_of_nat d \<noteq> chColon" "48 + word_of_nat d \<noteq> chDot" "48 + word_of_nat d \<noteq> chLB"
    "48 + word_of_nat d \<noteq> chRB" "48 + word_of_nat d \<noteq> (45 :: byte)" "48 + word_of_nat d \<noteq> (43 :: byte)" "48 + word_of_nat d \<noteq> chPct"
proof -
  have "d \<in> {0, 1, 2, 3, 4, 5, 6, 7, 8, 9}" using assms by auto
  then show "isDigit (48 + word_of_nat d)" "digit (48 + word_of_nat d) = d"
    "48 + word_of_nat d \<noteq> chColon" "48 + word_of_nat d \<noteq> chDot" "48 + word_of_nat d \<noteq> chLB"
    "48 + word_of_nat d \<noteq> chRB" "48 + word_of_nat d \<noteq> (45 :: byte)" "48 + word_of_nat d \<noteq> (43 :: byte)" "48 + word_of_nat d \<noteq> chPct"
    by (auto simp: isDigit_def digit_def)
qed

lemma Itoa_nonempty [simp]: "Itoa n \<noteq> []"
  by (simp add: Itoa.simps [of n])

lemma Itoa_set:
  "c \<in> set (Itoa n) \<Longrightarrow> isDigit c \<and> c \<noteq> chColon \<and> c \<noteq> chDot \<and> c \<noteq> chLB \<and> c \<noteq> chRB \<and> c \<noteq> 45 \<and> c \<noteq> 43 \<and> c \<noteq> chPct"
proof (induction n rule: Itoa.induct)
  case (1 n)
  show ?case
  proof (cases "n < 10")
    case True
    then show ?thesis using "1.prems" by (simp add: Itoa.simps [of n])
  next
    case False
    then show ?thesis using "1.prems" "1.IH" [OF False] by (auto simp: Itoa.simps [of n])
  qed
qed

lemma decimal_snoc [simp]: "decimal (s @ [c]) = decimal s * 10 + digit c"
  by (simp add: decimal_def)

lemma decimal_Itoa [simp]: "decimal (Itoa n) = n"
proof (induction n rule: Itoa.induct)
  case (1 n)
  show ?case
  proof (cases "n < 10")
    case True
    then show ?thesis by (simp add: Itoa.simps [of n] decimal_def)
  next
    case False
    then show ?thesis using "1.IH" [OF False] by (subst Itoa.simps) simp
  qed
qed

lemma Atoi_Itoa [simp]: "n < 2 ^ 63 \<Longrightarrow> Atoi (Itoa n) = Some (int n)"
proof -
  assume "n < 2 ^ 63"
  then have "int n < 2 ^ 63" by (metis of_nat_less_iff of_nat_numeral of_nat_power)
  moreover have "hd (Itoa n) \<noteq> 45" "hd (Itoa n) \<noteq> 43" "list_all isDigit (Itoa n)"
    using Itoa_set [of "hd (Itoa n)" n] Itoa_set [of _ n] by (auto simp: list_all_iff)
  ultimately show ?thesis by (simp add: Atoi_def Let_def)
qed

subsection \<open>Joining and splitting\<close>

lemma split_last_append: "c \<notin> set b \<Longrightarrow> split_last c (a @ c # b) = Some (a, b)"
proof (induction a)
  case Nil
  have "split_last c b = None" if "c \<notin> set b" for b using that by (induction b) auto
  then show ?case using Nil by simp
next
  case (Cons x a)
  then show ?case by simp
qed

lemma split_join:
  assumes "chLB \<notin> set h" "chRB \<notin> set h" "chColon \<notin> set p" "chLB \<notin> set p" "chRB \<notin> set p"
  shows "SplitHostPort (JoinHostPort h p) = Inr (h, p)"
proof (cases "chColon \<in> set h")
  case True
  have sl: "split_last chColon (chLB # h @ chRB # chColon # p) = Some (chLB # h @ [chRB], p)"
    using split_last_append [of chColon p "chLB # h @ [chRB]"] assms(3) by simp
  have tw: "takeWhile (\<lambda>c. c \<noteq> chRB) (h @ chRB # chColon # p) = h"
    "dropWhile (\<lambda>c. c \<noteq> chRB) (h @ chRB # chColon # p) = chRB # chColon # p"
    using assms(2) by (induction h) auto
  show ?thesis using True assms sl tw by (simp add: SplitHostPort_def JoinHostPort_def)
next
  case False
  have "hd (h @ chColon # p) \<noteq> chLB" using assms(1) by (cases h) auto
  then show ?thesis using False assms split_last_append [of chColon p h]
    by (simp add: SplitHostPort_def JoinHostPort_def)
qed

subsection \<open>Addresses\<close>

lemma parse4_length: "parse4 s prev val dl fs = Some ip \<Longrightarrow> length fs \<le> 3 \<Longrightarrow> length ip = 4"
  by (induction s prev val dl fs rule: parse4.induct) (auto simp: Let_def split: if_splits)

lemma parse6_length:
  "parse6 s ip ell = Some (s', ip', ell') \<Longrightarrow> even (length ip) \<Longrightarrow> length ip \<le> 16 \<Longrightarrow>
   length ip' \<le> 16"
proof (induction "16 - length ip" arbitrary: s ip ell rule: less_induct)
  case less
  have e: "length ip < 16 \<Longrightarrow> length ip + 2 \<le> 16" using less.prems(2) by presburger
  have IH: "parse6 t (ip @ be_put 2 acc) el = Some (s', ip', ell') \<Longrightarrow> length ip < 16 \<Longrightarrow> length ip' \<le> 16" for t acc el
    using less.hyps [of "ip @ be_put 2 acc" t el] less.prems(2) e by simp
  show ?case using less.prems e IH
    by (subst (asm) parse6.simps) (auto simp: Let_def not_le dest: parse4_length split: if_splits)
qed

lemma length_v4mapped [simp]: "length (v4mapped ip) = 12 + length ip"
  by (simp add: v4mapped_def)

lemma ParseIP_length: "ParseIP s = Some ip \<Longrightarrow> length ip = 16"
proof -
  assume "ParseIP s = Some ip"
  then consider q where "parse4 s None 0 0 [] = Some q" "ip = v4mapped q" | "parseIPv6 s = Some ip"
    by (auto simp: ParseIP_def split: list.splits if_splits)
  then show ?thesis
  proof cases
    case 1
    then show ?thesis using parse4_length by fastforce
  next
    case 2
    then show ?thesis
      by (auto simp: parseIPv6_def Let_def dest!: parse6_length split: if_splits option.splits)
  qed
qed

lemma To4_length: "To4 ip = Some q \<Longrightarrow> length q = 4"
  by (auto simp: To4_def split: if_splits)

lemma To4_v4mapped [simp]: "length ip = 4 \<Longrightarrow> To4 (v4mapped ip) = Some ip"
  by (simp add: To4_def v4mapped_def)

lemma IP_String_v4 [simp]: "length ip = 4 \<Longrightarrow> IP_String ip = dotted ip"
  by (simp add: IP_String_def To4_def)

lemma parse4_Itoa:
  assumes "n < 256"
  shows "\<exists>c k. c \<noteq> chDot \<and> parse4 (Itoa n @ rest) prev 0 0 fs = parse4 rest (Some c) n k fs"
proof -
  consider "n < 10" | "10 \<le> n" "n < 100" | "100 \<le> n" "n < 1000" using assms by linarith
  then show ?thesis
  proof cases
    case 1
    then show ?thesis by (intro exI [of _ "48 + word_of_nat n"] exI [of _ 1]) (simp add: Itoa.simps [of n] Let_def)
  next
    case 2
    then have "n div 10 < 10" "0 < n div 10" by auto
    with 2 assms show ?thesis
      by (intro exI [of _ "48 + word_of_nat (n mod 10)"] exI [of _ 2])
        (simp add: Itoa.simps [of n] Itoa.simps [of "n div 10"] Let_def numeral_2_eq_2)
  next
    case 3
    then have d: "n div 100 < 10" "0 < n div 100" "\<not> n div 10 < 10" "n div 10 < 256" "n div 10 div 10 = n div 100" by auto
    have v: "n div 100 * 10 + n div 10 mod 10 = n div 10" using div_mult_mod_eq [of "n div 10" 10] d(5) by simp
    from 3 d v assms show ?thesis
      by (intro exI [of _ "48 + word_of_nat (n mod 10)"] exI [of _ 3])
        (simp add: Itoa.simps [of n] Itoa.simps [of "n div 10"] Itoa.simps [of "n div 100"] Let_def numeral_3_eq_3)
  qed
qed

lemma parse4_dotted:
  assumes "length ip = 4"
  shows "parse4 (dotted ip) None 0 0 [] = Some ip"
proof -
  obtain a b c d where ip: "ip = [a, b, c, d]" using assms by (auto simp: length_Suc_conv numeral_eq_Suc)
  have oct: "unat x < 256" for x :: byte using unat_bound [of x] by simp
  have next_field: "\<exists>c' k. parse4 (Itoa (unat x) @ chDot # rest) prev 0 0 fs = parse4 rest (Some chDot) 0 0 (fs @ [x])"
    if "rest \<noteq> []" "length fs < 3" for x rest prev fs
    using parse4_Itoa [OF oct [of x], of "chDot # rest" prev fs] that by (force simp: isDigit_def)
  have last_field: "parse4 (Itoa (unat x)) prev 0 0 fs = Some (fs @ [x])" if "length fs = 3" for x prev fs
    using parse4_Itoa [OF oct [of x], of "[]" prev fs] that by auto
  show ?thesis
    using next_field [of "Itoa (unat b) @ chDot # Itoa (unat c) @ chDot # Itoa (unat d)" "[]" a None]
      next_field [of "Itoa (unat c) @ chDot # Itoa (unat d)" "[a]" b "Some chDot"]
      next_field [of "Itoa (unat d)" "[a, b]" c "Some chDot"] last_field [of "[a, b, c]" d "Some chDot"]
    by (simp add: dotted_def ip)
qed

lemma dropWhile_Itoa: "dropWhile (\<lambda>c. c \<noteq> chDot \<and> c \<noteq> chColon \<and> c \<noteq> chPct) (Itoa n @ chDot # rest) = chDot # rest"
proof -
  have "dropWhile P (xs @ ys) = dropWhile P ys" if "\<forall>x\<in>set xs. P x" for P and xs ys :: bytes
    using that by (induction xs) auto
  then show ?thesis using Itoa_set [of _ n] by fastforce
qed

lemma ParseIP_dotted [simp]: "length ip = 4 \<Longrightarrow> ParseIP (dotted ip) = Some (v4mapped ip)"
  using parse4_dotted [of ip] dropWhile_Itoa by (simp add: ParseIP_def dotted_def)

lemma dotted_set:
  "c \<in> set (dotted ip) \<Longrightarrow> c \<noteq> chColon \<and> c \<noteq> chLB \<and> c \<noteq> chRB"
  unfolding dotted_def using Itoa_set by auto

end
