(* ===== verification/Address.thy ===== *)
theory Address
  imports GoNet Interfaces
begin

text \<open>
  What the four address codecs of the program share (\<^verbatim>\<open>internal/socks5\<close>,
  \<^verbatim>\<open>internal/plainudp\<close>, \<^verbatim>\<open>internal/rawstream\<close>, \<^verbatim>\<open>internal/h1session\<close>): the host part
  of the SOCKS5 address encoding, the check of the port and the canonical spelling a decoder reports.
\<close>

definition encodeHost :: "string \<Rightarrow> bytes \<Rightarrow> bytes result" where
  "encodeHost msg host =
     (case ParseIP host of
        Some ip \<Rightarrow>
          (case To4 ip of
             Some ipv4 \<Rightarrow> Inr (0x01 # ipv4)
           | None \<Rightarrow> Inr (0x04 # ip))
      | None \<Rightarrow>
          if host = [] \<or> 255 < length host then Inl (Errorf msg)
          else Inr (0x03 # word_of_nat (length host) # host))"

definition parsePort :: "int \<Rightarrow> bytes \<Rightarrow> u16 result" where
  "parsePort lo portText =
     (case Atoi portText of
        None \<Rightarrow> Inl (Errorf ''invalid port'')
      | Some port \<Rightarrow> if port < lo \<or> 65535 < port then Inl (Errorf ''invalid port'') else Inr (word_of_int port))"

subsection \<open>Canonical addresses\<close>

definition canonHost :: "bytes \<Rightarrow> bytes" where
  "canonHost host =
     (case ParseIP host of
        None \<Rightarrow> host
      | Some ip \<Rightarrow> IP_String (case To4 ip of None \<Rightarrow> ip | Some ipv4 \<Rightarrow> ipv4))"

definition canonAddr :: "bytes \<Rightarrow> bytes" where
  "canonAddr address =
     (case SplitHostPort address of
        Inl _ \<Rightarrow> address
      | Inr (host, portText) \<Rightarrow> JoinHostPort (canonHost host) (Itoa (nat (the (Atoi portText)))))"

text \<open>Destinations as users write them: a domain name or a dotted IPv4 address, and a port.\<close>

definition domain_ok :: "bytes \<Rightarrow> bool" where
  "domain_ok h \<longleftrightarrow> h \<noteq> [] \<and> length h \<le> 255 \<and> ParseIP h = None \<and>
     chColon \<notin> set h \<and> chLB \<notin> set h \<and> chRB \<notin> set h"

definition host_ok :: "bytes \<Rightarrow> bool" where
  "host_ok h \<longleftrightarrow> domain_ok h \<or> (\<exists>ip. length ip = 4 \<and> h = dotted ip)"

lemma host_ok_canon: "host_ok h \<Longrightarrow> canonHost h = h"
  by (auto simp: host_ok_def domain_ok_def canonHost_def)

lemma host_ok_set:
  assumes "host_ok h"
  shows "chColon \<notin> set h" "chLB \<notin> set h" "chRB \<notin> set h"
  using assms dotted_set by (auto simp: host_ok_def domain_ok_def)

lemma Itoa_clean [simp]: "chColon \<notin> set (Itoa n)" "chLB \<notin> set (Itoa n)" "chRB \<notin> set (Itoa n)"
  using Itoa_set by blast+

lemma host_ok_split [simp]: "host_ok h \<Longrightarrow> SplitHostPort (JoinHostPort h (Itoa n)) = Inr (h, Itoa n)"
  using host_ok_set [of h] by (intro split_join) auto

lemma host_ok_canonAddr [simp]:
  "host_ok h \<Longrightarrow> n < 65536 \<Longrightarrow> canonAddr (JoinHostPort h (Itoa n)) = JoinHostPort h (Itoa n)"
  by (simp add: canonAddr_def host_ok_canon)

lemma dotted_nonempty [simp]: "dotted ip \<noteq> []"
  by (simp add: dotted_def)

lemma host_ok_encodes: "host_ok h \<Longrightarrow> \<exists>w. encodeHost msg h = Inr w"
  by (auto simp: host_ok_def domain_ok_def encodeHost_def)

lemma parsePort_Itoa [simp]: "lo \<le> int n \<Longrightarrow> n < 65536 \<Longrightarrow> parsePort lo (Itoa n) = Inr (word_of_nat n)"
  by (simp add: parsePort_def)

lemma parsePort_value:
  assumes "parsePort lo t = Inr p" "0 \<le> lo"
  shows "unat p = nat (the (Atoi t))" "lo \<le> int (unat p)"
proof -
  obtain n where n: "Atoi t = Some n" "lo \<le> n" "n \<le> 65535" "p = word_of_int n"
    using assms(1) by (auto simp: parsePort_def split: option.splits if_splits)
  have "uint p = n" using n assms(2) by (simp add: uint_word_of_int)
  then show "unat p = nat (the (Atoi t))" "lo \<le> int (unat p)" using n by (simp_all add: unat_eq_nat_uint)
qed

text \<open>The three shapes of an encoded host, for the decoders.\<close>

lemma encodeHost_cases:
  assumes "encodeHost msg h = Inr w"
  obtains (v4) q where "w = 0x01 # q" "length q = 4" "canonHost h = IP_String q"
    | (v6) ip where "w = 0x04 # ip" "length ip = 16" "canonHost h = IP_String ip"
    | (dom) "w = 0x03 # word_of_nat (length h) # h" "0 < length h" "length h \<le> 255"
        "unat (word_of_nat (length h) :: byte) = length h" "canonHost h = h"
proof (cases "ParseIP h")
  case None
  then show ?thesis using assms dom by (auto simp: encodeHost_def canonHost_def split: if_splits)
next
  case (Some ip)
  then show ?thesis
    using assms v4 v6 To4_length ParseIP_length [OF Some]
    by (auto simp: encodeHost_def canonHost_def split: option.splits)
qed

end
