(* ===== verification/Socks5.thy ===== *)
theory Socks5
  imports Address
begin

text \<open>
  \<^verbatim>\<open>internal/socks5/socks5.go\<close>: the server side of the SOCKS5 handshake, the address codec and
  the UDP request header with its two per-flow caches.
\<close>

abbreviation (input) CommandConnect :: byte where "CommandConnect \<equiv> 1"
abbreviation (input) CommandUDPAssociate :: byte where "CommandUDPAssociate \<equiv> 3"

record request =
  rq_Command :: byte
  rq_Target :: bytes
  rq_Reader :: source

subsection \<open>Addresses\<close>

definition encodeAddressInto :: "bytes \<Rightarrow> bytes \<Rightarrow> bytes result" where
  "encodeAddressInto dst address =
     (case SplitHostPort address of
        Inl e \<Rightarrow> Inl e
      | Inr (host, portText) \<Rightarrow>
          (case parsePort 0 portText of
             Inl e \<Rightarrow> Inl e
           | Inr port \<Rightarrow>
               (case encodeHost ''invalid host length'' host of
                  Inl e \<Rightarrow> Inl e
                | Inr h \<Rightarrow> Inr (dst @ h @ putUint16 port))))"

definition encodeAddress :: "bytes \<Rightarrow> bytes result" where
  "encodeAddress address = encodeAddressInto [] address"

definition readPort :: "bytes \<Rightarrow> source \<Rightarrow> bytes result \<times> source" where
  "readPort host r =
     (case readFull 2 r of
        (_, Some e, r') \<Rightarrow> (Inl e, r')
      | (port, None, r') \<Rightarrow> (Inr (JoinHostPort host (Itoa (unat (getUint16 port)))), r'))"

definition readAddress :: "source \<Rightarrow> byte \<Rightarrow> bytes result \<times> source" where
  "readAddress r addressType =
     (if addressType = 0x01 then
        (case readFull 4 r of
           (_, Some e, r') \<Rightarrow> (Inl e, r')
         | (v, None, r') \<Rightarrow> readPort (IP_String v) r')
      else if addressType = 0x03 then
        (case readFull 1 r of
           (_, Some e, r') \<Rightarrow> (Inl e, r')
         | (l, None, r') \<Rightarrow>
             (case readFull (unat (l ! 0)) r' of
                (_, Some e, r'') \<Rightarrow> (Inl e, r'')
              | (v, None, r'') \<Rightarrow> readPort v r''))
      else if addressType = 0x04 then
        (case readFull 16 r of
           (_, Some e, r') \<Rightarrow> (Inl e, r')
         | (v, None, r') \<Rightarrow> readPort (IP_String v) r')
      else (Inl (Errorf ''unsupported SOCKS address type''), r))"

subsection \<open>Handshake\<close>

definition Negotiate :: "source \<Rightarrow> sink \<Rightarrow> request result \<times> sink" where
  "Negotiate conn w =
     (case readFull 2 (bufioReader conn) of
        (greeting, e, r) \<Rightarrow>
          if e \<noteq> None \<or> greeting ! 0 \<noteq> 0x05 then (Inl (Errorf ''invalid SOCKS greeting''), w)
          else
            (case readFull (unat (greeting ! 1)) r of
               (_, Some e, r) \<Rightarrow> (Inl e, w)
             | (methods, None, r) \<Rightarrow>
                 if 0x00 \<notin> set methods then
                   (Inl (Errorf ''no supported authentication method''), snd (snd (sink_write [0x05, 0xff] w)))
                 else
                   (case sink_write [0x05, 0x00] w of
                      (_, Some e, w) \<Rightarrow> (Inl e, w)
                    | (_, None, w) \<Rightarrow>
                        (case readFull 4 r of
                           (header, e, r) \<Rightarrow>
                             if e \<noteq> None \<or> header ! 0 \<noteq> 0x05 then (Inl (Errorf ''invalid SOCKS request''), w)
                             else if header ! 1 \<noteq> CommandConnect \<and> header ! 1 \<noteq> CommandUDPAssociate then
                               (Inl (Errorf ''unsupported SOCKS command''), w)
                             else
                               (case readAddress r (header ! 3) of
                                  (Inl e, _) \<Rightarrow> (Inl e, w)
                                | (Inr target, r) \<Rightarrow>
                                    (Inr \<lparr>rq_Command = header ! 1, rq_Target = target, rq_Reader = r\<rparr>, w))))))"

definition WriteReply :: "sink \<Rightarrow> byte \<Rightarrow> bytes option \<Rightarrow> goerr option \<times> sink" where
  "WriteReply w status bound =
     (case encodeAddress (case bound of None \<Rightarrow> lit ''0.0.0.0:0'' | Some a \<Rightarrow> a) of
        Inl e \<Rightarrow> (Some e, w)
      | Inr encoded \<Rightarrow> (case sink_write ([0x05, status, 0x00] @ encoded) w of (_, e, w') \<Rightarrow> (e, w')))"

subsection \<open>UDP packets\<close>

definition udpPayloadOffset :: "bytes \<Rightarrow> nat result" where
  "udpPayloadOffset packet =
     (if length packet < 4 \<or> packet ! 0 \<noteq> 0 \<or> packet ! 1 \<noteq> 0 \<or> packet ! 2 \<noteq> 0
      then Inl (Errorf ''invalid or fragmented SOCKS UDP packet'')
      else if packet ! 3 = 0x01 then (if length packet < 10 then Inl UnexpectedEOF else Inr 10)
      else if packet ! 3 = 0x03 then
        (if length packet < 5 \<or> length packet < 7 + unat (packet ! 4) then Inl UnexpectedEOF
         else Inr (7 + unat (packet ! 4)))
      else if packet ! 3 = 0x04 then (if length packet < 22 then Inl UnexpectedEOF else Inr 22)
      else Inl (Errorf ''unsupported SOCKS address type''))"

record udp_cache =
  uc_key :: bytes
  uc_address :: bytes

definition UDPCache_Parse :: "udp_cache \<Rightarrow> bytes \<Rightarrow> (bytes \<times> bytes) result \<times> udp_cache" where
  "UDPCache_Parse c packet =
     (case udpPayloadOffset packet of
        Inl e \<Rightarrow> (Inl e, c)
      | Inr payloadOffset \<Rightarrow>
          let key = gslice 3 payloadOffset packet
          in if uc_address c \<noteq> [] \<and> uc_key c = key then (Inr (uc_address c, drop payloadOffset packet), c)
             else case readAddress [(gslice 4 payloadOffset packet, None)] (packet ! 3) of
                    (Inl e, _) \<Rightarrow> (Inl e, c)
                  | (Inr address, _) \<Rightarrow>
                      (Inr (address, drop payloadOffset packet), \<lparr>uc_key = key, uc_address = address\<rparr>))"

definition ParseUDPPacket :: "bytes \<Rightarrow> (bytes \<times> bytes) result" where
  "ParseUDPPacket packet = fst (UDPCache_Parse \<lparr>uc_key = [], uc_address = []\<rparr> packet)"

definition BuildUDPPacket :: "bytes \<Rightarrow> bytes \<Rightarrow> bytes result" where
  "BuildUDPPacket address payload =
     (case encodeAddress address of
        Inl e \<Rightarrow> Inl e
      | Inr encoded \<Rightarrow> Inr ([0, 0, 0] @ encoded @ payload))"

text \<open>
  \<open>dst\<close> is the contents of the caller's buffer up to its capacity. The first three bytes are what the
  buffer held before.
\<close>

definition BuildUDPPacketInto :: "bytes \<Rightarrow> bytes \<Rightarrow> bytes \<Rightarrow> bytes result" where
  "BuildUDPPacketInto dst address payload =
     (if length dst < 3 then Inl (Errorf ''UDP output buffer too small'')
      else case encodeAddressInto [] address of
             Inl e \<Rightarrow> Inl e
           | Inr encoded \<Rightarrow>
               if length dst < 3 + length encoded + length payload
               then Inl (Errorf ''UDP output buffer too small'')
               else Inr (take 3 dst @ encoded @ payload))"

definition buildUDPPacketWithEncoded :: "nat \<Rightarrow> bytes \<Rightarrow> bytes \<Rightarrow> bytes result" where
  "buildUDPPacketWithEncoded dst encoded payload =
     (if dst < 3 + length encoded + length payload then Inl (Errorf ''UDP output buffer too small'')
      else Inr ([0, 0, 0] @ encoded @ payload))"

record udp_builder_cache =
  ub_address :: bytes
  ub_encoded :: bytes

definition UDPBuilderCache_BuildInto ::
  "udp_builder_cache \<Rightarrow> nat \<Rightarrow> bytes \<Rightarrow> bytes \<Rightarrow> bytes result \<times> udp_builder_cache" where
  "UDPBuilderCache_BuildInto c dst address payload =
     (if ub_address c \<noteq> address \<or> ub_encoded c = [] then
        (case encodeAddressInto [] address of
           Inl e \<Rightarrow> (Inl e, c)
         | Inr encoded \<Rightarrow>
             (buildUDPPacketWithEncoded dst encoded payload, \<lparr>ub_address = address, ub_encoded = encoded\<rparr>))
      else (buildUDPPacketWithEncoded dst (ub_encoded c) payload, c))"

subsection \<open>The address codec\<close>

lemma encodeAddress_parts:
  assumes "encodeAddress a = Inr w"
  obtains host portText port h where "SplitHostPort a = Inr (host, portText)" "parsePort 0 portText = Inr port"
    "encodeHost ''invalid host length'' host = Inr h" "w = h @ putUint16 port"
    "canonAddr a = JoinHostPort (canonHost host) (Itoa (unat port))"
proof -
  obtain host portText port h where p: "SplitHostPort a = Inr (host, portText)" "parsePort 0 portText = Inr port"
    "encodeHost ''invalid host length'' host = Inr h" "w = h @ putUint16 port"
    using assms by (auto simp: encodeAddress_def encodeAddressInto_def split: sum.splits prod.splits)
  moreover have "canonAddr a = JoinHostPort (canonHost host) (Itoa (unat port))"
    using p(1) parsePort_value(1) [OF p(2)] by (simp add: canonAddr_def)
  ultimately show thesis by (rule that)
qed

lemma readPort_clean:
  assumes "src_clean src" "src_bytes src = putUint16 port @ rest"
  shows "\<exists>src'. readPort host src = (Inr (JoinHostPort host (Itoa (unat port))), src') \<and> src_clean src' \<and> src_bytes src' = rest"
  by (rule readFull_append_clean [OF assms, of 2]) (auto simp: readPort_def)

lemma readAddress_encoded:
  assumes e: "encodeAddress a = Inr w" and c: "src_clean src" and b: "src_bytes src = tl w @ rest"
  shows "\<exists>src'. readAddress src (hd w) = (Inr (canonAddr a), src') \<and> src_clean src' \<and> src_bytes src' = rest"
proof -
  obtain host portText port h where p: "encodeHost ''invalid host length'' host = Inr h" "w = h @ putUint16 port"
    "canonAddr a = JoinHostPort (canonHost host) (Itoa (unat port))" by (rule encodeAddress_parts [OF e])
  from p(1) show ?thesis
  proof (cases rule: encodeHost_cases)
    case (v4 q)
    obtain s1 where "readFull 4 src = (q, None, s1)" "src_clean s1" "src_bytes s1 = putUint16 port @ rest"
      by (rule readFull_append_clean [OF c, of q "putUint16 port @ rest" 4]) (use b p v4 in auto)
    then show ?thesis using readPort_clean [of s1 port rest "IP_String q"] p v4 by (simp add: readAddress_def)
  next
    case (v6 ip)
    obtain s1 where "readFull 16 src = (ip, None, s1)" "src_clean s1" "src_bytes s1 = putUint16 port @ rest"
      by (rule readFull_append_clean [OF c, of ip "putUint16 port @ rest" 16]) (use b p v6 in auto)
    then show ?thesis using readPort_clean [of s1 port rest "IP_String ip"] p v6 by (simp add: readAddress_def)
  next
    case dom
    obtain s1 where s1: "readFull 1 src = ([word_of_nat (length host)], None, s1)" "src_clean s1"
      "src_bytes s1 = host @ putUint16 port @ rest"
      by (rule readFull_append_clean [OF c, of "[word_of_nat (length host)]" "host @ putUint16 port @ rest" 1])
        (use b p dom in auto)
    obtain s2 where "readFull (length host) s1 = (host, None, s2)" "src_clean s2" "src_bytes s2 = putUint16 port @ rest"
      by (rule readFull_append_clean [OF s1(2,3), of "length host"]) auto
    then show ?thesis using s1 readPort_clean [of s2 port rest host] p dom by (simp add: readAddress_def)
  qed
qed

text \<open>The header length a receiver computes from the first bytes is where the address ends.\<close>

lemma udpPayloadOffset_encoded:
  assumes "encodeAddress a = Inr w"
  shows "udpPayloadOffset ([0, 0, 0] @ w @ payload) = Inr (3 + length w)"
proof -
  obtain host port h where p: "encodeHost ''invalid host length'' host = Inr h" "w = h @ putUint16 port"
    by (rule encodeAddress_parts [OF assms])
  from p(1) show ?thesis
    by (cases rule: encodeHost_cases) (use p(2) in \<open>auto simp: udpPayloadOffset_def\<close>)
qed

lemma encodeAddress_nonempty:
  assumes "encodeAddress a = Inr w"
  obtains x xs where "w = x # xs"
proof -
  obtain h port where "w = h @ putUint16 (port :: u16)" by (rule encodeAddress_parts [OF assms])
  then have "2 \<le> length w" by simp
  then show thesis using that by (cases w) auto
qed

definition socks_decode :: "bytes \<Rightarrow> (bytes \<times> bytes) result" where
  "socks_decode b = ParseUDPPacket ([0, 0, 0] @ b)"

interpretation socks_addr: addr_codec encodeAddress socks_decode canonAddr "\<lambda>w rest. True"
proof
  fix a w rest
  assume w: "encodeAddress a = Inr w"
  let ?p = "[0, 0, 0] @ w @ rest"
  obtain x xs where x: "w = x # xs" by (rule encodeAddress_nonempty [OF w])
  have s: "gslice 4 (3 + length w) ?p = tl w" "?p ! 3 = hd w" "drop (3 + length w) ?p = rest"
    using x by (simp_all add: gslice_def)
  obtain src' where "readAddress [(tl w, None)] (hd w) = (Inr (canonAddr a), src')"
    using readAddress_encoded [OF w, of "[(tl w, None)]" "[]"] by auto
  then show "socks_decode (w @ rest) = Inr (canonAddr a, rest)"
    using udpPayloadOffset_encoded [OF w, of rest] s
    by (simp add: socks_decode_def ParseUDPPacket_def UDPCache_Parse_def Let_def)
qed

subsection \<open>Per-flow caches\<close>

definition udp_cache_ok :: "udp_cache \<Rightarrow> bool" where
  "udp_cache_ok c \<longleftrightarrow> uc_address c = [] \<or>
     (\<exists>r. readAddress [(tl (uc_key c), None)] (hd (uc_key c)) = (Inr (uc_address c), r))"

lemma payload_offset_key:
  assumes "udpPayloadOffset packet = Inr n"
  shows "hd (gslice 3 n packet) = packet ! 3" "tl (gslice 3 n packet) = gslice 4 n packet"
proof -
  have n: "7 \<le> n" "n \<le> length packet"
    using assms by (auto simp: udpPayloadOffset_def split: if_splits)
  then have "gslice 3 n packet = packet ! 3 # gslice 4 n packet"
    using gslice_hd [of 3 n packet] by simp
  then show "hd (gslice 3 n packet) = packet ! 3" "tl (gslice 3 n packet) = gslice 4 n packet" by simp_all
qed

lemma UDPCache_Parse_transparent:
  assumes "udp_cache_ok c"
  shows "fst (UDPCache_Parse c packet) = ParseUDPPacket packet" "udp_cache_ok (snd (UDPCache_Parse c packet))"
proof -
  have "fst (UDPCache_Parse c packet) = ParseUDPPacket packet \<and> udp_cache_ok (snd (UDPCache_Parse c packet))"
  proof (cases "udpPayloadOffset packet")
    case (Inl e)
    then show ?thesis using assms by (simp add: UDPCache_Parse_def ParseUDPPacket_def)
  next
    case (Inr n)
    note key = payload_offset_key [OF Inr]
    show ?thesis
      using assms key by (auto simp: UDPCache_Parse_def ParseUDPPacket_def udp_cache_ok_def Inr Let_def split: sum.splits prod.splits)
  qed
  then show "fst (UDPCache_Parse c packet) = ParseUDPPacket packet" "udp_cache_ok (snd (UDPCache_Parse c packet))" by auto
qed

definition udp_builder_ok :: "udp_builder_cache \<Rightarrow> bool" where
  "udp_builder_ok c \<longleftrightarrow> ub_encoded c = [] \<or> encodeAddress (ub_address c) = Inr (ub_encoded c)"

text \<open>What one call builds without a cache.\<close>

definition build_uncached :: "nat \<Rightarrow> bytes \<Rightarrow> bytes \<Rightarrow> bytes result" where
  "build_uncached dst address payload =
     (case BuildUDPPacket address payload of
        Inl e \<Rightarrow> Inl e
      | Inr p \<Rightarrow> if dst < length p then Inl (Errorf ''UDP output buffer too small'') else Inr p)"

lemma UDPBuilderCache_transparent:
  assumes "udp_builder_ok c"
  shows "fst (UDPBuilderCache_BuildInto c dst address payload) = build_uncached dst address payload"
    "udp_builder_ok (snd (UDPBuilderCache_BuildInto c dst address payload))"
  using assms
  by (auto simp: UDPBuilderCache_BuildInto_def build_uncached_def BuildUDPPacket_def buildUDPPacketWithEncoded_def
      udp_builder_ok_def encodeAddress_def split: sum.splits)

fun parse_flow :: "udp_cache \<Rightarrow> bytes list \<Rightarrow> (bytes \<times> bytes) result list" where
  "parse_flow c [] = []"
| "parse_flow c (p # ps) = fst (UDPCache_Parse c p) # parse_flow (snd (UDPCache_Parse c p)) ps"

fun build_flow :: "udp_builder_cache \<Rightarrow> (nat \<times> bytes \<times> bytes) list \<Rightarrow> bytes result list" where
  "build_flow c [] = []"
| "build_flow c ((dst, a, p) # ps) =
     fst (UDPBuilderCache_BuildInto c dst a p) # build_flow (snd (UDPBuilderCache_BuildInto c dst a p)) ps"

lemma parse_flow_transparent: "udp_cache_ok c \<Longrightarrow> parse_flow c ps = map ParseUDPPacket ps"
  by (induction ps arbitrary: c) (use UDPCache_Parse_transparent in auto)

lemma build_flow_transparent: "udp_builder_ok c \<Longrightarrow> build_flow c ps = map (\<lambda>(dst, a, p). build_uncached dst a p) ps"
  by (induction c ps rule: build_flow.induct) (use UDPBuilderCache_transparent in auto)

subsection \<open>Properties of the SOCKS5 front end\<close>

text \<open>The address a SOCKS5 UDP packet is built for is the address it is parsed to. For a domain name
  or a dotted IPv4 host and any port, \<open>ParseUDPPacket\<close> returns the address string and the payload
  unchanged; \<open>BuildUDPPacket\<close> succeeds.\<close>

theorem socks_udp_roundtrip:
  assumes "host_ok h" "n < 65536"
  shows "\<exists>packet. BuildUDPPacket (JoinHostPort h (Itoa n)) payload = Inr packet \<and>
    ParseUDPPacket packet = Inr (JoinHostPort h (Itoa n), payload)"
proof -
  let ?a = "JoinHostPort h (Itoa n)"
  obtain w where "encodeHost ''invalid host length'' h = Inr w" using host_ok_encodes [OF assms(1)] by blast
  then obtain v where v: "encodeAddress ?a = Inr v"
    using assms by (simp add: encodeAddress_def encodeAddressInto_def)
  have "socks_decode (v @ payload) = Inr (?a, payload)"
    by (rule socks_addr.decode_canonical [OF v]) (use assms in simp_all)
  then show ?thesis using v by (simp add: BuildUDPPacket_def socks_decode_def)
qed

theorem socks_udp_roundtrip_witness:
  "\<exists>packet. BuildUDPPacket (lit ''dns.test:53'') [1, 2] = Inr packet \<and>
     ParseUDPPacket packet = Inr (lit ''dns.test:53'', [1, 2])"
proof -
  have "JoinHostPort (lit ''dns.test'') (Itoa 53) = lit ''dns.test:53''" "host_ok (lit ''dns.test'')"
    unfolding host_ok_def by (code_simp, rule disjI1, code_simp)
  then show ?thesis using socks_udp_roundtrip [of "lit ''dns.test''" 53 "[1, 2]"] by simp
qed

text \<open>The per-flow caches of the UDP relay are invisible: a relay that parses any sequence of packets
  through one \<open>UDPCache\<close>, and one that builds any sequence of packets (including failing ones, with
  buffers of any capacity) through one \<open>UDPBuilderCache\<close>, obtain what the uncached functions return.\<close>

lemma socks_caches_transparent:
  "parse_flow \<lparr>uc_key = [], uc_address = []\<rparr> packets = map ParseUDPPacket packets \<and>
   build_flow \<lparr>ub_address = [], ub_encoded = []\<rparr> calls = map (\<lambda>(dst, a, p). build_uncached dst a p) calls"
  by (simp add: parse_flow_transparent build_flow_transparent udp_cache_ok_def udp_builder_ok_def)

text \<open>C11: \<open>Negotiate\<close> accepts every client that offers \<open>no authentication\<close> and sends a CONNECT or
  UDP ASSOCIATE request for an encodable destination, however the bytes are split into reads: it answers
  \<open>05 00\<close>, reports the command and the destination in canonical spelling, and leaves exactly the bytes
  after the request to be read from \<open>Request.Reader\<close>.\<close>

theorem socks_negotiate_accepts:
  assumes "src_clean conn" "sink_ok w" "length methods < 256" "0 \<in> set methods" "cmd = 1 \<or> cmd = 3"
    and "encodeAddress target = Inr enc"
    and "src_bytes conn = [5, word_of_nat (length methods)] @ methods @ [5, cmd, rsv] @ enc @ rest"
  shows "\<exists>req. Negotiate conn w = (Inr req, w\<lparr>snk_out := snk_out w @ [5, 0]\<rparr>) \<and>
    rq_Command req = cmd \<and> rq_Target req = canonAddr target \<and> src_bytes (rq_Reader req) = rest"
proof -
  obtain x xs where x: "enc = x # xs" by (rule encodeAddress_nonempty [OF assms(6)])
  let ?n = "word_of_nat (length methods) :: byte"
  have n: "unat ?n = length methods" using assms(3) by (simp add: unat_of_nat)
  obtain r1 where r1: "readFull 2 (bufioReader conn) = ([5, ?n], None, r1)" "src_clean r1"
    "src_bytes r1 = methods @ [5, cmd, rsv] @ enc @ rest"
    by (rule readFull_append_clean [of "bufioReader conn" "[5, ?n]" "methods @ [5, cmd, rsv] @ enc @ rest" 2])
      (use assms(1,7) in auto)
  obtain r2 where r2: "readFull (length methods) r1 = (methods, None, r2)" "src_clean r2"
    "src_bytes r2 = [5, cmd, rsv] @ enc @ rest"
    by (rule readFull_append_clean [OF r1(2,3), of "length methods"]) auto
  obtain r3 where r3: "readFull 4 r2 = ([5, cmd, rsv, x], None, r3)" "src_clean r3" "src_bytes r3 = xs @ rest"
    by (rule readFull_append_clean [OF r2(2), of "[5, cmd, rsv, x]" "xs @ rest" 4]) (use r2(3) x in auto)
  obtain r4 where r4: "readAddress r3 x = (Inr (canonAddr target), r4)" "src_bytes r4 = rest"
    using readAddress_encoded [OF assms(6) r3(2), of rest] r3(3) x by auto
  have cmd: "\<not> (cmd \<noteq> 1 \<and> cmd \<noteq> 3)" using assms(5) by auto
  show ?thesis
    using r1(1) r2(1) r3(1) r4 n cmd assms(2,4) by (simp add: Negotiate_def)
qed

theorem socks_negotiate_accepts_witness:
  "\<exists>req. Negotiate [([5, 1], None), ([0, 5, 1, 0, 3], None), ([1, 97, 0], None), ([80, 42], None)]
      \<lparr>snk_out = [], snk_resp = []\<rparr> = (Inr req, \<lparr>snk_out = [5, 0], snk_resp = []\<rparr>) \<and>
    rq_Command req = 1 \<and> rq_Target req = lit ''a:80'' \<and> src_bytes (rq_Reader req) = [42]"
proof -
  have e: "encodeAddress (lit ''a:80'') = Inr [3, 1, 97, 0, 80]" "canonAddr (lit ''a:80'') = lit ''a:80''" by code_simp+
  show ?thesis
    using socks_negotiate_accepts [of "[([5, 1], None), ([0, 5, 1, 0, 3], None), ([1, 97, 0], None), ([80, 42], None)]"
        "\<lparr>snk_out = [], snk_resp = []\<rparr>" "[0]" 1 "lit ''a:80''" "[3, 1, 97, 0, 80]" 0 "[42]"] e
    by (simp add: sink_ok_def)
qed

end
