(* ===== verification/Crypto.thy ===== *)
theory Crypto
  imports GoIO
begin

text \<open>
  The cryptographic primitives the program calls are a parameter of the model: one record of
  functions, with the documented facts the program relies on gathered in \<open>crypto_ok\<close> (digest
  lengths, the length of a sealed message, opening inverts sealing, and a message that opens is the
  seal of its plaintext under the same key, nonce and associated data). Randomness is a source that
  is read like any \<open>io.Reader\<close>.
\<close>

record crypto =
  sha256 :: "bytes \<Rightarrow> bytes"
  hmac_sha256 :: "bytes \<Rightarrow> bytes \<Rightarrow> bytes"
  xchacha_seal :: "bytes \<Rightarrow> bytes \<Rightarrow> bytes \<Rightarrow> bytes \<Rightarrow> bytes"
  xchacha_open :: "bytes \<Rightarrow> bytes \<Rightarrow> bytes \<Rightarrow> bytes \<Rightarrow> bytes option"
  chacha_seal :: "bytes \<Rightarrow> bytes \<Rightarrow> bytes \<Rightarrow> bytes \<Rightarrow> bytes"
  chacha_open :: "bytes \<Rightarrow> bytes \<Rightarrow> bytes \<Rightarrow> bytes \<Rightarrow> bytes option"
  gcm_seal :: "bytes \<Rightarrow> bytes \<Rightarrow> bytes \<Rightarrow> bytes \<Rightarrow> bytes"
  gcm_open :: "bytes \<Rightarrow> bytes \<Rightarrow> bytes \<Rightarrow> bytes \<Rightarrow> bytes option"

abbreviation (input) Overhead :: nat where "Overhead \<equiv> 16"

definition aead_ok :: "(bytes \<Rightarrow> bytes \<Rightarrow> bytes \<Rightarrow> bytes \<Rightarrow> bytes) \<Rightarrow> (bytes \<Rightarrow> bytes \<Rightarrow> bytes \<Rightarrow> bytes \<Rightarrow> bytes option) \<Rightarrow> bool" where
  "aead_ok seal open \<longleftrightarrow> (\<forall>k n p a. length (seal k n p a) = length p + Overhead) \<and>
     (\<forall>k n p a. open k n (seal k n p a) a = Some p) \<and>
     (\<forall>k n c p a. open k n c a = Some p \<longrightarrow> c = seal k n p a)"

definition crypto_ok :: "crypto \<Rightarrow> bool" where
  "crypto_ok cr \<longleftrightarrow> (\<forall>m. length (sha256 cr m) = 32) \<and> (\<forall>k m. length (hmac_sha256 cr k m) = 32) \<and>
     aead_ok (xchacha_seal cr) (xchacha_open cr) \<and> aead_ok (chacha_seal cr) (chacha_open cr) \<and> aead_ok (gcm_seal cr) (gcm_open cr)"

lemma crypto_ok_simps:
  assumes "crypto_ok cr"
  shows "length (sha256 cr m) = 32" "length (hmac_sha256 cr k m) = 32"
    "length (xchacha_seal cr k n p a) = length p + 16" "xchacha_open cr k n (xchacha_seal cr k n p a) a = Some p"
    "length (gcm_seal cr k n p a) = length p + 16" "gcm_open cr k n (gcm_seal cr k n p a) a = Some p"
    "length (chacha_seal cr k n p a) = length p + 16" "chacha_open cr k n (chacha_seal cr k n p a) a = Some p"
  using assms by (auto simp: crypto_ok_def aead_ok_def)

lemma crypto_ok_tidy:
  assumes "crypto_ok cr"
  shows "xchacha_open cr k n c a = Some p \<Longrightarrow> c = xchacha_seal cr k n p a"
    "gcm_open cr k n c a = Some p \<Longrightarrow> c = gcm_seal cr k n p a"
    "chacha_open cr k n c a = Some p \<Longrightarrow> c = chacha_seal cr k n p a"
  using assms by (auto simp: crypto_ok_def aead_ok_def)

text \<open>\<open>copy\<close> into a fixed-size array.\<close>

definition copy_array :: "nat \<Rightarrow> bytes \<Rightarrow> bytes" where
  "copy_array n b = take n (b @ replicate n 0)"

lemma length_copy_array [simp]: "length (copy_array n b) = n"
  by (simp add: copy_array_def)

lemma copy_array_id [simp]: "length b = n \<Longrightarrow> copy_array n b = b"
  by (simp add: copy_array_def)

subsection \<open>A concrete instance\<close>

text \<open>An instance that meets the facts, to run the model on: it authenticates nothing.\<close>

definition toy_digest :: "bytes \<Rightarrow> bytes" where
  "toy_digest m = copy_array 32 m"

definition toy_seal :: "bytes \<Rightarrow> bytes \<Rightarrow> bytes \<Rightarrow> bytes \<Rightarrow> bytes" where
  "toy_seal k n p a = p @ copy_array 16 (a @ n)"

definition toy_open :: "bytes \<Rightarrow> bytes \<Rightarrow> bytes \<Rightarrow> bytes \<Rightarrow> bytes option" where
  "toy_open k n c a =
     (let p = take (length c - 16) c
      in if 16 \<le> length c \<and> drop (length c - 16) c = copy_array 16 (a @ n) then Some p else None)"

definition toy_crypto :: crypto where
  "toy_crypto = \<lparr>sha256 = toy_digest, hmac_sha256 = \<lambda>k m. toy_digest (m @ k), xchacha_seal = toy_seal,
     xchacha_open = toy_open, chacha_seal = toy_seal, chacha_open = toy_open, gcm_seal = toy_seal, gcm_open = toy_open\<rparr>"

lemma toy_aead_ok: "aead_ok toy_seal toy_open"
proof -
  have "c = toy_seal k n p a" if "toy_open k n c a = Some p" for k n c p a
  proof -
    have "p = take (length c - 16) c" "drop (length c - 16) c = copy_array 16 (a @ n)"
      using that by (auto simp: toy_open_def Let_def split: if_splits)
    then show ?thesis by (metis append_take_drop_id toy_seal_def)
  qed
  then show ?thesis by (simp add: aead_ok_def toy_open_def toy_seal_def Let_def)
qed

lemma toy_crypto_ok: "crypto_ok toy_crypto"
  by (simp add: crypto_ok_def toy_crypto_def toy_aead_ok toy_digest_def)

end
