(* ===== verification/PlainUdp.thy ===== *)
theory PlainUdp
  imports Address Crypto
begin

text \<open>
  \<^verbatim>\<open>internal/plainudp\<close>: the XChaCha20-Poly1305 datagram codec (\<open>plainudp.go\<close>) and the sparse
  replay window of the client (\<open>response_replay.go\<close>). Times are seconds as the \<open>uint64\<close> the code
  converts them to; a Go \<open>nil\<close> map is the empty map.
\<close>

definition SaltUDP :: bytes where "SaltUDP = lit ''MYXRAY-PLAIN-UDP-SALT-V2''"
definition InfoUDP :: bytes where "InfoUDP = lit ''MYXRAY-PLAIN-UDP-KEY-V2''"
definition MaxTimestampSkew :: int where "MaxTimestampSkew = 30"
abbreviation (input) DirClientToServer :: byte where "DirClientToServer \<equiv> 1"
abbreviation (input) DirServerToClient :: byte where "DirServerToClient \<equiv> 2"
abbreviation (input) UdpHeaderSize :: nat where "UdpHeaderSize \<equiv> 24"

definition ErrPacketTooShort :: goerr where "ErrPacketTooShort = Errorf ''plainudp: packet too short''"
definition ErrTimestampExpired :: goerr where "ErrTimestampExpired = Errorf ''plainudp: timestamp out of acceptable window''"
definition ErrDecryptionFailed :: goerr where "ErrDecryptionFailed = Errorf ''plainudp: AEAD packet decryption failed''"
definition ErrInvalidAddressType :: goerr where "ErrInvalidAddressType = Errorf ''plainudp: unsupported SOCKS5 address type''"
definition ErrInvalidAddress :: goerr where "ErrInvalidAddress = Errorf ''plainudp: malformed address in packet''"
definition ErrInvalidDirection :: goerr where "ErrInvalidDirection = Errorf ''plainudp: invalid or unexpected direction''"

subsection \<open>Keys\<close>

definition DeriveDirectionalKeys :: "crypto \<Rightarrow> bytes \<Rightarrow> bytes \<times> bytes" where
  "DeriveDirectionalKeys cr psk =
     (let prk = hmac_sha256 cr SaltUDP psk
      in (copy_array 32 (hmac_sha256 cr prk (InfoUDP @ lit ''C2S'')),
          copy_array 32 (hmac_sha256 cr prk (InfoUDP @ lit ''S2C''))))"

record codec =
  cd_c2s :: bytes
  cd_s2c :: bytes
  cd_sequence :: u64

definition NewCodec :: "crypto \<Rightarrow> bytes \<Rightarrow> bytes list \<Rightarrow> codec result" where
  "NewCodec cr psk serverIDs =
     (if 1 < length serverIDs then Inl (Errorf ''plainudp: multiple server IDs'')
      else let psk' = (if length serverIDs = 1 \<and> serverIDs ! 0 \<noteq> []
                       then hmac_sha256 cr psk (lit ''CHITANDA-PLAIN-UDP-SERVER-V3'' @ [0] @ serverIDs ! 0) else psk)
           in case DeriveDirectionalKeys cr psk' of
                (c2sKey, s2cKey) \<Rightarrow> Inr \<lparr>cd_c2s = c2sKey, cd_s2c = s2cKey, cd_sequence = 0\<rparr>)"

definition dirKey :: "codec \<Rightarrow> byte \<Rightarrow> bytes option" where
  "dirKey c dir = (if dir = DirClientToServer then Some (cd_c2s c)
     else if dir = DirServerToClient then Some (cd_s2c c) else None)"

subsection \<open>Addresses\<close>

definition icmpPrefix :: bytes where "icmpPrefix = lit ''icmp:''"

definition appendTargetAddress :: "bytes \<Rightarrow> bytes \<Rightarrow> bytes result" where
  "appendTargetAddress buf address =
     (case (if take 5 address = icmpPrefix then Inr (drop 5 address, 0)
            else case SplitHostPort address of
                   Inl e \<Rightarrow> Inl (Errorf ''invalid address'')
                 | Inr (host, portText) \<Rightarrow>
                     (case parsePort 1 portText of Inl e \<Rightarrow> Inl e | Inr port \<Rightarrow> Inr (host, port))) of
        Inl e \<Rightarrow> Inl e
      | Inr (host, port) \<Rightarrow>
          (case encodeHost ''invalid domain host length'' host of
             Inl e \<Rightarrow> Inl e
           | Inr h \<Rightarrow> Inr (buf @ h @ putUint16 port)))"

definition udp_finish :: "bytes \<Rightarrow> nat \<Rightarrow> bytes \<Rightarrow> (bytes \<times> bytes) result" where
  "udp_finish host offset data =
     (let port = getUint16 (gslice offset (offset + 2) data)
      in Inr (if port = 0 then icmpPrefix @ host else JoinHostPort host (Itoa (unat port)), drop (offset + 2) data))"

definition udp_decodeTargetAddress :: "bytes \<Rightarrow> (bytes \<times> bytes) result" where
  "udp_decodeTargetAddress data =
     (if length data < 1 then Inl ErrInvalidAddress
      else if data ! 0 = 0x01 then
        (if length data < 7 then Inl ErrInvalidAddress else udp_finish (IP_String (gslice 1 5 data)) 5 data)
      else if data ! 0 = 0x03 then
        (if length data < 2 then Inl ErrInvalidAddress
         else let domainLen = unat (data ! 1)
              in if domainLen = 0 \<or> length data < 2 + domainLen + 2 then Inl ErrInvalidAddress
                 else udp_finish (gslice 2 (2 + domainLen) data) (2 + domainLen) data)
      else if data ! 0 = 0x04 then
        (if length data < 19 then Inl ErrInvalidAddress else udp_finish (IP_String (gslice 1 17 data)) 17 data)
      else Inl ErrInvalidAddressType)"

subsection \<open>Packets\<close>

definition EncodePacket ::
  "crypto \<Rightarrow> codec \<Rightarrow> source \<Rightarrow> bytes \<Rightarrow> byte \<Rightarrow> u64 \<Rightarrow> bytes \<Rightarrow> bytes \<Rightarrow> u64 \<Rightarrow> bytes result \<times> codec \<times> source" where
  "EncodePacket cr c rnd dst dir sessionID targetAddr payload now =
     (let seq = cd_sequence c + 1; c = c\<lparr>cd_sequence := seq\<rparr>
      in case appendTargetAddress (putUint64 now @ putUint64 seq @ putUint64 sessionID) targetAddr of
           Inl e \<Rightarrow> (Inl e, c, rnd)
         | Inr p \<Rightarrow>
             let plaintext = p @ payload
             in case readFull 24 rnd of
                  (_, Some e, rnd) \<Rightarrow> (Inl (Errorf ''plainudp: random nonce failed''), c, rnd)
                | (nonce, None, rnd) \<Rightarrow>
                    (case dirKey c dir of
                       None \<Rightarrow> (Inl ErrInvalidDirection, c, rnd)
                     | Some key \<Rightarrow> (Inr (dst @ nonce @ xchacha_seal cr key nonce plaintext [dir]), c, rnd)))"

record decoded =
  de_sessionID :: u64
  de_targetAddr :: bytes
  de_payload :: bytes
  de_timestamp :: u64
  de_seq :: u64

definition DecodePacket :: "crypto \<Rightarrow> codec \<Rightarrow> bytes \<Rightarrow> byte \<Rightarrow> u64 \<Rightarrow> decoded result" where
  "DecodePacket cr c packet expectedDir now =
     (if length packet < UdpHeaderSize + 24 + 1 + 16 then Inl ErrPacketTooShort
      else case dirKey c expectedDir of
             None \<Rightarrow> Inl ErrInvalidDirection
           | Some key \<Rightarrow>
               (case xchacha_open cr key (take 24 packet) (drop 24 packet) [expectedDir] of
                  None \<Rightarrow> Inl ErrDecryptionFailed
                | Some plaintext \<Rightarrow>
                    if length plaintext < 24 then Inl ErrPacketTooShort
                    else let timestamp = getUint64 (gslice 0 8 plaintext);
                             diff = int64_diff now timestamp
                         in if diff < - MaxTimestampSkew \<or> MaxTimestampSkew < diff then Inl ErrTimestampExpired
                            else case udp_decodeTargetAddress (drop 24 plaintext) of
                                   Inl e \<Rightarrow> Inl e
                                 | Inr (targetAddr, payload) \<Rightarrow>
                                     Inr \<lparr>de_sessionID = getUint64 (gslice 16 24 plaintext), de_targetAddr = targetAddr,
                                          de_payload = payload, de_timestamp = timestamp,
                                          de_seq = getUint64 (gslice 8 16 plaintext)\<rparr>))"

fun decodeMultiLoop :: "crypto \<Rightarrow> nat \<Rightarrow> codec option list \<Rightarrow> bytes \<Rightarrow> byte \<Rightarrow> u64 \<Rightarrow> (nat \<times> decoded) result" where
  "decodeMultiLoop cr i [] packet dir now = Inl ErrDecryptionFailed"
| "decodeMultiLoop cr i (None # cs) packet dir now = decodeMultiLoop cr (Suc i) cs packet dir now"
| "decodeMultiLoop cr i (Some c # cs) packet dir now =
     (case DecodePacket cr c packet dir now of
        Inr d \<Rightarrow> Inr (i, d)
      | Inl _ \<Rightarrow> decodeMultiLoop cr (Suc i) cs packet dir now)"

definition DecodePacketMulti :: "crypto \<Rightarrow> codec option list \<Rightarrow> bytes \<Rightarrow> byte \<Rightarrow> u64 \<Rightarrow> (nat \<times> decoded) result" where
  "DecodePacketMulti cr codecs packet expectedDir now = decodeMultiLoop cr 0 codecs packet expectedDir now"

subsection \<open>The replay window of the client\<close>

type_synonym responseID = "u64 \<times> u64"

record response_window =
  rs_seen :: "responseID set"
  rs_ring :: "responseID list"
  rs_next :: nat
  rs_floors :: "u64 \<Rightarrow> u64 option"
  rs_maxTimestamp :: u64
  rs_retiredThrough :: u64
  rs_hasRetired :: bool

definition new_response_window :: response_window where
  "new_response_window = \<lparr>rs_seen = {}, rs_ring = [], rs_next = 0, rs_floors = (\<lambda>_. None),
     rs_maxTimestamp = 0, rs_retiredThrough = 0, rs_hasRetired = False\<rparr>"

definition responseWindowSize :: nat where "responseWindowSize = 2048"

definition rs_advance :: "u64 \<Rightarrow> response_window \<Rightarrow> response_window" where
  "rs_advance timestamp w =
     (if rs_maxTimestamp w < timestamp then
        (let w = w\<lparr>rs_maxTimestamp := timestamp\<rparr>; span = 60
         in if span < timestamp then
              let retired = timestamp - span - 1
              in w\<lparr>rs_retiredThrough := retired, rs_hasRetired := True,
                   rs_floors := (\<lambda>ts. if ts \<le> retired then None else rs_floors w ts)\<rparr>
            else w)
      else w)"

definition rs_insert :: "responseID \<Rightarrow> response_window \<Rightarrow> response_window" where
  "rs_insert i w =
     (let w = (if length (rs_ring w) < responseWindowSize then w\<lparr>rs_ring := rs_ring w @ [i]\<rparr>
               else let old = rs_ring w ! rs_next w;
                        floors = (if \<not> rs_hasRetired w \<or> rs_retiredThrough w < fst old
                                  then (rs_floors w)(fst old := Some (max (case rs_floors w (fst old) of None \<Rightarrow> 0 | Some f \<Rightarrow> f) (snd old)))
                                  else rs_floors w)
                    in w\<lparr>rs_seen := rs_seen w - {old}, rs_floors := floors, rs_ring := (rs_ring w)[rs_next w := i],
                         rs_next := (rs_next w + 1) mod responseWindowSize\<rparr>)
      in w\<lparr>rs_seen := insert i (rs_seen w)\<rparr>)"

definition ResponseReplayWindow_Accept :: "response_window \<Rightarrow> responseID \<Rightarrow> bool \<times> response_window" where
  "ResponseReplayWindow_Accept w i =
     (case i of (timestamp, sequence) \<Rightarrow>
        if sequence = 0 \<or> (rs_hasRetired w \<and> timestamp \<le> rs_retiredThrough w) then (False, w)
        else let w = rs_advance timestamp w
             in if i \<in> rs_seen w then (False, w)
                else if (case rs_floors w timestamp of Some f \<Rightarrow> sequence \<le> f | None \<Rightarrow> False) then (False, w)
                else (True, rs_insert i w))"

subsection \<open>The address codec\<close>

definition canonUdp :: "bytes \<Rightarrow> bytes" where
  "canonUdp address = (if take 5 address = icmpPrefix then icmpPrefix @ canonHost (drop 5 address) else canonAddr address)"

lemma appendTargetAddress_parts:
  assumes "appendTargetAddress buf a = Inr w"
  obtains host port h where "encodeHost ''invalid domain host length'' host = Inr h" "w = buf @ h @ putUint16 port"
    "canonUdp a = (if port = 0 then icmpPrefix @ canonHost host else JoinHostPort (canonHost host) (Itoa (unat port)))"
proof (cases "take 5 a = icmpPrefix")
  case True
  then show thesis using assms that [of "drop 5 a" _ 0]
    by (auto simp: appendTargetAddress_def canonUdp_def split: sum.splits)
next
  case False
  then obtain host portText port h where p: "SplitHostPort a = Inr (host, portText)" "parsePort 1 portText = Inr port"
    "encodeHost ''invalid domain host length'' host = Inr h" "w = buf @ h @ putUint16 port"
    using assms by (auto simp: appendTargetAddress_def split: sum.splits prod.splits)
  have port: "unat port = nat (the (Atoi portText))" "1 \<le> int (unat port)" using parsePort_value [OF p(2)] by auto
  have "port \<noteq> 0" using port(2) by auto
  then show thesis using that [OF p(3,4)] p(1) port(1) False by (simp add: canonUdp_def canonAddr_def)
qed

lemma udp_decode_host:
  assumes "encodeHost msg host = Inr h"
  shows "udp_decodeTargetAddress (h @ putUint16 port @ rest) =
    Inr (if port = 0 then icmpPrefix @ canonHost host else JoinHostPort (canonHost host) (Itoa (unat port)), rest)"
  using assms
proof (cases rule: encodeHost_cases)
  case (v4 q)
  then show ?thesis
    by (simp add: udp_decodeTargetAddress_def udp_finish_def gslice_def)
next
  case (v6 ip)
  then show ?thesis
    by (simp add: udp_decodeTargetAddress_def udp_finish_def gslice_def)
next
  case dom
  then show ?thesis
    by (auto simp: udp_decodeTargetAddress_def udp_finish_def gslice_def Let_def)
qed

interpretation udp_addr: addr_codec "appendTargetAddress []" udp_decodeTargetAddress canonUdp "\<lambda>w rest. True"
proof
  fix a w rest
  assume w: "appendTargetAddress [] a = Inr w"
  obtain host port h where p: "encodeHost ''invalid domain host length'' host = Inr h" "w = [] @ h @ putUint16 port"
    "canonUdp a = (if port = 0 then icmpPrefix @ canonHost host else JoinHostPort (canonHost host) (Itoa (unat port)))"
    by (rule appendTargetAddress_parts [OF w])
  show "udp_decodeTargetAddress (w @ rest) = Inr (canonUdp a, rest)"
    using udp_decode_host [OF p(1), of port rest] p(2,3) by simp
qed

lemma appendTargetAddress_append:
  "appendTargetAddress buf a = (case appendTargetAddress [] a of Inl e \<Rightarrow> Inl e | Inr w \<Rightarrow> Inr (buf @ w))"
  by (auto simp: appendTargetAddress_def split: sum.splits prod.splits)

lemma udp_decode_suffix: "udp_decodeTargetAddress data = Inr (a, p) \<Longrightarrow> \<exists>w. data = w @ p"
  by (auto simp: udp_decodeTargetAddress_def udp_finish_def Let_def split: if_splits)
    (metis append_take_drop_id)+

subsection \<open>Packets\<close>

lemma encoded_address_length: "appendTargetAddress [] a = Inr w \<Longrightarrow> 3 \<le> length w"
proof -
  assume a: "appendTargetAddress [] a = Inr w"
  obtain host port h where p: "encodeHost ''invalid domain host length'' host = Inr h" "w = [] @ h @ putUint16 (port :: u16)"
    by (rule appendTargetAddress_parts [OF a])
  from p(1) show ?thesis by (cases rule: encodeHost_cases) (use p(2) in auto)
qed

lemma EncodePacket_ok:
  assumes "EncodePacket cr c rnd dst dir sid a payload now = (Inr packet, c', rnd')"
  obtains w nonce key where "appendTargetAddress [] a = Inr w" "length nonce = 24" "dirKey c dir = Some key"
    "packet = dst @ nonce @ xchacha_seal cr key nonce
       (putUint64 now @ putUint64 (cd_sequence c + 1) @ putUint64 sid @ w @ payload) [dir]"
proof -
  obtain w where w: "appendTargetAddress [] a = Inr w"
    using assms by (auto simp: EncodePacket_def Let_def appendTargetAddress_append [of "putUint64 now @ _"] split: sum.splits)
  obtain nonce r where r: "readFull 24 rnd = (nonce, None, r)"
    using assms w by (auto simp: EncodePacket_def Let_def appendTargetAddress_append [of "putUint64 now @ _"]
        split: prod.splits option.splits)
  have l: "length nonce = 24" using readFull_length(2) [OF r] by simp
  have "dirKey (c\<lparr>cd_sequence := cd_sequence c + 1\<rparr>) dir = dirKey c dir" by (simp add: dirKey_def)
  then show thesis using that [OF w l] assms w r
    by (auto simp: EncodePacket_def Let_def appendTargetAddress_append [of "putUint64 now @ _"] split: option.splits)
qed

lemma DecodePacket_encoded:
  assumes cr: "crypto_ok cr" and key: "dirKey c dir = Some key" and w: "appendTargetAddress [] a = Inr w"
    and nonce: "length nonce = 24" and skew: "\<bar>int64_diff now' now\<bar> \<le> 30"
    and packet: "packet = nonce @ xchacha_seal cr key nonce
       (putUint64 now @ putUint64 sq @ putUint64 sid @ w @ payload) [dir]"
  shows "DecodePacket cr c packet dir now' = Inr \<lparr>de_sessionID = sid, de_targetAddr = canonUdp a,
    de_payload = payload, de_timestamp = now, de_seq = sq\<rparr>"
proof -
  let ?p = "putUint64 now @ putUint64 sq @ putUint64 sid @ w @ payload"
  have len: "length packet = 64 + length w + length payload"
    using nonce by (simp add: packet crypto_ok_simps [OF cr])
  have parts: "take 24 packet = nonce" "drop 24 packet = xchacha_seal cr key nonce ?p [dir]"
    using nonce by (simp_all add: packet)
  have fields: "gslice 0 8 ?p = putUint64 now" "gslice 8 16 ?p = putUint64 sq" "gslice 16 24 ?p = putUint64 sid"
    "drop 24 ?p = w @ payload" by (simp_all add: gslice_def)
  have "udp_decodeTargetAddress (w @ payload) = Inr (canonUdp a, payload)"
    by (rule udp_addr.decode_encode [OF w]) simp
  moreover have "\<not> int64_diff now' now < - 30" "\<not> 30 < int64_diff now' now" "w \<noteq> []"
    using skew encoded_address_length [OF w] by auto
  ultimately show ?thesis
    using len parts key
    by (simp add: DecodePacket_def crypto_ok_simps [OF cr] fields MaxTimestampSkew_def Let_def)
qed

text \<open>Splitting a plaintext of at least 24 bytes into its fields.\<close>

lemma plaintext_fields:
  assumes "24 \<le> length p"
  shows "p = putUint64 (getUint64 (gslice 0 8 p)) @ putUint64 (getUint64 (gslice 8 16 p)) @
    putUint64 (getUint64 (gslice 16 24 p)) @ drop 24 p"
proof -
  have "gslice 0 8 p @ gslice 8 16 p @ gslice 16 24 p @ drop 24 p = p"
    by (simp add: gslice_drop)
  then show ?thesis using assms by simp
qed

lemma decodeMultiLoop_found:
  "decodeMultiLoop cr i cs packet dir now = Inr (k, d) \<longleftrightarrow>
     (\<exists>j c. k = i + j \<and> j < length cs \<and> cs ! j = Some c \<and> DecodePacket cr c packet dir now = Inr d \<and>
        (\<forall>l c'. l < j \<longrightarrow> cs ! l = Some c' \<longrightarrow> isl (DecodePacket cr c' packet dir now)))"
  (is "?lhs i cs \<longleftrightarrow> ?rhs i cs")
proof (induction cs arbitrary: i)
  case Nil
  then show ?case by simp
next
  case (Cons x cs)
  show ?case
  proof (cases "\<exists>c d'. x = Some c \<and> DecodePacket cr c packet dir now = Inr d'")
    case True
    then obtain c d' where x: "x = Some c" "DecodePacket cr c packet dir now = Inr d'" by blast
    have "?rhs i (x # cs) \<longleftrightarrow> k = i \<and> d = d'"
    proof
      assume "?rhs i (x # cs)"
      then obtain j c1 where j: "k = i + j" "(x # cs) ! j = Some c1" "DecodePacket cr c1 packet dir now = Inr d"
        "\<forall>l c'. l < j \<longrightarrow> (x # cs) ! l = Some c' \<longrightarrow> isl (DecodePacket cr c' packet dir now)" by blast
      have "j = 0" using j(4) [rule_format, of 0 c] x by auto
      then show "k = i \<and> d = d'" using j x by simp
    next
      assume "k = i \<and> d = d'"
      then show "?rhs i (x # cs)" using x by (intro exI [of _ 0] exI [of _ c]) simp
    qed
    then show ?thesis using x by auto
  next
    case False
    then have step: "?lhs i (x # cs) \<longleftrightarrow> ?lhs (Suc i) cs" by (cases x) (auto split: sum.splits)
    have rej: "isl (DecodePacket cr c packet dir now)" if "x = Some c" for c
      using False that by (cases "DecodePacket cr c packet dir now") auto
    have "?rhs i (x # cs) \<longleftrightarrow> ?rhs (Suc i) cs"
    proof
      assume "?rhs i (x # cs)"
      then obtain j c where j: "k = i + j" "j < length (x # cs)" "(x # cs) ! j = Some c" "DecodePacket cr c packet dir now = Inr d"
        "\<forall>l c'. l < j \<longrightarrow> (x # cs) ! l = Some c' \<longrightarrow> isl (DecodePacket cr c' packet dir now)" by blast
      then obtain m where m: "j = Suc m" using False by (cases j) auto
      have "\<forall>l c'. l < m \<longrightarrow> cs ! l = Some c' \<longrightarrow> isl (DecodePacket cr c' packet dir now)"
        using j(5) m by (metis Suc_mono nth_Cons_Suc)
      then show "?rhs (Suc i) cs" using j m by (intro exI [of _ m] exI [of _ c]) simp
    next
      assume "?rhs (Suc i) cs"
      then obtain j c where j: "k = Suc i + j" "j < length cs" "cs ! j = Some c" "DecodePacket cr c packet dir now = Inr d"
        "\<forall>l c'. l < j \<longrightarrow> cs ! l = Some c' \<longrightarrow> isl (DecodePacket cr c' packet dir now)" by blast
      have "isl (DecodePacket cr c' packet dir now)" if "l < Suc j" "(x # cs) ! l = Some c'" for l c'
        using that j(5) rej by (cases l) auto
      then show "?rhs i (x # cs)" using j by (intro exI [of _ "Suc j"] exI [of _ c]) auto
    qed
    then show ?thesis using step Cons.IH by simp
  qed
qed

subsection \<open>The response window\<close>

definition rs_blocked :: "response_window \<Rightarrow> responseID \<Rightarrow> bool" where
  "rs_blocked w i \<longleftrightarrow> snd i = 0 \<or> (rs_hasRetired w \<and> fst i \<le> rs_retiredThrough w) \<or> i \<in> rs_seen w \<or>
     (\<exists>f. rs_floors w (fst i) = Some f \<and> snd i \<le> f)"

text \<open>
  The invariant: indices are in range, the set mirrors the ring, retirement trails the newest
  timestamp by the retained span, and floors exist only for timestamps in that span.
\<close>

definition rs_inv :: "response_window \<Rightarrow> bool" where
  "rs_inv w \<longleftrightarrow> length (rs_ring w) \<le> 2048 \<and> rs_next w < 2048 \<and> rs_seen w \<subseteq> set (rs_ring w) \<and>
     (rs_hasRetired w \<longrightarrow> 60 < rs_maxTimestamp w \<and> rs_retiredThrough w = rs_maxTimestamp w - 61) \<and>
     (\<not> rs_hasRetired w \<longrightarrow> rs_maxTimestamp w \<le> 60) \<and>
     (\<forall>i \<in> set (rs_ring w). fst i \<le> rs_maxTimestamp w) \<and>
     (\<forall>ts \<in> dom (rs_floors w). ts \<le> rs_maxTimestamp w \<and> (rs_hasRetired w \<longrightarrow> rs_retiredThrough w < ts))"

lemma new_response_window_inv: "rs_inv new_response_window"
  by (simp add: rs_inv_def new_response_window_def)

text \<open>Order facts on timestamps, by way of their values.\<close>

lemma span_unat:
  assumes "60 < (t :: u64)"
  shows "unat (t - 61) = unat t - 61" "61 \<le> unat t"
proof -
  show "61 \<le> unat t" using assms by (simp add: word_less_nat_alt)
  then show "unat (t - 61) = unat t - 61" by (simp add: unat_sub word_le_nat_alt)
qed

lemma rs_advance_inv:
  assumes "rs_inv w"
  shows "rs_inv (rs_advance t w)" "t \<le> rs_maxTimestamp (rs_advance t w)"
    "rs_seen (rs_advance t w) = rs_seen w" "rs_ring (rs_advance t w) = rs_ring w" "rs_next (rs_advance t w) = rs_next w"
    "\<not> (rs_hasRetired w \<and> t \<le> rs_retiredThrough w) \<Longrightarrow>
       \<not> (rs_hasRetired (rs_advance t w) \<and> t \<le> rs_retiredThrough (rs_advance t w))"
    "\<not> (rs_hasRetired w \<and> t \<le> rs_retiredThrough w) \<Longrightarrow> rs_floors (rs_advance t w) t = rs_floors w t"
proof -
  have r: "t - 60 - 1 = t - 61" by simp
  have lt: "t - 61 < t" if "60 < t" using span_unat [OF that] by (simp add: word_less_nat_alt)
  show "t \<le> rs_maxTimestamp (rs_advance t w)" "rs_seen (rs_advance t w) = rs_seen w"
    "rs_ring (rs_advance t w) = rs_ring w" "rs_next (rs_advance t w) = rs_next w"
    by (auto simp: rs_advance_def Let_def)
  have old: "length (rs_ring w) \<le> 2048" "rs_next w < 2048" "rs_seen w \<subseteq> set (rs_ring w)"
    and fl: "\<And>ts f. rs_floors w ts = Some f \<Longrightarrow> ts \<le> rs_maxTimestamp w"
      "\<And>i. i \<in> set (rs_ring w) \<Longrightarrow> fst i \<le> rs_maxTimestamp w"
    and nr: "rs_hasRetired w \<Longrightarrow> 60 < rs_maxTimestamp w"
    using assms by (auto simp: rs_inv_def)
  show "rs_inv (rs_advance t w)"
  proof (cases "rs_maxTimestamp w < t")
    case True
    then have up: "\<And>ts f. rs_floors w ts = Some f \<Longrightarrow> ts \<le> t" "\<And>i. i \<in> set (rs_ring w) \<Longrightarrow> fst i \<le> t"
      using fl by fastforce+
    have "60 < t" if "rs_hasRetired w" using nr [OF that] True by simp
    then show ?thesis using True old up
      by (cases "60 < t") (auto simp: rs_inv_def rs_advance_def Let_def r not_less not_le split: if_splits)
  next
    case False
    then show ?thesis using assms by (simp add: rs_advance_def)
  qed
  show "\<not> (rs_hasRetired (rs_advance t w) \<and> t \<le> rs_retiredThrough (rs_advance t w))"
    "rs_floors (rs_advance t w) t = rs_floors w t" if "\<not> (rs_hasRetired w \<and> t \<le> rs_retiredThrough w)"
    using that lt by (auto simp: rs_advance_def Let_def r)
qed

lemma rs_advance_blocked:
  assumes "rs_inv w" "rs_blocked w i"
  shows "rs_blocked (rs_advance t w) i"
proof -
  have "rs_retiredThrough w \<le> t - 61" if "rs_hasRetired w" "rs_maxTimestamp w < t" "60 < t"
  proof -
    have "60 < rs_maxTimestamp w" "rs_retiredThrough w = rs_maxTimestamp w - 61"
      using assms(1) that by (auto simp: rs_inv_def)
    then show ?thesis using span_unat [of "rs_maxTimestamp w"] span_unat [OF that(3)] that(2)
      by (simp add: word_le_nat_alt word_less_nat_alt)
  qed
  moreover have "60 < t" if "rs_hasRetired w" "rs_maxTimestamp w < t"
    using assms(1) that by (auto simp: rs_inv_def)
  ultimately show ?thesis
    using assms(2) by (auto simp: rs_blocked_def rs_advance_def Let_def split: if_splits dest: order_trans)
qed

lemma ring_insert_subset:
  "k < length r \<Longrightarrow> S \<subseteq> set r \<Longrightarrow> insert i (S - {r ! k}) \<subseteq> set (r[k := i])"
proof
  fix x
  assume k: "k < length r" and S: "S \<subseteq> set r" and x: "x \<in> insert i (S - {r ! k})"
  show "x \<in> set (r[k := i])"
  proof (cases "x = i")
    case True
    then show ?thesis using k by (simp add: set_update_memI)
  next
    case False
    then have "x \<in> set r" "x \<noteq> r ! k" using x S by auto
    then obtain j where "j < length r" "r ! j = x" "j \<noteq> k" by (metis in_set_conv_nth)
    then show ?thesis by (metis length_list_update nth_list_update_neq nth_mem)
  qed
qed

lemma rs_insert_inv:
  assumes "rs_inv w" "fst i \<le> rs_maxTimestamp w"
  shows "rs_inv (rs_insert i w)"
proof (cases "length (rs_ring w) < responseWindowSize")
  case True
  then show ?thesis using assms by (auto simp: rs_inv_def rs_insert_def Let_def responseWindowSize_def)
next
  case False
  have k: "rs_next w < length (rs_ring w)" using assms(1) False by (auto simp: rs_inv_def responseWindowSize_def)
  then have old: "fst (rs_ring w ! rs_next w) \<le> rs_maxTimestamp w" using assms(1) by (auto simp: rs_inv_def)
  have sub: "insert i (rs_seen w - {rs_ring w ! rs_next w}) \<subseteq> set ((rs_ring w)[rs_next w := i])"
    using assms(1) by (intro ring_insert_subset [OF k]) (simp add: rs_inv_def)
  have "\<forall>j \<in> set ((rs_ring w)[rs_next w := i]). fst j \<le> rs_maxTimestamp w"
    using assms set_update_subset_insert [of "rs_ring w" "rs_next w" i] by (auto simp: rs_inv_def)
  then show ?thesis using assms False old sub
    by (auto simp: rs_inv_def rs_insert_def Let_def responseWindowSize_def)
qed

lemma rs_insert_blocked:
  "rs_blocked w j \<Longrightarrow> rs_blocked (rs_insert i w) j" "rs_blocked (rs_insert i w) i"
  by (auto simp: rs_blocked_def rs_insert_def Let_def le_max_iff_disj not_less split: option.splits)

text \<open>\<open>Accept\<close> by cases: rejected at once, rejected after the clock advanced, or recorded.\<close>

lemma Accept_cases:
  assumes "rs_inv w"
  obtains (early) "ResponseReplayWindow_Accept w i = (False, w)" "rs_blocked w i"
    | (late) "ResponseReplayWindow_Accept w i = (False, rs_advance (fst i) w)" "rs_blocked w i"
    | (fresh) "ResponseReplayWindow_Accept w i = (True, rs_insert i (rs_advance (fst i) w))" "\<not> rs_blocked w i"
proof (cases "snd i = 0 \<or> (rs_hasRetired w \<and> fst i \<le> rs_retiredThrough w)")
  case True
  then show thesis using early by (cases i) (auto simp: ResponseReplayWindow_Accept_def rs_blocked_def)
next
  case False
  let ?w = "rs_advance (fst i) w"
  have same: "rs_seen ?w = rs_seen w" "rs_floors ?w (fst i) = rs_floors w (fst i)"
    using rs_advance_inv(3,7) [OF assms, of "fst i"] False by auto
  have eq: "ResponseReplayWindow_Accept w i = (if i \<in> rs_seen w \<or> (\<exists>f. rs_floors w (fst i) = Some f \<and> snd i \<le> f)
      then (False, ?w) else (True, rs_insert i ?w))"
    using False same by (cases i) (auto simp: ResponseReplayWindow_Accept_def Let_def split: option.splits)
  show thesis
  proof (cases "i \<in> rs_seen w \<or> (\<exists>f. rs_floors w (fst i) = Some f \<and> snd i \<le> f)")
    case True
    then show ?thesis using late eq by (simp add: rs_blocked_def)
  next
    case nb: False
    then have "\<not> rs_blocked w i" using False by (auto simp: rs_blocked_def)
    then show ?thesis using fresh eq nb by simp
  qed
qed

lemma Accept_facts:
  assumes s: "rs_inv w"
  shows "rs_inv (snd (ResponseReplayWindow_Accept w i))"
    "fst (ResponseReplayWindow_Accept w i) \<longleftrightarrow> \<not> rs_blocked w i"
    "fst (ResponseReplayWindow_Accept w i) \<Longrightarrow> rs_blocked (snd (ResponseReplayWindow_Accept w i)) i"
    "rs_blocked w j \<Longrightarrow> rs_blocked (snd (ResponseReplayWindow_Accept w i)) j"
proof -
  have ins: "rs_inv (rs_insert i (rs_advance (fst i) w))"
    by (rule rs_insert_inv) (use rs_advance_inv(1,2) [OF s, of "fst i"] in auto)
  from s show "rs_inv (snd (ResponseReplayWindow_Accept w i))"
    "fst (ResponseReplayWindow_Accept w i) \<longleftrightarrow> \<not> rs_blocked w i"
    "fst (ResponseReplayWindow_Accept w i) \<Longrightarrow> rs_blocked (snd (ResponseReplayWindow_Accept w i)) i"
    "rs_blocked w j \<Longrightarrow> rs_blocked (snd (ResponseReplayWindow_Accept w i)) j"
    by (cases rule: Accept_cases [of w i];
        use s ins rs_advance_inv(1) [OF s] rs_advance_blocked [OF s] rs_insert_blocked in simp)+
qed

interpretation response_window: replay_guard ResponseReplayWindow_Accept rs_inv rs_blocked
  by unfold_locales (use Accept_facts in auto)

text \<open>Everything the window remembers comes from identities it has been shown.\<close>

definition rs_from :: "responseID set \<Rightarrow> response_window \<Rightarrow> bool" where
  "rs_from ids w \<longleftrightarrow> rs_seen w \<subseteq> ids \<and> set (rs_ring w) \<subseteq> ids \<and>
     (\<forall>ts f. rs_floors w ts = Some f \<longrightarrow> (ts, f) \<in> ids \<or> f = 0) \<and>
     (rs_maxTimestamp w = 0 \<or> rs_maxTimestamp w \<in> fst ` ids)"

lemma rs_advance_from: "rs_from ids w \<Longrightarrow> i \<in> ids \<Longrightarrow> rs_from ids (rs_advance (fst i) w)"
  by (auto simp: rs_from_def rs_advance_def Let_def)

lemma rs_insert_from:
  assumes "rs_from ids w" "i \<in> ids" "rs_inv w"
  shows "rs_from ids (rs_insert i w)"
proof (cases "length (rs_ring w) < responseWindowSize")
  case True
  then show ?thesis using assms by (auto simp: rs_from_def rs_insert_def Let_def)
next
  case False
  let ?old = "rs_ring w ! rs_next w"
  have "?old \<in> set (rs_ring w)" using assms(3) False by (auto simp: rs_inv_def responseWindowSize_def)
  then have old: "(fst ?old, snd ?old) \<in> ids" using assms(1) by (auto simp: rs_from_def)
  have "set ((rs_ring w)[rs_next w := i]) \<subseteq> ids"
    using assms(1,2) set_update_subset_insert [of "rs_ring w" "rs_next w" i] by (auto simp: rs_from_def)
  then show ?thesis using assms(1,2) False old
    by (auto simp: rs_from_def rs_insert_def Let_def max_def split: option.splits if_splits)
qed

lemma rs_from_after:
  "rs_from (set ids) (state_after ResponseReplayWindow_Accept new_response_window ids)"
proof (induction ids rule: rev_induct)
  case Nil
  then show ?case by (simp add: rs_from_def new_response_window_def)
next
  case (snoc i ids)
  let ?w = "state_after ResponseReplayWindow_Accept new_response_window ids"
  have inv: "rs_inv ?w" by (rule response_window.inv_state_after [OF new_response_window_inv])
  have from_mono: "rs_from (set (ids @ [i])) ?w" using snoc by (auto simp: rs_from_def)
  then have adv: "rs_from (set (ids @ [i])) (rs_advance (fst i) ?w)" by (rule rs_advance_from) simp
  then have "rs_from (set (ids @ [i])) (rs_insert i (rs_advance (fst i) ?w))"
    by (rule rs_insert_from) (use rs_advance_inv(1) [OF inv] in simp_all)
  note adv = adv this
  from inv show ?case
    by (cases rule: Accept_cases [of ?w i]) (use from_mono adv in auto)
qed

subsection \<open>Properties of plain UDP\<close>

text \<open>What \<open>EncodePacket\<close> sends, a peer with the same keys decodes with \<open>DecodePacket\<close> whenever its
  clock differs by at most 30 seconds: session, payload, timestamp and sequence number are unchanged and the
  destination is reported in canonical spelling (unchanged for domain names and IPv4 addresses), including
  one-character domains and empty payloads.\<close>

theorem plainudp_roundtrip:
  assumes "crypto_ok cr" "EncodePacket cr c rnd [] dir sid target payload now = (Inr packet, c', rnd')"
    and "dirKey peer dir = dirKey c dir" "\<bar>int64_diff now' now\<bar> \<le> 30"
  shows "DecodePacket cr peer packet dir now' = Inr \<lparr>de_sessionID = sid, de_targetAddr = canonUdp target,
    de_payload = payload, de_timestamp = now, de_seq = cd_sequence c + 1\<rparr>"
proof -
  obtain w nonce key where e: "appendTargetAddress [] target = Inr w" "length nonce = 24" "dirKey c dir = Some key"
    "packet = [] @ nonce @ xchacha_seal cr key nonce
       (putUint64 now @ putUint64 (cd_sequence c + 1) @ putUint64 sid @ w @ payload) [dir]"
    by (rule EncodePacket_ok [OF assms(2)])
  have "dirKey peer dir = Some key" using e(3) assms(3) by simp
  from DecodePacket_encoded [OF assms(1) this e(1,2) assms(4)] e(4) show ?thesis by simp
qed

theorem plainudp_roundtrip_witness:
  "\<exists>packet c' rnd'. EncodePacket toy_crypto \<lparr>cd_c2s = [1], cd_s2c = [2], cd_sequence = 6\<rparr> [(replicate 24 9, None)] [] 1 77
      (lit ''a:53'') [5] 1000 = (Inr packet, c', rnd') \<and>
    DecodePacket toy_crypto \<lparr>cd_c2s = [1], cd_s2c = [2], cd_sequence = 0\<rparr> packet 1 1030 = Inr \<lparr>de_sessionID = 77,
      de_targetAddr = lit ''a:53'', de_payload = [5], de_timestamp = 1000, de_seq = 7\<rparr>"
proof -
  let ?c = "\<lparr>cd_c2s = [1], cd_s2c = [2], cd_sequence = 6\<rparr>"
  let ?r = "EncodePacket toy_crypto ?c [(replicate 24 9, None)] [] 1 77 (lit ''a:53'') [5] 1000"
  have ok: "\<not> isl (fst ?r)" "canonUdp (lit ''a:53'') = lit ''a:53''" "int64_diff 1030 1000 = 30"
    by code_simp+
  then obtain packet c' rnd' where r: "?r = (Inr packet, c', rnd')"
    by (cases ?r) (auto simp: isl_def split: sum.splits, metis obj_sumE)
  show ?thesis
    using plainudp_roundtrip [OF toy_crypto_ok r, of "\<lparr>cd_c2s = [1], cd_s2c = [2], cd_sequence = 0\<rparr>" 1030] ok r
    by (auto simp: dirKey_def)
qed

text \<open>A datagram is accepted only if it is the authenticated encryption, under the key of the expected
  direction and with that direction as associated data, of a plaintext that begins with exactly the reported
  timestamp, sequence number and session, followed by an encoded address and the payload, and only if the
  timestamp is within 30 seconds of the receiver's clock.\<close>

theorem plainudp_accepts_only_sealed:
  assumes "crypto_ok cr" "DecodePacket cr c packet dir now = Inr d"
  shows "\<exists>key nonce addr. dirKey c dir = Some key \<and> length nonce = 24 \<and>
    packet = nonce @ xchacha_seal cr key nonce (putUint64 (de_timestamp d) @ putUint64 (de_seq d) @
      putUint64 (de_sessionID d) @ addr @ de_payload d) [dir] \<and>
    udp_decodeTargetAddress (addr @ de_payload d) = Inr (de_targetAddr d, de_payload d) \<and>
    \<bar>int64_diff now (de_timestamp d)\<bar> \<le> 30"
proof -
  obtain key pt where k: "dirKey c dir = Some key" "xchacha_open cr key (take 24 packet) (drop 24 packet) [dir] = Some pt"
    "65 \<le> length packet" "24 \<le> length pt" "\<bar>int64_diff now (getUint64 (gslice 0 8 pt))\<bar> \<le> 30"
    "udp_decodeTargetAddress (drop 24 pt) = Inr (de_targetAddr d, de_payload d)"
    "de_timestamp d = getUint64 (gslice 0 8 pt)" "de_seq d = getUint64 (gslice 8 16 pt)"
    "de_sessionID d = getUint64 (gslice 16 24 pt)"
    using assms(2) by (auto simp: DecodePacket_def Let_def MaxTimestampSkew_def split: if_splits option.splits sum.splits)
  obtain addr where a: "drop 24 pt = addr @ de_payload d" using k(6) udp_decode_suffix by blast
  have pt: "putUint64 (de_timestamp d) @ putUint64 (de_seq d) @ putUint64 (de_sessionID d) @ addr @ de_payload d = pt"
    unfolding k(7,8,9) a [symmetric] by (rule plaintext_fields [OF k(4), symmetric])
  have "packet = take 24 packet @ drop 24 packet" by simp
  also have "drop 24 packet = xchacha_seal cr key (take 24 packet) pt [dir]"
    by (rule crypto_ok_tidy(1) [OF assms(1) k(2)])
  finally have eq: "packet = take 24 packet @ xchacha_seal cr key (take 24 packet) pt [dir]" .
  have dec: "udp_decodeTargetAddress (addr @ de_payload d) = Inr (de_targetAddr d, de_payload d)" using k(6) a by simp
  have len: "length (take 24 packet) = 24" using k(3) by simp
  have skew: "\<bar>int64_diff now (de_timestamp d)\<bar> \<le> 30" using k(5,7) by simp
  show ?thesis using k(1) eq [folded pt] dec len skew by blast
qed

theorem plainudp_accepts_only_sealed_witness:
  "\<exists>key nonce addr. dirKey \<lparr>cd_c2s = [1], cd_s2c = [2], cd_sequence = 0\<rparr> 2 = Some key \<and> length nonce = 24 \<and>
    replicate 24 9 @ putUint64 1000 @ putUint64 7 @ putUint64 77 @ [3, 1, 97, 0, 53, 5] @ 2 # replicate 15 9 =
      nonce @ xchacha_seal toy_crypto key nonce (putUint64 1000 @ putUint64 7 @ putUint64 77 @ addr @ [5]) [2]"
proof -
  let ?c = "\<lparr>cd_c2s = [1], cd_s2c = [2], cd_sequence = 0\<rparr>"
  let ?p = "replicate 24 9 @ putUint64 1000 @ putUint64 7 @ putUint64 77 @ [3, 1, 97, 0, 53, 5] @ 2 # replicate 15 9"
  let ?d = "\<lparr>de_sessionID = 77, de_targetAddr = lit ''a:53'', de_payload = [5], de_timestamp = 1000, de_seq = 7\<rparr>"
  have "DecodePacket toy_crypto ?c ?p 2 990 = Inr ?d" by code_simp
  from plainudp_accepts_only_sealed [OF toy_crypto_ok this] show ?thesis by auto
qed

text \<open>With several users \<open>DecodePacketMulti\<close> attributes a datagram to the first configured key that
  authenticates it: it returns index \<open>i\<close> exactly when codec \<open>i\<close> decodes the packet and no codec before it
  does, and it fails exactly when no codec decodes it.\<close>

lemma plainudp_multi_first_match:
  "(DecodePacketMulti cr codecs packet dir now = Inr (i, d) \<longleftrightarrow>
     (\<exists>c. i < length codecs \<and> codecs ! i = Some c \<and> DecodePacket cr c packet dir now = Inr d \<and>
        (\<forall>l c'. l < i \<longrightarrow> codecs ! l = Some c' \<longrightarrow> isl (DecodePacket cr c' packet dir now)))) \<and>
   (DecodePacketMulti cr codecs packet dir now = Inl ErrDecryptionFailed \<longleftrightarrow>
     (\<forall>c. Some c \<in> set codecs \<longrightarrow> isl (DecodePacket cr c packet dir now)))"
proof -
  have "decodeMultiLoop cr k codecs packet dir now = Inl ErrDecryptionFailed \<longleftrightarrow>
     (\<forall>c. Some c \<in> set codecs \<longrightarrow> isl (DecodePacket cr c packet dir now))" for k
    by (induction cr k codecs packet dir now rule: decodeMultiLoop.induct) (auto split: sum.splits)
  then show ?thesis using decodeMultiLoop_found [of cr 0 codecs packet dir now i d]
    by (auto simp: DecodePacketMulti_def)
qed

text \<open>The client's response window admits no response identity twice, for every order of arrival and
  every clock of the sender, although it keeps only 2048 identities and forgets retired timestamps.\<close>

theorem response_window_admits_once:
  "distinct (accept_run ResponseReplayWindow_Accept new_response_window ids)"
  by (rule response_window.run_distinct [OF new_response_window_inv])

text \<open>C6: The response window does not reject fresh traffic: after any history, a response whose sequence
  number is above every number shown with the same timestamp is admitted, provided its timestamp is at most
  60 seconds behind the newest one, also when the sender's clock went backwards.\<close>

theorem response_window_admits_fresh:
  assumes "sequence \<noteq> 0" "\<And>s. (timestamp, s) \<in> set ids \<Longrightarrow> s < sequence"
    and "\<And>i. i \<in> set ids \<Longrightarrow> unat (fst i) \<le> unat timestamp + 60"
  shows "fst (ResponseReplayWindow_Accept (state_after ResponseReplayWindow_Accept new_response_window ids) (timestamp, sequence))"
proof -
  let ?w = "state_after ResponseReplayWindow_Accept new_response_window ids"
  have inv: "rs_inv ?w" by (rule response_window.inv_state_after [OF new_response_window_inv])
  note fr = rs_from_after [of ids]
  have "\<not> (rs_hasRetired ?w \<and> timestamp \<le> rs_retiredThrough ?w)"
  proof
    assume r: "rs_hasRetired ?w \<and> timestamp \<le> rs_retiredThrough ?w"
    then have m: "60 < rs_maxTimestamp ?w" "rs_retiredThrough ?w = rs_maxTimestamp ?w - 61"
      using inv by (auto simp: rs_inv_def)
    then have "rs_maxTimestamp ?w \<in> fst ` set ids" using fr by (auto simp: rs_from_def)
    then have "unat (rs_maxTimestamp ?w) \<le> unat timestamp + 60" using assms(3) by auto
    moreover have "unat timestamp \<le> unat (rs_maxTimestamp ?w - 61)" using r m(2) by (simp only: word_le_nat_alt)
    ultimately show False using span_unat [OF m(1)] by linarith
  qed
  moreover have "(timestamp, sequence) \<notin> rs_seen ?w" using fr assms(2) by (auto simp: rs_from_def)
  moreover have "\<not> sequence \<le> f" if "rs_floors ?w timestamp = Some f" for f
  proof -
    have "(timestamp, f) \<in> set ids \<or> f = 0" using fr that by (simp add: rs_from_def)
    then show ?thesis using assms(1,2) by (auto simp: not_le word_gt_0)
  qed
  ultimately have "\<not> rs_blocked ?w (timestamp, sequence)" using assms(1) by (auto simp: rs_blocked_def)
  then show ?thesis using Accept_facts(2) [OF inv] by blast
qed

theorem response_window_admits_fresh_witness:
  "fst (ResponseReplayWindow_Accept
     (state_after ResponseReplayWindow_Accept new_response_window [(100, 5), (90, 9), (100, 5)]) (90, 10))"
  by (rule response_window_admits_fresh) (auto simp: unat_word_ariths)

text \<open>The memory of the response window is bounded whatever a peer sends: at most 2048 identities in
  the ring and the set, floors for at most 61 timestamps, and the ring index always valid.\<close>

theorem response_window_bounded:
  defines "w \<equiv> \<lambda>ids. state_after ResponseReplayWindow_Accept new_response_window ids"
  shows "length (rs_ring (w ids)) \<le> 2048 \<and> card (rs_seen (w ids)) \<le> 2048 \<and> card (dom (rs_floors (w ids))) \<le> 61 \<and>
    rs_next (w ids) < 2048"
proof -
  have inv: "rs_inv (w ids)" unfolding w_def by (rule response_window.inv_state_after [OF new_response_window_inv])
  let ?m = "unat (rs_maxTimestamp (w ids))"
  have "unat ` dom (rs_floors (w ids)) \<subseteq> {?m - 60..?m}"
  proof
    fix x
    assume "x \<in> unat ` dom (rs_floors (w ids))"
    then obtain ts where ts: "x = unat ts" "ts \<in> dom (rs_floors (w ids))" by blast
    show "x \<in> {?m - 60..?m}"
    proof (cases "rs_hasRetired (w ids)")
      case True
      then have "60 < rs_maxTimestamp (w ids)" "rs_maxTimestamp (w ids) - 61 < ts" "ts \<le> rs_maxTimestamp (w ids)"
        using inv ts(2) by (auto simp: rs_inv_def)
      then show ?thesis using ts(1) span_unat [of "rs_maxTimestamp (w ids)"] by (simp add: word_less_nat_alt word_le_nat_alt)
    next
      case False
      then have "rs_maxTimestamp (w ids) \<le> 60" "ts \<le> rs_maxTimestamp (w ids)" using inv ts(2) by (auto simp: rs_inv_def)
      then show ?thesis using ts(1) by (simp add: word_le_nat_alt)
    qed
  qed
  then have "card (unat ` dom (rs_floors (w ids))) \<le> card {?m - 60..?m}" by (rule card_mono [OF finite_atLeastAtMost])
  moreover have "card (unat ` dom (rs_floors (w ids))) = card (dom (rs_floors (w ids)))"
    by (intro card_image inj_onI) (simp only: word_unat_eq_iff)
  ultimately have "card (dom (rs_floors (w ids))) \<le> 61" by simp
  moreover have "card (rs_seen (w ids)) \<le> length (rs_ring (w ids))"
  proof -
    have "rs_seen (w ids) \<subseteq> set (rs_ring (w ids))" using inv by (simp add: rs_inv_def)
    from card_mono [OF finite_set this] show ?thesis using card_length [of "rs_ring (w ids)"] by linarith
  qed
  moreover have "length (rs_ring (w ids)) \<le> 2048" "rs_next (w ids) < 2048" using inv by (simp_all add: rs_inv_def)
  ultimately show ?thesis by linarith
qed

end
