(* ===== verification/Icmp.thy ===== *)
theory Icmp
  imports Prelude "HOL-Library.AList"
begin

text \<open>
  ICMP echo relaying, \<^verbatim>\<open>src/internal/icmpmsg/icmp.go\<close>: building and parsing echo
  messages, the RFC 1071 checksum with its 32-bit accumulator, the incremental
  update of RFC 1624, and the tracker that rewrites the identifier and sequence
  number of a request to a process-unique token and restores them in the reply.
  Times are nanoseconds on one monotonic clock; the process-wide token counter
  is an explicit argument.
\<close>

subsection \<open>Messages and checksums\<close>

definition IPv4EchoRequest :: byte where "IPv4EchoRequest = 8"
definition IPv4EchoReply :: byte where "IPv4EchoReply = 0"
definition IPv6EchoRequest :: byte where "IPv6EchoRequest = 128"
definition IPv6EchoReply :: byte where "IPv6EchoReply = 129"

record echo_message =
  em_type :: byte
  em_code :: byte
  em_checksum :: u16
  em_id :: u16
  em_seq :: u16
  em_data :: bytes

text \<open>\<open>copyAt i bs xs\<close> overwrites \<open>xs[i:i+len(bs)]\<close>, as \<open>binary.BigEndian.Put\<close> into a subslice does.\<close>

definition copyAt :: "nat \<Rightarrow> bytes \<Rightarrow> bytes \<Rightarrow> bytes" where
  "copyAt i bs xs = take i xs @ bs @ drop (i + length bs) xs"

fun sum_words :: "u32 \<Rightarrow> bytes \<Rightarrow> u32" where
  "sum_words s (a # b # rest) = sum_words (s + ucast (getUint16 [a, b])) rest"
| "sum_words s [a] = s + push_bit 8 (ucast a)"
| "sum_words s [] = s"

text \<open>Splitting a 32-bit accumulator at bit 16.\<close>

lemma unat_u32_high: "unat (drop_bit 16 (s :: u32)) = unat s div 65536"
  by (simp add: drop_bit_eq_div unat_div_distrib)

lemma unat_u32_low: "unat ((s :: u32) AND 0xffff) = unat s mod 65536"
proof -
  have "(0xffff :: u32) = mask 16" by (simp add: mask_eq_exp_minus_1)
  then have "unat (s AND 0xffff) = unat (take_bit 16 s)" by (simp only: take_bit_eq_mask)
  then show ?thesis by (simp add: take_bit_eq_mod unat_mod_distrib)
qed

lemma unat_u32_fold: "unat (drop_bit 16 (s :: u32) + (s AND 0xffff)) = unat s div 65536 + unat s mod 65536"
proof -
  have "unat s < 2 ^ 32" using unat_bound [of s] by simp
  then have "unat s div 65536 + unat s mod 65536 < 2 ^ 32" by linarith
  then show ?thesis
    by (subst unat_word_ariths(1)) (simp only: unat_u32_high unat_u32_low, simp)
qed

function fold16 :: "u32 \<Rightarrow> u32" where
  "fold16 s = (if s > 0xffff then fold16 (drop_bit 16 s + (s AND 0xffff)) else s)"
  by pat_completeness auto
termination
proof (relation "measure unat")
  fix s :: u32
  assume "s > 0xffff"
  then have "unat s > 65535" by (simp add: word_less_nat_alt)
  then have "unat s div 65536 + unat s mod 65536 < unat s"
    using div_mult_mod_eq [of "unat s" 65536] by linarith
  then show "(drop_bit 16 s + (s AND 0xffff), s) \<in> measure unat" by (simp add: unat_u32_fold)
qed simp

declare fold16.simps [simp del]

definition Checksum :: "bytes \<Rightarrow> u16" where
  "Checksum b = NOT (ucast (fold16 (sum_words 0 b)))"

definition BuildEcho :: "byte \<Rightarrow> u16 \<Rightarrow> u16 \<Rightarrow> bytes \<Rightarrow> bool \<Rightarrow> bytes" where
  "BuildEcho msgType i s data isIPv6 =
     (let pkt = [msgType, 0, 0, 0] @ putUint16 i @ putUint16 s @ data
      in if isIPv6 then pkt else copyAt 2 (putUint16 (Checksum pkt)) pkt)"

definition BuildEchoRequest :: "u16 \<Rightarrow> u16 \<Rightarrow> bytes \<Rightarrow> bool \<Rightarrow> bytes" where
  "BuildEchoRequest i s data isIPv6 = BuildEcho (if isIPv6 then IPv6EchoRequest else IPv4EchoRequest) i s data isIPv6"

definition BuildEchoReply :: "u16 \<Rightarrow> u16 \<Rightarrow> bytes \<Rightarrow> bool \<Rightarrow> bytes" where
  "BuildEchoReply i s data isIPv6 = BuildEcho (if isIPv6 then IPv6EchoReply else IPv4EchoReply) i s data isIPv6"

definition ParseEcho :: "bytes \<Rightarrow> echo_message result" where
  "ParseEcho b =
     (if length b < 8 then Inl (Errorf ''icmp packet too short'')
      else Inr \<lparr>em_type = b ! 0, em_code = b ! 1, em_checksum = getUint16 (gslice 2 4 b),
                em_id = getUint16 (gslice 4 6 b), em_seq = getUint16 (gslice 6 8 b), em_data = drop 8 b\<rparr>)"

subsection \<open>The tracker\<close>

record pending_echo =
  pe_original :: u32
  pe_created :: int

record echo_tracker =
  et_pending :: "(u32 \<times> pending_echo) list"

definition time_Minute :: int where "time_Minute = 60 * 1000000000"

definition ValidateEchoRequest :: "bytes \<Rightarrow> bool \<Rightarrow> goerr option" where
  "ValidateEchoRequest packet ipv6 =
     (if length packet < 8 then Some (Errorf ''icmp echo request too short'')
      else if packet ! 0 \<noteq> (if ipv6 then IPv6EchoRequest else IPv4EchoRequest) \<or> packet ! 1 \<noteq> 0
        then Some (Errorf ''only ICMP echo requests are allowed'')
      else if \<not> ipv6 \<and> Checksum packet \<noteq> 0 then Some (Errorf ''invalid ICMPv4 checksum'')
      else None)"

definition adjustChecksum :: "u16 \<Rightarrow> u32 \<Rightarrow> u32 \<Rightarrow> u16" where
  "adjustChecksum checksum oldValue newValue =
     NOT (ucast (fold16
       (ucast (NOT checksum) + (NOT (drop_bit 16 oldValue) AND 0xffff) + (NOT oldValue AND 0xffff)
         + drop_bit 16 newValue + (newValue AND 0xffff))))"

definition rewriteToken :: "bytes \<Rightarrow> u32 \<Rightarrow> bool \<Rightarrow> bytes" where
  "rewriteToken packet token ipv6 =
     (let old = getUint32 (gslice 4 8 packet);
          result = copyAt 4 (putUint32 token) packet
      in if ipv6 then
           (let checksum = getUint16 (gslice 2 4 result)
            in if checksum \<noteq> 0 then copyAt 2 (putUint16 (adjustChecksum checksum old token)) result else result)
         else (let result = copyAt 2 (putUint16 0) result
               in copyAt 2 (putUint16 (Checksum result)) result))"

definition evict_expired :: "int \<Rightarrow> (u32 \<times> pending_echo) list \<Rightarrow> (u32 \<times> pending_echo) list" where
  "evict_expired now pending = filter (\<lambda>(token, p). \<not> now - pe_created p \<ge> time_Minute) pending"

text \<open>The result, the process-wide counter \<open>nextEchoToken\<close> and the tracker afterwards.\<close>

definition PrepareRequest :: "u32 \<Rightarrow> echo_tracker \<Rightarrow> int \<Rightarrow> bytes \<Rightarrow> bool \<Rightarrow> bytes result \<times> u32 \<times> echo_tracker" where
  "PrepareRequest nextEchoToken t now packet ipv6 =
     (case ValidateEchoRequest packet ipv6 of
        Some err \<Rightarrow> (Inl err, nextEchoToken, t)
      | None \<Rightarrow>
          (let t = (if length (et_pending t) \<ge> 2048 then t\<lparr>et_pending := evict_expired now (et_pending t)\<rparr> else t)
           in if length (et_pending t) \<ge> 2048
              then (Inl (Errorf ''too many outstanding ICMP echo requests''), nextEchoToken, t)
              else let token = nextEchoToken + 1;
                       p = \<lparr>pe_original = getUint32 (gslice 4 8 packet), pe_created = now\<rparr>
                   in (Inr (rewriteToken packet token ipv6), token,
                       t\<lparr>et_pending := AList.update token p (et_pending t)\<rparr>)))"

definition StripIPHeader :: "bytes \<Rightarrow> bool \<Rightarrow> bytes result" where
  "StripIPHeader packet ipv6 =
     (if length packet < 8 then Inl (Errorf ''icmp reply too short'')
      else if \<not> ipv6 \<and> drop_bit 4 (packet ! 0) = 4 then
        (if length packet < 28 then Inl (Errorf ''short IPv4 ICMP reply'')
         else let ihl = unat (packet ! 0 AND 0x0f) * 4
              in if ihl < 20 \<or> ihl + 8 > length packet \<or> packet ! 9 \<noteq> 1
                 then Inl (Errorf ''invalid IPv4 ICMP reply header'')
                 else Inr (drop ihl packet))
      else if ipv6 \<and> drop_bit 4 (packet ! 0) = 6 then
        (if length packet < 48 \<or> packet ! 6 \<noteq> 58 then Inl (Errorf ''invalid IPv6 ICMP reply header'')
         else Inr (drop 40 packet))
      else Inr packet)"

definition RestoreReply :: "echo_tracker \<Rightarrow> int \<Rightarrow> bytes \<Rightarrow> bool \<Rightarrow> bytes option \<times> echo_tracker" where
  "RestoreReply t now raw ipv6 =
     (case StripIPHeader raw ipv6 of
        Inl _ \<Rightarrow> (None, t)
      | Inr packet \<Rightarrow>
          (if length packet < 8 then (None, t)
           else if packet ! 0 \<noteq> (if ipv6 then IPv6EchoReply else IPv4EchoReply) \<or> packet ! 1 \<noteq> 0 then (None, t)
           else let token = getUint32 (gslice 4 8 packet)
                in case map_of (et_pending t) token of
                     None \<Rightarrow> (None, t)
                   | Some p \<Rightarrow>
                       (let t = t\<lparr>et_pending := AList.delete token (et_pending t)\<rparr>
                        in if now - pe_created p \<ge> time_Minute then (None, t)
                           else (Some (rewriteToken packet (pe_original p) ipv6), t))))"

subsection \<open>One's complement arithmetic\<close>

text \<open>\<open>oc n\<close> is the one's complement residue of \<open>n\<close>: zero only for zero, else in \<open>1..65535\<close>.\<close>

definition oc :: "nat \<Rightarrow> nat" where
  "oc n = (if n = 0 then 0 else if n mod 65535 = 0 then 65535 else n mod 65535)"

fun wsum :: "bytes \<Rightarrow> nat" where
  "wsum (a # b # rest) = unat (getUint16 [a, b]) + wsum rest"
| "wsum [a] = unat a * 256"
| "wsum [] = 0"

lemma oc_small: "n \<le> 65535 \<Longrightarrow> oc n = n"
  by (cases "n = 65535") (simp_all add: oc_def)

lemma oc_le: "oc n \<le> 65535"
  using mod_less_divisor [of 65535 n] by (simp add: oc_def)

lemma oc_fold: "oc (n div 65536 + n mod 65536) = oc n"
proof -
  define q r where "q = n div 65536" and "r = n mod 65536"
  have n: "n = q * 65535 + (q + r)" using div_mult_mod_eq [of n 65536] by (simp add: q_def r_def)
  then have "n mod 65535 = (q + r) mod 65535" by (simp only: mod_mult_self4 mod_mult_self3)
  moreover have "n = 0 \<longleftrightarrow> q + r = 0" using n by auto
  ultimately show ?thesis unfolding oc_def q_def [symmetric] r_def [symmetric] by simp
qed

lemma oc_complement: "n + (65535 - oc n) > 0" "65535 dvd n + (65535 - oc n)"
proof -
  show "n + (65535 - oc n) > 0" using oc_small [of 0] by (cases "n = 0") auto
  define q r where "q = n div 65535" and "r = n mod 65535"
  have n: "n = q * 65535 + r" "r < 65535" using div_mult_mod_eq [of n 65535] by (simp_all add: q_def r_def)
  have "n + (65535 - oc n) = (if n \<noteq> 0 \<and> r = 0 then q else q + 1) * 65535"
    unfolding oc_def r_def [symmetric] using n by auto
  then show "65535 dvd n + (65535 - oc n)" by (metis dvd_triv_right)
qed

lemma oc_max_iff: "oc n = 65535 \<longleftrightarrow> n > 0 \<and> 65535 dvd n"
  using mod_less_divisor [of 65535 n] by (auto simp: oc_def dvd_eq_mod_eq_0)

lemma unat_fold16: "unat (fold16 s) = oc (unat s)"
proof (induction s rule: fold16.induct)
  case (1 s)
  show ?case
  proof (cases "s > 0xffff")
    case True
    then have "unat (fold16 s) = oc (unat (drop_bit 16 s + (s AND 0xffff)))"
      using 1 by (subst fold16.simps) simp
    then show ?thesis by (simp only: unat_u32_fold oc_fold)
  next
    case False
    then have "unat s \<le> 65535" by (simp add: word_le_nat_alt not_less)
    then show ?thesis using False by (subst fold16.simps) (simp add: oc_small)
  qed
qed

lemma unat_not_u16: "unat (NOT (c :: u16)) = 65535 - unat c"
proof -
  have "NOT c = - 1 - c" by (simp add: not_eq_complement)
  then show ?thesis by (simp add: unat_sub word_le_nat_alt unsigned_minus_1_eq_mask mask_eq_exp_minus_1 flip: word_le_nat_alt)
qed

lemma unat_not_u32: "unat (NOT (c :: u32)) = 4294967295 - unat c"
proof -
  have "NOT c = - 1 - c" by (simp add: not_eq_complement)
  then show ?thesis by (simp add: unat_sub word_le_nat_alt unsigned_minus_1_eq_mask mask_eq_exp_minus_1 flip: word_le_nat_alt)
qed

lemma unat_not_fold16: "unat (NOT (ucast (fold16 s) :: u16)) = 65535 - oc (unat s)"
proof -
  have "unat (ucast (fold16 s) :: u16) = oc (unat s)"
    using oc_le [of "unat s"] by (simp add: unsigned_ucast_eq unat_fold16 take_bit_eq_mod)
  then show ?thesis by (simp add: unat_not_u16)
qed

lemma unat_sum_words: "unat s + wsum b < 2 ^ 32 \<Longrightarrow> unat (sum_words s b) = unat s + wsum b"
proof (induction s b rule: sum_words.induct)
  case (1 s a b rest)
  have "unat (s + ucast (getUint16 [a, b])) = unat s + unat (getUint16 [a, b])"
    using 1(2) unat_bound [of "getUint16 [a, b]"] by (simp add: unat_word_ariths(1) unsigned_ucast_eq take_bit_eq_mod)
  then show ?case using 1 by simp
next
  case (2 s a)
  have a: "unat a < 256" using unat_bound [of a] by simp
  have "unat (push_bit 8 (ucast a :: u32)) = unat a * 256"
    using a by (simp add: push_bit_eq_mult unat_word_ariths(2) unsigned_ucast_eq take_bit_eq_mod)
  then show ?case using 2 by (simp add: unat_word_ariths(1))
qed simp

lemma wsum_bound: "wsum b \<le> 65535 * ((length b + 1) div 2)"
proof (induction b rule: wsum.induct)
  case (1 a b rest)
  have "unat (getUint16 [a, b]) \<le> 65535" using unat_bound [of "getUint16 [a, b]"] by simp
  then show ?case using 1 by simp
next
  case (2 a)
  then show ?case using unat_bound [of a] by simp
qed simp

lemma unat_Checksum: "length b \<le> 65535 \<Longrightarrow> unat (Checksum b) = 65535 - oc (wsum b)"
proof -
  assume "length b \<le> 65535"
  then have "(length b + 1) div 2 \<le> 32768" by simp
  then have "wsum b \<le> 65535 * 32768" using wsum_bound [of b] by linarith
  then have "unat (sum_words 0 b) = wsum b" using unat_sum_words [of 0 b] by simp
  then show ?thesis by (simp add: Checksum_def unat_not_fold16)
qed

lemma Checksum_zero_iff: "length b \<le> 65535 \<Longrightarrow> Checksum b = 0 \<longleftrightarrow> wsum b > 0 \<and> 65535 dvd wsum b"
proof -
  assume "length b \<le> 65535"
  then have "Checksum b = 0 \<longleftrightarrow> 65535 - oc (wsum b) = 0" by (simp add: unat_eq_0 [symmetric] unat_Checksum)
  then show ?thesis using oc_le [of "wsum b"] oc_max_iff [of "wsum b"] by linarith
qed

lemma wsum_append: "even (length xs) \<Longrightarrow> wsum (xs @ ys) = wsum xs + wsum ys"
  by (induction xs rule: wsum.induct) auto

lemma wsum_16: "length xs = 2 \<Longrightarrow> wsum xs = unat (getUint16 xs)"
  by (cases xs rule: wsum.cases) auto

text \<open>The contribution of the identifier and sequence number.\<close>

definition tok_sum :: "u32 \<Rightarrow> nat" where
  "tok_sum w = unat w div 65536 + unat w mod 65536"

lemma wsum_32: "length xs = 4 \<Longrightarrow> wsum xs = tok_sum (getUint32 xs)"
proof -
  assume "length xs = 4"
  then obtain a b c d where xs: "xs = [a, b, c, d]"
    by (auto simp: numeral_eq_Suc length_Suc_conv)
  have lt: "unat a < 256" "unat b < 256" "unat c < 256" "unat d < 256"
    using unat_bound [of a] unat_bound [of b] unat_bound [of c] unat_bound [of d] by simp_all
  let ?h = "unat a * 256 + unat b" and ?l = "unat c * 256 + unat d"
  have "unat (getUint16 [x, y]) = unat x * 256 + unat y" if "unat x < 256" "unat y < 256" for x y
    using that unfolding getUint16_def by (subst unat_of_nat) (simp add: be_get_def)
  then have w: "wsum xs = ?h + ?l" using lt by (simp add: xs)
  have g: "unat (getUint32 xs) = ?h * 65536 + ?l"
    using lt unfolding getUint32_def xs by (subst unat_of_nat) (simp add: be_get_def)
  have "(h * 65536 + l) div 65536 + (h * 65536 + l) mod 65536 = h + l" if "l < 65536" for h l :: nat
    using that by simp
  then have "tok_sum (getUint32 xs) = ?h + ?l" unfolding tok_sum_def g using lt by (simp only:)
  then show ?thesis using w by simp
qed

lemma wsum_put: "wsum (putUint16 c) = unat c" "wsum (putUint32 w) = tok_sum w"
  by (simp_all add: wsum_16 wsum_32)

subsection \<open>Rewriting a packet\<close>

lemma packet_split:
  assumes "8 \<le> length p"
  shows "p = take 2 p @ gslice 2 4 p @ gslice 4 8 p @ drop 8 p"
proof -
  have "p = take 2 p @ drop 2 p" by simp
  also have "drop 2 p = gslice 2 4 p @ drop 4 p" by (simp add: gslice_drop)
  also have "drop 4 p = gslice 4 8 p @ drop 8 p" by (simp add: gslice_drop)
  finally show ?thesis .
qed

lemma packet_parts:
  assumes "length a = 2" "length b = 2" "length c = 4"
  shows "take 2 (a @ b @ c @ d) = a" "gslice 2 4 (a @ b @ c @ d) = b" "gslice 4 8 (a @ b @ c @ d) = c"
    "drop 8 (a @ b @ c @ d) = d"
    "copyAt 2 x (a @ b @ c @ d) = a @ x @ drop (length x) (b @ c @ d)"
    "copyAt 4 y (a @ b @ c @ d) = a @ b @ y @ drop (length y) (c @ d)"
  using assms by (simp_all add: gslice_def copyAt_def)

lemma wsum_parts:
  assumes "length a = 2" "length b = 2" "length c = 4"
  shows "wsum (a @ b @ c @ d) = wsum a + unat (getUint16 b) + tok_sum (getUint32 c) + wsum d"
  using assms by (simp add: wsum_append wsum_16 wsum_32)

definition new_checksum :: "bytes \<Rightarrow> u32 \<Rightarrow> bool \<Rightarrow> u16" where
  "new_checksum p token ipv6 =
     (if ipv6 then (if getUint16 (gslice 2 4 p) \<noteq> 0
                    then adjustChecksum (getUint16 (gslice 2 4 p)) (getUint32 (gslice 4 8 p)) token else 0)
      else Checksum (take 2 p @ putUint16 0 @ putUint32 token @ drop 8 p))"

lemma rewriteToken_shape:
  assumes "8 \<le> length p"
  shows "rewriteToken p token ipv6 = take 2 p @ putUint16 (new_checksum p token ipv6) @ putUint32 token @ drop 8 p"
proof -
  define a b c d where "a = take 2 p" and "b = gslice 2 4 p" and "c = gslice 4 8 p" and "d = drop 8 p"
  have l: "length a = 2" "length b = 2" "length c = 4" using assms by (simp_all add: a_def b_def c_def)
  have p: "p = a @ b @ c @ d" using packet_split [OF assms] by (simp add: a_def b_def c_def d_def)
  have z: "getUint16 b = 0 \<Longrightarrow> b = putUint16 0" using l by (metis put_get_Uint(1))
  show ?thesis unfolding p rewriteToken_def new_checksum_def
    using l z by (auto simp: packet_parts Let_def)
qed

lemma rewriteToken_parts:
  assumes "8 \<le> length p"
  shows "length (rewriteToken p token ipv6) = length p" "take 2 (rewriteToken p token ipv6) = take 2 p"
    "gslice 4 8 (rewriteToken p token ipv6) = putUint32 token" "drop 8 (rewriteToken p token ipv6) = drop 8 p"
    "gslice 2 4 (rewriteToken p token ipv6) = putUint16 (new_checksum p token ipv6)"
  using assms by (simp_all add: rewriteToken_shape packet_parts)

lemma nth_take2: "8 \<le> length p \<Longrightarrow> take 2 q = take 2 p \<Longrightarrow> q ! 0 = p ! 0 \<and> q ! 1 = p ! 1"
  using nth_take [of 0 2 q] nth_take [of 0 2 p] nth_take [of 1 2 q] nth_take [of 1 2 p] by simp

lemma checksum_fills:
  assumes "length a = 2" "length c = 4" "length d \<le> 65527"
  shows "Checksum (a @ putUint16 (Checksum (a @ putUint16 0 @ c @ d)) @ c @ d) = 0"
proof -
  let ?n = "wsum (a @ putUint16 0 @ c @ d)"
  have "unat (Checksum (a @ putUint16 0 @ c @ d)) = 65535 - oc ?n" using assms by (simp add: unat_Checksum)
  then have "wsum (a @ putUint16 (Checksum (a @ putUint16 0 @ c @ d)) @ c @ d) = ?n + (65535 - oc ?n)"
    using assms by (simp add: wsum_parts)
  then show ?thesis using oc_complement [of ?n] assms by (subst Checksum_zero_iff) simp_all
qed

lemma rewriteToken_v4_valid:
  assumes "8 \<le> length p" "length p \<le> 65535"
  shows "Checksum (rewriteToken p token False) = 0"
  using assms checksum_fills [of "take 2 p" "putUint32 token" "drop 8 p"]
  by (simp add: rewriteToken_shape new_checksum_def)

lemma unat_adjustChecksum:
  "unat (adjustChecksum c old new) =
     65535 - oc ((65535 - unat c) + (131070 - tok_sum old) + tok_sum new)"
  "tok_sum old \<le> 131070"
proof -
  let ?oh = "unat old div 65536" and ?ol = "unat old mod 65536"
  let ?nh = "unat new div 65536" and ?nl = "unat new mod 65536"
  have b: "unat old < 65536 * 65536" "unat new < 65536 * 65536"
    using unat_bound [of old] unat_bound [of new] by simp_all
  have h: "?oh < 65536" "?nh < 65536" using b by (simp_all add: div_less_iff_less_mult)
  have l: "?ol < 65536" "?nl < 65536" by simp_all
  show "tok_sum old \<le> 131070" using h(1) l(1) unfolding tok_sum_def by linarith
  have regroup: "x + (65535 - i) + (65535 - j) + m + n = x + (131070 - (i + j)) + (m + n)"
    if "i < 65536" "j < 65536" for x i j m n :: nat using that by simp
  have inv: "unat (NOT w AND 0xffff) = 65535 - unat w mod 65536" for w :: u32
  proof -
    define q r where "q = unat w div 65536" and "r = unat w mod 65536"
    have w: "unat w = q * 65536 + r" "r < 65536" using div_mult_mod_eq [of "unat w" 65536] by (simp_all add: q_def r_def)
    moreover have "unat w < 65536 * 65536" using unat_bound [of w] by simp
    ultimately have q: "q < 65536" by linarith
    have "4294967295 - unat w = (65535 - q) * 65536 + (65535 - r)" using w q by auto
    then have "(4294967295 - unat w) mod 65536 = 65535 - r" by simp
    then show ?thesis by (simp only: unat_u32_low unat_not_u32 r_def)
  qed
  have c: "unat (ucast (NOT c) :: u32) = 65535 - unat c"
    using unat_not_u16 [of c] by (simp add: unsigned_ucast_eq take_bit_eq_mod)
  have oh: "unat (NOT (drop_bit 16 old) AND 0xffff) = 65535 - ?oh"
    using inv [of "drop_bit 16 old"] h by (simp only: unat_u32_high) simp
  let ?s = "(ucast (NOT c) :: u32) + (NOT (drop_bit 16 old) AND 0xffff) + (NOT old AND 0xffff)
         + drop_bit 16 new + (new AND 0xffff)"
  have "unat ?s = (65535 - unat c) + (65535 - ?oh) + (65535 - ?ol) + ?nh + ?nl"
    using h l by (simp only: unat_word_ariths(1) c oh inv [of old] unat_u32_high unat_u32_low [of new]) simp
  also have "\<dots> = (65535 - unat c) + (131070 - tok_sum old) + tok_sum new"
    using regroup [OF h(1) l(1)] unfolding tok_sum_def .
  finally show "unat (adjustChecksum c old new) =
     65535 - oc ((65535 - unat c) + (131070 - tok_sum old) + tok_sum new)"
    by (simp only: adjustChecksum_def unat_not_fold16)
qed

lemma rewriteToken_v6_sum:
  assumes "8 \<le> length p" "getUint16 (gslice 2 4 p) \<noteq> 0"
  obtains k where "wsum (rewriteToken p token True) + 3 * 65535 = wsum p + 65535 * k"
proof -
  define c old where "c = getUint16 (gslice 2 4 p)" and "old = getUint32 (gslice 4 8 p)"
  define n where "n = (65535 - unat c) + (131070 - tok_sum old) + tok_sum token"
  have new: "unat (new_checksum p token True) = 65535 - oc n"
    using assms(2) by (simp add: new_checksum_def c_def old_def n_def unat_adjustChecksum)
  obtain k where k: "n + (65535 - oc n) = 65535 * k" using oc_complement(2) [of n] by (elim dvdE)
  have c: "unat c \<le> 65535" using unat_bound [of c] by simp
  have "wsum p = wsum (take 2 p) + unat c + tok_sum old + wsum (drop 8 p)"
    using assms(1) wsum_parts [of "take 2 p" "gslice 2 4 p" "gslice 4 8 p" "drop 8 p"] packet_split [OF assms(1)]
    by (simp add: c_def old_def)
  moreover have "wsum (rewriteToken p token True) = wsum (take 2 p) + (65535 - oc n) + tok_sum token + wsum (drop 8 p)"
    using assms(1) by (simp add: rewriteToken_shape wsum_parts new)
  ultimately have "wsum (rewriteToken p token True) + 3 * 65535 = wsum p + 65535 * k"
    using k c unat_adjustChecksum(2) [of old] unfolding n_def by linarith
  then show ?thesis by (rule that)
qed

lemma getUint32_gslice: "8 \<le> length p \<Longrightarrow> putUint32 (getUint32 (gslice 4 8 p)) = gslice 4 8 p"
  by simp

lemma ValidateEchoRequest_None:
  "ValidateEchoRequest p ipv6 = None \<longleftrightarrow>
     8 \<le> length p \<and> p ! 0 = (if ipv6 then IPv6EchoRequest else IPv4EchoRequest) \<and> p ! 1 = 0 \<and> (ipv6 \<or> Checksum p = 0)"
  by (auto simp: ValidateEchoRequest_def)

lemma rewriteToken_request_valid:
  assumes "ValidateEchoRequest p ipv6 = None" "length p \<le> 65535"
  shows "ValidateEchoRequest (rewriteToken p token ipv6) ipv6 = None"
proof -
  have p: "8 \<le> length p" using assms(1) by (simp add: ValidateEchoRequest_None)
  have "rewriteToken p token ipv6 ! 0 = p ! 0 \<and> rewriteToken p token ipv6 ! 1 = p ! 1"
    using p by (intro nth_take2) (simp_all add: rewriteToken_parts)
  then show ?thesis
    using assms p rewriteToken_v4_valid [OF p assms(2), of token]
    by (cases ipv6) (simp_all add: ValidateEchoRequest_None rewriteToken_parts)
qed

lemma PrepareRequest_ok:
  assumes "PrepareRequest k t now packet ipv6 = (Inr w, k', t')"
  shows "ValidateEchoRequest packet ipv6 = None" "k' = k + 1" "w = rewriteToken packet k' ipv6"
    "map_of (et_pending t') k' = Some \<lparr>pe_original = getUint32 (gslice 4 8 packet), pe_created = now\<rparr>"
  using assms by (auto simp: PrepareRequest_def Let_def update_conv' split: option.splits if_splits)

lemma RestoreReply_hit:
  assumes "StripIPHeader raw ipv6 = Inr reply" "8 \<le> length reply"
    "reply ! 0 = (if ipv6 then IPv6EchoReply else IPv4EchoReply)" "reply ! 1 = 0"
    "map_of (et_pending t) (getUint32 (gslice 4 8 reply)) = Some p"
  shows "RestoreReply t now raw ipv6 =
     (if now - pe_created p \<ge> time_Minute then None else Some (rewriteToken reply (pe_original p) ipv6),
      t\<lparr>et_pending := AList.delete (getUint32 (gslice 4 8 reply)) (et_pending t)\<rparr>)"
  using assms by (simp add: RestoreReply_def Let_def)

lemma RestoreReply_miss:
  assumes "StripIPHeader raw ipv6 = Inr reply" "map_of (et_pending t) (getUint32 (gslice 4 8 reply)) = None"
  shows "RestoreReply t now raw ipv6 = (None, t)"
  using assms by (simp add: RestoreReply_def Let_def)

lemma RestoreReply_some:
  assumes "RestoreReply t now raw ipv6 = (Some x, t')"
  obtains reply p where "StripIPHeader raw ipv6 = Inr reply" "(getUint32 (gslice 4 8 reply), p) \<in> set (et_pending t)"
proof -
  obtain reply where r: "StripIPHeader raw ipv6 = Inr reply"
    using assms by (auto simp: RestoreReply_def split: sum.splits)
  obtain p where "map_of (et_pending t) (getUint32 (gslice 4 8 reply)) = Some p"
    using assms RestoreReply_miss [OF r, of t now] by (cases "map_of (et_pending t) (getUint32 (gslice 4 8 reply))") auto
  then show ?thesis using that r by (meson map_of_SomeD)
qed

subsection \<open>Properties of the echo relay\<close>

lemma BuildEcho_shape:
  "BuildEcho ty i s data v6 = [ty, 0] @ putUint16 (if v6 then 0 else Checksum ([ty, 0] @ putUint16 0 @ (putUint16 i @ putUint16 s) @ data))
     @ (putUint16 i @ putUint16 s) @ data"
proof -
  have z: "putUint16 0 = [0, 0]" by code_simp
  have "[ty, 0, 0, 0] @ putUint16 i @ putUint16 s @ data = [ty, 0] @ putUint16 0 @ (putUint16 i @ putUint16 s) @ data"
    by (simp add: z)
  then show ?thesis unfolding BuildEcho_def Let_def
    by (simp only: packet_parts length_putUint) (simp add: z packet_parts copyAt_def)
qed

text \<open>An echo request built from any identifier, sequence number and payload that
fits an IP packet passes \<open>ValidateEchoRequest\<close> (for IPv4 its checksum verifies) and
parses back to exactly these fields.\<close>
lemma icmp_build_parse:
  assumes "length data \<le> 65527"
  shows "ValidateEchoRequest (BuildEchoRequest i s data v6) v6 = None \<and>
    (\<exists>c. ParseEcho (BuildEchoRequest i s data v6) = Inr \<lparr>em_type = (if v6 then IPv6EchoRequest else IPv4EchoRequest),
           em_code = 0, em_checksum = c, em_id = i, em_seq = s, em_data = data\<rparr>)"
proof (intro conjI)
  let ?ty = "if v6 then IPv6EchoRequest else IPv4EchoRequest"
  have "Checksum (BuildEchoRequest i s data v6) = 0" if "\<not> v6"
    using that assms checksum_fills [of "[?ty, 0]" "putUint16 i @ putUint16 s" data]
    by (simp add: BuildEchoRequest_def BuildEcho_shape)
  then show "ValidateEchoRequest (BuildEchoRequest i s data v6) v6 = None"
    by (auto simp: ValidateEchoRequest_None) (simp_all add: BuildEchoRequest_def BuildEcho_shape)
  show "\<exists>c. ParseEcho (BuildEchoRequest i s data v6) = Inr \<lparr>em_type = ?ty,
           em_code = 0, em_checksum = c, em_id = i, em_seq = s, em_data = data\<rparr>"
    by (simp add: ParseEcho_def BuildEchoRequest_def BuildEcho_shape) (simp add: gslice_def numeral_eq_Suc)
qed

text \<open>C12: The relay is transparent to the association's echo exchange. A request accepted by
\<open>PrepareRequest\<close> leaves with a valid header, the new token as identifier and sequence
number and its payload unchanged. The matching reply, in either raw socket format and within
a minute, is restored by \<open>RestoreReply\<close> to a reply with the identifier and sequence number
the association used (for IPv4 with a verifying checksum), and a second copy of it is dropped.\<close>
theorem icmp_relay_roundtrip:
  assumes prep: "PrepareRequest k t now packet v6 = (Inr w, k', t')" and len: "length packet \<le> 65535"
    and strip: "StripIPHeader raw v6 = Inr reply" and reply: "8 \<le> length reply" "length reply \<le> 65535"
      "reply ! 0 = (if v6 then IPv6EchoReply else IPv4EchoReply)" "reply ! 1 = 0" "gslice 4 8 reply = gslice 4 8 w"
    and fresh: "now' - now < time_Minute"
  shows "ValidateEchoRequest w v6 = None \<and> gslice 4 8 w = putUint32 k' \<and> drop 8 w = drop 8 packet \<and>
    (\<exists>restored t''. RestoreReply t' now' raw v6 = (Some restored, t'') \<and>
       take 2 restored = take 2 reply \<and> gslice 4 8 restored = gslice 4 8 packet \<and> drop 8 restored = drop 8 reply \<and>
       (\<not> v6 \<longrightarrow> Checksum restored = 0) \<and> RestoreReply t'' now'' raw v6 = (None, t''))"
proof -
  note ok = PrepareRequest_ok [OF prep]
  have p: "8 \<le> length packet" using ok(1) by (simp add: ValidateEchoRequest_None)
  have tok: "gslice 4 8 w = putUint32 k'" "drop 8 w = drop 8 packet" using ok(3) p by (simp_all add: rewriteToken_parts)
  let ?o = "getUint32 (gslice 4 8 packet)"
  let ?t = "t'\<lparr>et_pending := AList.delete k' (et_pending t')\<rparr>"
  have "RestoreReply t' now' raw v6 = (Some (rewriteToken reply ?o v6), ?t)"
    using RestoreReply_hit [OF strip reply(1,3,4)] ok(4) reply(5) tok(1) fresh by simp
  moreover have "RestoreReply ?t now'' raw v6 = (None, ?t)"
    using RestoreReply_miss [OF strip, of ?t] reply(5) tok(1) by (simp add: delete_conv')
  moreover have "\<not> v6 \<longrightarrow> Checksum (rewriteToken reply ?o v6) = 0" using rewriteToken_v4_valid reply(1,2) by auto
  moreover have "ValidateEchoRequest w v6 = None" using rewriteToken_request_valid [OF ok(1) len] ok(3) by simp
  ultimately show ?thesis using reply(1) p tok by (auto simp: rewriteToken_parts getUint32_gslice)
qed

theorem icmp_relay_roundtrip_witness:
  "\<exists>w t'. PrepareRequest 41 \<lparr>et_pending = []\<rparr> 5 (BuildEchoRequest 7 1 (lit ''ping'') False) False = (Inr w, 42, t') \<and>
     (\<exists>restored t''. RestoreReply t' 9 (BuildEchoReply 0 42 (lit ''ping'') False) False = (Some restored, t'') \<and>
        gslice 4 8 restored = gslice 4 8 (BuildEchoRequest 7 1 (lit ''ping'') False))"
proof -
  let ?p = "BuildEchoRequest 7 1 (lit ''ping'') False" and ?r = "BuildEchoReply 0 42 (lit ''ping'') False"
  obtain w k t where e: "PrepareRequest 41 \<lparr>et_pending = []\<rparr> 5 ?p False = (Inr w, k, t)"
  proof -
    have "\<not> isl (fst (PrepareRequest 41 \<lparr>et_pending = []\<rparr> 5 ?p False))" by code_simp
    then show ?thesis using that by (metis prod.collapse sum.collapse(2))
  qed
  have k: "k = 42" using PrepareRequest_ok(2) [OF e] by simp
  have w: "w = rewriteToken ?p 42 False" using PrepareRequest_ok(3) [OF e] k by simp
  have s: "StripIPHeader ?r False = Inr ?r" by code_simp
  have r: "8 \<le> length ?r" "length ?r \<le> 65535" "?r ! 0 = (if False then IPv6EchoReply else IPv4EchoReply)" "?r ! 1 = 0"
    "gslice 4 8 ?r = gslice 4 8 w" "9 - 5 < time_Minute" "length ?p \<le> 65535"
    unfolding w by code_simp+
  show ?thesis using icmp_relay_roundtrip [OF e r(7) s r(1-6)] e k by blast
qed

text \<open>C14: For IPv6, where the checksum also covers a pseudo header that is not part of the packet,
the incremental update of \<open>rewriteToken\<close> keeps the packet exactly as valid as it was: whatever
the pseudo header contributes, the one's complement sum verifies after the rewrite if and only if it
verified before; a checksum left to the kernel (zero) stays zero.\<close>
theorem icmp6_checksum_preserved:
  assumes "8 \<le> length p"
  shows "if getUint16 (gslice 2 4 p) = 0 then getUint16 (gslice 2 4 (rewriteToken p token True)) = 0
         else 65535 dvd pseudo + wsum (rewriteToken p token True) \<longleftrightarrow> 65535 dvd pseudo + wsum p"
proof (cases "getUint16 (gslice 2 4 p) = 0")
  case True
  then show ?thesis using assms by (simp add: rewriteToken_parts new_checksum_def)
next
  case False
  from rewriteToken_v6_sum [OF assms False] obtain k where
    k: "wsum (rewriteToken p token True) + 3 * 65535 = wsum p + 65535 * k" by blast
  have "65535 dvd pseudo + wsum (rewriteToken p token True) \<longleftrightarrow>
        65535 dvd (pseudo + wsum (rewriteToken p token True)) + 3 * 65535" by (simp only: dvd_add_times_triv_right_iff)
  also have "\<dots> \<longleftrightarrow> 65535 dvd (pseudo + wsum p) + k * 65535" using k by (simp only: add.assoc mult.commute)
  finally show ?thesis using False by (simp only: dvd_add_times_triv_right_iff if_False)
qed

theorem icmp6_checksum_preserved_witness:
  "8 \<le> length [128, 0, 0x12, 0x34, 0, 7, 0, 1 :: byte] \<and>
   (65535 dvd 5 + wsum (rewriteToken [128, 0, 0x12, 0x34, 0, 7, 0, 1] 42 True) \<longleftrightarrow>
    65535 dvd 5 + wsum [128, 0, 0x12, 0x34, 0, 7, 0, 1])"
proof -
  have l: "8 \<le> length [128, 0, 0x12, 0x34, 0, 7, 0, 1 :: byte]" by simp
  have "getUint16 (gslice 2 4 [128, 0, 0x12, 0x34, 0, 7, 0, 1]) \<noteq> 0" by code_simp
  then show ?thesis using icmp6_checksum_preserved [OF l, of 42 5] l by (simp only: if_False)
qed

subsection \<open>All associations of the process\<close>

text \<open>
  The associations share the raw socket and the counter \<open>nextEchoToken\<close>; each has its
  own tracker. A run interleaves their calls in any order.
\<close>

record icmp_process =
  ip_next :: u32
  ip_tracker :: "nat \<Rightarrow> echo_tracker"

inductive icmp_run :: "u32 \<Rightarrow> nat \<Rightarrow> icmp_process \<Rightarrow> bool" where
  run_init: "icmp_run seed 0 \<lparr>ip_next = seed, ip_tracker = (\<lambda>_. \<lparr>et_pending = []\<rparr>)\<rparr>"
| run_prepare: "icmp_run seed n s \<Longrightarrow>
    PrepareRequest (ip_next s) (ip_tracker s a) now packet v6 = (r, k, t) \<Longrightarrow>
    icmp_run seed (Suc n) \<lparr>ip_next = k, ip_tracker = (ip_tracker s)(a := t)\<rparr>"
| run_restore: "icmp_run seed n s \<Longrightarrow> RestoreReply (ip_tracker s a) now raw v6 = (r, t) \<Longrightarrow>
    icmp_run seed n (s\<lparr>ip_tracker := (ip_tracker s)(a := t)\<rparr>)"

definition pending_tokens :: "echo_tracker \<Rightarrow> u32 set" where
  "pending_tokens t = fst ` set (et_pending t)"

lemma length_update_le: "length (AList.update k v xs) \<le> Suc (length xs)"
  by (induction xs) auto

lemma pending_tokens_delete:
  "pending_tokens (t\<lparr>et_pending := AList.delete k (et_pending t)\<rparr>) \<subseteq> pending_tokens t"
  by (auto simp: pending_tokens_def AList.delete_eq)

lemma PrepareRequest_tracker:
  assumes "PrepareRequest k t now packet v6 = (r, k', t')"
  shows "length (et_pending t) \<le> 2048 \<Longrightarrow> length (et_pending t') \<le> 2048"
    "(k' = k \<and> pending_tokens t' \<subseteq> pending_tokens t) \<or>
     (k' = k + 1 \<and> pending_tokens t' \<subseteq> insert k' (pending_tokens t))"
proof -
  have e: "length (evict_expired now (et_pending t)) \<le> length (et_pending t)" by (simp add: evict_expired_def)
  have u: "length xs < 2048 \<Longrightarrow> length (AList.update k' v xs) \<le> 2048" for v :: pending_echo and xs
    using length_update_le [of k' v xs] by linarith
  show "length (et_pending t) \<le> 2048 \<Longrightarrow> length (et_pending t') \<le> 2048"
    using assms e u by (auto simp: PrepareRequest_def Let_def split: option.splits if_splits)
  have ev: "set (evict_expired now (et_pending t)) \<subseteq> set (et_pending t)" by (auto simp: evict_expired_def)
  have "k' = k \<and> set (et_pending t') \<subseteq> set (et_pending t) \<or>
        (\<exists>p xs. k' = k + 1 \<and> et_pending t' = AList.update k' p xs \<and> set xs \<subseteq> set (et_pending t))"
  proof (cases "ValidateEchoRequest packet v6")
    case None
    define t1 where "t1 = (if length (et_pending t) \<ge> 2048 then t\<lparr>et_pending := evict_expired now (et_pending t)\<rparr> else t)"
    have t1: "set (et_pending t1) \<subseteq> set (et_pending t)" using ev by (simp add: t1_def)
    show ?thesis using assms None t1 unfolding PrepareRequest_def t1_def [symmetric] Let_def
      by (cases "length (et_pending t1) \<ge> 2048") (simp, fastforce)
  qed (use assms in \<open>simp add: PrepareRequest_def\<close>)
  then show "(k' = k \<and> pending_tokens t' \<subseteq> pending_tokens t) \<or>
     (k' = k + 1 \<and> pending_tokens t' \<subseteq> insert k' (pending_tokens t))"
    by (elim disjE exE conjE) (simp_all add: pending_tokens_def image_mono dom_update subset_insertI2)
qed

lemma RestoreReply_tracker:
  assumes "RestoreReply t now raw v6 = (r, t')"
  shows "length (et_pending t') \<le> length (et_pending t)" "pending_tokens t' \<subseteq> pending_tokens t"
proof -
  have "t' = t \<or> (\<exists>k. t' = t\<lparr>et_pending := AList.delete k (et_pending t)\<rparr>)"
    using assms by (auto simp: RestoreReply_def Let_def split: sum.splits option.splits if_splits)
  then show "length (et_pending t') \<le> length (et_pending t)" "pending_tokens t' \<subseteq> pending_tokens t"
    using length_delete_le [of _ "et_pending t"] pending_tokens_delete by auto
qed

text \<open>After \<open>m\<close> issued tokens: every pending token is one of them, no two trackers share one, and
no tracker holds more than 2048.\<close>

definition tokens_inv :: "u32 \<Rightarrow> nat \<Rightarrow> (nat \<Rightarrow> echo_tracker) \<Rightarrow> bool" where
  "tokens_inv seed m tr \<longleftrightarrow>
     (\<forall>a. \<forall>k \<in> pending_tokens (tr a). \<exists>j. 0 < j \<and> j \<le> m \<and> k = seed + word_of_nat j) \<and>
     (\<forall>a b. pending_tokens (tr a) \<inter> pending_tokens (tr b) \<noteq> {} \<longrightarrow> a = b) \<and>
     (\<forall>a. length (et_pending (tr a)) \<le> 2048)"

lemma tokens_inv_shrink:
  assumes "tokens_inv seed m tr" "pending_tokens t \<subseteq> pending_tokens (tr a)" "length (et_pending t) \<le> 2048"
  shows "tokens_inv seed m (tr(a := t))"
  using assms unfolding tokens_inv_def by (auto split: if_splits) blast+

lemma tokens_inv_issue:
  assumes inv: "tokens_inv seed m tr" and m: "Suc m < 2 ^ 32"
    and t: "pending_tokens t \<subseteq> insert (seed + word_of_nat (Suc m)) (pending_tokens (tr a))" "length (et_pending t) \<le> 2048"
  shows "tokens_inv seed (Suc m) (tr(a := t))"
proof -
  let ?k = "seed + word_of_nat (Suc m) :: u32"
  have old: "\<exists>j. 0 < j \<and> j \<le> m \<and> k = seed + word_of_nat j" if "k \<in> pending_tokens (tr b)" for k b
    using that inv unfolding tokens_inv_def by blast
  have new: "?k \<notin> pending_tokens (tr b)" for b
  proof
    assume "?k \<in> pending_tokens (tr b)"
    then obtain j where j: "0 < j" "j \<le> m" "?k = seed + word_of_nat j" using old by blast
    then have "unat (word_of_nat (Suc m) :: u32) = unat (word_of_nat j :: u32)" by (simp only: add_left_cancel)
    then have "Suc m = j" using j m by (simp only: unat_of_nat) simp
    then show False using j by simp
  qed
  have 1: "\<exists>j. 0 < j \<and> j \<le> Suc m \<and> k = seed + word_of_nat j" if "k \<in> pending_tokens ((tr(a := t)) b)" for k b
  proof (cases "k = ?k")
    case False
    then have "\<exists>c. k \<in> pending_tokens (tr c)" using that t(1) by (auto split: if_splits)
    then show ?thesis using old le_SucI by blast
  qed blast
  have 2: "b = c" if "k \<in> pending_tokens ((tr(a := t)) b)" "k \<in> pending_tokens ((tr(a := t)) c)" for k b c
  proof (cases "k = ?k")
    case True
    then show ?thesis using that new by (auto split: if_splits)
  next
    case False
    then have "k \<in> pending_tokens (tr b)" "k \<in> pending_tokens (tr c)" using that t(1) by (auto split: if_splits)
    then show ?thesis using inv unfolding tokens_inv_def by blast
  qed
  have 3: "length (et_pending ((tr(a := t)) b)) \<le> 2048" for b using inv t(2) unfolding tokens_inv_def by simp
  show ?thesis unfolding tokens_inv_def using 1 2 3 by blast
qed

lemma icmp_run_invariant:
  "icmp_run seed n s \<Longrightarrow> n < 2 ^ 32 \<Longrightarrow>
     \<exists>m \<le> n. ip_next s = seed + word_of_nat m \<and> tokens_inv seed m (ip_tracker s)"
proof (induction rule: icmp_run.induct)
  case (run_init seed)
  then show ?case by (simp add: pending_tokens_def tokens_inv_def)
next
  case (run_prepare seed n s a now packet v6 r k t)
  then obtain m where m: "m \<le> n" "ip_next s = seed + word_of_nat m" "tokens_inv seed m (ip_tracker s)" by auto
  have len: "length (et_pending t) \<le> 2048"
    using PrepareRequest_tracker(1) [OF run_prepare(2)] m(3) by (simp add: tokens_inv_def)
  have suc: "ip_next s + 1 = seed + word_of_nat (Suc m)" using m(2) by simp
  from PrepareRequest_tracker(2) [OF run_prepare(2)] show ?case
  proof
    assume k: "k = ip_next s \<and> pending_tokens t \<subseteq> pending_tokens (ip_tracker s a)"
    have "tokens_inv seed m ((ip_tracker s)(a := t))" using k m len by (intro tokens_inv_shrink) auto
    then show ?thesis using m k by (intro exI [of _ m]) (simp add: fun_upd_def)
  next
    assume k: "k = ip_next s + 1 \<and> pending_tokens t \<subseteq> insert k (pending_tokens (ip_tracker s a))"
    have "tokens_inv seed (Suc m) ((ip_tracker s)(a := t))"
      using k m run_prepare(4) suc len by (intro tokens_inv_issue) auto
    then show ?thesis using m(1) k suc by (intro exI [of _ "Suc m"]) (simp add: fun_upd_def del: of_nat_Suc)
  qed
next
  case (run_restore seed n s a now raw v6 r t)
  then obtain m where m: "m \<le> n" "ip_next s = seed + word_of_nat m" "tokens_inv seed m (ip_tracker s)" by auto
  then have "length (et_pending (ip_tracker s a)) \<le> 2048" by (simp add: tokens_inv_def)
  then have "tokens_inv seed m ((ip_tracker s)(a := t))"
    using m RestoreReply_tracker [OF run_restore(2)] by (intro tokens_inv_shrink) auto
  then show ?case using m by (intro exI [of _ m]) (simp add: fun_upd_def)
qed

text \<open>C13: Over any interleaving of requests and replies on all associations of the process, with fewer
than \<open>2^32\<close> requests, no wire token is outstanding on two associations at once, so a reply seen
by every raw socket is restored by at most one association; and no association ever holds more than 2048
outstanding requests.\<close>
theorem icmp_reply_has_one_owner:
  assumes "icmp_run seed n s" "n < 2 ^ 32"
    and "RestoreReply (ip_tracker s a) now raw v6 = (Some x, t)"
  shows "(b \<noteq> a \<longrightarrow> fst (RestoreReply (ip_tracker s b) now' raw v6) = None) \<and>
         length (et_pending (ip_tracker s b)) \<le> 2048"
proof -
  obtain m where inv: "tokens_inv seed m (ip_tracker s)" using icmp_run_invariant [OF assms(1,2)] by blast
  obtain reply p where reply: "StripIPHeader raw v6 = Inr reply"
      "(getUint32 (gslice 4 8 reply), p) \<in> set (et_pending (ip_tracker s a))"
    using RestoreReply_some [OF assms(3)] .
  have "getUint32 (gslice 4 8 reply) \<in> pending_tokens (ip_tracker s a)"
    using reply(2) unfolding pending_tokens_def by (rule rev_image_eqI) simp
  then have "getUint32 (gslice 4 8 reply) \<notin> pending_tokens (ip_tracker s b)" if "b \<noteq> a"
    using inv that unfolding tokens_inv_def by blast
  then have "map_of (et_pending (ip_tracker s b)) (getUint32 (gslice 4 8 reply)) = None" if "b \<noteq> a"
    using that by (simp add: map_of_eq_None_iff pending_tokens_def)
  then show ?thesis using RestoreReply_miss [OF reply(1)] inv unfolding tokens_inv_def by simp
qed

theorem icmp_reply_has_one_owner_witness:
  "\<exists>s x t. icmp_run 41 1 s \<and> (1 :: nat) < 2 ^ 32 \<and>
     RestoreReply (ip_tracker s 0) 9 (BuildEchoReply 0 42 (lit ''ping'') False) False = (Some x, t) \<and>
     fst (RestoreReply (ip_tracker s 1) 9 (BuildEchoReply 0 42 (lit ''ping'') False) False) = None"
proof -
  let ?p = "BuildEchoRequest 7 1 (lit ''ping'') False" and ?r = "BuildEchoReply 0 42 (lit ''ping'') False"
  let ?e = "\<lparr>et_pending = []\<rparr>"
  obtain r k t where e: "PrepareRequest 41 ?e 5 ?p False = (r, k, t)" by (cases "PrepareRequest 41 ?e 5 ?p False") auto
  let ?s = "\<lparr>ip_next = k, ip_tracker = (\<lambda>_. ?e)(0 := t)\<rparr>"
  have run: "icmp_run 41 1 ?s" using run_prepare [OF run_init [of 41], of 0] e by simp
  have "fst (RestoreReply (snd (snd (PrepareRequest 41 ?e 5 ?p False))) 9 ?r False) \<noteq> None" by code_simp
  then obtain x t' where x: "RestoreReply (ip_tracker ?s 0) 9 ?r False = (Some x, t')"
    using e by (cases "RestoreReply t 9 ?r False") auto
  then show ?thesis using icmp_reply_has_one_owner [OF run _ x, of 1 9] run by (intro exI [of _ ?s] exI [of _ x] exI [of _ t']) simp
qed

end
