(* ===== verification/H1Session.thy ===== *)
theory H1Session
  imports Address Crypto
begin

text \<open>
  The HTTP/1.1 session layer, \<^verbatim>\<open>src/internal/h1session\<close>: the hello records and the multi-user
  match, the key schedule, the encrypted OPEN frame (\<open>session.go\<close>), and the ChaCha20-Poly1305
  record stream with its end mark (\<open>stream.go\<close>). The stream is a \<open>byte_channel\<close>, the address of the
  OPEN frame an \<open>addr_codec\<close>. Fixed-size arrays are byte strings of that length.
\<close>

definition h1_ClientHelloSize :: nat where "h1_ClientHelloSize = 48"
definition h1_ServerHelloSize :: nat where "h1_ServerHelloSize = 40"
definition h1_MaxChunkPayloadLen :: nat where "h1_MaxChunkPayloadLen = 16384"
definition h1_MaxChunkWireLen :: nat where "h1_MaxChunkWireLen = 16400"
definition h1_MaxTimestampSkew :: int where "h1_MaxTimestampSkew = 90"
definition h1_DomainClientHello :: bytes where "h1_DomainClientHello = lit ''MYXRAY-H1-CLIENT-V1''"
definition DomainSessionInfo :: bytes where "DomainSessionInfo = lit ''MYXRAY-H1-SESSION-V1''"
definition Domain0RTT :: bytes where "Domain0RTT = lit ''MYXRAY-H1-0RTT-V1''"
definition CmdConnectTCP :: byte where "CmdConnectTCP = 0x01"

definition h1_ErrInvalidRecordLen :: goerr where "h1_ErrInvalidRecordLen = Errorf ''h1session: invalid handshake record length''"
definition h1_ErrTimestampExpired :: goerr where "h1_ErrTimestampExpired = Errorf ''h1session: timestamp out of acceptable window''"
definition h1_ErrInvalidClientAuth :: goerr where "h1_ErrInvalidClientAuth = Errorf ''h1session: invalid client authentication tag''"
definition h1_ErrInvalidServerAuth :: goerr where "h1_ErrInvalidServerAuth = Errorf ''h1session: invalid server authentication tag''"
definition h1_ErrDecryptionFailed :: goerr where "h1_ErrDecryptionFailed = Errorf ''h1session: AEAD chunk decryption failed''"
definition h1_ErrChunkTooLarge :: goerr where "h1_ErrChunkTooLarge = Errorf ''h1session: AEAD chunk length exceeds maximum allowed size''"
definition h1_ErrInvalidOpenFrame :: goerr where "h1_ErrInvalidOpenFrame = Errorf ''h1session: invalid OPEN frame structure''"
definition h1_ErrInvalidAddressType :: goerr where "h1_ErrInvalidAddressType = Errorf ''h1session: unsupported address type in OPEN frame''"
definition h1_ErrShortPSK :: goerr where "h1_ErrShortPSK = Errorf ''h1session: PSK must be at least 32 bytes''"
definition h1_ErrRandom :: goerr where "h1_ErrRandom = Errorf ''h1session: random generator failed''"

subsection \<open>Hello records\<close>

definition h1_client_tag :: "crypto \<Rightarrow> bytes \<Rightarrow> bytes \<Rightarrow> bytes \<Rightarrow> bytes" where
  "h1_client_tag cr psk tsBuf clientNonce = take 16 (hmac_sha256 cr psk (h1_DomainClientHello @ tsBuf @ clientNonce))"

definition h1_CreateClientHello :: "crypto \<Rightarrow> source \<Rightarrow> bytes \<Rightarrow> u64 \<Rightarrow> (bytes \<times> bytes \<times> u64) result \<times> source" where
  "h1_CreateClientHello cr rnd psk now =
     (if length psk < 32 then (Inl h1_ErrShortPSK, rnd)
      else case readFull 24 rnd of
             (_, Some _, rnd) \<Rightarrow> (Inl h1_ErrRandom, rnd)
           | (clientNonce, None, rnd) \<Rightarrow>
               let tsBuf = putUint64 now
               in (Inr (tsBuf @ clientNonce @ h1_client_tag cr psk tsBuf clientNonce, clientNonce, now), rnd))"

fun h1_match_loop :: "crypto \<Rightarrow> bytes \<Rightarrow> nat \<Rightarrow> bytes list \<Rightarrow> nat option" where
  "h1_match_loop cr record i [] = None"
| "h1_match_loop cr record i (psk # keys) =
     (if length psk < 32 then h1_match_loop cr record (Suc i) keys
      else if hmac_Equal (gslice 32 48 record) (h1_client_tag cr psk (gslice 0 8 record) (gslice 8 32 record)) then Some i
      else h1_match_loop cr record (Suc i) keys)"

definition MatchClientHello :: "crypto \<Rightarrow> bytes list \<Rightarrow> bytes \<Rightarrow> u64 \<Rightarrow> (nat \<times> bytes \<times> u64) result" where
  "MatchClientHello cr keys record now =
     (if length record \<noteq> h1_ClientHelloSize then Inl h1_ErrInvalidRecordLen
      else let timestamp = getUint64 (gslice 0 8 record);
               diff = int64_diff now timestamp
           in if diff < - h1_MaxTimestampSkew \<or> h1_MaxTimestampSkew < diff then Inl h1_ErrTimestampExpired
              else case h1_match_loop cr record 0 keys of
                     Some i \<Rightarrow> Inr (i, gslice 8 32 record, timestamp)
                   | None \<Rightarrow> Inl h1_ErrInvalidClientAuth)"

definition h1_VerifyClientHello :: "crypto \<Rightarrow> bytes \<Rightarrow> bytes \<Rightarrow> u64 \<Rightarrow> (bytes \<times> u64) result" where
  "h1_VerifyClientHello cr psk record now =
     (if length psk < 32 then Inl h1_ErrShortPSK
      else case MatchClientHello cr [psk] record now of
             Inl e \<Rightarrow> Inl e
           | Inr (_, cNonce, ts) \<Rightarrow> Inr (cNonce, ts))"

definition deriveKeys :: "crypto \<Rightarrow> bytes \<Rightarrow> bytes \<Rightarrow> bytes \<Rightarrow> bytes \<times> bytes \<times> bytes" where
  "deriveKeys cr psk clientNonce serverNonce =
     (let prk = hmac_sha256 cr (clientNonce @ serverNonce) psk;
          t1 = hmac_sha256 cr prk (DomainSessionInfo @ [0x01]);
          t2 = hmac_sha256 cr prk (t1 @ DomainSessionInfo @ [0x02]);
          t3 = hmac_sha256 cr prk (t2 @ DomainSessionInfo @ [0x03])
      in (copy_array 32 t1, copy_array 32 t2, copy_array 16 (take 16 t3)))"

definition h1_CreateServerHello :: "crypto \<Rightarrow> source \<Rightarrow> bytes \<Rightarrow> bytes \<Rightarrow> (bytes \<times> bytes \<times> bytes) result \<times> source" where
  "h1_CreateServerHello cr rnd psk clientNonce =
     (case readFull 24 rnd of
        (_, Some _, rnd) \<Rightarrow> (Inl h1_ErrRandom, rnd)
      | (serverNonce, None, rnd) \<Rightarrow>
          (case deriveKeys cr psk clientNonce serverNonce of
             (clientKey, serverKey, serverAuthTag) \<Rightarrow> (Inr (serverNonce @ serverAuthTag, clientKey, serverKey), rnd)))"

definition h1_VerifyServerHello :: "crypto \<Rightarrow> bytes \<Rightarrow> bytes \<Rightarrow> bytes \<Rightarrow> (bytes \<times> bytes) result" where
  "h1_VerifyServerHello cr psk clientNonce serverHello =
     (if length serverHello \<noteq> h1_ServerHelloSize then Inl h1_ErrInvalidRecordLen
      else case deriveKeys cr psk clientNonce (gslice 0 24 serverHello) of
             (clientKey, serverKey, expectedServerAuthTag) \<Rightarrow>
               if hmac_Equal (gslice 24 40 serverHello) expectedServerAuthTag then Inr (clientKey, serverKey)
               else Inl h1_ErrInvalidServerAuth)"

subsection \<open>The first flight\<close>

definition h1_Derive0RTTKey :: "crypto \<Rightarrow> bytes \<Rightarrow> u64 \<Rightarrow> bytes \<Rightarrow> bytes result" where
  "h1_Derive0RTTKey cr psk timestamp clientNonce =
     (if length psk < 32 then Inl h1_ErrShortPSK
      else let prk = hmac_sha256 cr clientNonce psk;
               t1 = hmac_sha256 cr prk (Domain0RTT @ putUint64 timestamp @ [0x01])
           in Inr (copy_array 32 t1))"

definition nonce0RTT :: bytes where "nonce0RTT = lit ''0RTT'' @ replicate 8 0"

definition h1_Encrypt0RTTChunk :: "crypto \<Rightarrow> bytes \<Rightarrow> bytes \<Rightarrow> bytes result" where
  "h1_Encrypt0RTTChunk cr key plaintext =
     (if h1_MaxChunkPayloadLen < length plaintext then Inl h1_ErrChunkTooLarge
      else Inr (putUint16 (word_of_nat (length plaintext + Overhead)) @ chacha_seal cr key nonce0RTT plaintext []))"

definition h1_Decrypt0RTTChunk :: "crypto \<Rightarrow> bytes \<Rightarrow> bytes \<Rightarrow> bytes result" where
  "h1_Decrypt0RTTChunk cr key ciphertextWithTag =
     (if h1_MaxChunkWireLen < length ciphertextWithTag then Inl h1_ErrChunkTooLarge
      else case chacha_open cr key nonce0RTT ciphertextWithTag [] of
             None \<Rightarrow> Inl h1_ErrDecryptionFailed
           | Some plaintext \<Rightarrow> Inr plaintext)"

definition h1_encode_address :: "bytes \<Rightarrow> bytes result" where
  "h1_encode_address targetAddress =
     (case SplitHostPort targetAddress of
        Inl _ \<Rightarrow> Inl (Errorf ''h1session: invalid target address'')
      | Inr (host, portText) \<Rightarrow>
          (case parsePort 1 portText of
             Inl e \<Rightarrow> Inl e
           | Inr port \<Rightarrow>
               (case encodeHost ''h1session: invalid domain host length'' host of
                  Inl e \<Rightarrow> Inl e
                | Inr w \<Rightarrow> Inr (w @ putUint16 port))))"

definition EncodeOpenFrame :: "bytes \<Rightarrow> bytes \<Rightarrow> bytes result" where
  "EncodeOpenFrame targetAddress initialPayload =
     (case h1_encode_address targetAddress of
        Inl e \<Rightarrow> Inl e
      | Inr w \<Rightarrow> Inr (CmdConnectTCP # w @ initialPayload))"

text \<open>After the host: the port and the payload; \<open>offset\<close> counts from the start of the frame.\<close>

definition h1_open_rest :: "bytes \<Rightarrow> bytes \<Rightarrow> nat \<Rightarrow> (bytes \<times> bytes) result" where
  "h1_open_rest data host offset =
     (let port = getUint16 (gslice offset (offset + 2) data)
      in Inr (JoinHostPort host (Itoa (unat port)), drop (offset + 2) data))"

definition DecodeOpenFrame :: "bytes \<Rightarrow> (bytes \<times> bytes) result" where
  "DecodeOpenFrame data =
     (if length data < 7 then Inl h1_ErrInvalidOpenFrame
      else if data ! 0 \<noteq> CmdConnectTCP then Inl (Errorf ''h1session: unsupported command'')
      else let addrType = data ! 1
           in if addrType = 0x01 then
                (if length data < 2 + 4 + 2 then Inl h1_ErrInvalidOpenFrame
                 else h1_open_rest data (IP_String (gslice 2 6 data)) 6)
              else if addrType = 0x03 then
                (if length data < 2 + 1 then Inl h1_ErrInvalidOpenFrame
                 else let domainLen = unat (data ! 2)
                      in if length data < 3 + domainLen + 2 then Inl h1_ErrInvalidOpenFrame
                         else h1_open_rest data (gslice 3 (3 + domainLen) data) (3 + domainLen))
              else if addrType = 0x04 then
                (if length data < 2 + 16 + 2 then Inl h1_ErrInvalidOpenFrame
                 else h1_open_rest data (IP_String (gslice 2 18 data)) 18)
              else Inl h1_ErrInvalidAddressType)"

subsection \<open>AEADStream\<close>

definition h1_DirClientToServer :: bytes where "h1_DirClientToServer = lit ''C2S'' @ [0]"
definition h1_DirServerToClient :: bytes where "h1_DirServerToClient = lit ''S2C'' @ [0]"

record h1_aead =
  ha_key :: bytes
  ha_direction :: bytes
  ha_seq :: u64

definition h1_NewAEADStream :: "bytes \<Rightarrow> bytes \<Rightarrow> h1_aead" where
  "h1_NewAEADStream key dir = \<lparr>ha_key = key, ha_direction = dir, ha_seq = 0\<rparr>"

definition h1_nonce :: "bytes \<Rightarrow> u64 \<Rightarrow> bytes" where
  "h1_nonce direction sequence = copy_array 4 direction @ putUint64 sequence"

definition h1_EncryptChunk :: "crypto \<Rightarrow> h1_aead \<Rightarrow> bytes \<Rightarrow> bytes \<Rightarrow> bytes result \<times> h1_aead" where
  "h1_EncryptChunk cr s dst plaintext =
     (if h1_MaxChunkPayloadLen < length plaintext then (Inl h1_ErrChunkTooLarge, s)
      else (Inr (dst @ putUint16 (word_of_nat (length plaintext + Overhead)) @
                 chacha_seal cr (ha_key s) (h1_nonce (ha_direction s) (ha_seq s)) plaintext []),
            s\<lparr>ha_seq := ha_seq s + 1\<rparr>))"

definition h1_DecryptChunk :: "crypto \<Rightarrow> h1_aead \<Rightarrow> bytes \<Rightarrow> bytes result \<times> h1_aead" where
  "h1_DecryptChunk cr s ciphertextWithTag =
     (if h1_MaxChunkWireLen < length ciphertextWithTag then (Inl h1_ErrChunkTooLarge, s)
      else (case chacha_open cr (ha_key s) (h1_nonce (ha_direction s) (ha_seq s)) ciphertextWithTag [] of
              None \<Rightarrow> Inl h1_ErrDecryptionFailed
            | Some plaintext \<Rightarrow> Inr plaintext,
            s\<lparr>ha_seq := ha_seq s + 1\<rparr>))"

subsection \<open>FramedWriter and FramedReader\<close>

text \<open>\<open>http.Flusher.Flush\<close> only pushes what was already written, so the writer's sink carries no trace of it.\<close>

record h1_writer =
  hw_w :: sink
  hw_stream :: h1_aead
  hw_closed :: bool

definition h1_NewFramedWriter :: "sink \<Rightarrow> h1_aead \<Rightarrow> h1_writer" where
  "h1_NewFramedWriter w stream = \<lparr>hw_w = w, hw_stream = stream, hw_closed = False\<rparr>"

definition h1_flush :: "bytes \<Rightarrow> h1_writer \<Rightarrow> goerr option \<times> h1_writer" where
  "h1_flush buf fw =
     (case sink_write buf (hw_w fw) of
        (n, err, w) \<Rightarrow>
          let err = (if err = None \<and> n \<noteq> length buf then Some ErrShortWrite else err)
          in (err, fw\<lparr>hw_w := w, hw_closed := hw_closed fw \<or> err \<noteq> None\<rparr>))"

function h1_write_loop :: "crypto \<Rightarrow> bytes \<Rightarrow> nat \<Rightarrow> h1_writer \<Rightarrow> nat \<times> goerr option \<times> h1_writer" where
  "h1_write_loop cr p n fw =
     (if p = [] then (n, None, fw)
      else let chunk = take h1_MaxChunkPayloadLen p
           in case h1_EncryptChunk cr (hw_stream fw) [] chunk of
                (Inl e, s) \<Rightarrow> (n, Some e, fw\<lparr>hw_stream := s\<rparr>)
              | (Inr buf, s) \<Rightarrow>
                  (case h1_flush buf (fw\<lparr>hw_stream := s\<rparr>) of
                     (Some e, fw) \<Rightarrow> (n, Some e, fw)
                   | (None, fw) \<Rightarrow> h1_write_loop cr (drop h1_MaxChunkPayloadLen p) (n + length chunk) fw))"
  by pat_completeness auto
termination
  by (relation "measure (\<lambda>(cr, p, n, fw). length p)") (auto simp: h1_MaxChunkPayloadLen_def)

declare h1_write_loop.simps [simp del]

definition h1_Write :: "crypto \<Rightarrow> bytes \<Rightarrow> h1_writer \<Rightarrow> nat \<times> goerr option \<times> h1_writer" where
  "h1_Write cr p fw = (if hw_closed fw then (0, Some ErrClosedPipe, fw) else h1_write_loop cr p 0 fw)"

definition h1_WriteEOF :: "crypto \<Rightarrow> h1_writer \<Rightarrow> goerr option \<times> h1_writer" where
  "h1_WriteEOF cr fw =
     (if hw_closed fw then (None, fw)
      else case h1_EncryptChunk cr (hw_stream fw) [] [] of
             (Inl e, s) \<Rightarrow> (Some e, fw\<lparr>hw_closed := True, hw_stream := s\<rparr>)
           | (Inr buf, s) \<Rightarrow> h1_flush buf (fw\<lparr>hw_closed := True, hw_stream := s\<rparr>))"

text \<open>\<open>hr_hdr\<close> and \<open>hr_raw\<close> are the filled parts of the header and record buffers, \<open>hr_dec\<close> is \<open>decBuf\<close>.\<close>

record h1_reader =
  hr_r :: source
  hr_stream :: h1_aead
  hr_hdr :: bytes
  hr_raw :: bytes
  hr_dec :: bytes
  hr_terminal :: "goerr option"

definition h1_NewFramedReader :: "source \<Rightarrow> h1_aead \<Rightarrow> h1_reader" where
  "h1_NewFramedReader r stream =
     \<lparr>hr_r = r, hr_stream = stream, hr_hdr = [], hr_raw = [], hr_dec = [], hr_terminal = None\<rparr>"

definition h1_readError :: "goerr \<Rightarrow> h1_reader \<Rightarrow> bytes \<times> goerr option \<times> h1_reader" where
  "h1_readError err fr =
     (if isTimeout err then ([], Some err, fr)
      else let err = (if err = EOF then UnexpectedEOF else err)
           in ([], Some err, fr\<lparr>hr_terminal := Some err\<rparr>))"

definition h1_body :: "crypto \<Rightarrow> nat \<Rightarrow> h1_reader \<Rightarrow> bytes \<times> goerr option \<times> h1_reader" where
  "h1_body cr n fr =
     (let wireLen = unat (getUint16 (hr_hdr fr))
      in if wireLen < 16 then ([], Some h1_ErrDecryptionFailed, fr\<lparr>hr_terminal := Some h1_ErrDecryptionFailed\<rparr>)
         else if h1_MaxChunkWireLen < wireLen then ([], Some h1_ErrChunkTooLarge, fr\<lparr>hr_terminal := Some h1_ErrChunkTooLarge\<rparr>)
         else case readFull (wireLen - length (hr_raw fr)) (hr_r fr) of
                (bs, e, r) \<Rightarrow>
                  let fr = fr\<lparr>hr_r := r, hr_raw := hr_raw fr @ bs\<rparr>
                  in case e of
                       Some err \<Rightarrow> h1_readError err fr
                     | None \<Rightarrow>
                         (case h1_DecryptChunk cr (hr_stream fr) (hr_raw fr) of
                            (Inl err, s) \<Rightarrow> ([], Some err, fr\<lparr>hr_stream := s, hr_terminal := Some err\<rparr>)
                          | (Inr p, s) \<Rightarrow>
                              let fr = fr\<lparr>hr_stream := s, hr_hdr := [], hr_raw := []\<rparr>
                              in if p = [] then ([], Some EOF, fr\<lparr>hr_terminal := Some EOF\<rparr>)
                                 else (take n p, None, fr\<lparr>hr_dec := drop n p\<rparr>)))"

definition h1_Read :: "crypto \<Rightarrow> nat \<Rightarrow> h1_reader \<Rightarrow> bytes \<times> goerr option \<times> h1_reader" where
  "h1_Read cr n fr =
     (if n = 0 then ([], None, fr)
      else if hr_dec fr \<noteq> [] then (take n (hr_dec fr), None, fr\<lparr>hr_dec := drop n (hr_dec fr)\<rparr>)
      else case hr_terminal fr of
             Some e \<Rightarrow> ([], Some e, fr)
           | None \<Rightarrow>
               if length (hr_hdr fr) < 2 then
                 (case readFull (2 - length (hr_hdr fr)) (hr_r fr) of
                    (bs, e, r) \<Rightarrow>
                      let fr = fr\<lparr>hr_r := r, hr_hdr := hr_hdr fr @ bs\<rparr>
                      in case e of Some err \<Rightarrow> h1_readError err fr | None \<Rightarrow> h1_body cr n fr)
               else h1_body cr n fr)"

text \<open>\<open>Conn\<close>: the two directions over one connection, given by its incoming source and outgoing sink.\<close>

record h1_conn =
  hc_reader :: h1_reader
  hc_writer :: h1_writer

definition NewConn :: "source \<Rightarrow> sink \<Rightarrow> bytes \<Rightarrow> bytes \<Rightarrow> bool \<Rightarrow> h1_conn" where
  "NewConn src snk clientKey serverKey isClient =
     (let encStream = (if isClient then h1_NewAEADStream clientKey h1_DirClientToServer
                       else h1_NewAEADStream serverKey h1_DirServerToClient);
          decStream = (if isClient then h1_NewAEADStream serverKey h1_DirServerToClient
                       else h1_NewAEADStream clientKey h1_DirClientToServer)
      in \<lparr>hc_reader = h1_NewFramedReader src decStream, hc_writer = h1_NewFramedWriter snk encStream\<rparr>)"

definition Conn_Read :: "crypto \<Rightarrow> nat \<Rightarrow> h1_conn \<Rightarrow> bytes \<times> goerr option \<times> h1_conn" where
  "Conn_Read cr n c = (case h1_Read cr n (hc_reader c) of (bs, e, fr) \<Rightarrow> (bs, e, c\<lparr>hc_reader := fr\<rparr>))"

definition Conn_Write :: "crypto \<Rightarrow> bytes \<Rightarrow> h1_conn \<Rightarrow> nat \<times> goerr option \<times> h1_conn" where
  "Conn_Write cr p c = (case h1_Write cr p (hc_writer c) of (n, e, fw) \<Rightarrow> (n, e, c\<lparr>hc_writer := fw\<rparr>))"

text \<open>\<open>half_close\<close> is the outcome of \<open>CloseWrite\<close> of the connection below, if it has one.\<close>

definition Conn_CloseWrite :: "crypto \<Rightarrow> goerr option \<Rightarrow> h1_conn \<Rightarrow> goerr option \<times> h1_conn" where
  "Conn_CloseWrite cr half_close c =
     (case h1_WriteEOF cr (hc_writer c) of
        (Some e, fw) \<Rightarrow> (Some e, c\<lparr>hc_writer := fw\<rparr>)
      | (None, fw) \<Rightarrow> (half_close, c\<lparr>hc_writer := fw\<rparr>))"

subsection \<open>Records on the wire\<close>

definition h1_record :: "crypto \<Rightarrow> bytes \<Rightarrow> bytes \<Rightarrow> u64 \<Rightarrow> bytes \<Rightarrow> bytes" where
  "h1_record cr k d s c = putUint16 (word_of_nat (length c + 16)) @ chacha_seal cr k (h1_nonce d s) c []"

fun h1_records :: "crypto \<Rightarrow> bytes \<Rightarrow> bytes \<Rightarrow> u64 \<Rightarrow> bytes list \<Rightarrow> bytes" where
  "h1_records cr k d s [] = []"
| "h1_records cr k d s (c # cs) = h1_record cr k d s c @ h1_records cr k d (s + 1) cs"

definition h1_chunks_ok :: "bytes list \<Rightarrow> bool" where
  "h1_chunks_ok cs \<longleftrightarrow> (\<forall>c \<in> set cs. c \<noteq> [] \<and> length c \<le> h1_MaxChunkPayloadLen)"

lemma h1_chunks_ok_simps [simp]:
  "h1_chunks_ok []" "h1_chunks_ok (c # cs) \<longleftrightarrow> (c \<noteq> [] \<and> length c \<le> h1_MaxChunkPayloadLen) \<and> h1_chunks_ok cs"
  "h1_chunks_ok (as @ bs) \<longleftrightarrow> h1_chunks_ok as \<and> h1_chunks_ok bs"
  by (auto simp: h1_chunks_ok_def)

lemma h1_records_append:
  "h1_records cr k d s (as @ bs) = h1_records cr k d s as @ h1_records cr k d (s + word_of_nat (length as)) bs"
  by (induction as arbitrary: s) (simp_all add: add.assoc)

lemma h1_EncryptChunk_ok:
  "length c \<le> h1_MaxChunkPayloadLen \<Longrightarrow>
   h1_EncryptChunk cr s buf c = (Inr (buf @ h1_record cr (ha_key s) (ha_direction s) (ha_seq s) c), s\<lparr>ha_seq := ha_seq s + 1\<rparr>)"
  by (simp add: h1_EncryptChunk_def h1_record_def)

lemma h1_flush_ok:
  "sink_ok (hw_w fw) \<Longrightarrow> h1_flush buf fw = (None, fw\<lparr>hw_w := (hw_w fw)\<lparr>snk_out := snk_out (hw_w fw) @ buf\<rparr>\<rparr>)"
  by (simp add: h1_flush_def)

lemma h1_write_loop_ok:
  "sink_ok (hw_w fw) \<Longrightarrow>
   \<exists>cs. concat cs = p \<and> h1_chunks_ok cs \<and>
     h1_write_loop cr p n fw = (n + length p, None,
       fw\<lparr>hw_w := (hw_w fw)\<lparr>snk_out := snk_out (hw_w fw) @
            h1_records cr (ha_key (hw_stream fw)) (ha_direction (hw_stream fw)) (ha_seq (hw_stream fw)) cs\<rparr>,
          hw_stream := (hw_stream fw)\<lparr>ha_seq := ha_seq (hw_stream fw) + word_of_nat (length cs)\<rparr>\<rparr>)"
proof (induction "length p" arbitrary: p n fw rule: less_induct)
  case less
  show ?case
  proof (cases "p = []")
    case True
    then show ?thesis by (intro exI [of _ "[]"]) (simp add: h1_write_loop.simps)
  next
    case False
    let ?c = "take h1_MaxChunkPayloadLen p" and ?q = "drop h1_MaxChunkPayloadLen p" and ?s = "hw_stream fw"
    let ?r = "h1_record cr (ha_key ?s) (ha_direction ?s) (ha_seq ?s) ?c"
    define fw1 where "fw1 = fw\<lparr>hw_stream := ?s\<lparr>ha_seq := ha_seq ?s + 1\<rparr>, hw_w := (hw_w fw)\<lparr>snk_out := snk_out (hw_w fw) @ ?r\<rparr>\<rparr>"
    have c: "?c \<noteq> []" "length ?c \<le> h1_MaxChunkPayloadLen" "length ?q < length p" "length ?c + length ?q = length p"
      using False by (auto simp: h1_MaxChunkPayloadLen_def)
    have fw1: "sink_ok (hw_w fw1)" using less.prems by (simp add: fw1_def)
    have step: "h1_write_loop cr p n fw = h1_write_loop cr ?q (n + length ?c) fw1"
      using False less.prems h1_EncryptChunk_ok [OF c(2), of cr ?s "[]"]
      by (simp add: h1_write_loop.simps [of cr p] Let_def h1_flush_ok fw1_def)
    obtain cs where "concat cs = ?q" "h1_chunks_ok cs" "h1_write_loop cr ?q (n + length ?c) fw1 = (n + length ?c + length ?q, None,
       fw1\<lparr>hw_w := (hw_w fw1)\<lparr>snk_out := snk_out (hw_w fw1) @
            h1_records cr (ha_key (hw_stream fw1)) (ha_direction (hw_stream fw1)) (ha_seq (hw_stream fw1)) cs\<rparr>,
          hw_stream := (hw_stream fw1)\<lparr>ha_seq := ha_seq (hw_stream fw1) + word_of_nat (length cs)\<rparr>\<rparr>)"
      using less.hyps [OF c(3) fw1, of "n + length ?c"] by blast
    then show ?thesis using c step
      by (intro exI [of _ "?c # cs"]) (simp add: fw1_def add.assoc)
  qed
qed

subsection \<open>The stream as a byte channel\<close>

definition h1_wrote :: "crypto \<Rightarrow> bytes \<Rightarrow> bytes \<Rightarrow> h1_writer \<Rightarrow> bytes \<Rightarrow> bool" where
  "h1_wrote cr key d fw pl \<longleftrightarrow> crypto_ok cr \<and> \<not> hw_closed fw \<and> sink_ok (hw_w fw) \<and>
     ha_key (hw_stream fw) = key \<and> ha_direction (hw_stream fw) = d \<and>
     (\<exists>cs. snk_out (hw_w fw) = h1_records cr key d 0 cs \<and> concat cs = pl \<and> h1_chunks_ok cs \<and>
        ha_seq (hw_stream fw) = word_of_nat (length cs))"

definition hr_carries :: "crypto \<Rightarrow> h1_reader \<Rightarrow> bytes \<Rightarrow> bool" where
  "hr_carries cr fr pl \<longleftrightarrow> crypto_ok cr \<and> hr_terminal fr = None \<and> src_calm (hr_r fr) \<and>
     (\<exists>cs. pl = hr_dec fr @ concat cs \<and> h1_chunks_ok cs \<and>
        hr_hdr fr @ hr_raw fr @ src_bytes (hr_r fr) =
          h1_records cr (ha_key (hr_stream fr)) (ha_direction (hr_stream fr)) (ha_seq (hr_stream fr)) (cs @ [[]])) \<and>
     length (hr_hdr fr) \<le> 2 \<and> (length (hr_hdr fr) < 2 \<longrightarrow> hr_raw fr = []) \<and>
     (length (hr_hdr fr) = 2 \<longrightarrow> length (hr_raw fr) < unat (getUint16 (hr_hdr fr)))"

definition hr_size :: "h1_reader \<Rightarrow> nat" where
  "hr_size fr = src_size (hr_r fr) + length (hr_hdr fr) + length (hr_raw fr) + length (hr_dec fr)"

lemma h1_first_record:
  assumes "h1_chunks_ok cs"
  obtains c rest where "h1_records cr k d s (cs @ [[]]) = h1_record cr k d s c @ rest"
    "length c \<le> h1_MaxChunkPayloadLen" "c = [] \<longrightarrow> cs = [] \<and> rest = []"
    "c \<noteq> [] \<longrightarrow> (\<exists>ds. cs = c # ds \<and> rest = h1_records cr k d (s + 1) (ds @ [[]]))"
proof (cases cs)
  case Nil
  then show thesis using that [of "[]" "[]"] by simp
next
  case (Cons c ds)
  then show thesis using that [of c "h1_records cr k d (s + 1) (ds @ [[]])"] assms by simp
qed

lemma h1_record_parts:
  assumes "crypto_ok cr" "length c \<le> h1_MaxChunkPayloadLen"
  shows "unat (word_of_nat (length c + 16) :: u16) = length c + 16"
    "length (chacha_seal cr k nn c []) = length c + 16"
    "\<not> h1_MaxChunkWireLen < length c + 16"
proof -
  show "unat (word_of_nat (length c + 16) :: u16) = length c + 16"
    using assms(2) by (subst unat_of_nat) (simp add: h1_MaxChunkPayloadLen_def)
qed (use assms(2) in \<open>simp_all add: crypto_ok_simps [OF assms(1)] h1_MaxChunkPayloadLen_def h1_MaxChunkWireLen_def\<close>)

lemma h1_body_carries:
  assumes c: "hr_carries cr fr pl" and d: "hr_dec fr = []" and h: "length (hr_hdr fr) = 2" and n: "0 < n"
    and rd: "h1_body cr n fr = (bs, e, fr')"
  shows "(soft e \<and> (\<exists>pl'. pl = bs @ pl' \<and> hr_carries cr fr' pl') \<and> hr_size fr' < hr_size fr) \<or>
    (e = Some EOF \<and> bs = [] \<and> pl = [])"
proof -
  let ?k = "ha_key (hr_stream fr)" and ?d = "ha_direction (hr_stream fr)" and ?s = "ha_seq (hr_stream fr)"
  obtain cs where cs: "pl = concat cs" "h1_chunks_ok cs"
    "hr_hdr fr @ hr_raw fr @ src_bytes (hr_r fr) = h1_records cr ?k ?d ?s (cs @ [[]])"
    using c d by (auto simp: hr_carries_def)
  have st: "crypto_ok cr" "hr_terminal fr = None" "src_calm (hr_r fr)"
    "length (hr_raw fr) < unat (getUint16 (hr_hdr fr))" using c h by (auto simp: hr_carries_def)
  obtain a rest where a: "h1_records cr ?k ?d ?s (cs @ [[]]) = h1_record cr ?k ?d ?s a @ rest" "length a \<le> h1_MaxChunkPayloadLen"
    "a = [] \<longrightarrow> cs = [] \<and> rest = []" "a \<noteq> [] \<longrightarrow> (\<exists>ds. cs = a # ds \<and> rest = h1_records cr ?k ?d (?s + 1) (ds @ [[]]))"
    by (rule h1_first_record [OF cs(2), where k = ?k and s = ?s and d = ?d and cr = cr])
  define lb where "lb = putUint16 (word_of_nat (length a + 16))"
  define ct where "ct = chacha_seal cr ?k (h1_nonce ?d ?s) a []"
  note rp = h1_record_parts [OF st(1) a(2)]
  have lct: "length ct = length a + 16" unfolding ct_def by (rule rp(2))
  have "hr_hdr fr @ hr_raw fr @ src_bytes (hr_r fr) = lb @ ct @ rest"
    using cs(3) a(1) by (simp add: lb_def ct_def h1_record_def)
  then have hd: "hr_hdr fr = lb" and body: "hr_raw fr @ src_bytes (hr_r fr) = ct @ rest"
    using h by (auto simp: lb_def append_eq_append_conv)
  have wl: "unat (getUint16 (hr_hdr fr)) = length a + 16" using rp(1) by (simp add: hd lb_def)
  let ?m = "length a + 16 - length (hr_raw fr)"
  obtain rs f r where rf: "readFull ?m (hr_r fr) = (rs, f, r)" by (cases "readFull ?m (hr_r fr)") auto
  have "length (ct @ rest) = length (hr_raw fr) + length (src_bytes (hr_r fr))" using body by (metis length_append)
  then have m: "0 < ?m" "?m \<le> length (src_bytes (hr_r fr))" using st(4) wl lct by auto
  note calm = readFull_calm [OF st(3) m rf] and len = readFull_length [OF rf] and sz = readFull_size [OF rf]
  have max: "\<not> length a + 16 < 16" by simp
  have whole: "(hr_raw fr @ rs) @ src_bytes r = ct @ rest" using body calm(2) by simp
  show ?thesis
  proof (cases f)
    case (Some x)
    have out: "bs = []" "e = Some x" "fr' = fr\<lparr>hr_r := r, hr_raw := hr_raw fr @ rs\<rparr>"
      using rd rf Some calm(3) max rp(3) wl by (auto simp: h1_body_def Let_def h1_readError_def)
    have "length (hr_raw fr @ rs) < length a + 16" using len Some m by auto
    then have "hr_carries cr fr' pl"
      using out st cs d h calm(1,2) wl by (auto simp: hr_carries_def)
    moreover have "hr_size fr' < hr_size fr"
      using readFull_calm_strict [OF st(3) m(2)] rf Some out d by (auto simp: hr_size_def)
    ultimately show ?thesis using out calm(3) Some by auto
  next
    case None
    then have "length (hr_raw fr @ rs) = length ct" using len m lct st(4) wl by auto
    then have full: "hr_raw fr @ rs = ct" "src_bytes r = rest"
      using whole append_eq_append_conv [of "hr_raw fr @ rs" ct] by blast+
    have dec: "h1_DecryptChunk cr (hr_stream fr) ct = (Inr a, (hr_stream fr)\<lparr>ha_seq := ?s + 1\<rparr>)"
      using lct rp(3) by (simp add: h1_DecryptChunk_def ct_def crypto_ok_simps [OF st(1)])
    let ?fr = "fr\<lparr>hr_r := r, hr_stream := (hr_stream fr)\<lparr>ha_seq := ?s + 1\<rparr>, hr_hdr := [], hr_raw := []\<rparr>"
    show ?thesis
    proof (cases "a = []")
      case True
      then have "e = Some EOF" "bs = []" using rd rf None max rp(3) wl full dec by (auto simp: h1_body_def Let_def)
      then show ?thesis using a(3) True cs(1) by auto
    next
      case False
      then have out: "bs = take n a" "e = None" "fr' = ?fr\<lparr>hr_dec := drop n a\<rparr>"
        using rd rf None max rp(3) wl full dec by (auto simp: h1_body_def Let_def)
      obtain ds where ds: "cs = a # ds" "rest = h1_records cr ?k ?d (?s + 1) (ds @ [[]])" using a(4) False by blast
      have "hr_carries cr fr' (drop n a @ concat ds)"
        using out st calm(1) cs(2) ds full(2) by (auto simp: hr_carries_def)
      moreover have "hr_size fr' < hr_size fr"
      proof -
        have "hr_size fr' \<le> src_size r + length a" using out by (simp add: hr_size_def)
        moreover have "length rs = ?m" using len None by simp
        ultimately show ?thesis using sz m(1) by (simp add: hr_size_def)
      qed
      moreover have "pl = bs @ drop n a @ concat ds" using out(1) cs(1) ds(1) by simp
      ultimately show ?thesis using out(2) by auto
    qed
  qed
qed

lemma h1_Read_carries:
  assumes c: "hr_carries cr fr pl" and n: "0 < n" and rd: "h1_Read cr n fr = (bs, e, fr')"
  shows "(soft e \<and> (\<exists>pl'. pl = bs @ pl' \<and> hr_carries cr fr' pl') \<and> hr_size fr' < hr_size fr) \<or>
    (e = Some EOF \<and> bs = [] \<and> pl = [])"
proof (cases "hr_dec fr = []")
  case False
  obtain cs where cs: "pl = hr_dec fr @ concat cs" using c by (auto simp: hr_carries_def)
  have out: "bs = take n (hr_dec fr)" "e = None" "fr' = fr\<lparr>hr_dec := drop n (hr_dec fr)\<rparr>"
    using rd n False by (auto simp: h1_Read_def)
  have "hr_carries cr fr' (drop n (hr_dec fr) @ concat cs)"
    using c cs out by (auto simp: hr_carries_def)
  moreover have "pl = bs @ drop n (hr_dec fr) @ concat cs" using cs out(1) by simp
  moreover have "hr_size fr' < hr_size fr" using out(3) n False by (simp add: hr_size_def)
  ultimately show ?thesis using out(2) by auto
next
  case d: True
  have st: "hr_terminal fr = None" "src_calm (hr_r fr)" "crypto_ok cr" using c by (auto simp: hr_carries_def)
  show ?thesis
  proof (cases "length (hr_hdr fr) < 2")
    case False
    then have h: "length (hr_hdr fr) = 2" using c by (auto simp: hr_carries_def)
    then have "h1_body cr n fr = (bs, e, fr')" using rd n d st by (simp add: h1_Read_def)
    then show ?thesis by (rule h1_body_carries [OF c d h n])
  next
    case h: True
    let ?m = "2 - length (hr_hdr fr)" and ?k = "ha_key (hr_stream fr)" and ?d = "ha_direction (hr_stream fr)" and ?s = "ha_seq (hr_stream fr)"
    obtain hs f r where rf: "readFull ?m (hr_r fr) = (hs, f, r)" by (cases "readFull ?m (hr_r fr)") auto
    obtain cs where cs: "pl = concat cs" "h1_chunks_ok cs"
      "hr_hdr fr @ src_bytes (hr_r fr) = h1_records cr ?k ?d ?s (cs @ [[]])" "hr_raw fr = []"
      using c d h by (auto simp: hr_carries_def)
    obtain a rest where a: "h1_records cr ?k ?d ?s (cs @ [[]]) = h1_record cr ?k ?d ?s a @ rest" "length a \<le> h1_MaxChunkPayloadLen"
      by (rule h1_first_record [OF cs(2), where k = ?k and s = ?s and d = ?d and cr = cr])
    note rp = h1_record_parts [OF st(3) a(2)]
    have whole: "hr_hdr fr @ src_bytes (hr_r fr) = putUint16 (word_of_nat (length a + 16)) @ chacha_seal cr ?k (h1_nonce ?d ?s) a [] @ rest"
      using cs(3) a(1) by (simp add: h1_record_def)
    have "2 \<le> length (hr_hdr fr) + length (src_bytes (hr_r fr))" using arg_cong [OF whole, of length] by simp
    then have k: "0 < ?m" "?m \<le> length (src_bytes (hr_r fr))" using h by auto
    note calm = readFull_calm [OF st(2) k rf] and len = readFull_length [OF rf] and sz = readFull_size [OF rf]
    let ?fr = "fr\<lparr>hr_r := r, hr_hdr := hr_hdr fr @ hs\<rparr>"
    show ?thesis
    proof (cases f)
      case (Some x)
      have out: "bs = []" "e = Some x" "fr' = ?fr"
        using rd rf Some n d st h calm(3) by (auto simp: h1_Read_def h1_readError_def)
      have "hr_carries cr fr' pl" using out st cs d h calm(1,2) len Some by (auto simp: hr_carries_def)
      moreover have "hr_size fr' < hr_size fr"
        using readFull_calm_strict [OF st(2) k(2)] rf Some out(3) by (auto simp: hr_size_def)
      ultimately show ?thesis using out calm(3) Some by auto
    next
      case None
      have l: "length (hr_hdr fr @ hs) = 2" using len None h by auto
      have "(hr_hdr fr @ hs) @ src_bytes r = putUint16 (word_of_nat (length a + 16)) @ chacha_seal cr ?k (h1_nonce ?d ?s) a [] @ rest"
        using whole calm(2) by simp
      then have "hr_hdr fr @ hs = putUint16 (word_of_nat (length a + 16))"
        using l append_eq_append_conv [of "hr_hdr fr @ hs" "putUint16 (word_of_nat (length a + 16))"] by simp
      then have "0 < unat (getUint16 (hr_hdr fr @ hs))" using rp(1) by simp
      then have car: "hr_carries cr ?fr pl" using st cs d calm(1,2) l by (auto simp: hr_carries_def)
      have "h1_body cr n ?fr = (bs, e, fr')" using rd rf None n d st h by (simp add: h1_Read_def)
      from h1_body_carries [OF car _ _ n this] d l have
        "(soft e \<and> (\<exists>pl'. pl = bs @ pl' \<and> hr_carries cr fr' pl') \<and> hr_size fr' < hr_size ?fr) \<or> (e = Some EOF \<and> bs = [] \<and> pl = [])"
        by simp
      moreover have "hr_size ?fr \<le> hr_size fr" using sz by (simp add: hr_size_def)
      ultimately show ?thesis by auto
    qed
  qed
qed

lemma h1_Write_wrote:
  assumes "h1_wrote cr key d fw pl" "h1_Write cr p fw = (n, e, fw')"
  shows "n = length p \<and> e = None \<and> h1_wrote cr key d fw' (pl @ p)"
proof -
  obtain ds where ds: "snk_out (hw_w fw) = h1_records cr key d 0 ds" "concat ds = pl" "h1_chunks_ok ds"
    "ha_seq (hw_stream fw) = word_of_nat (length ds)"
    and st: "crypto_ok cr" "\<not> hw_closed fw" "sink_ok (hw_w fw)" "ha_key (hw_stream fw) = key" "ha_direction (hw_stream fw) = d"
    using assms(1) by (auto simp: h1_wrote_def)
  from h1_write_loop_ok [OF st(3), of p cr 0] obtain cs where
    "concat cs = p" "h1_chunks_ok cs" "n = length p" "e = None"
    "fw' = fw\<lparr>hw_w := (hw_w fw)\<lparr>snk_out := snk_out (hw_w fw) @ h1_records cr key d (ha_seq (hw_stream fw)) cs\<rparr>,
          hw_stream := (hw_stream fw)\<lparr>ha_seq := ha_seq (hw_stream fw) + word_of_nat (length cs)\<rparr>\<rparr>"
    using assms(2) st by (auto simp: h1_Write_def)
  then show ?thesis using st ds
    by (auto simp: h1_wrote_def h1_records_append intro!: exI [of _ "ds @ cs"])
qed

lemma h1_WriteEOF_carries:
  assumes "h1_wrote cr key d fw pl" "h1_WriteEOF cr fw = (e, fw')"
  shows "e = None \<and> (\<forall>src. src_calm src \<longrightarrow> src_bytes src = snk_out (hw_w fw') \<longrightarrow>
    hr_carries cr (h1_NewFramedReader src (h1_NewAEADStream key d)) pl)"
proof -
  obtain ds where ds: "snk_out (hw_w fw) = h1_records cr key d 0 ds" "concat ds = pl" "h1_chunks_ok ds"
    "ha_seq (hw_stream fw) = word_of_nat (length ds)"
    and st: "crypto_ok cr" "\<not> hw_closed fw" "sink_ok (hw_w fw)" "ha_key (hw_stream fw) = key" "ha_direction (hw_stream fw) = d"
    using assms(1) by (auto simp: h1_wrote_def)
  have "e = None" "snk_out (hw_w fw') = h1_records cr key d 0 (ds @ [[]])"
    using assms(2) st ds(1,4) h1_EncryptChunk_ok [of "[]" cr "hw_stream fw" "[]"]
    by (auto simp: h1_WriteEOF_def h1_flush_ok h1_records_append)
  then show ?thesis using ds st(1) by (auto simp: hr_carries_def h1_NewFramedReader_def h1_NewAEADStream_def)
qed

text \<open>The stream key and direction label of the side that writes.\<close>

definition conn_key :: "bytes \<Rightarrow> bytes \<Rightarrow> bool \<Rightarrow> bytes" where
  "conn_key clientKey serverKey isClient = (if isClient then clientKey else serverKey)"

definition conn_dir :: "bool \<Rightarrow> bytes" where
  "conn_dir isClient = (if isClient then h1_DirClientToServer else h1_DirServerToClient)"

interpretation h1_stream: byte_channel
  "Conn_Read cr" "\<lambda>c. hr_carries cr (hc_reader c)" "\<lambda>c. hr_size (hc_reader c)" bound
  "Conn_Write cr" "Conn_CloseWrite cr None" "\<lambda>c. snk_out (hw_w (hc_writer c))"
  "\<lambda>c. h1_wrote cr (conn_key ck sk isClient) (conn_dir isClient) (hc_writer c)"
  "\<lambda>src. NewConn src snk ck sk (\<not> isClient)" "\<lambda>_. True"
  for cr ck sk isClient snk bound
proof
  show "\<not> isTimeout EOF" by simp
next
  fix r pl n bs e r'
  assume a: "hr_carries cr (hc_reader r) pl" "0 < n" "Conn_Read cr n r = (bs, e, r')"
  obtain fr where "h1_Read cr n (hc_reader r) = (bs, e, fr)" "hc_reader r' = fr"
    using a(3) by (auto simp: Conn_Read_def split: prod.splits)
  then show "(soft e \<and> (\<exists>pl'. pl = bs @ pl' \<and> hr_carries cr (hc_reader r') pl') \<and> hr_size (hc_reader r') < hr_size (hc_reader r)) \<or>
    (e = Some EOF \<and> bs = [] \<and> pl = [])" using h1_Read_carries [OF a(1,2)] by blast
next
  fix w pl p n e w'
  assume a: "h1_wrote cr (conn_key ck sk isClient) (conn_dir isClient) (hc_writer w) pl" "Conn_Write cr p w = (n, e, w')"
  obtain fw where "h1_Write cr p (hc_writer w) = (n, e, fw)" "hc_writer w' = fw"
    using a(2) by (auto simp: Conn_Write_def split: prod.splits)
  then show "n = length p \<and> e = None \<and> h1_wrote cr (conn_key ck sk isClient) (conn_dir isClient) (hc_writer w') (pl @ p)"
    using h1_Write_wrote [OF a(1)] by blast
next
  fix w pl e w'
  assume a: "h1_wrote cr (conn_key ck sk isClient) (conn_dir isClient) (hc_writer w) pl" "Conn_CloseWrite cr None w = (e, w')"
  have "h1_WriteEOF cr (hc_writer w) = (e, hc_writer w')"
    using a(2) by (auto simp: Conn_CloseWrite_def split: prod.splits option.splits)
  from h1_WriteEOF_carries [OF a(1) this]
  show "e = None \<and> (\<forall>src. src_calm src \<longrightarrow> src_bytes src = snk_out (hw_w (hc_writer w')) \<longrightarrow>
    hr_carries cr (hc_reader (NewConn src snk ck sk (\<not> isClient))) pl)"
    by (cases isClient) (simp_all add: NewConn_def conn_key_def conn_dir_def Let_def)
qed auto

subsection \<open>Only sealed records are delivered\<close>

text \<open>Unread input including the partial header and record.\<close>

definition hr_input :: "h1_reader \<Rightarrow> bytes" where
  "hr_input fr = hr_hdr fr @ hr_raw fr @ src_bytes (hr_r fr)"

definition hr_wf :: "h1_reader \<Rightarrow> bool" where
  "hr_wf fr \<longleftrightarrow> hr_terminal fr = None \<and> length (hr_hdr fr) \<le> 2 \<and>
     (length (hr_hdr fr) < 2 \<longrightarrow> hr_raw fr = []) \<and>
     (length (hr_hdr fr) = 2 \<longrightarrow> length (hr_raw fr) \<le> unat (getUint16 (hr_hdr fr)))"

text \<open>The possible outcomes of one read of an empty buffer, for every behaviour of the connection.\<close>

definition hr_outcome :: "crypto \<Rightarrow> h1_reader \<Rightarrow> bytes \<times> goerr option \<times> h1_reader \<Rightarrow> bool" where
  "hr_outcome cr fr res \<longleftrightarrow> (case res of (bs, e, fr') \<Rightarrow>
     (soft e \<and> hr_wf fr' \<and> bs = [] \<and> hr_dec fr' = [] \<and> hr_stream fr' = hr_stream fr \<and> hr_input fr' = hr_input fr) \<or>
     (\<exists>a. soft e \<and> hr_wf fr' \<and> bs @ hr_dec fr' = a \<and>
        hr_input fr = h1_record cr (ha_key (hr_stream fr)) (ha_direction (hr_stream fr)) (ha_seq (hr_stream fr)) a @ hr_input fr' \<and>
        hr_stream fr' = (hr_stream fr)\<lparr>ha_seq := ha_seq (hr_stream fr) + 1\<rparr>) \<or>
     (e = Some EOF \<and> bs = [] \<and>
        hr_input fr = h1_record cr (ha_key (hr_stream fr)) (ha_direction (hr_stream fr)) (ha_seq (hr_stream fr)) [] @ hr_input fr') \<or>
     (\<not> soft e \<and> e \<noteq> Some EOF))"

lemma h1_readError_outcome:
  "hr_wf fr' \<Longrightarrow> hr_dec fr' = [] \<Longrightarrow> hr_stream fr' = hr_stream fr \<Longrightarrow> hr_input fr' = hr_input fr \<Longrightarrow>
   hr_outcome cr fr (h1_readError err fr')"
  by (auto simp: hr_outcome_def h1_readError_def Let_def)

lemma h1_opened_record:
  assumes cr: "crypto_ok cr" and h: "length hdr = 2" and l: "length raw = unat (getUint16 hdr)"
    and d: "h1_DecryptChunk cr s raw = (Inr a, s')"
  shows "hdr @ raw = h1_record cr (ha_key s) (ha_direction s) (ha_seq s) a" "s' = s\<lparr>ha_seq := ha_seq s + 1\<rparr>"
proof -
  have g: "chacha_open cr (ha_key s) (h1_nonce (ha_direction s) (ha_seq s)) raw [] = Some a" "s' = s\<lparr>ha_seq := ha_seq s + 1\<rparr>"
    using d by (auto simp: h1_DecryptChunk_def split: if_splits option.splits)
  have raw: "raw = chacha_seal cr (ha_key s) (h1_nonce (ha_direction s) (ha_seq s)) a []" by (rule crypto_ok_tidy(3) [OF cr g(1)])
  then have la: "length a + 16 = unat (getUint16 hdr)" using l crypto_ok_simps(7) [OF cr] by metis
  have "putUint16 (word_of_nat (length a + 16)) = hdr" unfolding la using h by simp
  then show "hdr @ raw = h1_record cr (ha_key s) (ha_direction s) (ha_seq s) a" using raw by (simp add: h1_record_def)
  show "s' = s\<lparr>ha_seq := ha_seq s + 1\<rparr>" by (rule g(2))
qed

lemma h1_body_outcome:
  assumes cr: "crypto_ok cr" and wf: "hr_wf fr" and d: "hr_dec fr = []" and h: "length (hr_hdr fr) = 2"
  shows "hr_outcome cr fr (h1_body cr n fr)"
proof -
  let ?wl = "unat (getUint16 (hr_hdr fr))"
  obtain rs f r where rf: "readFull (?wl - length (hr_raw fr)) (hr_r fr) = (rs, f, r)"
    by (cases "readFull (?wl - length (hr_raw fr)) (hr_r fr)") auto
  note len = readFull_length [OF rf] and bts = readFull_bytes [OF rf]
  have w: "hr_terminal fr = None" "length (hr_raw fr) \<le> ?wl" using wf h by (auto simp: hr_wf_def)
  let ?fr = "fr\<lparr>hr_r := r, hr_raw := hr_raw fr @ rs\<rparr>"
  consider (bad) "?wl < 16 \<or> h1_MaxChunkWireLen < ?wl" | (err) x where "\<not> (?wl < 16 \<or> h1_MaxChunkWireLen < ?wl)" "f = Some x"
    | (full) "\<not> (?wl < 16 \<or> h1_MaxChunkWireLen < ?wl)" "f = None" by (cases f) auto
  then show ?thesis
  proof cases
    case bad
    then show ?thesis by (auto simp: h1_body_def hr_outcome_def Let_def h1_ErrDecryptionFailed_def h1_ErrChunkTooLarge_def)
  next
    case err
    have "hr_outcome cr fr (h1_readError x ?fr)"
      by (rule h1_readError_outcome) (use wf w d h len bts in \<open>auto simp: hr_wf_def hr_input_def\<close>)
    then show ?thesis using err rf by (simp add: h1_body_def Let_def)
  next
    case full
    then have lr: "length (hr_raw fr @ rs) = ?wl" using len w(2) by simp
    obtain res s where ds: "h1_DecryptChunk cr (hr_stream fr) (hr_raw fr @ rs) = (res, s)"
      by (cases "h1_DecryptChunk cr (hr_stream fr) (hr_raw fr @ rs)")
    show ?thesis
    proof (cases res)
      case (Inl e)
      then have "\<not> isTimeout e" "e \<noteq> EOF"
        using ds by (auto simp: h1_DecryptChunk_def h1_ErrDecryptionFailed_def h1_ErrChunkTooLarge_def split: if_splits option.splits)
      then show ?thesis using full rf ds Inl by (simp add: h1_body_def hr_outcome_def Let_def)
    next
      case (Inr a)
      note op = h1_opened_record [OF cr h lr ds [unfolded Inr]]
      have inp: "hr_input fr = h1_record cr (ha_key (hr_stream fr)) (ha_direction (hr_stream fr)) (ha_seq (hr_stream fr)) a @ src_bytes r"
        unfolding hr_input_def bts op(1) [symmetric] by simp
      let ?new = "?fr\<lparr>hr_stream := s, hr_hdr := [], hr_raw := []\<rparr>"
      have res: "h1_body cr n fr = (if a = [] then ([], Some EOF, ?new\<lparr>hr_terminal := Some EOF\<rparr>)
          else (take n a, None, ?new\<lparr>hr_dec := drop n a\<rparr>))"
        using full rf ds Inr by (simp add: h1_body_def Let_def)
      have new: "hr_input (?new\<lparr>hr_terminal := Some EOF\<rparr>) = src_bytes r" "hr_input (?new\<lparr>hr_dec := drop n a\<rparr>) = src_bytes r"
        "hr_wf (?new\<lparr>hr_dec := drop n a\<rparr>)" using w by (auto simp: hr_input_def hr_wf_def)
      show ?thesis unfolding res hr_outcome_def using inp new op(2) by simp
    qed
  qed
qed

lemma h1_Read_outcome:
  assumes cr: "crypto_ok cr" and wf: "hr_wf fr" and d: "hr_dec fr = []" and n: "0 < n"
  shows "hr_outcome cr fr (h1_Read cr n fr)"
proof (cases "length (hr_hdr fr) < 2")
  case False
  then have h: "length (hr_hdr fr) = 2" using wf by (auto simp: hr_wf_def)
  then show ?thesis using h1_body_outcome [OF cr wf d h, of n] wf d n by (simp add: h1_Read_def hr_wf_def)
next
  case True
  obtain hs f r where rf: "readFull (2 - length (hr_hdr fr)) (hr_r fr) = (hs, f, r)"
    by (cases "readFull (2 - length (hr_hdr fr)) (hr_r fr)") auto
  note len = readFull_length [OF rf] and bts = readFull_bytes [OF rf]
  let ?fr = "fr\<lparr>hr_r := r, hr_hdr := hr_hdr fr @ hs\<rparr>"
  have w: "hr_terminal fr = None" "hr_raw fr = []" using wf True by (auto simp: hr_wf_def)
  have wf': "hr_wf ?fr" "hr_input ?fr = hr_input fr"
    using w len True bts by (auto simp: hr_wf_def hr_input_def)
  show ?thesis
  proof (cases f)
    case (Some x)
    have "hr_outcome cr fr (h1_readError x ?fr)" by (rule h1_readError_outcome) (use wf' d in auto)
    then show ?thesis using Some rf True w d n by (simp add: h1_Read_def)
  next
    case None
    then have "length (hr_hdr ?fr) = 2" using len True by simp
    from h1_body_outcome [OF cr wf'(1) _ this, of n] d wf'(2)
    have "hr_outcome cr fr (h1_body cr n ?fr)" by (simp add: hr_outcome_def)
    then show ?thesis using None rf True w d n by (simp add: h1_Read_def)
  qed
qed

lemma h1_Read_buffered:
  assumes "hr_dec fr \<noteq> []" "0 < n" "h1_Read cr n fr = (bs, e, fr')"
  shows "soft e" "hr_wf fr' = hr_wf fr" "bs @ hr_dec fr' = hr_dec fr" "hr_stream fr' = hr_stream fr" "hr_input fr' = hr_input fr"
  using assms by (auto simp: h1_Read_def hr_wf_def hr_input_def)

definition h1_seal :: "crypto \<Rightarrow> h1_aead \<Rightarrow> bytes \<Rightarrow> bytes" where
  "h1_seal cr s = h1_record cr (ha_key s) (ha_direction s) (ha_seq s)"

definition h1_next :: "h1_aead \<Rightarrow> h1_aead" where
  "h1_next s = s\<lparr>ha_seq := ha_seq s + 1\<rparr>"

lemma h1_sealed_run: "sealed_run (h1_seal cr) h1_next s cs = h1_records cr (ha_key s) (ha_direction s) (ha_seq s) cs"
  by (induction cs arbitrary: s) (simp_all add: h1_seal_def h1_next_def)

interpretation h1_sealed: authentic_reader "h1_Read cr" "\<lambda>fr. hr_wf fr \<and> crypto_ok cr" hr_dec hr_input hr_stream "h1_seal cr" h1_next
  for cr
proof
  fix r n bs e r'
  assume a: "hr_wf r \<and> crypto_ok cr" "hr_dec r \<noteq> []" "0 < n" "h1_Read cr n r = (bs, e, r')"
  show "soft e \<and> (hr_wf r' \<and> crypto_ok cr) \<and> bs @ hr_dec r' = hr_dec r \<and> hr_stream r' = hr_stream r \<and> hr_input r' = hr_input r"
    using h1_Read_buffered [OF a(2,3,4)] a(1) by simp
next
  fix r n bs e r'
  assume "hr_wf r \<and> crypto_ok cr" "hr_dec r = []" "0 < n" "h1_Read cr n r = (bs, e, r')"
  then show "(soft e \<and> (hr_wf r' \<and> crypto_ok cr) \<and> bs = [] \<and> hr_dec r' = [] \<and> hr_stream r' = hr_stream r \<and> hr_input r' = hr_input r) \<or>
    (soft e \<and> (hr_wf r' \<and> crypto_ok cr) \<and> hr_input r = h1_seal cr (hr_stream r) (bs @ hr_dec r') @ hr_input r' \<and> hr_stream r' = h1_next (hr_stream r)) \<or>
    (e = Some EOF \<and> bs = [] \<and> hr_input r = h1_seal cr (hr_stream r) [] @ hr_input r') \<or>
    (\<not> soft e \<and> e \<noteq> Some EOF)"
    using h1_Read_outcome [of cr r n] unfolding hr_outcome_def h1_seal_def h1_next_def by simp
qed

subsection \<open>Addresses in the OPEN frame\<close>

lemma h1_encode_address_cases:
  assumes "h1_encode_address a = Inr w"
  obtains h t v port where "SplitHostPort a = Inr (h, t)" "parsePort 1 t = Inr port"
    "encodeHost ''h1session: invalid domain host length'' h = Inr v" "w = v @ putUint16 port"
    "canonAddr a = JoinHostPort (canonHost h) (Itoa (unat port))"
proof -
  obtain h t v port where p: "SplitHostPort a = Inr (h, t)" "parsePort 1 t = Inr port"
    "encodeHost ''h1session: invalid domain host length'' h = Inr v" "w = v @ putUint16 port"
    using assms by (auto simp: h1_encode_address_def split: sum.splits prod.splits)
  moreover have "canonAddr a = JoinHostPort (canonHost h) (Itoa (unat port))"
    using p(1) parsePort_value(1) [OF p(2)] by (simp add: canonAddr_def)
  ultimately show thesis by (rule that)
qed

lemma h1_open_rest_host:
  assumes "length pre = off"
  shows "h1_open_rest (pre @ putUint16 port @ rest) host off = Inr (JoinHostPort host (Itoa (unat port)), rest)"
  using assms by (simp add: h1_open_rest_def Let_def gslice_def)

interpretation h1_addr: addr_codec h1_encode_address "\<lambda>b. DecodeOpenFrame (CmdConnectTCP # b)" canonAddr
  "\<lambda>w rest. 6 \<le> length (w @ rest)"
proof
  fix a w rest
  assume w: "h1_encode_address a = Inr w" and six: "6 \<le> length (w @ rest)"
  obtain h v port where p: "encodeHost ''h1session: invalid domain host length'' h = Inr v" "w = v @ putUint16 port"
    "canonAddr a = JoinHostPort (canonHost h) (Itoa (unat port))" by (rule h1_encode_address_cases [OF w])
  from p(1) show "DecodeOpenFrame (CmdConnectTCP # w @ rest) = Inr (canonAddr a, rest)"
  proof (cases rule: encodeHost_cases)
    case (v4 q)
    then show ?thesis using p h1_open_rest_host [of "CmdConnectTCP # 1 # q" 6 port rest "IP_String q"]
      by (simp add: DecodeOpenFrame_def gslice_def)
  next
    case (v6 ip)
    then show ?thesis using p h1_open_rest_host [of "CmdConnectTCP # 4 # ip" 18 port rest "IP_String ip"]
      by (simp add: DecodeOpenFrame_def gslice_def)
  next
    case dom
    then show ?thesis using p six h1_open_rest_host [of "CmdConnectTCP # 3 # word_of_nat (length h) # h" "3 + length h" port rest h]
      by (simp add: DecodeOpenFrame_def gslice_def Let_def)
  qed
qed

lemma drain_Conn_Read: "drain (Conn_Read cr) fuel n c = drain (h1_Read cr) fuel n (hc_reader c)"
  by (induction fuel arbitrary: c) (auto simp: Conn_Read_def split: prod.split)

subsection \<open>Properties of the session\<close>

text \<open>Over a connection that carries every byte, whatever either side of an H1 session writes to its
\<open>Conn\<close> and ends with \<open>CloseWrite\<close> is what the peer, constructed with the same two keys and the
opposite role, reads, followed by \<open>io.EOF\<close>, for every split into reads and every recoverable timeout.\<close>
theorem h1_conn_roundtrip:
  assumes "crypto_ok cr" "sink_ok s" "snk_out s = []"
    and "write_all (Conn_Write cr) ps (NewConn src0 s ck sk isClient) = (e1, c1)"
    and "Conn_CloseWrite cr None c1 = (e2, c2)" "src_calm src" "src_bytes src = snk_out (hw_w (hc_writer c2))" "0 < n"
  shows "e1 = None \<and> e2 = None \<and>
    drain (Conn_Read cr) (Suc (src_size src)) n (NewConn src snk ck sk (\<not> isClient)) = Some (concat ps, EOF)"
proof (rule h1_stream.roundtrip [OF _ _ assms(4,5,6,7,8)])
  show "h1_wrote cr (conn_key ck sk isClient) (conn_dir isClient) (hc_writer (NewConn src0 s ck sk isClient)) []"
    using assms(1,2,3) by (cases isClient)
      (auto simp: h1_wrote_def NewConn_def conn_key_def conn_dir_def h1_NewFramedWriter_def h1_NewAEADStream_def intro!: exI [of _ "[]"])
  show "n \<le> n" ..
  show "hr_size (hc_reader (NewConn src snk ck sk (\<not> isClient))) < Suc (src_size src)"
    by (simp add: hr_size_def NewConn_def h1_NewFramedReader_def Let_def)
qed simp

theorem h1_conn_roundtrip_witness:
  "\<exists>c1 c2. write_all (Conn_Write toy_crypto) [[7, 8], [], [9]] (NewConn [] \<lparr>snk_out = [], snk_resp = []\<rparr> [1] [2] False) = (None, c1) \<and>
     Conn_CloseWrite toy_crypto None c1 = (None, c2) \<and>
     (let out = snk_out (hw_w (hc_writer c2)); src = [(take 5 out, Some (Timeout 0)), (drop 5 out, None)]
      in drain (Conn_Read toy_crypto) (Suc (src_size src)) 1 (NewConn src \<lparr>snk_out = [], snk_resp = []\<rparr> [1] [2] True) = Some ([7, 8, 9], EOF))"
proof -
  let ?k = "\<lparr>snk_out = [], snk_resp = []\<rparr>"
  let ?w = "write_all (Conn_Write toy_crypto) [[7, 8], [], [9]] (NewConn [] ?k [1] [2] False)"
  obtain e1 c1 where w1: "?w = (e1, c1)" by (cases ?w)
  obtain e2 c2 where w2: "Conn_CloseWrite toy_crypto None c1 = (e2, c2)" by (cases "Conn_CloseWrite toy_crypto None c1")
  let ?out = "snk_out (hw_w (hc_writer c2))"
  let ?src = "[(take 5 ?out, Some (Timeout 0)), (drop 5 ?out, None)]"
  have "e1 = None \<and> e2 = None \<and> drain (Conn_Read toy_crypto) (Suc (src_size ?src)) 1 (NewConn ?src ?k [1] [2] (\<not> False))
      = Some (concat [[7, 8], [], [9]], EOF)"
    by (rule h1_conn_roundtrip [OF toy_crypto_ok _ _ w1 w2]) (simp_all add: sink_ok_def)
  moreover have "concat [[7, 8], [], [9]] = [7, 8, 9 :: byte]" by simp
  ultimately show ?thesis using w1 w2 unfolding Let_def by (metis (no_types, lifting))
qed

lemma h1_match_loop_finds:
  assumes "i < length keys" "32 \<le> length (keys ! i)"
    "gslice 32 48 record = h1_client_tag cr (keys ! i) (gslice 0 8 record) (gslice 8 32 record)"
  obtains j where "j \<le> i" "h1_match_loop cr record k keys = Some (k + j)"
    "gslice 32 48 record = h1_client_tag cr (keys ! j) (gslice 0 8 record) (gslice 8 32 record)"
  using assms
proof (induction keys arbitrary: i k thesis)
  case Nil
  then show ?case by simp
next
  case (Cons psk keys)
  show ?case
  proof (cases "32 \<le> length psk \<and> gslice 32 48 record = h1_client_tag cr psk (gslice 0 8 record) (gslice 8 32 record)")
    case True
    then show ?thesis using Cons.prems(1) [of 0] by (simp add: hmac_Equal_def)
  next
    case False
    then obtain i' where i: "i = Suc i'" using Cons.prems by (cases i) auto
    have step: "h1_match_loop cr record k (psk # keys) = h1_match_loop cr record (Suc k) keys"
      using False by (auto simp: hmac_Equal_def)
    show ?thesis
    proof (rule Cons.IH [of i' "Suc k"])
      fix j
      assume "j \<le> i'" "h1_match_loop cr record (Suc k) keys = Some (Suc k + j)"
        "gslice 32 48 record = h1_client_tag cr (keys ! j) (gslice 0 8 record) (gslice 8 32 record)"
      then show thesis using Cons.prems(1) [of "Suc j"] step i by simp
    qed (use Cons.prems i in auto)
  qed
qed

lemma h1_CreateClientHello_record:
  assumes "h1_CreateClientHello cr rnd psk now = (Inr (hello, nonce, ts), rnd')" "crypto_ok cr"
  shows "32 \<le> length psk" "length nonce = 24" "ts = now" "length hello = 48" "gslice 0 8 hello = putUint64 now"
    "gslice 8 32 hello = nonce" "gslice 32 48 hello = h1_client_tag cr psk (putUint64 now) nonce"
proof -
  obtain r where rf: "readFull 24 rnd = (nonce, None, r)" and psk: "32 \<le> length psk" and ts: "ts = now"
    and h: "hello = putUint64 now @ nonce @ h1_client_tag cr psk (putUint64 now) nonce"
    using assms(1) by (auto simp: h1_CreateClientHello_def Let_def split: if_splits prod.splits option.splits)
  have l: "length nonce = 24" "length (h1_client_tag cr psk (putUint64 now) nonce) = 16"
    using readFull_length [OF rf] by (simp_all add: h1_client_tag_def crypto_ok_simps [OF assms(2)])
  show "32 \<le> length psk" "length nonce = 24" "ts = now" by (fact psk l(1) ts)+
  show "length hello = 48" "gslice 0 8 hello = putUint64 now" "gslice 8 32 hello = nonce"
    "gslice 32 48 hello = h1_client_tag cr psk (putUint64 now) nonce" using l by (simp_all add: h gslice_def)
qed

text \<open>
  The H1 handshake agrees. A ClientHello made with the key of user \<open>k\<close> is matched by every
  server whose clock is within 90 seconds and whose user list has that key: the match reports the client's
  nonce and time and the first user whose key gives the same tag. The server's reply under that key is accepted by the client, and both
  derive the same pair of session keys.
\<close>

lemma h1_client_hello_matched:
  assumes "crypto_ok cr" "h1_CreateClientHello cr rnd psk now = (Inr (hello, nonce, ts), rnd')"
    and "k < length keys" "keys ! k = psk" "\<bar>int64_diff now' now\<bar> \<le> 90"
  shows "\<exists>j \<le> k. MatchClientHello cr keys hello now' = Inr (j, nonce, now) \<and>
      h1_client_tag cr (keys ! j) (putUint64 now) nonce = h1_client_tag cr psk (putUint64 now) nonce"
proof -
  note r = h1_CreateClientHello_record [OF assms(2,1)]
  obtain j where j: "j \<le> k" "h1_match_loop cr hello 0 keys = Some (0 + j)"
    "gslice 32 48 hello = h1_client_tag cr (keys ! j) (gslice 0 8 hello) (gslice 8 32 hello)"
    by (rule h1_match_loop_finds [of k keys hello cr 0]) (use assms(3,4) r in auto)
  have "MatchClientHello cr keys hello now' = Inr (j, nonce, now)"
    using j(2) r assms(5) by (simp add: MatchClientHello_def h1_ClientHelloSize_def h1_MaxTimestampSkew_def Let_def abs_le_iff not_less)
  then show ?thesis using j r by auto
qed

lemma h1_server_hello_accepted:
  assumes "crypto_ok cr" "h1_CreateServerHello cr rnd psk nonce = (Inr (serverHello, clientKey, serverKey), rnd')"
  shows "h1_VerifyServerHello cr psk nonce serverHello = Inr (clientKey, serverKey)"
proof -
  obtain serverNonce tag r2 where s: "readFull 24 rnd = (serverNonce, None, r2)"
    "deriveKeys cr psk nonce serverNonce = (clientKey, serverKey, tag)" "serverHello = serverNonce @ tag"
    using assms(2) by (auto simp: h1_CreateServerHello_def split: prod.splits option.splits)
  have "length serverNonce = 24" "length tag = 16" using readFull_length [OF s(1)] s(2) by (auto simp: deriveKeys_def Let_def)
  then show ?thesis using s(2,3) by (simp add: h1_VerifyServerHello_def h1_ServerHelloSize_def gslice_def hmac_Equal_def)
qed

text \<open>The first flight opens the requested destination. What the client encodes as OPEN frame and
seals under its 0-RTT key is carried with a correct length prefix, is opened by the server under the same
key, and decodes to the canonical destination and the early data. The one exception is a frame shorter
than seven bytes (a one-character domain without early data), which the decoder refuses.\<close>
lemma h1_open_flight:
  assumes "crypto_ok cr" "EncodeOpenFrame target payload = Inr frame" "h1_Encrypt0RTTChunk cr key frame = Inr w"
  shows "unat (getUint16 (take 2 w)) = length (drop 2 w) \<and> h1_Decrypt0RTTChunk cr key (drop 2 w) = Inr frame \<and>
    DecodeOpenFrame frame = (if length frame < 7 then Inl h1_ErrInvalidOpenFrame else Inr (canonAddr target, payload))"
proof (intro conjI)
  have l: "length frame \<le> h1_MaxChunkPayloadLen" "w = putUint16 (word_of_nat (length frame + 16)) @ chacha_seal cr key nonce0RTT frame []"
    using assms(3) by (auto simp: h1_Encrypt0RTTChunk_def split: if_splits)
  note rp = h1_record_parts [OF assms(1) l(1)]
  show "unat (getUint16 (take 2 w)) = length (drop 2 w)" using l(2) rp(1) by (simp add: crypto_ok_simps [OF assms(1)])
  show "h1_Decrypt0RTTChunk cr key (drop 2 w) = Inr frame"
    using l(2) rp(3) by (simp add: h1_Decrypt0RTTChunk_def crypto_ok_simps [OF assms(1)])
  obtain a where a: "h1_encode_address target = Inr a" "frame = CmdConnectTCP # a @ payload"
    using assms(2) by (auto simp: EncodeOpenFrame_def split: sum.splits)
  show "DecodeOpenFrame frame = (if length frame < 7 then Inl h1_ErrInvalidOpenFrame else Inr (canonAddr target, payload))"
    using h1_addr.decode_encode [OF a(1), of payload] a(2) by (auto simp: DecodeOpenFrame_def)
qed

text \<open>C15: A side of an H1 session never takes a truncated, reordered or altered stream for a complete one:
for every input and every sequence of transport errors and timeouts, if reading a \<open>Conn\<close> ends with
\<open>io.EOF\<close>, the input starts with records sealed by the peer's role under the peer's key with
consecutive nonces from 0, the delivered bytes are exactly their plaintexts, and the last one is the
sealed empty record.\<close>
theorem h1_conn_authentic_end:
  assumes "crypto_ok cr" "0 < n"
    and "drain (Conn_Read cr) fuel n (NewConn src snk ck sk isClient) = Some (pl, EOF)"
  shows "\<exists>cs rest. pl = concat cs \<and>
    src_bytes src = h1_records cr (conn_key ck sk (\<not> isClient)) (conn_dir (\<not> isClient)) 0 (cs @ [[]]) @ rest"
proof -
  let ?r = "hc_reader (NewConn src snk ck sk isClient)"
  have "drain (h1_Read cr) fuel n ?r = Some (pl, EOF)" using assms(3) by (simp add: drain_Conn_Read)
  moreover have "hr_wf ?r" by (simp add: hr_wf_def NewConn_def h1_NewFramedReader_def Let_def)
  ultimately obtain cs rest where "pl = hr_dec ?r @ concat cs"
    "hr_input ?r = h1_records cr (ha_key (hr_stream ?r)) (ha_direction (hr_stream ?r)) (ha_seq (hr_stream ?r)) (cs @ [[]]) @ rest"
    using h1_sealed.drain_authentic [of ?r cr n fuel pl] assms(1,2) by (auto simp: h1_sealed_run)
  then show ?thesis
    by (intro exI [of _ cs] exI [of _ rest])
      (simp add: NewConn_def h1_NewFramedReader_def h1_NewAEADStream_def hr_input_def conn_key_def conn_dir_def Let_def)
qed

theorem h1_conn_authentic_end_witness:
  "\<exists>cs rest. [5] = concat cs \<and>
     [0, 17, 5, 67, 50, 83] @ replicate 13 0 @ [0, 16, 67, 50, 83] @ replicate 8 0 @ [1, 0, 0, 0, 0] =
       h1_records toy_crypto (conn_key [3] [4] True) (conn_dir True) 0 (cs @ [[]]) @ rest"
proof -
  let ?src = "[([0, 17, 5, 67, 50, 83] @ replicate 13 0, None), ([0, 16, 67, 50, 83] @ replicate 8 0 @ [1, 0, 0, 0, 0], None)] :: source"
  have "drain (Conn_Read toy_crypto) 9 1 (NewConn ?src \<lparr>snk_out = [], snk_resp = []\<rparr> [3] [4] False) = Some ([5], EOF)" by code_simp
  from h1_conn_authentic_end [OF toy_crypto_ok _ this] show ?thesis by simp
qed

end
