(* ===== verification/GoHeap.thy ===== *)
theory GoHeap
  imports Prelude "HOL-Library.Multiset"
begin

text \<open>
  The part of Go's \<^verbatim>\<open>container/heap\<close> the replay cache uses: \<open>Push\<close> and \<open>Pop\<close> with their sift
  loops over a slice, for elements ordered by a key. The contract of a minimum queue is the locale
  \<open>min_queue\<close>; its interpretation here is what the expiry queue rests on.
\<close>

subsection \<open>The contract\<close>

text \<open>Pop as long as the first element is due.\<close>

function pop_due :: "('q \<Rightarrow> 'a option) \<Rightarrow> ('q \<Rightarrow> 'q) \<Rightarrow> ('q \<Rightarrow> nat) \<Rightarrow> ('a \<Rightarrow> bool) \<Rightarrow> 'q \<Rightarrow> 'a list \<times> 'q" where
  "pop_due front pop sz due q =
     (case front q of
        None \<Rightarrow> ([], q)
      | Some x \<Rightarrow>
          if due x \<and> sz (pop q) < sz q then (case pop_due front pop sz due (pop q) of (xs, q') \<Rightarrow> (x # xs, q'))
          else ([], q))"
  by pat_completeness auto
termination
  by (relation "measure (\<lambda>(front, pop, sz, due, q). sz q)") auto

declare pop_due.simps [simp del]

locale min_queue =
  fixes front :: "'q \<Rightarrow> 'a option"
    and push :: "'a \<Rightarrow> 'q \<Rightarrow> 'q"
    and pop :: "'q \<Rightarrow> 'q"
    and elems :: "'q \<Rightarrow> 'a multiset"
    and inv :: "'q \<Rightarrow> bool"
    and key :: "'a \<Rightarrow> int"
  assumes front_None: "inv q \<Longrightarrow> front q = None \<longleftrightarrow> elems q = {#}"
    and front_min: "inv q \<Longrightarrow> front q = Some x \<Longrightarrow> x \<in># elems q \<and> (\<forall>y \<in># elems q. key x \<le> key y)"
    and elems_pop: "inv q \<Longrightarrow> front q = Some x \<Longrightarrow> elems q = add_mset x (elems (pop q))"
    and inv_pop: "inv q \<Longrightarrow> front q = Some x \<Longrightarrow> inv (pop q)"
    and elems_push: "inv q \<Longrightarrow> elems (push x q) = add_mset x (elems q)"
    and inv_push: "inv q \<Longrightarrow> inv (push x q)"
begin

text \<open>Popping while the front is due removes exactly the due elements.\<close>

lemma pop_due_exact:
  assumes "inv q" "pop_due front pop (\<lambda>q. size (elems q)) (\<lambda>x. key x \<le> t) q = (xs, q')"
  shows "inv q' \<and> elems q = mset xs + elems q' \<and> (\<forall>x \<in> set xs. key x \<le> t) \<and> (\<forall>x \<in># elems q'. t < key x)"
  using assms
proof (induction "size (elems q)" arbitrary: q xs q' rule: less_induct)
  case less
  show ?case
  proof (cases "front q")
    case None
    then have "xs = []" "q' = q" "elems q = {#}" using less.prems front_None [OF less.prems(1)] by (auto simp: pop_due.simps)
    then show ?thesis using less.prems(1) by simp
  next
    case (Some x)
    note p = elems_pop [OF less.prems(1) Some] and i = inv_pop [OF less.prems(1) Some]
    have sm: "size (elems (pop q)) < size (elems q)" using p by simp
    show ?thesis
    proof (cases "key x \<le> t")
      case True
      obtain ys q1 where r: "pop_due front pop (\<lambda>q. size (elems q)) (\<lambda>x. key x \<le> t) (pop q) = (ys, q1)" by fastforce
      then have "xs = x # ys" "q' = q1" using less.prems(2) Some True sm by (simp_all add: pop_due.simps [of front pop _ _ q])
      then show ?thesis using less.hyps [OF sm i r] p True by simp
    next
      case False
      then have "xs = []" "q' = q" using less.prems(2) Some by (simp_all add: pop_due.simps [of front pop _ _ q])
      then show ?thesis using front_min [OF less.prems(1) Some] False less.prems(1) by auto
    qed
  qed
qed

end

subsection \<open>The slice heap\<close>

definition swap :: "'a list \<Rightarrow> nat \<Rightarrow> nat \<Rightarrow> 'a list" where
  "swap xs i j = xs[i := xs ! j, j := xs ! i]"

text \<open>\<open>(j-1)/2\<close>, which Go truncates to 0 for the root.\<close>

definition parent :: "nat \<Rightarrow> nat" where
  "parent j = (j - 1) div 2"

lemma parent_less [simp]: "0 < j \<Longrightarrow> parent j < j"
  by (simp add: parent_def)

lemma parent_le: "parent j \<le> j"
  by (simp add: parent_def)

lemma parent_0 [simp]: "parent 0 = 0"
  by (simp add: parent_def)

lemma parent_child [simp]: "parent (Suc (2 * i)) = i" "parent (Suc (Suc (2 * i))) = i"
  by (simp_all add: parent_def)

lemma parent_eqD: "0 < k \<Longrightarrow> parent k = i \<Longrightarrow> k = 2 * i + 1 \<or> k = 2 * i + 2"
  unfolding parent_def by presburger

lemma parent_neq: "0 < k \<Longrightarrow> parent k \<noteq> k"
  by (rule less_imp_neq) simp

lemma parent_bound [simp]: "k < n \<Longrightarrow> parent k < n"
  using parent_le [of k] by linarith

function heap_up :: "('a \<Rightarrow> int) \<Rightarrow> 'a list \<Rightarrow> nat \<Rightarrow> 'a list" where
  "heap_up key xs j =
     (let i = parent j
      in if i = j \<or> \<not> key (xs ! j) < key (xs ! i) then xs else heap_up key (swap xs i j) i)"
  by pat_completeness auto
termination
proof (relation "measure (\<lambda>(key, xs, j). j)")
  fix key :: "'a \<Rightarrow> int" and xs :: "'a list" and j x
  assume "x = parent j" "\<not> (x = j \<or> \<not> key (xs ! j) < key (xs ! x))"
  then show "((key, swap xs x j, x), key, xs, j) \<in> measure (\<lambda>(key, xs, j). j)" using parent_le [of j] by auto
qed simp

function heap_down :: "('a \<Rightarrow> int) \<Rightarrow> 'a list \<Rightarrow> nat \<Rightarrow> nat \<Rightarrow> 'a list" where
  "heap_down key xs i n =
     (let j1 = 2 * i + 1
      in if n \<le> j1 then xs
         else let j = (if j1 + 1 < n \<and> key (xs ! (j1 + 1)) < key (xs ! j1) then j1 + 1 else j1)
              in if \<not> key (xs ! j) < key (xs ! i) then xs else heap_down key (swap xs i j) j n)"
  by pat_completeness auto
termination
  by (relation "measure (\<lambda>(key, xs, i, n). n - i)") (auto simp: Let_def split: if_splits)

declare heap_up.simps [simp del] heap_down.simps [simp del]

definition heap_Push :: "('a \<Rightarrow> int) \<Rightarrow> 'a \<Rightarrow> 'a list \<Rightarrow> 'a list" where
  "heap_Push key x h = heap_up key (h @ [x]) (length h)"

text \<open>\<open>Pop\<close> moves the first element to the end, sifts down and cuts it off; here, the remaining heap.\<close>

definition heap_Pop :: "('a \<Rightarrow> int) \<Rightarrow> 'a list \<Rightarrow> 'a list" where
  "heap_Pop key h = (let n = length h - 1 in take n (heap_down key (swap h 0 n) 0 n))"

definition heap_front :: "'a list \<Rightarrow> 'a option" where
  "heap_front h = (if h = [] then None else Some (h ! 0))"

definition heap_ok :: "('a \<Rightarrow> int) \<Rightarrow> 'a list \<Rightarrow> nat \<Rightarrow> bool" where
  "heap_ok key xs n \<longleftrightarrow> (\<forall>k. 0 < k \<longrightarrow> k < n \<longrightarrow> key (xs ! parent k) \<le> key (xs ! k))"

text \<open>The order holds except between \<open>j\<close> and its parent.\<close>

definition up_ok :: "('a \<Rightarrow> int) \<Rightarrow> 'a list \<Rightarrow> nat \<Rightarrow> bool" where
  "up_ok key xs j \<longleftrightarrow>
     (\<forall>k. 0 < k \<longrightarrow> k < length xs \<longrightarrow> k \<noteq> j \<longrightarrow> key (xs ! parent k) \<le> key (xs ! k)) \<and>
     (\<forall>k. 0 < k \<longrightarrow> k < length xs \<longrightarrow> 0 < j \<longrightarrow> parent k = j \<longrightarrow> key (xs ! (parent j)) \<le> key (xs ! k))"

text \<open>The order holds except between \<open>i\<close> and its children.\<close>

definition down_ok :: "('a \<Rightarrow> int) \<Rightarrow> 'a list \<Rightarrow> nat \<Rightarrow> nat \<Rightarrow> bool" where
  "down_ok key xs i n \<longleftrightarrow>
     (\<forall>k. 0 < k \<longrightarrow> k < n \<longrightarrow> parent k \<noteq> i \<longrightarrow> key (xs ! parent k) \<le> key (xs ! k)) \<and>
     (\<forall>k. 0 < k \<longrightarrow> k < n \<longrightarrow> 0 < i \<longrightarrow> parent k = i \<longrightarrow> key (xs ! (parent i)) \<le> key (xs ! k))"

lemma length_swap [simp]: "length (swap xs i j) = length xs"
  by (simp add: swap_def)

lemma nth_swap: "i < length xs \<Longrightarrow> j < length xs \<Longrightarrow> k < length xs \<Longrightarrow>
   swap xs i j ! k = (if k = j then xs ! i else if k = i then xs ! j else xs ! k)"
  by (auto simp: swap_def nth_list_update)

lemma mset_swap_list: "i < length xs \<Longrightarrow> j < length xs \<Longrightarrow> mset (swap xs i j) = mset xs"
  unfolding swap_def by (rule mset_swap)

lemma heap_up_spec:
  "j < length xs \<Longrightarrow> up_ok key xs j \<Longrightarrow>
   mset (heap_up key xs j) = mset xs \<and> heap_ok key (heap_up key xs j) (length xs) \<and> length (heap_up key xs j) = length xs"
proof (induction key xs j rule: heap_up.induct)
  case (1 key xs j)
  let ?i = "parent j"
  show ?case
  proof (cases "?i = j \<or> \<not> key (xs ! j) < key (xs ! ?i)")
    case True
    then have "heap_up key xs j = xs" by (simp add: heap_up.simps [of key xs])
    moreover have "heap_ok key xs (length xs)"
    proof -
      have "key (xs ! parent k) \<le> key (xs ! k)" if "0 < k" "k < length xs" for k
        using that "1.prems"(2) True by (cases "k = j") (auto simp: up_ok_def)
      then show ?thesis by (simp add: heap_ok_def)
    qed
    ultimately show ?thesis by simp
  next
    case False
    then have lt: "?i < j" "key (xs ! j) < key (xs ! ?i)" "0 < j" using parent_le [of j] by (cases "j = 0"; auto)+
    then have i: "?i < length xs" using "1.prems"(1) by simp
    have eq: "heap_up key xs j = heap_up key (swap xs ?i j) ?i" using False by (simp add: heap_up.simps [of key xs j] Let_def)
    have "up_ok key (swap xs ?i j) ?i"
      unfolding up_ok_def
    proof (intro conjI allI impI)
      fix k
      assume k: "0 < k" "k < length (swap xs ?i j)" "k \<noteq> ?i"
      have kp: "parent k < length xs" "k < length xs" using k(1,2) parent_bound [of k] by auto
      have ord: "k \<noteq> j \<Longrightarrow> key (xs ! parent k) \<le> key (xs ! k)"
        and sub: "parent k = j \<Longrightarrow> key (xs ! ?i) \<le> key (xs ! k)"
        using "1.prems"(2) k(1) kp(2) lt(3) unfolding up_ok_def by auto
      consider "k = j" | "k \<noteq> j" "parent k = j" | "k \<noteq> j" "parent k = ?i" | "k \<noteq> j" "parent k \<noteq> j" "parent k \<noteq> ?i"
        by blast
      then show "key (swap xs ?i j ! parent k) \<le> key (swap xs ?i j ! k)"
        using ord sub lt i k(3) kp "1.prems"(1) by cases (auto simp: nth_swap)
    next
      fix k
      assume k: "0 < k" "k < length (swap xs ?i j)" "0 < ?i" "parent k = ?i"
      have pp: "parent ?i < ?i" using k(3) by simp
      then have gp: "parent ?i \<noteq> ?i" "parent ?i \<noteq> j" "parent ?i < length xs" using lt(1) i by auto
      have g: "key (xs ! (parent ?i)) \<le> key (xs ! ?i)"
        using "1.prems"(2) k(3) i lt(1) unfolding up_ok_def by auto
      have "key (xs ! ?i) \<le> key (xs ! k)" if "k \<noteq> j"
        using conjunct1 [OF "1.prems"(2) [unfolded up_ok_def], rule_format, of k] k(1,2,4) that by simp
      then show "key (swap xs ?i j ! (parent ?i)) \<le> key (swap xs ?i j ! k)"
        using gp g i "1.prems"(1) k(2,4) lt by (auto simp: nth_swap)
    qed
    then show ?thesis
      using "1.IH" [OF refl False] i "1.prems"(1) eq by (simp add: mset_swap_list)
  qed
qed

lemma heap_down_spec:
  "i < n \<Longrightarrow> n \<le> length xs \<Longrightarrow> down_ok key xs i n \<Longrightarrow>
   mset (heap_down key xs i n) = mset xs \<and> heap_ok key (heap_down key xs i n) n \<and>
   length (heap_down key xs i n) = length xs \<and> (\<forall>k. n \<le> k \<longrightarrow> k < length xs \<longrightarrow> heap_down key xs i n ! k = xs ! k)"
proof (induction key xs i n rule: heap_down.induct)
  case (1 key xs i n)
  let ?j1 = "2 * i + 1"
  define j where "j = (if ?j1 + 1 < n \<and> key (xs ! (?j1 + 1)) < key (xs ! ?j1) then ?j1 + 1 else ?j1)"
  have child: "k = ?j1 \<or> k = ?j1 + 1" if "0 < k" "parent k = i" for k using parent_eqD [OF that] by simp
  have unf: "heap_down key xs i n = (if n \<le> ?j1 then xs else if \<not> key (xs ! j) < key (xs ! i) then xs else heap_down key (swap xs i j) j n)"
    unfolding j_def by (subst heap_down.simps) (simp only: Let_def)
  show ?case
  proof (cases "n \<le> ?j1 \<or> \<not> key (xs ! j) < key (xs ! i)")
    case True
    then have "heap_down key xs i n = xs" unfolding unf by (cases "n \<le> ?j1") simp_all
    moreover have "heap_ok key xs n"
    proof -
      have "key (xs ! parent k) \<le> key (xs ! k)" if k: "0 < k" "k < n" for k
      proof (cases "parent k = i")
        case c: True
        then have "k = ?j1 \<or> k = ?j1 + 1" "?j1 < n" using child [OF k(1)] k by auto
        then show ?thesis using True c k by (auto simp: j_def split: if_splits)
      next
        case False
        then show ?thesis using "1.prems"(3) k unfolding down_ok_def by blast
      qed
      then show ?thesis by (simp add: heap_ok_def)
    qed
    ultimately show ?thesis by simp
  next
    case False
    then have c: "\<not> n \<le> ?j1" "key (xs ! j) < key (xs ! i)" by auto
    have j: "j < n" "j < length xs" "i < j" "parent j = i" "i < length xs" "0 < j"
      using c(1) "1.prems"(1,2) by (auto simp: j_def)
    have jmin: "key (xs ! j) \<le> key (xs ! k)" if "0 < k" "k < n" "parent k = i" for k
      using child [OF that(1,3)] that(2) by (auto simp: j_def split: if_splits)
    have eq: "heap_down key xs i n = heap_down key (swap xs i j) j n"
      using c by (simp add: unf)
    have "down_ok key (swap xs i j) j n"
      unfolding down_ok_def
    proof (intro conjI allI impI)
      fix k
      assume k: "0 < k" "k < n" "parent k \<noteq> j"
      have kl: "k < length xs" "parent k < length xs" using k(1,2) "1.prems"(2) by auto
      have ord: "parent k \<noteq> i \<Longrightarrow> key (xs ! parent k) \<le> key (xs ! k)"
        and up: "0 < i \<Longrightarrow> key (xs ! (parent i)) \<le> key (xs ! j)"
        using "1.prems"(3) k(1,2) j unfolding down_ok_def by auto
      consider "parent k = i" "k = j" | "parent k = i" "k \<noteq> j" | "parent k \<noteq> i" "k = i" | "parent k \<noteq> i" "k \<noteq> i" "k \<noteq> j"
        using j(4) by blast
      then show "key (swap xs i j ! parent k) \<le> key (swap xs i j ! k)"
        using jmin [OF k(1,2)] c(2) ord up k kl j by cases (auto simp: nth_swap)
    next
      fix k
      assume k: "0 < k" "k < n" "0 < j" "parent k = j"
      have "key (xs ! j) \<le> key (xs ! k)" using "1.prems"(3) k j(3) unfolding down_ok_def by force
      moreover have "j < k" using k(1,4) parent_less [of k] by simp
      then have "k \<noteq> i" "k \<noteq> j" using j(3) by auto
      ultimately show "key (swap xs i j ! (parent j)) \<le> key (swap xs i j ! k)"
        using j k "1.prems"(2) \<open>j < k\<close> by (simp add: nth_swap)
    qed
    moreover have "swap xs i j ! k = xs ! k" if "n \<le> k" "k < length xs" for k
      using that j by (simp add: nth_swap)
    ultimately show ?thesis
      using "1.IH" [OF refl c(1) j_def] c(2) j "1.prems"(2) eq by (simp add: mset_swap_list)
  qed
qed

lemma heap_ok_min: "heap_ok key xs n \<Longrightarrow> k < n \<Longrightarrow> key (xs ! 0) \<le> key (xs ! k)"
proof (induction k rule: less_induct)
  case (less k)
  show ?case
  proof (cases "k = 0")
    case False
    then have "parent k < k" by simp
    then have "key (xs ! 0) \<le> key (xs ! parent k)" using less by simp
    also have "\<dots> \<le> key (xs ! k)" using less.prems False by (simp add: heap_ok_def)
    finally show ?thesis .
  qed simp
qed

lemma heap_Push_spec:
  assumes "heap_ok key h (length h)"
  shows "mset (heap_Push key x h) = add_mset x (mset h)" "heap_ok key (heap_Push key x h) (length (heap_Push key x h))"
proof -
  have "up_ok key (h @ [x]) (length h)"
    unfolding up_ok_def
  proof (intro conjI allI impI)
    fix k
    assume "0 < k" "k < length (h @ [x])" "k \<noteq> length h"
    then show "key ((h @ [x]) ! parent k) \<le> key ((h @ [x]) ! k)" using assms by (simp add: heap_ok_def nth_append)
  next
    fix k
    assume "0 < k" "k < length (h @ [x])" "parent k = length h"
    then show "key ((h @ [x]) ! parent (length h)) \<le> key ((h @ [x]) ! k)" using parent_less [of k] by simp
  qed
  from heap_up_spec [OF _ this] show "mset (heap_Push key x h) = add_mset x (mset h)"
    "heap_ok key (heap_Push key x h) (length (heap_Push key x h))" by (simp_all add: heap_Push_def)
qed

lemma heap_Pop_spec:
  assumes "heap_ok key h (length h)" "h \<noteq> []"
  shows "mset h = add_mset (h ! 0) (mset (heap_Pop key h))" "heap_ok key (heap_Pop key h) (length (heap_Pop key h))"
proof -
  let ?n = "length h - 1"
  let ?s = "swap h 0 ?n" and ?d = "heap_down key (swap h 0 ?n) 0 ?n"
  have n: "?n < length h" using assms(2) by simp
  have last: "mset h = add_mset (h ! 0) (mset (take ?n ?d)) \<and> heap_ok key (take ?n ?d) ?n \<and> length (take ?n ?d) = ?n"
  proof (cases "?n = 0")
    case True
    then have "h = [h ! 0]" using assms(2) by (cases h) auto
    then show ?thesis using True by (simp add: heap_ok_def)
  next
    case False
    have "down_ok key ?s 0 ?n"
      unfolding down_ok_def
    proof (intro conjI allI impI)
      fix k
      assume k: "0 < k" "k < ?n" "parent k \<noteq> 0"
      have "parent k \<noteq> ?n" by (rule less_imp_neq [OF parent_bound [OF k(2)]])
      then have "?s ! parent k = h ! parent k" using k n by (subst nth_swap) auto
      moreover have "?s ! k = h ! k" using k n by (subst nth_swap) auto
      ultimately show "key (?s ! parent k) \<le> key (?s ! k)"
        using k n assms(1) unfolding heap_ok_def by simp
    qed simp
    note d = heap_down_spec [OF _ _ this]
    have d': "mset ?d = mset h" "heap_ok key ?d ?n" "length ?d = length h" "?d ! ?n = h ! 0"
      using d False n assms(2) by (simp_all add: mset_swap_list nth_swap)
    have "?d = take ?n ?d @ [?d ! ?n]" using d'(3) n by (metis Suc_diff_1 take_Suc_conv_app_nth length_greater_0_conv assms(2) take_all order_refl)
    then have "mset ?d = add_mset (?d ! ?n) (mset (take ?n ?d))" by (metis mset_append mset_single_iff union_mset_add_mset_right add.right_neutral mset.simps)
    moreover have "heap_ok key (take ?n ?d) ?n" using d'(2) by (simp add: heap_ok_def)
    ultimately show ?thesis using d' n by simp
  qed
  then show "mset h = add_mset (h ! 0) (mset (heap_Pop key h))" "heap_ok key (heap_Pop key h) (length (heap_Pop key h))"
    by (simp_all add: heap_Pop_def Let_def)
qed

interpretation slice_heap: min_queue heap_front "heap_Push key" "heap_Pop key" mset "\<lambda>h. heap_ok key h (length h)" key
  for key
proof
  fix q :: "'a list" and x
  assume q: "heap_ok key q (length q)"
  show "heap_front q = None \<longleftrightarrow> mset q = {#}" by (simp add: heap_front_def)
  show "mset (heap_Push key x q) = add_mset x (mset q)" "heap_ok key (heap_Push key x q) (length (heap_Push key x q))"
    using heap_Push_spec [OF q] by auto
  assume "heap_front q = Some x"
  then have ne: "q \<noteq> []" and x: "x = q ! 0" by (auto simp: heap_front_def split: if_splits)
  show "x \<in># mset q \<and> (\<forall>y \<in># mset q. key x \<le> key y)"
    using heap_ok_min [OF q] ne x by (auto simp: in_set_conv_nth)
  show "mset q = add_mset x (mset (heap_Pop key q))" "heap_ok key (heap_Pop key q) (length (heap_Pop key q))"
    using heap_Pop_spec [OF q ne] x by auto
qed

end
