(* ===== verification/GoText.thy ===== *)
theory GoText
  imports GoNet
begin

text \<open>
  Text handling of the standard library as the replay cache uses it: \<open>strconv.FormatInt\<close> and
  \<open>ParseInt\<close> in base 10, \<open>base64.RawURLEncoding\<close>, \<open>encoding/hex\<close>, \<open>strings.Cut\<close> and the line
  splitting of \<open>bufio.Scanner\<close>.
\<close>

subsection \<open>Integers\<close>

definition FormatInt :: "int \<Rightarrow> bytes" where
  "FormatInt i = (if i < 0 then 45 # Itoa (nat (- i)) else Itoa (nat i))"

text \<open>\<open>ParseInt(s, 10, 64)\<close> accepts what \<open>Atoi\<close> accepts on a 64-bit platform.\<close>

abbreviation (input) ParseInt :: "bytes \<Rightarrow> int option" where "ParseInt \<equiv> Atoi"

lemma Itoa_digits: "list_all isDigit (Itoa n)"
proof (induction n rule: Itoa.induct)
  case (1 n)
  have d: "isDigit (48 + word_of_nat m)" if "m < 10" for m
    using that by (simp add: isDigit_def word_le_nat_alt unat_word_ariths)
  show ?case using 1 d by (subst Itoa.simps) (auto simp: list_all_iff)
qed

lemma ParseInt_FormatInt [simp]: "\<bar>i\<bar> < 2 ^ 63 \<Longrightarrow> ParseInt (FormatInt i) = Some i"
proof (cases "i < 0")
  case True
  assume a: "\<bar>i\<bar> < 2 ^ 63"
  have "Itoa (nat (- i)) \<noteq> []" by simp
  then show ?thesis using True a Itoa_digits [of "nat (- i)"] by (simp add: FormatInt_def Atoi_def Let_def)
next
  case False
  assume "\<bar>i\<bar> < 2 ^ 63"
  then show ?thesis using False Atoi_Itoa [of "nat i"] by (simp add: FormatInt_def)
qed

lemma FormatInt_chars: "c \<in> set (FormatInt i) \<Longrightarrow> c = 45 \<or> isDigit c"
  using Itoa_digits [of "nat (- i)"] Itoa_digits [of "nat i"] by (auto simp: FormatInt_def list_all_iff split: if_splits)

lemma FormatInt_clean: "9 \<notin> set (FormatInt i)" "10 \<notin> set (FormatInt i)" "13 \<notin> set (FormatInt i)"
  using FormatInt_chars [of 9 i] FormatInt_chars [of 10 i] FormatInt_chars [of 13 i] by (auto simp: isDigit_def)

subsection \<open>base64.RawURLEncoding\<close>

definition b64_alphabet :: bytes where
  "b64_alphabet = lit ''ABCDEFGHIJKLMNOPQRSTUVWXYZabcdefghijklmnopqrstuvwxyz0123456789-_''"

definition b64_char :: "nat \<Rightarrow> byte" where
  "b64_char k = b64_alphabet ! (k mod 64)"

fun index_of :: "'a \<Rightarrow> 'a list \<Rightarrow> nat option" where
  "index_of x [] = None"
| "index_of x (y # ys) = (if x = y then Some 0 else map_option Suc (index_of x ys))"

definition b64_value :: "byte \<Rightarrow> nat option" where
  "b64_value c = index_of c b64_alphabet"

fun b64_encode :: "bytes \<Rightarrow> bytes" where
  "b64_encode (a # b # c # rest) =
     (let n = be_get [a, b, c]
      in b64_char (n div 262144) # b64_char (n div 4096) # b64_char (n div 64) # b64_char n # b64_encode rest)"
| "b64_encode [a, b] =
     (let n = be_get [a, b] * 4 in [b64_char (n div 4096), b64_char (n div 64), b64_char n])"
| "b64_encode [a] = (let n = be_get [a] * 16 in [b64_char (n div 64), b64_char n])"
| "b64_encode [] = []"

text \<open>The decoder skips carriage returns and newlines, then reads quanta; unused low bits are not checked.\<close>

fun b64_quanta :: "nat list \<Rightarrow> bytes option" where
  "b64_quanta (a # b # c # d # rest) =
     map_option ((@) (be_put 3 (((a * 64 + b) * 64 + c) * 64 + d))) (b64_quanta rest)"
| "b64_quanta [a, b, c] = Some (be_put 2 (((a * 64 + b) * 64 + c) div 4))"
| "b64_quanta [a, b] = Some (be_put 1 ((a * 64 + b) div 16))"
| "b64_quanta [a] = None"
| "b64_quanta [] = Some []"

definition b64_decode :: "bytes \<Rightarrow> bytes option" where
  "b64_decode s =
     (let vs = map b64_value (filter (\<lambda>c. c \<noteq> 13 \<and> c \<noteq> 10) s)
      in if None \<in> set vs then None else b64_quanta (map the vs))"

lemma b64_alphabet_facts:
  "length b64_alphabet = 64" "distinct b64_alphabet" "list_all (\<lambda>c. c \<noteq> 9 \<and> c \<noteq> 10 \<and> c \<noteq> 13) b64_alphabet"
proof -
  have e: "b64_alphabet = [65, 66, 67, 68, 69, 70, 71, 72, 73, 74, 75, 76, 77, 78, 79, 80, 81, 82, 83, 84, 85, 86, 87, 88, 89, 90, 97, 98, 99, 100, 101, 102, 103, 104, 105, 106, 107, 108, 109, 110, 111, 112, 113, 114, 115, 116, 117, 118, 119, 120, 121, 122, 48, 49, 50, 51, 52, 53, 54, 55, 56, 57, 45, 95]"
    by code_simp
  show "length b64_alphabet = 64" "distinct b64_alphabet" "list_all (\<lambda>c. c \<noteq> 9 \<and> c \<noteq> 10 \<and> c \<noteq> 13) b64_alphabet"
    unfolding e by simp_all
qed

lemma index_of_nth: "distinct xs \<Longrightarrow> k < length xs \<Longrightarrow> index_of (xs ! k) xs = Some k"
proof (induction xs arbitrary: k)
  case Nil
  then show ?case by simp
next
  case (Cons x xs)
  then show ?case by (cases k) auto
qed

lemma index_of_None: "x \<notin> set xs \<Longrightarrow> index_of x xs = None"
  by (induction xs) auto

lemma b64_value_char [simp]: "b64_value (b64_char k) = Some (k mod 64)"
  by (simp add: b64_value_def b64_char_def index_of_nth b64_alphabet_facts)

lemma b64_char_clean: "b64_char k \<noteq> 9" "b64_char k \<noteq> 10" "b64_char k \<noteq> 13"
proof -
  have "b64_char k \<in> set b64_alphabet" by (simp add: b64_char_def b64_alphabet_facts)
  then show "b64_char k \<noteq> 9" "b64_char k \<noteq> 10" "b64_char k \<noteq> 13"
    using b64_alphabet_facts(3) by (auto simp: list_all_iff)
qed

lemma b64_encode_clean: "c \<in> set (b64_encode bs) \<Longrightarrow> c \<noteq> 9 \<and> c \<noteq> 10 \<and> c \<noteq> 13"
  by (induction bs rule: b64_encode.induct) (auto simp: Let_def b64_char_clean)

lemma be_get_small: "length bs = k \<Longrightarrow> be_get bs < 256 ^ k"
  using be_get_less [of bs] by simp

lemma be_put_len: "length bs = k \<Longrightarrow> be_put k (be_get bs) = bs"
  using be_put_get [of bs] by simp

lemma base64_digits: "(n :: nat) div 64 * 64 + n mod 64 = n" "n div 4096 = n div 64 div 64" "n div 262144 = n div 64 div 64 div 64"
  by (simp_all add: div_mult2_eq [symmetric])

lemma b64_quanta_encode: "b64_quanta (map (the \<circ> b64_value) (b64_encode bs)) = Some bs"
proof (induction bs rule: b64_encode.induct)
  case (1 a b c rest)
  define n where "n = be_get [a, b, c]"
  have n: "n < 16777216" using be_get_small [of "[a, b, c]" 3] by (simp add: n_def)
  have "((n div 262144 mod 64 * 64 + n div 4096 mod 64) * 64 + n div 64 mod 64) * 64 + n mod 64 = n"
  proof -
    have "n div 64 div 64 div 64 < 64" using n by (simp add: div_mult2_eq [symmetric] div_less_iff_less_mult)
    then show ?thesis unfolding base64_digits(2,3) by (simp only: mod_less base64_digits(1))
  qed
  moreover have "be_put 3 n = [a, b, c]" unfolding n_def by (rule be_put_len) simp
  moreover define d1 d2 d3 where "d1 = n div 262144" and "d2 = n div 4096" and "d3 = n div 64"
  moreover have "b64_encode (a # b # c # rest) = b64_char d1 # b64_char d2 # b64_char d3 # b64_char n # b64_encode rest"
    by (simp only: b64_encode.simps Let_def n_def d1_def d2_def d3_def)
  ultimately show ?case using 1 [OF n_def] by (simp del: be_put.simps)
next
  case (2 a b)
  define m where "m = be_get [a, b]"
  define d1 d2 d3 where "d1 = m * 4 div 4096" and "d2 = m * 4 div 64" and "d3 = m * 4"
  have m: "m < 65536" using be_get_small [of "[a, b]" 2] by (simp add: m_def)
  have "(m * 4) div 64 div 64 < 64" using m by (simp add: div_mult2_eq [symmetric] div_less_iff_less_mult)
  then have v: "((d1 mod 64 * 64 + d2 mod 64) * 64 + d3 mod 64) div 4 = m"
    unfolding d1_def d2_def d3_def base64_digits(2,3) by (simp only: mod_less base64_digits(1))
  have put: "be_put 2 m = [a, b]" unfolding m_def by (rule be_put_len) simp
  have "b64_encode [a, b] = [b64_char d1, b64_char d2, b64_char d3]"
    by (simp only: b64_encode.simps Let_def m_def d1_def d2_def d3_def)
  then show ?case using v put by (simp only: list.map comp_def b64_value_char option.sel b64_quanta.simps)
next
  case (3 a)
  define m where "m = be_get [a]"
  define d1 d2 where "d1 = m * 16 div 64" and "d2 = m * 16"
  have m: "m < 256" using be_get_small [of "[a]" 1] by (simp add: m_def)
  have "(m * 16) div 64 < 64" using m by (simp add: div_less_iff_less_mult)
  then have v: "(d1 mod 64 * 64 + d2 mod 64) div 16 = m"
    unfolding d1_def d2_def by (simp only: mod_less base64_digits(1))
  have put: "be_put 1 m = [a]" unfolding m_def by (rule be_put_len) simp
  have "b64_encode [a] = [b64_char d1, b64_char d2]"
    by (simp only: b64_encode.simps Let_def m_def d1_def d2_def)
  then show ?case using v put by (simp only: list.map comp_def b64_value_char option.sel b64_quanta.simps)
qed simp

lemma b64_values_encode: "None \<notin> b64_value ` set (b64_encode bs)"
  by (induction bs rule: b64_encode.induct) (auto simp: Let_def)

lemma b64_roundtrip [simp]: "b64_decode (b64_encode bs) = Some bs"
proof -
  have "filter (\<lambda>c. c \<noteq> 13 \<and> c \<noteq> 10) (b64_encode bs) = b64_encode bs"
    by (rule filter_True) (auto dest: b64_encode_clean)
  then show ?thesis using b64_quanta_encode [of bs] b64_values_encode [of bs]
    by (simp add: b64_decode_def Let_def)
qed

lemma b64_decode_tab: "9 \<in> set s \<Longrightarrow> b64_decode s = None"
proof -
  assume "9 \<in> set s"
  moreover have "b64_value 9 = None"
    unfolding b64_value_def using b64_alphabet_facts(3) by (intro index_of_None) (auto simp: list_all_iff)
  ultimately show ?thesis by (force simp: b64_decode_def Let_def)
qed

subsection \<open>Lines\<close>

text \<open>\<open>strings.Cut(s, sep)\<close> for a one-byte separator: the parts and whether it was found.\<close>

definition strings_Cut :: "byte \<Rightarrow> bytes \<Rightarrow> bytes \<times> bytes \<times> bool" where
  "strings_Cut c s = (let b = takeWhile (\<lambda>x. x \<noteq> c) s
     in if length b < length s then (b, drop (length b + 1) s, True) else (s, [], False))"

lemma strings_Cut_found [simp]: "c \<notin> set a \<Longrightarrow> strings_Cut c (a @ c # b) = (a, b, True)"
proof -
  assume "c \<notin> set a"
  then have "takeWhile (\<lambda>x. x \<noteq> c) (a @ c # b) = a" by (simp add: takeWhile_append)
  then show ?thesis by (simp add: strings_Cut_def Let_def)
qed

lemma strings_Cut_TrueD: "strings_Cut c s = (a, b, True) \<Longrightarrow> s = a @ c # b \<and> c \<notin> set a"
proof -
  assume r: "strings_Cut c s = (a, b, True)"
  let ?t = "takeWhile (\<lambda>x. x \<noteq> c) s"
  have ab: "a = ?t" "b = drop (length ?t + 1) s" "length ?t < length s"
    using r by (auto simp: strings_Cut_def Let_def split: if_splits)
  have "s ! length ?t = c" using nth_length_takeWhile [OF ab(3)] by simp
  then have "s = ?t @ c # drop (length ?t + 1) s"
    using id_take_nth_drop [OF ab(3)] takeWhile_eq_take [of _ s] by (metis Suc_eq_plus1)
  then show ?thesis using ab by (auto dest: set_takeWhileD)
qed

text \<open>\<open>ScanLines\<close>: newline-separated tokens, a trailing carriage return dropped, no final empty token.\<close>

fun split_lines :: "bytes \<Rightarrow> bytes \<Rightarrow> bytes list" where
  "split_lines cur [] = (if cur = [] then [] else [cur])"
| "split_lines cur (c # cs) = (if c = 10 then cur # split_lines [] cs else split_lines (cur @ [c]) cs)"

definition dropCR :: "bytes \<Rightarrow> bytes" where
  "dropCR l = (if l \<noteq> [] \<and> last l = 13 then butlast l else l)"

lemma split_lines_line: "10 \<notin> set l \<Longrightarrow> split_lines cur (l @ 10 # rest) = (cur @ l) # split_lines [] rest"
  by (induction l arbitrary: cur) auto

lemma split_lines_append:
  "xs = [] \<or> last xs = 10 \<Longrightarrow> cur = [] \<or> xs \<noteq> [] \<Longrightarrow> split_lines cur (xs @ ys) = split_lines cur xs @ split_lines [] ys"
  by (induction cur xs rule: split_lines.induct) (auto split: if_splits)

subsection \<open>encoding/hex\<close>

definition hex_char :: "nat \<Rightarrow> byte" where
  "hex_char n = (if n < 10 then word_of_nat (48 + n) else word_of_nat (87 + n))"

definition fromHexChar :: "byte \<Rightarrow> nat option" where
  "fromHexChar c =
     (if 48 \<le> c \<and> c \<le> 57 then Some (unat c - 48)
      else if 97 \<le> c \<and> c \<le> 102 then Some (unat c - 87)
      else if 65 \<le> c \<and> c \<le> 70 then Some (unat c - 55)
      else None)"

definition hex_encode :: "bytes \<Rightarrow> bytes" where
  "hex_encode bs = concat (map (\<lambda>b. [hex_char (unat b div 16), hex_char (unat b mod 16)]) bs)"

fun hex_decode :: "bytes \<Rightarrow> bytes option" where
  "hex_decode [] = Some []"
| "hex_decode [c] = None"
| "hex_decode (c # d # rest) =
     (case (fromHexChar c, fromHexChar d, hex_decode rest) of
        (Some a, Some b, Some bs) \<Rightarrow> Some (word_of_nat (a * 16 + b) # bs)
      | _ \<Rightarrow> None)"

lemma fromHexChar_char: "n < 16 \<Longrightarrow> fromHexChar (hex_char n) = Some n"
proof -
  have "list_all (\<lambda>n. fromHexChar (hex_char n) = Some n) [0..<16]" by code_simp
  then show "n < 16 \<Longrightarrow> fromHexChar (hex_char n) = Some n" by (simp add: list_all_iff del: upt_Suc)
qed

lemma hex_roundtrip [simp]: "hex_decode (hex_encode bs) = Some bs"
proof (induction bs)
  case (Cons b bs)
  have "unat b < 256" using unat_bound [of b] by simp
  then have "unat b div 16 < 16" by (simp add: div_less_iff_less_mult)
  moreover have "word_of_nat (unat b div 16 * 16 + unat b mod 16) = b" unfolding div_mult_mod_eq by simp
  ultimately show ?case using Cons by (simp add: hex_encode_def fromHexChar_char)
qed (simp add: hex_encode_def)

lemma hex_encode_inj: "hex_encode a = hex_encode b \<longleftrightarrow> a = b"
  by (metis hex_roundtrip option.inject)

lemma hex_encode_Nil [simp]: "hex_encode bs = [] \<longleftrightarrow> bs = []"
  by (simp add: hex_encode_def)

end
