(* ===== verification/ReplayCache.thy ===== *)
theory ReplayCache
  imports GoHeap GoText "HOL-Library.AList"
begin

text \<open>
  The durable anti-replay cache, \<^verbatim>\<open>src/pkg/auth/auth.go\<close>: the map of accepted nonces with its expiry
  heap, the append-only file with group commit and compaction, and recovery from the file. Times are
  nanoseconds since the epoch. The file is represented by what is on stable storage and what was
  written since; the outcomes of the system calls are arguments. \<open>Accept\<close> gives up the mutex while it
  waits for the commit, so it is two atomic sections, \<open>accept_begin\<close> and \<open>accept_finish\<close>.
\<close>

definition MaxClockSkew :: int where "MaxClockSkew = 90 * 1000000000"
definition replayCompactAfter :: nat where "replayCompactAfter = 10000"
abbreviation (input) second :: int where "second \<equiv> 1000000000"

subsection \<open>State\<close>

type_synonym replay_expiry = "bytes \<times> int"

text \<open>
  \<open>dk_durable\<close> survives a crash, \<open>dk_tail\<close> was written but not synced; \<open>dk_old\<close> is the file a
  rename replaced, as long as the directory is not synced.
\<close>

record disk =
  dk_durable :: bytes
  dk_tail :: bytes
  dk_old :: "(bytes \<times> bytes) option"

record replay_cache =
  rc_expires :: "(bytes \<times> int) list"
  rc_queue :: "replay_expiry list"
  rc_file :: bool
  rc_disk :: disk
  rc_writesSince :: nat
  rc_persistent :: bool
  rc_persistErr :: "goerr option"
  rc_syncedTx :: u64
  rc_currentTx :: u64
  rc_closed :: bool

definition NewReplayCache :: replay_cache where
  "NewReplayCache = \<lparr>rc_expires = [], rc_queue = [], rc_file = False,
     rc_disk = \<lparr>dk_durable = [], dk_tail = [], dk_old = None\<rparr>, rc_writesSince = 0, rc_persistent = False,
     rc_persistErr = None, rc_syncedTx = 0, rc_currentTx = 0, rc_closed = False\<rparr>"

subsection \<open>The file format\<close>

definition replay_record :: "bytes \<Rightarrow> int \<Rightarrow> bytes" where
  "replay_record nonce expiry = FormatInt (expiry div second) @ [9] @ b64_encode nonce @ [10]"

definition parse_record :: "bytes \<Rightarrow> (bytes \<times> int) result" where
  "parse_record line =
     (case strings_Cut 9 line of
        (expiryText, encodedNonce, ok) \<Rightarrow>
          (case ParseInt expiryText of
             None \<Rightarrow> Inl (Errorf ''invalid replay cache record'')
           | Some expiryUnix \<Rightarrow>
               if \<not> ok then Inl (Errorf ''invalid replay cache record'')
               else (case b64_decode encodedNonce of
                       None \<Rightarrow> Inl (Errorf ''invalid replay cache nonce'')
                     | Some nonceBytes \<Rightarrow>
                         if nonceBytes = [] then Inl (Errorf ''invalid replay cache nonce'')
                         else Inr (nonceBytes, expiryUnix * second))))"

text \<open>\<open>bufio.Scanner\<close> refuses a line that does not fit its buffer of 64 KiB together with the newline.\<close>

definition MaxScanLine :: nat where "MaxScanLine = 65535"

type_synonym replay_table = "(bytes \<times> int) list \<times> replay_expiry list"

fun load_lines :: "int \<Rightarrow> bytes list \<Rightarrow> replay_table \<Rightarrow> replay_table result" where
  "load_lines now [] t = Inr t"
| "load_lines now (line # lines) (expires, queue) =
     (if MaxScanLine < length line then Inl (Errorf ''bufio.Scanner: token too long'')
      else case parse_record (dropCR line) of
             Inl e \<Rightarrow> Inl e
           | Inr (nonce, expiry) \<Rightarrow>
               if now < expiry
               then load_lines now lines (AList.update nonce expiry expires, heap_Push snd (nonce, expiry) queue)
               else load_lines now lines (expires, queue))"

text \<open>\<open>ioErr\<close> is an error of seeking or reading, which \<open>load\<close> passes on.\<close>

definition replay_load :: "int \<Rightarrow> bytes \<Rightarrow> goerr option \<Rightarrow> replay_table result" where
  "replay_load now content ioErr =
     (case load_lines now (split_lines [] content) ([], []) of
        Inl e \<Rightarrow> Inl e
      | Inr t \<Rightarrow> (case ioErr of None \<Rightarrow> Inr t | Some e \<Rightarrow> Inl e))"

definition OpenReplayCache :: "int \<Rightarrow> bytes \<Rightarrow> goerr option \<Rightarrow> replay_cache result" where
  "OpenReplayCache now content ioErr =
     (case replay_load now content ioErr of
        Inl e \<Rightarrow> Inl e
      | Inr (expires, queue) \<Rightarrow>
          Inr \<lparr>rc_expires = expires, rc_queue = queue, rc_file = True,
               rc_disk = \<lparr>dk_durable = content, dk_tail = [], dk_old = None\<rparr>, rc_writesSince = 0, rc_persistent = True,
               rc_persistErr = None, rc_syncedTx = 0, rc_currentTx = 0, rc_closed = False\<rparr>)"

subsection \<open>Looking up and accepting nonces\<close>

text \<open>The loop that pops expired queue entries and forgets their nonces unless these were renewed.\<close>

function purge_loop :: "int \<Rightarrow> (bytes \<times> int) list \<Rightarrow> replay_expiry list \<Rightarrow> replay_table" where
  "purge_loop now expires queue =
     (if queue \<noteq> [] \<and> \<not> now < snd (queue ! 0) then
        (let expired = queue ! 0;
             expires = (if map_of expires (fst expired) = Some (snd expired) then AList.delete (fst expired) expires else expires)
         in purge_loop now expires (heap_Pop snd queue))
      else (expires, queue))"
  by pat_completeness auto
termination
proof (relation "measure (\<lambda>(now, expires, queue). length queue)")
  fix now :: int and expires :: "(bytes \<times> int) list" and queue :: "replay_expiry list" and e1 e2
  assume q: "queue \<noteq> [] \<and> \<not> now < snd (queue ! 0)"
  have l: "length (heap_down key xs i n) = length xs" for key :: "replay_expiry \<Rightarrow> int" and xs i n
    by (induction key xs i n rule: heap_down.induct) (subst heap_down.simps, simp add: Let_def)
  show "((now, e2, heap_Pop snd queue), now, expires, queue) \<in> measure (\<lambda>(now, expires, queue). length queue)"
    using q by (simp add: heap_Pop_def Let_def l)
qed simp

declare purge_loop.simps [simp del]

definition rc_purge :: "int \<Rightarrow> replay_cache \<Rightarrow> replay_cache" where
  "rc_purge now c = (case purge_loop now (rc_expires c) (rc_queue c) of
     (expires, queue) \<Rightarrow> c\<lparr>rc_expires := expires, rc_queue := queue\<rparr>)"

definition ReplayCache_Check :: "bytes \<Rightarrow> int \<Rightarrow> replay_cache \<Rightarrow> bool \<times> replay_cache" where
  "ReplayCache_Check nonce now c = (let c = rc_purge now c in (map_of (rc_expires c) nonce \<noteq> None, c))"

definition markPersistenceFailure :: "goerr \<Rightarrow> replay_cache \<Rightarrow> goerr \<times> replay_cache" where
  "markPersistenceFailure err c =
     (case rc_persistErr c of
        Some e \<Rightarrow> (e, c)
      | None \<Rightarrow> (err, c\<lparr>rc_persistErr := Some err\<rparr>))"

text \<open>
  The outcomes of the system calls of \<open>compact\<close>: the first failure while writing the temporary file,
  then closing, renaming (and reopening when it failed), opening and syncing the directory.
\<close>

record compact_env =
  ce_temporary :: "goerr option"
  ce_close :: "goerr option"
  ce_rename :: "goerr option"
  ce_reopen :: bool
  ce_open :: "goerr option"
  ce_syncDir :: "goerr option"

definition rc_compact :: "compact_env \<Rightarrow> replay_cache \<Rightarrow> goerr option \<times> replay_cache" where
  "rc_compact env c =
     (case ce_temporary env of
        Some e \<Rightarrow> (Some e, c)
      | None \<Rightarrow>
          (case ce_close env of
             Some e \<Rightarrow> (Some e, c)
           | None \<Rightarrow>
               (case ce_rename env of
                  Some e \<Rightarrow> (Some e, c\<lparr>rc_file := ce_reopen env\<rparr>)
                | None \<Rightarrow>
                    let content = concat (map (\<lambda>(nonce, expiry). replay_record nonce expiry) (rc_expires c));
                        c = c\<lparr>rc_disk := \<lparr>dk_durable = content, dk_tail = [],
                                 dk_old = Some (dk_durable (rc_disk c), dk_tail (rc_disk c))\<rparr>\<rparr>
                    in case ce_open env of
                         Some e \<Rightarrow> (Some e, c\<lparr>rc_file := False\<rparr>)
                       | None \<Rightarrow>
                           (case ce_syncDir env of
                              Some e \<Rightarrow> (Some e, c)
                            | None \<Rightarrow> (None, c\<lparr>rc_disk := (rc_disk c)\<lparr>dk_old := None\<rparr>, rc_writesSince := 0\<rparr>)))))"

text \<open>A section of \<open>Accept\<close> either returns or waits for the commit of a transaction.\<close>

datatype accept_step = Returned bool "goerr option" | Waiting u64

text \<open>Entering the nonce; \<open>wr\<close> is the outcome of the append: an error with the number of bytes that were written.\<close>

definition accept_store :: "(goerr \<times> nat) option \<Rightarrow> bytes \<Rightarrow> int \<Rightarrow> replay_cache \<Rightarrow> accept_step \<times> replay_cache" where
  "accept_store wr nonce now c =
     (let expiry = now + 2 * MaxClockSkew;
          rec = replay_record nonce expiry;
          d = rc_disk c
      in if rc_file c then
           (case wr of
              Some (err, k) \<Rightarrow>
                (case markPersistenceFailure err (c\<lparr>rc_disk := d\<lparr>dk_tail := dk_tail d @ take k rec\<rparr>\<rparr>) of
                   (e, c) \<Rightarrow> (Returned False (Some e), c))
            | None \<Rightarrow>
                let thisTx = rc_currentTx c + 1;
                    c = c\<lparr>rc_disk := d\<lparr>dk_tail := dk_tail d @ rec\<rparr>, rc_writesSince := rc_writesSince c + 1,
                          rc_currentTx := thisTx, rc_expires := AList.update nonce expiry (rc_expires c),
                          rc_queue := heap_Push snd (nonce, expiry) (rc_queue c)\<rparr>
                in if rc_persistent c \<and> 0 < thisTx then (Waiting thisTx, c) else (Returned True None, c))
         else (Returned True None,
               c\<lparr>rc_expires := AList.update nonce expiry (rc_expires c),
                 rc_queue := heap_Push snd (nonce, expiry) (rc_queue c)\<rparr>))"

definition accept_begin :: "compact_env \<Rightarrow> (goerr \<times> nat) option \<Rightarrow> bytes \<Rightarrow> int \<Rightarrow> replay_cache \<Rightarrow> accept_step \<times> replay_cache" where
  "accept_begin env wr nonce now c =
     (if rc_closed c then (Returned False (Some (Errorf ''replay cache is closed'')), c)
      else case rc_persistErr c of
        Some e \<Rightarrow> (Returned False (Some e), c)
      | None \<Rightarrow>
        if rc_persistent c \<and> \<not> rc_file c then
          (case markPersistenceFailure (Errorf ''replay cache file is unavailable'') c of (e, c) \<Rightarrow> (Returned False (Some e), c))
        else
          let c = rc_purge now c
          in if map_of (rc_expires c) nonce \<noteq> None then (Returned False None, c)
             else if length (rc_expires c) \<ge> 200000 then (Returned False (Some (Errorf ''replay cache capacity exceeded'')), c)
             else
               (case (if rc_file c \<and> rc_writesSince c \<ge> replayCompactAfter then rc_compact env c else (None, c)) of
                  (Some err, c) \<Rightarrow> (case markPersistenceFailure err c of (e, c) \<Rightarrow> (Returned False (Some e), c))
                | (None, c) \<Rightarrow> accept_store wr nonce now c))"

text \<open>The wait loop: \<open>None\<close> while the condition is not met.\<close>

definition accept_finish :: "u64 \<Rightarrow> replay_cache \<Rightarrow> (bool \<times> goerr option) option" where
  "accept_finish thisTx c =
     (if rc_syncedTx c < thisTx \<and> rc_persistErr c = None then None
      else case rc_persistErr c of Some e \<Rightarrow> Some (False, Some e) | None \<Rightarrow> Some (True, None))"

definition rc_synced :: "disk \<Rightarrow> disk" where
  "rc_synced d = d\<lparr>dk_durable := dk_durable d @ dk_tail d, dk_tail := []\<rparr>"

text \<open>One round of \<open>groupCommitLoop\<close>; \<open>sync\<close> is the outcome of \<open>file.Sync\<close>.\<close>

definition commit_tick :: "goerr option \<Rightarrow> replay_cache \<Rightarrow> replay_cache" where
  "commit_tick sync c =
     (if rc_file c \<and> rc_syncedTx c < rc_currentTx c then
        (case sync of
           Some err \<Rightarrow> snd (markPersistenceFailure err c)
         | None \<Rightarrow> c\<lparr>rc_disk := rc_synced (rc_disk c), rc_syncedTx := rc_currentTx c\<rparr>)
      else c)"

text \<open>Closing the last reference: no more accepts, a final commit, then the file is synced and closed.\<close>

definition ReplayCache_Close :: "goerr option \<Rightarrow> goerr option \<Rightarrow> replay_cache \<Rightarrow> replay_cache" where
  "ReplayCache_Close sync1 sync2 c =
     (let c = c\<lparr>rc_closed := True\<rparr>;
          c = (if rc_persistent c then commit_tick sync1 c else c)
      in if \<not> rc_file c then c
         else c\<lparr>rc_disk := (case sync2 of None \<Rightarrow> rc_synced (rc_disk c) | Some _ \<Rightarrow> rc_disk c), rc_file := False\<rparr>)"

subsection \<open>Purging is filtering by time\<close>

lemma length_heap_down [simp]: "length (heap_down key xs i n) = length xs"
  by (induction key xs i n rule: heap_down.induct) (subst heap_down.simps, simp add: Let_def)

lemma length_heap_Pop [simp]: "length (heap_Pop key h) = length h - 1"
  by (simp add: heap_Pop_def Let_def)

definition forget :: "replay_expiry \<Rightarrow> (bytes \<times> int) list \<Rightarrow> (bytes \<times> int) list" where
  "forget x m = (if map_of m (fst x) = Some (snd x) then AList.delete (fst x) m else m)"

lemma purge_loop_pop_due:
  "purge_loop now expires queue =
     (case pop_due heap_front (heap_Pop snd) length (\<lambda>x. snd x \<le> now) queue of
        (xs, q) \<Rightarrow> (fold forget xs expires, q))"
proof (induction now expires queue rule: purge_loop.induct)
  case (1 now expires queue)
  show ?case
  proof (cases "queue \<noteq> [] \<and> \<not> now < snd (queue ! 0)")
    case True
    then have "purge_loop now expires queue = purge_loop now (forget (queue ! 0) expires) (heap_Pop snd queue)"
      by (simp add: purge_loop.simps [of now expires] Let_def forget_def)
    moreover have "heap_front queue = Some (queue ! 0)" "snd (queue ! 0) \<le> now" "length (heap_Pop snd queue) < length queue"
      using True by (auto simp: heap_front_def)
    moreover obtain xs q where r: "pop_due heap_front (heap_Pop snd) length (\<lambda>x. snd x \<le> now) (heap_Pop snd queue) = (xs, q)" by fastforce
    moreover have "pop_due heap_front (heap_Pop snd) length (\<lambda>x. snd x \<le> now) queue = (queue ! 0 # xs, q)"
      by (subst pop_due.simps) (use calculation in simp)
    ultimately show ?thesis using 1 [OF True refl refl] by (simp add: forget_def)
  next
    case False
    then have "purge_loop now expires queue = (expires, queue)" by (subst purge_loop.simps) auto
    moreover have "pop_due heap_front (heap_Pop snd) length (\<lambda>x. snd x \<le> now) queue = ([], queue)"
      by (subst pop_due.simps) (use False in \<open>auto simp: heap_front_def\<close>)
    ultimately show ?thesis by simp
  qed
qed

lemma map_of_forget: "map_of (forget x m) n = (if map_of m n = Some (snd x) \<and> n = fst x then None else map_of m n)"
  by (auto simp: forget_def delete_conv')

lemma map_of_fold_forget:
  "map_of (fold forget xs m) n = (case map_of m n of None \<Rightarrow> None | Some e \<Rightarrow> if (n, e) \<in> set xs then None else Some e)"
  by (induction xs arbitrary: m) (auto simp: map_of_forget split: option.splits)

lemma fold_forget_bounds:
  "length (fold forget xs m) \<le> length m" "set (fold forget xs m) \<subseteq> set m" "distinct (map fst m) \<Longrightarrow> distinct (map fst (fold forget xs m))"
proof -
  have *: "length (forget x m) \<le> length m \<and> set (forget x m) \<subseteq> set m \<and> (distinct (map fst m) \<longrightarrow> distinct (map fst (forget x m)))" for x m
    using length_delete_le [of "fst x" m] distinct_delete [of m "fst x"] by (auto simp: forget_def AList.delete_eq)
  show "length (fold forget xs m) \<le> length m"
    by (induction xs arbitrary: m) (use * le_trans in \<open>fastforce+\<close>)
  show "set (fold forget xs m) \<subseteq> set m"
    by (induction xs arbitrary: m) (use * in \<open>fastforce+\<close>)
  show "distinct (map fst m) \<Longrightarrow> distinct (map fst (fold forget xs m))"
    by (induction xs arbitrary: m) (use * in \<open>fastforce+\<close>)
qed

text \<open>The invariant of the tables: the queue is a heap that has an entry for everything in the map.\<close>

definition table_ok :: "replay_cache \<Rightarrow> bool" where
  "table_ok c \<longleftrightarrow> heap_ok snd (rc_queue c) (length (rc_queue c)) \<and> distinct (map fst (rc_expires c)) \<and>
     set (rc_expires c) \<subseteq> set (rc_queue c)"

lemma rc_purge_fields [simp]:
  "rc_file (rc_purge now c) = rc_file c" "rc_disk (rc_purge now c) = rc_disk c" "rc_writesSince (rc_purge now c) = rc_writesSince c"
  "rc_persistent (rc_purge now c) = rc_persistent c" "rc_persistErr (rc_purge now c) = rc_persistErr c"
  "rc_syncedTx (rc_purge now c) = rc_syncedTx c" "rc_currentTx (rc_purge now c) = rc_currentTx c" "rc_closed (rc_purge now c) = rc_closed c"
  by (simp_all add: rc_purge_def split: prod.splits)

lemma rc_purge_spec:
  assumes "table_ok c"
  shows "table_ok (rc_purge now c)" "set (rc_expires (rc_purge now c)) = {x \<in> set (rc_expires c). now < snd x}"
proof -
  obtain xs q where pd: "pop_due heap_front (heap_Pop snd) length (\<lambda>x. snd x \<le> now) (rc_queue c) = (xs, q)" by fastforce
  have t: "heap_ok snd (rc_queue c) (length (rc_queue c))" "distinct (map fst (rc_expires c))" "set (rc_expires c) \<subseteq> set (rc_queue c)"
    using assms by (auto simp: table_ok_def)
  have p: "heap_ok snd q (length q)" "mset (rc_queue c) = mset xs + mset q" "\<forall>x \<in> set xs. snd x \<le> now" "\<forall>x \<in> set q. now < snd x"
    using slice_heap.pop_due_exact [OF t(1)] pd by (auto simp: size_mset)
  have q: "set (rc_queue c) = set xs \<union> set q" using arg_cong [OF p(2), of set_mset] by simp
  let ?e = "fold forget xs (rc_expires c)"
  have c': "rc_expires (rc_purge now c) = ?e" "rc_queue (rc_purge now c) = q" by (simp_all add: rc_purge_def purge_loop_pop_due pd)
  have d: "distinct (map fst ?e)" by (rule fold_forget_bounds(3) [OF t(2)])
  have "(n, e) \<in> set ?e \<longleftrightarrow> (n, e) \<in> set (rc_expires c) \<and> now < e" for n e
  proof -
    have "(n, e) \<in> set ?e \<longleftrightarrow> map_of ?e n = Some e" using d by simp
    also have "\<dots> \<longleftrightarrow> map_of (rc_expires c) n = Some e \<and> (n, e) \<notin> set xs"
      by (auto simp: map_of_fold_forget split: option.splits)
    also have "\<dots> \<longleftrightarrow> (n, e) \<in> set (rc_expires c) \<and> (n, e) \<notin> set xs" using t(2) by simp
    also have "\<dots> \<longleftrightarrow> (n, e) \<in> set (rc_expires c) \<and> now < e" using q t(3) p(3,4) by fastforce
    finally show ?thesis .
  qed
  then show live: "set (rc_expires (rc_purge now c)) = {x \<in> set (rc_expires c). now < snd x}" using c'(1) by auto
  have "set ?e \<subseteq> set q" using live c'(1) t(3) q p(3) by fastforce
  then show "table_ok (rc_purge now c)" using p(1) d c' by (simp add: table_ok_def)
qed

lemma AList_update_new: "k \<notin> fst ` set xs \<Longrightarrow> AList.update k v xs = xs @ [(k, v)]"
  by (induction xs) auto

lemma table_ok_insert:
  assumes "table_ok c" "map_of (rc_expires c) n = None"
    "rc_expires c' = AList.update n e (rc_expires c)" "rc_queue c' = heap_Push snd (n, e) (rc_queue c)"
  shows "table_ok c'" "set (rc_expires c') = insert (n, e) (set (rc_expires c))"
proof -
  have t: "heap_ok snd (rc_queue c) (length (rc_queue c))" "distinct (map fst (rc_expires c))" "set (rc_expires c) \<subseteq> set (rc_queue c)"
    using assms(1) by (auto simp: table_ok_def)
  have new: "n \<notin> fst ` set (rc_expires c)" using assms(2) by (simp add: map_of_eq_None_iff)
  then have u: "AList.update n e (rc_expires c) = rc_expires c @ [(n, e)]" by (rule AList_update_new)
  show "set (rc_expires c') = insert (n, e) (set (rc_expires c))" using u assms(3) by simp
  have "set (rc_queue c') = insert (n, e) (set (rc_queue c))"
    using arg_cong [OF slice_heap.elems_push [OF t(1), of "(n, e)"], of set_mset] assms(4) by simp
  then show "table_ok c'"
    using t u new assms(3,4) slice_heap.inv_push [OF t(1), of "(n, e)"] by (auto simp: table_ok_def)
qed

subsection \<open>What a section of Accept does\<close>

lemma rc_compact_fields:
  assumes "rc_compact env c = (e, c')"
  shows "rc_expires c' = rc_expires c" "rc_queue c' = rc_queue c" "rc_persistent c' = rc_persistent c"
    "rc_persistErr c' = rc_persistErr c" "rc_syncedTx c' = rc_syncedTx c" "rc_currentTx c' = rc_currentTx c" "rc_closed c' = rc_closed c"
  using assms by (auto simp: rc_compact_def Let_def split: option.splits)

text \<open>\<open>granted\<close>: the nonce was not known and is entered; otherwise no nonce is entered.\<close>

definition granted :: "accept_step \<Rightarrow> bool" where
  "granted r = (case r of Returned ok _ \<Rightarrow> ok | Waiting _ \<Rightarrow> True)"

definition live_at :: "int \<Rightarrow> replay_cache \<Rightarrow> (bytes \<times> int) set" where
  "live_at now c = {x \<in> set (rc_expires c). now < snd x}"

text \<open>The cache after the checks, before the new nonce is entered.\<close>

definition accept_ready :: "compact_env \<Rightarrow> int \<Rightarrow> replay_cache \<Rightarrow> goerr option \<times> replay_cache" where
  "accept_ready env now c =
     (let c = rc_purge now c
      in if rc_file c \<and> rc_writesSince c \<ge> replayCompactAfter then rc_compact env c else (None, c))"

lemma accept_ready_table:
  assumes "table_ok c" "accept_ready env now c = (e, c1)"
  shows "table_ok c1" "set (rc_expires c1) = live_at now c" "rc_persistent c1 = rc_persistent c"
    "rc_persistErr c1 = rc_persistErr c" "rc_syncedTx c1 = rc_syncedTx c" "rc_currentTx c1 = rc_currentTx c" "rc_closed c1 = rc_closed c"
    "rc_expires c1 = rc_expires (rc_purge now c)"
proof -
  have "rc_expires c1 = rc_expires (rc_purge now c) \<and> rc_queue c1 = rc_queue (rc_purge now c) \<and> rc_persistent c1 = rc_persistent c \<and>
    rc_persistErr c1 = rc_persistErr c \<and> rc_syncedTx c1 = rc_syncedTx c \<and> rc_currentTx c1 = rc_currentTx c \<and> rc_closed c1 = rc_closed c"
    using assms(2) rc_compact_fields [of env "rc_purge now c" e c1] by (auto simp: accept_ready_def Let_def split: if_splits)
  then show "table_ok c1" "set (rc_expires c1) = live_at now c" "rc_persistent c1 = rc_persistent c"
    "rc_persistErr c1 = rc_persistErr c" "rc_syncedTx c1 = rc_syncedTx c" "rc_currentTx c1 = rc_currentTx c" "rc_closed c1 = rc_closed c"
    "rc_expires c1 = rc_expires (rc_purge now c)"
    using rc_purge_spec [OF assms(1), of now] by (auto simp: table_ok_def live_at_def)
qed

lemma accept_begin_ready:
  assumes "\<not> rc_closed c" "rc_persistErr c = None" "rc_persistent c \<longrightarrow> rc_file c"
    "map_of (rc_expires (rc_purge now c)) nonce = None" "length (rc_expires (rc_purge now c)) < 200000"
  shows "accept_begin env wr nonce now c =
    (case accept_ready env now c of
       (Some err, c) \<Rightarrow> (case markPersistenceFailure err c of (e, c) \<Rightarrow> (Returned False (Some e), c))
     | (None, c) \<Rightarrow> accept_store wr nonce now c)"
  using assms unfolding accept_begin_def accept_ready_def Let_def by (cases "rc_persistent c") simp_all

text \<open>The calls that do not get as far as entering the nonce leave a known or a failed cache.\<close>

lemma accept_begin_early:
  assumes "rc_closed c \<or> rc_persistErr c \<noteq> None \<or> (rc_persistent c \<and> \<not> rc_file c) \<or>
      map_of (rc_expires (rc_purge now c)) nonce \<noteq> None \<or> 200000 \<le> length (rc_expires (rc_purge now c))"
    and "accept_begin env wr nonce now c = (r, c')"
  shows "\<not> granted r \<and> (c' = c \<or> c' = rc_purge now c \<or> (\<exists>e. rc_persistErr c = None \<and> c' = c\<lparr>rc_persistErr := Some e\<rparr>))"
  using assms by (auto simp: accept_begin_def granted_def markPersistenceFailure_def Let_def split: if_splits option.splits)

text \<open>All ways a call can go: no nonce entered, an error after the table was purged, or the nonce entered.\<close>

lemma accept_begin_cases:
  assumes "accept_begin env wr nonce now c = (r, c')"
  obtains (early) "\<not> granted r" "c' = c \<or> c' = rc_purge now c \<or> (\<exists>e. rc_persistErr c = None \<and> c' = c\<lparr>rc_persistErr := Some e\<rparr>)"
  | (failed) e f c1 where "\<not> granted r" "rc_persistErr c = None" "accept_ready env now c = (f, c1)" "rc_persistErr c' = Some e"
      "rc_expires c' = rc_expires c1" "rc_queue c' = rc_queue c1" "rc_persistent c' = rc_persistent c1" "rc_closed c' = rc_closed c1"
      "rc_syncedTx c' = rc_syncedTx c1" "rc_currentTx c' = rc_currentTx c1" "dk_durable (rc_disk c') = dk_durable (rc_disk c1)"
      "dk_old (rc_disk c') = dk_old (rc_disk c1)" "\<exists>x. dk_tail (rc_disk c') = dk_tail (rc_disk c1) @ x"
  | (entered) c1 where "granted r" "accept_ready env now c = (None, c1)" "rc_persistErr c = None" "\<not> rc_closed c"
      "map_of (rc_expires (rc_purge now c)) nonce = None" "length (rc_expires (rc_purge now c)) < 200000"
      "accept_store None nonce now c1 = (r, c')"
proof (cases "rc_closed c \<or> rc_persistErr c \<noteq> None \<or> (rc_persistent c \<and> \<not> rc_file c) \<or>
      map_of (rc_expires (rc_purge now c)) nonce \<noteq> None \<or> 200000 \<le> length (rc_expires (rc_purge now c))")
  case True
  from accept_begin_early [OF this assms] show thesis using early by blast
next
  case False
  then have ok: "\<not> rc_closed c" "rc_persistErr c = None" "rc_persistent c \<longrightarrow> rc_file c"
    "map_of (rc_expires (rc_purge now c)) nonce = None" "length (rc_expires (rc_purge now c)) < 200000" by auto
  obtain f c1 where rdy: "accept_ready env now c = (f, c1)" by (cases "accept_ready env now c")
  have pe: "rc_persistErr c1 = None"
    using rdy ok(2) rc_compact_fields(4) [of env "rc_purge now c" f c1] by (auto simp: accept_ready_def Let_def split: if_splits)
  note eq = accept_begin_ready [OF ok, of env wr, unfolded rdy]
  show thesis
  proof (cases f)
    case (Some err)
    then show thesis using failed [of f c1 err] eq assms ok rdy pe by (auto simp: markPersistenceFailure_def granted_def)
  next
    case None
    then have st: "accept_store wr nonce now c1 = (r, c')" using eq assms by simp
    show thesis
    proof (cases "\<exists>w. wr = Some w \<and> rc_file c1")
      case True
      then show thesis using failed [of f c1] st ok rdy pe
        by (auto simp: accept_store_def Let_def markPersistenceFailure_def granted_def split: prod.splits)
    next
      case False
      then have "accept_store None nonce now c1 = (r, c')" "granted r"
        using st by (auto simp: accept_store_def Let_def granted_def split: option.splits if_splits)
      then show thesis using entered [of c1] rdy None ok by simp
    qed
  qed
qed

lemma accept_store_entered:
  assumes "accept_store None nonce now c1 = (r, c')"
  shows "rc_expires c' = AList.update nonce (now + 2 * MaxClockSkew) (rc_expires c1)"
    "rc_queue c' = heap_Push snd (nonce, now + 2 * MaxClockSkew) (rc_queue c1)"
    "rc_persistent c' = rc_persistent c1" "rc_closed c' = rc_closed c1" "rc_persistErr c' = rc_persistErr c1" "rc_syncedTx c' = rc_syncedTx c1"
    "rc_file c1 \<Longrightarrow> dk_tail (rc_disk c') = dk_tail (rc_disk c1) @ replay_record nonce (now + 2 * MaxClockSkew) \<and>
       dk_durable (rc_disk c') = dk_durable (rc_disk c1) \<and> dk_old (rc_disk c') = dk_old (rc_disk c1) \<and> rc_currentTx c' = rc_currentTx c1 + 1 \<and>
       r = (if rc_persistent c1 \<and> 0 < rc_currentTx c1 + 1 then Waiting (rc_currentTx c1 + 1) else Returned True None)"
    "\<not> rc_file c1 \<Longrightarrow> rc_disk c' = rc_disk c1 \<and> rc_currentTx c' = rc_currentTx c1 \<and> r = Returned True None"
  using assms by (auto simp: accept_store_def Let_def split: if_splits)

text \<open>The effect on the table.\<close>

lemma accept_begin_table:
  assumes "table_ok c" "accept_begin env wr nonce now c = (r, c')"
  shows "table_ok c'"
    "granted r \<Longrightarrow> set (rc_expires c') = insert (nonce, now + 2 * MaxClockSkew) (live_at now c) \<and>
        (\<forall>e. (nonce, e) \<notin> live_at now c) \<and> rc_persistErr c = None \<and> \<not> rc_closed c \<and> card (live_at now c) < 200000"
    "\<not> granted r \<Longrightarrow> set (rc_expires c') = set (rc_expires c) \<or> set (rc_expires c') = live_at now c"
proof -
  from assms(2) show "table_ok c'"
  proof (cases rule: accept_begin_cases)
    case early
    have "table_ok (c\<lparr>rc_persistErr := e\<rparr>)" for e using assms(1) by (simp add: table_ok_def)
    with early(2) show ?thesis using assms(1) rc_purge_spec(1) [OF assms(1)] by auto
  next
    case (failed e f c1)
    with accept_ready_table(1) [OF assms(1) failed(3)] show ?thesis by (simp add: table_ok_def)
  next
    case (entered c1)
    note rt = accept_ready_table [OF assms(1) entered(2)]
    have "map_of (rc_expires c1) nonce = None" using entered(5) rt(8) by simp
    from table_ok_insert(1) [OF rt(1) this accept_store_entered(1,2) [OF entered(7)]] show ?thesis .
  qed
next
  assume g: "granted r"
  from assms(2) show "set (rc_expires c') = insert (nonce, now + 2 * MaxClockSkew) (live_at now c) \<and>
        (\<forall>e. (nonce, e) \<notin> live_at now c) \<and> rc_persistErr c = None \<and> \<not> rc_closed c \<and> card (live_at now c) < 200000"
  proof (cases rule: accept_begin_cases)
    case (entered c1)
    note rt = accept_ready_table [OF assms(1) entered(2)]
    have n: "map_of (rc_expires c1) nonce = None" using entered(5) rt(8) by simp
    have "set (rc_expires c') = insert (nonce, now + 2 * MaxClockSkew) (set (rc_expires c1))"
      by (rule table_ok_insert(2) [OF rt(1) n]) (use accept_store_entered [OF entered(7)] in auto)
    moreover have "\<forall>e. (nonce, e) \<notin> live_at now c" using n rt(2) by (metis fst_conv image_eqI map_of_eq_None_iff)
    moreover have "card (live_at now c) < 200000"
      using entered(6) rt(2,8) card_length [of "rc_expires c1"] by simp
    ultimately show ?thesis using rt(2) entered(3,4) by auto
  qed (use g in auto)
next
  assume g: "\<not> granted r"
  from assms(2) show "set (rc_expires c') = set (rc_expires c) \<or> set (rc_expires c') = live_at now c"
  proof (cases rule: accept_begin_cases)
    case early
    then show ?thesis using rc_purge_spec(2) [OF assms(1)] by (auto simp: live_at_def)
  next
    case failed
    then show ?thesis using accept_ready_table(2) [OF assms(1)] by auto
  qed (use g in auto)
qed

subsection \<open>The cache in memory against the history of accepted nonces\<close>

datatype rc_call = CallAccept bytes | CallCheck bytes

definition rc_call_step :: "rc_call \<Rightarrow> int \<Rightarrow> replay_cache \<Rightarrow> (bool \<times> goerr option) \<times> replay_cache" where
  "rc_call_step q now c =
     (case q of
        CallAccept nonce \<Rightarrow>
          (case accept_begin \<lparr>ce_temporary = None, ce_close = None, ce_rename = None, ce_reopen = True, ce_open = None, ce_syncDir = None\<rparr>
                  None nonce now c of
             (Returned ok e, c) \<Rightarrow> ((ok, e), c)
           | (Waiting tx, c) \<Rightarrow> ((True, None), c))
      | CallCheck nonce \<Rightarrow> (case ReplayCache_Check nonce now c of (b, c) \<Rightarrow> ((b, None), c)))"

fun rc_calls :: "(rc_call \<times> int) list \<Rightarrow> replay_cache \<Rightarrow> (bool \<times> goerr option) list" where
  "rc_calls [] c = []"
| "rc_calls ((q, now) # qs) c = (case rc_call_step q now c of (r, c) \<Rightarrow> r # rc_calls qs c)"

text \<open>The specification keeps everything that was ever accepted, with the time of acceptance.\<close>

definition spec_live :: "int \<Rightarrow> (bytes \<times> int) list \<Rightarrow> (bytes \<times> int) list" where
  "spec_live now hist = filter (\<lambda>(m, t). now < t + 2 * MaxClockSkew) hist"

fun spec_calls :: "(rc_call \<times> int) list \<Rightarrow> (bytes \<times> int) list \<Rightarrow> (bool \<times> goerr option) list" where
  "spec_calls [] hist = []"
| "spec_calls ((CallCheck nonce, now) # qs) hist = (nonce \<in> fst ` set (spec_live now hist), None) # spec_calls qs hist"
| "spec_calls ((CallAccept nonce, now) # qs) hist =
     (if nonce \<in> fst ` set (spec_live now hist) then (False, None) # spec_calls qs hist
      else if 200000 \<le> length (spec_live now hist) then (False, Some (Errorf ''replay cache capacity exceeded'')) # spec_calls qs hist
      else (True, None) # spec_calls qs ((nonce, now) # hist))"

definition rc_refines :: "int \<Rightarrow> replay_cache \<Rightarrow> (bytes \<times> int) list \<Rightarrow> bool" where
  "rc_refines now c hist \<longleftrightarrow> table_ok c \<and> \<not> rc_closed c \<and> rc_persistErr c = None \<and> \<not> rc_persistent c \<and> \<not> rc_file c \<and>
     live_at now c = (\<lambda>(m, t). (m, t + 2 * MaxClockSkew)) ` set (spec_live now hist) \<and> distinct (map fst (spec_live now hist))"

lemma spec_live_later: "now \<le> now' \<Longrightarrow> spec_live now' hist = filter (\<lambda>(m, t). now' < t + 2 * MaxClockSkew) (spec_live now hist)"
  by (auto simp: spec_live_def intro!: filter_cong)

lemma rc_refines_later:
  assumes "rc_refines now c hist" "now \<le> now'"
  shows "rc_refines now' c hist"
proof -
  have "live_at now' c = {x \<in> live_at now c. now' < snd x}" using assms(2) by (auto simp: live_at_def)
  also have "\<dots> = (\<lambda>(m, t). (m, t + 2 * MaxClockSkew)) ` set (spec_live now' hist)"
    using assms by (auto simp: rc_refines_def spec_live_later [OF assms(2)])
  finally show ?thesis using assms by (auto simp: rc_refines_def spec_live_later [OF assms(2)] distinct_map_filter)
qed

lemma rc_refines_purged:
  assumes "rc_refines now c hist"
  shows "rc_refines now (rc_purge now c) hist"
    "(\<exists>e. map_of (rc_expires (rc_purge now c)) nonce = Some e) \<longleftrightarrow> nonce \<in> fst ` set (spec_live now hist)"
    "length (rc_expires (rc_purge now c)) = length (spec_live now hist)"
proof -
  have r: "table_ok c" "live_at now c = (\<lambda>(m, t). (m, t + 2 * MaxClockSkew)) ` set (spec_live now hist)" "distinct (map fst (spec_live now hist))"
    using assms by (auto simp: rc_refines_def)
  note p = rc_purge_spec [OF r(1), of now]
  have e: "set (rc_expires (rc_purge now c)) = live_at now c" using p(2) by (simp add: live_at_def)
  then have "live_at now (rc_purge now c) = live_at now c" by (auto simp: live_at_def)
  then show "rc_refines now (rc_purge now c) hist" using assms p(1) by (simp add: rc_refines_def)
  have f: "fst ` live_at now c = fst ` set (spec_live now hist)" unfolding r(2) by (force simp: image_iff)
  have "map_of (rc_expires (rc_purge now c)) nonce = None \<longleftrightarrow> nonce \<notin> fst ` set (spec_live now hist)"
    by (simp add: map_of_eq_None_iff e f)
  then show "(\<exists>e. map_of (rc_expires (rc_purge now c)) nonce = Some e) \<longleftrightarrow> nonce \<in> fst ` set (spec_live now hist)"
    by (metis option.exhaust option.distinct(1))
  have d: "distinct (map fst (rc_expires (rc_purge now c)))" using p(1) by (simp add: table_ok_def)
  have "length (rc_expires (rc_purge now c)) = card (fst ` set (rc_expires (rc_purge now c)))"
    using distinct_card [OF d] by simp
  also have "\<dots> = length (spec_live now hist)" using distinct_card [OF r(3)] by (simp add: e f)
  finally show "length (rc_expires (rc_purge now c)) = length (spec_live now hist)" .
qed

lemma accept_begin_memory:
  assumes "rc_refines now c hist"
  shows "accept_begin env wr nonce now c =
    (if nonce \<in> fst ` set (spec_live now hist) then (Returned False None, rc_purge now c)
     else if 200000 \<le> length (spec_live now hist) then (Returned False (Some (Errorf ''replay cache capacity exceeded'')), rc_purge now c)
     else accept_store wr nonce now (rc_purge now c))"
proof -
  have m: "\<not> rc_closed c" "rc_persistErr c = None" "\<not> rc_persistent c" "\<not> rc_file c" using assms by (auto simp: rc_refines_def)
  note p = rc_refines_purged(2,3) [OF assms]
  show ?thesis using m p(2) p(1) [of nonce] unfolding accept_begin_def Let_def by simp
qed

lemma rc_refines_store:
  assumes "rc_refines now c hist" "nonce \<notin> fst ` set (spec_live now hist)"
    and "accept_store wr nonce now (rc_purge now c) = (r, c')"
  shows "r = Returned True None" "rc_refines now c' ((nonce, now) # hist)"
proof -
  let ?p = "rc_purge now c"
  note p = rc_refines_purged [OF assms(1)]
  have m: "\<not> rc_closed ?p" "rc_persistErr ?p = None" "\<not> rc_persistent ?p" "\<not> rc_file ?p" "table_ok ?p" "distinct (map fst (spec_live now hist))"
    "live_at now ?p = (\<lambda>(m, t). (m, t + 2 * MaxClockSkew)) ` set (spec_live now hist)"
    using p(1) by (auto simp: rc_refines_def)
  have eq: "r = Returned True None \<and> c' = ?p\<lparr>rc_expires := AList.update nonce (now + 2 * MaxClockSkew) (rc_expires ?p),
      rc_queue := heap_Push snd (nonce, now + 2 * MaxClockSkew) (rc_queue ?p)\<rparr>"
    using assms(3) m(4) by (simp add: accept_store_def Let_def)
  then show "r = Returned True None" by simp
  have new: "map_of (rc_expires ?p) nonce = None" using p(2) [of nonce] assms(2) by (cases "map_of (rc_expires ?p) nonce") simp_all
  have t: "table_ok c'" "set (rc_expires c') = insert (nonce, now + 2 * MaxClockSkew) (set (rc_expires ?p))"
    by (rule table_ok_insert [OF m(5) new]; simp add: eq)+
  have sl: "spec_live now ((nonce, now) # hist) = (nonce, now) # spec_live now hist" by (simp add: spec_live_def MaxClockSkew_def)
  have "live_at now c' = insert (nonce, now + 2 * MaxClockSkew) (live_at now ?p)"
    using t(2) by (auto simp: live_at_def MaxClockSkew_def)
  then have "live_at now c' = (\<lambda>(m, t). (m, t + 2 * MaxClockSkew)) ` set (spec_live now ((nonce, now) # hist))"
    using m(7) sl by simp
  then show "rc_refines now c' ((nonce, now) # hist)"
    using t(1) m eq assms(2) sl by (simp add: rc_refines_def)
qed

lemma rc_calls_spec:
  assumes "rc_refines now0 c hist" "sorted (now0 # map snd qs)"
  shows "rc_calls qs c = spec_calls qs hist"
  using assms
proof (induction qs arbitrary: now0 c hist)
  case (Cons x qs)
  obtain q now where x: "x = (q, now)" by fastforce
  have r: "rc_refines now c hist" using rc_refines_later [OF Cons.prems(1)] Cons.prems(2) x by simp
  have s: "sorted (now # map snd qs)" using Cons.prems(2) x by simp
  note p = rc_refines_purged [OF r]
  have ih: "rc_calls qs c' = spec_calls qs h" if "rc_refines now c' h" for c' h using Cons.IH [OF that s] .
  show ?case
  proof (cases q)
    case (CallCheck nonce)
    then show ?thesis using x p(2) [of nonce] ih [OF p(1)] by (simp add: rc_call_step_def ReplayCache_Check_def Let_def)
  next
    case (CallAccept nonce)
    note ab = accept_begin_memory [OF r, of _ None nonce]
    consider (known) "nonce \<in> fst ` set (spec_live now hist)" | (full) "nonce \<notin> fst ` set (spec_live now hist)" "200000 \<le> length (spec_live now hist)"
      | (new) "nonce \<notin> fst ` set (spec_live now hist)" "length (spec_live now hist) < 200000" by linarith
    then show ?thesis
    proof cases
      case new
      obtain r' c' where st: "accept_store None nonce now (rc_purge now c) = (r', c')" by fastforce
      note f = rc_refines_store [OF r new(1) st]
      show ?thesis using new f(1) st ab ih [OF f(2)] x CallAccept by (simp add: rc_call_step_def)
    qed (use ab ih [OF p(1)] x CallAccept in \<open>simp_all add: rc_call_step_def\<close>)
  qed
qed simp

text \<open>
  C17: The in-memory replay cache is exact. For every sequence of \<open>Accept\<close> and \<open>Check\<close> calls on a new cache with times that do not
  go back, each answer is the one of a specification that keeps the whole history of accepted nonces: a
  nonce is refused exactly while an acceptance of it is less than twice the clock skew old, and a fresh
  one is refused only when 200000 nonces are live. Neither the expiry heap nor the purging, which forgets nonces, can be observed.
\<close>

theorem replay_cache_exact:
  assumes "sorted (map snd qs)"
  shows "rc_calls qs NewReplayCache = spec_calls qs []"
proof (cases qs)
  case (Cons x qs')
  have "rc_refines (snd x) NewReplayCache []"
    by (simp add: rc_refines_def NewReplayCache_def table_ok_def live_at_def spec_live_def heap_ok_def)
  moreover have "sorted (snd x # map snd qs)" using assms Cons by simp
  ultimately show ?thesis by (rule rc_calls_spec)
qed simp

theorem replay_cache_exact_witness:
  "sorted (map snd [(CallAccept [1, 2], 0::int), (CallCheck [3], 5), (CallAccept [1, 2], 179999999999), (CallAccept [1, 2], 180000000000)]) \<and>
   rc_calls [(CallAccept [1, 2], 0), (CallCheck [3], 5), (CallAccept [1, 2], 179999999999), (CallAccept [1, 2], 180000000000)] NewReplayCache =
     [(True, None), (False, None), (False, None), (True, None)]"
  using replay_cache_exact [of "[(CallAccept [1, 2], 0), (CallCheck [3], 5), (CallAccept [1, 2], 179999999999), (CallAccept [1, 2], 180000000000)]"]
  by (simp add: spec_live_def MaxClockSkew_def)

end
