(* ===== verification/ReplayDurable.thy ===== *)
theory ReplayDurable
  imports ReplayCache "HOL-Library.Multiset"
begin

text \<open>
  What the replay file guarantees (\<^verbatim>\<open>src/pkg/auth/auth.go\<close>): records read back, a compacted file
  reloads the live nonces, and an acceptance that was reported to the caller survives every crash,
  whatever group commits, compactions and failures happened around it.
\<close>

subsection \<open>Reading records back\<close>

lemma ParseInt_FormatInt_inj: "ParseInt (FormatInt i) = Some j \<Longrightarrow> j = i"
proof -
  assume a: "ParseInt (FormatInt i) = Some j"
  have d: "list_all isDigit (Itoa n)" "Itoa n \<noteq> []" for n using Itoa_digits by simp_all
  have h: "hd (Itoa n) \<noteq> 45" "hd (Itoa n) \<noteq> 43" for n
    using d [of n] by (cases "Itoa n"; auto simp: isDigit_def)+
  show ?thesis using a d h by (auto simp: FormatInt_def Atoi_def Let_def split: if_splits)
qed

definition record_line :: "bytes \<Rightarrow> int \<Rightarrow> bytes" where
  "record_line nonce expiry = FormatInt (expiry div second) @ [9] @ b64_encode nonce"

lemma replay_record_line: "replay_record nonce expiry = record_line nonce expiry @ [10]"
  by (simp add: replay_record_def record_line_def)

lemma record_line_clean: "10 \<notin> set (record_line nonce expiry)" "dropCR (record_line nonce expiry) = record_line nonce expiry"
    "9 \<in> set (record_line nonce expiry)" "13 \<notin> set (record_line nonce expiry)"
proof -
  show nl: "10 \<notin> set (record_line nonce expiry)" "9 \<in> set (record_line nonce expiry)"
    using FormatInt_clean(2) b64_encode_clean by (auto simp: record_line_def)
  show cr: "13 \<notin> set (record_line nonce expiry)" using FormatInt_clean(3) b64_encode_clean by (auto simp: record_line_def)
  show "dropCR (record_line nonce expiry) = record_line nonce expiry"
    using cr by (metis dropCR_def last_in_set)
qed

lemma parse_record_line:
  "parse_record (record_line nonce expiry) =
     (case ParseInt (FormatInt (expiry div second)) of
        None \<Rightarrow> Inl (Errorf ''invalid replay cache record'')
      | Some _ \<Rightarrow> if nonce = [] then Inl (Errorf ''invalid replay cache nonce'') else Inr (nonce, expiry div second * second))"
  using FormatInt_clean(1) [of "expiry div second"] ParseInt_FormatInt_inj b64_roundtrip [of "[]"]
  by (auto simp: parse_record_def record_line_def split: option.splits)

text \<open>A line with a second tab is never a record.\<close>

lemma parse_record_two_tabs:
  assumes "9 \<in> set a" "9 \<in> set b"
  shows "\<exists>e. parse_record (a @ b) = Inl e"
proof -
  obtain a1 a2 where a: "a = a1 @ 9 # a2" "9 \<notin> set a1" using split_list_first [OF assms(1)] by blast
  have "strings_Cut 9 (a @ b) = (a1, a2 @ b, True)" using strings_Cut_found [OF a(2), of "a2 @ b"] a(1) by simp
  moreover have "b64_decode (a2 @ b) = None" using assms(2) by (intro b64_decode_tab) simp
  ultimately show ?thesis by (simp add: parse_record_def split: option.splits)
qed

lemma parse_record_has_tab: "parse_record l = Inr x \<Longrightarrow> 9 \<in> set l"
proof -
  assume a: "parse_record l = Inr x"
  obtain u v ok where c: "strings_Cut 9 l = (u, v, ok)" by (metis prod_cases3)
  have ok using a c by (auto simp: parse_record_def split: option.splits if_splits)
  then show ?thesis using strings_Cut_TrueD [of 9 l u v] c by simp
qed

subsection \<open>Loading\<close>

lemma load_lines_Cons:
  assumes "load_lines now (l # ls) (ex, q) = Inr t"
  obtains n e where "length l \<le> MaxScanLine" "parse_record (dropCR l) = Inr (n, e)"
    "load_lines now ls (if now < e then (AList.update n e ex, heap_Push snd (n, e) q) else (ex, q)) = Inr t"
  using assms that by (auto split: if_splits sum.splits)

text \<open>All lines of a file that loads are records, and every unexpired one is remembered.\<close>

lemma load_lines_parses:
  assumes "load_lines now ls t = Inr t'" "l \<in> set ls"
  shows "\<exists>x. parse_record (dropCR l) = Inr x"
  using assms
proof (induction ls arbitrary: t)
  case (Cons a ls)
  obtain ex q where t: "t = (ex, q)" by fastforce
  show ?case using load_lines_Cons [OF Cons.prems(1) [unfolded t]] Cons.IH Cons.prems(2) by (metis set_ConsD)
qed simp

lemma load_lines_keeps:
  assumes "load_lines now ls (ex, q) = Inr (ex', q')" "n \<in> fst ` set ex"
  shows "n \<in> fst ` set ex'"
  using assms
proof (induction ls arbitrary: ex q)
  case (Cons a ls)
  obtain m e where m: "load_lines now ls (if now < e then (AList.update m e ex, heap_Push snd (m, e) q) else (ex, q)) = Inr (ex', q')"
    using load_lines_Cons [OF Cons.prems(1)] by metis
  have "n \<in> fst ` set (AList.update m e ex)" using Cons.prems(2) by (simp add: dom_update)
  then show ?case using m Cons.IH Cons.prems(2) by (auto split: if_splits)
qed simp

lemma load_lines_remembers:
  assumes "load_lines now ls (ex, q) = Inr (ex', q')" "l \<in> set ls" "parse_record (dropCR l) = Inr (n, e)" "now < e"
  shows "n \<in> fst ` set ex'"
  using assms
proof (induction ls arbitrary: ex q)
  case (Cons a ls)
  obtain m f where m: "parse_record (dropCR a) = Inr (m, f)"
      "load_lines now ls (if now < f then (AList.update m f ex, heap_Push snd (m, f) q) else (ex, q)) = Inr (ex', q')"
    using load_lines_Cons [OF Cons.prems(1)] by metis
  show ?case
  proof (cases "l = a")
    case True
    then have "load_lines now ls (AList.update n e ex, heap_Push snd (n, e) q) = Inr (ex', q')" using m Cons.prems(3,4) by simp
    then show ?thesis by (rule load_lines_keeps) (simp add: dom_update)
  next
    case False
    obtain ex1 q1 where "(if now < f then (AList.update m f ex, heap_Push snd (m, f) q) else (ex, q)) = (ex1, q1)" by fastforce
    then show ?thesis using Cons.IH [of ex1 q1] m(2) Cons.prems False by simp
  qed
qed simp

text \<open>A table that was loaded is well formed and holds unexpired entries only.\<close>

lemma load_lines_table:
  assumes "load_lines now ls (ex, q) = Inr (ex', q')"
    "heap_ok snd q (length q)" "distinct (map fst ex)" "set ex \<subseteq> set q" "\<forall>x \<in> set ex. now < snd x"
  shows "heap_ok snd q' (length q') \<and> distinct (map fst ex') \<and> set ex' \<subseteq> set q' \<and> (\<forall>x \<in> set ex'. now < snd x)"
  using assms
proof (induction ls arbitrary: ex q)
  case (Cons a ls)
  obtain m f where m: "load_lines now ls (if now < f then (AList.update m f ex, heap_Push snd (m, f) q) else (ex, q)) = Inr (ex', q')"
    using load_lines_Cons [OF Cons.prems(1)] by metis
  show ?case
  proof (cases "now < f")
    case True
    have s: "set (AList.update m f ex) \<subseteq> insert (m, f) (set ex)"
      by (induction ex) auto
    have e: "set (heap_Push snd (m, f) q) = insert (m, f) (set q)"
      using arg_cong [OF slice_heap.elems_push [OF Cons.prems(2), of "(m, f)"], of set_mset] by simp
    show ?thesis
      by (rule Cons.IH [of "AList.update m f ex" "heap_Push snd (m, f) q"])
        (use m True s e Cons.prems slice_heap.inv_push [OF Cons.prems(2), of "(m, f)"] in \<open>auto intro: distinct_update\<close>)
  next
    case False
    then show ?thesis using Cons.IH [of ex q] m Cons.prems by simp
  qed
qed simp

lemma OpenReplayCache_loaded:
  assumes "OpenReplayCache now content err = Inr c"
  shows "table_ok c" "\<forall>x \<in> set (rc_expires c). now < snd x" "load_lines now (split_lines [] content) ([], []) = Inr (rc_expires c, rc_queue c)"
    "rc_file c" "rc_persistent c" "rc_persistErr c = None" "\<not> rc_closed c" "rc_disk c = \<lparr>dk_durable = content, dk_tail = [], dk_old = None\<rparr>"
    "rc_currentTx c = 0" "rc_syncedTx c = 0"
proof -
  obtain ex q where l: "load_lines now (split_lines [] content) ([], []) = Inr (ex, q)"
      "c = \<lparr>rc_expires = ex, rc_queue = q, rc_file = True,
               rc_disk = \<lparr>dk_durable = content, dk_tail = [], dk_old = None\<rparr>, rc_writesSince = 0, rc_persistent = True,
               rc_persistErr = None, rc_syncedTx = 0, rc_currentTx = 0, rc_closed = False\<rparr>"
    using assms by (auto simp: OpenReplayCache_def replay_load_def split: sum.splits option.splits)
  then show "load_lines now (split_lines [] content) ([], []) = Inr (rc_expires c, rc_queue c)"
    "rc_file c" "rc_persistent c" "rc_persistErr c = None" "\<not> rc_closed c" "rc_disk c = \<lparr>dk_durable = content, dk_tail = [], dk_old = None\<rparr>"
    "rc_currentTx c = 0" "rc_syncedTx c = 0" by simp_all
  have "heap_ok snd ([] :: replay_expiry list) (length ([] :: replay_expiry list))" by (simp add: heap_ok_def)
  with load_lines_table [OF l(1)] l(2)
  show "table_ok c" "\<forall>x \<in> set (rc_expires c). now < snd x" by (auto simp: table_ok_def)
qed

subsection \<open>The compacted file reloads the live nonces\<close>

lemma split_lines_records:
  "split_lines [] (concat (map (\<lambda>(n, e). replay_record n e) xs)) = map (\<lambda>(n, e). record_line n e) xs"
  by (induction xs) (auto simp: replay_record_line split_lines_line record_line_clean)

lemma load_lines_records:
  assumes "\<forall>(n, e) \<in> set xs. n \<noteq> [] \<and> \<bar>e div second\<bar> < 2 ^ 63 \<and> length (record_line n e) \<le> MaxScanLine"
    and "distinct (map fst (ex @ xs))"
  shows "\<exists>q'. load_lines now (map (\<lambda>(n, e). record_line n e) xs) (ex, q) =
           Inr (ex @ [(n, e div second * second). (n, e) \<leftarrow> xs, now < e div second * second], q')"
  using assms
proof (induction xs arbitrary: ex q)
  case (Cons x xs)
  obtain n e where x: "x = (n, e)" by fastforce
  let ?r = "e div second * second"
  have p: "parse_record (dropCR (record_line n e)) = Inr (n, ?r)" and l: "length (record_line n e) \<le> MaxScanLine"
    using Cons.prems(1) x by (simp_all add: record_line_clean parse_record_line)
  have new: "n \<notin> fst ` set ex" using Cons.prems(2) x by auto
  have xs: "\<forall>(n, e) \<in> set xs. n \<noteq> [] \<and> \<bar>e div second\<bar> < 2 ^ 63 \<and> length (record_line n e) \<le> MaxScanLine"
    using Cons.prems(1) by simp
  show ?case
  proof (cases "now < ?r")
    case True
    have "distinct (map fst ((ex @ [(n, ?r)]) @ xs))" using Cons.prems(2) x by auto
    from Cons.IH [OF xs this, of "heap_Push snd (n, ?r) q"] show ?thesis
      using True p l x AList_update_new [OF new, of ?r] by simp
  next
    case False
    have "distinct (map fst (ex @ xs))" using Cons.prems(2) by auto
    from Cons.IH [OF xs this, of q] show ?thesis using False p l x by simp
  qed
qed simp

text \<open>
  A compacted replay file reloads the live nonces. When the compaction of a well-formed cache succeeds and
  its nonces are not empty and short enough for a line of the scanner, opening the file it left, at any
  time, gives a cache with exactly the unexpired nonces, in the same order, each with its expiry rounded
  down to the second, and nothing is left to be synced.
\<close>

theorem replay_file_roundtrip:
  assumes "table_ok c" "rc_compact env c = (None, c')"
    and "\<forall>(n, e) \<in> set (rc_expires c). n \<noteq> [] \<and> \<bar>e div second\<bar> < 2 ^ 63 \<and> length (replay_record n e) \<le> MaxScanLine + 1"
  shows "dk_tail (rc_disk c') = [] \<and> dk_old (rc_disk c') = None \<and>
    (\<exists>c2. OpenReplayCache now (dk_durable (rc_disk c')) None = Inr c2 \<and>
       rc_expires c2 = [(n, e div second * second). (n, e) \<leftarrow> rc_expires c, now < e div second * second] \<and> table_ok c2)"
proof -
  have d: "rc_disk c' = \<lparr>dk_durable = concat (map (\<lambda>(n, e). replay_record n e) (rc_expires c)), dk_tail = [], dk_old = None\<rparr>"
    using assms(2) by (auto simp: rc_compact_def Let_def split: option.splits)
  have "\<forall>(n, e) \<in> set (rc_expires c). n \<noteq> [] \<and> \<bar>e div second\<bar> < 2 ^ 63 \<and> length (record_line n e) \<le> MaxScanLine"
    using assms(3) by (auto simp: replay_record_line)
  then obtain q where "load_lines now (map (\<lambda>(n, e). record_line n e) (rc_expires c)) ([], []) =
      Inr ([(n, e div second * second). (n, e) \<leftarrow> rc_expires c, now < e div second * second], q)"
    using load_lines_records [of "rc_expires c" "[]" now "[]"] assms(1) by (auto simp: table_ok_def)
  then have "\<exists>c2. OpenReplayCache now (dk_durable (rc_disk c')) None = Inr c2 \<and>
      rc_expires c2 = [(n, e div second * second). (n, e) \<leftarrow> rc_expires c, now < e div second * second]"
    by (simp add: OpenReplayCache_def replay_load_def d split_lines_records)
  then show ?thesis using d OpenReplayCache_loaded(1) by auto
qed

theorem replay_file_roundtrip_witness:
  "table_ok (NewReplayCache\<lparr>rc_expires := [([7], 5000000007)], rc_queue := [([7], 5000000007)], rc_file := True\<rparr>) \<and>
   (\<exists>c2. OpenReplayCache 4000000000 (lit ''5'' @ [9] @ lit ''Bw'' @ [10]) None = Inr c2 \<and> rc_expires c2 = [([7], 5000000000)])"
proof -
  let ?c = "NewReplayCache\<lparr>rc_expires := [([7], 5000000007)], rc_queue := [([7], 5000000007)], rc_file := True\<rparr>"
  let ?env = "\<lparr>ce_temporary = None, ce_close = None, ce_rename = None, ce_reopen = True, ce_open = None, ce_syncDir = None\<rparr>"
  have t: "table_ok ?c" by (simp add: table_ok_def heap_ok_def)
  have r: "replay_record [7] 5000000007 = lit ''5'' @ [9] @ lit ''Bw'' @ [10]" by code_simp
  obtain c' where c': "rc_compact ?env ?c = (None, c')" "dk_durable (rc_disk c') = lit ''5'' @ [9] @ lit ''Bw'' @ [10]"
    using r by (simp add: rc_compact_def Let_def)
  have "\<forall>(n, e) \<in> set (rc_expires ?c). n \<noteq> [] \<and> \<bar>e div second\<bar> < 2 ^ 63 \<and> length (replay_record n e) \<le> MaxScanLine + 1"
    using r by (simp add: MaxScanLine_def lit_def)
  from replay_file_roundtrip [OF t c'(1) this, of 4000000000] show ?thesis
    using t c'(2) by (auto simp: NewReplayCache_def)
qed

subsection \<open>Records in a file\<close>

text \<open>The text after the last newline.\<close>

definition open_line :: "bytes \<Rightarrow> bytes" where
  "open_line xs = rev (takeWhile (\<lambda>b. b \<noteq> 10) (rev xs))"

definition closed_part :: "bytes \<Rightarrow> bytes" where
  "closed_part xs = rev (dropWhile (\<lambda>b. b \<noteq> 10) (rev xs))"

lemma open_line_split:
  "xs = closed_part xs @ open_line xs" "10 \<notin> set (open_line xs)" "closed_part xs = [] \<or> last (closed_part xs) = 10"
proof -
  show "xs = closed_part xs @ open_line xs"
    by (metis closed_part_def open_line_def rev_append rev_rev_ident takeWhile_dropWhile_id)
  show "10 \<notin> set (open_line xs)" by (auto simp: open_line_def dest: set_takeWhileD)
  show "closed_part xs = [] \<or> last (closed_part xs) = 10"
    using hd_dropWhile [of "\<lambda>b. b \<noteq> 10" "rev xs"] by (auto simp: closed_part_def last_rev)
qed

lemma open_line_snoc [simp]: "open_line (xs @ [10]) = []"
  by (simp add: open_line_def)

text \<open>
  Appending a record here either starts a line, or spoils a line that has a tab already, so that the file does not load
  any more.
\<close>

definition line_start :: "bytes \<Rightarrow> bool" where
  "line_start xs \<longleftrightarrow> open_line xs = [] \<or> 9 \<in> set (open_line xs)"

definition recorded :: "bytes \<Rightarrow> bytes \<Rightarrow> int \<Rightarrow> bool" where
  "recorded content n e \<longleftrightarrow> (\<exists>pre post. content = pre @ replay_record n e @ post \<and> line_start pre)"

lemma recorded_append: "recorded xs n e \<Longrightarrow> recorded (xs @ ys) n e"
  unfolding recorded_def by (metis append.assoc)

lemma recorded_new: "line_start xs \<Longrightarrow> recorded (xs @ replay_record n e) n e"
  unfolding recorded_def by (metis append_Nil2)

lemma line_start_record: "line_start (xs @ replay_record n e)"
proof -
  have "xs @ replay_record n e = (xs @ record_line n e) @ [10]" by (simp add: replay_record_line)
  then show ?thesis by (simp only: line_start_def open_line_snoc simp_thms)
qed

lemma records_file:
  "line_start (concat (map (\<lambda>(n, e). replay_record n e) xs))"
  "(n, e) \<in> set xs \<Longrightarrow> recorded (concat (map (\<lambda>(n, e). replay_record n e) xs)) n e"
proof -
  show l: "line_start (concat (map (\<lambda>(n, e). replay_record n e) xs))" for xs
    by (induction xs rule: rev_induct) (auto simp: line_start_record, simp add: line_start_def open_line_def)
  assume "(n, e) \<in> set xs"
  then obtain us vs where "xs = us @ (n, e) # vs" by (meson split_list)
  then show "recorded (concat (map (\<lambda>(n, e). replay_record n e) xs)) n e"
    using recorded_append [OF recorded_new [OF l [of us]]] by simp
qed

lemma load_line_start: "load_lines now (split_lines [] content) t = Inr t' \<Longrightarrow> line_start content"
proof -
  assume a: "load_lines now (split_lines [] content) t = Inr t'"
  let ?c = "closed_part content" and ?o = "open_line content"
  note o = open_line_split [of content]
  have sl: "split_lines cur l = (if cur @ l = [] then [] else [cur @ l])" if "10 \<notin> set l" for cur l
    using that by (induction l arbitrary: cur) auto
  have s: "split_lines [] content = split_lines [] ?c @ split_lines [] ?o"
    using o(3) by (subst o(1)) (rule split_lines_append, auto)
  show ?thesis
  proof (cases "?o = []")
    case False
    then have "?o \<in> set (split_lines [] content)" using s sl [OF o(2), of "[]"] by simp
    then obtain x where "parse_record (dropCR ?o) = Inr x" using load_lines_parses [OF a] by blast
    then have "9 \<in> set (dropCR ?o)" by (rule parse_record_has_tab)
    then show ?thesis by (auto simp: line_start_def dropCR_def dest: in_set_butlastD split: if_splits)
  qed (simp add: line_start_def)
qed

text \<open>A file that holds the record either refuses to load or remembers the nonce.\<close>

lemma recorded_load:
  assumes "recorded content n e" "load_lines now (split_lines [] content) ([], []) = Inr (ex, q)" "now < e div second * second"
  shows "n \<in> fst ` set ex"
proof -
  obtain pre post where c: "content = pre @ replay_record n e @ post" "line_start pre" using assms(1) by (auto simp: recorded_def)
  let ?l = "open_line pre @ record_line n e"
  note o = open_line_split [of pre]
  have "content = closed_part pre @ ?l @ 10 # post" using c(1) o(1) by (simp add: replay_record_line)
  then have "split_lines [] content = split_lines [] (closed_part pre) @ split_lines [] (?l @ 10 # post)"
    using o(3) by (simp only:) (rule split_lines_append, auto)
  moreover have "10 \<notin> set ?l" using o(2) record_line_clean(1) by simp
  ultimately have l: "?l \<in> set (split_lines [] content)" by (simp add: split_lines_line del: append_assoc)
  then obtain x where x: "parse_record (dropCR ?l) = Inr x" using load_lines_parses [OF assms(2)] by blast
  have ne: "record_line n e \<noteq> []" by (simp add: record_line_def)
  have "last (record_line n e) \<noteq> 13" using record_line_clean(4) [of n e] last_in_set [OF ne] by metis
  with ne have dc: "dropCR ?l = ?l" by (simp add: dropCR_def)
  have "open_line pre = []"
    using parse_record_two_tabs [of "open_line pre" "record_line n e"] c(2) x dc record_line_clean(3) by (auto simp: line_start_def)
  then have "parse_record (dropCR ?l) = Inr (n, e div second * second)"
    using x dc by (auto simp: parse_record_line split: option.splits if_splits)
  from load_lines_remembers [OF assms(2) l this assms(3)] show ?thesis .
qed

subsection \<open>Runs of the cache with crashes\<close>

text \<open>
  A run of one process: the cache, the time, the callers that wait for a commit with the nonce and the
  time of their call, the acceptances that were reported as successful, and the number of \<open>Accept\<close> calls.
\<close>

record rc_world =
  w_cache :: replay_cache
  w_now :: int
  w_waiting :: "(u64 \<times> bytes \<times> int) list"
  w_promised :: "(bytes \<times> int) list"
  w_calls :: nat

definition after_begin :: "bytes \<Rightarrow> int \<Rightarrow> accept_step \<Rightarrow> replay_cache \<Rightarrow> rc_world \<Rightarrow> rc_world" where
  "after_begin n now r c w = w\<lparr>w_cache := c, w_now := now, w_calls := w_calls w + 1,
      w_waiting := (case r of Waiting tx \<Rightarrow> (tx, n, now) # w_waiting w | _ \<Rightarrow> w_waiting w),
      w_promised := (case r of Returned ok e \<Rightarrow> (if ok then (n, now) # w_promised w else w_promised w) | _ \<Rightarrow> w_promised w)\<rparr>"

inductive rc_run :: "replay_cache \<Rightarrow> int \<Rightarrow> rc_world \<Rightarrow> bool" for c0 now0 where
  run_start: "rc_run c0 now0 \<lparr>w_cache = c0, w_now = now0, w_waiting = [], w_promised = [], w_calls = 0\<rparr>"
| run_begin: "rc_run c0 now0 w \<Longrightarrow> w_now w \<le> now \<Longrightarrow> accept_begin env wr n now (w_cache w) = (r, c) \<Longrightarrow>
    rc_run c0 now0 (after_begin n now r c w)"
| run_finish: "rc_run c0 now0 w \<Longrightarrow> (tx, n, t) \<in> set (w_waiting w) \<Longrightarrow> accept_finish tx (w_cache w) = Some (ok, e) \<Longrightarrow>
    rc_run c0 now0 (w\<lparr>w_waiting := remove1 (tx, n, t) (w_waiting w),
      w_promised := (if ok then (n, t) # w_promised w else w_promised w)\<rparr>)"
| run_check: "rc_run c0 now0 w \<Longrightarrow> w_now w \<le> now \<Longrightarrow> ReplayCache_Check n now (w_cache w) = (b, c) \<Longrightarrow>
    rc_run c0 now0 (w\<lparr>w_cache := c, w_now := now\<rparr>)"
| run_wait: "rc_run c0 now0 w \<Longrightarrow> w_now w \<le> now \<Longrightarrow> rc_run c0 now0 (w\<lparr>w_now := now\<rparr>)"
| run_tick: "rc_run c0 now0 w \<Longrightarrow> rc_run c0 now0 (w\<lparr>w_cache := commit_tick sync (w_cache w)\<rparr>)"
| run_close: "rc_run c0 now0 w \<Longrightarrow> rc_run c0 now0 (w\<lparr>w_cache := ReplayCache_Close sync1 sync2 (w_cache w)\<rparr>)"

text \<open>
  What a crash may leave of the file: what was synced and some of what was written after it; as long as a
  rename is not synced, also the file it replaced.
\<close>

definition crash_image :: "disk \<Rightarrow> bytes \<Rightarrow> bool" where
  "crash_image d x \<longleftrightarrow> (\<exists>k. x = dk_durable d @ take k (dk_tail d)) \<or>
     (\<exists>du ta k. dk_old d = Some (du, ta) \<and> x = du @ take k ta)"

definition safe_record :: "disk \<Rightarrow> bytes \<Rightarrow> int \<Rightarrow> bool" where
  "safe_record d n e \<longleftrightarrow> recorded (dk_durable d) n e \<and> (\<forall>du ta. dk_old d = Some (du, ta) \<longrightarrow> recorded du n e)"

lemma safe_record_crash: "safe_record d n e \<Longrightarrow> crash_image d x \<Longrightarrow> recorded x n e"
  by (auto simp: safe_record_def crash_image_def intro: recorded_append)

abbreviation (input) retained :: "int \<Rightarrow> int" where "retained t \<equiv> t + 2 * MaxClockSkew"

text \<open>
  The invariant. Reported acceptances that are still live are in memory and in every image of the file.
  While persistence has not failed, those that wait are in the file as written, and in the synced
  part of it once their transaction counts as synced.
\<close>

definition promise_kept :: "replay_cache \<Rightarrow> int \<Rightarrow> bytes \<times> int \<Rightarrow> bool" where
  "promise_kept c now x \<longleftrightarrow> (case x of (n, t) \<Rightarrow> now < retained t \<longrightarrow>
     (n, retained t) \<in> set (rc_expires c) \<and> safe_record (rc_disk c) n (retained t))"

definition wait_sound :: "replay_cache \<Rightarrow> int \<Rightarrow> u64 \<times> bytes \<times> int \<Rightarrow> bool" where
  "wait_sound c now x \<longleftrightarrow> (case x of (tx, n, t) \<Rightarrow> tx \<le> rc_currentTx c \<and> (now < retained t \<longrightarrow>
     (n, retained t) \<in> set (rc_expires c) \<and> recorded (dk_durable (rc_disk c) @ dk_tail (rc_disk c)) n (retained t) \<and>
     (tx \<le> rc_syncedTx c \<longrightarrow> recorded (dk_durable (rc_disk c)) n (retained t))))"

definition healthy :: "replay_cache \<Rightarrow> bool" where
  "healthy c \<longleftrightarrow> (rc_closed c \<or> rc_file c) \<and> dk_old (rc_disk c) = None \<and> line_start (dk_durable (rc_disk c) @ dk_tail (rc_disk c))"

definition rc_inv :: "rc_world \<Rightarrow> bool" where
  "rc_inv w \<longleftrightarrow> table_ok (w_cache w) \<and> rc_persistent (w_cache w) \<and> unat (rc_currentTx (w_cache w)) \<le> w_calls w \<and>
     rc_syncedTx (w_cache w) \<le> rc_currentTx (w_cache w) \<and> (\<forall>x \<in> set (w_promised w). promise_kept (w_cache w) (w_now w) x) \<and>
     (rc_persistErr (w_cache w) = None \<longrightarrow> healthy (w_cache w) \<and> (\<forall>x \<in> set (w_waiting w). wait_sound (w_cache w) (w_now w) x))"

lemma promise_kept_step:
  assumes "promise_kept c now x" "now \<le> now'" "live_at now' c \<subseteq> set (rc_expires c')"
    and "\<And>n e. (n, e) \<in> live_at now' c \<Longrightarrow> safe_record (rc_disk c) n e \<Longrightarrow> safe_record (rc_disk c') n e"
  shows "promise_kept c' now' x"
  using assms by (fastforce simp: promise_kept_def live_at_def split: prod.splits)

lemma wait_sound_step:
  assumes "wait_sound c now x" "now \<le> now'" "live_at now' c \<subseteq> set (rc_expires c')" "rc_currentTx c \<le> rc_currentTx c'"
    and "\<And>n e. (n, e) \<in> live_at now' c \<Longrightarrow> recorded (dk_durable (rc_disk c) @ dk_tail (rc_disk c)) n e \<Longrightarrow>
           recorded (dk_durable (rc_disk c') @ dk_tail (rc_disk c')) n e"
    and "\<And>tx n e. (n, e) \<in> live_at now' c \<Longrightarrow> recorded (dk_durable (rc_disk c) @ dk_tail (rc_disk c)) n e \<Longrightarrow>
           (tx \<le> rc_syncedTx c \<longrightarrow> recorded (dk_durable (rc_disk c)) n e) \<Longrightarrow> tx \<le> rc_syncedTx c' \<Longrightarrow> recorded (dk_durable (rc_disk c')) n e"
  shows "wait_sound c' now' x"
proof -
  obtain tx n t where x: "x = (tx, n, t)" by (metis prod_cases3)
  have w: "tx \<le> rc_currentTx c" "now < retained t \<Longrightarrow> (n, retained t) \<in> set (rc_expires c) \<and>
      recorded (dk_durable (rc_disk c) @ dk_tail (rc_disk c)) n (retained t) \<and>
      (tx \<le> rc_syncedTx c \<longrightarrow> recorded (dk_durable (rc_disk c)) n (retained t))"
    using assms(1) x by (auto simp: wait_sound_def)
  show ?thesis
  proof (cases "now' < retained t")
    case True
    with w(2) assms(2) have r: "(n, retained t) \<in> live_at now' c" "recorded (dk_durable (rc_disk c) @ dk_tail (rc_disk c)) n (retained t)"
        "tx \<le> rc_syncedTx c \<longrightarrow> recorded (dk_durable (rc_disk c)) n (retained t)" by (auto simp: live_at_def)
    have "(n, retained t) \<in> set (rc_expires c')" using r(1) assms(3) by blast
    moreover note assms(5) [OF r(1,2)] assms(6) [OF r(1-3)]
    moreover have "tx \<le> rc_currentTx c'" using w(1) assms(4) by (rule order_trans)
    ultimately show ?thesis using x True by (simp add: wait_sound_def)
  qed (use x w(1) assms(4) in \<open>auto simp: wait_sound_def\<close>)
qed

text \<open>Steps that leave the file and the transactions alone.\<close>

lemma rc_inv_frame:
  assumes "rc_inv w" "w_now w \<le> now" "w_calls w \<le> k" "table_ok c" "live_at now (w_cache w) \<subseteq> set (rc_expires c)"
    and "rc_persistent c = rc_persistent (w_cache w)" "rc_currentTx c = rc_currentTx (w_cache w)" "rc_syncedTx c = rc_syncedTx (w_cache w)"
      "rc_disk c = rc_disk (w_cache w)" "rc_file c = rc_file (w_cache w)" "rc_closed c = rc_closed (w_cache w)"
    and "rc_persistErr c = None \<Longrightarrow> rc_persistErr (w_cache w) = None"
  shows "rc_inv (w\<lparr>w_cache := c, w_now := now, w_calls := k\<rparr>)"
proof -
  have "promise_kept c now x" if "x \<in> set (w_promised w)" for x
    by (rule promise_kept_step [of "w_cache w" "w_now w"]) (use assms that in \<open>auto simp: rc_inv_def\<close>)
  moreover have "wait_sound c now x" if "x \<in> set (w_waiting w)" "rc_persistErr c = None" for x
    by (rule wait_sound_step [of "w_cache w" "w_now w"]) (use assms that in \<open>auto simp: rc_inv_def\<close>)
  ultimately show ?thesis using assms by (auto simp: rc_inv_def healthy_def)
qed

subsection \<open>Preservation by Accept\<close>

lemma accept_ready_disk:
  assumes "accept_ready env now c = (f, c1)"
  shows "rc_disk c1 = rc_disk c \<or>
    (dk_durable (rc_disk c1) = concat (map (\<lambda>(n, e). replay_record n e) (rc_expires c1)) \<and> dk_tail (rc_disk c1) = [] \<and>
     (dk_old (rc_disk c1) = None \<or> dk_old (rc_disk c1) = Some (dk_durable (rc_disk c), dk_tail (rc_disk c))))"
    "f = None \<Longrightarrow> rc_file c1 = rc_file c \<and> (rc_disk c1 = rc_disk c \<or> dk_old (rc_disk c1) = None)"
proof -
  have *: "rc_disk c' = rc_disk d \<or>
    (dk_durable (rc_disk c') = concat (map (\<lambda>(n, e). replay_record n e) (rc_expires c')) \<and> dk_tail (rc_disk c') = [] \<and>
     (dk_old (rc_disk c') = None \<or> dk_old (rc_disk c') = Some (dk_durable (rc_disk d), dk_tail (rc_disk d))))"
    "f' = None \<Longrightarrow> rc_file c' = rc_file d \<and> dk_old (rc_disk c') = None"
    if "rc_compact env d = (f', c')" for f' c' d
    using that by (auto simp: rc_compact_def Let_def split: option.splits)
  show "rc_disk c1 = rc_disk c \<or>
    (dk_durable (rc_disk c1) = concat (map (\<lambda>(n, e). replay_record n e) (rc_expires c1)) \<and> dk_tail (rc_disk c1) = [] \<and>
     (dk_old (rc_disk c1) = None \<or> dk_old (rc_disk c1) = Some (dk_durable (rc_disk c), dk_tail (rc_disk c))))"
    "f = None \<Longrightarrow> rc_file c1 = rc_file c \<and> (rc_disk c1 = rc_disk c \<or> dk_old (rc_disk c1) = None)"
    using assms *(1) [of "rc_purge now c" f c1] *(2) [of "rc_purge now c" f c1] by (auto simp: accept_ready_def Let_def split: if_splits)
qed

lemma accept_ready_records:
  assumes "table_ok c" "accept_ready env now c = (f, c1)" "dk_old (rc_disk c) = None" "(n, e) \<in> live_at now c"
  shows "recorded (dk_durable (rc_disk c)) n e \<Longrightarrow> safe_record (rc_disk c1) n e"
    "recorded (dk_durable (rc_disk c) @ dk_tail (rc_disk c)) n e \<Longrightarrow> recorded (dk_durable (rc_disk c1) @ dk_tail (rc_disk c1)) n e"
    "recorded (dk_durable (rc_disk c)) n e \<Longrightarrow> recorded (dk_durable (rc_disk c1)) n e"
proof -
  have "(n, e) \<in> set (rc_expires c1)" using accept_ready_table(2) [OF assms(1,2)] assms(4) by simp
  then have r: "recorded (concat (map (\<lambda>(n, e). replay_record n e) (rc_expires c1))) n e" by (rule records_file(2))
  note d = accept_ready_disk(1) [OF assms(2)]
  show 1: "recorded (dk_durable (rc_disk c)) n e \<Longrightarrow> safe_record (rc_disk c1) n e"
    using d r assms(3) by (auto simp: safe_record_def)
  show "recorded (dk_durable (rc_disk c) @ dk_tail (rc_disk c)) n e \<Longrightarrow> recorded (dk_durable (rc_disk c1) @ dk_tail (rc_disk c1)) n e"
    using d r by auto
  show "recorded (dk_durable (rc_disk c)) n e \<Longrightarrow> recorded (dk_durable (rc_disk c1)) n e" using 1 by (simp add: safe_record_def)
qed

lemma after_begin_refused: "\<not> granted r \<Longrightarrow> after_begin n now r c w = w\<lparr>w_cache := c, w_now := now, w_calls := w_calls w + 1\<rparr>"
  by (cases r; cases w) (auto simp: after_begin_def granted_def)

lemma rc_inv_begin_failed:
  assumes "rc_inv w" "w_now w \<le> now" "rc_persistErr (w_cache w) = None" "accept_ready env now (w_cache w) = (f, c1)" "rc_persistErr c = Some e"
    "rc_expires c = rc_expires c1" "rc_queue c = rc_queue c1" "rc_persistent c = rc_persistent c1"
    "rc_syncedTx c = rc_syncedTx c1" "rc_currentTx c = rc_currentTx c1" "dk_durable (rc_disk c) = dk_durable (rc_disk c1)"
    "dk_old (rc_disk c) = dk_old (rc_disk c1)"
  shows "rc_inv (w\<lparr>w_cache := c, w_now := now, w_calls := w_calls w + 1\<rparr>)"
proof -
  have i: "table_ok (w_cache w)" "dk_old (rc_disk (w_cache w)) = None" using assms(1,3) by (auto simp: rc_inv_def healthy_def)
  note rt = accept_ready_table [OF i(1) assms(4)]
  have sr: "safe_record (rc_disk c) n x = safe_record (rc_disk c1) n x" for n x using assms(11,12) by (simp add: safe_record_def)
  have "promise_kept c now x" if "x \<in> set (w_promised w)" for x
    by (rule promise_kept_step [of "w_cache w" "w_now w"])
      (use assms that rt(2) accept_ready_records(1) [OF i(1) assms(4) i(2)] in \<open>auto simp: rc_inv_def sr safe_record_def [of "rc_disk (w_cache w)"]\<close>)
  moreover have "table_ok c" using rt(1) assms(6,7) by (simp add: table_ok_def)
  ultimately show ?thesis using assms rt by (auto simp: rc_inv_def)
qed

lemma rc_inv_begin_entered:
  assumes "rc_inv w" "w_now w \<le> now" "rc_persistErr (w_cache w) = None" "\<not> rc_closed (w_cache w)" "w_calls w + 1 < 2 ^ 64"
    "accept_ready env now (w_cache w) = (None, c1)" "map_of (rc_expires c1) n = None" "accept_store None n now c1 = (r, c)"
  shows "rc_inv (after_begin n now r c w)"
proof -
  let ?c = "w_cache w" and ?e = "retained now"
  have i: "table_ok ?c" "dk_old (rc_disk ?c) = None" "rc_file ?c" "rc_persistent ?c" "line_start (dk_durable (rc_disk ?c) @ dk_tail (rc_disk ?c))"
    "unat (rc_currentTx ?c) \<le> w_calls w" "rc_syncedTx ?c \<le> rc_currentTx ?c"
    using assms(1,3,4) by (auto simp: rc_inv_def healthy_def)
  note rt = accept_ready_table [OF i(1) assms(6)]
  note rec = accept_ready_records [OF i(1) assms(6) i(2)]
  have d1: "rc_file c1" "dk_old (rc_disk c1) = None" using accept_ready_disk(2) [OF assms(6)] i by auto
  have l1: "line_start (dk_durable (rc_disk c1) @ dk_tail (rc_disk c1))"
    using accept_ready_disk(1) [OF assms(6)] i(5) records_file(1) [of "rc_expires c1"] by auto
  note st = accept_store_entered [OF assms(8)]
  have tx: "unat (rc_currentTx c1 + 1) = unat (rc_currentTx ?c) + 1"
    using i(6) assms(5) rt(6) by (simp add: unat_word_ariths)
  have lt: "rc_currentTx ?c < rc_currentTx c1 + 1" "0 < rc_currentTx c1 + 1" using tx by (simp_all add: word_less_nat_alt)
  have f: "dk_tail (rc_disk c) = dk_tail (rc_disk c1) @ replay_record n ?e" "dk_durable (rc_disk c) = dk_durable (rc_disk c1)"
    "dk_old (rc_disk c) = None" "rc_currentTx c = rc_currentTx c1 + 1" "r = Waiting (rc_currentTx c1 + 1)"
    using st(7) [OF d1(1)] i(4) rt(3) lt(2) d1(2) by auto
  have t: "table_ok c" "set (rc_expires c) = insert (n, ?e) (live_at now ?c)"
    using table_ok_insert [OF rt(1) assms(7) st(1,2)] rt(2) by auto
  have "promise_kept c now x" if "x \<in> set (w_promised w)" for x
    by (rule promise_kept_step [of ?c "w_now w"])
      (use assms(1,2) that t(2) rec(3) f(2,3) in \<open>auto simp: rc_inv_def safe_record_def\<close>)
  moreover have "wait_sound c now x" if "x \<in> set (w_waiting w)" for x
  proof (rule wait_sound_step [of ?c "w_now w"])
    show "wait_sound ?c (w_now w) x" using assms(1,3) that by (simp add: rc_inv_def)
    show "rc_currentTx ?c \<le> rc_currentTx c" using lt(1) f(4) by simp
    show "recorded (dk_durable (rc_disk c) @ dk_tail (rc_disk c)) m e"
      if "(m, e) \<in> live_at now ?c" "recorded (dk_durable (rc_disk ?c) @ dk_tail (rc_disk ?c)) m e" for m e
      using recorded_append [OF rec(2) [OF that]] f(1,2) by simp
    show "recorded (dk_durable (rc_disk c)) m e"
      if "(m, e) \<in> live_at now ?c" "tx \<le> rc_syncedTx ?c \<longrightarrow> recorded (dk_durable (rc_disk ?c)) m e" "tx \<le> rc_syncedTx c" for tx m e
      using rec(3) [OF that(1)] that(2,3) f(2) st(6) rt(5) by simp
  qed (use assms(2) t(2) in auto)
  moreover have "wait_sound c now (rc_currentTx c1 + 1, n, now)"
  proof -
    have "\<not> rc_currentTx c1 + 1 \<le> rc_syncedTx c" using lt(1) i(7) st(6) rt(5) by auto
    moreover have "recorded (dk_durable (rc_disk c) @ dk_tail (rc_disk c)) n ?e" using recorded_new [OF l1] f(1,2) by simp
    ultimately show ?thesis using t(2) f(4) by (auto simp: wait_sound_def)
  qed
  moreover have "healthy c"
    using line_start_record [of "dk_durable (rc_disk c1) @ dk_tail (rc_disk c1)" n ?e] f(1-3) d1(1) assms(8)
    by (auto simp: healthy_def accept_store_def Let_def split: if_splits)
  moreover have "rc_syncedTx c \<le> rc_currentTx c" using st(6) rt(5) f(4) i(7) lt(1) by auto
  ultimately show ?thesis
    using t(1) st(3) rt(3) i(4,6) tx f(4,5) by (auto simp: rc_inv_def after_begin_def)
qed

lemma rc_inv_begin:
  assumes "rc_inv w" "w_now w \<le> now" "accept_begin env wr n now (w_cache w) = (r, c)" "w_calls w + 1 < 2 ^ 64"
  shows "rc_inv (after_begin n now r c w)"
  using assms(3)
proof (cases rule: accept_begin_cases)
  case early
  have i: "table_ok (w_cache w)" using assms(1) by (simp add: rc_inv_def)
  note p = rc_purge_spec [OF i, of now]
  from early(2) have "rc_inv (w\<lparr>w_cache := c, w_now := now, w_calls := w_calls w + 1\<rparr>)"
  proof (elim disjE exE conjE)
    assume "c = w_cache w"
    then show ?thesis using i assms(1,2) by (intro rc_inv_frame) (auto simp: live_at_def)
  next
    assume "c = rc_purge now (w_cache w)"
    then show ?thesis using p assms(1,2) by (intro rc_inv_frame) (auto simp: live_at_def)
  next
    fix e assume "c = (w_cache w)\<lparr>rc_persistErr := Some e\<rparr>"
    then show ?thesis using i assms(1,2) by (intro rc_inv_frame) (auto simp: live_at_def table_ok_def)
  qed
  then show ?thesis using early(1) by (simp add: after_begin_refused)
next
  case (failed e f c1)
  show ?thesis
    using rc_inv_begin_failed [OF assms(1,2) failed(2-7) failed(9)] failed(7-12) after_begin_refused [OF failed(1)] by auto
next
  case (entered c1)
  have "map_of (rc_expires c1) n = None"
    using accept_ready_table(8) [OF _ entered(2)] entered(5) assms(1) by (simp add: rc_inv_def)
  from rc_inv_begin_entered [OF assms(1,2) entered(3,4) assms(4) entered(2) this entered(7)] show ?thesis .
qed

subsection \<open>Preservation by the other steps\<close>

lemma rc_inv_finish:
  assumes "rc_inv w" "(tx, n, t) \<in> set (w_waiting w)" "accept_finish tx (w_cache w) = Some (ok, e)"
  shows "rc_inv (w\<lparr>w_waiting := remove1 (tx, n, t) (w_waiting w), w_promised := (if ok then (n, t) # w_promised w else w_promised w)\<rparr>)"
proof -
  let ?c = "w_cache w"
  have "promise_kept ?c (w_now w) (n, t)" if ok
  proof -
    have f: "rc_persistErr ?c = None" "tx \<le> rc_syncedTx ?c"
      using assms(3) that by (auto simp: accept_finish_def split: if_splits option.splits)
    have "wait_sound ?c (w_now w) (tx, n, t)" "dk_old (rc_disk ?c) = None" using assms(1,2) f(1) by (auto simp: rc_inv_def healthy_def)
    then show ?thesis using f(2) by (auto simp: wait_sound_def promise_kept_def safe_record_def)
  qed
  then show ?thesis using assms(1) by (auto simp: rc_inv_def dest: notin_set_remove1)
qed

text \<open>Syncing moves what was written into the durable part.\<close>

lemma rc_inv_synced:
  assumes "rc_inv w" "rc_syncedTx c = rc_syncedTx (w_cache w) \<or> rc_syncedTx c = rc_currentTx (w_cache w)"
    and "rc_disk c = rc_synced (rc_disk (w_cache w))" "rc_expires c = rc_expires (w_cache w)" "rc_queue c = rc_queue (w_cache w)"
      "rc_persistent c = rc_persistent (w_cache w)" "rc_currentTx c = rc_currentTx (w_cache w)" "rc_persistErr c = rc_persistErr (w_cache w)"
      "rc_closed c \<or> rc_file c \<and> (rc_closed (w_cache w) \<longrightarrow> rc_closed c)"
  shows "rc_inv (w\<lparr>w_cache := c\<rparr>)"
proof -
  let ?c = "w_cache w"
  have "promise_kept c (w_now w) x" if "x \<in> set (w_promised w)" for x
    by (rule promise_kept_step [of ?c "w_now w"])
      (use assms that in \<open>auto simp: rc_inv_def live_at_def rc_synced_def safe_record_def intro: recorded_append\<close>)
  moreover have "wait_sound c (w_now w) x" if "x \<in> set (w_waiting w)" "rc_persistErr ?c = None" for x
    by (rule wait_sound_step [of ?c "w_now w"])
      (use assms that in \<open>auto simp: rc_inv_def live_at_def rc_synced_def intro: recorded_append\<close>)
  ultimately show ?thesis using assms by (auto simp: rc_inv_def healthy_def rc_synced_def table_ok_def)
qed

lemma rc_inv_same:
  assumes "rc_inv w" "rc_syncedTx c = rc_syncedTx (w_cache w)"
    and "rc_disk c = rc_disk (w_cache w)" "rc_expires c = rc_expires (w_cache w)" "rc_queue c = rc_queue (w_cache w)"
      "rc_persistent c = rc_persistent (w_cache w)" "rc_currentTx c = rc_currentTx (w_cache w)"
      "rc_persistErr c = None \<Longrightarrow> rc_persistErr (w_cache w) = None"
      "rc_closed c \<or> rc_file c = rc_file (w_cache w) \<and> rc_closed c = rc_closed (w_cache w)"
  shows "rc_inv (w\<lparr>w_cache := c\<rparr>)"
  using assms by (auto simp: rc_inv_def healthy_def promise_kept_def wait_sound_def table_ok_def)

lemma rc_inv_tick:
  assumes "rc_inv w"
  shows "rc_inv (w\<lparr>w_cache := commit_tick sync (w_cache w)\<rparr>)"
proof (cases "rc_file (w_cache w) \<and> rc_syncedTx (w_cache w) < rc_currentTx (w_cache w) \<and> sync = None")
  case True
  then show ?thesis using assms by (intro rc_inv_synced) (auto simp: commit_tick_def)
next
  case False
  then show ?thesis using assms
    by (intro rc_inv_same) (auto simp: commit_tick_def markPersistenceFailure_def split: option.splits if_splits)
qed

lemma rc_inv_close:
  assumes "rc_inv w"
  shows "rc_inv (w\<lparr>w_cache := ReplayCache_Close sync1 sync2 (w_cache w)\<rparr>)"
proof -
  define c1 where "c1 = (w_cache w)\<lparr>rc_closed := True\<rparr>"
  define c2 where "c2 = commit_tick sync1 c1"
  have p: "rc_persistent c1" "rc_closed c2" using assms by (simp_all add: rc_inv_def c1_def c2_def commit_tick_def markPersistenceFailure_def split: option.splits)
  have "rc_inv (w\<lparr>w_cache := c1\<rparr>)" by (rule rc_inv_same [OF assms]) (simp_all add: c1_def)
  from rc_inv_tick [OF this, of sync1] have i2: "rc_inv (w\<lparr>w_cache := c2\<rparr>)" by (simp add: c2_def)
  have eq: "ReplayCache_Close sync1 sync2 (w_cache w) =
      (if \<not> rc_file c2 then c2
       else c2\<lparr>rc_disk := (case sync2 of None \<Rightarrow> rc_synced (rc_disk c2) | Some _ \<Rightarrow> rc_disk c2), rc_file := False\<rparr>)"
    using p(1) unfolding ReplayCache_Close_def Let_def c2_def c1_def by simp
  have "rc_inv ((w\<lparr>w_cache := c2\<rparr>)\<lparr>w_cache := ReplayCache_Close sync1 sync2 (w_cache w)\<rparr>)"
  proof (cases "rc_file c2 \<and> sync2 = None")
    case True
    then show ?thesis unfolding eq by (intro rc_inv_synced [OF i2]) (use p(2) in simp_all)
  next
    case False
    then show ?thesis unfolding eq by (intro rc_inv_same [OF i2]) (use p(2) in \<open>auto split: option.splits if_splits\<close>)
  qed
  then show ?thesis by simp
qed

lemma rc_inv_open:
  assumes "OpenReplayCache now content None = Inr c"
  shows "rc_inv \<lparr>w_cache = c, w_now = now, w_waiting = [], w_promised = [], w_calls = 0\<rparr>"
  using OpenReplayCache_loaded [OF assms] load_line_start [of now content] by (simp add: rc_inv_def healthy_def)

lemma rc_run_inv:
  assumes "rc_run c0 now0 w" "OpenReplayCache now0 content None = Inr c0" "w_calls w < 2 ^ 64"
  shows "rc_inv w"
  using assms(1,3)
proof (induction rule: rc_run.induct)
  case (run_check w now n b c)
  have i: "rc_inv w" using run_check by simp
  have t: "table_ok (w_cache w)" using i by (simp add: rc_inv_def)
  have "c = rc_purge now (w_cache w)" using run_check(3) by (simp add: ReplayCache_Check_def Let_def)
  then have "rc_inv (w\<lparr>w_cache := c, w_now := now, w_calls := w_calls w\<rparr>)"
    using rc_purge_spec [OF t, of now] i run_check(2) by (intro rc_inv_frame) (auto simp: live_at_def)
  then show ?case by simp
next
  case (run_wait w now)
  have i: "rc_inv w" using run_wait by simp
  have "rc_inv (w\<lparr>w_cache := w_cache w, w_now := now, w_calls := w_calls w\<rparr>)"
    by (rule rc_inv_frame [OF i run_wait(2)]) (use i in \<open>auto simp: rc_inv_def live_at_def\<close>)
  then show ?case by simp
next
  case (run_begin w now env wr n r c)
  then show ?case using rc_inv_begin [of w now env wr n r c] by (simp add: after_begin_def)
qed (simp_all add: rc_inv_open [OF assms(2)] rc_inv_finish rc_inv_tick rc_inv_close)

text \<open>
  C16: Accepted nonces survive crashes. In every run of a persistent replay cache, with callers waiting for group commits,
  compactions, failing system calls and closing in any order: once \<open>Accept\<close> has reported a nonce as new, then whatever a
  crash leaves of the file at any later moment, a restart before the expiry (rounded down to the second) either
  refuses to open the file or refuses the nonce. So no acknowledged request is accepted a second time
  across restarts. (Fewer than \<open>2 ^ 64\<close> calls, so that transaction numbers do not wrap.)
\<close>

theorem replay_cache_durable:
  assumes "OpenReplayCache now0 content None = Inr c0" "rc_run c0 now0 w" "w_calls w < 2 ^ 64" "(n, t) \<in> set (w_promised w)" "crash_image (rc_disk (w_cache w)) left"
    and "w_now w \<le> now" "now < (t + 2 * MaxClockSkew) div second * second" "OpenReplayCache now left None = Inr c"
  shows "fst (accept_begin env wr n now c) = Returned False None \<and> fst (ReplayCache_Check n now c)"
proof -
  let ?e = "t + 2 * MaxClockSkew"
  have le: "?e div second * second \<le> ?e" by (simp add: minus_mod_eq_div_mult [symmetric])
  have "promise_kept (w_cache w) (w_now w) (n, t)" using rc_run_inv [OF assms(2,1,3)] assms(4) by (auto simp: rc_inv_def)
  then have "safe_record (rc_disk (w_cache w)) n ?e" using assms(6,7) le by (auto simp: promise_kept_def)
  then have r: "recorded left n ?e" using assms(5) by (rule safe_record_crash)
  note o = OpenReplayCache_loaded [OF assms(8)]
  have "n \<in> fst ` set (rc_expires c)" by (rule recorded_load [OF r o(3) assms(7)])
  then have "n \<in> fst ` set (rc_expires (rc_purge now c))" using rc_purge_spec(2) [OF o(1), of now] o(2) by auto
  then have "map_of (rc_expires (rc_purge now c)) n \<noteq> None" by (simp add: map_of_eq_None_iff)
  then show ?thesis using o(4-7) by (simp add: accept_begin_def ReplayCache_Check_def Let_def)
qed

text \<open>A run: one acceptance that waits, is committed and reported, then a crash and a restart.\<close>

definition demo_env :: compact_env where
  "demo_env = \<lparr>ce_temporary = None, ce_close = None, ce_rename = None, ce_reopen = True, ce_open = None, ce_syncDir = None\<rparr>"

definition demo_open :: replay_cache where
  "demo_open = (case OpenReplayCache 0 [] None of Inr c \<Rightarrow> c | Inl _ \<Rightarrow> NewReplayCache)"

definition demo_world :: rc_world where
  "demo_world = \<lparr>w_cache = commit_tick None (snd (accept_begin demo_env None [7] 5 demo_open)), w_now = 5,
     w_waiting = [], w_promised = [([7], 5)], w_calls = 1\<rparr>"

definition demo_image :: bytes where "demo_image = lit ''180'' @ [9] @ lit ''Bw'' @ [10]"

lemma demo_opened: "OpenReplayCache 0 [] None = Inr demo_open"
  by code_simp

lemma demo_run: "rc_run demo_open 0 demo_world"
proof -
  have r0: "rc_run demo_open 0 \<lparr>w_cache = demo_open, w_now = 0, w_waiting = [], w_promised = [], w_calls = 0\<rparr>" by (rule rc_run.run_start)
  have b: "fst (accept_begin demo_env None [7] 5 demo_open) = Waiting 1" by code_simp
  let ?c = "snd (accept_begin demo_env None [7] 5 demo_open)"
  have "accept_begin demo_env None [7] 5 demo_open = (Waiting 1, ?c)" using b by (metis prod.collapse)
  from rc_run.run_begin [OF r0, of 5 demo_env None "[7]" "Waiting 1" ?c] this
  have "rc_run demo_open 0 \<lparr>w_cache = ?c, w_now = 5, w_waiting = [(1, [7], 5)], w_promised = [], w_calls = 1\<rparr>"
    by (simp add: after_begin_def)
  from rc_run.run_tick [OF this, of None]
  have r2: "rc_run demo_open 0 \<lparr>w_cache = commit_tick None ?c, w_now = 5, w_waiting = [(1, [7], 5)], w_promised = [], w_calls = 1\<rparr>" by simp
  have "accept_finish 1 (commit_tick None ?c) = Some (True, None)" by code_simp
  from rc_run.run_finish [OF r2, of 1 "[7]" 5 True None] this show ?thesis by (simp add: demo_world_def)
qed

theorem replay_cache_durable_witness:
  "crash_image (rc_disk (w_cache demo_world)) demo_image \<and>
   (\<exists>c. OpenReplayCache 179999999999 demo_image None = Inr c \<and>
      fst (accept_begin demo_env None [7] 179999999999 c) = Returned False None \<and> fst (ReplayCache_Check [7] 179999999999 c))"
proof -
  have "dk_durable (rc_disk (w_cache demo_world)) = demo_image" "dk_tail (rc_disk (w_cache demo_world)) = []" by code_simp+
  then have im: "crash_image (rc_disk (w_cache demo_world)) demo_image" by (simp add: crash_image_def)
  have "\<not> isl (OpenReplayCache 179999999999 demo_image None)" by code_simp
  then obtain c where c: "OpenReplayCache 179999999999 demo_image None = Inr c" by (metis sum.collapse(2))
  have "(5 + 2 * MaxClockSkew) div second * second = 180000000000" by code_simp
  then show ?thesis
    using im c replay_cache_durable [OF demo_opened demo_run _ _ im, of "[7]" 5 179999999999 c demo_env None] by (simp add: demo_world_def)
qed

subsection \<open>No nonce is granted twice while it is live\<close>

definition far_apart :: "bytes \<times> int \<Rightarrow> bytes \<times> int \<Rightarrow> bool" where
  "far_apart a b \<longleftrightarrow> (fst a = fst b \<longrightarrow> 2 * MaxClockSkew \<le> \<bar>snd a - snd b\<bar>)"

definition spaced :: "(bytes \<times> int) multiset \<Rightarrow> bool" where
  "spaced G \<longleftrightarrow> (\<forall>a b. {#a, b#} \<subseteq># G \<longrightarrow> far_apart a b)"

lemma spaced_subset: "spaced G \<Longrightarrow> H \<subseteq># G \<Longrightarrow> spaced H"
  unfolding spaced_def by (meson subset_mset.order_trans)

lemma spaced_add:
  assumes "spaced G" "\<forall>a \<in># G. far_apart x a"
  shows "spaced (add_mset x G)"
  unfolding spaced_def
proof (intro allI impI)
  fix a b assume ab: "{#a, b#} \<subseteq># add_mset x G"
  have sym: "far_apart u v \<longleftrightarrow> far_apart v u" for u v by (auto simp: far_apart_def)
  consider "a = x" | "b = x" "a \<noteq> x" | "a \<noteq> x" "b \<noteq> x" by blast
  then show "far_apart a b"
  proof cases
    case 1
    then have "{#b#} \<subseteq># G" using ab by simp
    then show ?thesis using assms(2) 1 by simp
  next
    case 2
    have "{#a, b#} = add_mset x {#a#}" using 2 by (simp add: add_mset_commute)
    then have "{#a#} \<subseteq># G" using ab by simp
    then show ?thesis using assms(2) 2 sym [of a b] by simp
  next
    case 3
    have "count {#a, b#} y \<le> count G y" for y
      using mset_subset_eq_count [OF ab, of y] 3 by (cases "y = x") simp_all
    then have "{#a, b#} \<subseteq># G" by (rule mset_subset_eqI)
    then show ?thesis using assms(1) unfolding spaced_def by blast
  qed
qed

definition w_granted :: "rc_world \<Rightarrow> (bytes \<times> int) multiset" where
  "w_granted w = mset (map snd (w_waiting w)) + mset (w_promised w)"

definition once_inv :: "rc_world \<Rightarrow> bool" where
  "once_inv w \<longleftrightarrow> table_ok (w_cache w) \<and> spaced (w_granted w) \<and>
     (\<forall>(n, t) \<in># w_granted w. t \<le> w_now w \<and> (w_now w < retained t \<longrightarrow> (n, retained t) \<in> set (rc_expires (w_cache w))))"

lemma once_inv_frame:
  assumes "once_inv w" "table_ok (w_cache w')" "w_now w \<le> w_now w'" "live_at (w_now w') (w_cache w) \<subseteq> set (rc_expires (w_cache w'))"
    "w_granted w' \<subseteq># w_granted w"
  shows "once_inv w'"
proof -
  have "t \<le> w_now w' \<and> (w_now w' < retained t \<longrightarrow> (n, retained t) \<in> set (rc_expires (w_cache w')))" if "(n, t) \<in># w_granted w'" for n t
  proof -
    have g: "(n, t) \<in># w_granted w" using that assms(5) by (rule mset_subset_eqD [rotated])
    then have "t \<le> w_now w" "w_now w < retained t \<Longrightarrow> (n, retained t) \<in> set (rc_expires (w_cache w))"
      using assms(1) by (auto simp: once_inv_def)
    then show ?thesis using assms(3,4) by (auto simp: live_at_def)
  qed
  then show ?thesis using assms(1,2) spaced_subset [OF _ assms(5)] by (auto simp: once_inv_def)
qed

lemma once_inv_begin:
  assumes "once_inv w" "w_now w \<le> now" "accept_begin env wr n now (w_cache w) = (r, c)"
  shows "once_inv (after_begin n now r c w)"
proof -
  let ?w = "after_begin n now r c w"
  have t: "table_ok (w_cache w)" using assms(1) by (simp add: once_inv_def)
  note b = accept_begin_table [OF t assms(3)]
  have w': "w_cache ?w = c" "w_now ?w = now" by (simp_all add: after_begin_def)
  show ?thesis
  proof (cases "granted r")
    case False
    have "w_granted ?w = w_granted w" using after_begin_refused [OF False, of n now c w] by (simp add: w_granted_def)
    then show ?thesis using once_inv_frame [OF assms(1), of ?w] b(1) b(3) [OF False] assms(2) w' by (auto simp: live_at_def)
  next
    case True
    note g = b(2) [OF True]
    have G: "w_granted ?w = add_mset (n, now) (w_granted w)"
      using True by (cases r) (auto simp: after_begin_def granted_def w_granted_def)
    have "far_apart (n, now) a" if "a \<in># w_granted w" for a
    proof (cases a)
      case (Pair m t)
      then have i: "w_now w < retained t \<Longrightarrow> (m, retained t) \<in> set (rc_expires (w_cache w))" using assms(1) that by (auto simp: once_inv_def)
      have "retained t \<le> now" if "m = n"
      proof (rule ccontr)
        assume "\<not> retained t \<le> now"
        then have "(n, retained t) \<in> live_at now (w_cache w)" using i assms(2) that by (auto simp: live_at_def)
        then show False using g by blast
      qed
      then show ?thesis using Pair by (auto simp: far_apart_def)
    qed
    then have s: "spaced (w_granted ?w)" using G spaced_add [of "w_granted w"] assms(1) by (simp add: once_inv_def)
    have "t \<le> now \<and> (now < retained t \<longrightarrow> (m, retained t) \<in> set (rc_expires c))" if "(m, t) \<in># w_granted w" for m t
    proof -
      have "t \<le> w_now w" "w_now w < retained t \<Longrightarrow> (m, retained t) \<in> set (rc_expires (w_cache w))" using assms(1) that by (auto simp: once_inv_def)
      then show ?thesis using assms(2) g by (auto simp: live_at_def)
    qed
    then show ?thesis using s b(1) g w' G by (auto simp: once_inv_def)
  qed
qed

lemma once_inv_same:
  assumes "once_inv w" "rc_expires c = rc_expires (w_cache w)" "rc_queue c = rc_queue (w_cache w)"
  shows "once_inv (w\<lparr>w_cache := c\<rparr>)"
  using assms by (simp add: once_inv_def table_ok_def w_granted_def)

lemma commit_tick_table: "rc_expires (commit_tick sync c) = rc_expires c" "rc_queue (commit_tick sync c) = rc_queue c"
  by (simp_all add: commit_tick_def markPersistenceFailure_def split: option.splits)

lemma once_inv_finish:
  assumes "once_inv w" "(tx, n, t) \<in> set (w_waiting w)"
  shows "once_inv (w\<lparr>w_waiting := remove1 (tx, n, t) (w_waiting w), w_promised := (if ok then (n, t) # w_promised w else w_promised w)\<rparr>)"
    (is "once_inv ?w")
proof (rule once_inv_frame [OF assms(1)])
  have "mset (w_waiting w) = add_mset (tx, n, t) (mset (remove1 (tx, n, t) (w_waiting w)))" using assms(2) by simp
  then have "image_mset snd (mset (w_waiting w)) = image_mset snd (add_mset (tx, n, t) (mset (remove1 (tx, n, t) (w_waiting w))))" by (rule arg_cong)
  then have "mset (map snd (w_waiting w)) = add_mset (n, t) (mset (map snd (remove1 (tx, n, t) (w_waiting w))))"
    by (simp del: mset_remove1)
  then show "w_granted ?w \<subseteq># w_granted w" by (simp add: w_granted_def)
qed (use assms(1) in \<open>auto simp: once_inv_def live_at_def\<close>)

lemma rc_run_once:
  assumes "rc_run c0 now0 w" "table_ok c0"
  shows "once_inv w"
  using assms(1)
proof (induction rule: rc_run.induct)
  case run_start
  show ?case using assms(2) by (simp add: once_inv_def w_granted_def spaced_def)
next
  case (run_begin w now env wr n r c)
  then show ?case by (intro once_inv_begin)
next
  case (run_check w now n b c)
  have t: "table_ok (w_cache w)" using run_check(4) by (simp add: once_inv_def)
  have c: "c = rc_purge now (w_cache w)" using run_check(3) by (simp add: ReplayCache_Check_def Let_def)
  show ?case by (rule once_inv_frame [OF run_check(4)])
    (use rc_purge_spec [OF t, of now] c run_check(2) in \<open>auto simp: live_at_def w_granted_def\<close>)
next
  case (run_wait w now)
  show ?case by (rule once_inv_frame [OF run_wait(3)])
    (use run_wait(2,3) in \<open>auto simp: once_inv_def live_at_def w_granted_def\<close>)
next
  case (run_close w sync1 sync2)
  then show ?case by (intro once_inv_same) (simp_all add: ReplayCache_Close_def Let_def commit_tick_table)
qed (simp_all add: once_inv_finish once_inv_same commit_tick_table)

end
