(* ===== verification/RawHello.thy ===== *)
theory RawHello
  imports Address Crypto
begin

text \<open>
  The handshake of \<^verbatim>\<open>internal/rawstream/frame.go\<close>: plain and polymorphic hello records, the
  multi-user matchers, key derivation and the encrypted 0-RTT OPEN frame. Times are seconds as \<open>uint64\<close>;
  randomness is a source. Writing an empty server identity to a MAC adds nothing, so the conditional
  write of the identity is a concatenation.
\<close>

definition raw_MaxTimestampSkew :: int where "raw_MaxTimestampSkew = 90"
definition MaxPolymorphicPadding :: nat where "MaxPolymorphicPadding = 64"
definition DomainPolymorphicMask :: bytes where "DomainPolymorphicMask = lit ''CHITANDA-RAWSTREAM-POLY-V1''"
definition DomainClientHello :: bytes where "DomainClientHello = lit ''CHITANDA-RAWSTREAM-CLIENT-V1''"
definition DomainServerHello :: bytes where "DomainServerHello = lit ''CHITANDA-RAWSTREAM-SERVER-V1''"
definition Domain0RTTKey :: bytes where "Domain0RTTKey = lit ''CHITANDA-RAWSTREAM-0RTT-V1''"
definition DomainSessionKey :: bytes where "DomainSessionKey = lit ''CHITANDA-RAWSTREAM-SESSION-V1''"
abbreviation (input) ClientHelloSize :: nat where "ClientHelloSize \<equiv> 48"
abbreviation (input) ServerHelloSize :: nat where "ServerHelloSize \<equiv> 40"

definition ErrInvalidRecordLen :: goerr where "ErrInvalidRecordLen = Errorf ''rawstream: invalid handshake record length''"
definition raw_ErrTimestampExpired :: goerr where "raw_ErrTimestampExpired = Errorf ''rawstream: timestamp out of acceptable window''"
definition ErrInvalidClientAuth :: goerr where "ErrInvalidClientAuth = Errorf ''rawstream: invalid client authentication tag''"
definition ErrInvalidServerAuth :: goerr where "ErrInvalidServerAuth = Errorf ''rawstream: invalid server authentication tag''"
definition ErrInvalidPolymorphicPadding :: goerr where "ErrInvalidPolymorphicPadding = Errorf ''rawstream: invalid polymorphic padding length''"
definition raw_ErrInvalidOpenFrame :: goerr where "raw_ErrInvalidOpenFrame = Errorf ''rawstream: invalid OPEN frame structure''"
definition raw_ErrInvalidAddress :: goerr where "raw_ErrInvalidAddress = Errorf ''rawstream: unsupported address type in OPEN frame''"
definition ErrShortPSK :: goerr where "ErrShortPSK = Errorf ''rawstream: PSK must be at least 32 bytes''"

definition raw_expired :: "u64 \<Rightarrow> u64 \<Rightarrow> bool" where
  "raw_expired now timestamp \<longleftrightarrow>
     (let diff = int64_diff now timestamp in diff < - raw_MaxTimestampSkew \<or> raw_MaxTimestampSkew < diff)"

definition client_tag :: "crypto \<Rightarrow> bytes \<Rightarrow> bytes \<Rightarrow> bytes \<Rightarrow> bytes \<Rightarrow> bytes \<Rightarrow> bytes" where
  "client_tag cr psk serverID tsBuf clientNonce pad =
     take 16 (hmac_sha256 cr psk (DomainClientHello @ serverID @ tsBuf @ clientNonce @ pad))"

definition server_tag :: "crypto \<Rightarrow> bytes \<Rightarrow> bytes \<Rightarrow> u64 \<Rightarrow> bytes \<Rightarrow> bytes \<Rightarrow> bytes \<Rightarrow> bytes" where
  "server_tag cr psk serverID timestamp clientNonce serverNonce pad =
     take 16 (hmac_sha256 cr psk (DomainServerHello @ serverID @ putUint64 timestamp @ clientNonce @ serverNonce @ pad))"

definition xor_bytes :: "bytes \<Rightarrow> bytes \<Rightarrow> bytes" where
  "xor_bytes a b = map2 (XOR) a b"

subsection \<open>Fixed-size hello\<close>

definition CreateClientHello :: "crypto \<Rightarrow> source \<Rightarrow> bytes \<Rightarrow> bytes \<Rightarrow> u64 \<Rightarrow> (bytes \<times> bytes \<times> u64) result \<times> source" where
  "CreateClientHello cr rnd psk serverID now =
     (if length psk < 32 then (Inl ErrShortPSK, rnd)
      else case readFull 24 rnd of
             (_, Some e, rnd) \<Rightarrow> (Inl (Errorf ''rawstream: random generator failed''), rnd)
           | (clientNonce, None, rnd) \<Rightarrow>
               (Inr (putUint64 now @ clientNonce @ client_tag cr psk serverID (putUint64 now) clientNonce [], clientNonce, now), rnd))"

definition VerifyClientHello :: "crypto \<Rightarrow> bytes \<Rightarrow> bytes \<Rightarrow> bytes \<Rightarrow> u64 \<Rightarrow> (bytes \<times> u64) result" where
  "VerifyClientHello cr psk serverID record now =
     (if length psk < 32 then Inl ErrShortPSK
      else if length record \<noteq> ClientHelloSize then Inl ErrInvalidRecordLen
      else let timestamp = getUint64 (gslice 0 8 record); clientNonce = gslice 8 32 record
           in if raw_expired now timestamp then Inl raw_ErrTimestampExpired
              else if \<not> hmac_Equal (gslice 32 48 record) (client_tag cr psk serverID (gslice 0 8 record) clientNonce [])
                then Inl ErrInvalidClientAuth
              else Inr (clientNonce, timestamp))"

subsection \<open>Polymorphic client hello\<close>

definition DerivePolymorphicMasks :: "crypto \<Rightarrow> bytes \<Rightarrow> bytes \<Rightarrow> byte \<times> byte" where
  "DerivePolymorphicMasks cr psk serverID =
     (let s = hmac_sha256 cr psk (DomainPolymorphicMask @ serverID) in (s ! 0, s ! 1))"

definition deriveTimestampMask :: "crypto \<Rightarrow> bytes \<Rightarrow> bytes \<Rightarrow> bytes" where
  "deriveTimestampMask cr psk nonce = take 8 (hmac_sha256 cr psk (lit ''rawstream-ts-mask'' @ nonce))"

text \<open>Padding length and padding bytes, common to both polymorphic records; \<open>who\<close> is the part of the error messages in which they differ.\<close>

definition rand_padding :: "string \<Rightarrow> source \<Rightarrow> bytes result \<times> source" where
  "rand_padding who rnd =
     (case readFull 1 rnd of
        (_, Some e, rnd) \<Rightarrow> (Inl (Errorf (''rawstream: '' @ who @ ''rand padLen failed'')), rnd)
      | (b, None, rnd) \<Rightarrow>
          let padLen = unat (b ! 0) mod (MaxPolymorphicPadding + 1)
          in if 0 < padLen then
               (case readFull padLen rnd of
                  (_, Some e, rnd) \<Rightarrow> (Inl (Errorf (''rawstream: '' @ who @ ''rand padBytes failed'')), rnd)
                | (padBytes, None, rnd) \<Rightarrow> (Inr padBytes, rnd))
             else (Inr [], rnd))"

definition CreatePolymorphicClientHello ::
  "crypto \<Rightarrow> source \<Rightarrow> bytes \<Rightarrow> bytes \<Rightarrow> u64 \<Rightarrow> (bytes \<times> bytes \<times> u64) result \<times> source" where
  "CreatePolymorphicClientHello cr rnd psk serverID now =
     (if length psk < 32 then (Inl ErrShortPSK, rnd)
      else case rand_padding '''' rnd of
             (Inl e, rnd) \<Rightarrow> (Inl e, rnd)
           | (Inr padBytes, rnd) \<Rightarrow>
               (case readFull 24 rnd of
                  (_, Some e, rnd) \<Rightarrow> (Inl (Errorf ''rawstream: random generator failed''), rnd)
                | (clientNonce, None, rnd) \<Rightarrow>
                    let padLen = word_of_nat (length padBytes) :: byte;
                        maskedTs = xor_bytes (putUint64 now) (deriveTimestampMask cr psk clientNonce)
                    in (Inr ([padLen XOR fst (DerivePolymorphicMasks cr psk serverID)] @ maskedTs @ clientNonce @
                          client_tag cr psk serverID (putUint64 now) clientNonce [padLen] @ padBytes, clientNonce, now), rnd)))"

definition VerifyPolymorphicClientHello :: "crypto \<Rightarrow> bytes \<Rightarrow> bytes \<Rightarrow> bytes \<Rightarrow> u64 \<Rightarrow> (bytes \<times> u64) result" where
  "VerifyPolymorphicClientHello cr psk serverID record now =
     (if length psk < 32 then Inl ErrShortPSK
      else if length record < 1 + ClientHelloSize then Inl ErrInvalidRecordLen
      else let pb = record ! 0 XOR fst (DerivePolymorphicMasks cr psk serverID); padLen = unat pb
           in if MaxPolymorphicPadding < padLen then Inl ErrInvalidPolymorphicPadding
              else if length record \<noteq> 1 + ClientHelloSize + padLen then Inl ErrInvalidRecordLen
              else let clientNonce = gslice 9 33 record;
                       tsBuf = xor_bytes (gslice 1 9 record) (deriveTimestampMask cr psk clientNonce);
                       timestamp = getUint64 tsBuf
                   in if raw_expired now timestamp then Inl raw_ErrTimestampExpired
                      else if \<not> hmac_Equal (gslice 33 49 record) (client_tag cr psk serverID tsBuf clientNonce [pb])
                        then Inl ErrInvalidClientAuth
                      else Inr (clientNonce, timestamp))"

subsection \<open>Matching one of several users\<close>

record hello_match =
  hm_index :: nat
  hm_padLen :: nat
  hm_nonce :: bytes
  hm_timestamp :: u64

definition match_single :: "crypto \<Rightarrow> bytes \<Rightarrow> bytes \<Rightarrow> bytes \<Rightarrow> u64 \<Rightarrow> hello_match result" where
  "match_single cr header psk serverID now =
     (if length psk < 32 then Inl ErrShortPSK
      else let clientNonce = gslice 9 33 header;
               pb = header ! 0 XOR fst (DerivePolymorphicMasks cr psk serverID); pLen = unat pb
           in if MaxPolymorphicPadding < pLen then Inl ErrInvalidPolymorphicPadding
              else let tsBuf = xor_bytes (gslice 1 9 header) (deriveTimestampMask cr psk clientNonce); ts = getUint64 tsBuf
                   in if raw_expired now ts then Inl raw_ErrTimestampExpired
                      else if \<not> hmac_Equal (gslice 33 49 header) (client_tag cr psk serverID tsBuf clientNonce [pb])
                        then Inl ErrInvalidClientAuth
                      else Inr \<lparr>hm_index = 0, hm_padLen = pLen, hm_nonce = clientNonce, hm_timestamp = ts\<rparr>)"

fun match_loop :: "crypto \<Rightarrow> bytes \<Rightarrow> bytes \<Rightarrow> u64 \<Rightarrow> nat \<Rightarrow> bool \<Rightarrow> bytes list \<Rightarrow> hello_match result" where
  "match_loop cr header serverID now i expiredFound [] =
     Inl (if expiredFound then raw_ErrTimestampExpired else ErrInvalidClientAuth)"
| "match_loop cr header serverID now i expiredFound (psk # keys) =
     (if length psk < 32 then match_loop cr header serverID now (Suc i) expiredFound keys
      else let clientNonce = gslice 9 33 header;
               pb = header ! 0 XOR fst (DerivePolymorphicMasks cr psk serverID); pLen = unat pb
           in if MaxPolymorphicPadding < pLen then match_loop cr header serverID now (Suc i) expiredFound keys
              else let tsBuf = xor_bytes (gslice 1 9 header) (deriveTimestampMask cr psk clientNonce); ts = getUint64 tsBuf
                   in if hmac_Equal (gslice 33 49 header) (client_tag cr psk serverID tsBuf clientNonce [pb]) then
                        (if raw_expired now ts then match_loop cr header serverID now (Suc i) True keys
                         else Inr \<lparr>hm_index = i, hm_padLen = pLen, hm_nonce = clientNonce, hm_timestamp = ts\<rparr>)
                      else match_loop cr header serverID now (Suc i) expiredFound keys)"

definition MatchPolymorphicClientHelloHeader :: "crypto \<Rightarrow> bytes \<Rightarrow> bytes list \<Rightarrow> bytes \<Rightarrow> u64 \<Rightarrow> hello_match result" where
  "MatchPolymorphicClientHelloHeader cr header keys serverID now =
     (if length header < 1 + ClientHelloSize then Inl ErrInvalidRecordLen
      else if length keys = 1 then match_single cr header (keys ! 0) serverID now
      else match_loop cr header serverID now 0 False keys)"

record prepared_matcher =
  pm_keys :: "bytes list"
  pm_clientMasks :: bytes
  pm_serverID :: bytes

definition NewPreparedClientHelloMatcher :: "crypto \<Rightarrow> bytes list \<Rightarrow> bytes \<Rightarrow> prepared_matcher result" where
  "NewPreparedClientHelloMatcher cr keys serverID =
     (if keys = [] then Inl (Errorf ''rawstream: at least one PSK is required'')
      else if \<exists>key \<in> set keys. length key < 32 then Inl ErrShortPSK
      else Inr \<lparr>pm_keys = keys, pm_clientMasks = map (\<lambda>key. fst (DerivePolymorphicMasks cr key serverID)) keys,
                pm_serverID = serverID\<rparr>)"

fun prepared_loop :: "crypto \<Rightarrow> bytes \<Rightarrow> bytes \<Rightarrow> u64 \<Rightarrow> nat \<Rightarrow> bool \<Rightarrow> (bytes \<times> byte) list \<Rightarrow> hello_match result" where
  "prepared_loop cr header serverID now i expiredFound [] =
     Inl (if expiredFound then raw_ErrTimestampExpired else ErrInvalidClientAuth)"
| "prepared_loop cr header serverID now i expiredFound ((psk, msk) # keys) =
     (let clientNonce = gslice 9 33 header; pb = header ! 0 XOR msk; pLen = unat pb
      in if MaxPolymorphicPadding < pLen then prepared_loop cr header serverID now (Suc i) expiredFound keys
         else let tsBuf = xor_bytes (gslice 1 9 header) (deriveTimestampMask cr psk clientNonce)
              in if \<not> hmac_Equal (gslice 33 49 header) (client_tag cr psk serverID tsBuf clientNonce [pb])
                 then prepared_loop cr header serverID now (Suc i) expiredFound keys
                 else let ts = getUint64 tsBuf
                      in if raw_expired now ts then prepared_loop cr header serverID now (Suc i) True keys
                         else Inr \<lparr>hm_index = i, hm_padLen = pLen, hm_nonce = clientNonce, hm_timestamp = ts\<rparr>)"

definition MatchHeader :: "crypto \<Rightarrow> prepared_matcher \<Rightarrow> bytes \<Rightarrow> u64 \<Rightarrow> hello_match result" where
  "MatchHeader cr m header now =
     (if length header < 1 + ClientHelloSize then Inl ErrInvalidRecordLen
      else prepared_loop cr header (pm_serverID m) now 0 False (zip (pm_keys m) (pm_clientMasks m)))"

text \<open>The padding is read only after the header has been authenticated.\<close>

definition read_padding :: "hello_match result \<Rightarrow> source \<Rightarrow> (nat \<times> bytes \<times> u64) result \<times> source" where
  "read_padding res r =
     (case res of
        Inl e \<Rightarrow> (Inl e, r)
      | Inr m \<Rightarrow>
          if 0 < hm_padLen m then
            (case readFull (hm_padLen m) r of
               (_, Some e, r) \<Rightarrow> (Inl e, r)
             | (_, None, r) \<Rightarrow> (Inr (hm_index m, hm_nonce m, hm_timestamp m), r))
          else (Inr (hm_index m, hm_nonce m, hm_timestamp m), r))"

definition ReadAndMatch :: "crypto \<Rightarrow> prepared_matcher \<Rightarrow> source \<Rightarrow> u64 \<Rightarrow> (nat \<times> bytes \<times> u64) result \<times> source" where
  "ReadAndMatch cr m r now =
     (case readFull (1 + ClientHelloSize) r of
        (_, Some e, r) \<Rightarrow> (Inl e, r)
      | (header, None, r) \<Rightarrow> read_padding (MatchHeader cr m header now) r)"

definition ReadAndMatchPolymorphicClientHello ::
  "crypto \<Rightarrow> source \<Rightarrow> bytes list \<Rightarrow> bytes \<Rightarrow> u64 \<Rightarrow> (nat \<times> bytes \<times> u64) result \<times> source" where
  "ReadAndMatchPolymorphicClientHello cr r keys serverID now =
     (case readFull (1 + ClientHelloSize) r of
        (_, Some e, r) \<Rightarrow> (Inl e, r)
      | (header, None, r) \<Rightarrow> read_padding (MatchPolymorphicClientHelloHeader cr header keys serverID now) r)"

definition ReadAndVerifyPolymorphicClientHello ::
  "crypto \<Rightarrow> source \<Rightarrow> bytes \<Rightarrow> bytes \<Rightarrow> u64 \<Rightarrow> (bytes \<times> u64) result \<times> source" where
  "ReadAndVerifyPolymorphicClientHello cr r psk serverID now =
     (if length psk < 32 then (Inl ErrShortPSK, r)
      else case ReadAndMatchPolymorphicClientHello cr r [psk] serverID now of
             (Inl e, r) \<Rightarrow> (Inl e, r)
           | (Inr (_, cNonce, ts), r) \<Rightarrow> (Inr (cNonce, ts), r))"

subsection \<open>Keys\<close>

definition Derive0RTTKey :: "crypto \<Rightarrow> bytes \<Rightarrow> bytes \<Rightarrow> u64 \<Rightarrow> bytes \<Rightarrow> bytes" where
  "Derive0RTTKey cr psk serverID timestamp clientNonce =
     take 16 (hmac_sha256 cr psk (Domain0RTTKey @ serverID @ putUint64 timestamp @ clientNonce))"

definition DeriveSessionKeys :: "crypto \<Rightarrow> bytes \<Rightarrow> bytes \<Rightarrow> u64 \<Rightarrow> bytes \<Rightarrow> bytes \<Rightarrow> bytes \<times> bytes" where
  "DeriveSessionKeys cr psk serverID timestamp clientNonce serverNonce =
     (let prk = hmac_sha256 cr psk (DomainSessionKey @ serverID @ putUint64 timestamp @ clientNonce @ serverNonce)
      in (take 16 (hmac_sha256 cr prk (lit ''C2S'')), take 16 (hmac_sha256 cr prk (lit ''S2C''))))"

subsection \<open>Server hello\<close>

definition CreateServerHello :: "crypto \<Rightarrow> source \<Rightarrow> bytes \<Rightarrow> bytes \<Rightarrow> u64 \<Rightarrow> bytes \<Rightarrow> (bytes \<times> bytes) result \<times> source" where
  "CreateServerHello cr rnd psk serverID timestamp clientNonce =
     (case readFull 24 rnd of
        (_, Some e, rnd) \<Rightarrow> (Inl (Errorf ''rawstream: server random failed''), rnd)
      | (serverNonce, None, rnd) \<Rightarrow>
          (Inr (serverNonce @ server_tag cr psk serverID timestamp clientNonce serverNonce [], serverNonce), rnd))"

definition VerifyServerHello :: "crypto \<Rightarrow> bytes \<Rightarrow> bytes \<Rightarrow> u64 \<Rightarrow> bytes \<Rightarrow> bytes \<Rightarrow> bytes result" where
  "VerifyServerHello cr psk serverID timestamp clientNonce record =
     (if length record \<noteq> ServerHelloSize then Inl ErrInvalidRecordLen
      else let serverNonce = gslice 0 24 record
           in if \<not> hmac_Equal (gslice 24 40 record) (server_tag cr psk serverID timestamp clientNonce serverNonce [])
              then Inl ErrInvalidServerAuth else Inr serverNonce)"

definition CreatePolymorphicServerHello ::
  "crypto \<Rightarrow> source \<Rightarrow> bytes \<Rightarrow> bytes \<Rightarrow> u64 \<Rightarrow> bytes \<Rightarrow> (bytes \<times> bytes) result \<times> source" where
  "CreatePolymorphicServerHello cr rnd psk serverID timestamp clientNonce =
     (if length psk < 32 then (Inl ErrShortPSK, rnd)
      else case rand_padding ''server '' rnd of
             (Inl e, rnd) \<Rightarrow> (Inl e, rnd)
           | (Inr padBytes, rnd) \<Rightarrow>
               (case readFull 24 rnd of
                  (_, Some e, rnd) \<Rightarrow> (Inl (Errorf ''rawstream: server random failed''), rnd)
                | (serverNonce, None, rnd) \<Rightarrow>
                    let padLen = word_of_nat (length padBytes) :: byte
                    in (Inr ([padLen XOR snd (DerivePolymorphicMasks cr psk serverID)] @ serverNonce @
                          server_tag cr psk serverID timestamp clientNonce serverNonce [padLen] @ padBytes, serverNonce), rnd)))"

definition VerifyPolymorphicServerHello :: "crypto \<Rightarrow> bytes \<Rightarrow> bytes \<Rightarrow> u64 \<Rightarrow> bytes \<Rightarrow> bytes \<Rightarrow> bytes result" where
  "VerifyPolymorphicServerHello cr psk serverID timestamp clientNonce record =
     (if length psk < 32 then Inl ErrShortPSK
      else if length record < 1 + ServerHelloSize then Inl ErrInvalidRecordLen
      else let pb = record ! 0 XOR snd (DerivePolymorphicMasks cr psk serverID); padLen = unat pb
           in if MaxPolymorphicPadding < padLen then Inl ErrInvalidPolymorphicPadding
              else if length record \<noteq> 1 + ServerHelloSize + padLen then Inl ErrInvalidRecordLen
              else let serverNonce = gslice 1 25 record
                   in if \<not> hmac_Equal (gslice 25 41 record) (server_tag cr psk serverID timestamp clientNonce serverNonce [pb])
                      then Inl ErrInvalidServerAuth else Inr serverNonce)"

definition ReadAndVerifyPolymorphicServerHello ::
  "crypto \<Rightarrow> source \<Rightarrow> bytes \<Rightarrow> bytes \<Rightarrow> u64 \<Rightarrow> bytes \<Rightarrow> bytes result \<times> source" where
  "ReadAndVerifyPolymorphicServerHello cr r psk serverID timestamp clientNonce =
     (if length psk < 32 then (Inl ErrShortPSK, r)
      else case readFull (1 + ServerHelloSize) r of
             (_, Some e, r) \<Rightarrow> (Inl e, r)
           | (header, None, r) \<Rightarrow>
               let pb = header ! 0 XOR snd (DerivePolymorphicMasks cr psk serverID); padLen = unat pb
               in if MaxPolymorphicPadding < padLen then (Inl ErrInvalidPolymorphicPadding, r)
                  else let serverNonce = gslice 1 25 header
                       in if \<not> hmac_Equal (gslice 25 41 header) (server_tag cr psk serverID timestamp clientNonce serverNonce [pb])
                          then (Inl ErrInvalidServerAuth, r)
                          else if 0 < padLen then
                            (case readFull padLen r of
                               (_, Some e, r) \<Rightarrow> (Inl e, r)
                             | (_, None, r) \<Rightarrow> (Inr serverNonce, r))
                          else (Inr serverNonce, r))"

subsection \<open>0-RTT OPEN frame\<close>

text \<open>\<open>crypto/rand.Int\<close>: rejection sampling of \<open>k\<close>-byte candidates below a positive bound.\<close>

function rand_int_loop :: "nat \<Rightarrow> nat \<Rightarrow> nat \<Rightarrow> source \<Rightarrow> nat result \<times> source" where
  "rand_int_loop k b bound rnd =
     (if k = 0 then (Inr 0, rnd)
      else case readFull k rnd of
             (_, Some e, rnd') \<Rightarrow> (Inl e, rnd')
           | (bs, None, rnd') \<Rightarrow>
               let n = be_get ((hd bs AND (2 ^ b - 1)) # tl bs)
               in if n < bound then (Inr n, rnd') else rand_int_loop k b bound rnd')"
  by pat_completeness auto

termination rand_int_loop
proof (relation "measure (\<lambda>(k, b, bound, rnd). src_size rnd)", goal_cases)
  case 1
  show ?case by simp
next
  case (2 k b bound rnd bs y e rnd' n)
  have r: "readFull k rnd = (bs, None, rnd')" using 2 by simp
  show ?case using readFull_size [OF r] readFull_length(2) [OF r] 2(1) by simp
qed

declare rand_int_loop.simps [simp del]

fun bitlen :: "nat \<Rightarrow> nat" where
  "bitlen n = (if n = 0 then 0 else Suc (bitlen (n div 2)))"

declare bitlen.simps [simp del]

definition rand_Int :: "source \<Rightarrow> nat \<Rightarrow> nat result \<times> source" where
  "rand_Int rnd bound =
     (let l = bitlen (bound - 1); b = (if l mod 8 = 0 then 8 else l mod 8)
      in rand_int_loop ((l + 7) div 8) b bound rnd)"

definition raw_encodeTargetAddress :: "bytes \<Rightarrow> bytes result" where
  "raw_encodeTargetAddress address =
     (case SplitHostPort address of
        Inl e \<Rightarrow> Inl (Errorf ''invalid address'')
      | Inr (host, portText) \<Rightarrow>
          (case parsePort 1 portText of
             Inl e \<Rightarrow> Inl e
           | Inr port \<Rightarrow>
               (case encodeHost ''invalid domain length'' host of
                  Inl e \<Rightarrow> Inl e
                | Inr h \<Rightarrow> Inr (h @ putUint16 port))))"

definition raw_decodeTargetAddress :: "bytes \<Rightarrow> (bytes \<times> nat) result" where
  "raw_decodeTargetAddress b =
     (if length b < 7 then Inl raw_ErrInvalidOpenFrame
      else if b ! 0 = 0x01 then
        (if length b < 7 then Inl raw_ErrInvalidOpenFrame
         else Inr (JoinHostPort (IP_String (gslice 1 5 b)) (Itoa (unat (getUint16 (gslice 5 7 b)))), 7))
      else if b ! 0 = 0x04 then
        (if length b < 19 then Inl raw_ErrInvalidOpenFrame
         else Inr (JoinHostPort (IP_String (gslice 1 17 b)) (Itoa (unat (getUint16 (gslice 17 19 b)))), 19))
      else if b ! 0 = 0x03 then
        (let domainLen = unat (b ! 1)
         in if domainLen = 0 \<or> length b < 2 + domainLen + 2 then Inl raw_ErrInvalidOpenFrame
            else Inr (JoinHostPort (gslice 2 (2 + domainLen) b)
                   (Itoa (unat (getUint16 (gslice (2 + domainLen) (2 + domainLen + 2) b)))), 2 + domainLen + 2))
      else Inl raw_ErrInvalidAddress)"

definition Encode0RTTOpenFrame :: "source \<Rightarrow> bytes \<Rightarrow> bytes \<Rightarrow> int \<Rightarrow> int \<Rightarrow> bytes result \<times> source" where
  "Encode0RTTOpenFrame rnd target initialPayload minPad0 maxPad0 =
     (let minPad = (if minPad0 < 0 then 32 else minPad0);
          maxPad = (if maxPad0 < minPad then 256 else maxPad0);
          padSpan = maxPad - minPad + 1
      in if padSpan \<le> 0 then (Inl (Errorf ''panic: crypto/rand: argument to Int is <= 0''), rnd)
         else case rand_Int rnd (nat padSpan) of
           (Inl e, rnd) \<Rightarrow> (Inl (Errorf ''rawstream: rand padding''), rnd)
         | (Inr n, rnd) \<Rightarrow>
             let paddingLen = nat minPad + n
             in case readFull paddingLen rnd of
                  (_, Some e, rnd) \<Rightarrow> (Inl (Errorf ''rawstream: fill padding''), rnd)
                | (padding, None, rnd) \<Rightarrow>
                    (case raw_encodeTargetAddress target of
                       Inl e \<Rightarrow> (Inl e, rnd)
                     | Inr targetBytes \<Rightarrow>
                         (Inr (putUint16 (word_of_nat paddingLen) @ padding @ targetBytes @ initialPayload), rnd)))"

definition Decode0RTTOpenFrame :: "bytes \<Rightarrow> (bytes \<times> bytes) result" where
  "Decode0RTTOpenFrame plaintext =
     (if length plaintext < 2 then Inl raw_ErrInvalidOpenFrame
      else let paddingLen = unat (getUint16 (gslice 0 2 plaintext))
           in if length plaintext < 2 + paddingLen then Inl raw_ErrInvalidOpenFrame
              else let rest = drop (2 + paddingLen) plaintext
                   in case raw_decodeTargetAddress rest of
                        Inl e \<Rightarrow> Inl e
                      | Inr (target, consumed) \<Rightarrow> Inr (target, drop consumed rest))"

definition Encrypt0RTTChunk :: "crypto \<Rightarrow> bytes \<Rightarrow> bytes \<Rightarrow> bytes" where
  "Encrypt0RTTChunk cr k0RTT plaintext = gcm_seal cr k0RTT (replicate 12 0) plaintext []"

definition Decrypt0RTTChunk :: "crypto \<Rightarrow> bytes \<Rightarrow> bytes \<Rightarrow> bytes result" where
  "Decrypt0RTTChunk cr k0RTT ciphertext =
     (case gcm_open cr k0RTT (replicate 12 0) ciphertext [] of
        None \<Rightarrow> Inl (Errorf ''cipher: message authentication failed'')
      | Some p \<Rightarrow> Inr p)"

subsection \<open>Records\<close>

lemma length_xor_bytes [simp]: "length (xor_bytes a b) = min (length a) (length b)"
  by (simp add: xor_bytes_def)

lemma xor_bytes_twice [simp]: "length a \<le> length b \<Longrightarrow> xor_bytes (xor_bytes a b) b = a"
proof (induction a b rule: list_induct2')
  case (4 x xs y ys)
  then show ?case by (simp add: xor_bytes_def xor.assoc)
qed (auto simp: xor_bytes_def)

lemma tag_lengths:
  assumes "crypto_ok cr"
  shows "length (client_tag cr psk sid ts n p) = 16" "length (server_tag cr psk sid t n m p) = 16"
    "length (deriveTimestampMask cr psk n) = 8"
  using crypto_ok_simps [OF assms] by (simp_all add: client_tag_def server_tag_def deriveTimestampMask_def)

lemma xor_byte_twice [simp]: "((a :: byte) XOR b) XOR b = a"
  by (simp add: xor.assoc)

text \<open>What a key makes of a 49-byte header: the padding byte, the timestamp, and whether it authenticates.\<close>

definition hello_pad :: "crypto \<Rightarrow> bytes \<Rightarrow> bytes \<Rightarrow> bytes \<Rightarrow> byte" where
  "hello_pad cr header psk serverID = header ! 0 XOR fst (DerivePolymorphicMasks cr psk serverID)"

definition hello_tsBuf :: "crypto \<Rightarrow> bytes \<Rightarrow> bytes \<Rightarrow> bytes" where
  "hello_tsBuf cr header psk = xor_bytes (gslice 1 9 header) (deriveTimestampMask cr psk (gslice 9 33 header))"

definition hello_authentic :: "crypto \<Rightarrow> bytes \<Rightarrow> bytes \<Rightarrow> bytes \<Rightarrow> bool" where
  "hello_authentic cr header psk serverID \<longleftrightarrow> unat (hello_pad cr header psk serverID) \<le> MaxPolymorphicPadding \<and>
     gslice 33 49 header =
       client_tag cr psk serverID (hello_tsBuf cr header psk) (gslice 9 33 header) [hello_pad cr header psk serverID]"

definition hello_ok :: "crypto \<Rightarrow> bytes \<Rightarrow> bytes \<Rightarrow> bytes \<Rightarrow> u64 \<Rightarrow> bool" where
  "hello_ok cr header psk serverID now \<longleftrightarrow> hello_authentic cr header psk serverID \<and>
     \<not> raw_expired now (getUint64 (hello_tsBuf cr header psk))"

definition hello_result :: "crypto \<Rightarrow> bytes \<Rightarrow> bytes \<Rightarrow> bytes \<Rightarrow> nat \<Rightarrow> hello_match" where
  "hello_result cr header psk serverID i = \<lparr>hm_index = i, hm_padLen = unat (hello_pad cr header psk serverID),
     hm_nonce = gslice 9 33 header, hm_timestamp = getUint64 (hello_tsBuf cr header psk)\<rparr>"

lemmas hello_defs = hello_ok_def hello_authentic_def hello_result_def hello_pad_def hello_tsBuf_def Let_def hmac_Equal_def

lemma match_loop_step:
  "32 \<le> length psk \<Longrightarrow> match_loop cr header serverID now i ex (psk # keys) =
     (if hello_ok cr header psk serverID now then Inr (hello_result cr header psk serverID i)
      else match_loop cr header serverID now (Suc i) (ex \<or> hello_authentic cr header psk serverID) keys)"
  by (simp add: hello_defs)

lemma prepared_loop_match:
  "\<forall>k \<in> set keys. 32 \<le> length k \<Longrightarrow>
   prepared_loop cr header serverID now i ex (map (\<lambda>k. (k, fst (DerivePolymorphicMasks cr k serverID))) keys) =
   match_loop cr header serverID now i ex keys"
  by (induction keys arbitrary: i ex) (auto simp: Let_def hmac_Equal_def)

lemma match_single_iff:
  "32 \<le> length psk \<Longrightarrow> match_single cr header psk serverID now = Inr r \<longleftrightarrow>
     hello_ok cr header psk serverID now \<and> r = hello_result cr header psk serverID 0"
  by (auto simp: match_single_def hello_defs)

lemma match_loop_iff:
  "\<forall>k \<in> set keys. 32 \<le> length k \<Longrightarrow> match_loop cr header serverID now i ex keys = Inr r \<longleftrightarrow>
     (\<exists>j < length keys. hello_ok cr header (keys ! j) serverID now \<and>
        (\<forall>l < j. \<not> hello_ok cr header (keys ! l) serverID now) \<and> r = hello_result cr header (keys ! j) serverID (i + j))"
proof (induction keys arbitrary: i ex)
  case Nil
  then show ?case by simp
next
  case (Cons psk keys)
  let ?ok = "\<lambda>k. hello_ok cr header k serverID now"
  have psk: "32 \<le> length psk" and keys: "\<forall>k \<in> set keys. 32 \<le> length k" using Cons.prems by auto
  have ex: "(\<exists>j < length (psk # keys). P j) \<longleftrightarrow> P 0 \<or> (\<exists>j < length keys. P (Suc j))" for P
    by (auto simp: less_Suc_eq_0_disj)
  show ?case
    unfolding match_loop_step [OF psk] ex using Cons.IH [OF keys, of "Suc i"]
    by (auto simp: All_less_Suc2)
qed

lemma NewPrepared_ok:
  assumes "NewPreparedClientHelloMatcher cr keys serverID = Inr m"
  shows "keys \<noteq> []" "\<forall>k \<in> set keys. 32 \<le> length k"
    "49 \<le> length header \<Longrightarrow> MatchHeader cr m header now = match_loop cr header serverID now 0 False keys"
    "length header < 49 \<Longrightarrow> MatchHeader cr m header now = Inl ErrInvalidRecordLen"
proof -
  have m: "m = \<lparr>pm_keys = keys, pm_clientMasks = map (\<lambda>key. fst (DerivePolymorphicMasks cr key serverID)) keys, pm_serverID = serverID\<rparr>"
    using assms by (auto simp: NewPreparedClientHelloMatcher_def split: if_splits)
  show k: "keys \<noteq> []" "\<forall>k \<in> set keys. 32 \<le> length k"
    using assms by (auto simp: NewPreparedClientHelloMatcher_def not_less split: if_splits)
  have "zip keys (map f keys) = map (\<lambda>k. (k, f k)) keys" for f :: "bytes \<Rightarrow> byte" by (induction keys) auto
  then show "49 \<le> length header \<Longrightarrow> MatchHeader cr m header now = match_loop cr header serverID now 0 False keys"
    using prepared_loop_match [OF k(2), of cr header serverID now 0 False] by (simp add: MatchHeader_def m)
  show "length header < 49 \<Longrightarrow> MatchHeader cr m header now = Inl ErrInvalidRecordLen" by (simp add: MatchHeader_def)
qed

subsection \<open>Created records are accepted\<close>

lemma rand_padding_ok: "rand_padding who rnd = (Inr pad, rnd') \<Longrightarrow> length pad \<le> MaxPolymorphicPadding"
proof -
  assume r: "rand_padding who rnd = (Inr pad, rnd')"
  obtain b e s where b: "readFull 1 rnd = (b, e, s)" by (cases "readFull 1 rnd") auto
  define n where "n = unat (b ! 0) mod (MaxPolymorphicPadding + 1)"
  have n: "n \<le> MaxPolymorphicPadding"
    using mod_less_divisor [of "MaxPolymorphicPadding + 1" "unat (b ! 0)"] unfolding n_def by linarith
  obtain p f t where p: "readFull n s = (p, f, t)" by (cases "readFull n s") auto
  show ?thesis
    using r b p n readFull_length(1) [OF p]
    by (auto simp: rand_padding_def Let_def n_def [symmetric] simp del: add_Suc_right Nat.add_0_right One_nat_def
        split: option.splits if_splits)
qed

lemma CreatePolymorphicClientHello_ok:
  assumes "CreatePolymorphicClientHello cr rnd psk serverID now = (Inr (record, nonce, ts), rnd')"
  obtains pad where "32 \<le> length psk" "length nonce = 24" "ts = now" "length pad \<le> MaxPolymorphicPadding"
    "record = ((word_of_nat (length pad) XOR fst (DerivePolymorphicMasks cr psk serverID)) #
       xor_bytes (putUint64 now) (deriveTimestampMask cr psk nonce) @ nonce @
       client_tag cr psk serverID (putUint64 now) nonce [word_of_nat (length pad)]) @ pad"
proof -
  obtain pad s where p: "rand_padding '''' rnd = (Inr pad, s)" and l: "32 \<le> length psk"
    using assms by (auto simp: CreatePolymorphicClientHello_def split: if_splits sum.splits prod.splits)
  obtain n s' where n: "readFull 24 s = (n, None, s')"
    using assms p l by (auto simp: CreatePolymorphicClientHello_def split: prod.splits option.splits)
  have "length n = 24" using readFull_length(2) [OF n] by simp
  then show thesis
    using assms p n l rand_padding_ok [OF p]
    by (intro that [of pad]) (auto simp: CreatePolymorphicClientHello_def Let_def)
qed

text \<open>The fields of a created header as a receiver slices them.\<close>

lemma client_header_fields:
  fixes psk serverID nonce pad :: bytes and now :: u64
  assumes cr: "crypto_ok cr" and n: "length nonce = 24" and pad: "length pad \<le> MaxPolymorphicPadding"
  defines "header \<equiv> (word_of_nat (length pad) XOR fst (DerivePolymorphicMasks cr psk serverID)) #
       xor_bytes (putUint64 now) (deriveTimestampMask cr psk nonce) @ nonce @
       client_tag cr psk serverID (putUint64 now) nonce [word_of_nat (length pad)]"
  shows "length header = 49" "hello_authentic cr header psk serverID" "hello_tsBuf cr header psk = putUint64 now"
    "gslice 9 33 header = nonce" "unat (hello_pad cr header psk serverID) = length pad"
proof -
  let ?m = "xor_bytes (putUint64 now) (deriveTimestampMask cr psk nonce)"
  let ?t = "client_tag cr psk serverID (putUint64 now) nonce [word_of_nat (length pad)]"
  have lm: "length ?m = 8" and lt: "length ?t = 16" using tag_lengths [OF cr] by simp_all
  have sl: "gslice 1 9 header = ?m" "gslice 9 33 header = nonce" "gslice 33 49 header = ?t" "header ! 0 =
      word_of_nat (length pad) XOR fst (DerivePolymorphicMasks cr psk serverID)"
    unfolding header_def gslice_def using lm lt n by simp_all
  have pb: "hello_pad cr header psk serverID = word_of_nat (length pad)" by (simp add: hello_pad_def sl)
  have up: "unat (word_of_nat (length pad) :: byte) = length pad"
    using pad by (simp add: MaxPolymorphicPadding_def unat_of_nat)
  have ts: "hello_tsBuf cr header psk = putUint64 now" using tag_lengths(3) [OF cr]
    by (simp add: hello_tsBuf_def sl del: One_nat_def)
  show "length header = 49" using lm lt n by (simp add: header_def)
  show "gslice 9 33 header = nonce" by (rule sl)
  show "hello_tsBuf cr header psk = putUint64 now" by (rule ts)
  show "unat (hello_pad cr header psk serverID) = length pad" using pb up by simp
  show "hello_authentic cr header psk serverID" using pb up pad ts sl by (simp add: hello_authentic_def)
qed

lemma read_padding_clean:
  assumes "src_clean src" "src_bytes src = pad @ rest" "hm_padLen m = length pad"
  shows "\<exists>src'. read_padding (Inr m) src = (Inr (hm_index m, hm_nonce m, hm_timestamp m), src') \<and>
    src_clean src' \<and> src_bytes src' = rest"
proof (cases "pad = []")
  case True
  then show ?thesis using assms by (simp add: read_padding_def)
next
  case False
  obtain src' where "readFull (length pad) src = (pad, None, src')" "src_clean src'" "src_bytes src' = rest"
    by (rule readFull_append_clean [OF assms(1,2) refl])
  then show ?thesis using assms(3) False by (simp add: read_padding_def)
qed

subsection \<open>The OPEN frame\<close>

lemma rand_int_loop_bound: "rand_int_loop k b bound rnd = (Inr n, rnd') \<Longrightarrow> 0 < bound \<Longrightarrow> n < bound"
proof (induction k b bound rnd rule: rand_int_loop.induct)
  case (1 k b bound rnd)
  obtain bs e s where r: "readFull k rnd = (bs, e, s)" by (cases "readFull k rnd") auto
  show ?case
  proof (cases "k = 0 \<or> e \<noteq> None \<or> be_get ((hd bs AND (2 ^ b - 1)) # tl bs) < bound")
    case True
    then show ?thesis using "1.prems" r by (auto simp: rand_int_loop.simps [of k b bound rnd] Let_def split: if_splits option.splits)
  next
    case False
    then have k: "k \<noteq> 0" "e = None" "\<not> be_get ((hd bs AND (2 ^ b - 1)) # tl bs) < bound" by auto
    then have "rand_int_loop k b bound s = (Inr n, rnd')"
      using "1.prems" r by (simp add: rand_int_loop.simps [of k b bound rnd] Let_def)
    with "1.IH" [OF k(1) r [symmetric] refl k(2) refl k(3)] "1.prems"(2) show ?thesis by blast
  qed
qed

definition raw_fits :: "bytes \<Rightarrow> bytes \<Rightarrow> bool" where
  "raw_fits w rest \<longleftrightarrow> 7 \<le> length (w @ rest)"

definition raw_decode :: "bytes \<Rightarrow> (bytes \<times> bytes) result" where
  "raw_decode b = (case raw_decodeTargetAddress b of Inl e \<Rightarrow> Inl e | Inr (t, n) \<Rightarrow> Inr (t, drop n b))"

lemma raw_encode_parts:
  assumes "raw_encodeTargetAddress a = Inr w"
  obtains host port h where "encodeHost ''invalid domain length'' host = Inr h" "w = h @ putUint16 port"
    "canonAddr a = JoinHostPort (canonHost host) (Itoa (unat port))" "SplitHostPort a = Inr (host, snd (projr (SplitHostPort a)))"
proof -
  obtain host portText port h where p: "SplitHostPort a = Inr (host, portText)" "parsePort 1 portText = Inr port"
    "encodeHost ''invalid domain length'' host = Inr h" "w = h @ putUint16 port"
    using assms by (auto simp: raw_encodeTargetAddress_def split: sum.splits prod.splits)
  have "canonAddr a = JoinHostPort (canonHost host) (Itoa (unat port))"
    using p(1) parsePort_value(1) [OF p(2)] by (simp add: canonAddr_def)
  then show thesis using that [OF p(3,4)] p(1) by simp
qed

interpretation raw_addr: addr_codec raw_encodeTargetAddress raw_decode canonAddr raw_fits
proof
  fix a w rest
  assume w: "raw_encodeTargetAddress a = Inr w" and f: "raw_fits w rest"
  obtain host port h where p: "encodeHost ''invalid domain length'' host = Inr h" "w = h @ putUint16 port"
    "canonAddr a = JoinHostPort (canonHost host) (Itoa (unat port))" by (rule raw_encode_parts [OF w])
  from p(1) show "raw_decode (w @ rest) = Inr (canonAddr a, rest)"
  proof (cases rule: encodeHost_cases)
    case (v4 q)
    then show ?thesis using p by (simp add: raw_decode_def raw_decodeTargetAddress_def gslice_def)
  next
    case (v6 ip)
    then show ?thesis using p by (simp add: raw_decode_def raw_decodeTargetAddress_def gslice_def)
  next
    case dom
    then show ?thesis using p f
      by (auto simp: raw_decode_def raw_decodeTargetAddress_def gslice_def Let_def raw_fits_def)
  qed
qed

subsection \<open>Properties of the handshake\<close>

text \<open>A polymorphic ClientHello created by a client is accepted by every listener that knows its key,
  whatever the random padding and however the network splits the record: the listener attributes it to the
  first key that authenticates it, recovers nonce and timestamp, and has consumed exactly the record, so the
  next read starts at the 0-RTT frame. Hypotheses: the clocks differ by at most 90 seconds and no earlier
  key authenticates the same header.\<close>

lemma raw_client_hello_accepted:
  assumes "crypto_ok cr" "CreatePolymorphicClientHello cr rnd psk serverID now = (Inr (record, nonce, ts), rnd')"
    and "NewPreparedClientHelloMatcher cr keys serverID = Inr m" "i < length keys" "keys ! i = psk"
    and "\<And>j. j < i \<Longrightarrow> \<not> hello_ok cr (take 49 record) (keys ! j) serverID now'"
    and "\<bar>int64_diff now' now\<bar> \<le> 90" "src_clean src" "src_bytes src = record @ rest"
  shows "\<exists>src'. ReadAndMatch cr m src now' = (Inr (i, nonce, now), src') \<and> src_clean src' \<and> src_bytes src' = rest"
proof -
  obtain pad where c: "length nonce = 24" "length pad \<le> MaxPolymorphicPadding"
    and rec: "record = ((word_of_nat (length pad) XOR fst (DerivePolymorphicMasks cr psk serverID)) #
       xor_bytes (putUint64 now) (deriveTimestampMask cr psk nonce) @ nonce @
       client_tag cr psk serverID (putUint64 now) nonce [word_of_nat (length pad)]) @ pad" (is "_ = ?h @ pad")
    by (rule CreatePolymorphicClientHello_ok [OF assms(2)])
  note f = client_header_fields [OF assms(1) c, of psk serverID now]
  have h: "take 49 record = ?h" using f(1) rec by simp
  obtain s1 where s1: "readFull 49 src = (?h, None, s1)" "src_clean s1" "src_bytes s1 = pad @ rest"
    by (rule readFull_append_clean [OF assms(8), of ?h "pad @ rest" 49]) (use assms(9) rec f(1) in auto)
  have ok: "hello_ok cr ?h (keys ! i) serverID now'"
    using f assms(5,7) by (auto simp: hello_ok_def raw_expired_def raw_MaxTimestampSkew_def Let_def)
  have "match_loop cr ?h serverID now' 0 False keys = Inr (hello_result cr ?h (keys ! i) serverID (0 + i))"
    using NewPrepared_ok(2) [OF assms(3)] assms(4,6) ok h by (subst match_loop_iff) auto
  then have mh: "MatchHeader cr m ?h now' = Inr (hello_result cr ?h psk serverID i)"
    using NewPrepared_ok(3) [OF assms(3), of ?h now'] f(1) assms(5) by simp
  show ?thesis
    using read_padding_clean [OF s1(2,3), of "hello_result cr ?h psk serverID i"] s1(1) mh f
    by (simp add: ReadAndMatch_def hello_result_def)
qed

text \<open>C7: A listener accepts a header only for a configured key whose HMAC tag over the server identity,
  the unmasked timestamp, the nonce and the padding length it carries, with at most 64 bytes of padding and a
  timestamp within 90 seconds of the listener's clock; no key before the reported one qualifies.\<close>

theorem raw_match_sound:
  assumes "NewPreparedClientHelloMatcher cr keys serverID = Inr m" "MatchHeader cr m header now = Inr r"
  shows "hm_index r < length keys \<and> hm_padLen r \<le> 64 \<and> hm_nonce r = gslice 9 33 header \<and>
    gslice 33 49 header = client_tag cr (keys ! hm_index r) serverID
      (hello_tsBuf cr header (keys ! hm_index r)) (hm_nonce r) [word_of_nat (hm_padLen r)] \<and>
    hm_timestamp r = getUint64 (hello_tsBuf cr header (keys ! hm_index r)) \<and>
    \<bar>int64_diff now (hm_timestamp r)\<bar> \<le> 90 \<and>
    (\<forall>l < hm_index r. \<not> hello_ok cr header (keys ! l) serverID now)"
proof -
  have l: "49 \<le> length header" using NewPrepared_ok(4) [OF assms(1), of header now] assms(2) by force
  obtain j where j: "j < length keys" "hello_ok cr header (keys ! j) serverID now"
    "\<forall>l < j. \<not> hello_ok cr header (keys ! l) serverID now" "r = hello_result cr header (keys ! j) serverID j"
    using assms(2) NewPrepared_ok(3) [OF assms(1) l] match_loop_iff [OF NewPrepared_ok(2) [OF assms(1)]] by auto
  show ?thesis
    using j by (auto simp: hello_ok_def hello_authentic_def hello_result_def raw_expired_def raw_MaxTimestampSkew_def
        MaxPolymorphicPadding_def Let_def)
qed

theorem raw_match_sound_witness:
  "\<exists>m r. NewPreparedClientHelloMatcher toy_crypto [replicate 32 1, replicate 32 2] [4] = Inr m \<and>
    MatchHeader toy_crypto m (take 49 (fst (projr (fst (CreatePolymorphicClientHello toy_crypto
      [([2, 8, 8] @ replicate 24 7, None)] (replicate 32 2) [4] 500))))) 500 = Inr r \<and> hm_padLen r \<le> 64"
proof -
  let ?n = "NewPreparedClientHelloMatcher toy_crypto [replicate 32 1, replicate 32 2] [4]"
  let ?h = "take 49 (fst (projr (fst (CreatePolymorphicClientHello toy_crypto [([2, 8, 8] @ replicate 24 7, None)] (replicate 32 2) [4] 500))))"
  have "\<not> isl ?n" "\<not> isl (MatchHeader toy_crypto (projr ?n) ?h 500)" by code_simp+
  then obtain m r where m: "?n = Inr m" "MatchHeader toy_crypto m ?h 500 = Inr r"
    by (cases ?n; cases "MatchHeader toy_crypto (projr ?n) ?h 500") auto
  from raw_match_sound [OF m] show ?thesis using m by blast
qed

text \<open>The matcher prepared at start-up, which computes the padding masks once, decides like the
  unprepared matcher: both accept the same headers with the same user, padding, nonce and timestamp, and with
  more than one user also the errors are the same. (With exactly one user the unprepared matcher reports a
  different error for some headers both reject.)\<close>

theorem prepared_matcher_equivalent:
  assumes "NewPreparedClientHelloMatcher cr keys serverID = Inr m"
  shows "(MatchHeader cr m header now = Inr r \<longleftrightarrow> MatchPolymorphicClientHelloHeader cr header keys serverID now = Inr r) \<and>
    (length keys \<noteq> 1 \<longrightarrow> MatchHeader cr m header now = MatchPolymorphicClientHelloHeader cr header keys serverID now)"
proof (cases "length header < 49")
  case True
  then show ?thesis using NewPrepared_ok(4) [OF assms True] by (simp add: MatchPolymorphicClientHelloHeader_def)
next
  case False
  note k = NewPrepared_ok(2) [OF assms]
  have mh: "MatchHeader cr m header now = match_loop cr header serverID now 0 False keys"
    using NewPrepared_ok(3) [OF assms] False by simp
  show ?thesis
  proof (cases "length keys = 1")
    case True
    then obtain psk where psk: "keys = [psk]" by (auto simp: length_Suc_conv)
    then have "32 \<le> length psk" using k by simp
    from match_single_iff [OF this] show ?thesis
      using mh psk False match_loop_iff [OF k, of cr header serverID now 0 False r]
      by (simp add: MatchPolymorphicClientHelloHeader_def)
  next
    case n: False
    then show ?thesis using mh False by (simp add: MatchPolymorphicClientHelloHeader_def)
  qed
qed

theorem prepared_matcher_equivalent_witness:
  "\<exists>m. NewPreparedClientHelloMatcher toy_crypto [replicate 32 1, replicate 32 2] [4] = Inr m \<and>
    MatchHeader toy_crypto m (replicate 49 0) 7 = MatchPolymorphicClientHelloHeader toy_crypto (replicate 49 0) [replicate 32 1, replicate 32 2] [4] 7"
proof -
  let ?n = "NewPreparedClientHelloMatcher toy_crypto [replicate 32 1, replicate 32 2] [4]"
  have "\<not> isl ?n" by code_simp
  then obtain m where m: "?n = Inr m" by (cases ?n) auto
  from conjunct2 [OF prepared_matcher_equivalent [OF m]] show ?thesis using m by auto
qed

text \<open>The polymorphic ServerHello a listener creates for a client's nonce and timestamp is accepted by
  that client, whatever the padding and however the network splits it: the client learns the server nonce, both
  sides derive the same session keys, and the next read starts right after the record.\<close>

lemma raw_server_hello_accepted:
  assumes "crypto_ok cr" "CreatePolymorphicServerHello cr rnd psk serverID ts clientNonce = (Inr (rcd, serverNonce), rnd')"
    and "src_clean src" "src_bytes src = rcd @ rest"
  shows "\<exists>src'. ReadAndVerifyPolymorphicServerHello cr src psk serverID ts clientNonce = (Inr serverNonce, src') \<and>
    src_clean src' \<and> src_bytes src' = rest \<and> VerifyPolymorphicServerHello cr psk serverID ts clientNonce rcd = Inr serverNonce"
proof -
  obtain pad s where p: "rand_padding ''server '' rnd = (Inr pad, s)" and l: "32 \<le> length psk"
    using assms(2) by (auto simp: CreatePolymorphicServerHello_def split: if_splits sum.splits prod.splits)
  obtain n s' where n: "readFull 24 s = (n, None, s')"
    using assms(2) p l by (auto simp: CreatePolymorphicServerHello_def split: prod.splits option.splits)
  have ln: "length n = 24" using readFull_length(2) [OF n] by simp
  let ?pb = "word_of_nat (length pad) :: byte" and ?mask = "snd (DerivePolymorphicMasks cr psk serverID)"
  let ?t = "server_tag cr psk serverID ts clientNonce n [?pb]"
  let ?h = "[?pb XOR ?mask] @ n @ ?t"
  have r: "rcd = ?h @ pad" "serverNonce = n"
    using assms(2) p n l by (auto simp: CreatePolymorphicServerHello_def Let_def)
  have pad: "length pad \<le> MaxPolymorphicPadding" by (rule rand_padding_ok [OF p])
  then have up: "unat ?pb = length pad" by (simp add: MaxPolymorphicPadding_def unat_of_nat)
  have lt: "length ?t = 16" by (rule tag_lengths(2) [OF assms(1)])
  have sl: "?h ! 0 = ?pb XOR ?mask" "gslice 1 25 (?h @ x) = n" "gslice 25 41 (?h @ x) = ?t" "length ?h = 41" for x
    using ln lt by (simp_all add: gslice_def)
  note sl0 = sl(2) [of "[]", unfolded append_Nil2] sl(3) [of "[]", unfolded append_Nil2]
  obtain s1 where s1: "readFull 41 src = (?h, None, s1)" "src_clean s1" "src_bytes s1 = pad @ rest"
    by (rule readFull_append_clean [OF assms(3), of ?h "pad @ rest" 41]) (use assms(4) r sl(4) in auto)
  obtain s2 where s2: "readFull (length pad) s1 = (pad, None, s2)" "src_clean s2" "src_bytes s2 = rest"
    by (rule readFull_append_clean [OF s1(2,3) refl])
  have s20: "pad = [] \<Longrightarrow> s2 = s1" using s2(1) by simp
  have verify: "VerifyPolymorphicServerHello cr psk serverID ts clientNonce rcd = Inr n"
    unfolding VerifyPolymorphicServerHello_def r(1) sl(2,3) using l pad up ln lt
    by (simp add: Let_def hmac_Equal_def nth_append)
  have "ReadAndVerifyPolymorphicServerHello cr src psk serverID ts clientNonce = (Inr n, s2)"
    using l s1(1) s2(1) s20 pad up sl(1) sl0
    by (simp add: ReadAndVerifyPolymorphicServerHello_def Let_def hmac_Equal_def del: One_nat_def)
  then show ?thesis using s2 verify r(2) by blast
qed

lemma open_frame_encoded:
  assumes "Encode0RTTOpenFrame rnd target payload 32 256 = (Inr pt, rnd')"
  obtains w padding where "raw_encodeTargetAddress target = Inr w" "length padding \<le> 256"
    "pt = putUint16 (word_of_nat (length padding)) @ padding @ w @ payload"
proof -
  obtain n s where n: "rand_Int rnd 225 = (Inr n, s)"
    using assms by (auto simp: Encode0RTTOpenFrame_def split: sum.splits prod.splits)
  have lt: "n < 225" using n rand_int_loop_bound by (auto simp: rand_Int_def Let_def)
  obtain p t where p: "readFull (32 + n) s = (p, None, t)"
    using assms n by (auto simp: Encode0RTTOpenFrame_def Let_def split: option.splits prod.splits)
  have l: "length p = 32 + n" using readFull_length(2) [OF p] by simp
  obtain w where "raw_encodeTargetAddress target = Inr w" "pt = putUint16 (word_of_nat (32 + n)) @ p @ w @ payload"
    using assms n p by (auto simp: Encode0RTTOpenFrame_def Let_def split: sum.splits)
  then show thesis using that [of w p] l lt by simp
qed

lemma Decode0RTT_layout:
  assumes "length padding \<le> 256"
  shows "Decode0RTTOpenFrame (putUint16 (word_of_nat (length padding)) @ padding @ rest) = raw_decode rest"
proof -
  let ?p = "putUint16 (word_of_nat (length padding)) @ padding @ rest"
  have "unat (word_of_nat (length padding) :: u16) = length padding" using assms by (simp add: unat_of_nat)
  moreover have "drop (2 + length padding) ?p = rest" by simp
  ultimately show ?thesis by (simp add: Decode0RTTOpenFrame_def raw_decode_def gslice_def Let_def)
qed

text \<open>The encrypted 0-RTT OPEN frame a client sends opens to its destination (in canonical spelling) and
  its initial payload, for every random padding, provided the encoded address and the payload together have at
  least 7 bytes, the size of an IPv4 address.\<close>

lemma open_frame_roundtrip:
  assumes "crypto_ok cr" "Encode0RTTOpenFrame rnd target payload 32 256 = (Inr pt, rnd')"
    and "raw_encodeTargetAddress target = Inr w" "7 \<le> length w + length payload"
  shows "case Decrypt0RTTChunk cr key (Encrypt0RTTChunk cr key pt) of
      Inl e \<Rightarrow> False | Inr plain \<Rightarrow> Decode0RTTOpenFrame plain = Inr (canonAddr target, payload)"
proof -
  obtain v padding where p: "raw_encodeTargetAddress target = Inr v" "length padding \<le> 256"
    "pt = putUint16 (word_of_nat (length padding)) @ padding @ v @ payload" by (rule open_frame_encoded [OF assms(2)])
  have "raw_decode (v @ payload) = Inr (canonAddr target, payload)"
    by (rule raw_addr.decode_encode [OF p(1)]) (use p(1) assms(3,4) in \<open>simp add: raw_fits_def\<close>)
  then show ?thesis using Decode0RTT_layout [OF p(2), of "v @ payload"] p(3)
    by (simp add: Decrypt0RTTChunk_def Encrypt0RTTChunk_def crypto_ok_simps [OF assms(1)])
qed

text \<open>C8: The minimum length in \<open>decodeTargetAddress\<close> is that of an IPv4 address, so the OPEN frame of a
  client that connects to a host name of one or two characters without early data, which the encoder accepts
  and the client sends, is rejected by the server.\<close>

theorem open_frame_short_domain_rejected:
  assumes "domain_ok h" "length h \<le> 2" "1 \<le> n" "n < 65536"
    and "Encode0RTTOpenFrame rnd (JoinHostPort h (Itoa n)) [] 32 256 = (Inr pt, rnd')"
  shows "Decode0RTTOpenFrame pt = Inl raw_ErrInvalidOpenFrame"
proof -
  obtain w padding where p: "raw_encodeTargetAddress (JoinHostPort h (Itoa n)) = Inr w" "length padding \<le> 256"
    "pt = putUint16 (word_of_nat (length padding)) @ padding @ w @ []" by (rule open_frame_encoded [OF assms(5)])
  have "host_ok h" using assms(1) by (simp add: host_ok_def)
  then have "w = (0x03 # word_of_nat (length h) # h) @ putUint16 (word_of_nat n)"
    using p(1) assms(1,3,4) by (auto simp: raw_encodeTargetAddress_def encodeHost_def domain_ok_def)
  then show ?thesis using Decode0RTT_layout [OF p(2), of "w @ []"] p(3) assms(2)
    by (simp add: raw_decode_def raw_decodeTargetAddress_def)
qed

theorem open_frame_short_domain_rejected_witness:
  "\<exists>pt rnd'. Encode0RTTOpenFrame [(replicate 300 0, None)] (lit ''ai:443'') [] 32 256 = (Inr pt, rnd') \<and>
    Decode0RTTOpenFrame pt = Inl raw_ErrInvalidOpenFrame"
proof -
  let ?e = "Encode0RTTOpenFrame [(replicate 300 0, None)] (JoinHostPort (lit ''ai'') (Itoa 443)) [] 32 256"
  have "\<not> isl (fst ?e)" by code_simp
  then obtain pt rnd' where e: "?e = (Inr pt, rnd')" by (cases ?e; cases "fst ?e") auto
  have d: "domain_ok (lit ''ai'')" "JoinHostPort (lit ''ai'') (Itoa 443) = lit ''ai:443''" by code_simp+
  from open_frame_short_domain_rejected [OF d(1) _ _ _ e] show ?thesis using e d(2) by auto
qed

end
