(* ===== verification/RawStream.thy ===== *)
theory RawStream
  imports Address Crypto
begin

text \<open>
  The AES-GCM record stream of \<^verbatim>\<open>internal/rawstream\<close>: \<open>AEADStream\<close> (\<open>frame.go\<close>), and
  \<open>FramedWriter\<close> with its batching and \<open>FramedReader\<close> (\<open>stream.go\<close>). Together they are a
  \<open>byte_channel\<close> whose end is authenticated. Times are nanoseconds; scratch buffers are represented
  by their contents.
\<close>

definition MaxChunkPayloadLen :: nat where "MaxChunkPayloadLen = 32768"
definition MaxChunkWireLen :: nat where "MaxChunkWireLen = 32784"
definition raw_ErrDecryptionFailed :: goerr where "raw_ErrDecryptionFailed = Errorf ''rawstream: AEAD chunk decryption failed''"
definition ErrChunkTooLarge :: goerr where "ErrChunkTooLarge = Errorf ''rawstream: AEAD chunk length exceeds maximum allowed size''"
definition ErrSequenceExhausted :: goerr where "ErrSequenceExhausted = Errorf ''rawstream: AEAD sequence number exhausted''"

subsection \<open>AEADStream\<close>

record aead_stream =
  as_key :: bytes
  as_sequence :: u64

definition NewAEADStream :: "bytes \<Rightarrow> aead_stream" where
  "NewAEADStream key = \<lparr>as_key = key, as_sequence = 0\<rparr>"

definition nonceBuf :: "u64 \<Rightarrow> bytes" where
  "nonceBuf sequence = replicate 4 0 @ putUint64 sequence"

definition EncryptChunk :: "crypto \<Rightarrow> aead_stream \<Rightarrow> bytes \<Rightarrow> bytes \<Rightarrow> bytes result \<times> aead_stream" where
  "EncryptChunk cr s dst plaintext =
     (if MaxChunkPayloadLen < length plaintext then (Inl ErrChunkTooLarge, s)
      else if as_sequence s = - 1 then (Inl ErrSequenceExhausted, s)
      else let lenBuf = putUint16 (word_of_nat (length plaintext + Overhead))
           in (Inr (dst @ lenBuf @ gcm_seal cr (as_key s) (nonceBuf (as_sequence s)) plaintext lenBuf),
               s\<lparr>as_sequence := as_sequence s + 1\<rparr>))"

definition DecryptChunk :: "crypto \<Rightarrow> aead_stream \<Rightarrow> bytes \<Rightarrow> u16 \<Rightarrow> bytes result \<times> aead_stream" where
  "DecryptChunk cr s ciphertext wireLen =
     (if as_sequence s = - 1 then (Inl ErrSequenceExhausted, s)
      else (case gcm_open cr (as_key s) (nonceBuf (as_sequence s)) ciphertext (putUint16 wireLen) of
              None \<Rightarrow> Inl (Errorf ''cipher: message authentication failed'')
            | Some p \<Rightarrow> Inr p,
            s\<lparr>as_sequence := as_sequence s + 1\<rparr>))"

subsection \<open>FramedWriter\<close>

definition MinRecordPayloadLen :: nat where "MinRecordPayloadLen = 1380"
definition MidRecordPayloadLen :: nat where "MidRecordPayloadLen = 8192"
definition MaxBatchFlushLen :: nat where "MaxBatchFlushLen = 131072"
definition Phase1Threshold :: nat where "Phase1Threshold = 131072"
definition Phase2Threshold :: nat where "Phase2Threshold = 1048576"
definition IdleResetThreshold :: int where "IdleResetThreshold = 1000000000"

record framed_writer =
  fw_w :: sink
  fw_stream :: aead_stream
  fw_buf :: bytes
  fw_burstBytes :: nat
  fw_lastWrite :: "int option"
  fw_closed :: bool

definition NewFramedWriter :: "sink \<Rightarrow> aead_stream \<Rightarrow> framed_writer" where
  "NewFramedWriter w stream = \<lparr>fw_w = w, fw_stream = stream, fw_buf = [], fw_burstBytes = 0,
     fw_lastWrite = None, fw_closed = False\<rparr>"

definition fw_flush :: "framed_writer \<Rightarrow> goerr option \<times> framed_writer" where
  "fw_flush fw =
     (case sink_write (fw_buf fw) (fw_w fw) of
        (n, err, w) \<Rightarrow>
          let err = (if err = None \<and> n \<noteq> length (fw_buf fw) then Some ErrShortWrite else err)
          in (err, fw\<lparr>fw_w := w, fw_closed := fw_closed fw \<or> err \<noteq> None\<rparr>))"

text \<open>The largest record and the flush threshold of the current phase.\<close>

definition fw_limits :: "nat \<Rightarrow> nat \<times> nat" where
  "fw_limits burstBytes =
     (if burstBytes < Phase1Threshold then (MinRecordPayloadLen, 0)
      else if burstBytes < Phase2Threshold then (MidRecordPayloadLen, MidRecordPayloadLen)
      else (MaxChunkPayloadLen, MaxBatchFlushLen))"

text \<open>
  The coalescing loop; the offset never passes the end of a buffer, where slicing would panic.
\<close>

function coalesce :: "bytes list \<Rightarrow> nat \<Rightarrow> nat \<Rightarrow> nat \<Rightarrow> bytes \<Rightarrow> bytes \<times> nat \<times> nat" where
  "coalesce buffers maxChunk index offset plain =
     (if length plain < maxChunk \<and> index < length buffers \<and> offset \<le> length (buffers ! index) then
        (let part = drop offset (buffers ! index);
             n = min (length part) (maxChunk - length plain)
         in if offset + n = length (buffers ! index)
            then coalesce buffers maxChunk (Suc index) 0 (plain @ take n part)
            else coalesce buffers maxChunk index (offset + n) (plain @ take n part))
      else (plain, index, offset))"
  by pat_completeness auto
termination
  by (relation "measure (\<lambda>(bs, m, i, off, p). (length bs - i) + (m - length p))") (auto simp: min_def split: if_splits)

declare coalesce.simps [simp del]

definition next_chunk :: "bytes list \<Rightarrow> nat \<Rightarrow> nat \<Rightarrow> nat \<Rightarrow> bytes \<times> nat \<times> nat" where
  "next_chunk buffers maxChunk index offset =
     (let p = drop offset (buffers ! index)
      in if length p < maxChunk \<and> index + 1 < length buffers then coalesce buffers maxChunk index offset []
         else let n = min (length p) maxChunk in (take n p, index, offset + n))"

text \<open>The plaintext that is still to be sent.\<close>

definition pending :: "bytes list \<Rightarrow> nat \<Rightarrow> nat \<Rightarrow> bytes" where
  "pending buffers index offset =
     (if index < length buffers then drop offset (buffers ! index) @ concat (drop (Suc index) buffers) else [])"

lemma pending_unfold:
  assumes "index < length buffers"
  shows "pending buffers index offset = drop offset (buffers ! index) @ pending buffers (Suc index) 0"
  using assms by (simp add: pending_def Cons_nth_drop_Suc [symmetric])

lemma pending_skip:
  "index < length buffers \<Longrightarrow> n \<le> length (drop offset (buffers ! index)) \<Longrightarrow>
   pending buffers index (offset + n) = drop n (pending buffers index offset)"
  by (simp add: pending_def add.commute)

lemma pending_start: "pending buffers 0 0 = concat buffers"
  by (cases buffers) (auto simp: pending_def)

lemma coalesce_takes:
  "offset \<le> (if index < length buffers then length (buffers ! index) else 0) \<Longrightarrow> length plain \<le> maxChunk \<Longrightarrow>
   coalesce buffers maxChunk index offset plain = (chunk, index', offset') \<Longrightarrow>
   chunk = plain @ take (maxChunk - length plain) (pending buffers index offset) \<and>
   pending buffers index' offset' = drop (maxChunk - length plain) (pending buffers index offset) \<and>
   index \<le> index' \<and> offset' \<le> (if index' < length buffers then length (buffers ! index') else 0)"
proof (induction buffers maxChunk index offset plain rule: coalesce.induct)
  case (1 buffers maxChunk index offset plain)
  show ?case
  proof (cases "length plain < maxChunk \<and> index < length buffers \<and> offset \<le> length (buffers ! index)")
    case False
    then have "chunk = plain" "index' = index" "offset' = offset" using "1.prems"(3) by (auto simp: coalesce.simps [of buffers])
    moreover have "maxChunk - length plain = 0 \<or> pending buffers index offset = []"
      using False "1.prems"(1,2) by (auto simp: pending_def split: if_splits)
    ultimately show ?thesis using "1.prems"(1) by auto
  next
    case True
    define part where "part = drop offset (buffers ! index)"
    define n where "n = min (length part) (maxChunk - length plain)"
    have un: "pending buffers index offset = part @ pending buffers (Suc index) 0"
      using True pending_unfold by (simp add: part_def)
    have step: "coalesce buffers maxChunk index offset plain =
      (if offset + n = length (buffers ! index) then coalesce buffers maxChunk (Suc index) 0 (plain @ take n part)
       else coalesce buffers maxChunk index (offset + n) (plain @ take n part))"
      using True by (simp add: coalesce.simps [of buffers maxChunk index offset plain] Let_def part_def n_def)
    have lp: "length part = length (buffers ! index) - offset" by (simp add: part_def)
    show ?thesis
    proof (cases "offset + n = length (buffers ! index)")
      case adv: True
      then have n: "n = length part" "length part \<le> maxChunk - length plain" using True lp by (auto simp: n_def)
      have "coalesce buffers maxChunk (Suc index) 0 (plain @ take n part) = (chunk, index', offset')"
        using "1.prems"(3) step adv by simp
      moreover have "length plain + length part \<le> maxChunk" using n(2) True by linarith
      ultimately show ?thesis using "1.IH"(1) [OF True part_def n_def adv] n by (auto simp: un)
    next
      case False
      then have n: "n = maxChunk - length plain" "n < length part" using True lp by (auto simp: n_def)
      have "coalesce buffers maxChunk index (offset + n) (plain @ take n part) = (chunk, index', offset')"
        using "1.prems"(3) step False by simp
      moreover have p: "pending buffers index (offset + n) = drop n (pending buffers index offset)"
        using pending_skip [of index buffers n offset] True n by (simp add: part_def)
      ultimately show ?thesis using "1.IH"(2) [OF True part_def n_def False] n lp True
        by (auto simp: un)
    qed
  qed
qed

text \<open>The next record is the longest possible prefix of what is pending, however the caller sliced it.\<close>

lemma next_chunk_takes:
  assumes i: "index < length buffers" "drop offset (buffers ! index) \<noteq> []" and m: "0 < maxChunk"
    and nc: "next_chunk buffers maxChunk index offset = (chunk, index', offset')"
  shows "chunk = take maxChunk (pending buffers index offset)"
    "pending buffers index' offset' = drop maxChunk (pending buffers index offset)"
    "index \<le> index'" "offset' \<le> (if index' < length buffers then length (buffers ! index') else 0)" "chunk \<noteq> []"
proof -
  have off: "offset \<le> length (buffers ! index)" using i(2) by simp
  let ?p = "drop offset (buffers ! index)"
  have "chunk = take maxChunk (pending buffers index offset) \<and>
    pending buffers index' offset' = drop maxChunk (pending buffers index offset) \<and> index \<le> index' \<and>
    offset' \<le> (if index' < length buffers then length (buffers ! index') else 0)"
  proof (cases "length ?p < maxChunk \<and> index + 1 < length buffers")
    case True
    then have "coalesce buffers maxChunk index offset [] = (chunk, index', offset')"
      using nc by (simp add: next_chunk_def Let_def)
    from coalesce_takes [OF _ _ this] i(1) off show ?thesis by simp
  next
    case False
    then have c: "chunk = take (min (length ?p) maxChunk) ?p" "index' = index" "offset' = offset + min (length ?p) maxChunk"
      using nc by (auto simp: next_chunk_def Let_def)
    have tail: "length ?p < maxChunk \<Longrightarrow> pending buffers (Suc index) 0 = []" using False i(1) by (simp add: pending_def)
    have "pending buffers index offset' = drop (min (length ?p) maxChunk) (pending buffers index offset)"
      unfolding c(3) by (rule pending_skip) (use i(1) in auto)
    then show ?thesis using c i(1) off tail pending_unfold [OF i(1)]
      by (cases "length ?p < maxChunk") (auto simp: min_def)
  qed
  moreover have "pending buffers index offset \<noteq> []" using pending_unfold [OF i(1)] i(2) by simp
  ultimately show "chunk = take maxChunk (pending buffers index offset)"
    "pending buffers index' offset' = drop maxChunk (pending buffers index offset)"
    "index \<le> index'" "offset' \<le> (if index' < length buffers then length (buffers ! index') else 0)" "chunk \<noteq> []"
    using m by auto
qed

lemma fw_limits_pos: "fw_limits b = (maxChunk, thr) \<Longrightarrow> 0 < maxChunk \<and> maxChunk \<le> MaxChunkPayloadLen"
  by (auto simp: fw_limits_def MinRecordPayloadLen_def MidRecordPayloadLen_def MaxChunkPayloadLen_def split: if_splits)

function wb_loop :: "crypto \<Rightarrow> bytes list \<Rightarrow> nat \<Rightarrow> nat \<Rightarrow> framed_writer \<Rightarrow> nat \<Rightarrow> nat \<Rightarrow> nat \<times> goerr option \<times> framed_writer" where
  "wb_loop cr buffers index offset fw totalPlaintext unflushed =
     (if index < length buffers then
        (if drop offset (buffers ! index) = [] then wb_loop cr buffers (Suc index) 0 fw totalPlaintext unflushed
         else case fw_limits (fw_burstBytes fw) of
                (maxChunk, flushThreshold) \<Rightarrow>
                  (case next_chunk buffers maxChunk index offset of
                     (chunk, index', offset') \<Rightarrow>
                       (case EncryptChunk cr (fw_stream fw) (fw_buf fw) chunk of
                          (Inl e, s) \<Rightarrow> (totalPlaintext, Some e, fw\<lparr>fw_stream := s, fw_buf := []\<rparr>)
                        | (Inr buf, s) \<Rightarrow>
                            let fw = fw\<lparr>fw_stream := s, fw_buf := buf, fw_burstBytes := fw_burstBytes fw + length chunk\<rparr>;
                                unflushed = unflushed + length chunk
                            in if flushThreshold = 0 \<or> flushThreshold \<le> length buf then
                                 (case fw_flush fw of
                                    (Some e, fw) \<Rightarrow> (totalPlaintext, Some e, fw)
                                  | (None, fw) \<Rightarrow>
                                      wb_loop cr buffers index' offset' (fw\<lparr>fw_buf := []\<rparr>) (totalPlaintext + unflushed) 0)
                               else wb_loop cr buffers index' offset' fw totalPlaintext unflushed)))
      else if fw_buf fw \<noteq> [] then
        (case fw_flush fw of
           (Some e, fw) \<Rightarrow> (totalPlaintext, Some e, fw)
         | (None, fw) \<Rightarrow> (totalPlaintext + unflushed, None, fw\<lparr>fw_buf := []\<rparr>))
      else (totalPlaintext, None, fw))"
  by pat_completeness auto

lemma next_chunk_smaller:
  assumes "index < length buffers" "drop offset (buffers ! index) \<noteq> []" "fw_limits b = (maxChunk, thr)"
    "next_chunk buffers maxChunk index offset = (chunk, index', offset')"
  shows "length (pending buffers index' offset') + (length buffers - index') <
    length (pending buffers index offset) + (length buffers - index)"
proof -
  note n = next_chunk_takes [OF assms(1,2) conjunct1 [OF fw_limits_pos [OF assms(3)]] assms(4)]
  have "0 < length (take maxChunk (pending buffers index offset))" using n(1,5) by simp
  then have "length (pending buffers index' offset') < length (pending buffers index offset)" using n(2) by simp
  then show ?thesis using n(3) by linarith
qed

termination wb_loop
proof (relation "measure (\<lambda>(cr, bs, i, off, fw, t, u). length (pending bs i off) + (length bs - i))", goal_cases)
  case 1
  show ?case by simp
next
  case (2 cr buffers index offset fw tot unfl)
  then have "length (pending buffers (Suc index) 0) \<le> length (pending buffers index offset)"
    by (simp add: pending_unfold [of index])
  then show ?case using 2 by simp
next
  case 3
  show ?case using next_chunk_smaller [OF 3(1,2) 3(3) [symmetric]] 3(4,5) by (auto dest: sym)
next
  case 4
  show ?case using next_chunk_smaller [OF 4(1,2) 4(3) [symmetric]] 4(4,5) by (auto dest: sym)
qed

declare wb_loop.simps [simp del]

definition WriteBatch :: "crypto \<Rightarrow> int \<Rightarrow> bytes list \<Rightarrow> framed_writer \<Rightarrow> nat \<times> goerr option \<times> framed_writer" where
  "WriteBatch cr now buffers fw =
     (if fw_closed fw then (0, Some ErrClosedPipe, fw)
      else let burst = (case fw_lastWrite fw of
                          None \<Rightarrow> fw_burstBytes fw
                        | Some t \<Rightarrow> if IdleResetThreshold < now - t then 0 else fw_burstBytes fw)
           in wb_loop cr buffers 0 0 (fw\<lparr>fw_burstBytes := burst, fw_lastWrite := Some now, fw_buf := []\<rparr>) 0 0)"

definition FramedWriter_Write :: "crypto \<Rightarrow> int \<Rightarrow> bytes \<Rightarrow> framed_writer \<Rightarrow> nat \<times> goerr option \<times> framed_writer" where
  "FramedWriter_Write cr now p fw = WriteBatch cr now [p] fw"

definition WriteEOF :: "crypto \<Rightarrow> framed_writer \<Rightarrow> goerr option \<times> framed_writer" where
  "WriteEOF cr fw =
     (if fw_closed fw then (None, fw)
      else case EncryptChunk cr (fw_stream fw) [] [] of
             (Inl e, s) \<Rightarrow> (Some e, fw\<lparr>fw_closed := True, fw_stream := s, fw_buf := []\<rparr>)
           | (Inr buf, s) \<Rightarrow> fw_flush (fw\<lparr>fw_closed := True, fw_stream := s, fw_buf := buf\<rparr>))"

subsection \<open>FramedReader\<close>

text \<open>
  \<open>fr_hdr\<close> and \<open>fr_raw\<close> are the filled parts of the header and record buffers, which survive a
  timeout; \<open>fr_dec\<close> is the decrypted data not yet handed out (\<open>decBuf[decOff:]\<close>).
\<close>

record raw_reader =
  fr_r :: source
  fr_stream :: aead_stream
  fr_hdr :: bytes
  fr_raw :: bytes
  fr_dec :: bytes
  fr_eof :: bool
  fr_fatal :: "goerr option"

definition NewFramedReader :: "source \<Rightarrow> aead_stream \<Rightarrow> raw_reader" where
  "NewFramedReader r stream = \<lparr>fr_r = bufioReader r, fr_stream = stream, fr_hdr = [], fr_raw = [], fr_dec = [],
     fr_eof = False, fr_fatal = None\<rparr>"

definition fr_readError :: "goerr \<Rightarrow> raw_reader \<Rightarrow> bytes \<times> goerr option \<times> raw_reader" where
  "fr_readError err fr =
     (if isTimeout err then ([], Some err, fr)
      else let err = (if err = EOF then UnexpectedEOF else err)
           in ([], Some err, fr\<lparr>fr_fatal := Some err\<rparr>))"

definition fr_body :: "crypto \<Rightarrow> nat \<Rightarrow> raw_reader \<Rightarrow> bytes \<times> goerr option \<times> raw_reader" where
  "fr_body cr n fr =
     (let wireLen = unat (getUint16 (fr_hdr fr))
      in if wireLen < 16 then ([], Some raw_ErrDecryptionFailed, fr\<lparr>fr_fatal := Some raw_ErrDecryptionFailed\<rparr>)
         else if MaxChunkWireLen < wireLen then ([], Some ErrChunkTooLarge, fr\<lparr>fr_fatal := Some ErrChunkTooLarge\<rparr>)
         else case readFull (wireLen - length (fr_raw fr)) (fr_r fr) of
                (bs, e, r) \<Rightarrow>
                  let fr = fr\<lparr>fr_r := r, fr_raw := fr_raw fr @ bs\<rparr>
                  in case e of
                       Some err \<Rightarrow> fr_readError err fr
                     | None \<Rightarrow>
                         (case DecryptChunk cr (fr_stream fr) (fr_raw fr) (getUint16 (fr_hdr fr)) of
                            (Inl _, s) \<Rightarrow> ([], Some raw_ErrDecryptionFailed,
                               fr\<lparr>fr_stream := s, fr_fatal := Some raw_ErrDecryptionFailed\<rparr>)
                          | (Inr p, s) \<Rightarrow>
                              let fr = fr\<lparr>fr_stream := s, fr_hdr := [], fr_raw := []\<rparr>
                              in if p = [] then ([], Some EOF, fr\<lparr>fr_eof := True\<rparr>)
                                 else (take n p, None, fr\<lparr>fr_dec := drop n p\<rparr>)))"

definition FramedReader_Read :: "crypto \<Rightarrow> nat \<Rightarrow> raw_reader \<Rightarrow> bytes \<times> goerr option \<times> raw_reader" where
  "FramedReader_Read cr n fr =
     (if n = 0 then ([], None, fr)
      else if fr_dec fr \<noteq> [] then (take n (fr_dec fr), None, fr\<lparr>fr_dec := drop n (fr_dec fr)\<rparr>)
      else case fr_fatal fr of
             Some e \<Rightarrow> ([], Some e, fr)
           | None \<Rightarrow>
               if fr_eof fr then ([], Some EOF, fr)
               else if length (fr_hdr fr) < 2 then
                 (case readFull (2 - length (fr_hdr fr)) (fr_r fr) of
                    (bs, e, r) \<Rightarrow>
                      let fr = fr\<lparr>fr_r := r, fr_hdr := fr_hdr fr @ bs\<rparr>
                      in case e of Some err \<Rightarrow> fr_readError err fr | None \<Rightarrow> fr_body cr n fr)
               else fr_body cr n fr)"

subsection \<open>Records on the wire\<close>

definition raw_record :: "crypto \<Rightarrow> bytes \<Rightarrow> u64 \<Rightarrow> bytes \<Rightarrow> bytes" where
  "raw_record cr k s c =
     (let lb = putUint16 (word_of_nat (length c + 16)) in lb @ gcm_seal cr k (nonceBuf s) c lb)"

fun records :: "crypto \<Rightarrow> bytes \<Rightarrow> u64 \<Rightarrow> bytes list \<Rightarrow> bytes" where
  "records cr k s [] = []"
| "records cr k s (c # cs) = raw_record cr k s c @ records cr k (s + 1) cs"

definition raw_chunks_ok :: "bytes list \<Rightarrow> bool" where
  "raw_chunks_ok cs \<longleftrightarrow> (\<forall>c \<in> set cs. c \<noteq> [] \<and> length c \<le> MaxChunkPayloadLen)"

lemma raw_chunks_ok_simps [simp]:
  "raw_chunks_ok []" "raw_chunks_ok (c # cs) \<longleftrightarrow> (c \<noteq> [] \<and> length c \<le> MaxChunkPayloadLen) \<and> raw_chunks_ok cs"
  "raw_chunks_ok (as @ bs) \<longleftrightarrow> raw_chunks_ok as \<and> raw_chunks_ok bs"
  by (auto simp: raw_chunks_ok_def)

lemma raw_chunks_length: "raw_chunks_ok cs \<Longrightarrow> length cs \<le> length (concat cs)"
proof (induction cs)
  case Nil
  then show ?case by simp
next
  case (Cons c cs)
  then show ?case by (cases c) auto
qed

lemma records_append: "records cr k s (as @ bs) = records cr k s as @ records cr k (s + word_of_nat (length as)) bs"
  by (induction as arbitrary: s) (simp_all add: add.assoc)

lemma EncryptChunk_ok:
  "length c \<le> MaxChunkPayloadLen \<Longrightarrow> as_sequence s \<noteq> - 1 \<Longrightarrow>
   EncryptChunk cr s buf c = (Inr (buf @ raw_record cr (as_key s) (as_sequence s) c), s\<lparr>as_sequence := as_sequence s + 1\<rparr>)"
  by (simp add: EncryptChunk_def raw_record_def Let_def)

lemma seq_room: "unat (s :: u64) < 2 ^ 64 - 1 \<Longrightarrow> s \<noteq> - 1 \<and> unat (s + 1) = unat s + 1"
proof -
  assume "unat s < 2 ^ 64 - 1"
  then have u: "unat (s + 1) = unat s + 1" by (simp add: unat_word_ariths)
  then have "s + 1 \<noteq> 0" by (metis Suc_eq_plus1 nat.distinct(1) unat_0)
  then show ?thesis using u by auto
qed

lemma fw_flush_ok:
  "sink_ok (fw_w fw) \<Longrightarrow> fw_flush fw = (None, fw\<lparr>fw_w := (fw_w fw)\<lparr>snk_out := snk_out (fw_w fw) @ fw_buf fw\<rparr>\<rparr>)"
  by (simp add: fw_flush_def)

text \<open>What a run of the batch loop leaves: everything is flushed as records \<open>cs\<close> after the old buffer.\<close>

definition fw_sent :: "crypto \<Rightarrow> framed_writer \<Rightarrow> framed_writer \<Rightarrow> bytes list \<Rightarrow> bool" where
  "fw_sent cr fw fw' cs \<longleftrightarrow> sink_ok (fw_w fw') \<and> fw_closed fw' = fw_closed fw \<and> fw_buf fw' = [] \<and>
     as_key (fw_stream fw') = as_key (fw_stream fw) \<and>
     as_sequence (fw_stream fw') = as_sequence (fw_stream fw) + word_of_nat (length cs) \<and>
     snk_out (fw_w fw') = snk_out (fw_w fw) @ fw_buf fw @
       records cr (as_key (fw_stream fw)) (as_sequence (fw_stream fw)) cs"

lemma wb_loop_ok:
  "sink_ok (fw_w fw) \<Longrightarrow> offset \<le> (if index < length buffers then length (buffers ! index) else 0) \<Longrightarrow>
   unat (as_sequence (fw_stream fw)) + length (pending buffers index offset) < 2 ^ 64 - 1 \<Longrightarrow> (fw_buf fw = [] \<Longrightarrow> unfl = 0) \<Longrightarrow>
   \<exists>cs fw'. wb_loop cr buffers index offset fw tot unfl = (tot + unfl + length (pending buffers index offset), None, fw') \<and>
     concat cs = pending buffers index offset \<and> raw_chunks_ok cs \<and> fw_sent cr fw fw' cs"
proof (induction "length (pending buffers index offset) + (length buffers - index)" arbitrary: index offset fw tot unfl rule: less_induct)
  case less
  note eq = wb_loop.simps [of cr buffers index offset fw tot unfl]
  show ?case
  proof (cases "index < length buffers")
    case False
    then have p: "pending buffers index offset = []" by (simp add: pending_def)
    let ?fw = "fw\<lparr>fw_w := (fw_w fw)\<lparr>snk_out := snk_out (fw_w fw) @ fw_buf fw\<rparr>, fw_buf := []\<rparr>"
    have "wb_loop cr buffers index offset fw tot unfl = (tot + unfl, None, ?fw)"
      unfolding eq using False less.prems(1,4) by (cases "fw_buf fw = []") (simp_all add: fw_flush_ok)
    moreover have "fw_sent cr fw ?fw []" using less.prems(1) by (simp add: fw_sent_def)
    ultimately show ?thesis using p by (intro exI [of _ "[]"] exI [of _ ?fw]) simp
  next
    case i: True
    show ?thesis
    proof (cases "drop offset (buffers ! index) = []")
      case True
      have p: "pending buffers index offset = pending buffers (Suc index) 0" using True pending_unfold [OF i] by simp
      have "wb_loop cr buffers index offset fw tot unfl = wb_loop cr buffers (Suc index) 0 fw tot unfl"
        using i True by (simp add: eq)
      moreover have "\<exists>cs fw'. wb_loop cr buffers (Suc index) 0 fw tot unfl = (tot + unfl + length (pending buffers (Suc index) 0), None, fw') \<and>
          concat cs = pending buffers (Suc index) 0 \<and> raw_chunks_ok cs \<and> fw_sent cr fw fw' cs"
        by (rule less.hyps) (use less.prems i p in auto)
      ultimately show ?thesis using p by simp
    next
      case False
      obtain maxChunk thr where lim: "fw_limits (fw_burstBytes fw) = (maxChunk, thr)" by (cases "fw_limits (fw_burstBytes fw)")
      obtain chunk i' off' where nc: "next_chunk buffers maxChunk index offset = (chunk, i', off')"
        by (cases "next_chunk buffers maxChunk index offset") auto
      note mx = fw_limits_pos [OF lim] and n = next_chunk_takes [OF i False conjunct1 [OF fw_limits_pos [OF lim]] nc]
      note sm = next_chunk_smaller [OF i False lim nc]
      let ?s = "fw_stream fw"
      have c: "length chunk \<le> MaxChunkPayloadLen" "0 < length chunk" using n(1,5) mx by auto
      have split: "pending buffers index offset = chunk @ pending buffers i' off'" using n(1,2) by simp
      have room: "as_sequence ?s \<noteq> - 1" "unat (as_sequence ?s + 1) = unat (as_sequence ?s) + 1"
        using seq_room [of "as_sequence ?s"] less.prems(3) by auto
      have left: "unat (as_sequence ?s + 1) + length (pending buffers i' off') < 2 ^ 64 - 1"
        using room(2) less.prems(3) c(2) unfolding split length_append by linarith
      let ?rec = "raw_record cr (as_key ?s) (as_sequence ?s) chunk"
      define fw1 where "fw1 = fw\<lparr>fw_stream := ?s\<lparr>as_sequence := as_sequence ?s + 1\<rparr>, fw_buf := fw_buf fw @ ?rec,
          fw_burstBytes := fw_burstBytes fw + length chunk\<rparr>"
      define flushed where "flushed = fw1\<lparr>fw_w := (fw_w fw)\<lparr>snk_out := snk_out (fw_w fw) @ fw_buf fw1\<rparr>, fw_buf := []\<rparr>"
      have fin: "\<exists>cs fw'. wb_loop cr buffers i' off' g t u = (t + u + length (pending buffers i' off'), None, fw') \<and>
          concat cs = pending buffers i' off' \<and> raw_chunks_ok cs \<and> fw_sent cr g fw' cs"
        if "sink_ok (fw_w g)" "as_sequence (fw_stream g) = as_sequence ?s + 1" "fw_buf g = [] \<Longrightarrow> u = 0" for g t u
        by (rule less.hyps [OF sm]) (use that n(4) left in auto)
      have rne: "fw_buf fw1 \<noteq> []" by (simp add: fw1_def raw_record_def Let_def)
      have step: "wb_loop cr buffers index offset fw tot unfl =
        (if thr = 0 \<or> thr \<le> length (fw_buf fw1) then wb_loop cr buffers i' off' flushed (tot + (unfl + length chunk)) 0
         else wb_loop cr buffers i' off' fw1 tot (unfl + length chunk))"
        using i False lim nc EncryptChunk_ok [OF c(1) room(1), of cr "fw_buf fw"] less.prems(1)
        by (simp add: eq Let_def fw1_def flushed_def fw_flush_ok)
      show ?thesis
      proof (cases "thr = 0 \<or> thr \<le> length (fw_buf fw1)")
        case True
        obtain cs fw' where "wb_loop cr buffers i' off' flushed (tot + (unfl + length chunk)) 0 =
            (tot + (unfl + length chunk) + 0 + length (pending buffers i' off'), None, fw')"
          "concat cs = pending buffers i' off'" "raw_chunks_ok cs" "fw_sent cr flushed fw' cs"
          using fin [of flushed 0 "tot + (unfl + length chunk)"] less.prems(1) by (auto simp: flushed_def fw1_def)
        then show ?thesis using step True split c
          by (intro exI [of _ "chunk # cs"] exI [of _ fw']) (auto simp: fw_sent_def flushed_def fw1_def)
      next
        case no: False
        obtain cs fw' where "wb_loop cr buffers i' off' fw1 tot (unfl + length chunk) =
            (tot + (unfl + length chunk) + length (pending buffers i' off'), None, fw')"
          "concat cs = pending buffers i' off'" "raw_chunks_ok cs" "fw_sent cr fw1 fw' cs"
          using fin [of fw1 "unfl + length chunk" tot] less.prems(1) rne by (auto simp: fw1_def)
        then show ?thesis using step no split c
          by (intro exI [of _ "chunk # cs"] exI [of _ fw']) (auto simp: fw_sent_def fw1_def)
      qed
    qed
  qed
qed

subsection \<open>FramedWriter and FramedReader as a byte channel\<close>

text \<open>The writer with the clock readings of its coming calls.\<close>

type_synonym timed_writer = "framed_writer \<times> int list"

definition fw_write :: "crypto \<Rightarrow> bytes \<Rightarrow> timed_writer \<Rightarrow> nat \<times> goerr option \<times> timed_writer" where
  "fw_write cr p w = (case FramedWriter_Write cr (case snd w of [] \<Rightarrow> 0 | t # _ \<Rightarrow> t) p (fst w) of
     (n, e, fw) \<Rightarrow> (n, e, fw, tl (snd w)))"

definition fw_close :: "crypto \<Rightarrow> timed_writer \<Rightarrow> goerr option \<times> timed_writer" where
  "fw_close cr w = (case WriteEOF cr (fst w) of (e, fw) \<Rightarrow> (e, fw, snd w))"

definition fw_wrote :: "crypto \<Rightarrow> bytes \<Rightarrow> timed_writer \<Rightarrow> bytes \<Rightarrow> bool" where
  "fw_wrote cr key w pl \<longleftrightarrow> crypto_ok cr \<and> \<not> fw_closed (fst w) \<and> sink_ok (fw_w (fst w)) \<and>
     as_key (fw_stream (fst w)) = key \<and>
     (\<exists>cs. snk_out (fw_w (fst w)) = records cr key 0 cs \<and> concat cs = pl \<and> raw_chunks_ok cs \<and>
        as_sequence (fw_stream (fst w)) = word_of_nat (length cs))"

definition raw_allowed :: "bytes \<Rightarrow> bool" where
  "raw_allowed pl \<longleftrightarrow> length pl < 2 ^ 64 - 1"

definition fr_carries :: "crypto \<Rightarrow> raw_reader \<Rightarrow> bytes \<Rightarrow> bool" where
  "fr_carries cr fr pl \<longleftrightarrow> crypto_ok cr \<and> fr_fatal fr = None \<and> \<not> fr_eof fr \<and> src_calm (fr_r fr) \<and>
     (\<exists>cs. pl = fr_dec fr @ concat cs \<and> raw_chunks_ok cs \<and>
        unat (as_sequence (fr_stream fr)) + length cs < 2 ^ 64 - 1 \<and>
        fr_hdr fr @ fr_raw fr @ src_bytes (fr_r fr) =
          records cr (as_key (fr_stream fr)) (as_sequence (fr_stream fr)) (cs @ [[]])) \<and>
     length (fr_hdr fr) \<le> 2 \<and> (length (fr_hdr fr) < 2 \<longrightarrow> fr_raw fr = []) \<and>
     (length (fr_hdr fr) = 2 \<longrightarrow> length (fr_raw fr) < unat (getUint16 (fr_hdr fr)))"

definition fr_size :: "raw_reader \<Rightarrow> nat" where
  "fr_size fr = src_size (fr_r fr) + length (fr_hdr fr) + length (fr_raw fr) + length (fr_dec fr)"

text \<open>The first record, as the reader takes it apart.\<close>

lemma first_record:
  assumes "crypto_ok cr" "raw_chunks_ok cs"
  obtains c rest where "records cr k s (cs @ [[]]) = raw_record cr k s c @ rest"
    "length c \<le> MaxChunkPayloadLen" "c = [] \<longrightarrow> cs = [] \<and> rest = []"
    "c \<noteq> [] \<longrightarrow> (\<exists>ds. cs = c # ds \<and> rest = records cr k (s + 1) (ds @ [[]]))"
proof (cases cs)
  case Nil
  then show thesis using that [of "[]" "[]"] by simp
next
  case (Cons c ds)
  then show thesis using that [of c "records cr k (s + 1) (ds @ [[]])"] assms(2) by simp
qed

lemma raw_record_parts:
  assumes "crypto_ok cr" "length c \<le> MaxChunkPayloadLen"
  shows "raw_record cr k s c = putUint16 (word_of_nat (length c + 16)) @
      gcm_seal cr k (nonceBuf s) c (putUint16 (word_of_nat (length c + 16)))"
    "unat (word_of_nat (length c + 16) :: u16) = length c + 16"
    "length (gcm_seal cr k (nonceBuf s) c lb) = length c + 16"
proof -
  show "unat (word_of_nat (length c + 16) :: u16) = length c + 16"
    using assms(2) by (subst unat_of_nat) (simp add: MaxChunkPayloadLen_def)
qed (simp_all add: raw_record_def Let_def crypto_ok_simps [OF assms(1)])

lemma fr_body_carries:
  assumes c: "fr_carries cr fr pl" and d: "fr_dec fr = []" and h: "length (fr_hdr fr) = 2" and n: "0 < n"
    and rd: "fr_body cr n fr = (bs, e, fr')"
  shows "(soft e \<and> (\<exists>pl'. pl = bs @ pl' \<and> fr_carries cr fr' pl') \<and> fr_size fr' < fr_size fr) \<or>
    (e = Some EOF \<and> bs = [] \<and> pl = [])"
proof -
  let ?k = "as_key (fr_stream fr)" and ?s = "as_sequence (fr_stream fr)"
  obtain cs where cs: "pl = concat cs" "raw_chunks_ok cs" "unat ?s + length cs < 2 ^ 64 - 1"
    "fr_hdr fr @ fr_raw fr @ src_bytes (fr_r fr) = records cr ?k ?s (cs @ [[]])"
    using c d by (auto simp: fr_carries_def)
  have st: "crypto_ok cr" "fr_fatal fr = None" "\<not> fr_eof fr" "src_calm (fr_r fr)"
    "length (fr_raw fr) < unat (getUint16 (fr_hdr fr))" using c h by (auto simp: fr_carries_def)
  obtain a rest where a: "records cr ?k ?s (cs @ [[]]) = raw_record cr ?k ?s a @ rest" "length a \<le> MaxChunkPayloadLen"
    "a = [] \<longrightarrow> cs = [] \<and> rest = []" "a \<noteq> [] \<longrightarrow> (\<exists>ds. cs = a # ds \<and> rest = records cr ?k (?s + 1) (ds @ [[]]))"
    by (rule first_record [OF st(1) cs(2), where k = ?k and s = ?s])
  define lb where "lb = putUint16 (word_of_nat (length a + 16))"
  define ct where "ct = gcm_seal cr ?k (nonceBuf ?s) a lb"
  note rp = raw_record_parts [OF st(1) a(2)]
  have lct: "length ct = length a + 16" unfolding ct_def by (rule rp(3))
  have "fr_hdr fr @ fr_raw fr @ src_bytes (fr_r fr) = lb @ ct @ rest"
    using cs(4) a(1) rp(1) by (simp add: lb_def ct_def)
  then have hd: "fr_hdr fr = lb" and body: "fr_raw fr @ src_bytes (fr_r fr) = ct @ rest"
    using h by (auto simp: lb_def append_eq_append_conv)
  have wl: "unat (getUint16 (fr_hdr fr)) = length a + 16" using rp(2) by (simp add: hd lb_def)
  have room: "?s \<noteq> - 1" "unat (?s + 1) = unat ?s + 1" using seq_room [of ?s] cs(3) by auto
  let ?m = "length a + 16 - length (fr_raw fr)"
  obtain rs f r where rf: "readFull ?m (fr_r fr) = (rs, f, r)" by (cases "readFull ?m (fr_r fr)") auto
  have "length (ct @ rest) = length (fr_raw fr) + length (src_bytes (fr_r fr))" using body by (metis length_append)
  then have m: "0 < ?m" "?m \<le> length (src_bytes (fr_r fr))" using st(5) wl lct by auto
  note calm = readFull_calm [OF st(4) m rf] and len = readFull_length [OF rf] and sz = readFull_size [OF rf]
  have max: "\<not> length a + 16 < 16" "\<not> MaxChunkWireLen < length a + 16"
    using a(2) by (auto simp: MaxChunkWireLen_def MaxChunkPayloadLen_def)
  have whole: "(fr_raw fr @ rs) @ src_bytes r = ct @ rest" using body calm(2) by simp
  show ?thesis
  proof (cases f)
    case (Some x)
    have out: "bs = []" "e = Some x" "fr' = fr\<lparr>fr_r := r, fr_raw := fr_raw fr @ rs\<rparr>"
      using rd rf Some calm(3) max wl by (auto simp: fr_body_def Let_def fr_readError_def)
    have "length (fr_raw fr @ rs) < length a + 16" using len Some m by auto
    then have "fr_carries cr fr' pl"
      using out st cs d h calm(1,2) wl by (auto simp: fr_carries_def)
    moreover have "fr_size fr' < fr_size fr"
      using readFull_calm_strict [OF st(4) m(2)] rf Some out d by (auto simp: fr_size_def)
    ultimately show ?thesis using out calm(3) Some by auto
  next
    case None
    then have "length (fr_raw fr @ rs) = length ct" using len m lct st(5) wl by auto
    then have full: "fr_raw fr @ rs = ct" "src_bytes r = rest"
      using whole append_eq_append_conv [of "fr_raw fr @ rs" ct] by blast+
    have dec: "DecryptChunk cr (fr_stream fr) ct (getUint16 (fr_hdr fr)) = (Inr a, (fr_stream fr)\<lparr>as_sequence := ?s + 1\<rparr>)"
      using room(1) hd by (simp add: DecryptChunk_def ct_def lb_def crypto_ok_simps [OF st(1)])
    let ?fr = "fr\<lparr>fr_r := r, fr_stream := (fr_stream fr)\<lparr>as_sequence := ?s + 1\<rparr>, fr_hdr := [], fr_raw := []\<rparr>"
    show ?thesis
    proof (cases "a = []")
      case True
      then have "e = Some EOF" "bs = []" using rd rf None max wl full dec by (auto simp: fr_body_def Let_def)
      then show ?thesis using a(3) True cs(1) by auto
    next
      case False
      then have out: "bs = take n a" "e = None" "fr' = ?fr\<lparr>fr_dec := drop n a\<rparr>"
        using rd rf None max wl full dec by (auto simp: fr_body_def Let_def)
      obtain ds where ds: "cs = a # ds" "rest = records cr ?k (?s + 1) (ds @ [[]])" using a(4) False by blast
      have "fr_carries cr fr' (drop n a @ concat ds)"
        using out st calm(1) cs(2,3) ds full(2) room(2) by (auto simp: fr_carries_def)
      moreover have "fr_size fr' < fr_size fr"
      proof -
        have "fr_size fr' \<le> src_size r + length a" using out by (simp add: fr_size_def)
        moreover have "length rs = ?m" using len None by simp
        ultimately show ?thesis using sz m(1) by (simp add: fr_size_def)
      qed
      moreover have "pl = bs @ drop n a @ concat ds" using out(1) cs(1) ds(1) by simp
      ultimately show ?thesis using out(2) by auto
    qed
  qed
qed

lemma FramedReader_Read_carries:
  assumes c: "fr_carries cr fr pl" and n: "0 < n" and rd: "FramedReader_Read cr n fr = (bs, e, fr')"
  shows "(soft e \<and> (\<exists>pl'. pl = bs @ pl' \<and> fr_carries cr fr' pl') \<and> fr_size fr' < fr_size fr) \<or>
    (e = Some EOF \<and> bs = [] \<and> pl = [])"
proof (cases "fr_dec fr = []")
  case False
  obtain cs where cs: "pl = fr_dec fr @ concat cs" using c by (auto simp: fr_carries_def)
  have out: "bs = take n (fr_dec fr)" "e = None" "fr' = fr\<lparr>fr_dec := drop n (fr_dec fr)\<rparr>"
    using rd n False by (auto simp: FramedReader_Read_def)
  have "fr_carries cr fr' (drop n (fr_dec fr) @ concat cs)"
    using c cs out by (auto simp: fr_carries_def)
  moreover have "pl = bs @ drop n (fr_dec fr) @ concat cs" using cs out(1) by simp
  moreover have "fr_size fr' < fr_size fr" using out(3) n False by (simp add: fr_size_def)
  ultimately show ?thesis using out(2) by auto
next
  case d: True
  have st: "fr_fatal fr = None" "\<not> fr_eof fr" "src_calm (fr_r fr)" "crypto_ok cr" using c by (auto simp: fr_carries_def)
  show ?thesis
  proof (cases "length (fr_hdr fr) < 2")
    case False
    then have h: "length (fr_hdr fr) = 2" using c by (auto simp: fr_carries_def)
    then have "fr_body cr n fr = (bs, e, fr')" using rd n d st by (simp add: FramedReader_Read_def)
    then show ?thesis by (rule fr_body_carries [OF c d h n])
  next
    case h: True
    let ?k = "2 - length (fr_hdr fr)"
    obtain hs f r where rf: "readFull ?k (fr_r fr) = (hs, f, r)" by (cases "readFull ?k (fr_r fr)") auto
    obtain cs where cs: "pl = concat cs" "raw_chunks_ok cs" "unat (as_sequence (fr_stream fr)) + length cs < 2 ^ 64 - 1"
      "fr_hdr fr @ src_bytes (fr_r fr) = records cr (as_key (fr_stream fr)) (as_sequence (fr_stream fr)) (cs @ [[]])" "fr_raw fr = []"
      using c d h by (auto simp: fr_carries_def)
    obtain a rest where a: "records cr (as_key (fr_stream fr)) (as_sequence (fr_stream fr)) (cs @ [[]]) =
        raw_record cr (as_key (fr_stream fr)) (as_sequence (fr_stream fr)) a @ rest" "length a \<le> MaxChunkPayloadLen"
      by (rule first_record [OF st(4) cs(2), where k = "as_key (fr_stream fr)" and s = "as_sequence (fr_stream fr)"])
    note rp = raw_record_parts [OF st(4) a(2)]
    have whole: "fr_hdr fr @ src_bytes (fr_r fr) = putUint16 (word_of_nat (length a + 16)) @
        gcm_seal cr (as_key (fr_stream fr)) (nonceBuf (as_sequence (fr_stream fr))) a (putUint16 (word_of_nat (length a + 16))) @ rest"
      using cs(4) a(1) rp(1) by simp
    have "2 \<le> length (fr_hdr fr) + length (src_bytes (fr_r fr))" using arg_cong [OF whole, of length] by simp
    then have k: "0 < ?k" "?k \<le> length (src_bytes (fr_r fr))" using h by auto
    note calm = readFull_calm [OF st(3) k rf] and len = readFull_length [OF rf] and sz = readFull_size [OF rf]
    let ?fr = "fr\<lparr>fr_r := r, fr_hdr := fr_hdr fr @ hs\<rparr>"
    show ?thesis
    proof (cases f)
      case (Some x)
      have out: "bs = []" "e = Some x" "fr' = ?fr"
        using rd rf Some n d st h calm(3) by (auto simp: FramedReader_Read_def fr_readError_def)
      have "fr_carries cr fr' pl" using out st cs d h calm(1,2) len Some by (auto simp: fr_carries_def)
      moreover have "fr_size fr' < fr_size fr"
        using readFull_calm_strict [OF st(3) k(2)] rf Some out(3) by (auto simp: fr_size_def)
      ultimately show ?thesis using out calm(3) Some by auto
    next
      case None
      have l: "length (fr_hdr fr @ hs) = 2" using len None h by auto
      have "(fr_hdr fr @ hs) @ src_bytes r = putUint16 (word_of_nat (length a + 16)) @
        gcm_seal cr (as_key (fr_stream fr)) (nonceBuf (as_sequence (fr_stream fr))) a (putUint16 (word_of_nat (length a + 16))) @ rest"
        using whole calm(2) by simp
      then have "fr_hdr fr @ hs = putUint16 (word_of_nat (length a + 16))"
        using l append_eq_append_conv [of "fr_hdr fr @ hs" "putUint16 (word_of_nat (length a + 16))"] by simp
      then have "0 < unat (getUint16 (fr_hdr fr @ hs))" using rp(2) by simp
      then have car: "fr_carries cr ?fr pl" using st cs d calm(1,2) l by (auto simp: fr_carries_def)
      have "fr_body cr n ?fr = (bs, e, fr')" using rd rf None n d st h by (simp add: FramedReader_Read_def)
      from fr_body_carries [OF car _ _ n this] d l have
        "(soft e \<and> (\<exists>pl'. pl = bs @ pl' \<and> fr_carries cr fr' pl') \<and> fr_size fr' < fr_size ?fr) \<or> (e = Some EOF \<and> bs = [] \<and> pl = [])"
        by simp
      moreover have "fr_size ?fr \<le> fr_size fr" using sz by (simp add: fr_size_def)
      ultimately show ?thesis by auto
    qed
  qed
qed

lemma fw_write_wrote:
  assumes "fw_wrote cr key w pl" "raw_allowed (pl @ p)" "fw_write cr p w = (n, e, w')"
  shows "n = length p \<and> e = None \<and> fw_wrote cr key w' (pl @ p)"
proof -
  obtain fw ts where w: "w = (fw, ts)" by (cases w)
  obtain ds where ds: "snk_out (fw_w fw) = records cr key 0 ds" "concat ds = pl" "raw_chunks_ok ds"
    "as_sequence (fw_stream fw) = word_of_nat (length ds)"
    and st: "crypto_ok cr" "\<not> fw_closed fw" "sink_ok (fw_w fw)" "as_key (fw_stream fw) = key"
    using assms(1) w by (auto simp: fw_wrote_def)
  let ?now = "case ts of [] \<Rightarrow> 0 | t # _ \<Rightarrow> t"
  define fw0 where "fw0 = fw\<lparr>fw_burstBytes := (case fw_lastWrite fw of None \<Rightarrow> fw_burstBytes fw
      | Some t \<Rightarrow> if IdleResetThreshold < ?now - t then 0 else fw_burstBytes fw), fw_lastWrite := Some ?now, fw_buf := []\<rparr>"
  have loop: "FramedWriter_Write cr ?now p fw = wb_loop cr [p] 0 0 fw0 0 0"
    using st(2) by (simp add: FramedWriter_Write_def WriteBatch_def Let_def fw0_def)
  have pend: "pending [p] 0 0 = p" by (simp add: pending_start)
  have bound: "length ds + length p < 2 ^ 64 - 1"
    using raw_chunks_length [OF ds(3)] assms(2) ds(2) by (simp add: raw_allowed_def)
  then have seq: "unat (as_sequence (fw_stream fw)) = length ds" by (simp add: ds(4) unat_of_nat)
  have "\<exists>cs fw'. wb_loop cr [p] 0 0 fw0 0 0 = (0 + 0 + length (pending [p] 0 0), None, fw') \<and>
     concat cs = pending [p] 0 0 \<and> raw_chunks_ok cs \<and> fw_sent cr fw0 fw' cs"
    by (rule wb_loop_ok) (use st bound seq pend in \<open>simp_all add: fw0_def\<close>)
  then obtain cs fw' where cs: "FramedWriter_Write cr ?now p fw = (length p, None, fw')" "concat cs = p"
    "raw_chunks_ok cs" "fw_sent cr fw0 fw' cs" using loop pend by auto
  then have out: "n = length p" "e = None" "w' = (fw', tl ts)" using assms(3) w by (auto simp: fw_write_def)
  have "fw_wrote cr key (fw', tl ts) (pl @ p)"
    unfolding fw_wrote_def using st ds cs(2,3,4)
    by (auto simp: fw_sent_def fw0_def records_append intro!: exI [of _ "ds @ cs"])
  then show ?thesis using out by simp
qed

lemma fw_close_carries:
  assumes "fw_wrote cr key w pl" "raw_allowed pl" "fw_close cr w = (e, w')"
  shows "e = None \<and> (\<forall>src. src_calm src \<longrightarrow> src_bytes src = snk_out (fw_w (fst w')) \<longrightarrow>
    fr_carries cr (NewFramedReader src (NewAEADStream key)) pl)"
proof -
  obtain fw ts where w: "w = (fw, ts)" by (cases w)
  obtain ds where ds: "snk_out (fw_w fw) = records cr key 0 ds" "concat ds = pl" "raw_chunks_ok ds"
    "as_sequence (fw_stream fw) = word_of_nat (length ds)"
    and st: "crypto_ok cr" "\<not> fw_closed fw" "sink_ok (fw_w fw)" "as_key (fw_stream fw) = key"
    using assms(1) w by (auto simp: fw_wrote_def)
  have bound: "length ds < 2 ^ 64 - 1" using raw_chunks_length [OF ds(3)] assms(2) ds(2) by (simp add: raw_allowed_def)
  then have "as_sequence (fw_stream fw) \<noteq> - 1" using seq_room [of "as_sequence (fw_stream fw)"] ds(4) by (simp add: unat_of_nat)
  then have "e = None" "snk_out (fw_w (fst w')) = records cr key 0 (ds @ [[]])"
    using assms(3) w st ds(1,4) EncryptChunk_ok [of "[]" "fw_stream fw" cr "[]"]
    by (auto simp: fw_close_def WriteEOF_def fw_flush_ok records_append)
  then show ?thesis using ds st(1) bound by (auto simp: fr_carries_def NewFramedReader_def NewAEADStream_def)
qed

interpretation raw_stream: byte_channel
  "FramedReader_Read cr" "fr_carries cr" fr_size bound
  "fw_write cr" "fw_close cr" "\<lambda>w. snk_out (fw_w (fst w))" "fw_wrote cr key"
  "\<lambda>src. NewFramedReader src (NewAEADStream key)" raw_allowed
  for cr key bound
proof
  show "\<not> isTimeout EOF" by simp
next
  fix r pl n bs e r'
  assume "fr_carries cr r pl" "0 < n" "n \<le> bound" "FramedReader_Read cr n r = (bs, e, r')"
  then show "(soft e \<and> (\<exists>pl'. pl = bs @ pl' \<and> fr_carries cr r' pl') \<and> fr_size r' < fr_size r) \<or>
    (e = Some EOF \<and> bs = [] \<and> pl = [])" using FramedReader_Read_carries by blast
next
  fix pl p
  assume "raw_allowed (pl @ p)"
  then show "raw_allowed pl" by (simp add: raw_allowed_def)
next
  fix w pl p n e w'
  assume "fw_wrote cr key w pl" "raw_allowed (pl @ p)" "fw_write cr p w = (n, e, w')"
  then show "n = length p \<and> e = None \<and> fw_wrote cr key w' (pl @ p)" by (rule fw_write_wrote)
next
  fix w pl e w'
  assume "fw_wrote cr key w pl" "raw_allowed pl" "fw_close cr w = (e, w')"
  then show "e = None \<and> (\<forall>src. src_calm src \<longrightarrow> src_bytes src = snk_out (fw_w (fst w')) \<longrightarrow>
    fr_carries cr (NewFramedReader src (NewAEADStream key)) pl)" by (rule fw_close_carries)
qed

subsection \<open>Properties of the record stream\<close>

text \<open>C9: Whatever is written to a \<open>FramedWriter\<close> over a working connection (at any times, so in any
  record-size phase) and ended with \<open>WriteEOF\<close>, and however the network splits and delays the records, a
  \<open>FramedReader\<close> with the same key delivers exactly these bytes and then \<open>io.EOF\<close>, as long as fewer
  than \<open>2 ^ 64 - 1\<close> bytes are sent.\<close>

theorem raw_stream_roundtrip:
  assumes "crypto_ok cr" "sink_ok s" "snk_out s = []" "length (concat ps) < 2 ^ 64 - 1"
    and "write_all (fw_write cr) ps (NewFramedWriter s (NewAEADStream key), clock) = (e1, w1)"
    and "fw_close cr w1 = (e2, w2)" "src_calm src" "src_bytes src = snk_out (fw_w (fst w2))" "0 < n"
  shows "e1 = None \<and> e2 = None \<and>
    drain (FramedReader_Read cr) (Suc (2 * src_size src)) n (NewFramedReader src (NewAEADStream key)) = Some (concat ps, EOF)"
proof (rule raw_stream.roundtrip [OF _ _ assms(5,6,7,8,9)])
  show "fw_wrote cr key (NewFramedWriter s (NewAEADStream key), clock) []"
    using assms(1,2,3) by (auto simp: fw_wrote_def NewFramedWriter_def NewAEADStream_def intro!: exI [of _ "[]"])
  show "raw_allowed (concat ps)" using assms(4) by (simp add: raw_allowed_def)
  show "n \<le> n" ..
  have "src_size (bufioReader src) \<le> 2 * src_size src" by (induction src) (auto simp: bufioReader_def)
  then show "fr_size (NewFramedReader src (NewAEADStream key)) < Suc (2 * src_size src)"
    by (simp add: fr_size_def NewFramedReader_def)
qed

theorem raw_stream_roundtrip_witness:
  "\<exists>w1 w2. write_all (fw_write toy_crypto) [[7, 8], [], [9]] (NewFramedWriter \<lparr>snk_out = [], snk_resp = []\<rparr> (NewAEADStream [1]), [5]) = (None, w1) \<and>
     fw_close toy_crypto w1 = (None, w2) \<and>
     drain (FramedReader_Read toy_crypto) (Suc (2 * src_size [(take 5 (snk_out (fw_w (fst w2))), Some (Timeout 0)), (drop 5 (snk_out (fw_w (fst w2))), None)])) 1
       (NewFramedReader [(take 5 (snk_out (fw_w (fst w2))), Some (Timeout 0)), (drop 5 (snk_out (fw_w (fst w2))), None)] (NewAEADStream [1]))
     = Some ([7, 8, 9], EOF)"
proof -
  let ?w = "write_all (fw_write toy_crypto) [[7, 8], [], [9]] (NewFramedWriter \<lparr>snk_out = [], snk_resp = []\<rparr> (NewAEADStream [1]), [5])"
  obtain e1 w1 where w1: "?w = (e1, w1)" by (cases ?w)
  obtain e2 w2 where w2: "fw_close toy_crypto w1 = (e2, w2)" by (cases "fw_close toy_crypto w1")
  let ?src = "[(take 5 (snk_out (fw_w (fst w2))), Some (Timeout 0)), (drop 5 (snk_out (fw_w (fst w2))), None)]"
  have "e1 = None \<and> e2 = None \<and> drain (FramedReader_Read toy_crypto) (Suc (2 * src_size ?src)) 1
      (NewFramedReader ?src (NewAEADStream [1])) = Some (concat [[7, 8], [], [9]], EOF)"
    by (rule raw_stream_roundtrip [OF toy_crypto_ok _ _ _ w1 w2]) (simp_all add: sink_ok_def)
  moreover have "concat [[7, 8], [], [9]] = [7, 8, 9 :: byte]" by simp
  ultimately show ?thesis using w1 w2 by metis
qed

text \<open>The batch loop over one contiguous plaintext: the specification of \<open>WriteBatch\<close>.\<close>

function flat_loop :: "crypto \<Rightarrow> bytes \<Rightarrow> framed_writer \<Rightarrow> nat \<Rightarrow> nat \<Rightarrow> nat \<times> goerr option \<times> framed_writer" where
  "flat_loop cr p fw tot unflushed =
     (if p = [] then
        (if fw_buf fw \<noteq> [] then
           (case fw_flush fw of
              (Some e, fw) \<Rightarrow> (tot, Some e, fw)
            | (None, fw) \<Rightarrow> (tot + unflushed, None, fw\<lparr>fw_buf := []\<rparr>))
         else (tot, None, fw))
      else case fw_limits (fw_burstBytes fw) of
             (maxChunk, thr) \<Rightarrow>
               (case EncryptChunk cr (fw_stream fw) (fw_buf fw) (take maxChunk p) of
                  (Inl e, s) \<Rightarrow> (tot, Some e, fw\<lparr>fw_stream := s, fw_buf := []\<rparr>)
                | (Inr buf, s) \<Rightarrow>
                    let fw = fw\<lparr>fw_stream := s, fw_buf := buf, fw_burstBytes := fw_burstBytes fw + length (take maxChunk p)\<rparr>;
                        unflushed = unflushed + length (take maxChunk p)
                    in if thr = 0 \<or> thr \<le> length buf then
                         (case fw_flush fw of
                            (Some e, fw) \<Rightarrow> (tot, Some e, fw)
                          | (None, fw) \<Rightarrow> flat_loop cr (drop maxChunk p) (fw\<lparr>fw_buf := []\<rparr>) (tot + unflushed) 0)
                       else flat_loop cr (drop maxChunk p) fw tot unflushed))"
  by pat_completeness auto
termination
  by (relation "measure (\<lambda>(cr, p, fw, t, u). length p)") (auto dest!: fw_limits_pos [OF sym])

declare flat_loop.simps [simp del]

lemma wb_loop_flat:
  "offset \<le> (if index < length buffers then length (buffers ! index) else 0) \<Longrightarrow>
   wb_loop cr buffers index offset fw tot unfl = flat_loop cr (pending buffers index offset) fw tot unfl"
proof (induction "length (pending buffers index offset) + (length buffers - index)" arbitrary: index offset fw tot unfl rule: less_induct)
  case less
  let ?p = "pending buffers index offset"
  note eq = wb_loop.simps [of cr buffers index offset fw tot unfl] and eqf = flat_loop.simps [of cr ?p fw tot unfl]
  show ?case
  proof (cases "index < length buffers")
    case False
    then have "?p = []" by (simp add: pending_def)
    then show ?thesis unfolding eq eqf using False by simp
  next
    case i: True
    show ?thesis
    proof (cases "drop offset (buffers ! index) = []")
      case True
      have p: "?p = pending buffers (Suc index) 0" using True pending_unfold [OF i] by simp
      have "wb_loop cr buffers index offset fw tot unfl = wb_loop cr buffers (Suc index) 0 fw tot unfl"
        unfolding eq using i True by simp
      also have "\<dots> = flat_loop cr (pending buffers (Suc index) 0) fw tot unfl" by (rule less.hyps) (use i p in auto)
      finally show ?thesis using p by simp
    next
      case False
      obtain maxChunk thr where lim: "fw_limits (fw_burstBytes fw) = (maxChunk, thr)" by (cases "fw_limits (fw_burstBytes fw)")
      obtain chunk i' off' where nc: "next_chunk buffers maxChunk index offset = (chunk, i', off')"
        by (cases "next_chunk buffers maxChunk index offset") auto
      note n = next_chunk_takes [OF i False conjunct1 [OF fw_limits_pos [OF lim]] nc]
      have ne: "?p \<noteq> []" using n(1,5) by auto
      have rec: "wb_loop cr buffers i' off' g t u = flat_loop cr (drop maxChunk ?p) g t u" for g t u
        using less.hyps [OF next_chunk_smaller [OF i False lim nc] n(4)] n(2) by simp
      show ?thesis unfolding eq eqf using i False lim nc n(1) ne rec by (simp add: Let_def split: sum.split prod.split option.split)
    qed
  qed
qed

text \<open>\<open>WriteBatch\<close> is a write of the concatenation: however the caller slices its data into buffers
  (empty ones included), the records, nonces, flushes, the returned count, errors of the connection and the
  resulting state are those of a single \<open>Write\<close> of all the bytes, at every phase of the ramp-up.\<close>

theorem write_batch_is_write:
  "WriteBatch cr now buffers fw = FramedWriter_Write cr now (concat buffers) fw"
  by (simp add: FramedWriter_Write_def WriteBatch_def wb_loop_flat pending_start)

subsection \<open>Only sealed records are delivered\<close>

text \<open>Unread input including the partial header and record.\<close>

definition fr_input :: "raw_reader \<Rightarrow> bytes" where
  "fr_input fr = fr_hdr fr @ fr_raw fr @ src_bytes (fr_r fr)"

definition fr_wf :: "raw_reader \<Rightarrow> bool" where
  "fr_wf fr \<longleftrightarrow> fr_fatal fr = None \<and> \<not> fr_eof fr \<and> length (fr_hdr fr) \<le> 2 \<and>
     (length (fr_hdr fr) < 2 \<longrightarrow> fr_raw fr = []) \<and>
     (length (fr_hdr fr) = 2 \<longrightarrow> length (fr_raw fr) \<le> unat (getUint16 (fr_hdr fr)))"

text \<open>The possible outcomes of one read of an empty buffer, for every behaviour of the connection.\<close>

definition fr_outcome :: "crypto \<Rightarrow> raw_reader \<Rightarrow> bytes \<times> goerr option \<times> raw_reader \<Rightarrow> bool" where
  "fr_outcome cr fr res \<longleftrightarrow> (case res of (bs, e, fr') \<Rightarrow>
     (soft e \<and> fr_wf fr' \<and> bs = [] \<and> fr_dec fr' = [] \<and> fr_stream fr' = fr_stream fr \<and> fr_input fr' = fr_input fr) \<or>
     (\<exists>a. soft e \<and> fr_wf fr' \<and> bs @ fr_dec fr' = a \<and>
        fr_input fr = raw_record cr (as_key (fr_stream fr)) (as_sequence (fr_stream fr)) a @ fr_input fr' \<and>
        fr_stream fr' = (fr_stream fr)\<lparr>as_sequence := as_sequence (fr_stream fr) + 1\<rparr>) \<or>
     (e = Some EOF \<and> bs = [] \<and>
        fr_input fr = raw_record cr (as_key (fr_stream fr)) (as_sequence (fr_stream fr)) [] @ fr_input fr') \<or>
     (\<not> soft e \<and> e \<noteq> Some EOF))"

lemma fr_readError_outcome:
  "fr_wf fr' \<Longrightarrow> fr_dec fr' = [] \<Longrightarrow> fr_stream fr' = fr_stream fr \<Longrightarrow> fr_input fr' = fr_input fr \<Longrightarrow>
   fr_outcome cr fr (fr_readError err fr')"
  by (auto simp: fr_outcome_def fr_readError_def Let_def)

lemma opened_record:
  assumes cr: "crypto_ok cr" and h: "length hdr = 2" and l: "length raw = unat (getUint16 hdr)"
    and d: "DecryptChunk cr s raw (getUint16 hdr) = (Inr a, s')"
  shows "hdr @ raw = raw_record cr (as_key s) (as_sequence s) a" "s' = s\<lparr>as_sequence := as_sequence s + 1\<rparr>"
proof -
  have g: "gcm_open cr (as_key s) (nonceBuf (as_sequence s)) raw hdr = Some a" "s' = s\<lparr>as_sequence := as_sequence s + 1\<rparr>"
    using d h by (auto simp: DecryptChunk_def split: if_splits option.splits)
  have raw: "raw = gcm_seal cr (as_key s) (nonceBuf (as_sequence s)) a hdr" by (rule crypto_ok_tidy(2) [OF cr g(1)])
  then have la: "length a + 16 = unat (getUint16 hdr)" using l crypto_ok_simps(5) [OF cr] by metis
  have "putUint16 (word_of_nat (length a + 16)) = hdr" unfolding la using h by simp
  then show "hdr @ raw = raw_record cr (as_key s) (as_sequence s) a" using raw by (simp add: raw_record_def)
  show "s' = s\<lparr>as_sequence := as_sequence s + 1\<rparr>" by (rule g(2))
qed

lemma fr_body_outcome:
  assumes cr: "crypto_ok cr" and wf: "fr_wf fr" and d: "fr_dec fr = []" and h: "length (fr_hdr fr) = 2"
  shows "fr_outcome cr fr (fr_body cr n fr)"
proof -
  let ?wl = "unat (getUint16 (fr_hdr fr))"
  obtain rs f r where rf: "readFull (?wl - length (fr_raw fr)) (fr_r fr) = (rs, f, r)"
    by (cases "readFull (?wl - length (fr_raw fr)) (fr_r fr)") auto
  note len = readFull_length [OF rf] and bts = readFull_bytes [OF rf]
  have w: "fr_fatal fr = None" "\<not> fr_eof fr" "length (fr_raw fr) \<le> ?wl" using wf h by (auto simp: fr_wf_def)
  let ?fr = "fr\<lparr>fr_r := r, fr_raw := fr_raw fr @ rs\<rparr>"
  consider (bad) "?wl < 16 \<or> MaxChunkWireLen < ?wl" | (err) x where "\<not> (?wl < 16 \<or> MaxChunkWireLen < ?wl)" "f = Some x"
    | (full) "\<not> (?wl < 16 \<or> MaxChunkWireLen < ?wl)" "f = None" by (cases f) auto
  then show ?thesis
  proof cases
    case bad
    then show ?thesis by (auto simp: fr_body_def fr_outcome_def Let_def raw_ErrDecryptionFailed_def ErrChunkTooLarge_def)
  next
    case err
    have "fr_outcome cr fr (fr_readError x ?fr)"
      by (rule fr_readError_outcome) (use wf w d h len bts in \<open>auto simp: fr_wf_def fr_input_def\<close>)
    then show ?thesis using err rf by (simp add: fr_body_def Let_def)
  next
    case full
    then have lr: "length (fr_raw fr @ rs) = ?wl" using len w(3) by simp
    obtain res s where ds: "DecryptChunk cr (fr_stream fr) (fr_raw fr @ rs) (getUint16 (fr_hdr fr)) = (res, s)"
      by (cases "DecryptChunk cr (fr_stream fr) (fr_raw fr @ rs) (getUint16 (fr_hdr fr))")
    show ?thesis
    proof (cases res)
      case (Inl e)
      then show ?thesis using full rf ds by (simp add: fr_body_def fr_outcome_def Let_def raw_ErrDecryptionFailed_def)
    next
      case (Inr a)
      note op = opened_record [OF cr h lr ds [unfolded Inr]]
      have inp: "fr_input fr = raw_record cr (as_key (fr_stream fr)) (as_sequence (fr_stream fr)) a @ src_bytes r"
        unfolding fr_input_def bts op(1) [symmetric] by simp
      let ?new = "?fr\<lparr>fr_stream := s, fr_hdr := [], fr_raw := []\<rparr>"
      have res: "fr_body cr n fr = (if a = [] then ([], Some EOF, ?new\<lparr>fr_eof := True\<rparr>)
          else (take n a, None, ?new\<lparr>fr_dec := drop n a\<rparr>))"
        using full rf ds Inr by (simp add: fr_body_def Let_def)
      have new: "fr_input (?new\<lparr>fr_eof := True\<rparr>) = src_bytes r" "fr_input (?new\<lparr>fr_dec := drop n a\<rparr>) = src_bytes r"
        "fr_wf (?new\<lparr>fr_dec := drop n a\<rparr>)" using w by (auto simp: fr_input_def fr_wf_def)
      show ?thesis unfolding res fr_outcome_def using inp new op(2) by simp
    qed
  qed
qed

lemma Read_outcome:
  assumes cr: "crypto_ok cr" and wf: "fr_wf fr" and d: "fr_dec fr = []" and n: "0 < n"
  shows "fr_outcome cr fr (FramedReader_Read cr n fr)"
proof (cases "length (fr_hdr fr) < 2")
  case False
  then have h: "length (fr_hdr fr) = 2" using wf by (auto simp: fr_wf_def)
  then show ?thesis using fr_body_outcome [OF cr wf d h, of n] wf d n by (simp add: FramedReader_Read_def fr_wf_def)
next
  case True
  obtain hs f r where rf: "readFull (2 - length (fr_hdr fr)) (fr_r fr) = (hs, f, r)"
    by (cases "readFull (2 - length (fr_hdr fr)) (fr_r fr)") auto
  note len = readFull_length [OF rf] and bts = readFull_bytes [OF rf]
  let ?fr = "fr\<lparr>fr_r := r, fr_hdr := fr_hdr fr @ hs\<rparr>"
  have w: "fr_fatal fr = None" "\<not> fr_eof fr" "fr_raw fr = []" using wf True by (auto simp: fr_wf_def)
  have wf': "fr_wf ?fr" "fr_input ?fr = fr_input fr"
    using w len True bts by (auto simp: fr_wf_def fr_input_def)
  show ?thesis
  proof (cases f)
    case (Some x)
    have "fr_outcome cr fr (fr_readError x ?fr)" by (rule fr_readError_outcome) (use wf' d in auto)
    then show ?thesis using Some rf True w d n by (simp add: FramedReader_Read_def)
  next
    case None
    then have "length (fr_hdr ?fr) = 2" using len True by simp
    from fr_body_outcome [OF cr wf'(1) _ this, of n] d wf'(2)
    have "fr_outcome cr fr (fr_body cr n ?fr)" by (simp add: fr_outcome_def)
    then show ?thesis using None rf True w d n by (simp add: FramedReader_Read_def)
  qed
qed

lemma Read_buffered:
  assumes "fr_dec fr \<noteq> []" "0 < n" "FramedReader_Read cr n fr = (bs, e, fr')"
  shows "soft e" "fr_wf fr' = fr_wf fr" "bs @ fr_dec fr' = fr_dec fr" "fr_stream fr' = fr_stream fr" "fr_input fr' = fr_input fr"
  using assms by (auto simp: FramedReader_Read_def fr_wf_def fr_input_def)

definition raw_seal :: "crypto \<Rightarrow> aead_stream \<Rightarrow> bytes \<Rightarrow> bytes" where
  "raw_seal cr s = raw_record cr (as_key s) (as_sequence s)"

definition raw_next :: "aead_stream \<Rightarrow> aead_stream" where
  "raw_next s = s\<lparr>as_sequence := as_sequence s + 1\<rparr>"

lemma raw_sealed_run: "sealed_run (raw_seal cr) raw_next s cs = records cr (as_key s) (as_sequence s) cs"
  by (induction cs arbitrary: s) (simp_all add: raw_seal_def raw_next_def)

interpretation raw_sealed: authentic_reader "FramedReader_Read cr" "\<lambda>fr. fr_wf fr \<and> crypto_ok cr" fr_dec fr_input fr_stream "raw_seal cr" raw_next
  for cr
proof
  fix r n bs e r'
  assume a: "fr_wf r \<and> crypto_ok cr" "fr_dec r \<noteq> []" "0 < n" "FramedReader_Read cr n r = (bs, e, r')"
  show "soft e \<and> (fr_wf r' \<and> crypto_ok cr) \<and> bs @ fr_dec r' = fr_dec r \<and> fr_stream r' = fr_stream r \<and> fr_input r' = fr_input r"
    using Read_buffered [OF a(2,3,4)] a(1) by simp
next
  fix r n bs e r'
  assume "fr_wf r \<and> crypto_ok cr" "fr_dec r = []" "0 < n" "FramedReader_Read cr n r = (bs, e, r')"
  then show "(soft e \<and> (fr_wf r' \<and> crypto_ok cr) \<and> bs = [] \<and> fr_dec r' = [] \<and> fr_stream r' = fr_stream r \<and> fr_input r' = fr_input r) \<or>
    (soft e \<and> (fr_wf r' \<and> crypto_ok cr) \<and> fr_input r = raw_seal cr (fr_stream r) (bs @ fr_dec r') @ fr_input r' \<and> fr_stream r' = raw_next (fr_stream r)) \<or>
    (e = Some EOF \<and> bs = [] \<and> fr_input r = raw_seal cr (fr_stream r) [] @ fr_input r') \<or>
    (\<not> soft e \<and> e \<noteq> Some EOF)"
    using Read_outcome [of cr r n] unfolding fr_outcome_def raw_seal_def raw_next_def by simp
qed

text \<open>C10: A \<open>FramedReader\<close> never presents a truncated, reordered or altered stream as complete: for every
  input and every sequence of transport errors and timeouts, if reading ends with \<open>io.EOF\<close> then the input
  starts with records sealed under the stream's key with consecutive nonces from 0, their plaintexts are
  exactly the delivered bytes, and the last one is the sealed empty record. A transport end of file is not
  such an end.\<close>

theorem raw_stream_authentic_end:
  assumes "crypto_ok cr" "0 < n"
    and "drain (FramedReader_Read cr) fuel n (NewFramedReader src (NewAEADStream key)) = Some (pl, EOF)"
  shows "\<exists>cs rest. pl = concat cs \<and> src_bytes src = records cr key 0 (cs @ [[]]) @ rest"
proof -
  have "fr_wf (NewFramedReader src (NewAEADStream key))" by (simp add: fr_wf_def NewFramedReader_def)
  from raw_sealed.drain_authentic [OF conjI [OF this assms(1)] assms(2,3)] show ?thesis
    by (simp add: NewFramedReader_def NewAEADStream_def fr_input_def raw_sealed_run)
qed

theorem raw_stream_authentic_end_witness:
  "\<exists>cs rest. [5] = concat cs \<and>
     [0, 17, 5, 0, 17] @ replicate 14 0 @ [0, 16, 0, 16] @ replicate 11 0 @ [1, 0, 0] = records toy_crypto [3] 0 (cs @ [[]]) @ rest"
proof -
  let ?src = "[([0, 17, 5, 0, 17] @ replicate 14 0, None), ([0, 16, 0, 16] @ replicate 11 0 @ [1, 0, 0], None)] :: source"
  have "drain (FramedReader_Read toy_crypto) 9 1 (NewFramedReader ?src (NewAEADStream [3])) = Some ([5], EOF)" by code_simp
  from raw_stream_authentic_end [OF toy_crypto_ok _ this] show ?thesis by simp
qed

end
