(* ===== verification/StreamServer.thy ===== *)
theory StreamServer
  imports ReplayDurable RawHello RawStream
begin

text \<open>
  The RawStream endpoint: \<^verbatim>\<open>src/pkg/server/stream_server.go\<close> (admission of connections and the
  handshake of \<open>handleConn\<close>), the user table of \<^verbatim>\<open>src/pkg/server/server.go\<close> and the client side
  \<^verbatim>\<open>src/pkg/client/conn_stream.go\<close>. The handshake is composed of the hello records, the OPEN frame and
  the replay cache. \<open>handleConn\<close> is two parts, before and after the commit of the nonce,
  so that concurrent connections can be interleaved. What follows it (dialling and relaying)
  is outside the model.
\<close>

subsection \<open>Users\<close>

record user_key =
  uk_email :: bytes
  uk_psk :: bytes
  uk_level :: u32

definition MaxUserKeys :: nat where "MaxUserKeys = 128"

text \<open>\<open>trim\<close> and \<open>lower\<close> are \<open>strings.TrimSpace\<close> and \<open>strings.ToLower\<close>.\<close>

fun validate_loop :: "(bytes \<Rightarrow> bytes) \<Rightarrow> (bytes \<Rightarrow> bytes) \<Rightarrow> bool \<Rightarrow> user_key list \<Rightarrow> bytes list \<Rightarrow> bytes list \<Rightarrow> goerr option" where
  "validate_loop trim lower several [] seenEmails seenKeys = None"
| "validate_loop trim lower several (user # users) seenEmails seenKeys =
     (let email = trim (uk_email user)
      in if several \<and> email = [] then Some (Errorf ''chitanda: user has no email'')
         else if email \<noteq> [] \<and> lower email \<in> set seenEmails then Some (Errorf ''chitanda: duplicate user email'')
         else if length (uk_psk user) < 32 then Some (Errorf ''chitanda: user PSK must contain at least 32 bytes'')
         else if uk_psk user \<in> set seenKeys then Some (Errorf ''chitanda: duplicate PSK'')
         else validate_loop trim lower several users (if email \<noteq> [] then lower email # seenEmails else seenEmails)
                (uk_psk user # seenKeys))"

definition ValidateUserKeys :: "(bytes \<Rightarrow> bytes) \<Rightarrow> (bytes \<Rightarrow> bytes) \<Rightarrow> user_key list \<Rightarrow> goerr option" where
  "ValidateUserKeys trim lower users =
     (if users = [] \<or> MaxUserKeys < length users then Some (Errorf ''chitanda: user count must be between 1 and 128'')
      else validate_loop trim lower (1 < length users) users [] [])"

definition copyUserKeys :: "(bytes \<Rightarrow> bytes) \<Rightarrow> user_key list \<Rightarrow> user_key list \<times> bytes list" where
  "copyUserKeys trim users = (map (\<lambda>u. u\<lparr>uk_email := trim (uk_email u)\<rparr>) users, map uk_psk users)"

subsection \<open>The server and its admission counters\<close>

text \<open>
  \<open>ss_sem\<close> is the number of tokens in the channel \<open>handshakeSem\<close> of capacity \<open>ss_semCap\<close>,
  \<open>ss_wg\<close> the count of the wait group. The replay cache is passed separately.
\<close>

record stream_server =
  ss_psk :: bytes
  ss_users :: "user_key list"
  ss_pskList :: "bytes list"
  ss_matcher :: "prepared_matcher option"
  ss_serverID :: bytes
  ss_closed :: bool
  ss_maxConns :: int
  ss_activeConns :: int
  ss_sem :: nat
  ss_semCap :: nat
  ss_wg :: nat

definition NewStreamServer :: "bytes \<Rightarrow> bytes \<Rightarrow> stream_server" where
  "NewStreamServer psk serverID =
     \<lparr>ss_psk = psk,
      ss_users = (if psk \<noteq> [] then [\<lparr>uk_email = [], uk_psk = psk, uk_level = 0\<rparr>] else []),
      ss_pskList = (if psk \<noteq> [] then [psk] else []),
      ss_matcher = None, ss_serverID = serverID, ss_closed = False, ss_maxConns = 10000, ss_activeConns = 0,
      ss_sem = 0, ss_semCap = 512, ss_wg = 0\<rparr>"

definition NewStreamServerWithUsers ::
  "crypto \<Rightarrow> (bytes \<Rightarrow> bytes) \<Rightarrow> (bytes \<Rightarrow> bytes) \<Rightarrow> user_key list \<Rightarrow> bytes \<Rightarrow> stream_server result" where
  "NewStreamServerWithUsers cr trim lower users serverID =
     (case ValidateUserKeys trim lower users of
        Some e \<Rightarrow> Inl e
      | None \<Rightarrow>
          (case copyUserKeys trim users of
             (validUsers, pskList) \<Rightarrow>
               (case NewPreparedClientHelloMatcher cr pskList serverID of
                  Inl e \<Rightarrow> Inl e
                | Inr matcher \<Rightarrow>
                    Inr \<lparr>ss_psk = (if length validUsers = 1 then uk_psk (validUsers ! 0) else []),
                         ss_users = validUsers, ss_pskList = pskList, ss_matcher = Some matcher, ss_serverID = serverID,
                         ss_closed = False, ss_maxConns = 10000, ss_activeConns = 0, ss_sem = 0, ss_semCap = 512, ss_wg = 0\<rparr>)))"

definition SetMaxConns :: "int \<Rightarrow> stream_server \<Rightarrow> stream_server" where
  "SetMaxConns n s = s\<lparr>ss_maxConns := n\<rparr>"

definition reserveConnection :: "stream_server \<Rightarrow> bool \<times> stream_server" where
  "reserveConnection s =
     (if ss_closed s then (False, s)
      else if 0 < ss_maxConns s \<and> ss_maxConns s \<le> ss_activeConns s then (False, s)
      else (True, s\<lparr>ss_activeConns := ss_activeConns s + 1\<rparr>))"

definition admitConnection :: "stream_server \<Rightarrow> bool \<times> stream_server" where
  "admitConnection s =
     (case reserveConnection s of
        (False, s) \<Rightarrow> (False, s)
      | (True, s) \<Rightarrow>
          if ss_sem s < ss_semCap s then (True, s\<lparr>ss_sem := ss_sem s + 1, ss_wg := ss_wg s + 1\<rparr>)
          else (False, s\<lparr>ss_activeConns := ss_activeConns s - 1\<rparr>))"

definition releaseHandshake :: "bool \<Rightarrow> stream_server \<Rightarrow> stream_server" where
  "releaseHandshake released s = (if released then s else s\<lparr>ss_sem := ss_sem s - 1\<rparr>)"

text \<open>The deferred calls when \<open>runConnection\<close> returns.\<close>

definition finishConnection :: "bool \<Rightarrow> stream_server \<Rightarrow> stream_server" where
  "finishConnection released s =
     (let s = releaseHandshake released s in s\<lparr>ss_activeConns := ss_activeConns s - 1, ss_wg := ss_wg s - 1\<rparr>)"

definition StreamServer_Close :: "stream_server \<Rightarrow> stream_server" where
  "StreamServer_Close s = s\<lparr>ss_closed := True\<rparr>"

subsection \<open>The handshake of a connection\<close>

definition unix :: "int \<Rightarrow> u64" where
  "unix t = word_of_int (t div second)"

definition read_hello :: "crypto \<Rightarrow> stream_server \<Rightarrow> int \<Rightarrow> source \<Rightarrow> (user_key \<times> bytes \<times> u64) result \<times> source" where
  "read_hello cr s now src =
     (if ss_psk s \<noteq> [] \<and> length (ss_users s) \<le> 1 then
        (case ReadAndVerifyPolymorphicClientHello cr src (ss_psk s) (ss_serverID s) (unix now) of
           (Inl e, src) \<Rightarrow> (Inl e, src)
         | (Inr (cNonce, tStamp), src) \<Rightarrow>
             (Inr (if length (ss_users s) = 1 then ss_users s ! 0 else \<lparr>uk_email = [], uk_psk = ss_psk s, uk_level = 0\<rparr>,
                   cNonce, tStamp), src))
      else case ss_matcher s of
             None \<Rightarrow> (Inl (Errorf ''panic: nil matcher''), src)
           | Some m \<Rightarrow>
               (case ReadAndMatch cr m src (unix now) of
                  (Inl e, src) \<Rightarrow> (Inl e, src)
                | (Inr (matchedIdx, cNonce, tStamp), src) \<Rightarrow>
                    if length (ss_users s) \<le> matchedIdx then (Inl (Errorf ''no user''), src)
                    else (Inr (ss_users s ! matchedIdx, cNonce, tStamp), src)))"

record validated =
  v_user :: user_key
  v_nonce :: bytes
  v_ts :: u64
  v_target :: bytes
  v_payload :: bytes

text \<open>Steps 1 to 6 of \<open>handleConn\<close>: everything before the nonce is committed.\<close>

definition handshake_open :: "crypto \<Rightarrow> stream_server \<Rightarrow> int \<Rightarrow> int \<Rightarrow> replay_cache \<Rightarrow> source \<Rightarrow> validated option \<times> replay_cache \<times> source" where
  "handshake_open cr s now1 now2 c src =
     (case read_hello cr s now1 src of
        (Inl e, src) \<Rightarrow> (None, c, src)
      | (Inr (matchedUser, clientNonce, ts), src) \<Rightarrow>
          (case ReplayCache_Check (hex_encode clientNonce) now2 c of
             (True, c) \<Rightarrow> (None, c, src)
           | (False, c) \<Rightarrow>
               (case readFull 2 src of
                  (_, Some e, src) \<Rightarrow> (None, c, src)
                | (lenBuf, None, src) \<Rightarrow>
                    let wireLen = unat (getUint16 lenBuf)
                    in if wireLen \<le> 16 \<or> MaxChunkWireLen < wireLen then (None, c, src)
                       else (case readFull wireLen src of
                               (_, Some e, src) \<Rightarrow> (None, c, src)
                             | (encFrame, None, src) \<Rightarrow>
                                 (case Decrypt0RTTChunk cr (Derive0RTTKey cr (uk_psk matchedUser) (ss_serverID s) ts clientNonce) encFrame of
                                    Inl e \<Rightarrow> (None, c, src)
                                  | Inr openFramePlaintext \<Rightarrow>
                                      (case Decode0RTTOpenFrame openFramePlaintext of
                                         Inl e \<Rightarrow> (None, c, src)
                                       | Inr (targetAddr, initialPayload) \<Rightarrow>
                                           (Some \<lparr>v_user = matchedUser, v_nonce = clientNonce, v_ts = ts, v_target = targetAddr,
                                                  v_payload = initialPayload\<rparr>, c, src)))))))"

text \<open>Steps 8 to 10, after the replay cache has accepted the nonce: the ServerHello is sent and the keys are derived.\<close>

definition handshake_reply :: "crypto \<Rightarrow> stream_server \<Rightarrow> source \<Rightarrow> sink \<Rightarrow> validated \<Rightarrow> (bytes \<times> bytes) option \<times> source \<times> sink" where
  "handshake_reply cr s rnd snk v =
     (case CreatePolymorphicServerHello cr rnd (uk_psk (v_user v)) (ss_serverID s) (v_ts v) (v_nonce v) of
        (Inl e, rnd) \<Rightarrow> (None, rnd, snk)
      | (Inr (serverHelloRecord, serverNonce), rnd) \<Rightarrow>
          (case sink_write serverHelloRecord snk of
             (_, Some e, snk) \<Rightarrow> (None, rnd, snk)
           | (_, None, snk) \<Rightarrow>
               (Some (DeriveSessionKeys cr (uk_psk (v_user v)) (ss_serverID s) (v_ts v) (v_nonce v) serverNonce), rnd, snk)))"

subsection \<open>The client\<close>

text \<open>The first flight of \<open>dialRawStream\<close>: hello, length and sealed OPEN frame, without early data.\<close>

definition client_flight :: "crypto \<Rightarrow> source \<Rightarrow> bytes \<Rightarrow> bytes \<Rightarrow> int \<Rightarrow> bytes \<Rightarrow> (bytes \<times> bytes \<times> u64) result \<times> source" where
  "client_flight cr rnd psk serverID now target =
     (case CreatePolymorphicClientHello cr rnd psk serverID (unix now) of
        (Inl e, rnd) \<Rightarrow> (Inl e, rnd)
      | (Inr (clientHello, clientNonce, ts), rnd) \<Rightarrow>
          (case Encode0RTTOpenFrame rnd target [] 32 256 of
             (Inl e, rnd) \<Rightarrow> (Inl e, rnd)
           | (Inr openFramePlaintext, rnd) \<Rightarrow>
               let encrypted0RTT = Encrypt0RTTChunk cr (Derive0RTTKey cr psk serverID ts clientNonce) openFramePlaintext;
                   wireLen = length encrypted0RTT
               in (Inr (clientHello @ putUint16 (word_of_nat wireLen) @ encrypted0RTT, clientNonce, ts), rnd)))"

definition dialRawStream ::
  "crypto \<Rightarrow> source \<Rightarrow> bytes \<Rightarrow> bytes \<Rightarrow> int \<Rightarrow> bytes \<Rightarrow> sink \<Rightarrow> source \<Rightarrow> (bytes \<times> bytes) result \<times> sink \<times> source" where
  "dialRawStream cr rnd psk serverID now target snk src =
     (case client_flight cr rnd psk serverID now target of
        (Inl e, rnd) \<Rightarrow> (Inl e, snk, src)
      | (Inr (flight1, clientNonce, ts), rnd) \<Rightarrow>
          (case sink_write flight1 snk of
             (_, Some e, snk) \<Rightarrow> (Inl e, snk, src)
           | (_, None, snk) \<Rightarrow>
               (case ReadAndVerifyPolymorphicServerHello cr src psk serverID ts clientNonce of
                  (Inl e, src) \<Rightarrow> (Inl e, snk, src)
                | (Inr serverNonce, src) \<Rightarrow>
                    (Inr (DeriveSessionKeys cr psk serverID ts clientNonce serverNonce), snk, src))))"

subsection \<open>The server reads what the client sends\<close>

lemma single_hello_accepted:
  assumes "crypto_ok cr" "CreatePolymorphicClientHello cr rnd psk serverID now = (Inr (rcd, nonce, ts), rnd')"
    and "\<bar>int64_diff now' now\<bar> \<le> 90" "src_clean src" "src_bytes src = rcd @ rest"
  shows "\<exists>src'. ReadAndVerifyPolymorphicClientHello cr src psk serverID now' = (Inr (nonce, now), src') \<and> src_clean src' \<and> src_bytes src' = rest"
proof -
  obtain pad where c: "length nonce = 24" "length pad \<le> MaxPolymorphicPadding" and l: "32 \<le> length psk"
    and rec: "rcd = ((word_of_nat (length pad) XOR fst (DerivePolymorphicMasks cr psk serverID)) #
       xor_bytes (putUint64 now) (deriveTimestampMask cr psk nonce) @ nonce @
       client_tag cr psk serverID (putUint64 now) nonce [word_of_nat (length pad)]) @ pad" (is "_ = ?h @ pad")
    by (rule CreatePolymorphicClientHello_ok [OF assms(2)])
  note f = client_header_fields [OF assms(1) c, of psk serverID now]
  obtain s1 where s1: "readFull 49 src = (?h, None, s1)" "src_clean s1" "src_bytes s1 = pad @ rest"
    by (rule readFull_append_clean [OF assms(4), of ?h "pad @ rest" 49]) (use assms(5) rec f(1) in auto)
  have "hello_ok cr ?h psk serverID now'"
    using f assms(3) by (auto simp: hello_ok_def raw_expired_def raw_MaxTimestampSkew_def Let_def)
  then have "match_single cr ?h psk serverID now' = Inr (hello_result cr ?h psk serverID 0)" using match_single_iff [OF l] by blast
  then have "MatchPolymorphicClientHelloHeader cr ?h [psk] serverID now' = Inr (hello_result cr ?h psk serverID 0)"
    using f(1) by (simp add: MatchPolymorphicClientHelloHeader_def)
  then show ?thesis
    using read_padding_clean [OF s1(2,3), of "hello_result cr ?h psk serverID 0"] s1(1) f l
    by (auto simp: ReadAndVerifyPolymorphicClientHello_def ReadAndMatchPolymorphicClientHello_def hello_result_def)
qed

text \<open>What a configured server knows about its users.\<close>

lemma NewStreamServerWithUsers_ok:
  assumes "NewStreamServerWithUsers cr trim lower users serverID = Inr s"
  obtains m where "NewPreparedClientHelloMatcher cr (map uk_psk users) serverID = Inr m" "ss_matcher s = Some m" "ss_serverID s = serverID"
    "ss_users s = map (\<lambda>u. u\<lparr>uk_email := trim (uk_email u)\<rparr>) users" "ss_psk s = (if length users = 1 then uk_psk (users ! 0) else [])"
    "users \<noteq> []"
proof -
  have "ValidateUserKeys trim lower users = None" using assms by (auto simp: NewStreamServerWithUsers_def split: option.splits)
  then have ne: "users \<noteq> []" by (auto simp: ValidateUserKeys_def split: if_splits)
  obtain m where "NewPreparedClientHelloMatcher cr (map uk_psk users) serverID = Inr m"
    "ss_matcher s = Some m" "ss_serverID s = serverID" "ss_users s = map (\<lambda>u. u\<lparr>uk_email := trim (uk_email u)\<rparr>) users"
    "ss_psk s = (if length users = 1 then uk_psk (users ! 0) else [])"
    using assms by (auto simp: NewStreamServerWithUsers_def copyUserKeys_def split: option.splits sum.splits)
  then show thesis using that ne by blast
qed

lemma read_hello_created:
  assumes "crypto_ok cr" "NewStreamServerWithUsers cr trim lower users serverID = Inr s" "i < length users"
    and "CreatePolymorphicClientHello cr rnd (uk_psk (users ! i)) serverID (unix now) = (Inr (rcd, nonce, ts), rnd')"
    and "\<And>j. j < i \<Longrightarrow> \<not> hello_ok cr (take 49 rcd) (uk_psk (users ! j)) serverID (unix now1)"
    and "\<bar>int64_diff (unix now1) (unix now)\<bar> \<le> 90" "src_clean src" "src_bytes src = rcd @ rest"
  shows "\<exists>src'. read_hello cr s now1 src = (Inr (ss_users s ! i, nonce, unix now), src') \<and> src_clean src' \<and> src_bytes src' = rest"
proof -
  obtain m where m: "NewPreparedClientHelloMatcher cr (map uk_psk users) serverID = Inr m" "ss_matcher s = Some m" "ss_serverID s = serverID"
    "ss_users s = map (\<lambda>u. u\<lparr>uk_email := trim (uk_email u)\<rparr>) users" "ss_psk s = (if length users = 1 then uk_psk (users ! 0) else [])"
    "users \<noteq> []" by (rule NewStreamServerWithUsers_ok [OF assms(2)])
  have psk: "32 \<le> length (uk_psk (users ! i))" by (rule CreatePolymorphicClientHello_ok [OF assms(4)])
  show ?thesis
  proof (cases "length users = 1")
    case True
    then have i: "i = 0" using assms(3) by simp
    obtain src' where "ReadAndVerifyPolymorphicClientHello cr src (uk_psk (users ! i)) serverID (unix now1) = (Inr (nonce, unix now), src')"
        "src_clean src'" "src_bytes src' = rest"
      using single_hello_accepted [OF assms(1,4,6,7,8)] by blast
    then show ?thesis using True i m psk by (auto simp: read_hello_def)
  next
    case False
    then have "ss_psk s = []" using m by simp
    moreover have "\<exists>src'. ReadAndMatch cr m src (unix now1) = (Inr (i, nonce, unix now), src') \<and> src_clean src' \<and> src_bytes src' = rest"
      by (rule raw_client_hello_accepted [OF assms(1,4) m(1)]) (use assms(3,5-8) in auto)
    ultimately show ?thesis using m assms(3) by (auto simp: read_hello_def)
  qed
qed

lemma raw_encode_length: "raw_encodeTargetAddress a = Inr w \<Longrightarrow> length w \<le> 259"
proof -
  assume "raw_encodeTargetAddress a = Inr w"
  then obtain host port h where p: "encodeHost ''invalid domain length'' host = Inr h" "w = h @ putUint16 port"
    by (rule raw_encode_parts)
  from p(1) have "length h \<le> 257" by (cases rule: encodeHost_cases) auto
  then show ?thesis using p(2) by simp
qed

lemma open_frame_length:
  assumes "Encode0RTTOpenFrame rnd target [] 32 256 = (Inr pt, rnd')"
  shows "2 \<le> length pt" "length pt \<le> 517"
proof -
  obtain w padding where "raw_encodeTargetAddress target = Inr w" "length padding \<le> 256"
    "pt = putUint16 (word_of_nat (length padding)) @ padding @ w @ []" by (rule open_frame_encoded [OF assms])
  then show "2 \<le> length pt" "length pt \<le> 517" using raw_encode_length [of target w] by simp_all
qed

lemma client_flight_parts:
  assumes "crypto_ok cr" "client_flight cr rnd psk serverID now target = (Inr (flight, nonce, ts), rnd')"
  obtains rcd rnd1 pt rnd2 where "CreatePolymorphicClientHello cr rnd psk serverID (unix now) = (Inr (rcd, nonce, ts), rnd1)"
    "Encode0RTTOpenFrame rnd1 target [] 32 256 = (Inr pt, rnd2)"
    "flight = rcd @ putUint16 (word_of_nat (length pt + 16)) @ Encrypt0RTTChunk cr (Derive0RTTKey cr psk serverID ts nonce) pt"
    "ts = unix now"
proof -
  obtain rcd n t rnd1 where c: "CreatePolymorphicClientHello cr rnd psk serverID (unix now) = (Inr (rcd, n, t), rnd1)"
    using assms(2) by (auto simp: client_flight_def split: sum.splits prod.splits)
  obtain pt rnd2 where e: "Encode0RTTOpenFrame rnd1 target [] 32 256 = (Inr pt, rnd2)"
    using assms(2) c by (auto simp: client_flight_def split: sum.splits prod.splits)
  have l: "length (Encrypt0RTTChunk cr k pt) = length pt + 16" for k
    using crypto_ok_simps(5) [OF assms(1)] by (simp add: Encrypt0RTTChunk_def)
  let ?enc = "Encrypt0RTTChunk cr (Derive0RTTKey cr psk serverID t n) pt"
  have r0: "n = nonce" "t = ts" "flight = rcd @ putUint16 (word_of_nat (length ?enc)) @ ?enc"
    using assms(2) c e by (auto simp: client_flight_def Let_def)
  note r = r0(1,2) r0(3) [unfolded l]
  have "t = unix now" by (rule CreatePolymorphicClientHello_ok [OF c])
  then show thesis using that [OF c [unfolded r(1,2)] e] r by simp
qed

lemma handshake_open_flight:
  assumes "crypto_ok cr" "NewStreamServerWithUsers cr trim lower users serverID = Inr s" "i < length users"
    and "client_flight cr rnd (uk_psk (users ! i)) serverID now target = (Inr (flight, nonce, ts), rnd')"
    and "\<And>j. j < i \<Longrightarrow> \<not> hello_ok cr (take 49 flight) (uk_psk (users ! j)) serverID (unix now1)"
    and "\<bar>int64_diff (unix now1) (unix now)\<bar> \<le> 90" "src_clean src" "src_bytes src = flight @ rest"
    and "raw_encodeTargetAddress target = Inr w" "7 \<le> length w" "ReplayCache_Check (hex_encode nonce) now2 c = (False, c')"
  shows "\<exists>src'. handshake_open cr s now1 now2 c src =
      (Some \<lparr>v_user = ss_users s ! i, v_nonce = nonce, v_ts = unix now, v_target = canonAddr target, v_payload = []\<rparr>, c', src') \<and>
    src_clean src' \<and> src_bytes src' = rest"
proof -
  let ?psk = "uk_psk (users ! i)"
  obtain rcd rnd1 pt rnd2 where f: "CreatePolymorphicClientHello cr rnd ?psk serverID (unix now) = (Inr (rcd, nonce, ts), rnd1)"
    "Encode0RTTOpenFrame rnd1 target [] 32 256 = (Inr pt, rnd2)"
    "flight = rcd @ putUint16 (word_of_nat (length pt + 16)) @ Encrypt0RTTChunk cr (Derive0RTTKey cr ?psk serverID ts nonce) pt"
    "ts = unix now" by (rule client_flight_parts [OF assms(1,4)])
  let ?len = "putUint16 (word_of_nat (length pt + 16))" and ?enc = "Encrypt0RTTChunk cr (Derive0RTTKey cr ?psk serverID ts nonce) pt"
  obtain pad where rec: "length nonce = 24" "length pad \<le> MaxPolymorphicPadding"
    "rcd = ((word_of_nat (length pad) XOR fst (DerivePolymorphicMasks cr ?psk serverID)) #
       xor_bytes (putUint64 (unix now)) (deriveTimestampMask cr ?psk nonce) @ nonce @
       client_tag cr ?psk serverID (putUint64 (unix now)) nonce [word_of_nat (length pad)]) @ pad"
    by (rule CreatePolymorphicClientHello_ok [OF f(1)])
  have "49 \<le> length rcd" using client_header_fields(1) [OF assms(1) rec(1,2), of ?psk serverID "unix now"] rec(3) by simp
  then have t: "take 49 flight = take 49 rcd" using f(3) by simp
  have us: "ss_serverID s = serverID" "ss_users s = map (\<lambda>u. u\<lparr>uk_email := trim (uk_email u)\<rparr>) users"
    by (rule NewStreamServerWithUsers_ok [OF assms(2)]; simp)+
  have "src_bytes src = rcd @ (?len @ ?enc @ rest)" using assms(8) f(3) by simp
  then obtain s1 where s1: "read_hello cr s now1 src = (Inr (ss_users s ! i, nonce, unix now), s1)" "src_clean s1" "src_bytes s1 = ?len @ ?enc @ rest"
    using read_hello_created [OF assms(1-3) f(1) _ assms(6,7)] assms(5) t by auto
  obtain s2 where s2: "readFull 2 s1 = (?len, None, s2)" "src_clean s2" "src_bytes s2 = ?enc @ rest"
    by (rule readFull_append_clean [OF s1(2,3)]) simp
  have le: "length ?enc = length pt + 16" using crypto_ok_simps(5) [OF assms(1)] by (simp add: Encrypt0RTTChunk_def)
  obtain s3 where s3: "readFull (length pt + 16) s2 = (?enc, None, s3)" "src_clean s3" "src_bytes s3 = rest"
    by (rule readFull_append_clean [OF s2(2,3)]) (simp add: le)
  have pl: "2 \<le> length pt" "length pt \<le> 517" by (rule open_frame_length [OF f(2)])+
  have ne: "pt \<noteq> []" using pl(1) by auto
  have wl: "unat (getUint16 ?len) = length pt + 16"
  proof -
    have "unat (word_of_nat k :: u16) = k" if "k < 65536" for k using that by (simp add: unat_of_nat)
    from this [of "length pt + 16"] show ?thesis using pl(2) by (simp del: of_nat_add)
  qed
  have op: "Decrypt0RTTChunk cr (Derive0RTTKey cr ?psk serverID ts nonce) ?enc = Inr pt"
    by (simp add: Decrypt0RTTChunk_def Encrypt0RTTChunk_def crypto_ok_simps [OF assms(1)])
  have de: "Decode0RTTOpenFrame pt = Inr (canonAddr target, [])"
    using open_frame_roundtrip [OF assms(1) f(2) assms(9), of "Derive0RTTKey cr ?psk serverID ts nonce"] assms(10) op by simp
  have psk: "uk_psk (ss_users s ! i) = ?psk" using us(2) assms(3) by simp
  have "handshake_open cr s now1 now2 c src =
      (Some \<lparr>v_user = ss_users s ! i, v_nonce = nonce, v_ts = unix now, v_target = canonAddr target, v_payload = []\<rparr>, c', s3)"
    using s1(1) s2(1) s3(1) wl pl ne op de psk us(1) assms(11) f(4) unfolding handshake_open_def Let_def
    by (simp add: MaxChunkWireLen_def del: of_nat_add)
  then show ?thesis using s3 by blast
qed

text \<open>
  C18: Client and server establish a session. Let a server configured with users be dialled by a client that has the key of
  user \<open>i\<close>, for a destination whose encoding has at least 7 bytes, with clocks at most 90 seconds apart, an
  unused nonce and no earlier user's key authenticating the same hello. Then the server, however the network splits
  the flight, attributes the connection to user \<open>i\<close>, opens the destination the client asked for
  (in canonical spelling) and leaves what follows the flight unread; and for every ServerHello it sends, the client's
  dial returns, with exactly the session keys the server derived, and leaves what follows the hello unread.
\<close>

theorem raw_session_established:
  assumes "crypto_ok cr" "NewStreamServerWithUsers cr trim lower users serverID = Inr s" "i < length users"
    and "client_flight cr rnd (uk_psk (users ! i)) serverID now target = (Inr (flight, nonce, ts), rnd')"
    and "\<And>j. j < i \<Longrightarrow> \<not> hello_ok cr (take 49 flight) (uk_psk (users ! j)) serverID (unix now1)"
    and "\<bar>int64_diff (unix now1) (unix now)\<bar> \<le> 90" "src_clean src" "src_bytes src = flight @ rest"
    and "raw_encodeTargetAddress target = Inr w" "7 \<le> length w" "ReplayCache_Check (hex_encode nonce) now2 c = (False, c')"
  shows "\<exists>v src'. handshake_open cr s now1 now2 c src = (Some v, c', src') \<and> src_clean src' \<and> src_bytes src' = rest \<and>
    v_user v = ss_users s ! i \<and> v_nonce v = nonce \<and> v_ts v = unix now \<and> v_target v = canonAddr target \<and> v_payload v = [] \<and>
    (\<forall>srnd srnd' keys snk' src2 rest2 csnk. handshake_reply cr s srnd \<lparr>snk_out = [], snk_resp = []\<rparr> v = (Some keys, srnd', snk') \<and>
       src_clean src2 \<and> src_bytes src2 = snk_out snk' @ rest2 \<and> sink_ok csnk \<longrightarrow>
       (\<exists>src2'. dialRawStream cr rnd (uk_psk (users ! i)) serverID now target csnk src2 =
           (Inr keys, csnk\<lparr>snk_out := snk_out csnk @ flight\<rparr>, src2') \<and> src_clean src2' \<and> src_bytes src2' = rest2))"
proof -
  let ?psk = "uk_psk (users ! i)"
  define v where "v = \<lparr>v_user = ss_users s ! i, v_nonce = nonce, v_ts = unix now, v_target = canonAddr target, v_payload = []\<rparr>"
  obtain src' where o: "handshake_open cr s now1 now2 c src = (Some v, c', src')" "src_clean src'" "src_bytes src' = rest"
    using handshake_open_flight [OF assms] unfolding v_def by blast
  have us: "ss_serverID s = serverID" "uk_psk (ss_users s ! i) = ?psk"
    by (rule NewStreamServerWithUsers_ok [OF assms(2)]; use assms(3) in simp)+
  have ts: "ts = unix now" by (rule client_flight_parts [OF assms(1,4)])
  have "\<exists>src2'. dialRawStream cr rnd ?psk serverID now target csnk src2 =
           (Inr keys, csnk\<lparr>snk_out := snk_out csnk @ flight\<rparr>, src2') \<and> src_clean src2' \<and> src_bytes src2' = rest2"
    if r: "handshake_reply cr s srnd \<lparr>snk_out = [], snk_resp = []\<rparr> v = (Some keys, srnd', snk')"
      and h: "src_clean src2" "src_bytes src2 = snk_out snk' @ rest2" "sink_ok csnk" for srnd srnd' keys snk' src2 rest2 csnk
  proof -
    obtain hello sn rnd1 where sh: "CreatePolymorphicServerHello cr srnd ?psk serverID (unix now) nonce = (Inr (hello, sn), rnd1)"
        "snk_out snk' = hello" "keys = DeriveSessionKeys cr ?psk serverID (unix now) nonce sn"
      using r us by (auto simp: handshake_reply_def v_def sink_write_def split: sum.splits prod.splits)
    obtain src2' where "ReadAndVerifyPolymorphicServerHello cr src2 ?psk serverID (unix now) nonce = (Inr sn, src2')"
        "src_clean src2'" "src_bytes src2' = rest2"
      using raw_server_hello_accepted [OF assms(1) sh(1) h(1)] h(2) sh(2) by blast
    then show ?thesis using assms(4) ts h(3) sh(3) by (simp add: dialRawStream_def)
  qed
  then show ?thesis using o by (intro exI [of _ v] exI [of _ src']) (auto simp: v_def)
qed

theorem raw_session_established_witness:
  "\<exists>s flight nonce ts rnd' v src'.
     NewStreamServerWithUsers toy_crypto id id [\<lparr>uk_email = [97], uk_psk = replicate 32 1, uk_level = 0\<rparr>,
       \<lparr>uk_email = [98], uk_psk = replicate 40 2, uk_level = 0\<rparr>] [4] = Inr s \<and>
     client_flight toy_crypto [(replicate 400 0, None)] (replicate 32 1) [4] 500000000000 (lit ''abc:80'') = (Inr (flight, nonce, ts), rnd') \<and>
     handshake_open toy_crypto s 580000000000 580000000000 NewReplayCache [(take 20 flight, None), (drop 20 flight, None), ([9], None)] = (Some v, NewReplayCache, src') \<and>
     v_target v = lit ''abc:80'' \<and> src_bytes src' = [9]"
proof -
  let ?us = "[\<lparr>uk_email = [97], uk_psk = replicate 32 1, uk_level = 0\<rparr>, \<lparr>uk_email = [98], uk_psk = replicate 40 2, uk_level = 0\<rparr>]"
  let ?n = "NewStreamServerWithUsers toy_crypto id id ?us [4]"
  let ?f = "client_flight toy_crypto [(replicate 400 0, None)] (replicate 32 1) [4] 500000000000 (lit ''abc:80'')"
  have "\<not> isl ?n" "\<not> isl (fst ?f)" by code_simp+
  then obtain s flight nonce ts rnd' where n: "?n = Inr s" and f: "?f = (Inr (flight, nonce, ts), rnd')"
    by (metis prod.collapse sum.collapse(2))
  have w: "raw_encodeTargetAddress (lit ''abc:80'') = Inr [3, 3, 97, 98, 99, 0, 80]" by code_simp
  have c: "canonAddr (lit ''abc:80'') = lit ''abc:80''" "int64_diff (unix 580000000000) (unix 500000000000) = 80" by code_simp+
  have rc: "ReplayCache_Check (hex_encode nonce) 580000000000 NewReplayCache = (False, NewReplayCache)"
    by (simp add: ReplayCache_Check_def rc_purge_def NewReplayCache_def purge_loop.simps)
  have f0: "client_flight toy_crypto [(replicate 400 0, None)] (uk_psk (?us ! 0)) [4] 500000000000 (lit ''abc:80'') = (Inr (flight, nonce, ts), rnd')"
    using f by simp
  obtain v src' where "handshake_open toy_crypto s 580000000000 580000000000 NewReplayCache [(take 20 flight, None), (drop 20 flight, None), ([9], None)] = (Some v, NewReplayCache, src')"
      "src_bytes src' = [9]" "v_target v = canonAddr (lit ''abc:80'')"
    using raw_session_established [OF toy_crypto_ok n _ f0 _ _ _ _ w _ rc, of 580000000000 "[(take 20 flight, None), (drop 20 flight, None), ([9], None)]" "[9]"] c(2) by auto
  then show ?thesis using n f c(1) by auto
qed

subsection \<open>Concurrent connections\<close>

text \<open>
  A run of the server: the replay cache with its callers (\<open>sw_rc\<close>), the connections that have opened their
  flight but not committed (with the time of the hello check), those waiting for the commit, and the
  established ones with the time of their \<open>Accept\<close>. Steps of different connections interleave freely.
\<close>

record ss_world =
  sw_rc :: rc_world
  sw_pending :: "(validated \<times> int) list"
  sw_waiting :: "(u64 \<times> validated \<times> int \<times> int) list"
  sw_established :: "(validated \<times> int \<times> int) list"

inductive ss_run :: "crypto \<Rightarrow> stream_server \<Rightarrow> replay_cache \<Rightarrow> int \<Rightarrow> ss_world \<Rightarrow> bool" for cr s c0 now0 where
  srv_start: "ss_run cr s c0 now0 \<lparr>sw_rc = \<lparr>w_cache = c0, w_now = now0, w_waiting = [], w_promised = [], w_calls = 0\<rparr>,
    sw_pending = [], sw_waiting = [], sw_established = []\<rparr>"
| srv_open: "ss_run cr s c0 now0 w \<Longrightarrow> w_now (sw_rc w) \<le> now1 \<Longrightarrow> now1 \<le> now2 \<Longrightarrow>
    handshake_open cr s now1 now2 (w_cache (sw_rc w)) src = (r, c, src') \<Longrightarrow>
    ss_run cr s c0 now0 (w\<lparr>sw_rc := (sw_rc w)\<lparr>w_cache := c, w_now := now2\<rparr>,
      sw_pending := (case r of None \<Rightarrow> sw_pending w | Some v \<Rightarrow> (v, now1) # sw_pending w)\<rparr>)"
| srv_accept: "ss_run cr s c0 now0 w \<Longrightarrow> (v, now1) \<in> set (sw_pending w) \<Longrightarrow> w_now (sw_rc w) \<le> now \<Longrightarrow>
    accept_begin env wr (hex_encode (v_nonce v)) now (w_cache (sw_rc w)) = (r, c) \<Longrightarrow>
    ss_run cr s c0 now0 (w\<lparr>sw_rc := after_begin (hex_encode (v_nonce v)) now r c (sw_rc w), sw_pending := remove1 (v, now1) (sw_pending w),
      sw_waiting := (case r of Waiting tx \<Rightarrow> (tx, v, now1, now) # sw_waiting w | _ \<Rightarrow> sw_waiting w),
      sw_established := (case r of Returned ok e \<Rightarrow> (if ok then (v, now1, now) # sw_established w else sw_established w) | _ \<Rightarrow> sw_established w)\<rparr>)"
| srv_committed: "ss_run cr s c0 now0 w \<Longrightarrow> (tx, v, now1, t) \<in> set (sw_waiting w) \<Longrightarrow> accept_finish tx (w_cache (sw_rc w)) = Some (ok, e) \<Longrightarrow>
    ss_run cr s c0 now0 (w\<lparr>sw_rc := (sw_rc w)\<lparr>w_waiting := remove1 (tx, hex_encode (v_nonce v), t) (w_waiting (sw_rc w)),
        w_promised := (if ok then (hex_encode (v_nonce v), t) # w_promised (sw_rc w) else w_promised (sw_rc w))\<rparr>,
      sw_waiting := remove1 (tx, v, now1, t) (sw_waiting w),
      sw_established := (if ok then (v, now1, t) # sw_established w else sw_established w)\<rparr>)"
| srv_tick: "ss_run cr s c0 now0 w \<Longrightarrow> ss_run cr s c0 now0 (w\<lparr>sw_rc := (sw_rc w)\<lparr>w_cache := commit_tick sync (w_cache (sw_rc w))\<rparr>\<rparr>)"

text \<open>An opened flight was authenticated and fresh.\<close>

definition hello_fresh :: "validated \<Rightarrow> int \<Rightarrow> bool" where
  "hello_fresh v now1 \<longleftrightarrow> \<bar>int64_diff (unix now1) (v_ts v)\<bar> \<le> 90"

lemma read_padding_InrD: "read_padding res src = (Inr (i, n, ts), src') \<Longrightarrow> \<exists>m. res = Inr m \<and> hm_index m = i \<and> hm_nonce m = n \<and> hm_timestamp m = ts"
  by (auto simp: read_padding_def split: sum.splits if_splits prod.splits option.splits)

lemma match_loop_fresh: "match_loop cr header sid now i ex keys = Inr m \<Longrightarrow> \<bar>int64_diff now (hm_timestamp m)\<bar> \<le> 90"
  by (induction keys arbitrary: i ex)
    (auto simp: raw_expired_def raw_MaxTimestampSkew_def Let_def split: if_splits)

lemma prepared_loop_fresh: "prepared_loop cr header sid now i ex keys = Inr m \<Longrightarrow> \<bar>int64_diff now (hm_timestamp m)\<bar> \<le> 90"
  by (induction keys arbitrary: i ex rule: list.induct)
    (auto simp: raw_expired_def raw_MaxTimestampSkew_def Let_def split: if_splits)

lemma read_hello_fresh:
  assumes "read_hello cr s now src = (Inr (u, n, ts), src')"
  shows "\<bar>int64_diff (unix now) ts\<bar> \<le> 90"
proof (cases "ss_psk s \<noteq> [] \<and> length (ss_users s) \<le> 1")
  case True
  then have "fst (ReadAndVerifyPolymorphicClientHello cr src (ss_psk s) (ss_serverID s) (unix now)) = Inr (n, ts)"
    using assms by (auto simp: read_hello_def split: sum.splits prod.splits)
  then obtain m header where "MatchPolymorphicClientHelloHeader cr header [ss_psk s] (ss_serverID s) (unix now) = Inr m" "hm_timestamp m = ts"
    by (auto simp: ReadAndVerifyPolymorphicClientHello_def ReadAndMatchPolymorphicClientHello_def
        split: if_splits sum.splits prod.splits option.splits dest!: read_padding_InrD)
  then show ?thesis
    by (auto simp: MatchPolymorphicClientHelloHeader_def match_single_def raw_expired_def raw_MaxTimestampSkew_def Let_def
        split: if_splits)
next
  case False
  then obtain m i s' where "ReadAndMatch cr m src (unix now) = (Inr (i, n, ts), s')"
    using assms by (auto simp: read_hello_def split: sum.splits prod.splits option.splits if_splits)
  then obtain r header where "MatchHeader cr m header (unix now) = Inr r" "hm_timestamp r = ts"
    by (auto simp: ReadAndMatch_def split: prod.splits option.splits dest!: read_padding_InrD)
  then show ?thesis using prepared_loop_fresh by (auto simp: MatchHeader_def split: if_splits)
qed

lemma handshake_open_cache:
  assumes "handshake_open cr s now1 now2 c src = (r, c', src')"
  shows "c' = c \<or> (\<exists>n b. ReplayCache_Check n now2 c = (b, c'))"
  using assms by (auto simp: handshake_open_def Let_def split: sum.splits prod.splits bool.splits option.splits if_splits)

lemma handshake_open_fresh:
  assumes "handshake_open cr s now1 now2 c src = (Some v, c', src')"
  shows "hello_fresh v now1"
proof -
  obtain h s1 where h: "read_hello cr s now1 src = (h, s1)" by fastforce
  obtain u n where "h = Inr (u, n, v_ts v)"
    using assms h by (auto simp: handshake_open_def Let_def split: sum.splits prod.splits bool.splits option.splits if_splits)
  then show ?thesis using read_hello_fresh [of cr s now1 src u n "v_ts v" s1] h by (simp add: hello_fresh_def)
qed

definition ss_inv :: "replay_cache \<Rightarrow> int \<Rightarrow> ss_world \<Rightarrow> bool" where
  "ss_inv c0 now0 w \<longleftrightarrow> rc_run c0 now0 (sw_rc w) \<and> now0 \<le> w_now (sw_rc w) \<and>
     mset (map (\<lambda>(tx, v, now1, t). (tx, hex_encode (v_nonce v), t)) (sw_waiting w)) = mset (w_waiting (sw_rc w)) \<and>
     mset (map (\<lambda>(v, now1, t). (hex_encode (v_nonce v), t)) (sw_established w)) = mset (w_promised (sw_rc w)) \<and>
     (\<forall>(v, now1) \<in> set (sw_pending w). hello_fresh v now1 \<and> now0 \<le> now1 \<and> now1 \<le> w_now (sw_rc w)) \<and>
     (\<forall>(tx, v, now1, t) \<in> set (sw_waiting w). hello_fresh v now1 \<and> now0 \<le> now1 \<and> now1 \<le> t) \<and>
     (\<forall>(v, now1, t) \<in> set (sw_established w). hello_fresh v now1 \<and> now0 \<le> now1 \<and> now1 \<le> t)"

lemma mset_map_remove1: "x \<in> set xs \<Longrightarrow> mset (map f (remove1 x xs)) = mset (map f xs) - {#f x#}"
  by (simp add: image_mset_Diff)

lemma ss_inv_open:
  assumes "ss_inv c0 now0 w" "w_now (sw_rc w) \<le> now1" "now1 \<le> now2"
    "handshake_open cr s now1 now2 (w_cache (sw_rc w)) src = (r, c, src')"
  shows "ss_inv c0 now0 (w\<lparr>sw_rc := (sw_rc w)\<lparr>w_cache := c, w_now := now2\<rparr>,
      sw_pending := (case r of None \<Rightarrow> sw_pending w | Some v \<Rightarrow> (v, now1) # sw_pending w)\<rparr>)"
proof -
  have r: "rc_run c0 now0 (sw_rc w)" using assms(1) by (simp add: ss_inv_def)
  have le: "w_now (sw_rc w) \<le> now2" using assms(2,3) by simp
  have "rc_run c0 now0 ((sw_rc w)\<lparr>w_cache := c, w_now := now2\<rparr>)"
    using handshake_open_cache [OF assms(4)] rc_run.run_check [OF r le] rc_run.run_wait [OF r le] by auto
  then show ?thesis
    using assms(1-4) handshake_open_fresh [of cr s now1 now2 _ src] by (cases r) (auto simp: ss_inv_def)
qed

lemma ss_inv_accept:
  assumes "ss_inv c0 now0 w" "(v, now1) \<in> set (sw_pending w)" "w_now (sw_rc w) \<le> now"
    "accept_begin env wr (hex_encode (v_nonce v)) now (w_cache (sw_rc w)) = (r, c)"
  shows "ss_inv c0 now0 (w\<lparr>sw_rc := after_begin (hex_encode (v_nonce v)) now r c (sw_rc w), sw_pending := remove1 (v, now1) (sw_pending w),
      sw_waiting := (case r of Waiting tx \<Rightarrow> (tx, v, now1, now) # sw_waiting w | _ \<Rightarrow> sw_waiting w),
      sw_established := (case r of Returned ok e \<Rightarrow> (if ok then (v, now1, now) # sw_established w else sw_established w) | _ \<Rightarrow> sw_established w)\<rparr>)"
proof -
  have r: "rc_run c0 now0 (sw_rc w)" using assms(1) by (simp add: ss_inv_def)
  have f: "hello_fresh v now1" "now0 \<le> now1" "now1 \<le> now" using assms(1-3) by (auto simp: ss_inv_def)
  have p: "\<forall>(v, now1) \<in> set (remove1 (v, now1) (sw_pending w)). hello_fresh v now1 \<and> now0 \<le> now1 \<and> now1 \<le> now"
  proof -
    have "\<forall>(v, now1) \<in> set (sw_pending w). hello_fresh v now1 \<and> now0 \<le> now1 \<and> now1 \<le> now" using assms(1,3) by (auto simp: ss_inv_def)
    then show ?thesis using set_remove1_subset [of "(v, now1)" "sw_pending w"] by blast
  qed
  note i = assms(1) [unfolded ss_inv_def]
  have n: "now0 \<le> now" using f by simp
  note run = rc_run.run_begin [OF r assms(3,4)]
  show ?thesis
  proof (cases r)
    case (Waiting tx)
    then show ?thesis using run f p n i by (simp add: ss_inv_def after_begin_def)
  next
    case (Returned ok e)
    then show ?thesis using run f p n i by (cases ok) (simp_all add: ss_inv_def after_begin_def)
  qed
qed

lemma ss_inv_committed:
  assumes "ss_inv c0 now0 w" "(tx, v, now1, t) \<in> set (sw_waiting w)" "accept_finish tx (w_cache (sw_rc w)) = Some (ok, e)"
  shows "ss_inv c0 now0 (w\<lparr>sw_rc := (sw_rc w)\<lparr>w_waiting := remove1 (tx, hex_encode (v_nonce v), t) (w_waiting (sw_rc w)),
        w_promised := (if ok then (hex_encode (v_nonce v), t) # w_promised (sw_rc w) else w_promised (sw_rc w))\<rparr>,
      sw_waiting := remove1 (tx, v, now1, t) (sw_waiting w),
      sw_established := (if ok then (v, now1, t) # sw_established w else sw_established w)\<rparr>)"
proof -
  let ?f = "\<lambda>(tx, v, now1, t). (tx, hex_encode (v_nonce v), t)"
  have r: "rc_run c0 now0 (sw_rc w)" and m: "mset (map ?f (sw_waiting w)) = mset (w_waiting (sw_rc w))" using assms(1) by (simp_all add: ss_inv_def)
  have "?f (tx, v, now1, t) \<in> set (map ?f (sw_waiting w))" unfolding set_map using assms(2) by (rule imageI)
  then have i: "(tx, hex_encode (v_nonce v), t) \<in> set (w_waiting (sw_rc w))" using m by (metis (no_types, lifting) case_prod_conv set_mset_mset)
  have f: "hello_fresh v now1" "now0 \<le> now1" "now1 \<le> t" using assms(1,2) by (auto simp: ss_inv_def)
  have w: "\<forall>(tx, v, now1, t) \<in> set (remove1 (tx, v, now1, t) (sw_waiting w)). hello_fresh v now1 \<and> now0 \<le> now1 \<and> now1 \<le> t"
  proof -
    have "\<forall>(tx, v, now1, t) \<in> set (sw_waiting w). hello_fresh v now1 \<and> now0 \<le> now1 \<and> now1 \<le> t" using assms(1) by (simp add: ss_inv_def)
    then show ?thesis using set_remove1_subset [of "(tx, v, now1, t)" "sw_waiting w"] by blast
  qed
  note inv = assms(1) [unfolded ss_inv_def]
  have m': "mset (map ?f (remove1 (tx, v, now1, t) (sw_waiting w))) = mset (remove1 (tx, hex_encode (v_nonce v), t) (w_waiting (sw_rc w)))"
    using mset_map_remove1 [OF assms(2), of ?f] m by simp
  show ?thesis
    using rc_run.run_finish [OF r i assms(3)] f w m' inv by (cases ok) (simp_all add: ss_inv_def)
qed

lemma ss_run_inv: "ss_run cr s c0 now0 w \<Longrightarrow> ss_inv c0 now0 w"
proof (induction rule: ss_run.induct)
  case srv_start
  show ?case by (simp add: ss_inv_def rc_run.run_start)
next
  case (srv_tick w sync)
  then show ?case using rc_run.run_tick [of c0 now0 "sw_rc w" sync] by (simp add: ss_inv_def)
qed (rule ss_inv_open ss_inv_accept ss_inv_committed; assumption)+

text \<open>Two fresh checks of one timestamp more than 90 seconds apart: the first saw a timestamp from the future.\<close>

lemma timestamp_spread:
  fixes a b k :: int and ts :: u64
  assumes "\<bar>int64_diff (word_of_int a) ts\<bar> \<le> 90" "\<bar>int64_diff (word_of_int b) ts\<bar> \<le> 90" "0 \<le> a" "a + 90 + k \<le> b" "b < 2 ^ 63" "0 \<le> k"
  shows "int64_diff (word_of_int a) ts \<le> - k"
  using int64_diff_shift [of a b ts] assms by simp

text \<open>
  C19: A recorded handshake cannot be replayed to a server. Whatever connections run concurrently, with in-memory or persistent
  replay cache, group commits and failures of the cache: two connections are established with the same client
  nonce only when the later one is accepted at least 180 seconds after the earlier one. If it is a copy of the same hello (so it has the
  same timestamp) and the server enforced the two-second handshake deadline, that happens only when the hello
  was at least 88 seconds ahead of the server's clock when it was first accepted.
\<close>

theorem raw_replay_rejected:
  assumes "ss_run cr s c0 now0 w" "c0 = NewReplayCache \<or> OpenReplayCache now0 content None = Inr c0"
    and "{#(v, now1, t), (v', now1', t')#} \<subseteq># mset (sw_established w)" "v_nonce v = v_nonce v'" "t \<le> t'"
  shows "t + 2 * MaxClockSkew \<le> t' \<and>
    (v_ts v = v_ts v' \<and> 0 \<le> now0 \<and> t' - now1' \<le> 2 * second \<and> t' < 2 ^ 63 * second \<longrightarrow> int64_diff (unix now1) (v_ts v) \<le> - 88)"
proof -
  let ?f = "\<lambda>(v, now1, t). (hex_encode (v_nonce v), t)"
  note i = ss_run_inv [OF assms(1), unfolded ss_inv_def]
  have "table_ok NewReplayCache" by (simp add: table_ok_def NewReplayCache_def heap_ok_def)
  then have "table_ok c0" using assms(2) OpenReplayCache_loaded(1) by blast
  then have "once_inv (sw_rc w)" using i rc_run_once by blast
  then have sp: "spaced (mset (w_promised (sw_rc w)))" using spaced_subset [of "w_granted (sw_rc w)"] by (auto simp: once_inv_def w_granted_def)
  have "image_mset ?f {#(v, now1, t), (v', now1', t')#} \<subseteq># image_mset ?f (mset (sw_established w))"
    using assms(3) by (rule image_mset_subseteq_mono)
  also have "\<dots> = mset (w_promised (sw_rc w))" using i by simp
  finally have "{#(hex_encode (v_nonce v), t), (hex_encode (v_nonce v'), t')#} \<subseteq># mset (w_promised (sw_rc w))" by simp
  then have "far_apart (hex_encode (v_nonce v), t) (hex_encode (v_nonce v'), t')" using sp unfolding spaced_def by blast
  then have sep: "t + 2 * MaxClockSkew \<le> t'" using assms(4,5) by (simp add: far_apart_def)
  have "set_mset {#(v, now1, t), (v', now1', t')#} \<subseteq> set (sw_established w)" using set_mset_mono [OF assms(3)] by simp
  then have e: "(v, now1, t) \<in> set (sw_established w)" "(v', now1', t') \<in> set (sw_established w)" by simp_all
  have f: "hello_fresh v now1" "now0 \<le> now1" "now1 \<le> t" "hello_fresh v' now1'" "now1' \<le> t'" using i e by auto
  have "int64_diff (unix now1) (v_ts v) \<le> - 88"
    if h: "v_ts v = v_ts v'" "0 \<le> now0" "t' - now1' \<le> 2 * second" "t' < 2 ^ 63 * second"
  proof -
    have n: "now1 + 178 * second \<le> now1'" using f(3) h(3) sep by (simp add: MaxClockSkew_def)
    have "(now1 + 178 * second) div second \<le> now1' div second" using n by (rule zdiv_mono1) simp
    then have "now1 div second + 178 \<le> now1' div second" by simp
    moreover have "0 \<le> now1 div second" using h(2) f(2) by (simp add: pos_imp_zdiv_nonneg_iff)
    moreover have "now1' div second < 2 ^ 63" 
    proof -
      have "now1' div second * second \<le> now1'" by (simp add: minus_mod_eq_div_mult [symmetric])
      then show ?thesis using f(5) h(4) by linarith
    qed
    ultimately show ?thesis
      using timestamp_spread [of "now1 div second" "v_ts v" "now1' div second" 88] f(1,4) h(1) by (simp add: hello_fresh_def unix_def)
  qed
  then show ?thesis using sep by blast
qed

text \<open>The boundary is reached: a hello that is 90 seconds ahead, sent again 180 seconds after it was accepted, is accepted again.\<close>

definition replay_seen :: "bytes \<Rightarrow> int \<Rightarrow> replay_cache" where
  "replay_seen n t = NewReplayCache\<lparr>rc_expires := [(n, t)], rc_queue := [(n, t)]\<rparr>"

lemma replay_seen_steps:
  "ReplayCache_Check n now NewReplayCache = (False, NewReplayCache)"
  "ReplayCache_Check n t (replay_seen n t) = (False, NewReplayCache)"
  "accept_begin demo_env None n now NewReplayCache = (Returned True None, replay_seen n (now + 2 * MaxClockSkew))"
proof -
  have p: "purge_loop now [] [] = ([], [])" for now by (simp add: purge_loop.simps)
  have hp: "heap_Push snd x [] = [x]" for x :: replay_expiry
    unfolding heap_Push_def by (subst heap_up.simps) (simp add: Let_def)
  have q: "purge_loop t [(n, t)] [(n, t)] = ([], [])" by (subst purge_loop.simps) (simp add: p heap_Pop_def Let_def)
  show "ReplayCache_Check n now NewReplayCache = (False, NewReplayCache)"
    by (simp add: ReplayCache_Check_def rc_purge_def NewReplayCache_def p)
  show "ReplayCache_Check n t (replay_seen n t) = (False, NewReplayCache)"
    by (simp add: ReplayCache_Check_def rc_purge_def replay_seen_def NewReplayCache_def q)
  show "accept_begin demo_env None n now NewReplayCache = (Returned True None, replay_seen n (now + 2 * MaxClockSkew))"
    by (simp add: accept_begin_def rc_purge_def replay_seen_def NewReplayCache_def p accept_store_def hp Let_def)
qed

lemma replay_demo:
  "\<exists>s w v. ss_run toy_crypto s NewReplayCache 0 w \<and> v_ts v = 90 \<and> sw_established w = [(v, 180000000000, 180000000000), (v, 0, 0)]"
proof -
  let ?us = "[\<lparr>uk_email = [97], uk_psk = replicate 32 1, uk_level = 0\<rparr>]" and ?T = "180000000000 :: int"
  let ?n = "NewStreamServerWithUsers toy_crypto id id ?us [4]"
  let ?f = "client_flight toy_crypto [(replicate 400 0, None)] (uk_psk (?us ! 0)) [4] 90000000000 (lit ''abc:80'')"
  have "\<not> isl ?n" "\<not> isl (fst ?f)" by code_simp+
  then obtain s flight nonce ts rnd' where n: "?n = Inr s" and f: "?f = (Inr (flight, nonce, ts), rnd')"
    by (metis prod.collapse sum.collapse(2))
  have w: "raw_encodeTargetAddress (lit ''abc:80'') = Inr [3, 3, 97, 98, 99, 0, 80]" by code_simp
  have d: "int64_diff (unix 0) (unix 90000000000) = - 90" "int64_diff (unix ?T) (unix 90000000000) = 90" "unix 90000000000 = 90" "2 * MaxClockSkew = ?T" by code_simp+
  define v where "v = \<lparr>v_user = ss_users s ! 0, v_nonce = nonce, v_ts = unix 90000000000, v_target = canonAddr (lit ''abc:80''), v_payload = []\<rparr>"
  let ?h = "hex_encode nonce"
  have op: "\<exists>src'. handshake_open toy_crypto s now1 now1 c [(flight, None)] = (Some v, c', src')"
    if "\<bar>int64_diff (unix now1) (unix 90000000000)\<bar> \<le> 90" "ReplayCache_Check ?h now1 c = (False, c')" for now1 c c'
    using handshake_open_flight [OF toy_crypto_ok n _ f _ that(1) _ _ w _ that(2), of "[(flight, None)]" "[]"] by (auto simp: v_def)
  obtain s1 where o1: "handshake_open toy_crypto s 0 0 NewReplayCache [(flight, None)] = (Some v, NewReplayCache, s1)"
    using op [of 0, OF _ replay_seen_steps(1)] d(1) by auto
  obtain s2 where o2: "handshake_open toy_crypto s ?T ?T (replay_seen ?h ?T) [(flight, None)] = (Some v, NewReplayCache, s2)"
    using op [of ?T, OF _ replay_seen_steps(2)] d(2) by auto
  have vn: "v_nonce v = nonce" by (simp add: v_def)
  have a1: "accept_begin demo_env None (hex_encode (v_nonce v)) 0 NewReplayCache = (Returned True None, replay_seen ?h ?T)"
    using replay_seen_steps(3) [of ?h 0] d(4) vn by simp
  have a2: "accept_begin demo_env None (hex_encode (v_nonce v)) ?T NewReplayCache = (Returned True None, replay_seen ?h (?T + 2 * MaxClockSkew))"
    unfolding vn by (rule replay_seen_steps(3))
  let ?rc = "\<lambda>c now p k. \<lparr>w_cache = c, w_now = now, w_waiting = [], w_promised = p, w_calls = k\<rparr>"
  let ?run = "ss_run toy_crypto s NewReplayCache 0"
  have "?run \<lparr>sw_rc = ?rc NewReplayCache 0 [] 0, sw_pending = [], sw_waiting = [], sw_established = []\<rparr>" by (rule ss_run.srv_start)
  from ss_run.srv_open [OF this _ _ , of 0 0] o1
  have "?run \<lparr>sw_rc = ?rc NewReplayCache 0 [] 0, sw_pending = [(v, 0)], sw_waiting = [], sw_established = []\<rparr>" by fastforce
  from ss_run.srv_accept [OF this, of v 0 0] a1
  have "?run \<lparr>sw_rc = ?rc (replay_seen ?h ?T) 0 [(?h, 0)] 1, sw_pending = [], sw_waiting = [], sw_established = [(v, 0, 0)]\<rparr>"
    by (fastforce simp: after_begin_def vn)
  from ss_run.srv_open [OF this _ _ , of ?T ?T] o2
  have "?run \<lparr>sw_rc = ?rc NewReplayCache ?T [(?h, 0)] 1, sw_pending = [(v, ?T)], sw_waiting = [], sw_established = [(v, 0, 0)]\<rparr>" by fastforce
  from ss_run.srv_accept [OF this, of v ?T ?T] a2
  have "\<exists>rc. ?run \<lparr>sw_rc = rc, sw_pending = [], sw_waiting = [], sw_established = [(v, ?T, ?T), (v, 0, 0)]\<rparr>"
    by (fastforce simp: after_begin_def vn)
  then show ?thesis using d(3) by (fastforce simp: v_def)
qed

theorem raw_replay_rejected_witness:
  "\<exists>s w v. ss_run toy_crypto s NewReplayCache 0 w \<and> sw_established w = [(v, 180000000000, 180000000000), (v, 0, 0)] \<and>
     0 + 2 * MaxClockSkew \<le> 180000000000 \<and> int64_diff (unix 0) (v_ts v) \<le> - 88"
proof -
  obtain s w v where w: "ss_run toy_crypto s NewReplayCache 0 w" "sw_established w = [(v, 180000000000, 180000000000), (v, 0, 0)]"
    using replay_demo by blast
  have "{#(v, 0, 0), (v, 180000000000, 180000000000)#} \<subseteq># mset (sw_established w)" using w(2) by (simp add: add_mset_commute)
  from raw_replay_rejected [OF w(1) _ this] w show ?thesis by fastforce
qed

end
