(* ===== verification/Ring.thy ===== *)
theory Ring
  imports Main
begin

text \<open>Ring buffers as the program uses them: \<open>n\<close> elements from index \<open>h\<close> on, modulo the length of the array.\<close>

definition ring :: "nat \<Rightarrow> nat \<Rightarrow> 'a list \<Rightarrow> 'a list" where
  "ring h n buf = map (\<lambda>i. buf ! ((h + i) mod length buf)) [0..<n]"

text \<open>Copying \<open>xs\<close> over a slice.\<close>

definition copy_at :: "nat \<Rightarrow> 'a list \<Rightarrow> 'a list \<Rightarrow> 'a list" where
  "copy_at i xs buf = take i buf @ xs @ drop (i + length xs) buf"

lemma length_ring [simp]: "length (ring h n buf) = n"
  by (simp add: ring_def)

lemma ring_0 [simp]: "ring h 0 buf = []"
  by (simp add: ring_def)

lemma ring_split: "ring h (m + n) buf = ring h m buf @ ring ((h + m) mod length buf) n buf"
  by (rule nth_equalityI) (auto simp: ring_def nth_append mod_add_left_eq add.assoc)

lemma ring_front:
  assumes "h + n \<le> length buf"
  shows "ring h n buf = take n (drop h buf)"
proof (rule nth_equalityI)
  fix i assume "i < length (ring h n buf)"
  then show "ring h n buf ! i = take n (drop h buf) ! i" using assms by (simp add: ring_def)
qed (use assms in simp)

lemma length_copy_at [simp]: "i + length xs \<le> length buf \<Longrightarrow> length (copy_at i xs buf) = length buf"
  by (simp add: copy_at_def)

lemma nth_copy_at:
  assumes "i + length xs \<le> length buf" "k < length buf"
  shows "copy_at i xs buf ! k = (if i \<le> k \<and> k < i + length xs then xs ! (k - i) else buf ! k)"
  using assms by (auto simp: copy_at_def nth_append min_def)

lemma mod_apart:
  assumes "(x :: nat) < y" "y < x + n"
  shows "x mod n \<noteq> y mod n"
proof
  assume "x mod n = y mod n"
  then have "n dvd y - x" using assms(1) mod_eq_dvd_iff_nat [of x y n] by simp
  then show False using assms dvd_imp_le [of n "y - x"] by simp
qed

lemma ring_cong:
  assumes "length buf' = length buf" "\<And>i. i < n \<Longrightarrow> buf' ! ((h + i) mod length buf) = buf ! ((h + i) mod length buf)"
  shows "ring h n buf' = ring h n buf"
  using assms by (simp add: ring_def)

text \<open>Writing a run that does not pass the end of the array, behind the elements.\<close>

lemma ring_write:
  assumes "n + length xs \<le> length buf" "t = (h + n) mod length buf" "t + length xs \<le> length buf"
  shows "ring h (n + length xs) (copy_at t xs buf) = ring h n buf @ xs"
proof -
  let ?b = "copy_at t xs buf" and ?L = "length buf"
  have l: "length ?b = ?L" using assms(3) by simp
  have "?b ! ((h + i) mod ?L) = buf ! ((h + i) mod ?L)" if i: "i < n" for i
  proof -
    have "0 < ?L" using i assms(1) by linarith
    moreover have "\<not> (t \<le> (h + i) mod ?L \<and> (h + i) mod ?L < t + length xs)"
    proof
      assume a: "t \<le> (h + i) mod ?L \<and> (h + i) mod ?L < t + length xs"
      define j where "j = (h + i) mod ?L - t"
      have j: "(h + i) mod ?L = t + j" "j < length xs" using a by (auto simp: j_def)
      have "t + j = (t + j) mod ?L" using j assms(3) by simp
      also have "\<dots> = (h + n + j) mod ?L" using assms(2) by (simp add: mod_add_left_eq)
      finally have "(h + i) mod ?L = (h + n + j) mod ?L" using j(1) by simp
      moreover have "(h + i) mod ?L \<noteq> (h + n + j) mod ?L" by (rule mod_apart) (use i j(2) assms(1) in auto)
      ultimately show False by simp
    qed
    ultimately show ?thesis using assms(3) by (subst nth_copy_at) auto
  qed
  then have 1: "ring h n ?b = ring h n buf" using l by (intro ring_cong) auto
  have "ring t (length xs) ?b = take (length xs) (drop t ?b)" using l assms(3) by (intro ring_front) simp
  also have "\<dots> = xs" using assms(3) by (simp add: copy_at_def)
  finally have "ring ((h + n) mod length ?b) (length xs) ?b = xs" using l assms(2) by simp
  then show ?thesis using ring_split [of h n "length xs" ?b] 1 by simp
qed

lemma ring_full_split:
  assumes "h \<le> length buf" "n \<le> length buf"
  shows "ring h n buf = take (min n (length buf - h)) (drop h buf) @ take (n - min n (length buf - h)) buf"
proof (cases "n \<le> length buf - h")
  case True
  then show ?thesis using assms by (simp add: ring_front)
next
  case False
  let ?f = "length buf - h"
  have "n = ?f + (n - ?f)" using False by simp
  then have "ring h n buf = ring h ?f buf @ ring ((h + ?f) mod length buf) (n - ?f) buf" by (metis ring_split)
  also have "(h + ?f) mod length buf = 0" using assms(1) by simp
  also have "ring h ?f buf = take ?f (drop h buf)" using assms(1) by (intro ring_front) simp
  also have "ring 0 (n - ?f) buf = take (n - ?f) buf" using assms(2) by (subst ring_front) auto
  finally show ?thesis using False by (simp add: min_def)
qed

end
