(* ===== verification/BufPipe.thy ===== *)
theory BufPipe
  imports Interfaces Ring
begin

text \<open>
  The growing ring buffer between the two halves of a client connection,
  \<^verbatim>\<open>src/pkg/client/bufpipe.go\<close>. The methods run under the mutex; where they wait on the condition variable, the call
  is suspended and its rest is resumed later, so other calls interleave there. The copy loops are
  partial functions: \<open>None\<close> would be a loop that does not end, and it is shown that it does not occur.
\<close>

record buffered_pipe =
  bp_buf :: bytes
  bp_capacity :: nat
  bp_head :: nat
  bp_tail :: nat
  bp_count :: nat
  bp_closed :: bool
  bp_err :: "goerr option"

definition newBufferedPipe :: "int \<Rightarrow> buffered_pipe" where
  "newBufferedPipe capacity =
     \<lparr>bp_buf = [], bp_capacity = (if capacity \<le> 0 then 128 * 1024 else nat capacity), bp_head = 0, bp_tail = 0, bp_count = 0,
      bp_closed = False, bp_err = None\<rparr>"

subsection \<open>Reading\<close>

partial_function (option) pipe_copy_out :: "nat \<Rightarrow> bytes \<Rightarrow> buffered_pipe \<Rightarrow> (bytes \<times> buffered_pipe) option" where
  "pipe_copy_out n acc p =
     (if length acc < n \<and> 0 < bp_count p then
        (let chunk = min (n - length acc) (min (length (bp_buf p) - bp_head p) (bp_count p))
         in pipe_copy_out n (acc @ take chunk (drop (bp_head p) (bp_buf p)))
              (p\<lparr>bp_head := (bp_head p + chunk) mod length (bp_buf p), bp_count := bp_count p - chunk\<rparr>))
      else Some (acc, p))"

text \<open>A call returns, or it waits: for data (\<open>ReadWaits\<close>), or for space with this rest to write (\<open>WriteWaits\<close>).\<close>

datatype read_step = ReadReturns bytes "goerr option" | ReadWaits

datatype write_step = WriteReturns nat "goerr option" | WriteWaits bytes

definition pipe_Read :: "nat \<Rightarrow> buffered_pipe \<Rightarrow> (read_step \<times> buffered_pipe) option" where
  "pipe_Read n p =
     (if n = 0 then Some (ReadReturns [] None, p)
      else if bp_count p = 0 then
        Some (case bp_err p of
                Some e \<Rightarrow> (ReadReturns [] (Some e), p)
              | None \<Rightarrow> if bp_closed p then (ReadReturns [] (Some EOF), p) else (ReadWaits, p))
      else case pipe_copy_out n [] p of
             None \<Rightarrow> None
           | Some (bs, p) \<Rightarrow> Some (ReadReturns bs None, p))"

subsection \<open>Writing\<close>

definition pipe_grow :: "nat \<Rightarrow> buffered_pipe \<Rightarrow> buffered_pipe" where
  "pipe_grow rest p =
     (if length (bp_buf p) < bp_capacity p \<and> length (bp_buf p) < bp_count p + rest then
        (let capacity = min (bp_capacity p) (max (16 * 1024) (max (length (bp_buf p) * 2) (bp_count p + rest)));
             first = min (bp_count p) (length (bp_buf p) - bp_head p);
             old = take first (drop (bp_head p) (bp_buf p)) @ take (bp_count p - first) (bp_buf p)
         in p\<lparr>bp_buf := old @ replicate (capacity - length old) 0, bp_head := 0, bp_tail := bp_count p mod capacity\<rparr>)
      else p)"

definition write_chunk :: "nat \<Rightarrow> buffered_pipe \<Rightarrow> nat" where
  "write_chunk rest p = min rest (min (length (bp_buf p) - bp_tail p) (length (bp_buf p) - bp_count p))"

partial_function (option) pipe_write_loop :: "bool \<Rightarrow> nat \<Rightarrow> bytes \<Rightarrow> buffered_pipe \<Rightarrow> (write_step \<times> buffered_pipe) option" where
  "pipe_write_loop resumed tot rest p =
     (if rest = [] then Some (WriteReturns tot None, p)
      else if \<not> resumed \<and> bp_err p \<noteq> None then Some (WriteReturns (tot - length rest) (bp_err p), p)
      else if \<not> resumed \<and> bp_closed p then Some (WriteReturns (tot - length rest) (Some ErrClosedPipe), p)
      else
        (let p = (if resumed then p else pipe_grow (length rest) p)
         in if bp_err p \<noteq> None then Some (WriteReturns (tot - length rest) (bp_err p), p)
            else if bp_closed p then Some (WriteReturns (tot - length rest) (Some ErrClosedPipe), p)
            else if bp_count p = length (bp_buf p) then Some (WriteWaits rest, p)
            else
              (let chunk = write_chunk (length rest) p
               in pipe_write_loop False tot (drop chunk rest)
                    (p\<lparr>bp_buf := copy_at (bp_tail p) (take chunk rest) (bp_buf p),
                       bp_tail := (bp_tail p + chunk) mod length (bp_buf p), bp_count := bp_count p + chunk\<rparr>))))"

declare pipe_copy_out.simps [code] pipe_write_loop.simps [code]

definition pipe_Write :: "bytes \<Rightarrow> buffered_pipe \<Rightarrow> (write_step \<times> buffered_pipe) option" where
  "pipe_Write b p = (if b = [] then Some (WriteReturns 0 None, p) else pipe_write_loop False (length b) b p)"

definition pipe_resume :: "nat \<Rightarrow> bytes \<Rightarrow> buffered_pipe \<Rightarrow> (write_step \<times> buffered_pipe) option" where
  "pipe_resume tot rest p = pipe_write_loop True tot rest p"

subsection \<open>Closing\<close>

definition pipe_CloseWrite :: "buffered_pipe \<Rightarrow> buffered_pipe" where
  "pipe_CloseWrite p = p\<lparr>bp_closed := True\<rparr>"

definition pipe_CloseWithError :: "goerr \<Rightarrow> goerr option \<Rightarrow> buffered_pipe \<Rightarrow> buffered_pipe" where
  "pipe_CloseWithError dflt err p =
     (let err = (case err of None \<Rightarrow> dflt | Some e \<Rightarrow> e)
      in p\<lparr>bp_err := (case bp_err p of None \<Rightarrow> Some err | Some e \<Rightarrow> Some e), bp_closed := True\<rparr>)"

definition pipe_reader_CloseWithError :: "goerr option \<Rightarrow> buffered_pipe \<Rightarrow> buffered_pipe" where
  "pipe_reader_CloseWithError = pipe_CloseWithError ErrClosedPipe"

definition pipe_writer_CloseWithError :: "goerr option \<Rightarrow> buffered_pipe \<Rightarrow> buffered_pipe" where
  "pipe_writer_CloseWithError = pipe_CloseWithError EOF"

subsection \<open>The bytes in the buffer\<close>

definition pipe_wf :: "buffered_pipe \<Rightarrow> bool" where
  "pipe_wf p \<longleftrightarrow> 0 < bp_capacity p \<and> length (bp_buf p) \<le> bp_capacity p \<and> bp_count p \<le> length (bp_buf p) \<and>
     (bp_buf p = [] \<longrightarrow> bp_head p = 0 \<and> bp_tail p = 0) \<and>
     (bp_buf p \<noteq> [] \<longrightarrow> bp_head p < length (bp_buf p) \<and> bp_tail p = (bp_head p + bp_count p) mod length (bp_buf p))"

definition pipe_contents :: "buffered_pipe \<Rightarrow> bytes" where
  "pipe_contents p = ring (bp_head p) (bp_count p) (bp_buf p)"

lemmas pipe_eval = pipe_Write_def pipe_Read_def pipe_write_loop.simps pipe_copy_out.simps pipe_grow_def write_chunk_def copy_at_def newBufferedPipe_def

lemma pipe_contents_length [simp]: "length (pipe_contents p) = bp_count p"
  by (simp add: pipe_contents_def)

lemma pipe_contents_cong:
  "bp_buf p' = bp_buf p \<Longrightarrow> bp_head p' = bp_head p \<Longrightarrow> bp_count p' = bp_count p \<Longrightarrow> pipe_contents p' = pipe_contents p"
  by (simp add: pipe_contents_def)

lemma newBufferedPipe_wf: "pipe_wf (newBufferedPipe c)" "pipe_contents (newBufferedPipe c) = []"
  by (simp_all add: pipe_wf_def newBufferedPipe_def pipe_contents_def ring_def)

subsection \<open>Reading takes from the front\<close>

lemma pipe_take_chunk:
  assumes "pipe_wf p" "k \<le> length (bp_buf p) - bp_head p" "k \<le> bp_count p"
  defines "p' \<equiv> p\<lparr>bp_head := (bp_head p + k) mod length (bp_buf p), bp_count := bp_count p - k\<rparr>"
  shows "pipe_wf p'" "take k (drop (bp_head p) (bp_buf p)) = take k (pipe_contents p)" "pipe_contents p' = drop k (pipe_contents p)"
proof -
  have s: "pipe_contents p = ring (bp_head p) k (bp_buf p) @ pipe_contents p'"
    using ring_split [of "bp_head p" k "bp_count p - k" "bp_buf p"] assms(3) by (simp add: pipe_contents_def p'_def)
  then show "pipe_contents p' = drop k (pipe_contents p)" by simp
  have "ring (bp_head p) k (bp_buf p) = take k (drop (bp_head p) (bp_buf p))"
    using assms(1,2) by (cases "bp_buf p = []") (auto simp: pipe_wf_def intro!: ring_front)
  then show "take k (drop (bp_head p) (bp_buf p)) = take k (pipe_contents p)" using s assms(2) by simp
  have "((bp_head p + k) mod length (bp_buf p) + (bp_count p - k)) mod length (bp_buf p) = (bp_head p + k + (bp_count p - k)) mod length (bp_buf p)"
    by (rule mod_add_left_eq)
  then have "(bp_head p + bp_count p) mod length (bp_buf p) = (bp_head p' + bp_count p') mod length (bp_buf p)"
    using assms(3) by (simp add: p'_def del: mod_add_left_eq)
  then show "pipe_wf p'" using assms(1,3) by (auto simp: pipe_wf_def p'_def)
qed

definition pipe_same :: "buffered_pipe \<Rightarrow> buffered_pipe \<Rightarrow> bool" where
  "pipe_same p p' \<longleftrightarrow> bp_capacity p' = bp_capacity p \<and> bp_closed p' = bp_closed p \<and> bp_err p' = bp_err p"

lemma pipe_copy_out_spec:
  assumes "pipe_wf p" "length acc \<le> n"
  shows "\<exists>p'. pipe_copy_out n acc p = Some (acc @ take (n - length acc) (pipe_contents p), p') \<and> pipe_wf p' \<and>
    pipe_contents p' = drop (n - length acc) (pipe_contents p) \<and> bp_buf p' = bp_buf p \<and> pipe_same p p'"
  using assms
proof (induction "n - length acc" arbitrary: acc p rule: less_induct)
  case less
  show ?case
  proof (cases "length acc < n \<and> 0 < bp_count p")
    case False
    then have "length acc = n \<or> pipe_contents p = []" using less.prems(2) by (metis le_neq_implies_less length_0_conv neq0_conv pipe_contents_length)
    then show ?thesis using False less.prems by (subst pipe_copy_out.simps) (auto simp: pipe_same_def)
  next
    case True
    define k where "k = min (n - length acc) (min (length (bp_buf p) - bp_head p) (bp_count p))"
    define p1 where "p1 = p\<lparr>bp_head := (bp_head p + k) mod length (bp_buf p), bp_count := bp_count p - k\<rparr>"
    have h: "bp_head p < length (bp_buf p)" using True less.prems(1) by (cases "bp_buf p = []") (auto simp: pipe_wf_def)
    have k: "k \<le> length (bp_buf p) - bp_head p" "k \<le> bp_count p" "0 < k" "k \<le> n - length acc" using True h by (auto simp: k_def)
    note c = pipe_take_chunk [OF less.prems(1) k(1,2), folded p1_def]
    let ?acc = "acc @ take k (drop (bp_head p) (bp_buf p))"
    have la: "length ?acc = length acc + k" using k(1) by simp
    have "n - length ?acc < n - length acc" "length ?acc \<le> n" using k(3,4) la True by linarith+
    from less.hyps [OF this(1) c(1) this(2)] obtain p' where p': "pipe_copy_out n ?acc p1 = Some (?acc @ take (n - length ?acc) (pipe_contents p1), p')"
        "pipe_wf p'" "pipe_contents p' = drop (n - length ?acc) (pipe_contents p1)" "bp_buf p' = bp_buf p1" "pipe_same p1 p'" by blast
    have r: "n - length ?acc = n - length acc - k" "k + (n - length acc - k) = n - length acc" using la k(4) by simp_all
    then have "?acc @ take (n - length ?acc) (pipe_contents p1) = acc @ take (n - length acc) (pipe_contents p)"
      unfolding c(3) using c(2) take_add [of k "n - length acc - k" "pipe_contents p"] by simp
    moreover have "pipe_copy_out n acc p = pipe_copy_out n ?acc p1"
      using True by (subst pipe_copy_out.simps) (simp add: Let_def k_def p1_def)
    moreover have "pipe_contents p' = drop (n - length acc) (pipe_contents p)"
      using r unfolding p'(3) c(3) r(1) drop_drop by (simp add: add.commute)
    ultimately show ?thesis using p'(1,2,4,5) by (auto simp: p1_def pipe_same_def)
  qed
qed

lemma pipe_Read_spec:
  assumes "pipe_wf p" "0 < n"
  shows "\<exists>p'. pipe_wf p' \<and> bp_buf p' = bp_buf p \<and> pipe_same p p' \<and> pipe_contents p' = drop n (pipe_contents p) \<and>
    pipe_Read n p = Some (if pipe_contents p \<noteq> [] then ReadReturns (take n (pipe_contents p)) None
                          else case bp_err p of Some e \<Rightarrow> ReadReturns [] (Some e)
                               | None \<Rightarrow> if bp_closed p then ReadReturns [] (Some EOF) else ReadWaits, p')"
proof (cases "bp_count p = 0")
  case True
  then have "pipe_contents p = []" by (metis length_0_conv pipe_contents_length)
  then show ?thesis using True assms by (auto simp: pipe_Read_def pipe_same_def split: option.splits)
next
  case False
  then have "pipe_contents p \<noteq> []" by (metis length_0_conv pipe_contents_length)
  then show ?thesis using False assms pipe_copy_out_spec [OF assms(1), of "[]" n] by (auto simp: pipe_Read_def)
qed

subsection \<open>Writing appends at the back\<close>

lemma pipe_grow_spec:
  assumes "pipe_wf p" "0 < rest"
  shows "pipe_wf (pipe_grow rest p)" "pipe_contents (pipe_grow rest p) = pipe_contents p" "pipe_same p (pipe_grow rest p)"
    "bp_count (pipe_grow rest p) < length (bp_buf (pipe_grow rest p)) \<or> length (bp_buf (pipe_grow rest p)) = bp_capacity p"
    "length (bp_buf p) \<le> length (bp_buf (pipe_grow rest p))"
proof -
  let ?p = "pipe_grow rest p"
  have "pipe_wf ?p \<and> pipe_contents ?p = pipe_contents p \<and> pipe_same p ?p \<and> (bp_count ?p < length (bp_buf ?p) \<or> length (bp_buf ?p) = bp_capacity p) \<and>
      length (bp_buf p) \<le> length (bp_buf ?p)"
  proof (cases "length (bp_buf p) < bp_capacity p \<and> length (bp_buf p) < bp_count p + rest")
    case False
    then have eq: "?p = p" unfolding pipe_grow_def by (simp only: if_False)
    have "length (bp_buf p) \<le> bp_capacity p" using assms(1) by (simp add: pipe_wf_def)
    then have "bp_count p < length (bp_buf p) \<or> length (bp_buf p) = bp_capacity p" using False assms(2) by linarith
    then show ?thesis unfolding eq using assms(1) by (simp add: pipe_same_def)
  next
    case True
    define cap where "cap = min (bp_capacity p) (max (16 * 1024) (max (length (bp_buf p) * 2) (bp_count p + rest)))"
    have cap: "bp_count p < cap" "cap \<le> bp_capacity p" "0 < cap" using True assms by (auto simp: cap_def pipe_wf_def)
    have old: "take (min (bp_count p) (length (bp_buf p) - bp_head p)) (drop (bp_head p) (bp_buf p)) @
        take (bp_count p - min (bp_count p) (length (bp_buf p) - bp_head p)) (bp_buf p) = pipe_contents p"
    proof -
      have "bp_head p \<le> length (bp_buf p)" "bp_count p \<le> length (bp_buf p)"
        using assms(1) by (cases "bp_buf p = []"; simp add: pipe_wf_def)+
      then show ?thesis unfolding pipe_contents_def by (rule ring_full_split [symmetric])
    qed
    have eq: "?p = p\<lparr>bp_buf := pipe_contents p @ replicate (cap - bp_count p) 0, bp_head := 0, bp_tail := bp_count p mod cap\<rparr>"
      using True unfolding pipe_grow_def Let_def old cap_def [symmetric] by simp
    have l: "length (bp_buf ?p) = cap" using cap(1) by (simp add: eq)
    have "pipe_contents ?p = take (bp_count p) (bp_buf ?p)"
      unfolding pipe_contents_def by (subst ring_front) (use cap(1) l in \<open>auto simp: eq\<close>)
    then have "pipe_contents ?p = pipe_contents p" by (simp add: eq)
    moreover have "pipe_wf ?p" using cap l by (auto simp: pipe_wf_def eq)
    moreover have "bp_count ?p < length (bp_buf ?p)" using cap(1) l by (simp add: eq)
    moreover have "length (bp_buf p) \<le> length (bp_buf ?p)" using True by (simp add: l cap_def)
    ultimately show ?thesis by (simp add: pipe_same_def eq)
  qed
  then show "pipe_wf ?p" "pipe_contents ?p = pipe_contents p" "pipe_same p ?p" "bp_count ?p < length (bp_buf ?p) \<or> length (bp_buf ?p) = bp_capacity p"
    "length (bp_buf p) \<le> length (bp_buf ?p)" by auto
qed

lemma pipe_put_chunk:
  assumes "pipe_wf p" "bp_count p < length (bp_buf p)" "xs \<noteq> []"
  defines "k \<equiv> write_chunk (length xs) p"
  defines "p' \<equiv> p\<lparr>bp_buf := copy_at (bp_tail p) (take k xs) (bp_buf p),
                       bp_tail := (bp_tail p + k) mod length (bp_buf p), bp_count := bp_count p + k\<rparr>"
  shows "0 < k" "k \<le> length xs" "pipe_wf p'" "pipe_contents p' = pipe_contents p @ take k xs" "pipe_same p p'"
    "length (bp_buf p') = length (bp_buf p)"
proof -
  have t: "bp_tail p = (bp_head p + bp_count p) mod length (bp_buf p)" "bp_tail p < length (bp_buf p)" "bp_head p < length (bp_buf p)"
    using assms(1,2) by (auto simp: pipe_wf_def)
  show k: "0 < k" "k \<le> length xs" using t(2) assms(2,3) by (auto simp: k_def write_chunk_def)
  have b: "bp_tail p + k \<le> length (bp_buf p)" "bp_count p + k \<le> length (bp_buf p)"
    using t(2) assms(2) by (auto simp: k_def write_chunk_def)
  have lt: "length (take k xs) = k" using k(2) by simp
  show l: "length (bp_buf p') = length (bp_buf p)" using b(1) k(2) by (simp add: p'_def)
  show "pipe_contents p' = pipe_contents p @ take k xs"
    using ring_write [of "bp_count p" "take k xs" "bp_buf p" "bp_tail p" "bp_head p"] t(1) b lt by (simp add: pipe_contents_def p'_def)
  have "(bp_tail p + k) mod length (bp_buf p) = (bp_head p + (bp_count p + k)) mod length (bp_buf p)"
    using t(1) by (simp add: mod_add_left_eq add.assoc)
  moreover have f: "bp_head p' = bp_head p" "bp_tail p' = (bp_tail p + k) mod length (bp_buf p)" "bp_count p' = bp_count p + k" "bp_capacity p' = bp_capacity p"
    by (simp_all add: p'_def)
  moreover have "bp_buf p' \<noteq> []" using l t(3) by auto
  ultimately show "pipe_wf p'" using assms(1) b(2) t(3) by (simp add: pipe_wf_def l)
  show "pipe_same p p'" by (simp add: pipe_same_def p'_def)
qed

text \<open>
  What a write does: a prefix of its data is appended; it returns when all of it is, or with the error that closed the
  pipe, and it waits only while the pipe holds its full capacity.
\<close>

definition write_outcome :: "nat \<Rightarrow> bytes \<Rightarrow> buffered_pipe \<Rightarrow> write_step \<Rightarrow> buffered_pipe \<Rightarrow> bool" where
  "write_outcome tot rest p st p' \<longleftrightarrow> pipe_wf p' \<and> pipe_same p p' \<and> length (bp_buf p) \<le> length (bp_buf p') \<and>
     (\<exists>k \<le> length rest. pipe_contents p' = pipe_contents p @ take k rest \<and>
        (case st of
           WriteReturns m None \<Rightarrow> k = length rest \<and> m = tot
         | WriteReturns m (Some e) \<Rightarrow> m = tot - (length rest - k) \<and> (bp_closed p \<or> bp_err p \<noteq> None) \<and>
             e = (case bp_err p of None \<Rightarrow> ErrClosedPipe | Some e \<Rightarrow> e)
         | WriteWaits r \<Rightarrow> r = drop k rest \<and> r \<noteq> [] \<and> \<not> bp_closed p \<and> bp_err p = None \<and>
             bp_count p' = bp_capacity p \<and> length (bp_buf p') = bp_capacity p))"

lemma write_outcome_stop:
  assumes "pipe_wf p'" "pipe_same p p'" "pipe_contents p' = pipe_contents p" "length (bp_buf p) \<le> length (bp_buf p')" "bp_closed p \<or> bp_err p \<noteq> None"
  shows "write_outcome tot rest p (WriteReturns (tot - length rest) (Some (case bp_err p of None \<Rightarrow> ErrClosedPipe | Some e \<Rightarrow> e))) p'"
  using assms unfolding write_outcome_def by (auto intro!: exI [of _ 0])

lemma pipe_write_loop_spec:
  assumes "pipe_wf p" "resumed \<Longrightarrow> length (bp_buf p) = bp_capacity p" "length rest \<le> tot"
  shows "\<exists>st p'. pipe_write_loop resumed tot rest p = Some (st, p') \<and> write_outcome tot rest p st p'"
  using assms
proof (induction "length rest" arbitrary: resumed rest p rule: less_induct)
  case less
  consider (nothing) "rest = []" | (closed) "rest \<noteq> []" "bp_closed p \<or> bp_err p \<noteq> None" | (going) "rest \<noteq> []" "\<not> bp_closed p" "bp_err p = None" by blast
  then show ?case
  proof cases
    case nothing
    then show ?thesis using less.prems(1) by (subst pipe_write_loop.simps) (auto simp: write_outcome_def pipe_same_def intro!: exI [of _ 0])
  next
    case closed
    let ?q = "if resumed then p else pipe_grow (length rest) p"
    have q: "pipe_wf ?q" "pipe_same p ?q" "pipe_contents ?q = pipe_contents p" "length (bp_buf p) \<le> length (bp_buf ?q)"
      using pipe_grow_spec [OF less.prems(1), of "length rest"] closed(1) less.prems(1) by (auto simp: pipe_same_def)
    have "\<exists>p'. (p' = p \<or> p' = ?q) \<and> pipe_write_loop resumed tot rest p =
        Some (WriteReturns (tot - length rest) (Some (case bp_err p of None \<Rightarrow> ErrClosedPipe | Some e \<Rightarrow> e)), p')"
      using closed q(2) by (subst pipe_write_loop.simps) (auto simp: Let_def pipe_same_def split: option.splits)
    then show ?thesis
      using write_outcome_stop [OF q closed(2)] write_outcome_stop [OF less.prems(1) _ refl le_refl closed(2)] by (auto simp: pipe_same_def)
  next
    case going
    define q where "q = (if resumed then p else pipe_grow (length rest) p)"
    have q: "pipe_wf q" "pipe_same p q" "pipe_contents q = pipe_contents p" "bp_count q < length (bp_buf q) \<or> length (bp_buf q) = bp_capacity p"
      "length (bp_buf p) \<le> length (bp_buf q)"
      using pipe_grow_spec [OF less.prems(1), of "length rest"] going(1) less.prems(1,2) by (auto simp: pipe_same_def q_def)
    have qo: "\<not> bp_closed q" "bp_err q = None" "bp_capacity q = bp_capacity p" using q(2) going by (simp_all add: pipe_same_def)
    have unf: "pipe_write_loop resumed tot rest p =
       (if bp_count q = length (bp_buf q) then Some (WriteWaits rest, q)
            else let chunk = write_chunk (length rest) q
               in pipe_write_loop False tot (drop chunk rest)
                    (q\<lparr>bp_buf := copy_at (bp_tail q) (take chunk rest) (bp_buf q),
                       bp_tail := (bp_tail q + chunk) mod length (bp_buf q), bp_count := bp_count q + chunk\<rparr>))"
      using going qo by (subst pipe_write_loop.simps) (simp add: Let_def q_def [symmetric])
    show ?thesis
    proof (cases "bp_count q = length (bp_buf q)")
      case True
      have "write_outcome tot rest p (WriteWaits rest) q"
        unfolding write_outcome_def using q True going by (auto intro!: exI [of _ 0])
      then show ?thesis using unf True by simp
    next
      case False
      then have "bp_count q < length (bp_buf q)" using q(1) by (auto simp: pipe_wf_def)
      note c = pipe_put_chunk [OF q(1) this going(1)]
      define k where "k = write_chunk (length rest) q"
      define q1 where "q1 = q\<lparr>bp_buf := copy_at (bp_tail q) (take k rest) (bp_buf q),
                       bp_tail := (bp_tail q + k) mod length (bp_buf q), bp_count := bp_count q + k\<rparr>"
      note c = c [folded k_def, folded q1_def]
      have "length (drop k rest) < length rest" "length (drop k rest) \<le> tot" using c(1,2) less.prems(3) by simp_all
      from less.hyps [OF this(1) c(3) _ this(2), of False] obtain st p' where
        r: "pipe_write_loop False tot (drop k rest) q1 = Some (st, p')" "write_outcome tot (drop k rest) q1 st p'" by auto
      have s: "pipe_same p q1" using q(2) c(5) by (simp add: pipe_same_def)
      obtain j where j: "j \<le> length (drop k rest)" "pipe_contents p' = pipe_contents q1 @ take j (drop k rest)"
        "case st of WriteReturns m None \<Rightarrow> j = length (drop k rest) \<and> m = tot
         | WriteReturns m (Some e) \<Rightarrow> m = tot - (length (drop k rest) - j) \<and> (bp_closed q1 \<or> bp_err q1 \<noteq> None) \<and>
             e = (case bp_err q1 of None \<Rightarrow> ErrClosedPipe | Some e \<Rightarrow> e)
         | WriteWaits r \<Rightarrow> r = drop j (drop k rest) \<and> r \<noteq> [] \<and> \<not> bp_closed q1 \<and> bp_err q1 = None \<and>
             bp_count p' = bp_capacity q1 \<and> length (bp_buf p') = bp_capacity q1" "pipe_wf p'" "pipe_same q1 p'" "length (bp_buf q1) \<le> length (bp_buf p')"
        using r(2) by (auto simp: write_outcome_def)
      have "pipe_contents p' = pipe_contents p @ take (k + j) rest" using j(2) c(4) q(3) by (simp add: take_add)
      moreover have "k + j \<le> length rest" using j(1) c(2) by simp
      ultimately have "write_outcome tot rest p st p'"
        unfolding write_outcome_def using j s c(2,6) q(5)
        by (intro conjI exI [of _ "k + j"]) (auto simp: pipe_same_def add.commute split: write_step.splits option.splits)
      then show ?thesis using unf False r(1) by (simp add: Let_def k_def [symmetric] q1_def [symmetric])
    qed
  qed
qed

subsection \<open>Interleavings of readers and writers\<close>

text \<open>
  A run of a pipe: the bytes that entered it and that were read so far, and the writers that wait with the length
  of their call and the rest of its data.
\<close>

record pipe_world =
  pw_pipe :: buffered_pipe
  pw_written :: bytes
  pw_read :: bytes
  pw_waiting :: "(nat \<times> bytes) list"

definition after_write :: "nat \<Rightarrow> bytes \<Rightarrow> write_step \<Rightarrow> buffered_pipe \<Rightarrow> pipe_world \<Rightarrow> pipe_world" where
  "after_write tot rest st p w =
     (case st of
        WriteReturns m e \<Rightarrow> w\<lparr>pw_pipe := p, pw_written := pw_written w @ take (m + length rest - tot) rest\<rparr>
      | WriteWaits r \<Rightarrow> w\<lparr>pw_pipe := p, pw_written := pw_written w @ take (length rest - length r) rest, pw_waiting := (tot, r) # pw_waiting w\<rparr>)"

inductive pipe_run :: "int \<Rightarrow> pipe_world \<Rightarrow> bool" for capacity where
  run_new: "pipe_run capacity \<lparr>pw_pipe = newBufferedPipe capacity, pw_written = [], pw_read = [], pw_waiting = []\<rparr>"
| run_read: "pipe_run capacity w \<Longrightarrow> pipe_Read n (pw_pipe w) = Some (ReadReturns bs e, p) \<Longrightarrow>
    pipe_run capacity (w\<lparr>pw_pipe := p, pw_read := pw_read w @ bs\<rparr>)"
| run_write: "pipe_run capacity w \<Longrightarrow> pipe_Write b (pw_pipe w) = Some (st, p) \<Longrightarrow>
    pipe_run capacity (after_write (length b) b st p w)"
| run_resume: "pipe_run capacity w \<Longrightarrow> (tot, rest) \<in> set (pw_waiting w) \<Longrightarrow> pipe_resume tot rest (pw_pipe w) = Some (st, p) \<Longrightarrow>
    pipe_run capacity (after_write tot rest st p (w\<lparr>pw_waiting := remove1 (tot, rest) (pw_waiting w)\<rparr>))"
| run_close_write: "pipe_run capacity w \<Longrightarrow> pipe_run capacity (w\<lparr>pw_pipe := pipe_CloseWrite (pw_pipe w)\<rparr>)"
| run_close_error: "pipe_run capacity w \<Longrightarrow> pipe_run capacity (w\<lparr>pw_pipe := pipe_writer_CloseWithError err (pw_pipe w)\<rparr>)"
| run_close_read: "pipe_run capacity w \<Longrightarrow> pipe_run capacity (w\<lparr>pw_pipe := pipe_reader_CloseWithError err (pw_pipe w)\<rparr>)"

definition pipe_inv :: "int \<Rightarrow> pipe_world \<Rightarrow> bool" where
  "pipe_inv capacity w \<longleftrightarrow> pipe_wf (pw_pipe w) \<and> pw_written w = pw_read w @ pipe_contents (pw_pipe w) \<and>
     bp_capacity (pw_pipe w) = bp_capacity (newBufferedPipe capacity) \<and>
     (\<forall>(tot, rest) \<in> set (pw_waiting w). rest \<noteq> [] \<and> length rest \<le> tot \<and> length (bp_buf (pw_pipe w)) = bp_capacity (pw_pipe w))"

lemma pipe_inv_write:
  assumes "pipe_inv capacity w" "write_outcome tot rest (pw_pipe w) st p" "length rest \<le> tot"
  shows "pipe_inv capacity (after_write tot rest st p w)"
proof -
  let ?p = "pw_pipe w"
  obtain k where k: "pipe_wf p" "pipe_same ?p p" "k \<le> length rest" "pipe_contents p = pipe_contents ?p @ take k rest" "length (bp_buf ?p) \<le> length (bp_buf p)"
    "case st of WriteReturns m None \<Rightarrow> k = length rest \<and> m = tot
         | WriteReturns m (Some e) \<Rightarrow> m = tot - (length rest - k) \<and> (bp_closed ?p \<or> bp_err ?p \<noteq> None) \<and>
             e = (case bp_err ?p of None \<Rightarrow> ErrClosedPipe | Some e \<Rightarrow> e)
         | WriteWaits r \<Rightarrow> r = drop k rest \<and> r \<noteq> [] \<and> \<not> bp_closed ?p \<and> bp_err ?p = None \<and>
             bp_count p = bp_capacity ?p \<and> length (bp_buf p) = bp_capacity ?p"
    using assms(2) by (auto simp: write_outcome_def)
  have i: "pw_written w = pw_read w @ pipe_contents ?p" "bp_capacity ?p = bp_capacity (newBufferedPipe capacity)"
    "\<forall>(tot, rest) \<in> set (pw_waiting w). rest \<noteq> [] \<and> length rest \<le> tot \<and> length (bp_buf ?p) = bp_capacity ?p"
    using assms(1) by (auto simp: pipe_inv_def)
  have cap: "bp_capacity p = bp_capacity ?p" using k(2) by (simp add: pipe_same_def)
  have full: "length (bp_buf p) = bp_capacity p" if "length (bp_buf ?p) = bp_capacity ?p"
    using that k(1,5) cap by (simp add: pipe_wf_def)
  have wait: "\<forall>(tot, rest) \<in> set (pw_waiting w). rest \<noteq> [] \<and> length rest \<le> tot \<and> length (bp_buf p) = bp_capacity p"
    using i(3) full by auto
  show ?thesis
  proof (cases st)
    case (WriteReturns m e)
    then have "m + length rest - tot = k" using k(3,6) assms(3) by (cases e) auto
    then show ?thesis using WriteReturns k(1,4) i(1,2) wait cap by (simp add: pipe_inv_def after_write_def)
  next
    case (WriteWaits r)
    then have r: "r = drop k rest" "r \<noteq> []" "length (bp_buf p) = bp_capacity p" using k(6) cap by auto
    then have "length rest - length r = k" "length r \<le> tot" using k(3) assms(3) by auto
    then show ?thesis using WriteWaits k(1,4) i(1,2) wait cap r(2,3) by (simp add: pipe_inv_def after_write_def)
  qed
qed

lemma pipe_run_inv: "pipe_run capacity w \<Longrightarrow> pipe_inv capacity w"
proof (induction rule: pipe_run.induct)
  case run_new
  show ?case using newBufferedPipe_wf by (simp add: pipe_inv_def)
next
  case (run_read w n bs e p)
  have wf: "pipe_wf (pw_pipe w)" using run_read(3) by (simp add: pipe_inv_def)
  show ?case
  proof (cases "n = 0")
    case True
    then show ?thesis using run_read by (auto simp: pipe_Read_def)
  next
    case False
    then have r: "pipe_wf p" "bp_buf p = bp_buf (pw_pipe w)" "pipe_same (pw_pipe w) p" "pipe_contents p = drop n (pipe_contents (pw_pipe w))"
        "bs = take n (pipe_contents (pw_pipe w))"
      using pipe_Read_spec [OF wf, of n] run_read(2) by (auto split: if_splits option.splits)
    then show ?thesis using run_read(3) by (auto simp: pipe_inv_def pipe_same_def)
  qed
next
  case (run_write w b st p)
  show ?case
  proof (cases "b = []")
    case True
    then show ?thesis using run_write by (auto simp: pipe_Write_def after_write_def)
  next
    case False
    have "write_outcome (length b) b (pw_pipe w) st p"
      using pipe_write_loop_spec [of "pw_pipe w" False b "length b"] run_write(2,3) False by (auto simp: pipe_Write_def pipe_inv_def)
    from pipe_inv_write [OF run_write(3) this] show ?thesis by simp
  qed
next
  case (run_resume w tot rest st p)
  have i: "length rest \<le> tot" "length (bp_buf (pw_pipe w)) = bp_capacity (pw_pipe w)" using run_resume(2,4) by (auto simp: pipe_inv_def)
  have "write_outcome tot rest (pw_pipe w) st p"
    using pipe_write_loop_spec [of "pw_pipe w" True rest tot] run_resume(3,4) i by (auto simp: pipe_resume_def pipe_inv_def)
  moreover have "pipe_inv capacity (w\<lparr>pw_waiting := remove1 (tot, rest) (pw_waiting w)\<rparr>)"
  proof -
    have "\<forall>x \<in> set (pw_waiting w). case x of (tot, rest) \<Rightarrow> rest \<noteq> [] \<and> length rest \<le> tot \<and> length (bp_buf (pw_pipe w)) = bp_capacity (pw_pipe w)"
      using run_resume(4) unfolding pipe_inv_def by blast
    then have "\<forall>x \<in> set (remove1 (tot, rest) (pw_waiting w)). case x of (tot, rest) \<Rightarrow> rest \<noteq> [] \<and> length rest \<le> tot \<and> length (bp_buf (pw_pipe w)) = bp_capacity (pw_pipe w)"
      using set_remove1_subset [of "(tot, rest)" "pw_waiting w"] by blast
    then show ?thesis using run_resume(4) by (simp add: pipe_inv_def)
  qed
  ultimately show ?case using pipe_inv_write [of capacity "w\<lparr>pw_waiting := remove1 (tot, rest) (pw_waiting w)\<rparr>"] i(1) by simp
qed (auto simp: pipe_inv_def pipe_wf_def pipe_contents_def pipe_CloseWrite_def pipe_CloseWithError_def pipe_writer_CloseWithError_def
      pipe_reader_CloseWithError_def Let_def)

subsection \<open>Properties of the pipe\<close>

text \<open>
  C20: The growing ring buffer is a bounded FIFO queue of bytes. In every interleaving of reads, writes that wait and resume, and closes: what was
  written is what was read followed by what is buffered, at most the capacity is buffered, and the next read
  returns the oldest unread bytes; it reports the end of the stream or the closing error only when everything that was written has been
  read, and it waits only when everything has been read and the pipe is open.
\<close>

theorem bufpipe_fifo:
  assumes "pipe_run capacity w" "0 < n"
  shows "pw_written w = pw_read w @ pipe_contents (pw_pipe w) \<and>
    length (pipe_contents (pw_pipe w)) \<le> bp_capacity (newBufferedPipe capacity) \<and>
    (\<exists>st p. pipe_Read n (pw_pipe w) = Some (st, p) \<and>
       (case st of
          ReadReturns bs None \<Rightarrow> bs \<noteq> [] \<and> bs = take n (drop (length (pw_read w)) (pw_written w))
        | ReadReturns bs (Some e) \<Rightarrow> bs = [] \<and> pw_read w = pw_written w \<and>
            (bp_err (pw_pipe w) = Some e \<or> bp_err (pw_pipe w) = None \<and> bp_closed (pw_pipe w) \<and> e = EOF)
        | ReadWaits \<Rightarrow> pw_read w = pw_written w \<and> \<not> bp_closed (pw_pipe w)))"
proof -
  have i: "pipe_wf (pw_pipe w)" "pw_written w = pw_read w @ pipe_contents (pw_pipe w)" "bp_capacity (pw_pipe w) = bp_capacity (newBufferedPipe capacity)"
    using pipe_run_inv [OF assms(1)] by (auto simp: pipe_inv_def)
  have "length (pipe_contents (pw_pipe w)) \<le> bp_capacity (newBufferedPipe capacity)" using i(1,3) by (auto simp: pipe_wf_def)
  then show ?thesis using i(2) pipe_Read_spec [OF i(1) assms(2)] assms(2) by (auto split: option.splits)
qed

theorem bufpipe_fifo_witness:
  "\<exists>w. pipe_run 4 w \<and> pw_written w = [1, 2, 3, 4] \<and> pw_read w = [1, 2, 3] \<and> pw_waiting w = [] \<and> length (pipe_contents (pw_pipe w)) \<le> 4"
proof -
  let ?p1 = "(newBufferedPipe 4)\<lparr>bp_buf := [1, 2, 3, 0], bp_tail := 3, bp_count := 3\<rparr>"
  let ?p2 = "?p1\<lparr>bp_head := 3, bp_count := 0\<rparr>"
  let ?p3 = "?p2\<lparr>bp_buf := [1, 2, 3, 4], bp_tail := 0, bp_count := 1\<rparr>"
  have "pipe_Write [1, 2, 3] (newBufferedPipe 4) = Some (WriteReturns 3 None, ?p1)" by (simp add: pipe_eval)
  from pipe_run.run_write [OF pipe_run.run_new, of "[1, 2, 3]" 4] this
  have "pipe_run 4 \<lparr>pw_pipe = ?p1, pw_written = [1, 2, 3], pw_read = [], pw_waiting = []\<rparr>" by (fastforce simp: after_write_def)
  moreover have "pipe_Read 5 ?p1 = Some (ReadReturns [1, 2, 3] None, ?p2)" by (simp add: pipe_eval)
  ultimately have "pipe_run 4 \<lparr>pw_pipe = ?p2, pw_written = [1, 2, 3], pw_read = [1, 2, 3], pw_waiting = []\<rparr>"
    using pipe_run.run_read [of 4 "\<lparr>pw_pipe = ?p1, pw_written = [1, 2, 3], pw_read = [], pw_waiting = []\<rparr>" 5] by fastforce
  moreover have "pipe_Write [4] ?p2 = Some (WriteReturns 1 None, ?p3)" by (simp add: pipe_eval)
  ultimately have r: "pipe_run 4 \<lparr>pw_pipe = ?p3, pw_written = [1, 2, 3, 4], pw_read = [1, 2, 3], pw_waiting = []\<rparr>"
    using pipe_run.run_write [of 4 "\<lparr>pw_pipe = ?p2, pw_written = [1, 2, 3], pw_read = [1, 2, 3], pw_waiting = []\<rparr>" "[4]"] by (fastforce simp: after_write_def)
  from bufpipe_fifo [OF r, of 1] show ?thesis using r by (intro exI conjI) (assumption, simp_all add: newBufferedPipe_def)
qed

text \<open>
  C21: Calls on the pipe end or wait for a reason. In every reachable state the copy loops of \<open>Read\<close> and \<open>Write\<close> terminate; a
  write waits only while the pipe holds its full capacity; and a write that waits, when it is woken and a byte of
  space has become free or the pipe was closed, returns or has fewer bytes left to write.
\<close>

theorem bufpipe_progress:
  assumes "pipe_run capacity w"
  shows "(\<exists>st p. pipe_Read n (pw_pipe w) = Some (st, p)) \<and>
    (\<exists>st p. pipe_Write b (pw_pipe w) = Some (st, p) \<and> (\<forall>r. st = WriteWaits r \<longrightarrow> length (pipe_contents p) = bp_capacity (newBufferedPipe capacity))) \<and>
    (\<forall>(tot, rest) \<in> set (pw_waiting w). \<exists>st p. pipe_resume tot rest (pw_pipe w) = Some (st, p) \<and>
       (length (pipe_contents (pw_pipe w)) < bp_capacity (newBufferedPipe capacity) \<or> bp_closed (pw_pipe w) \<longrightarrow>
          (case st of WriteReturns m e \<Rightarrow> True | WriteWaits r \<Rightarrow> length r < length rest)))"
proof -
  let ?p = "pw_pipe w"
  note i = pipe_run_inv [OF assms, unfolded pipe_inv_def]
  have wf: "pipe_wf ?p" and cap: "bp_capacity ?p = bp_capacity (newBufferedPipe capacity)" using i by auto
  have "\<exists>st p. pipe_Read n ?p = Some (st, p)"
    using pipe_Read_spec [OF wf, of n] by (cases "n = 0") (auto simp: pipe_Read_def)
  moreover have "\<exists>st p. pipe_Write b ?p = Some (st, p) \<and> (\<forall>r. st = WriteWaits r \<longrightarrow> length (pipe_contents p) = bp_capacity (newBufferedPipe capacity))"
    using pipe_write_loop_spec [OF wf, of False b "length b"] cap by (cases "b = []") (auto simp: pipe_Write_def write_outcome_def)
  moreover have "\<exists>st p. pipe_resume tot rest ?p = Some (st, p) \<and>
       (length (pipe_contents ?p) < bp_capacity (newBufferedPipe capacity) \<or> bp_closed ?p \<longrightarrow>
          (case st of WriteReturns m e \<Rightarrow> True | WriteWaits r \<Rightarrow> length r < length rest))" if "(tot, rest) \<in> set (pw_waiting w)" for tot rest
  proof -
    have "length rest \<le> tot" "length (bp_buf ?p) = bp_capacity ?p" using i that by auto
    then obtain st p where r: "pipe_write_loop True tot rest ?p = Some (st, p)" "write_outcome tot rest ?p st p"
      using pipe_write_loop_spec [OF wf, of True rest tot] by blast
    have "length r < length rest" if st: "st = WriteWaits r" and sp: "length (pipe_contents ?p) < bp_capacity (newBufferedPipe capacity) \<or> bp_closed ?p" for r
    proof -
      obtain k where k: "k \<le> length rest" "pipe_contents p = pipe_contents ?p @ take k rest" "r = drop k rest" "r \<noteq> []" "bp_count p = bp_capacity ?p" "\<not> bp_closed ?p"
        using r(2) st by (auto simp: write_outcome_def)
      have "bp_count p = bp_count ?p + k" using arg_cong [OF k(2), of length] k(1) by simp
      then have "0 < k" using k(5,6) sp cap by auto
      then show ?thesis using k(1,3,4) by simp
    qed
    then show ?thesis using r(1) by (intro exI [of _ st] exI [of _ p]) (auto simp: pipe_resume_def split: write_step.splits)
  qed
  ultimately show ?thesis by blast
qed

theorem bufpipe_progress_witness:
  "\<exists>w st p. pipe_run 2 w \<and> pw_waiting w = [(3, [3])] \<and> pipe_resume 3 [3] (pw_pipe w) = Some (st, p)"
proof -
  let ?p1 = "(newBufferedPipe 2)\<lparr>bp_buf := [1, 2], bp_tail := 0, bp_count := 2\<rparr>"
  have "pipe_Write [1, 2, 3] (newBufferedPipe 2) = Some (WriteWaits [3], ?p1)"
    by code_simp
  then have "pipe_run 2 (after_write (length [1, 2, 3 :: byte]) [1, 2, 3] (WriteWaits [3]) ?p1 \<lparr>pw_pipe = newBufferedPipe 2, pw_written = [], pw_read = [], pw_waiting = []\<rparr>)"
    by (intro pipe_run.run_write pipe_run.run_new) simp
  then have r: "pipe_run 2 \<lparr>pw_pipe = ?p1, pw_written = [1, 2], pw_read = [], pw_waiting = [(3, [3])]\<rparr>" by (simp add: after_write_def numeral_3_eq_3)
  then obtain st p where "pipe_resume 3 [3] ?p1 = Some (st, p)" using bufpipe_progress [OF r, of 1 "[]"] by auto
  then show ?thesis using r by (intro exI [of _ "\<lparr>pw_pipe = ?p1, pw_written = [1, 2], pw_read = [], pw_waiting = [(3, [3])]\<rparr>"] exI [of _ st] exI [of _ p]) simp
qed

end
