(* ===== verification/PacketQueue.thy ===== *)
theory PacketQueue
  imports Ring "HOL-Library.Sublist" "HOL-Library.Multiset"
begin

text \<open>
  The sender queues of the mihomo integration, \<^verbatim>\<open>src/integration/mihomo_tunnel/chitanda_sender_queue.go\<close>: one ring of packets
  per association, all charged to one process-wide byte budget. Packets (\<open>'p\<close>) belong to mihomo: the lengths and
  capacities of their data, after \<open>CompactChitandaData\<close>, are a parameter. Every definition is one section under the mutex
  of the queue and returns the packets it calls \<open>Drop\<close> on; time is in nanoseconds. The byte counts are
  integers here: it is shown that what is stored stays between zero and the limits.
\<close>

definition chitandaSenderInitialCapacity :: nat where "chitandaSenderInitialCapacity = 32"
definition chitandaSenderMaxCapacity :: nat where "chitandaSenderMaxCapacity = 8192"
definition chitandaSenderMaxAge :: int where "chitandaSenderMaxAge = 3 * 1000000000"
definition chitandaSenderMaxFlowBytes :: int where "chitandaSenderMaxFlowBytes = 12 * 1048576"
definition chitandaSenderGlobalBytes :: int where "chitandaSenderGlobalBytes = 64 * 1048576"
definition chitandaSenderPacketOverhead :: int where "chitandaSenderPacketOverhead = 128"

lemmas queue_limits = chitandaSenderInitialCapacity_def chitandaSenderMaxCapacity_def chitandaSenderMaxFlowBytes_def
  chitandaSenderGlobalBytes_def chitandaSenderPacketOverhead_def

subsection \<open>The budget\<close>

record queue_budget =
  qb_used :: int
  qb_limit :: int

definition chitandaGlobalQueueBudget :: queue_budget where
  "chitandaGlobalQueueBudget = \<lparr>qb_used = 0, qb_limit = chitandaSenderGlobalBytes\<rparr>"

definition budget_reserve :: "int \<Rightarrow> queue_budget \<Rightarrow> bool \<times> queue_budget" where
  "budget_reserve sz b = (if sz > qb_limit b - qb_used b then (False, b) else (True, b\<lparr>qb_used := qb_used b + sz\<rparr>))"

definition budget_release :: "int \<Rightarrow> queue_budget \<Rightarrow> queue_budget" where
  "budget_release sz b = b\<lparr>qb_used := qb_used b - sz\<rparr>"

subsection \<open>The queue\<close>

record 'p queued_packet =
  qp_packet :: "'p option"
  qp_added :: int
  qp_size :: int

definition zero_packet :: "'p queued_packet" where
  "zero_packet = \<lparr>qp_packet = None, qp_added = 0, qp_size = 0\<rparr>"

record 'p packet_queue =
  pq_items :: "'p queued_packet list"
  pq_head :: nat
  pq_length :: nat
  pq_bytes :: int
  pq_closed :: bool
  pq_ready :: bool
  pq_dropped :: nat

definition newChitandaPacketQueue :: "'p packet_queue" where
  "newChitandaPacketQueue = \<lparr>pq_items = replicate chitandaSenderInitialCapacity zero_packet, pq_head = 0, pq_length = 0, pq_bytes = 0,
     pq_closed = False, pq_ready = False, pq_dropped = 0\<rparr>"

definition chitandaPacketSize :: "('p \<Rightarrow> nat \<times> nat) \<Rightarrow> 'p \<Rightarrow> int" where
  "chitandaPacketSize data p = (case data p of (len, cap) \<Rightarrow> int (if cap > len then cap else len) + chitandaSenderPacketOverhead)"

definition signal :: "'p packet_queue \<Rightarrow> 'p packet_queue" where
  "signal q = q\<lparr>pq_ready := True\<rparr>"

definition count_drop :: "'p packet_queue \<Rightarrow> 'p packet_queue" where
  "count_drop q = q\<lparr>pq_dropped := pq_dropped q + 1\<rparr>"

definition take_head :: "queue_budget \<Rightarrow> 'p packet_queue \<Rightarrow> 'p queued_packet \<times> queue_budget \<times> 'p packet_queue" where
  "take_head b q =
     (let item = pq_items q ! pq_head q
      in (item, budget_release (qp_size item) b,
          q\<lparr>pq_items := (pq_items q)[pq_head q := zero_packet], pq_head := (pq_head q + 1) mod length (pq_items q),
            pq_length := pq_length q - 1, pq_bytes := pq_bytes q - qp_size item\<rparr>))"

definition queue_grow :: "'p packet_queue \<Rightarrow> 'p packet_queue" where
  "queue_grow q =
     (if pq_length q = length (pq_items q) then
        (let capacity = min (length (pq_items q) * 2) chitandaSenderMaxCapacity
         in q\<lparr>pq_items := map (\<lambda>i. pq_items q ! ((pq_head q + i) mod length (pq_items q))) [0..<pq_length q] @ replicate (capacity - pq_length q) zero_packet,
              pq_head := 0\<rparr>)
      else q)"

definition queue_append :: "'p \<Rightarrow> int \<Rightarrow> int \<Rightarrow> 'p packet_queue \<Rightarrow> 'p packet_queue" where
  "queue_append p now sz q =
     signal (q\<lparr>pq_items := (pq_items q)[(pq_head q + pq_length q) mod length (pq_items q) := \<lparr>qp_packet = Some p, qp_added = now, qp_size = sz\<rparr>],
               pq_length := pq_length q + 1, pq_bytes := pq_bytes q + sz\<rparr>)"

text \<open>Called under the mutex of the queue. The uses of the shared budget in one call are one step, at the reservation.\<close>

definition push :: "('p \<Rightarrow> nat \<times> nat) \<Rightarrow> int \<Rightarrow> 'p \<Rightarrow> queue_budget \<Rightarrow> 'p packet_queue \<Rightarrow> 'p option list \<times> queue_budget \<times> 'p packet_queue" where
  "push data now p b q =
     (let sz = chitandaPacketSize data p
      in if pq_closed q then ([Some p], b, count_drop q)
         else if pq_length q = chitandaSenderMaxCapacity \<and> now - qp_added (pq_items q ! pq_head q) \<le> chitandaSenderMaxAge
         then ([Some p], b, count_drop q)
         else
           (let (expired, b, q) =
                  (if pq_length q = chitandaSenderMaxCapacity
                   then (case take_head b q of (item, b, q) \<Rightarrow> ([qp_packet item], b, count_drop q))
                   else ([], b, q))
            in if sz > chitandaSenderMaxFlowBytes - pq_bytes q then (Some p # expired, b, count_drop q)
               else case budget_reserve sz b of
                      (False, b) \<Rightarrow> (Some p # expired, b, count_drop q)
                    | (True, b) \<Rightarrow> (expired, b, queue_append p now sz (queue_grow q))))"

definition after_take :: "'p packet_queue \<Rightarrow> 'p packet_queue" where
  "after_take q =
     (if 0 < pq_length q then signal q
      else if chitandaSenderInitialCapacity < length (pq_items q)
      then q\<lparr>pq_items := replicate chitandaSenderInitialCapacity zero_packet, pq_head := 0\<rparr>
      else q)"

datatype 'p pop_step = PopNil | PopReturns "'p option" | PopAgain

text \<open>One round of the loop of \<open>pop\<close>: the section under the lock and the age test behind it.\<close>

definition pop_round :: "int \<Rightarrow> queue_budget \<Rightarrow> 'p packet_queue \<Rightarrow> 'p pop_step \<times> 'p option list \<times> queue_budget \<times> 'p packet_queue" where
  "pop_round now b q =
     (if pq_length q = 0 then (PopNil, [], b, q)
      else (case take_head b q of (item, b, q) \<Rightarrow>
              if now - qp_added item \<le> chitandaSenderMaxAge then (PopReturns (qp_packet item), [], b, after_take q)
              else (PopAgain, [qp_packet item], b, count_drop (after_take q))))"

fun take_batch :: "int \<Rightarrow> nat \<Rightarrow> 'p option list \<Rightarrow> 'p option list \<Rightarrow> queue_budget \<Rightarrow> 'p packet_queue \<Rightarrow>
    'p option list \<times> 'p option list \<times> queue_budget \<times> 'p packet_queue" where
  "take_batch now 0 batch expired b q = (batch, expired, b, q)"
| "take_batch now (Suc n) batch expired b q =
     (case take_head b q of (item, b, q) \<Rightarrow>
        if now - qp_added item \<le> chitandaSenderMaxAge then take_batch now n (batch @ [qp_packet item]) expired b q
        else take_batch now n batch (expired @ [qp_packet item]) b q)"

definition batch_max :: "int \<Rightarrow> nat" where
  "batch_max mx = (if mx \<le> 0 then 32 else nat mx)"

text \<open>One round of the loop of \<open>popBatch\<close>; a round that only met expired packets is followed by another.\<close>

definition batch_round :: "int \<Rightarrow> int \<Rightarrow> queue_budget \<Rightarrow> 'p packet_queue \<Rightarrow>
    'p option list option \<times> 'p option list \<times> queue_budget \<times> 'p packet_queue" where
  "batch_round now mx b q =
     (if pq_length q = 0 then (Some [], [], b, q)
      else (case take_batch now (min (pq_length q) (batch_max mx)) [] [] b q of (batch, expired, b, q) \<Rightarrow>
              (if batch = [] then None else Some batch, expired, b,
               (after_take q)\<lparr>pq_dropped := pq_dropped (after_take q) + length expired\<rparr>)))"

fun close_loop :: "nat \<Rightarrow> 'p option list \<Rightarrow> queue_budget \<Rightarrow> 'p packet_queue \<Rightarrow> 'p option list \<times> queue_budget \<times> 'p packet_queue" where
  "close_loop 0 items b q = (items, b, q)"
| "close_loop (Suc n) items b q = (case take_head b q of (item, b, q) \<Rightarrow> close_loop n (items @ [qp_packet item]) b q)"

definition queue_close :: "queue_budget \<Rightarrow> 'p packet_queue \<Rightarrow> 'p option list \<times> queue_budget \<times> 'p packet_queue" where
  "queue_close b q =
     (case close_loop (pq_length q) [] b (q\<lparr>pq_closed := True\<rparr>) of (items, b, q) \<Rightarrow> (items, b, q\<lparr>pq_items := []\<rparr>))"

text \<open>The whole loops, when no other call comes between two rounds. \<open>pop\<close> reads the clock in every round.\<close>

lemma take_head_length: "take_head b q = (item, b', q') \<Longrightarrow> pq_length q' = pq_length q - 1"
  by (auto simp: take_head_def Let_def)

lemma after_take_length [simp]: "pq_length (after_take q) = pq_length q"
  by (simp add: after_take_def signal_def)

lemma take_batch_length: "take_batch now n batch expired b q = (batch', expired', b', q') \<Longrightarrow> pq_length q' = pq_length q - n"
  by (induction n arbitrary: batch expired b q) (auto dest: take_head_length split: prod.splits if_splits)

lemma batch_max_pos: "0 < batch_max mx"
  by (simp add: batch_max_def)

function pop :: "(nat \<Rightarrow> int) \<Rightarrow> queue_budget \<Rightarrow> 'p packet_queue \<Rightarrow> 'p option \<times> 'p option list \<times> queue_budget \<times> 'p packet_queue" where
  "pop clock b q =
     (case pop_round (clock 0) b q of
        (PopNil, ds, b', q') \<Rightarrow> (None, ds, b', q')
      | (PopReturns p, ds, b', q') \<Rightarrow> (p, ds, b', q')
      | (PopAgain, ds, b', q') \<Rightarrow> (case pop (\<lambda>i. clock (Suc i)) b' q' of (p, ds', b'', q'') \<Rightarrow> (p, ds @ ds', b'', q'')))"
  by pat_completeness auto

termination pop
  by (relation "measure (\<lambda>(_, _, q). pq_length q)")
    (auto simp: pop_round_def count_drop_def dest: take_head_length split: if_splits prod.splits)

function popBatch :: "int \<Rightarrow> int \<Rightarrow> queue_budget \<Rightarrow> 'p packet_queue \<Rightarrow> 'p option list \<times> 'p option list \<times> queue_budget \<times> 'p packet_queue" where
  "popBatch now mx b q =
     (case batch_round now mx b q of
        (Some batch, ds, b', q') \<Rightarrow> (batch, ds, b', q')
      | (None, ds, b', q') \<Rightarrow> (case popBatch now mx b' q' of (batch, ds', b'', q'') \<Rightarrow> (batch, ds @ ds', b'', q'')))"
  by pat_completeness auto

termination popBatch
  using batch_max_pos by (relation "measure (\<lambda>(_, _, _, q). pq_length q)")
    (auto simp: batch_round_def dest!: take_batch_length split: if_splits prod.splits)

declare pop.simps [simp del] popBatch.simps [simp del]

subsection \<open>Contents and well-formedness\<close>

definition contents :: "'p packet_queue \<Rightarrow> 'p queued_packet list" where
  "contents q = ring (pq_head q) (pq_length q) (pq_items q)"

definition pq_wf :: "'p packet_queue \<Rightarrow> bool" where
  "pq_wf q \<longleftrightarrow> pq_bytes q = sum_list (map qp_size (contents q)) \<and> pq_bytes q \<le> chitandaSenderMaxFlowBytes \<and>
     (\<forall>x \<in> set (contents q). chitandaSenderPacketOverhead \<le> qp_size x) \<and>
     (if pq_closed q then pq_items q = [] \<and> pq_length q = 0
      else chitandaSenderInitialCapacity \<le> length (pq_items q) \<and> length (pq_items q) \<le> chitandaSenderMaxCapacity \<and>
           pq_head q < length (pq_items q) \<and> pq_length q \<le> length (pq_items q))"

text \<open>What taking elements out keeps, also in the middle of \<open>close\<close>.\<close>

definition ring_ok :: "'p packet_queue \<Rightarrow> bool" where
  "ring_ok q \<longleftrightarrow> pq_head q < length (pq_items q) \<and> pq_length q \<le> length (pq_items q) \<and> pq_bytes q = sum_list (map qp_size (contents q))"

lemma contents_length [simp]: "length (contents q) = pq_length q"
  by (simp add: contents_def)

lemma contents_cong:
  "pq_items q' = pq_items q \<Longrightarrow> pq_head q' = pq_head q \<Longrightarrow> pq_length q' = pq_length q \<Longrightarrow> contents q' = contents q"
  by (simp add: contents_def)

lemma contents_simps [simp]:
  "contents (signal q) = contents q" "contents (count_drop q) = contents q" "contents (q\<lparr>pq_dropped := n\<rparr>) = contents q"
  "contents (q\<lparr>pq_ready := r\<rparr>) = contents q" "contents (q\<lparr>pq_closed := c\<rparr>) = contents q"
  by (auto intro!: contents_cong simp: signal_def count_drop_def)

lemma contents_after_take [simp]: "contents (after_take q) = contents q"
  by (cases "pq_length q") (simp_all add: after_take_def contents_def signal_def)

lemma take_head_spec:
  assumes "ring_ok q" "0 < pq_length q" "take_head b q = (item, b', q')"
  shows "contents q = item # contents q'" "ring_ok q'" "qb_used b' = qb_used b - qp_size item" "qb_limit b' = qb_limit b"
    "length (pq_items q') = length (pq_items q)" "pq_closed q' = pq_closed q" "pq_ready q' = pq_ready q" "pq_dropped q' = pq_dropped q"
proof -
  let ?L = "length (pq_items q)" and ?h = "pq_head q"
  have L: "?h < ?L" "pq_length q \<le> ?L" using assms(1) by (auto simp: ring_ok_def)
  have q': "item = pq_items q ! ?h" "b' = budget_release (qp_size item) b"
    "q' = q\<lparr>pq_items := (pq_items q)[?h := zero_packet], pq_head := (?h + 1) mod ?L, pq_length := pq_length q - 1, pq_bytes := pq_bytes q - qp_size item\<rparr>"
    using assms(3) by (auto simp: take_head_def Let_def)
  have "contents q = ring ?h 1 (pq_items q) @ ring ((?h + 1) mod ?L) (pq_length q - 1) (pq_items q)"
    using ring_split [of ?h 1 "pq_length q - 1" "pq_items q"] assms(2) by (simp add: contents_def)
  also have "ring ?h 1 (pq_items q) = [item]" using L by (simp add: ring_def q'(1))
  also have "ring ((?h + 1) mod ?L) (pq_length q - 1) (pq_items q) = contents q'"
  proof -
    have "(pq_items q)[?h := zero_packet] ! (((?h + 1) mod ?L + i) mod ?L) = pq_items q ! (((?h + 1) mod ?L + i) mod ?L)" if "i < pq_length q - 1" for i
    proof -
      have "?h mod ?L \<noteq> (?h + 1 + i) mod ?L" by (rule mod_apart) (use that L in auto)
      then show ?thesis using L by (simp add: mod_add_left_eq)
    qed
    then show ?thesis by (simp add: contents_def q'(3)) (rule ring_cong [symmetric], auto)
  qed
  finally show c: "contents q = item # contents q'" by simp
  show "ring_ok q'" using assms(1) c L by (auto simp: ring_ok_def q'(3) intro: mod_less_divisor)
  show "qb_used b' = qb_used b - qp_size item" "qb_limit b' = qb_limit b"
    "length (pq_items q') = length (pq_items q)" "pq_closed q' = pq_closed q" "pq_ready q' = pq_ready q" "pq_dropped q' = pq_dropped q"
    by (simp_all add: q' budget_release_def)
qed

lemma ring_ok_wf: "pq_wf q \<Longrightarrow> \<not> pq_closed q \<Longrightarrow> ring_ok q"
  by (simp add: pq_wf_def ring_ok_def)

lemma wf_suffix:
  assumes "pq_wf q" "\<not> pq_closed q" "ring_ok q'" "\<not> pq_closed q'" "contents q = xs @ contents q'"
    "chitandaSenderInitialCapacity \<le> length (pq_items q')" "length (pq_items q') \<le> chitandaSenderMaxCapacity"
  shows "pq_wf q'"
proof -
  have s: "\<forall>x \<in> set (contents q). chitandaSenderPacketOverhead \<le> qp_size x" "pq_bytes q = sum_list (map qp_size (contents q))"
    "pq_bytes q \<le> chitandaSenderMaxFlowBytes" using assms(1) by (auto simp: pq_wf_def)
  have "0 \<le> sum_list (map qp_size xs)"
    using s(1) assms(5) by (intro sum_list_nonneg) (force simp: chitandaSenderPacketOverhead_def)
  then have "pq_bytes q' \<le> chitandaSenderMaxFlowBytes" using s(2,3) assms(3,5) by (simp add: ring_ok_def)
  then show ?thesis using assms(3-7) s(1) by (auto simp: pq_wf_def ring_ok_def)
qed

definition took :: "queue_budget \<Rightarrow> 'p packet_queue \<Rightarrow> 'p queued_packet list \<Rightarrow> queue_budget \<Rightarrow> 'p packet_queue \<Rightarrow> bool" where
  "took b q xs b' q' \<longleftrightarrow> contents q = xs @ contents q' \<and> qb_used b' = qb_used b - sum_list (map qp_size xs) \<and> qb_limit b' = qb_limit b \<and>
     pq_closed q' = pq_closed q \<and> ring_ok q' \<and> length (pq_items q') = length (pq_items q) \<and> pq_ready q' = pq_ready q"

lemma took_head: "ring_ok q \<Longrightarrow> 0 < pq_length q \<Longrightarrow> take_head b q = (item, b', q') \<Longrightarrow> took b q [item] b' q'"
  using take_head_spec [of q b item b' q'] by (simp add: took_def)

lemma took_trans: "took b q xs b' q' \<Longrightarrow> took b' q' ys b'' q'' \<Longrightarrow> took b q (xs @ ys) b'' q''"
  by (simp add: took_def)

lemma took_refl: "ring_ok q \<Longrightarrow> took b q [] b q"
  by (simp add: took_def)

definition fresh_at :: "int \<Rightarrow> 'p queued_packet \<Rightarrow> bool" where
  "fresh_at now x \<longleftrightarrow> now - qp_added x \<le> chitandaSenderMaxAge"

lemma take_batch_spec:
  assumes "ring_ok q" "n \<le> pq_length q" "take_batch now n batch expired b q = (batch', expired', b', q')"
  shows "\<exists>xs. took b q xs b' q' \<and> length xs = n \<and> batch' = batch @ map qp_packet (filter (fresh_at now) xs) \<and>
    expired' = expired @ map qp_packet (filter (\<lambda>x. \<not> fresh_at now x) xs)"
  using assms
proof (induction n arbitrary: batch expired b q)
  case 0
  then show ?case using took_refl by (intro exI [of _ "[]"]) auto
next
  case (Suc n)
  obtain item b1 q1 where t: "take_head b q = (item, b1, q1)" by (metis prod_cases3)
  have h: "took b q [item] b1 q1" using took_head [OF Suc.prems(1) _ t] Suc.prems(2) by simp
  have q1: "ring_ok q1" "n \<le> pq_length q1" using h Suc.prems(2) take_head_length [OF t] by (auto simp: took_def)
  have "\<exists>xs. took b1 q1 xs b' q' \<and> length xs = n \<and> batch' = (batch @ map qp_packet (filter (fresh_at now) [item])) @ map qp_packet (filter (fresh_at now) xs) \<and>
    expired' = (expired @ map qp_packet (filter (\<lambda>x. \<not> fresh_at now x) [item])) @ map qp_packet (filter (\<lambda>x. \<not> fresh_at now x) xs)"
    using Suc.prems(3) t by (intro Suc.IH [OF q1]) (simp add: fresh_at_def split: if_splits)
  then obtain xs where "took b1 q1 xs b' q'" "length xs = n" "batch' = (batch @ map qp_packet (filter (fresh_at now) [item])) @ map qp_packet (filter (fresh_at now) xs)"
    "expired' = (expired @ map qp_packet (filter (\<lambda>x. \<not> fresh_at now x) [item])) @ map qp_packet (filter (\<lambda>x. \<not> fresh_at now x) xs)" by blast
  then show ?case using took_trans [OF h] by (intro exI [of _ "item # xs"]) auto
qed

lemma close_loop_spec:
  assumes "ring_ok q" "n = pq_length q" "close_loop n acc b q = (items, b', q')"
  shows "took b q (contents q) b' q' \<and> items = acc @ map qp_packet (contents q)"
  using assms
proof (induction n arbitrary: acc b q)
  case 0
  then have "contents q = []" by (simp flip: length_0_conv)
  then show ?case using 0 took_refl by simp
next
  case (Suc n)
  obtain item b1 q1 where t: "take_head b q = (item, b1, q1)" by (metis prod_cases3)
  have h: "took b q [item] b1 q1" using took_head [OF Suc.prems(1) _ t] Suc.prems(2) by simp
  have q1: "ring_ok q1" "n = pq_length q1" using h Suc.prems(2) take_head_length [OF t] by (auto simp: took_def)
  have "took b1 q1 (contents q1) b' q' \<and> items = (acc @ [qp_packet item]) @ map qp_packet (contents q1)"
    using Suc.prems(3) t by (intro Suc.IH [OF q1]) simp
  then show ?case using took_trans [OF h, of "contents q1" b' q'] h by (simp add: took_def)
qed

lemma after_take_wf:
  assumes "pq_wf q" "\<not> pq_closed q" "took b q xs b' q'"
  shows "pq_wf (after_take q')" "\<not> pq_closed (after_take q')" "contents q = xs @ contents (after_take q')"
    "contents (after_take q') \<noteq> [] \<Longrightarrow> pq_ready (after_take q')"
proof -
  have i: "chitandaSenderInitialCapacity \<le> length (pq_items q)" "length (pq_items q) \<le> chitandaSenderMaxCapacity"
    using assms(1,2) by (auto simp: pq_wf_def)
  show c: "\<not> pq_closed (after_take q')" "contents q = xs @ contents (after_take q')"
    using assms(2,3) contents_after_take [of q'] by (auto simp: took_def after_take_def signal_def simp del: contents_after_take)
  show "pq_ready (after_take q')" if "contents (after_take q') \<noteq> []"
    using that by (auto simp: after_take_def signal_def simp flip: length_greater_0_conv split: if_splits)
  show "pq_wf (after_take q')"
  proof (rule wf_suffix [OF assms(1,2) _ c])
    show "ring_ok (after_take q')" using assms(3) contents_after_take [of q']
      by (auto simp: took_def ring_ok_def after_take_def signal_def contents_def chitandaSenderInitialCapacity_def split: if_splits)
  qed (use i assms(3) in \<open>auto simp: after_take_def signal_def took_def queue_limits\<close>)
qed

lemma queue_grow_spec:
  assumes "pq_wf q" "\<not> pq_closed q" "pq_length q < chitandaSenderMaxCapacity"
  shows "pq_wf (queue_grow q)" "contents (queue_grow q) = contents q" "pq_length (queue_grow q) < length (pq_items (queue_grow q))"
    "\<not> pq_closed (queue_grow q)" "pq_bytes (queue_grow q) = pq_bytes q"
proof -
  let ?q = "queue_grow q"
  have i: "chitandaSenderInitialCapacity \<le> length (pq_items q)" "length (pq_items q) \<le> chitandaSenderMaxCapacity" "ring_ok q"
    "pq_length q \<le> length (pq_items q)"
    using assms(1,2) ring_ok_wf [OF assms(1,2)] by (auto simp: pq_wf_def)
  have g: "?q = q\<lparr>pq_items := contents q @ replicate (min (pq_length q * 2) chitandaSenderMaxCapacity - pq_length q) zero_packet, pq_head := 0\<rparr>"
    if "pq_length q = length (pq_items q)" using that by (simp add: queue_grow_def contents_def ring_def)
  show c: "contents ?q = contents q"
  proof (cases "pq_length q = length (pq_items q)")
    case True
    have "contents ?q = take (pq_length q) (drop 0 (pq_items ?q))"
      unfolding contents_def g [OF True] by (simp, subst ring_front) auto
    then show ?thesis by (simp add: g [OF True])
  qed (simp add: queue_grow_def)
  show l: "pq_length ?q < length (pq_items ?q)" using i(1,4) assms(3) g by (cases "pq_length q = length (pq_items q)") (auto simp: queue_grow_def queue_limits)
  show b: "pq_bytes ?q = pq_bytes q" and n: "\<not> pq_closed ?q" using assms(2) by (auto simp: queue_grow_def)
  have "length (pq_items q) \<le> length (pq_items ?q)" "length (pq_items ?q) \<le> chitandaSenderMaxCapacity" "pq_head ?q < length (pq_items ?q)"
    using i assms(3) g by (cases "pq_length q = length (pq_items q)"; auto simp: queue_grow_def ring_ok_def queue_limits)+
  then show "pq_wf ?q" using assms(1) i(1) c b n l by (auto simp: pq_wf_def)
qed

lemma queue_append_spec:
  assumes "pq_wf q" "\<not> pq_closed q" "pq_length q < length (pq_items q)" "chitandaSenderPacketOverhead \<le> sz" "sz \<le> chitandaSenderMaxFlowBytes - pq_bytes q"
  shows "pq_wf (queue_append p now sz q)" "contents (queue_append p now sz q) = contents q @ [\<lparr>qp_packet = Some p, qp_added = now, qp_size = sz\<rparr>]"
    "\<not> pq_closed (queue_append p now sz q)" "pq_ready (queue_append p now sz q)"
proof -
  let ?x = "\<lparr>qp_packet = Some p, qp_added = now, qp_size = sz\<rparr>"
  define t where "t = (pq_head q + pq_length q) mod length (pq_items q)"
  have t: "t < length (pq_items q)" unfolding t_def by (rule mod_less_divisor) (use assms(3) in linarith)
  then have u: "(pq_items q)[t := ?x] = copy_at t [?x] (pq_items q)" by (simp add: copy_at_def upd_conv_take_nth_drop)
  have "ring (pq_head q) (pq_length q + length [?x]) (copy_at t [?x] (pq_items q)) = ring (pq_head q) (pq_length q) (pq_items q) @ [?x]"
    using assms(3) t by (intro ring_write) (auto simp: t_def)
  then show c: "contents (queue_append p now sz q) = contents q @ [?x]"
    by (simp add: queue_append_def signal_def contents_def u flip: t_def)
  show "\<not> pq_closed (queue_append p now sz q)" "pq_ready (queue_append p now sz q)" using assms(2) by (auto simp: queue_append_def signal_def)
  show "pq_wf (queue_append p now sz q)" using assms unfolding pq_wf_def c by (auto simp: queue_append_def signal_def)
qed

lemma packet_size_ge: "chitandaSenderPacketOverhead \<le> chitandaPacketSize data p"
  by (simp add: chitandaPacketSize_def split: prod.splits)

text \<open>\<open>push\<close> takes an expired packet out when the ring is full, and appends the new one or drops it.\<close>

lemma push_spec:
  assumes "pq_wf q" "push data now p b q = (ds, b', q')"
  shows "\<exists>xs ys rest. contents q = xs @ rest \<and> contents q' = rest @ ys \<and> ds = (if ys = [] then [Some p] else []) @ map qp_packet xs \<and>
    (\<forall>x \<in> set ys. ys = [x] \<and> qp_packet x = Some p \<and> qp_added x = now \<and> qb_used b' \<le> qb_limit b \<and> pq_ready q') \<and> pq_wf q' \<and> pq_closed q' = pq_closed q \<and>
    qb_used b' = qb_used b - sum_list (map qp_size xs) + sum_list (map qp_size ys) \<and> qb_limit b' = qb_limit b \<and> (pq_ready q \<longrightarrow> pq_ready q')"
proof -
  define sz where "sz = chitandaPacketSize data p"
  have cd: "pq_wf (count_drop q) = pq_wf q" "pq_closed (count_drop q) = pq_closed q" "pq_ready (count_drop q) = pq_ready q"
    "pq_length (count_drop q) = pq_length q" "pq_bytes (count_drop q) = pq_bytes q" for q :: "'a packet_queue"
    by (simp_all add: pq_wf_def) (simp_all add: count_drop_def)
  show ?thesis
  proof (cases "pq_closed q \<or> pq_length q = chitandaSenderMaxCapacity \<and> now - qp_added (pq_items q ! pq_head q) \<le> chitandaSenderMaxAge")
    case True
    then have "push data now p b q = ([Some p], b, count_drop q)" by (cases "pq_closed q") (simp_all add: push_def)
    then have "ds = [Some p]" "b' = b" "q' = count_drop q" using assms(2) by auto
    then show ?thesis using assms(1) cd by (intro exI [of _ "[]"] exI [of _ "contents q"]) simp
  next
    case False
    define x where "x = (if pq_length q = chitandaSenderMaxCapacity
                   then (case take_head b q of (item, b, q) \<Rightarrow> ([qp_packet item], b, count_drop q)) else ([], b, q))"
    obtain exs b1 q1 where x: "x = (exs, b1, q1)" by (metis prod_cases3)
    have l: "pq_length q \<le> chitandaSenderMaxCapacity" "ring_ok q" using assms(1) False by (auto simp: pq_wf_def ring_ok_def)
    have "\<exists>xs. contents q = xs @ contents q1 \<and> exs = map qp_packet xs \<and> qb_used b1 = qb_used b - sum_list (map qp_size xs) \<and> qb_limit b1 = qb_limit b \<and>
        pq_wf q1 \<and> \<not> pq_closed q1 \<and> pq_length q1 < chitandaSenderMaxCapacity \<and> (pq_ready q \<longrightarrow> pq_ready q1)"
    proof (cases "pq_length q = chitandaSenderMaxCapacity")
      case full: True
      obtain item b2 q2 where t: "take_head b q = (item, b2, q2)" by (metis prod_cases3)
      have tk: "took b q [item] b2 q2" using took_head [OF l(2) _ t] full by (simp add: queue_limits)
      have "pq_wf q2" using wf_suffix [OF assms(1) _ _ _ , of q2 "[item]"] tk assms(1) False by (auto simp: took_def pq_wf_def)
      then show ?thesis using x full t tk cd take_head_length [OF t] False
        by (intro exI [of _ "[item]"]) (auto simp: x_def took_def queue_limits)
    qed (use x x_def False assms(1) l in \<open>auto simp: pq_wf_def\<close>)
    then obtain xs where xs: "contents q = xs @ contents q1" "exs = map qp_packet xs" "qb_used b1 = qb_used b - sum_list (map qp_size xs)" "qb_limit b1 = qb_limit b"
        "pq_wf q1" "\<not> pq_closed q1" "pq_length q1 < chitandaSenderMaxCapacity" "pq_ready q \<longrightarrow> pq_ready q1" by blast
    have r: "(if sz > chitandaSenderMaxFlowBytes - pq_bytes q1 \<or> sz > qb_limit b1 - qb_used b1 then (Some p # exs, b1, count_drop q1)
        else (exs, b1\<lparr>qb_used := qb_used b1 + sz\<rparr>, queue_append p now sz (queue_grow q1))) = (ds, b', q')"
      using assms(2) False x unfolding push_def x_def [symmetric] Let_def sz_def [symmetric] by (auto simp: budget_reserve_def split: if_splits)
    show ?thesis
    proof (cases "sz > chitandaSenderMaxFlowBytes - pq_bytes q1 \<or> sz > qb_limit b1 - qb_used b1")
      case True
      then have "ds = Some p # exs" "b' = b1" "q' = count_drop q1" using r by auto
      then show ?thesis using xs False cd by (intro exI [of _ xs] exI [of _ "[]"] exI [of _ "contents q1"]) simp
    next
      case ok: False
      note g = queue_grow_spec [OF xs(5-7)]
      have a: "chitandaSenderPacketOverhead \<le> sz" "sz \<le> chitandaSenderMaxFlowBytes - pq_bytes (queue_grow q1)" using ok g(5) packet_size_ge by (auto simp: sz_def)
      note ap = queue_append_spec [OF g(1,4,3) a, of p now]
      have "ds = exs" "b' = b1\<lparr>qb_used := qb_used b1 + sz\<rparr>" "q' = queue_append p now sz (queue_grow q1)" using r ok by auto
      then show ?thesis using xs ap g(2) ok False
        by (intro exI [of _ xs] exI [of _ "[\<lparr>qp_packet = Some p, qp_added = now, qp_size = sz\<rparr>]"] exI [of _ "contents q1"]) simp
    qed
  qed
qed

subsection \<open>All queues of the process\<close>

text \<open>
  A flow is a queue with its history: what was pushed, handed to the sender and dropped, and how many senders have taken the
  token out of \<open>ready\<close> and are not finished. A run interleaves the sections of any number of pushers and senders of any number of flows.
\<close>

record 'p flow =
  fl_queue :: "'p packet_queue"
  fl_pushed :: "'p list"
  fl_delivered :: "'p option list"
  fl_dropped :: "'p option list"
  fl_awake :: nat

record 'p queues =
  qs_budget :: queue_budget
  qs_flows :: "'p flow list"

definition new_flow :: "'p flow" where
  "new_flow = \<lparr>fl_queue = newChitandaPacketQueue, fl_pushed = [], fl_delivered = [], fl_dropped = [], fl_awake = 0\<rparr>"

definition advance :: "nat \<Rightarrow> queue_budget \<Rightarrow> 'p packet_queue \<Rightarrow> 'p list \<Rightarrow> 'p option list \<Rightarrow> 'p option list \<Rightarrow> bool \<Rightarrow> 'p queues \<Rightarrow> 'p queues" where
  "advance i b q ps out ds fin w =
     (let f = qs_flows w ! i
      in w\<lparr>qs_budget := b,
           qs_flows := (qs_flows w)[i := \<lparr>fl_queue = q, fl_pushed = fl_pushed f @ ps, fl_delivered = fl_delivered f @ out,
                                          fl_dropped = fl_dropped f @ ds, fl_awake = fl_awake f - (if fin then 1 else 0)\<rparr>]\<rparr>)"

inductive queues_run :: "('p \<Rightarrow> nat \<times> nat) \<Rightarrow> 'p queues \<Rightarrow> bool" for data where
  run_start: "queues_run data \<lparr>qs_budget = chitandaGlobalQueueBudget, qs_flows = []\<rparr>"
| run_new: "queues_run data w \<Longrightarrow> queues_run data (w\<lparr>qs_flows := qs_flows w @ [new_flow]\<rparr>)"
| run_push: "queues_run data w \<Longrightarrow> i < length (qs_flows w) \<Longrightarrow> push data now p (qs_budget w) (fl_queue (qs_flows w ! i)) = (ds, b, q) \<Longrightarrow>
    queues_run data (advance i b q [p] [] ds False w)"
| run_wake: "queues_run data w \<Longrightarrow> i < length (qs_flows w) \<Longrightarrow> pq_ready (fl_queue (qs_flows w ! i)) \<Longrightarrow>
    queues_run data (w\<lparr>qs_flows := (qs_flows w)[i := (qs_flows w ! i)\<lparr>fl_queue := (fl_queue (qs_flows w ! i))\<lparr>pq_ready := False\<rparr>, fl_awake := fl_awake (qs_flows w ! i) + 1\<rparr>]\<rparr>)"
| run_pop: "queues_run data w \<Longrightarrow> i < length (qs_flows w) \<Longrightarrow> pop_round now (qs_budget w) (fl_queue (qs_flows w ! i)) = (st, ds, b, q) \<Longrightarrow>
    queues_run data (advance i b q [] (case st of PopReturns p \<Rightarrow> [p] | _ \<Rightarrow> []) ds (st \<noteq> PopAgain) w)"
| run_batch: "queues_run data w \<Longrightarrow> i < length (qs_flows w) \<Longrightarrow> batch_round now mx (qs_budget w) (fl_queue (qs_flows w ! i)) = (st, ds, b, q) \<Longrightarrow>
    queues_run data (advance i b q [] (case st of Some out \<Rightarrow> out | None \<Rightarrow> []) ds (st \<noteq> None) w)"
| run_close: "queues_run data w \<Longrightarrow> i < length (qs_flows w) \<Longrightarrow> queue_close (qs_budget w) (fl_queue (qs_flows w ! i)) = (ds, b, q) \<Longrightarrow>
    queues_run data (advance i b q [] [] ds False w)"

definition flow_inv :: "'p flow \<Rightarrow> bool" where
  "flow_inv f \<longleftrightarrow> pq_wf (fl_queue f) \<and>
     mset (map Some (fl_pushed f)) = mset (fl_delivered f) + mset (fl_dropped f) + mset (map qp_packet (contents (fl_queue f))) \<and>
     subseq (fl_delivered f @ map qp_packet (contents (fl_queue f))) (map Some (fl_pushed f)) \<and>
     (contents (fl_queue f) \<noteq> [] \<longrightarrow> pq_ready (fl_queue f) \<or> 0 < fl_awake f)"

definition queues_inv :: "'p queues \<Rightarrow> bool" where
  "queues_inv w \<longleftrightarrow> qb_limit (qs_budget w) = chitandaSenderGlobalBytes \<and> qb_used (qs_budget w) \<le> chitandaSenderGlobalBytes \<and>
     qb_used (qs_budget w) = sum_list (map (\<lambda>f. pq_bytes (fl_queue f)) (qs_flows w)) \<and> (\<forall>f \<in> set (qs_flows w). flow_inv f)"

text \<open>What every section does: it takes a prefix out, hands on or drops it, and may append what was pushed.\<close>

definition section_ok :: "queue_budget \<Rightarrow> 'p packet_queue \<Rightarrow> queue_budget \<Rightarrow> 'p packet_queue \<Rightarrow> 'p list \<Rightarrow> 'p option list \<Rightarrow> 'p option list \<Rightarrow> bool \<Rightarrow> bool" where
  "section_ok b q b' q' ps out ds fin \<longleftrightarrow> (\<exists>xs ys rest. contents q = xs @ rest \<and> contents q' = rest @ ys \<and>
     subseq out (map qp_packet xs) \<and> subseq (map qp_packet ys) (map Some ps) \<and>
     mset out + mset ds + mset (map qp_packet ys) = mset (map qp_packet xs) + mset (map Some ps) \<and>
     qb_used b' = qb_used b - sum_list (map qp_size xs) + sum_list (map qp_size ys) \<and> qb_limit b' = qb_limit b \<and>
     (ys \<noteq> [] \<longrightarrow> qb_used b' \<le> qb_limit b \<and> pq_ready q')) \<and> pq_wf q' \<and>
     (contents q' \<noteq> [] \<longrightarrow> pq_ready q' \<or> (pq_ready q' = pq_ready q \<and> \<not> fin \<and> contents q \<noteq> []))"

lemma push_section:
  assumes "pq_wf q" "push data now p b q = (ds, b', q')"
  shows "section_ok b q b' q' [p] [] ds False"
proof -
  obtain xs ys rest where s: "contents q = xs @ rest" "contents q' = rest @ ys" "ds = (if ys = [] then [Some p] else []) @ map qp_packet xs"
    "\<forall>x \<in> set ys. ys = [x] \<and> qp_packet x = Some p \<and> qp_added x = now \<and> qb_used b' \<le> qb_limit b \<and> pq_ready q'" "pq_wf q'"
    "qb_used b' = qb_used b - sum_list (map qp_size xs) + sum_list (map qp_size ys)" "qb_limit b' = qb_limit b" "pq_ready q \<longrightarrow> pq_ready q'"
    using push_spec [OF assms] by blast
  have y: "ys = [] \<or> (\<exists>x. ys = [x] \<and> qp_packet x = Some p) \<and> qb_used b' \<le> qb_limit b \<and> pq_ready q'" using s(4) by (cases ys) auto
  have r: "contents q' \<noteq> [] \<longrightarrow> pq_ready q' \<or> (pq_ready q' = pq_ready q \<and> \<not> False \<and> contents q \<noteq> [])"
    using s(1,2,8) y by auto
  have m: "mset ([] :: 'a option list) + mset ds + mset (map qp_packet ys) = mset (map qp_packet xs) + mset (map Some [p])"
    "subseq (map qp_packet ys) (map Some [p])" "ys \<noteq> [] \<longrightarrow> qb_used b' \<le> qb_limit b \<and> pq_ready q'"
    using s(3) y by auto
  show ?thesis unfolding section_ok_def
    using s(1,2,5-7) r m list_emb_Nil by blast
qed

lemma take_section:
  assumes "pq_wf q" "\<not> pq_closed q" "took b q xs b' q'" "subseq out (map qp_packet xs)" "mset out + mset ds = mset (map qp_packet xs)"
  shows "section_ok b q b' ((after_take q')\<lparr>pq_dropped := n\<rparr>) [] out ds fin"
proof -
  note a = after_take_wf [OF assms(1-3)]
  have "pq_wf ((after_take q')\<lparr>pq_dropped := n\<rparr>)" using a(1) by (auto simp: pq_wf_def split: if_splits)
  then show ?thesis unfolding section_ok_def using a assms(3-5)
    by (intro conjI exI [of _ xs] exI [of _ "[]"] exI [of _ "contents q'"]) (auto simp: took_def)
qed

lemma idle_section: "pq_wf q \<Longrightarrow> pq_length q = 0 \<Longrightarrow> section_ok b q b q [] [] [] fin"
  using contents_length [of q] by (auto simp: section_ok_def simp del: contents_length intro!: exI [of _ "[]"])

lemma pop_section:
  assumes "pq_wf q" "pop_round now b q = (st, ds, b', q')"
  shows "section_ok b q b' q' [] (case st of PopReturns p \<Rightarrow> [p] | _ \<Rightarrow> []) ds (st \<noteq> PopAgain)"
proof (cases "pq_length q = 0")
  case True
  then show ?thesis using assms idle_section by (auto simp: pop_round_def)
next
  case False
  then have c: "\<not> pq_closed q" using assms(1) by (auto simp: pq_wf_def)
  obtain item b1 q1 where t: "take_head b q = (item, b1, q1)" by (metis prod_cases3)
  have tk: "took b q [item] b1 q1" using took_head [OF ring_ok_wf [OF assms(1) c] _ t] False by simp
  have e: "after_take q1 = (after_take q1)\<lparr>pq_dropped := pq_dropped (after_take q1)\<rparr>" by simp
  show ?thesis using assms(2) False t take_section [OF assms(1) c tk, of _ _ "pq_dropped (after_take q1)", folded e]
    take_section [OF assms(1) c tk, of "[]" "[qp_packet item]" "pq_dropped (after_take q1) + 1"]
    by (auto simp: pop_round_def count_drop_def split: if_splits)
qed

lemma batch_section:
  assumes "pq_wf q" "batch_round now mx b q = (st, ds, b', q')"
  shows "section_ok b q b' q' [] (case st of Some out \<Rightarrow> out | None \<Rightarrow> []) ds (st \<noteq> None)"
proof (cases "pq_length q = 0")
  case True
  then show ?thesis using assms idle_section by (auto simp: batch_round_def)
next
  case False
  then have c: "\<not> pq_closed q" using assms(1) by (auto simp: pq_wf_def)
  obtain batch expired b1 q1 where t: "take_batch now (min (pq_length q) (batch_max mx)) [] [] b q = (batch, expired, b1, q1)" by (metis prod_cases4)
  obtain xs where xs: "took b q xs b1 q1" "batch = map qp_packet (filter (fresh_at now) xs)" "expired = map qp_packet (filter (\<lambda>x. \<not> fresh_at now x) xs)"
    using take_batch_spec [OF ring_ok_wf [OF assms(1) c] _ t] by auto
  have "subseq batch (map qp_packet xs)" "mset batch + mset expired = mset (map qp_packet xs)"
    unfolding xs(2,3) by (auto intro!: subseq_map simp: mset_map mset_filter simp flip: image_mset_union)
  from take_section [OF assms(1) c xs(1) this] show ?thesis using assms(2) False t by (auto simp: batch_round_def split: if_splits)
qed

lemma close_section:
  assumes "pq_wf q" "queue_close b q = (ds, b', q')"
  shows "section_ok b q b' q' [] [] ds False" "pq_closed q'"
proof -
  obtain b1 q1 where t: "close_loop (pq_length q) [] b (q\<lparr>pq_closed := True\<rparr>) = (ds, b1, q1)" and q': "b' = b1" "q' = q1\<lparr>pq_items := []\<rparr>"
    using assms(2) by (auto simp: queue_close_def split: prod.splits)
  have "ds = map qp_packet (contents q) \<and> pq_length q1 = 0 \<and> pq_bytes q1 = 0 \<and> pq_closed q1 \<and> qb_used b1 = qb_used b - sum_list (map qp_size (contents q)) \<and> qb_limit b1 = qb_limit b"
  proof (cases "pq_closed q")
    case True
    then show ?thesis using assms(1) t by (auto simp: pq_wf_def contents_def)
  next
    case False
    have "ring_ok (q\<lparr>pq_closed := True\<rparr>)" using ring_ok_wf [OF assms(1) False] by (simp add: ring_ok_def)
    from close_loop_spec [OF this _ t] have k: "took b (q\<lparr>pq_closed := True\<rparr>) (contents q) b1 q1" "ds = map qp_packet (contents q)" by auto
    have "contents q1 = []" using k(1) by (simp add: took_def)
    then have "pq_length q1 = 0 \<and> pq_bytes q1 = 0" using k(1) contents_length [of q1] by (auto simp: took_def ring_ok_def)
    then show ?thesis using k by (simp add: took_def)
  qed
  then have r: "ds = map qp_packet (contents q)" "pq_closed q'" "contents q' = []" "pq_wf q'" "qb_used b' = qb_used b - sum_list (map qp_size (contents q))"
    "qb_limit b' = qb_limit b"
    by (auto simp: q' pq_wf_def contents_def queue_limits)
  show "pq_closed q'" by (fact r)
  show "section_ok b q b' q' [] [] ds False" unfolding section_ok_def
    using r by (intro conjI exI [of _ "contents q"] exI [of _ "[]"]) auto
qed

lemma section_flow_inv:
  assumes "flow_inv f" "section_ok b (fl_queue f) b' q' ps out ds fin"
  shows "flow_inv \<lparr>fl_queue = q', fl_pushed = fl_pushed f @ ps, fl_delivered = fl_delivered f @ out, fl_dropped = fl_dropped f @ ds,
    fl_awake = fl_awake f - (if fin then 1 else 0)\<rparr>"
proof -
  let ?q = "fl_queue f"
  obtain xs ys rest where s: "contents ?q = xs @ rest" "contents q' = rest @ ys" "subseq out (map qp_packet xs)" "subseq (map qp_packet ys) (map Some ps)"
    "mset out + mset ds + mset (map qp_packet ys) = mset (map qp_packet xs) + mset (map Some ps)"
    and wf: "pq_wf q'" and rd: "contents q' \<noteq> [] \<longrightarrow> pq_ready q' \<or> (pq_ready q' = pq_ready ?q \<and> \<not> fin \<and> contents ?q \<noteq> [])"
    using assms(2) unfolding section_ok_def by blast
  have i: "mset (map Some (fl_pushed f)) = mset (fl_delivered f) + mset (fl_dropped f) + mset (map qp_packet (contents ?q))"
    "subseq (fl_delivered f @ map qp_packet (contents ?q)) (map Some (fl_pushed f))" "contents ?q \<noteq> [] \<longrightarrow> pq_ready ?q \<or> 0 < fl_awake f"
    using assms(1) by (auto simp: flow_inv_def)
  have "mset (map Some (fl_pushed f @ ps)) = mset (fl_delivered f @ out) + mset (fl_dropped f @ ds) + mset (map qp_packet (contents q'))"
    using i(1) s(1,2,5) by (simp add: ac_simps)
  moreover have "subseq ((fl_delivered f @ out) @ map qp_packet (contents q')) (map Some (fl_pushed f @ ps))"
  proof -
    have "subseq (fl_delivered f @ (out @ map qp_packet rest)) (fl_delivered f @ map qp_packet (contents ?q))"
      using s(1,3) by (intro list_emb_append_mono) auto
    from subseq_order.trans [OF this i(2)] have "subseq (fl_delivered f @ out @ map qp_packet rest) (map Some (fl_pushed f))" .
    from list_emb_append_mono [OF this s(4)] show ?thesis using s(2) by simp
  qed
  moreover have "contents q' \<noteq> [] \<longrightarrow> pq_ready q' \<or> 0 < fl_awake f - (if fin then 1 else 0)" using rd i(3) by auto
  ultimately show ?thesis using wf by (simp add: flow_inv_def)
qed

lemma sum_list_map_update:
  "i < length xs \<Longrightarrow> sum_list (map g (xs[i := y])) = sum_list (map g xs) - g (xs ! i) + (g y :: int)"
  by (induction xs arbitrary: i) (auto split: nat.splits)

lemma section_inv:
  assumes "queues_inv w" "i < length (qs_flows w)" "section_ok (qs_budget w) (fl_queue (qs_flows w ! i)) b q ps out ds fin"
  shows "queues_inv (advance i b q ps out ds fin w)"
proof -
  let ?f = "qs_flows w ! i" and ?b = "qs_budget w"
  have f: "flow_inv ?f" using assms(1,2) by (auto simp: queues_inv_def)
  have i: "qb_limit ?b = chitandaSenderGlobalBytes" "qb_used ?b \<le> chitandaSenderGlobalBytes" "qb_used ?b = sum_list (map (\<lambda>f. pq_bytes (fl_queue f)) (qs_flows w))"
    using assms(1) by (auto simp: queues_inv_def)
  obtain xs ys rest where s: "contents (fl_queue ?f) = xs @ rest" "contents q = rest @ ys"
     "qb_used b = qb_used ?b - sum_list (map qp_size xs) + sum_list (map qp_size ys)" "qb_limit b = qb_limit ?b"
     "ys \<noteq> [] \<longrightarrow> qb_used b \<le> qb_limit ?b" and wf: "pq_wf q" using assms(3) unfolding section_ok_def by blast
  have wf0: "pq_wf (fl_queue ?f)" using f by (simp add: flow_inv_def)
  have "0 \<le> sum_list (map qp_size xs)"
    using wf0 s(1) by (intro sum_list_nonneg) (force simp: pq_wf_def chitandaSenderPacketOverhead_def)
  then have "qb_used b \<le> chitandaSenderGlobalBytes" using s(3-5) i by (cases "ys = []") auto
  moreover have "qb_used b = sum_list (map (\<lambda>f. pq_bytes (fl_queue f)) (qs_flows (advance i b q ps out ds fin w)))"
    using assms(2) wf wf0 s(1-3) i(3) by (simp add: advance_def Let_def sum_list_map_update pq_wf_def)
  moreover have "\<forall>f \<in> set (qs_flows (advance i b q ps out ds fin w)). flow_inv f"
    using assms(1) section_flow_inv [OF f assms(3)] set_update_subset_insert [of "qs_flows w" i]
    by (fastforce simp: advance_def Let_def queues_inv_def)
  ultimately show ?thesis using s(4) i(1) by (simp add: queues_inv_def advance_def Let_def)
qed

lemma queues_run_inv: "queues_run data w \<Longrightarrow> queues_inv w"
proof (induction rule: queues_run.induct)
  case run_start
  show ?case by (simp add: queues_inv_def chitandaGlobalQueueBudget_def queue_limits)
next
  case (run_new w)
  have "flow_inv new_flow"
    by (simp add: flow_inv_def new_flow_def pq_wf_def contents_def newChitandaPacketQueue_def queue_limits)
  then show ?case using run_new.IH by (auto simp: queues_inv_def new_flow_def newChitandaPacketQueue_def)
next
  case (run_push w i now p ds b q)
  then show ?case by (intro section_inv push_section) (auto simp: queues_inv_def flow_inv_def)
next
  case (run_wake w i)
  let ?f = "qs_flows w ! i"
  let ?f' = "?f\<lparr>fl_queue := (fl_queue ?f)\<lparr>pq_ready := False\<rparr>, fl_awake := fl_awake ?f + 1\<rparr>"
  have "flow_inv ?f" using run_wake by (auto simp: queues_inv_def)
  then have "flow_inv ?f'" by (simp add: flow_inv_def pq_wf_def)
  then show ?case using run_wake set_update_subset_insert [of "qs_flows w" i ?f']
    by (auto simp: queues_inv_def sum_list_map_update)
next
  case (run_pop w i now st ds b q)
  then show ?case by (intro section_inv pop_section) (auto simp: queues_inv_def flow_inv_def)
next
  case (run_batch w i now mx st ds b q)
  then show ?case by (intro section_inv batch_section) (auto simp: queues_inv_def flow_inv_def)
next
  case (run_close w i ds b q)
  then show ?case by (intro section_inv close_section) (auto simp: queues_inv_def flow_inv_def)
qed

subsection \<open>Taking batches\<close>

lemma batch_round_spec:
  assumes "pq_wf q" "batch_round now mx b q = (st, ds, b', q')"
  shows "\<exists>xs. contents q = xs @ contents q' \<and> (case st of None \<Rightarrow> [] | Some out \<Rightarrow> out) = map qp_packet (filter (fresh_at now) xs) \<and>
    ds = map qp_packet (filter (\<lambda>x. \<not> fresh_at now x) xs) \<and> length xs \<le> batch_max mx \<and> (st = Some [] \<longrightarrow> contents q' = []) \<and> pq_wf q'"
proof (cases "pq_length q = 0")
  case True
  then have "contents q = []" by (simp flip: length_0_conv)
  then show ?thesis using True assms by (auto simp: batch_round_def)
next
  case False
  then have c: "\<not> pq_closed q" using assms(1) by (auto simp: pq_wf_def)
  obtain batch expired b1 q1 where t: "take_batch now (min (pq_length q) (batch_max mx)) [] [] b q = (batch, expired, b1, q1)" by (metis prod_cases4)
  obtain xs where xs: "took b q xs b1 q1" "batch = map qp_packet (filter (fresh_at now) xs)" "expired = map qp_packet (filter (\<lambda>x. \<not> fresh_at now x) xs)"
    "length xs \<le> batch_max mx"
    using take_batch_spec [OF ring_ok_wf [OF assms(1) c] _ t] by auto
  have r: "st = (if batch = [] then None else Some batch)" "ds = expired" "contents q' = contents (after_take q1)"
    using assms(2) False t by (auto simp: batch_round_def)
  have "pq_wf q'" using batch_section [OF assms] by (simp add: section_ok_def)
  then show ?thesis using after_take_wf(3) [OF assms(1) c xs(1)] xs(2-4) r by (intro exI [of _ xs]) auto
qed

lemma popBatch_spec:
  assumes "pq_wf q" "popBatch now mx b q = (out, ds, b', q')"
  shows "\<exists>xs. contents q = xs @ contents q' \<and> out = map qp_packet (filter (fresh_at now) xs) \<and>
    ds = map qp_packet (filter (\<lambda>x. \<not> fresh_at now x) xs) \<and> length out \<le> batch_max mx \<and> (out = [] \<longrightarrow> contents q' = [])"
  using assms
proof (induction now mx b q arbitrary: out ds b' q' rule: popBatch.induct)
  case (1 now mx b q)
  obtain st d1 b1 q1 where r: "batch_round now mx b q = (st, d1, b1, q1)" by (metis prod_cases4)
  obtain xs where xs: "contents q = xs @ contents q1" "(case st of None \<Rightarrow> [] | Some out \<Rightarrow> out) = map qp_packet (filter (fresh_at now) xs)"
      "d1 = map qp_packet (filter (\<lambda>x. \<not> fresh_at now x) xs)" "length xs \<le> batch_max mx" "st = Some [] \<longrightarrow> contents q1 = []" "pq_wf q1"
    using batch_round_spec [OF "1.prems"(1) r] by blast
  show ?case
  proof (cases st)
    case (Some batch)
    then have "out = batch" "ds = d1" "q' = q1" using "1.prems"(2) r by (subst (asm) popBatch.simps, simp)+
    moreover have "length batch \<le> batch_max mx"
      using xs(2,4) Some le_trans [OF length_filter_le xs(4)] by simp
    ultimately show ?thesis using xs Some by auto
  next
    case None
    obtain o2 d2 b2 q2 where p: "popBatch now mx b1 q1 = (o2, d2, b2, q2)" by (metis prod_cases4)
    have e: "out = o2" "ds = d1 @ d2" "q' = q2" using "1.prems"(2) r None p by (subst (asm) popBatch.simps, simp)+
    obtain ys where ys: "contents q1 = ys @ contents q2" "o2 = map qp_packet (filter (fresh_at now) ys)"
        "d2 = map qp_packet (filter (\<lambda>x. \<not> fresh_at now x) ys)" "length o2 \<le> batch_max mx" "o2 = [] \<longrightarrow> contents q2 = []"
      using "1.IH" [OF r [symmetric] _ _ _ xs(6) p] None by blast
    have "filter (fresh_at now) xs = []" using xs(2) None by (metis Nil_is_map_conv option.simps(4))
    then show ?thesis using xs(1,3) ys e by (intro exI [of _ "xs @ ys"]) auto
  qed
qed

subsection \<open>Properties\<close>

text \<open>
  C22: Whatever pushes, pops, batches, closes and wake-ups are interleaved on whatever number of associations, the
  accounting is exact and nothing waits unseen: the process-wide budget holds the sum of the charged sizes of all queued packets and stays
  between zero and 64 MiB, each association holds at most 12 MiB and 8192 packets, a closed queue holds nothing, and
  a queue with packets has its ready token set or a sender at work.
\<close>

theorem packet_queue_accounting:
  assumes "queues_run data w"
  shows "qb_used (qs_budget w) = sum_list (map (\<lambda>f. sum_list (map qp_size (contents (fl_queue f)))) (qs_flows w)) \<and>
    0 \<le> qb_used (qs_budget w) \<and> qb_used (qs_budget w) \<le> 64 * 1024 * 1024 \<and>
    (\<forall>f \<in> set (qs_flows w). sum_list (map qp_size (contents (fl_queue f))) \<le> 12 * 1024 * 1024 \<and> length (contents (fl_queue f)) \<le> 8192 \<and>
       (pq_closed (fl_queue f) \<longrightarrow> contents (fl_queue f) = []) \<and>
       (contents (fl_queue f) \<noteq> [] \<longrightarrow> pq_ready (fl_queue f) \<or> 0 < fl_awake f))"
proof -
  have i: "\<forall>f \<in> set (qs_flows w). flow_inv f" "qb_used (qs_budget w) \<le> chitandaSenderGlobalBytes"
    "qb_used (qs_budget w) = sum_list (map (\<lambda>f. pq_bytes (fl_queue f)) (qs_flows w))"
    using queues_run_inv [OF assms] by (auto simp: queues_inv_def)
  have b: "pq_bytes (fl_queue f) = sum_list (map qp_size (contents (fl_queue f)))" "0 \<le> pq_bytes (fl_queue f)"
    "pq_bytes (fl_queue f) \<le> 12 * 1024 * 1024" "length (contents (fl_queue f)) \<le> 8192" "pq_closed (fl_queue f) \<longrightarrow> contents (fl_queue f) = []"
    if "f \<in> set (qs_flows w)" for f
  proof -
    have wf: "pq_wf (fl_queue f)" using i(1) that by (simp add: flow_inv_def)
    then show "pq_bytes (fl_queue f) = sum_list (map qp_size (contents (fl_queue f)))" "pq_bytes (fl_queue f) \<le> 12 * 1024 * 1024"
      by (simp_all add: pq_wf_def queue_limits)
    then show "0 \<le> pq_bytes (fl_queue f)" using wf by (simp, intro sum_list_nonneg) (force simp: pq_wf_def queue_limits)
    show "length (contents (fl_queue f)) \<le> 8192" "pq_closed (fl_queue f) \<longrightarrow> contents (fl_queue f) = []"
      using wf by (auto simp: pq_wf_def queue_limits contents_def split: if_splits)
  qed
  have "qb_used (qs_budget w) = sum_list (map (\<lambda>f. sum_list (map qp_size (contents (fl_queue f)))) (qs_flows w))"
    unfolding i(3) using b(1) by (intro arg_cong [of _ _ sum_list] map_cong) auto
  moreover have "0 \<le> qb_used (qs_budget w)" unfolding i(3) using b(2) by (intro sum_list_nonneg) auto
  ultimately show ?thesis using i(1,2) b by (auto simp: flow_inv_def chitandaSenderGlobalBytes_def)
qed

text \<open>One association with one queued packet of 1500 bytes, for the examples.\<close>

definition demo_queue :: "nat packet_queue" where
  "demo_queue = newChitandaPacketQueue\<lparr>pq_items := \<lparr>qp_packet = Some 7, qp_added = 5, qp_size = 1628\<rparr> # replicate 31 zero_packet,
     pq_length := 1, pq_bytes := 1628, pq_ready := True\<rparr>"

definition demo_queues :: "nat queues" where
  "demo_queues = \<lparr>qs_budget = \<lparr>qb_used = 1628, qb_limit = chitandaSenderGlobalBytes\<rparr>,
     qs_flows = [\<lparr>fl_queue = demo_queue, fl_pushed = [7], fl_delivered = [], fl_dropped = [], fl_awake = 0\<rparr>]\<rparr>"

lemma queue_demo_push:
  "push (\<lambda>_. (100, 1500)) 5 7 chitandaGlobalQueueBudget newChitandaPacketQueue = ([], \<lparr>qb_used = 1628, qb_limit = chitandaSenderGlobalBytes\<rparr>, demo_queue)"
proof -
  have "replicate 32 z = z # replicate 31 z" for z :: "nat queued_packet" using replicate_Suc [of 31 z] by simp
  then show ?thesis
    by (simp add: push_def newChitandaPacketQueue_def chitandaPacketSize_def budget_reserve_def queue_limits queue_grow_def queue_append_def signal_def
      chitandaGlobalQueueBudget_def demo_queue_def)
qed

lemma queue_demo_run: "queues_run (\<lambda>_. (100, 1500)) demo_queues"
  using run_push [OF run_new [OF run_start], of 0 "\<lambda>_. (100, 1500)" 5 "7 :: nat"] queue_demo_push by (simp add: new_flow_def advance_def demo_queues_def)

theorem packet_queue_accounting_witness:
  "queues_run (\<lambda>_. (100, 1500)) demo_queues \<and> qb_used (qs_budget demo_queues) = sum_list (map qp_size (contents demo_queue)) \<and> contents demo_queue \<noteq> []"
  using packet_queue_accounting [OF queue_demo_run] queue_demo_run by (simp add: demo_queues_def) (simp add: contents_def ring_def demo_queue_def)

text \<open>
  C23: Packets have one owner and keep their order. In every interleaving each pushed packet is handed to the sender, dropped or
  still queued, exactly one of these; what was handed out and what is queued is in the order of the pushes. A batch takes
  packets from the front: it hands out those at most three seconds old, at most the requested number, drops the
  older ones, and it comes back empty only when the queue is empty.
\<close>

theorem packet_queue_ownership:
  assumes "queues_run data w" "f \<in> set (qs_flows w)" "popBatch now mx b (fl_queue f) = (out, ds, b', q')"
  shows "mset (map Some (fl_pushed f)) = mset (fl_delivered f) + mset (fl_dropped f) + mset (map qp_packet (contents (fl_queue f))) \<and>
    subseq (fl_delivered f @ map qp_packet (contents (fl_queue f))) (map Some (fl_pushed f)) \<and>
    (\<exists>xs. contents (fl_queue f) = xs @ contents q' \<and> out = map qp_packet (filter (\<lambda>x. now - qp_added x \<le> 3000000000) xs) \<and>
       ds = map qp_packet (filter (\<lambda>x. now - qp_added x > 3000000000) xs) \<and> length out \<le> (if mx \<le> 0 then 32 else nat mx) \<and>
       (out = [] \<longrightarrow> contents q' = []))"
proof -
  have f: "flow_inv f" using queues_run_inv [OF assms(1)] assms(2) by (simp add: queues_inv_def)
  then have "pq_wf (fl_queue f)" by (simp add: flow_inv_def)
  from popBatch_spec [OF this assms(3)] show ?thesis
    using f by (simp add: flow_inv_def fresh_at_def [abs_def] chitandaSenderMaxAge_def batch_max_def not_le)
qed

lemma queue_demo_batch: "fst (popBatch 6 0 b demo_queue) = [Some 7]"
  by (subst popBatch.simps) (simp add: demo_queue_def batch_round_def batch_max_def take_head_def newChitandaPacketQueue_def chitandaSenderMaxAge_def)

theorem packet_queue_ownership_witness:
  "queues_run (\<lambda>_. (100, 1500)) demo_queues \<and> fst (popBatch 6 0 (qs_budget demo_queues) demo_queue) = [Some 7] \<and>
   fst (snd (popBatch 6 0 (qs_budget demo_queues) demo_queue)) = []"
proof -
  obtain ds b q where p: "popBatch 6 0 (qs_budget demo_queues) demo_queue = ([Some 7], ds, b, q)"
    using queue_demo_batch [of "qs_budget demo_queues"] by (metis prod.collapse)
  have "contents demo_queue = [\<lparr>qp_packet = Some 7, qp_added = 5, qp_size = 1628\<rparr>]" by (simp add: contents_def ring_def demo_queue_def newChitandaPacketQueue_def)
  moreover have "popBatch 6 0 (qs_budget demo_queues) (fl_queue (qs_flows demo_queues ! 0)) = ([Some 7], ds, b, q)" using p by (simp add: demo_queues_def)
  ultimately have "ds = []" using packet_queue_ownership [OF queue_demo_run, of "qs_flows demo_queues ! 0" 6 0 "qs_budget demo_queues" "[Some 7]" ds b q]
    by (auto simp: demo_queues_def Cons_eq_append_conv dest!: arg_cong [of _ _ qp_added])
  then show ?thesis using p queue_demo_run by simp
qed

end
