(* ===== verification/ReplayGuard.thy ===== *)
theory ReplayGuard
  imports ReplayDurable
begin

text \<open>
  What every user of the replay cache gets from it. Requests (\<open>'j\<close>) are checked (\<open>ok\<close>) and then presented to \<open>Accept\<close> under a
  key; other requests, commits and failures come in between. The result is stated once here
  and used for each kind of request the servers admit.
\<close>

record 'j guarded =
  gw_rc :: rc_world
  gw_waiting :: "(u64 \<times> 'j \<times> int) list"
  gw_admitted :: "('j \<times> int) list"

definition guard_start :: "replay_cache \<Rightarrow> int \<Rightarrow> 'j guarded" where
  "guard_start c0 now0 = \<lparr>gw_rc = \<lparr>w_cache = c0, w_now = now0, w_waiting = [], w_promised = [], w_calls = 0\<rparr>, gw_waiting = [], gw_admitted = []\<rparr>"

definition guard_begin :: "('j \<Rightarrow> bytes) \<Rightarrow> 'j \<Rightarrow> int \<Rightarrow> accept_step \<Rightarrow> replay_cache \<Rightarrow> 'j guarded \<Rightarrow> 'j guarded" where
  "guard_begin key j now r c w = w\<lparr>gw_rc := after_begin (key j) now r c (gw_rc w),
      gw_waiting := (case r of Waiting tx \<Rightarrow> (tx, j, now) # gw_waiting w | _ \<Rightarrow> gw_waiting w),
      gw_admitted := (case r of Returned ok e \<Rightarrow> (if ok then (j, now) # gw_admitted w else gw_admitted w) | _ \<Rightarrow> gw_admitted w)\<rparr>"

definition guard_finish :: "('j \<Rightarrow> bytes) \<Rightarrow> u64 \<Rightarrow> 'j \<Rightarrow> int \<Rightarrow> bool \<Rightarrow> 'j guarded \<Rightarrow> 'j guarded" where
  "guard_finish key tx j t ok w = w\<lparr>gw_rc := (gw_rc w)\<lparr>w_waiting := remove1 (tx, key j, t) (w_waiting (gw_rc w)),
        w_promised := (if ok then (key j, t) # w_promised (gw_rc w) else w_promised (gw_rc w))\<rparr>,
      gw_waiting := remove1 (tx, j, t) (gw_waiting w),
      gw_admitted := (if ok then (j, t) # gw_admitted w else gw_admitted w)\<rparr>"

inductive guarded_run :: "('j \<Rightarrow> bytes) \<Rightarrow> ('j \<Rightarrow> int \<Rightarrow> bool) \<Rightarrow> replay_cache \<Rightarrow> int \<Rightarrow> 'j guarded \<Rightarrow> bool" for key ok c0 now0 where
  g_start: "guarded_run key ok c0 now0 (guard_start c0 now0)"
| g_begin: "guarded_run key ok c0 now0 w \<Longrightarrow> w_now (gw_rc w) \<le> now \<Longrightarrow> ok j now \<Longrightarrow>
    accept_begin env wr (key j) now (w_cache (gw_rc w)) = (r, c) \<Longrightarrow> guarded_run key ok c0 now0 (guard_begin key j now r c w)"
| g_finish: "guarded_run key ok c0 now0 w \<Longrightarrow> (tx, j, t) \<in> set (gw_waiting w) \<Longrightarrow> accept_finish tx (w_cache (gw_rc w)) = Some (res, e) \<Longrightarrow>
    guarded_run key ok c0 now0 (guard_finish key tx j t res w)"
| g_cache: "guarded_run key ok c0 now0 w \<Longrightarrow> rc_run c0 now0 (gw_rc w') \<Longrightarrow> w_waiting (gw_rc w') = w_waiting (gw_rc w) \<Longrightarrow>
    w_promised (gw_rc w') = w_promised (gw_rc w) \<Longrightarrow> gw_waiting w' = gw_waiting w \<Longrightarrow> gw_admitted w' = gw_admitted w \<Longrightarrow>
    guarded_run key ok c0 now0 w'"

definition guard_inv :: "('j \<Rightarrow> bytes) \<Rightarrow> ('j \<Rightarrow> int \<Rightarrow> bool) \<Rightarrow> replay_cache \<Rightarrow> int \<Rightarrow> 'j guarded \<Rightarrow> bool" where
  "guard_inv key ok c0 now0 w \<longleftrightarrow> rc_run c0 now0 (gw_rc w) \<and>
     mset (map (\<lambda>(tx, j, t). (tx, key j, t)) (gw_waiting w)) = mset (w_waiting (gw_rc w)) \<and>
     mset (map (\<lambda>(j, t). (key j, t)) (gw_admitted w)) = mset (w_promised (gw_rc w)) \<and>
     (\<forall>(tx, j, t) \<in> set (gw_waiting w). ok j t) \<and> (\<forall>(j, t) \<in> set (gw_admitted w). ok j t)"

lemma guard_inv_begin:
  assumes "guard_inv key ok c0 now0 w" "w_now (gw_rc w) \<le> now" "ok j now" "accept_begin env wr (key j) now (w_cache (gw_rc w)) = (r, c)"
  shows "guard_inv key ok c0 now0 (guard_begin key j now r c w)"
proof -
  have r: "rc_run c0 now0 (gw_rc w)" using assms(1) by (simp add: guard_inv_def)
  note run = rc_run.run_begin [OF r assms(2,4)]
  note i = assms(1) [unfolded guard_inv_def]
  show ?thesis
  proof (cases r)
    case (Waiting tx)
    then show ?thesis using run assms(3) i by (simp add: guard_inv_def guard_begin_def after_begin_def)
  next
    case (Returned res e)
    then show ?thesis using run assms(3) i by (cases res) (simp_all add: guard_inv_def guard_begin_def after_begin_def)
  qed
qed

lemma guard_inv_finish:
  assumes "guard_inv key ok c0 now0 w" "(tx, j, t) \<in> set (gw_waiting w)" "accept_finish tx (w_cache (gw_rc w)) = Some (res, e)"
  shows "guard_inv key ok c0 now0 (guard_finish key tx j t res w)"
proof -
  let ?f = "\<lambda>(tx, j, t). (tx, key j, t)"
  note i = assms(1) [unfolded guard_inv_def]
  have r: "rc_run c0 now0 (gw_rc w)" and m: "mset (map ?f (gw_waiting w)) = mset (w_waiting (gw_rc w))" using i by auto
  have "?f (tx, j, t) \<in> set (map ?f (gw_waiting w))" unfolding set_map using assms(2) by (rule imageI)
  then have k: "(tx, key j, t) \<in> set (w_waiting (gw_rc w))" using m by (metis (no_types, lifting) case_prod_conv set_mset_mset)
  have o: "ok j t" using assms(2) i by auto
  have w: "\<forall>(tx, j, t) \<in> set (remove1 (tx, j, t) (gw_waiting w)). ok j t"
    using i set_remove1_subset [of "(tx, j, t)" "gw_waiting w"] by blast
  have "mset (map ?f (remove1 (tx, j, t) (gw_waiting w))) = mset (remove1 (tx, key j, t) (w_waiting (gw_rc w)))"
    using assms(2) m [symmetric] by (simp add: image_mset_Diff)
  then show ?thesis using rc_run.run_finish [OF r k assms(3)] o w i by (cases res) (simp_all add: guard_inv_def guard_finish_def)
qed

lemma guarded_run_inv: "guarded_run key ok c0 now0 w \<Longrightarrow> guard_inv key ok c0 now0 w"
proof (induction rule: guarded_run.induct)
  case g_start
  show ?case by (simp add: guard_inv_def guard_start_def rc_run.run_start)
next
  case (g_cache w w')
  then show ?case by (simp add: guard_inv_def)
qed (rule guard_inv_begin guard_inv_finish; assumption)+

text \<open>Admissions under one key are at least the retention apart, and each was checked when it was presented.\<close>

lemma fresh_cache_ok: "c0 = NewReplayCache \<or> OpenReplayCache now0 content None = Inr c0 \<Longrightarrow> table_ok c0"
proof (elim disjE)
  assume "c0 = NewReplayCache"
  then show ?thesis by (simp add: table_ok_def NewReplayCache_def heap_ok_def)
qed (rule OpenReplayCache_loaded(1))

lemma guarded_once:
  assumes "guarded_run key ok c0 now0 w" "table_ok c0" "{#(j, t), (j', t')#} \<subseteq># mset (gw_admitted w)"
  shows "key j = key j' \<Longrightarrow> t \<le> t' \<Longrightarrow> t + 2 * MaxClockSkew \<le> t'" "ok j t" "ok j' t'"
proof -
  let ?f = "\<lambda>(j, t). (key j, t)"
  note i = guarded_run_inv [OF assms(1), unfolded guard_inv_def]
  have "once_inv (gw_rc w)" using i rc_run_once [OF _ assms(2)] by blast
  then have sp: "spaced (mset (w_promised (gw_rc w)))" using spaced_subset [of "w_granted (gw_rc w)"] by (auto simp: once_inv_def w_granted_def)
  have "image_mset ?f {#(j, t), (j', t')#} \<subseteq># image_mset ?f (mset (gw_admitted w))" using assms(3) by (rule image_mset_subseteq_mono)
  also have "\<dots> = mset (w_promised (gw_rc w))" using i by simp
  finally have "{#(key j, t), (key j', t')#} \<subseteq># mset (w_promised (gw_rc w))" by simp
  then have "far_apart (key j, t) (key j', t')" using sp unfolding spaced_def by blast
  then show "t + 2 * MaxClockSkew \<le> t'" if "key j = key j'" "t \<le> t'" using that by (simp add: far_apart_def)
  have "set_mset {#(j, t), (j', t')#} \<subseteq> set (gw_admitted w)" using set_mset_mono [OF assms(3)] by simp
  then show "ok j t" "ok j' t'" using i by auto
qed

text \<open>Steps that only touch the cache.\<close>

lemma guarded_tick: "guarded_run key ok c0 now0 w \<Longrightarrow> guarded_run key ok c0 now0 (w\<lparr>gw_rc := (gw_rc w)\<lparr>w_cache := commit_tick sync (w_cache (gw_rc w))\<rparr>\<rparr>)"
  using guarded_run_inv [of key ok c0 now0 w] rc_run.run_tick [of c0 now0 "gw_rc w" sync] 
  by - (rule g_cache [of _ _ _ _ w], auto simp: guard_inv_def)

lemma guarded_wait: "guarded_run key ok c0 now0 w \<Longrightarrow> w_now (gw_rc w) \<le> now \<Longrightarrow> guarded_run key ok c0 now0 (w\<lparr>gw_rc := (gw_rc w)\<lparr>w_now := now\<rparr>\<rparr>)"
  using guarded_run_inv [of key ok c0 now0 w] rc_run.run_wait [of c0 now0 "gw_rc w" now] 
  by - (rule g_cache [of _ _ _ _ w], auto simp: guard_inv_def)

end
