(* ===== verification/HttpServer.thy ===== *)
theory HttpServer
  imports ReplayGuard H1Session StreamServer
begin

text \<open>
  The HTTP side of the server: request signatures (\<^verbatim>\<open>src/pkg/auth/auth.go\<close>), authorisation, routing and the plain HTTP/1.1
  handshake (\<^verbatim>\<open>src/pkg/server/server.go\<close>, \<^verbatim>\<open>http3.go\<close>) and what is handed to the fallback site
  (\<^verbatim>\<open>fallback.go\<close>). A handler runs up to its call of \<open>Accept\<close>, which may wait for a commit, and from
  there to its answer; so handlers interleave. The fallback handler, dialling and relaying are outside the model.
\<close>

subsection \<open>Signatures\<close>

definition AuthDomainV2 :: bytes where "AuthDomainV2 = lit ''MYXRAY-AUTH-V2''"

definition writeLengthPrefixed :: "bytes \<Rightarrow> bytes" where
  "writeLengthPrefixed s = putUint16 (word_of_nat (length s)) @ s"

definition Signature :: "crypto \<Rightarrow> bytes \<Rightarrow> bytes \<Rightarrow> bytes \<Rightarrow> bytes \<Rightarrow> bytes \<Rightarrow> bytes \<Rightarrow> bytes \<Rightarrow> bytes" where
  "Signature cr psk mode method path target timestamp nonce =
     b64_encode (hmac_sha256 cr psk
       (writeLengthPrefixed AuthDomainV2 @ writeLengthPrefixed mode @ writeLengthPrefixed method @ writeLengthPrefixed path @
        writeLengthPrefixed target @ writeLengthPrefixed timestamp @ writeLengthPrefixed nonce))"

definition Verify :: "crypto \<Rightarrow> bytes \<Rightarrow> bytes \<Rightarrow> bytes \<Rightarrow> bytes \<Rightarrow> bytes \<Rightarrow> bytes \<Rightarrow> bytes \<Rightarrow> bytes \<Rightarrow> int \<Rightarrow> bool" where
  "Verify cr psk mode method path target timestamp nonce signature now =
     (case ParseInt timestamp of
        None \<Rightarrow> False
      | Some unixSeconds \<Rightarrow>
          if nonce = [] \<or> signature = [] then False
          else let requestTime = unixSeconds * second
               in if requestTime < now - MaxClockSkew \<or> now + MaxClockSkew < requestTime then False
                  else hmac_Equal (Signature cr psk mode method path target timestamp nonce) signature)"

subsection \<open>Requests and the fallback\<close>

record http_request =
  rq_method :: bytes
  rq_path :: bytes
  rq_protoMajor :: nat
  rq_proto :: bytes
  rq_header :: "(bytes \<times> bytes list) list"
  rq_body :: source
  rq_contentLength :: int

definition header_Get :: "bytes \<Rightarrow> http_request \<Rightarrow> bytes" where
  "header_Get name r = (case map_of (rq_header r) name of Some (v # _) \<Rightarrow> v | _ \<Rightarrow> [])"

definition header_Del :: "bytes \<Rightarrow> http_request \<Rightarrow> http_request" where
  "header_Del name r = r\<lparr>rq_header := AList.delete name (rq_header r)\<rparr>"

definition headerTarget :: bytes where "headerTarget = lit ''X-Session-Target''"
definition headerTimestamp :: bytes where "headerTimestamp = lit ''X-Session-Time''"
definition headerNonce :: bytes where "headerNonce = lit ''X-Session-Nonce''"
definition headerSignature :: bytes where "headerSignature = lit ''X-Session-Auth''"
definition headerMode :: bytes where "headerMode = lit ''X-Session-Mode''"

definition modeTCPv2 :: bytes where "modeTCPv2 = lit ''tcp-v2''"
definition modeUDPv2 :: bytes where "modeUDPv2 = lit ''udp-v2''"
definition udpAuthName :: bytes where "udpAuthName = lit ''udp-association''"

definition privateHeaders :: "bytes list" where
  "privateHeaders = [headerTarget, headerTimestamp, headerNonce, headerSignature, headerMode]"

definition private_attempt :: "http_request \<Rightarrow> bool" where
  "private_attempt r \<longleftrightarrow> (\<exists>name \<in> set privateHeaders. map_of (rq_header r) name \<noteq> None)"

text \<open>
  The request as the fallback handler gets it. Of the fields that describe the body the record has the body, its length and the header fields; \<open>GetBody\<close>, the decoded transfer encodings and
  trailers, which the code resets likewise, and the \<open>Connection\<close> field of the answer are not in the model.
\<close>

definition serveFallback :: "http_request \<Rightarrow> http_request" where
  "serveFallback r =
     (let private = private_attempt r;
          r = fold header_Del privateHeaders r
      in if private
         then fold header_Del [lit ''Content-Length'', lit ''Transfer-Encoding'', lit ''Expect''] (r\<lparr>rq_body := [], rq_contentLength := 0\<rparr>)
         else r)"

subsection \<open>Authorisation\<close>

record http_server =
  hs_path :: bytes
  hs_psk :: bytes
  hs_users :: "user_key list"
  hs_pskList :: "bytes list"

definition bare_user :: "bytes \<Rightarrow> user_key" where
  "bare_user psk = \<lparr>uk_email = [], uk_psk = psk, uk_level = 0\<rparr>"

definition NewServer :: "bytes \<Rightarrow> bytes \<Rightarrow> http_server" where
  "NewServer path psk = \<lparr>hs_path = path, hs_psk = psk, hs_users = (if psk \<noteq> [] then [bare_user psk] else []),
     hs_pskList = (if psk \<noteq> [] then [psk] else [])\<rparr>"

definition NewServerWithUsers :: "(bytes \<Rightarrow> bytes) \<Rightarrow> (bytes \<Rightarrow> bytes) \<Rightarrow> bytes \<Rightarrow> user_key list \<Rightarrow> http_server result" where
  "NewServerWithUsers trim lower path users =
     (case ValidateUserKeys trim lower users of
        Some e \<Rightarrow> Inl e
      | None \<Rightarrow>
          (case copyUserKeys trim users of
             (validUsers, pskList) \<Rightarrow>
               Inr \<lparr>hs_path = path, hs_psk = (if length validUsers = 1 then uk_psk (validUsers ! 0) else []), hs_users = validUsers, hs_pskList = pskList\<rparr>))"

definition errInvalidSignature :: goerr where "errInvalidSignature = Errorf ''invalid signature''"
definition errReplayDetected :: goerr where "errReplayDetected = Errorf ''replay detected''"

definition authorize_user :: "crypto \<Rightarrow> http_server \<Rightarrow> int \<Rightarrow> http_request \<Rightarrow> bytes \<Rightarrow> bytes \<Rightarrow> bytes \<Rightarrow> bytes \<Rightarrow> user_key option" where
  "authorize_user cr s now r targetAddress timestamp nonce signature =
     (let mode = (if header_Get headerMode r = [] then modeTCPv2 else header_Get headerMode r);
          verify = (\<lambda>psk. Verify cr psk mode (rq_method r) (rq_path r) targetAddress timestamp nonce signature now)
      in if hs_psk s \<noteq> [] \<and> length (hs_users s) \<le> 1 then
           (if \<not> verify (hs_psk s) then None
            else Some (if length (hs_users s) = 1 then hs_users s ! 0 else bare_user (hs_psk s)))
         else find (\<lambda>u. verify (uk_psk u)) (hs_users s))"

datatype auth_step = AuthFailed goerr | AuthOK user_key | AuthWaits u64 user_key

text \<open>The replay cache is \<open>None\<close> when the server has none.\<close>

definition authorize :: "crypto \<Rightarrow> http_server \<Rightarrow> compact_env \<Rightarrow> (goerr \<times> nat) option \<Rightarrow> int \<Rightarrow> http_request \<Rightarrow> bytes \<Rightarrow> bytes \<Rightarrow> bytes \<Rightarrow> bytes \<Rightarrow>
    replay_cache option \<Rightarrow> auth_step \<times> replay_cache option" where
  "authorize cr s env wr now r targetAddress timestamp nonce signature replays =
     (case authorize_user cr s now r targetAddress timestamp nonce signature of
        None \<Rightarrow> (AuthFailed errInvalidSignature, replays)
      | Some user \<Rightarrow>
          (case replays of
             None \<Rightarrow> (AuthOK user, None)
           | Some c \<Rightarrow>
               (case accept_begin env wr nonce now c of
                  (Returned accepted err, c) \<Rightarrow> (if \<not> accepted \<or> err \<noteq> None then AuthFailed errReplayDetected else AuthOK user, Some c)
                | (Waiting tx, c) \<Rightarrow> (AuthWaits tx user, Some c))))"

subsection \<open>Routing\<close>

datatype purpose = ForProbe | ForH2 | ForH3TCP | ForH3UDP

datatype route = ToFallback | ToPlainH1 | ToAuthorize purpose bytes

definition serveHTTP3 :: "http_server \<Rightarrow> http_request \<Rightarrow> route" where
  "serveHTTP3 s r =
     (if rq_path r \<noteq> hs_path s then ToFallback
      else let targetAddress = header_Get headerTarget r
           in if rq_method r = lit ''GET'' \<and> header_Get headerMode r = modeTCPv2 then ToAuthorize ForH3TCP targetAddress
              else if rq_method r = lit ''CONNECT'' \<and> rq_proto r = lit ''connect-udp'' \<and> header_Get headerMode r = modeUDPv2 then
                (if targetAddress \<noteq> udpAuthName then ToFallback else ToAuthorize ForH3UDP targetAddress)
              else ToFallback)"

definition ServeHTTP :: "http_server \<Rightarrow> http_request \<Rightarrow> route" where
  "ServeHTTP s r =
     (if rq_method r = lit ''HEAD'' \<and> rq_path r = hs_path s \<and> header_Get (lit ''X-Carrier-Probe'') r = lit ''1'' then ToAuthorize ForProbe []
      else if rq_protoMajor r = 3 then serveHTTP3 s r
      else if rq_protoMajor r = 1 \<and> rq_method r = lit ''POST'' \<and> rq_path r = hs_path s then ToPlainH1
      else if rq_path r \<noteq> hs_path s \<or> rq_method r \<noteq> lit ''POST'' \<or> rq_protoMajor r \<noteq> 2 then ToFallback
      else ToAuthorize ForH2 (header_Get headerTarget r))"

datatype answer = Fallback http_request | ProbeOK | BadRequest | InternalServerError | NoAnswer | Tunnel purpose user_key bytes

text \<open>The answer to a request that was not authorised.\<close>

definition auth_reject :: "purpose \<Rightarrow> http_request \<Rightarrow> goerr \<Rightarrow> answer" where
  "auth_reject p r err = (if p \<noteq> ForProbe \<and> err = errReplayDetected then BadRequest else Fallback (serveFallback r))"

subsection \<open>The plain HTTP/1.1 handshake\<close>

definition plain_h1_hello :: "crypto \<Rightarrow> http_server \<Rightarrow> int \<Rightarrow> http_request \<Rightarrow> (user_key \<times> bytes \<times> u64) option \<times> http_request" where
  "plain_h1_hello cr s now r =
     (case readFull h1_ClientHelloSize (rq_body r) of
        (_, Some _, body) \<Rightarrow> (None, r\<lparr>rq_body := body\<rparr>)
      | (clientHello, None, body) \<Rightarrow>
          (if hs_psk s \<noteq> [] \<and> length (hs_users s) \<le> 1 then
             (case h1_VerifyClientHello cr (hs_psk s) clientHello (unix now) of
                Inl _ \<Rightarrow> None
              | Inr (cNonce, tStamp) \<Rightarrow> Some (if length (hs_users s) = 1 then hs_users s ! 0 else bare_user (hs_psk s), cNonce, tStamp))
           else
             (case MatchClientHello cr (hs_pskList s) clientHello (unix now) of
                Inl _ \<Rightarrow> None
              | Inr (matchedIdx, cNonce, tStamp) \<Rightarrow>
                  if length (hs_users s) \<le> matchedIdx then None else Some (hs_users s ! matchedIdx, cNonce, tStamp)),
           r\<lparr>rq_body := body\<rparr>))"

record h1_session =
  h1s_user :: user_key
  h1s_target :: bytes
  h1s_payload :: bytes
  h1s_clientKey :: bytes
  h1s_serverKey :: bytes

text \<open>From the accepted hello to the dial: the ServerHello is sent and the OPEN frame is read.\<close>

definition plain_h1_open :: "crypto \<Rightarrow> source \<Rightarrow> sink \<Rightarrow> user_key \<Rightarrow> bytes \<Rightarrow> u64 \<Rightarrow> source \<Rightarrow> (answer + h1_session) \<times> source \<times> sink" where
  "plain_h1_open cr rnd w user clientNonce ts body =
     (case h1_Derive0RTTKey cr (uk_psk user) ts clientNonce of
        Inl _ \<Rightarrow> (Inl InternalServerError, body, w)
      | Inr k0RTT \<Rightarrow>
          (case h1_CreateServerHello cr rnd (uk_psk user) clientNonce of
             (Inl _, _) \<Rightarrow> (Inl InternalServerError, body, w)
           | (Inr (serverHello, clientKey, serverKey), _) \<Rightarrow>
               (case sink_write serverHello w of
                  (_, Some _, w) \<Rightarrow> (Inl NoAnswer, body, w)
                | (_, None, w) \<Rightarrow>
                    (case readFull 2 body of
                       (_, Some _, body) \<Rightarrow> (Inl NoAnswer, body, w)
                     | (wireLenBuf, None, body) \<Rightarrow>
                         (let wireLen = unat (getUint16 wireLenBuf)
                          in if wireLen = 0 \<or> h1_MaxChunkWireLen < wireLen then (Inl NoAnswer, body, w)
                             else (case readFull wireLen body of
                                     (_, Some _, body) \<Rightarrow> (Inl NoAnswer, body, w)
                                   | (chunk0RTT, None, body) \<Rightarrow>
                                       (case h1_Decrypt0RTTChunk cr k0RTT chunk0RTT of
                                          Inl _ \<Rightarrow> (Inl NoAnswer, body, w)
                                        | Inr decryptedOpen \<Rightarrow>
                                            (case DecodeOpenFrame decryptedOpen of
                                               Inl _ \<Rightarrow> (Inl NoAnswer, body, w)
                                             | Inr (targetAddress, initialPayload) \<Rightarrow>
                                                 (Inr \<lparr>h1s_user = user, h1s_target = targetAddress, h1s_payload = initialPayload,
                                                       h1s_clientKey = clientKey, h1s_serverKey = serverKey\<rparr>, body, w)))))))))"

subsection \<open>Handlers\<close>

text \<open>
  A request that passed its checks: an HTTP request with its purpose, target and user, or a hello with its user, nonce and
  timestamp and the rest of the request. \<open>job_key\<close> is the key under which it is presented to the replay cache.
\<close>

datatype http_job = HttpJob http_request purpose bytes user_key | H1Job user_key bytes u64 http_request

fun job_key :: "http_job \<Rightarrow> bytes" where
  "job_key (HttpJob r p targetAddress user) = header_Get headerNonce r"
| "job_key (H1Job user clientNonce ts r) = hex_encode clientNonce"

fun admitted_answer :: "http_job \<Rightarrow> answer option" where
  "admitted_answer (HttpJob r p targetAddress user) = Some (if p = ForProbe then ProbeOK else Tunnel p user targetAddress)"
| "admitted_answer (H1Job user clientNonce ts r) = None"

fun rejected_answer :: "http_job \<Rightarrow> answer" where
  "rejected_answer (HttpJob r p targetAddress user) = auth_reject p r errReplayDetected"
| "rejected_answer (H1Job user clientNonce ts r) = BadRequest"

datatype handler = Answered answer | Awaits u64 http_job | Admitted http_job

definition request_headers :: "http_request \<Rightarrow> bytes \<times> bytes \<times> bytes" where
  "request_headers r = (header_Get headerTimestamp r, header_Get headerNonce r, header_Get headerSignature r)"

text \<open>A request up to its call of \<open>Accept\<close>; the clock is read in the same step, so that requests enter the cache in the order of their times.\<close>

definition handle_begin :: "crypto \<Rightarrow> http_server \<Rightarrow> compact_env \<Rightarrow> (goerr \<times> nat) option \<Rightarrow> int \<Rightarrow> http_request \<Rightarrow> replay_cache option \<Rightarrow> handler \<times> replay_cache option" where
  "handle_begin cr s env wr now r replays =
     (case ServeHTTP s r of
        ToFallback \<Rightarrow> (Answered (Fallback (serveFallback r)), replays)
      | ToAuthorize p targetAddress \<Rightarrow>
          (case request_headers r of
             (timestamp, nonce, signature) \<Rightarrow>
               (case authorize cr s env wr now r targetAddress timestamp nonce signature replays of
                  (AuthFailed err, replays) \<Rightarrow> (Answered (auth_reject p r err), replays)
                | (AuthWaits tx user, replays) \<Rightarrow> (Awaits tx (HttpJob r p targetAddress user), replays)
                | (AuthOK user, replays) \<Rightarrow> (Admitted (HttpJob r p targetAddress user), replays)))
      | ToPlainH1 \<Rightarrow>
          (case plain_h1_hello cr s now r of
             (None, r) \<Rightarrow> (Answered (Fallback (serveFallback r)), replays)
           | (Some (user, clientNonce, ts), r) \<Rightarrow>
               (case replays of
                  None \<Rightarrow> (Admitted (H1Job user clientNonce ts r), None)
                | Some c \<Rightarrow>
                    (case accept_begin env wr (hex_encode clientNonce) now c of
                       (Returned accepted err, c) \<Rightarrow>
                         (if \<not> accepted \<or> err \<noteq> None then Answered BadRequest else Admitted (H1Job user clientNonce ts r), Some c)
                     | (Waiting tx, c) \<Rightarrow> (Awaits tx (H1Job user clientNonce ts r), Some c)))))"

definition handle_finish :: "http_job \<Rightarrow> bool \<times> goerr option \<Rightarrow> handler" where
  "handle_finish j res = (case res of (accepted, err) \<Rightarrow> if \<not> accepted \<or> err \<noteq> None then Answered (rejected_answer j) else Admitted j)"

text \<open>What was checked about a job when it was presented.\<close>

fun job_ok :: "crypto \<Rightarrow> http_server \<Rightarrow> http_job \<Rightarrow> int \<Rightarrow> bool" where
  "job_ok cr s (HttpJob r p targetAddress user) now \<longleftrightarrow> ServeHTTP s r = ToAuthorize p targetAddress \<and>
     authorize_user cr s now r targetAddress (header_Get headerTimestamp r) (header_Get headerNonce r) (header_Get headerSignature r) = Some user"
| "job_ok cr s (H1Job user clientNonce ts r) now \<longleftrightarrow> (\<exists>r0. plain_h1_hello cr s now r0 = (Some (user, clientNonce, ts), r))"

lemma accept_begin_ReturnedD: "accept_begin env wr n now c = (Returned True e, c') \<Longrightarrow> e = None"
  by (auto simp: accept_begin_def accept_store_def Let_def markPersistenceFailure_def split: if_splits option.splits prod.splits)

lemma handle_begin_cases:
  assumes "handle_begin cr s env wr now r (Some c) = (h, c')"
  shows "(\<exists>a. h = Answered a \<and> c' = Some c) \<or>
    (\<exists>j st c1. job_ok cr s j now \<and> accept_begin env wr (job_key j) now c = (st, c1) \<and> c' = Some c1 \<and>
       (case st of Waiting tx \<Rightarrow> h = Awaits tx j
        | Returned acc e \<Rightarrow> if acc then h = Admitted j else h = Answered (rejected_answer j)))"
proof (cases "ServeHTTP s r")
  case (ToAuthorize p tg)
  let ?u = "authorize_user cr s now r tg (header_Get headerTimestamp r) (header_Get headerNonce r) (header_Get headerSignature r)"
  show ?thesis
  proof (cases ?u)
    case None
    then show ?thesis using assms ToAuthorize by (auto simp: handle_begin_def request_headers_def authorize_def)
  next
    case (Some u)
    obtain st c1 where a: "accept_begin env wr (header_Get headerNonce r) now c = (st, c1)" by fastforce
    have "job_ok cr s (HttpJob r p tg u) now" using Some ToAuthorize by simp
    then show ?thesis using assms ToAuthorize Some a
      by (intro disjI2 exI [of _ "HttpJob r p tg u"] exI [of _ st] exI [of _ c1])
        (cases st; auto simp: handle_begin_def request_headers_def authorize_def dest!: accept_begin_ReturnedD)
  qed
next
  case ToPlainH1
  obtain res r1 where p: "plain_h1_hello cr s now r = (res, r1)" by fastforce
  show ?thesis
  proof (cases res)
    case None
    then show ?thesis using assms ToPlainH1 p by (auto simp: handle_begin_def)
  next
    case (Some x)
    obtain u n ts where x: "x = (u, n, ts)" by (cases x)
    obtain st c1 where a: "accept_begin env wr (hex_encode n) now c = (st, c1)" by fastforce
    have "job_ok cr s (H1Job u n ts r1) now" using p Some x by auto
    then show ?thesis using assms ToPlainH1 p Some x a
      by (intro disjI2 exI [of _ "H1Job u n ts r1"] exI [of _ st] exI [of _ c1])
        (cases st; auto simp: handle_begin_def dest!: accept_begin_ReturnedD)
  qed
qed (use assms in \<open>auto simp: handle_begin_def\<close>)

subsection \<open>Concurrent requests\<close>

record http_world =
  ht_cache :: replay_cache
  ht_now :: int
  ht_waiting :: "(u64 \<times> http_job \<times> int) list"
  ht_admitted :: "(http_job \<times> int) list"

definition after_handler :: "handler \<Rightarrow> int \<Rightarrow> http_world \<Rightarrow> http_world" where
  "after_handler h t w = (case h of
       Answered a \<Rightarrow> w
     | Awaits tx j \<Rightarrow> w\<lparr>ht_waiting := (tx, j, t) # ht_waiting w\<rparr>
     | Admitted j \<Rightarrow> w\<lparr>ht_admitted := (j, t) # ht_admitted w\<rparr>)"

inductive http_run :: "crypto \<Rightarrow> http_server \<Rightarrow> replay_cache \<Rightarrow> int \<Rightarrow> http_world \<Rightarrow> bool" for cr s c0 now0 where
  http_start: "http_run cr s c0 now0 \<lparr>ht_cache = c0, ht_now = now0, ht_waiting = [], ht_admitted = []\<rparr>"
| http_request: "http_run cr s c0 now0 w \<Longrightarrow> ht_now w \<le> now \<Longrightarrow> handle_begin cr s env wr now r (Some (ht_cache w)) = (h, Some c) \<Longrightarrow>
    http_run cr s c0 now0 (after_handler h now (w\<lparr>ht_cache := c, ht_now := now\<rparr>))"
| http_commit: "http_run cr s c0 now0 w \<Longrightarrow> (tx, j, t) \<in> set (ht_waiting w) \<Longrightarrow> accept_finish tx (ht_cache w) = Some res \<Longrightarrow>
    http_run cr s c0 now0 (after_handler (handle_finish j res) t (w\<lparr>ht_waiting := remove1 (tx, j, t) (ht_waiting w)\<rparr>))"
| http_tick: "http_run cr s c0 now0 w \<Longrightarrow> http_run cr s c0 now0 (w\<lparr>ht_cache := commit_tick sync (ht_cache w)\<rparr>)"

definition http_view :: "http_job guarded \<Rightarrow> http_world" where
  "http_view g = \<lparr>ht_cache = w_cache (gw_rc g), ht_now = w_now (gw_rc g), ht_waiting = gw_waiting g, ht_admitted = gw_admitted g\<rparr>"

lemma accept_finish_cases: "accept_finish tx c = Some (ok, e) \<Longrightarrow> ok = (e = None)"
  by (cases "rc_persistErr c"; cases e) (simp_all add: accept_finish_def split: if_splits)

lemma http_run_guarded:
  "http_run cr s c0 now0 w \<Longrightarrow> \<exists>g. guarded_run job_key (job_ok cr s) c0 now0 g \<and> w = http_view g"
proof (induction rule: http_run.induct)
  case http_start
  show ?case by (intro exI [of _ "guard_start c0 now0"] conjI g_start) (simp add: http_view_def guard_start_def)
next
  case (http_request w now env wr r h c)
  then obtain g where g: "guarded_run job_key (job_ok cr s) c0 now0 g" "w = http_view g" by blast
  have le: "w_now (gw_rc g) \<le> now" using http_request(2) g(2) by (simp add: http_view_def)
  have "handle_begin cr s env wr now r (Some (w_cache (gw_rc g))) = (h, Some c)" using http_request(3) g(2) by (simp add: http_view_def)
  from handle_begin_cases [OF this] show ?case
  proof (elim disjE exE conjE)
    fix a assume a: "h = Answered a" "Some c = Some (w_cache (gw_rc g))"
    then show ?case using guarded_wait [OF g(1) le]
      by (intro exI [of _ "g\<lparr>gw_rc := (gw_rc g)\<lparr>w_now := now\<rparr>\<rparr>"]) (simp add: g(2) http_view_def after_handler_def)
  next
    fix j st c1 assume j: "job_ok cr s j now" "accept_begin env wr (job_key j) now (w_cache (gw_rc g)) = (st, c1)" "Some c = Some c1"
      "case st of Waiting tx \<Rightarrow> h = Awaits tx j | Returned acc e \<Rightarrow> if acc then h = Admitted j else h = Answered (rejected_answer j)"
    have "after_handler h now (w\<lparr>ht_cache := c, ht_now := now\<rparr>) = http_view (guard_begin job_key j now st c g)"
      using j(3,4) by (cases st) (auto simp: g(2) http_view_def after_handler_def guard_begin_def after_begin_def split: if_splits)
    then show ?case using g_begin [of job_key "job_ok cr s" c0 now0 g now j env wr st c] g(1) le j by auto
  qed
next
  case (http_commit w tx j t res)
  then obtain g where g: "guarded_run job_key (job_ok cr s) c0 now0 g" "w = http_view g" by blast
  obtain ok e where res: "res = (ok, e)" by (cases res)
  have f: "(tx, j, t) \<in> set (gw_waiting g)" "accept_finish tx (w_cache (gw_rc g)) = Some (ok, e)"
    using http_commit(2,3) g(2) res by (auto simp: http_view_def)
  have "after_handler (handle_finish j res) t (w\<lparr>ht_waiting := remove1 (tx, j, t) (ht_waiting w)\<rparr>) = http_view (guard_finish job_key tx j t ok g)"
    using accept_finish_cases [OF f(2)] res by (auto simp: g(2) http_view_def after_handler_def handle_finish_def guard_finish_def)
  then show ?case using g_finish [OF g(1) f] by auto
next
  case (http_tick w sync)
  then obtain g where g: "guarded_run job_key (job_ok cr s) c0 now0 g" "w = http_view g" by blast
  then show ?case using guarded_tick [OF g(1), of sync]
    by (intro exI [of _ "g\<lparr>gw_rc := (gw_rc g)\<lparr>w_cache := commit_tick sync (w_cache (gw_rc g))\<rparr>\<rparr>"]) (simp add: http_view_def)
qed

lemma MatchClientHello_fresh: "MatchClientHello cr keys bs now = Inr (i, n, ts) \<Longrightarrow> \<bar>int64_diff now ts\<bar> \<le> 90"
  by (auto simp: MatchClientHello_def h1_MaxTimestampSkew_def Let_def split: if_splits option.splits)

lemma plain_h1_hello_fresh: "plain_h1_hello cr s now r = (Some (u, n, ts), r') \<Longrightarrow> \<bar>int64_diff (unix now) ts\<bar> \<le> 90"
  by (auto simp: plain_h1_hello_def h1_VerifyClientHello_def dest!: MatchClientHello_fresh split: prod.splits option.splits sum.splits if_splits)

subsection \<open>What a signature covers\<close>

text \<open>The signed message determines the fields, as long as their lengths fit the 16-bit prefixes.\<close>

lemma length_prefixed_inj:
  assumes "writeLengthPrefixed a @ xs = writeLengthPrefixed b @ ys" "length a < 65536" "length b < 65536"
  shows "a = b \<and> xs = ys"
proof -
  have "putUint16 (word_of_nat (length a)) = putUint16 (word_of_nat (length b))" "a @ xs = b @ ys"
    using assms(1) by (auto simp: writeLengthPrefixed_def append_eq_append_conv)
  then have "(word_of_nat (length a) :: 16 word) = word_of_nat (length b)" by (metis get_put_Uint(1))
  then have "unat (word_of_nat (length a) :: 16 word) = unat (word_of_nat (length b) :: 16 word)" by simp
  then have "length a = length b" using assms(2,3) by (simp add: unat_of_nat)
  then show ?thesis using \<open>a @ xs = b @ ys\<close> by simp
qed

lemma prefixed_fields_inj:
  "length xs = length ys \<Longrightarrow> concat (map writeLengthPrefixed xs) = concat (map writeLengthPrefixed ys) \<Longrightarrow>
   \<forall>f \<in> set xs \<union> set ys. length f < 65536 \<Longrightarrow> xs = ys"
proof (induction xs ys rule: list_induct2)
  case (Cons x xs y ys)
  then show ?case using length_prefixed_inj [of x _ y] by fastforce
qed simp

text \<open>What is signed about a request: mode, method, path, target, timestamp and nonce.\<close>

definition signed_fields :: "http_request \<Rightarrow> bytes \<Rightarrow> bytes list" where
  "signed_fields r targetAddress = [if header_Get headerMode r = [] then modeTCPv2 else header_Get headerMode r, rq_method r, rq_path r, targetAddress,
     header_Get headerTimestamp r, header_Get headerNonce r]"

definition signed_message :: "http_request \<Rightarrow> bytes \<Rightarrow> bytes" where
  "signed_message r targetAddress = concat (map writeLengthPrefixed (AuthDomainV2 # signed_fields r targetAddress))"

lemma signed_message_inj:
  assumes "signed_message r t = signed_message r' t'" "\<forall>f \<in> set (signed_fields r t) \<union> set (signed_fields r' t'). length f < 65536"
  shows "signed_fields r t = signed_fields r' t'"
proof -
  have "length AuthDomainV2 < 65536" by (simp add: AuthDomainV2_def)
  then have "AuthDomainV2 # signed_fields r t = AuthDomainV2 # signed_fields r' t'"
    using assms by (intro prefixed_fields_inj) (auto simp: signed_message_def signed_fields_def)
  then show ?thesis by simp
qed

text \<open>An authorised request carries the signature of its fields under the key of its user, and it is fresh.\<close>

definition signature_ok :: "crypto \<Rightarrow> bytes \<Rightarrow> http_request \<Rightarrow> bytes \<Rightarrow> int \<Rightarrow> bool" where
  "signature_ok cr psk r t now \<longleftrightarrow> header_Get headerSignature r = b64_encode (hmac_sha256 cr psk (signed_message r t)) \<and>
     header_Get headerNonce r \<noteq> [] \<and>
     (\<exists>secs. ParseInt (header_Get headerTimestamp r) = Some secs \<and> \<bar>secs * second - now\<bar> \<le> MaxClockSkew)"

lemma Verify_signature:
  "Verify cr psk (if header_Get headerMode r = [] then modeTCPv2 else header_Get headerMode r) (rq_method r) (rq_path r) t (header_Get headerTimestamp r)
     (header_Get headerNonce r) (header_Get headerSignature r) now \<longleftrightarrow> signature_ok cr psk r t now \<and> header_Get headerSignature r \<noteq> []"
  by (auto simp: Verify_def Signature_def signature_ok_def signed_message_def signed_fields_def hmac_Equal_def Let_def split: option.splits)

text \<open>The users a server knows: a server made for one key knows just this one.\<close>

definition known_user :: "http_server \<Rightarrow> user_key \<Rightarrow> bool" where
  "known_user s u \<longleftrightarrow> u \<in> set (hs_users s) \<or> (hs_users s = [] \<and> hs_psk s \<noteq> [] \<and> u = bare_user (hs_psk s))"

definition server_ok :: "http_server \<Rightarrow> bool" where
  "server_ok s \<longleftrightarrow> hs_pskList s = map uk_psk (hs_users s) \<and> (\<forall>u. hs_users s = [u] \<longrightarrow> hs_psk s \<noteq> [] \<and> uk_psk u = hs_psk s)"

lemma authorize_user_signed:
  "authorize_user cr s now r t (header_Get headerTimestamp r) (header_Get headerNonce r) (header_Get headerSignature r) =
     (let ok = (\<lambda>psk. signature_ok cr psk r t now \<and> header_Get headerSignature r \<noteq> [])
      in if hs_psk s \<noteq> [] \<and> length (hs_users s) \<le> 1 then
           (if \<not> ok (hs_psk s) then None else Some (if length (hs_users s) = 1 then hs_users s ! 0 else bare_user (hs_psk s)))
         else find (\<lambda>u. ok (uk_psk u)) (hs_users s))"
  unfolding authorize_user_def Let_def Verify_signature by (rule refl)

lemma authorize_user_iff:
  assumes "server_ok s"
  shows "authorize_user cr s now r t (header_Get headerTimestamp r) (header_Get headerNonce r) (header_Get headerSignature r) = Some u \<Longrightarrow>
      known_user s u \<and> signature_ok cr (uk_psk u) r t now"
    "authorize_user cr s now r t (header_Get headerTimestamp r) (header_Get headerNonce r) (header_Get headerSignature r) = None \<Longrightarrow>
      known_user s u \<Longrightarrow> \<not> (signature_ok cr (uk_psk u) r t now \<and> header_Get headerSignature r \<noteq> [])"
proof -
  consider "hs_users s = []" | u0 where "hs_users s = [u0]" "hs_psk s \<noteq> []" "uk_psk u0 = hs_psk s" | "1 < length (hs_users s)"
    using assms by (cases "hs_users s" rule: list.exhaust; cases "tl (hs_users s)") (auto simp: server_ok_def)
  note users = this
  show "known_user s u \<and> signature_ok cr (uk_psk u) r t now"
    if a: "authorize_user cr s now r t (header_Get headerTimestamp r) (header_Get headerNonce r) (header_Get headerSignature r) = Some u"
    using users by cases (use a in \<open>auto simp: authorize_user_signed Let_def find_Some_iff known_user_def bare_user_def split: if_splits\<close>)
  show "\<not> (signature_ok cr (uk_psk u) r t now \<and> header_Get headerSignature r \<noteq> [])"
    if a: "authorize_user cr s now r t (header_Get headerTimestamp r) (header_Get headerNonce r) (header_Get headerSignature r) = None" "known_user s u"
    using users by cases (use a in \<open>auto simp: authorize_user_signed Let_def find_None_iff known_user_def bare_user_def split: if_splits\<close>)
qed

subsection \<open>Examples\<close>

definition demo_server :: http_server where
  "demo_server = NewServer (lit ''/s'') (replicate 32 7)"

text \<open>A signed HTTP/2 request with timestamp 90.\<close>

definition demo_base :: http_request where
  "demo_base = \<lparr>rq_method = lit ''POST'', rq_path = lit ''/s'', rq_protoMajor = 2, rq_proto = lit ''HTTP/2.0'',
     rq_header = [(headerTarget, [lit ''ab:80'']), (headerTimestamp, [lit ''90'']), (headerNonce, [lit ''n1''])], rq_body = [], rq_contentLength = 0\<rparr>"

definition demo_request :: http_request where
  "demo_request = demo_base\<lparr>rq_header := rq_header demo_base @
     [(headerSignature, [Signature toy_crypto (replicate 32 7) modeTCPv2 (lit ''POST'') (lit ''/s'') (lit ''ab:80'') (lit ''90'') (lit ''n1'')])]\<rparr>"

lemma demo_server_ok: "server_ok demo_server"
  by (simp add: server_ok_def demo_server_def NewServer_def bare_user_def)

lemma privateHeaders_distinct: "distinct privateHeaders"
  by code_simp

lemma demo_headers:
  "header_Get headerTarget demo_request = lit ''ab:80''" "header_Get headerTimestamp demo_request = lit ''90''"
  "header_Get headerNonce demo_request = lit ''n1''" "header_Get headerMode demo_request = []"
  "header_Get headerSignature demo_request = Signature toy_crypto (replicate 32 7) modeTCPv2 (lit ''POST'') (lit ''/s'') (lit ''ab:80'') (lit ''90'') (lit ''n1'')"
  using privateHeaders_distinct by (auto simp: privateHeaders_def header_Get_def demo_request_def demo_base_def)

lemma demo_fields:
  "signed_fields demo_request (lit ''ab:80'') = [modeTCPv2, lit ''POST'', lit ''/s'', lit ''ab:80'', lit ''90'', lit ''n1'']"
  "\<forall>f \<in> set (signed_fields demo_request (lit ''ab:80'')). length f < 65536"
proof -
  show f: "signed_fields demo_request (lit ''ab:80'') = [modeTCPv2, lit ''POST'', lit ''/s'', lit ''ab:80'', lit ''90'', lit ''n1'']"
    using demo_headers by (simp add: signed_fields_def) (simp add: demo_request_def demo_base_def)
  show "\<forall>f \<in> set (signed_fields demo_request (lit ''ab:80'')). length f < 65536" unfolding f by (simp add: modeTCPv2_def)
qed

lemma b64_encode_inj: "b64_encode a = b64_encode b \<Longrightarrow> a = b"
  by (metis b64_roundtrip option.inject)

lemma demo_authorized:
  assumes "now = 0 \<or> now = 180000000000"
  shows "authorize_user toy_crypto demo_server now demo_request (lit ''ab:80'') (header_Get headerTimestamp demo_request) (header_Get headerNonce demo_request)
     (header_Get headerSignature demo_request) = Some (bare_user (replicate 32 7))"
proof -
  have sg: "header_Get headerSignature demo_request = b64_encode (hmac_sha256 toy_crypto (replicate 32 7) (signed_message demo_request (lit ''ab:80'')))"
    by (simp add: demo_headers Signature_def signed_message_def demo_fields(1))
  have "b64_encode m \<noteq> []" if "m \<noteq> []" for m using b64_encode_inj [of m "[]"] that by auto
  moreover have "hmac_sha256 toy_crypto k m \<noteq> []" for k m using crypto_ok_simps(2) [OF toy_crypto_ok, of k m] by auto
  ultimately have ne: "header_Get headerSignature demo_request \<noteq> []" unfolding sg by blast
  have ts: "ParseInt (header_Get headerTimestamp demo_request) = Some 90" unfolding demo_headers(2) by code_simp
  have "lit ''n1'' \<noteq> []" by (simp add: lit_def)
  then have "signature_ok toy_crypto (replicate 32 7) demo_request (lit ''ab:80'') now"
    unfolding signature_ok_def sg using demo_headers(3) ts assms by (auto simp: MaxClockSkew_def)
  then show ?thesis unfolding authorize_user_signed using ne by (simp add: demo_server_def NewServer_def)
qed

lemma demo_route: "ServeHTTP demo_server demo_request = ToAuthorize ForH2 (lit ''ab:80'')"
proof -
  have "lit ''POST'' \<noteq> lit ''HEAD''" by code_simp
  moreover have "rq_method demo_request = lit ''POST'' \<and> rq_path demo_request = lit ''/s'' \<and> rq_protoMajor demo_request = 2"
    by (simp add: demo_request_def demo_base_def)
  ultimately show ?thesis by (simp add: ServeHTTP_def demo_server_def NewServer_def demo_headers)
qed

subsection \<open>Properties\<close>

text \<open>
  C26: A signature binds the whole request. When two requests with the same signature are both authorised, for whatever
  users and at whatever times, they agree on mode, method, path, target, timestamp and nonce and on the key
  of their user, unless they exhibit two different inputs of HMAC-SHA256 with the same value (and provided their
  fields are shorter than 65536 bytes, the range of the length prefix). So no part of a recorded request can be changed.
\<close>

theorem http_signature_binds:
  assumes "server_ok s"
    and "authorize_user cr s now r t (header_Get headerTimestamp r) (header_Get headerNonce r) (header_Get headerSignature r) = Some u"
    and "authorize_user cr s now' r' t' (header_Get headerTimestamp r') (header_Get headerNonce r') (header_Get headerSignature r') = Some u'"
    and "header_Get headerSignature r = header_Get headerSignature r'"
    and "\<forall>f \<in> set (signed_fields r t) \<union> set (signed_fields r' t'). length f < 65536"
  shows "signed_fields r t = signed_fields r' t' \<and> uk_psk u = uk_psk u' \<or>
    (uk_psk u, signed_message r t) \<noteq> (uk_psk u', signed_message r' t') \<and>
    hmac_sha256 cr (uk_psk u) (signed_message r t) = hmac_sha256 cr (uk_psk u') (signed_message r' t')"
proof -
  have "signature_ok cr (uk_psk u) r t now" "signature_ok cr (uk_psk u') r' t' now'"
    using authorize_user_iff(1) [OF assms(1)] assms(2,3) by blast+
  then have "hmac_sha256 cr (uk_psk u) (signed_message r t) = hmac_sha256 cr (uk_psk u') (signed_message r' t')"
    using assms(4) by (auto simp: signature_ok_def dest: b64_encode_inj)
  then show ?thesis using signed_message_inj [OF _ assms(5)] by auto
qed

theorem http_signature_binds_witness:
  "signed_fields demo_request (lit ''ab:80'') = [modeTCPv2, lit ''POST'', lit ''/s'', lit ''ab:80'', lit ''90'', lit ''n1''] \<and>
   authorize_user toy_crypto demo_server 0 demo_request (lit ''ab:80'') (header_Get headerTimestamp demo_request) (header_Get headerNonce demo_request)
     (header_Get headerSignature demo_request) = Some (bare_user (replicate 32 7))"
  using http_signature_binds [OF demo_server_ok demo_authorized [of 0] demo_authorized [of 180000000000]] demo_fields demo_authorized [of 0]
  by auto

text \<open>
  C25: Recorded requests are not served again. Whatever requests run concurrently against one server (probes, HTTP/2, HTTP/3 and plain HTTP/1.1
  handshakes, with commits and failures of the replay cache in between), two of them are admitted under the same nonce only 180 seconds apart.
  A copy of an HTTP request has the same timestamp and is admitted again at most at the very nanosecond 180 seconds
  after it was first admitted; a copy of a plain HTTP/1.1 hello only if the hello was 90 seconds ahead of the server's clock.
\<close>

theorem http_request_once:
  assumes "http_run cr s c0 now0 w" "c0 = NewReplayCache \<or> OpenReplayCache now0 content None = Inr c0" "server_ok s"
    and "{#(j, t), (j', t')#} \<subseteq># mset (ht_admitted w)" "job_key j = job_key j'" "t \<le> t'" "0 \<le> t" "t' < 2 ^ 63 * second"
  shows "t + 180 * second \<le> t' \<and>
    (case (j, j') of
       (HttpJob r p tg u, HttpJob r' p' tg' u') \<Rightarrow> header_Get headerTimestamp r = header_Get headerTimestamp r' \<longrightarrow> t' = t + 180 * second
     | (H1Job u n ts r, H1Job u' n' ts' r') \<Rightarrow> ts = ts' \<longrightarrow> int64_diff (unix t) ts = - 90
     | _ \<Rightarrow> True)"
proof -
  obtain g where g: "guarded_run job_key (job_ok cr s) c0 now0 g" "w = http_view g" using http_run_guarded [OF assms(1)] by blast
  have "{#(j, t), (j', t')#} \<subseteq># mset (gw_admitted g)" using assms(4) g(2) by (simp add: http_view_def)
  note o = guarded_once [OF g(1) fresh_cache_ok [OF assms(2)] this]
  have sep: "t + 180 * second \<le> t'" using o(1) [OF assms(5,6)] by (simp add: MaxClockSkew_def)
  have http: "t' = t + 180 * second" if h: "j = HttpJob r p tg u" "j' = HttpJob r' p' tg' u'" "header_Get headerTimestamp r = header_Get headerTimestamp r'"
    for r p tg u r' p' tg' u'
  proof -
    have "signature_ok cr (uk_psk u) r tg t" "signature_ok cr (uk_psk u') r' tg' t'"
      using authorize_user_iff(1) [OF assms(3)] o(2,3) h(1,2) by auto
    then obtain secs where "\<bar>secs * second - t\<bar> \<le> MaxClockSkew" "\<bar>secs * second - t'\<bar> \<le> MaxClockSkew"
      using h(3) by (auto simp: signature_ok_def)
    then show ?thesis using sep by (simp add: MaxClockSkew_def)
  qed
  have h1: "int64_diff (unix t) ts = - 90" if "j = H1Job u n ts r" "j' = H1Job u' n' ts r'" for u n ts r u' n' r'
  proof -
    have "\<bar>int64_diff (unix t) ts\<bar> \<le> 90" "\<bar>int64_diff (unix t') ts\<bar> \<le> 90"
      using o(2,3) that plain_h1_hello_fresh by auto
    moreover have "t div second + 90 + 90 \<le> t' div second" using zdiv_mono1 [OF sep, of second] by simp
    moreover have "0 \<le> t div second" using assms(7) by (simp add: pos_imp_zdiv_nonneg_iff)
    moreover have "t' div second < 2 ^ 63"
    proof -
      have "t' div second * second \<le> t'" by (simp add: minus_mod_eq_div_mult [symmetric])
      then show ?thesis using assms(8) by linarith
    qed
    ultimately have "int64_diff (unix t) ts \<le> - 90"
      using timestamp_spread [of "t div second" ts "t' div second" 90] by (simp add: unix_def)
    then show ?thesis using \<open>\<bar>int64_diff (unix t) ts\<bar> \<le> 90\<close> by simp
  qed
  show ?thesis using sep http h1 by (cases j; cases j') auto
qed

text \<open>The boundary is reached: the request of the example is 90 seconds ahead when it is admitted and 90 seconds old when it is admitted again.\<close>

lemma replay_seen_again:
  "accept_begin demo_env None n t (replay_seen n t) = (Returned True None, replay_seen n (t + 2 * MaxClockSkew))"
proof -
  have "rc_purge t (replay_seen n t) = NewReplayCache"
    using replay_seen_steps(2) [of n t] by (simp add: ReplayCache_Check_def Let_def)
  moreover have "rc_purge t NewReplayCache = NewReplayCache"
    using replay_seen_steps(1) [of n t] by (simp add: ReplayCache_Check_def Let_def)
  ultimately have "accept_begin demo_env None n t (replay_seen n t) = accept_begin demo_env None n t NewReplayCache"
    by (simp add: accept_begin_def replay_seen_def NewReplayCache_def)
  then show ?thesis using replay_seen_steps(3) by simp
qed

abbreviation (input) demo_job :: http_job where
  "demo_job \<equiv> HttpJob demo_request ForH2 (lit ''ab:80'') (bare_user (replicate 32 7))"

lemma http_demo_run:
  "\<exists>w. http_run toy_crypto demo_server NewReplayCache 0 w \<and> ht_admitted w = [(demo_job, 180000000000), (demo_job, 0)]"
proof -
  let ?T = "180000000000 :: int" and ?n = "lit ''n1''" and ?run = "http_run toy_crypto demo_server NewReplayCache 0"
  have T: "0 + 2 * MaxClockSkew = ?T" by (simp add: MaxClockSkew_def)
  have b: "handle_begin toy_crypto demo_server demo_env None now demo_request (Some c) = (Admitted demo_job, Some c')"
    if "now = 0 \<or> now = ?T" "accept_begin demo_env None ?n now c = (Returned True None, c')" for now c c'
    using that demo_authorized [OF that(1)] demo_route demo_headers(3) by (simp add: handle_begin_def request_headers_def authorize_def)
  have "?run \<lparr>ht_cache = replay_seen ?n ?T, ht_now = 0, ht_waiting = [], ht_admitted = [(demo_job, 0)]\<rparr>"
  proof -
    have "?run (after_handler (Admitted demo_job) 0 (\<lparr>ht_cache = NewReplayCache, ht_now = 0, ht_waiting = [], ht_admitted = []\<rparr>\<lparr>ht_cache := replay_seen ?n ?T, ht_now := 0\<rparr>))"
      by (rule http_run.http_request [OF http_run.http_start _ b]) (use replay_seen_steps(3) [of ?n 0, unfolded T] in simp_all)
    then show ?thesis by (simp add: after_handler_def)
  qed
  then have "?run (after_handler (Admitted demo_job) ?T (\<lparr>ht_cache = replay_seen ?n ?T, ht_now = 0, ht_waiting = [], ht_admitted = [(demo_job, 0)]\<rparr>
      \<lparr>ht_cache := replay_seen ?n (?T + 2 * MaxClockSkew), ht_now := ?T\<rparr>))"
    by (rule http_run.http_request [OF _ _ b]) (use replay_seen_again [of ?n ?T] in simp_all)
  then show ?thesis by (fastforce simp: after_handler_def)
qed

theorem http_request_once_witness:
  "\<exists>w. http_run toy_crypto demo_server NewReplayCache 0 w \<and> ht_admitted w = [(demo_job, 180000000000), (demo_job, 0)] \<and>
     (180000000000 :: int) = 0 + 180 * second"
proof -
  obtain w where w: "http_run toy_crypto demo_server NewReplayCache 0 w" "ht_admitted w = [(demo_job, 180000000000), (demo_job, 0)]"
    using http_demo_run by blast
  have "{#(demo_job, 0), (demo_job, 180000000000)#} \<subseteq># mset (ht_admitted w)" using w(2) by (simp add: add_mset_commute)
  from http_request_once [OF w(1) _ demo_server_ok this] w show ?thesis by fastforce
qed

lemma h1_match_loop_Some:
  "h1_match_loop cr bs i keys = Some k \<Longrightarrow> i \<le> k \<and> k - i < length keys \<and> 32 \<le> length (keys ! (k - i)) \<and>
     hmac_Equal (gslice 32 48 bs) (h1_client_tag cr (keys ! (k - i)) (gslice 0 8 bs) (gslice 8 32 bs))"
proof (induction keys arbitrary: i)
  case (Cons psk keys)
  show ?case
  proof (cases "h1_match_loop cr bs (Suc i) keys = Some k \<and> \<not> (32 \<le> length psk \<and> hmac_Equal (gslice 32 48 bs) (h1_client_tag cr psk (gslice 0 8 bs) (gslice 8 32 bs)))")
    case True
    then have "Suc i \<le> k" and r: "k - Suc i < length keys \<and> 32 \<le> length (keys ! (k - Suc i)) \<and>
        hmac_Equal (gslice 32 48 bs) (h1_client_tag cr (keys ! (k - Suc i)) (gslice 0 8 bs) (gslice 8 32 bs))" using Cons.IH by blast+
    then have "k - i = Suc (k - Suc i)" by simp
    then show ?thesis using r \<open>Suc i \<le> k\<close> by simp
  qed (use Cons.prems in \<open>auto split: if_splits\<close>)
qed simp

lemma MatchClientHello_single:
  assumes "MatchClientHello cr keys bs now = Inr (i, n, ts)"
  shows "i < length keys" "h1_VerifyClientHello cr (keys ! i) bs now = Inr (n, ts)"
proof -
  have m: "h1_match_loop cr bs 0 keys = Some i" using assms by (auto simp: MatchClientHello_def Let_def split: if_splits option.splits)
  from h1_match_loop_Some [OF m] show "i < length keys" by simp
  have "h1_match_loop cr bs 0 [keys ! i] = Some 0" using h1_match_loop_Some [OF m] by simp
  then show "h1_VerifyClientHello cr (keys ! i) bs now = Inr (n, ts)"
    using assms h1_match_loop_Some [OF m] by (auto simp: h1_VerifyClientHello_def MatchClientHello_def Let_def split: if_splits option.splits)
qed

lemma plain_h1_hello_user:
  assumes "server_ok s" "plain_h1_hello cr s now r = (Some (u, n, ts), r')"
  shows "known_user s u" "h1_VerifyClientHello cr (uk_psk u) (fst (readFull 48 (rq_body r))) (unix now) = Inr (n, ts)"
proof -
  obtain bs e body where rd: "readFull 48 (rq_body r) = (bs, e, body)" by (metis prod_cases3)
  have e: "e = None" using assms(2) rd by (cases e) (auto simp: plain_h1_hello_def h1_ClientHelloSize_def)
  have "known_user s u \<and> h1_VerifyClientHello cr (uk_psk u) bs (unix now) = Inr (n, ts)"
  proof (cases "hs_psk s \<noteq> [] \<and> length (hs_users s) \<le> 1")
    case True
    show ?thesis
    proof (cases "hs_users s")
      case Nil
      then show ?thesis using assms(2) rd e True
        by (auto simp: plain_h1_hello_def h1_ClientHelloSize_def known_user_def bare_user_def split: sum.splits)
    next
      case (Cons u0 us)
      then have "hs_users s = [u0]" "uk_psk u0 = hs_psk s" using True assms(1) by (auto simp: server_ok_def)
      then show ?thesis using assms(2) rd e True by (auto simp: plain_h1_hello_def h1_ClientHelloSize_def known_user_def split: sum.splits)
    qed
  next
    case False
    then have "(case MatchClientHello cr (hs_pskList s) bs (unix now) of Inl _ \<Rightarrow> None
        | Inr (k, cNonce, tStamp) \<Rightarrow> if length (hs_users s) \<le> k then None else Some (hs_users s ! k, cNonce, tStamp)) = Some (u, n, ts)"
      using assms(2) rd e unfolding plain_h1_hello_def h1_ClientHelloSize_def by (simp split: if_splits)
    then obtain k where k: "MatchClientHello cr (hs_pskList s) bs (unix now) = Inr (k, n, ts)" "k < length (hs_users s)" "u = hs_users s ! k"
      by (auto split: sum.splits prod.splits if_splits)
    from MatchClientHello_single(2) [OF k(1)] show ?thesis using k(2,3) assms(1) by (auto simp: server_ok_def known_user_def)
  qed
  then show "known_user s u" "h1_VerifyClientHello cr (uk_psk u) (fst (readFull 48 (rq_body r))) (unix now) = Inr (n, ts)" using rd by auto
qed

lemma header_Del_fold: "map_of (rq_header (fold header_Del ns r)) = (map_of (rq_header r)) |` (- set ns)"
  by (induction ns arbitrary: r) (auto simp: header_Del_def delete_conv' fun_eq_iff restrict_map_def)

lemma serveFallback_private: "name \<in> set privateHeaders \<Longrightarrow> map_of (rq_header (serveFallback r)) name = None"
  unfolding serveFallback_def Let_def
  by (auto simp: header_Del_def [of "lit _"] delete_conv' header_Del_fold restrict_map_def)

text \<open>
  C24: The server has no oracle for probers. A request that no known user has signed, and whose body does not begin with a valid hello of a known
  user, is handed to the fallback site whatever it looks like: every method, protocol version, path, headers and body.
  The replay cache is not touched, none of the session headers reaches the fallback, and the request is passed on unchanged
  otherwise, except that for a plain HTTP/1.1 POST the first 48 bytes of the body were read and are missing.
\<close>

theorem http_no_oracle:
  assumes "server_ok s" "\<forall>u t. known_user s u \<longrightarrow> \<not> signature_ok cr (uk_psk u) r t now"
    and "\<forall>u. known_user s u \<longrightarrow> isl (h1_VerifyClientHello cr (uk_psk u) (fst (readFull 48 (rq_body r))) (unix now))"
  shows "\<exists>r'. handle_begin cr s env wr now r replays = (Answered (Fallback (serveFallback r')), replays) \<and>
    (\<forall>name \<in> set privateHeaders. map_of (rq_header (serveFallback r')) name = None) \<and>
    (ServeHTTP s r \<noteq> ToPlainH1 \<longrightarrow> r' = r) \<and>
    (ServeHTTP s r = ToPlainH1 \<longrightarrow> r' = r\<lparr>rq_body := rq_body r'\<rparr> \<and> (src_clean (rq_body r) \<longrightarrow> src_bytes (rq_body r') = drop 48 (src_bytes (rq_body r))))"
proof (cases "ServeHTTP s r")
  case (ToAuthorize p t)
  have "authorize_user cr s now r t (header_Get headerTimestamp r) (header_Get headerNonce r) (header_Get headerSignature r) = None"
    using authorize_user_iff(1) [OF assms(1)] assms(2) by (meson not_None_eq)
  then show ?thesis using ToAuthorize
    by (intro exI [of _ r]) (simp add: handle_begin_def request_headers_def authorize_def auth_reject_def errInvalidSignature_def errReplayDetected_def serveFallback_private)
next
  case ToPlainH1
  obtain res r' where p: "plain_h1_hello cr s now r = (res, r')" by fastforce
  have "res = None"
  proof (cases res)
    case (Some x)
    then obtain u n ts where "x = (u, n, ts)" by (cases x)
    then show ?thesis using plain_h1_hello_user [OF assms(1), of cr now r] p Some assms(3) by fastforce
  qed
  moreover have "r' = r\<lparr>rq_body := rq_body r'\<rparr> \<and> (src_clean (rq_body r) \<longrightarrow> src_bytes (rq_body r') = drop 48 (src_bytes (rq_body r)))"
  proof -
    obtain bs e body where rd: "readFull 48 (rq_body r) = (bs, e, body)" by (metis prod_cases3)
    have r': "r' = r\<lparr>rq_body := body\<rparr>" using p rd by (cases e) (auto simp: plain_h1_hello_def h1_ClientHelloSize_def)
    have "src_bytes body = drop 48 (src_bytes (rq_body r))" if "src_clean (rq_body r)"
    proof (cases "48 \<le> length (src_bytes (rq_body r))")
      case True
      then show ?thesis using readFull_clean [OF that True] rd by auto
    next
      case False
      then show ?thesis using readFull_clean_short [OF that, of 48] rd by auto
    qed
    then show ?thesis using r' by simp
  qed
  ultimately show ?thesis using ToPlainH1 p by (intro exI [of _ r']) (simp add: handle_begin_def serveFallback_private)
qed (simp add: handle_begin_def serveFallback_private)

definition demo_post :: http_request where
  "demo_post = \<lparr>rq_method = lit ''POST'', rq_path = lit ''/s'', rq_protoMajor = 1, rq_proto = lit ''HTTP/1.1'', rq_header = [],
     rq_body = [(replicate 60 5, None)], rq_contentLength = 60\<rparr>"

theorem http_no_oracle_witness:
  "\<exists>r'. handle_begin toy_crypto demo_server demo_env None 0 demo_post None = (Answered (Fallback (serveFallback r')), None) \<and>
     rq_contentLength r' = 60 \<and> src_bytes (rq_body r') = replicate 12 5"
proof -
  have u: "known_user demo_server u \<Longrightarrow> u = bare_user (replicate 32 7)" for u by (simp add: known_user_def demo_server_def NewServer_def)
  have "isl (h1_VerifyClientHello toy_crypto (replicate 32 7) (fst (readFull 48 (rq_body demo_post))) (unix 0))" by code_simp
  then have v: "\<forall>u. known_user demo_server u \<longrightarrow> isl (h1_VerifyClientHello toy_crypto (uk_psk u) (fst (readFull 48 (rq_body demo_post))) (unix 0))"
    by (auto simp: bare_user_def dest!: u)
  have g: "\<forall>u t. known_user demo_server u \<longrightarrow> \<not> signature_ok toy_crypto (uk_psk u) demo_post t 0" by (simp add: signature_ok_def demo_post_def header_Get_def)
  have "ServeHTTP demo_server demo_post = ToPlainH1" "src_clean (rq_body demo_post)" "drop 48 (src_bytes (rq_body demo_post)) = replicate 12 5" by code_simp+
  then obtain r' where r': "handle_begin toy_crypto demo_server demo_env None 0 demo_post None = (Answered (Fallback (serveFallback r')), None)"
      "r' = demo_post\<lparr>rq_body := rq_body r'\<rparr>" "src_bytes (rq_body r') = replicate 12 5"
    using http_no_oracle [OF demo_server_ok g v, of demo_env None None] by auto
  have "rq_contentLength r' = rq_contentLength demo_post" by (subst r'(2)) simp
  then show ?thesis using r' by (auto simp: demo_post_def)
qed

subsection \<open>A plain HTTP/1.1 session\<close>

text \<open>What \<open>dialPlainH1\<close> puts into the body of its request: the hello and the sealed OPEN frame.\<close>

definition plain_h1_flight :: "crypto \<Rightarrow> source \<Rightarrow> bytes \<Rightarrow> int \<Rightarrow> bytes \<Rightarrow> (bytes \<times> bytes \<times> bytes) result" where
  "plain_h1_flight cr rnd psk now target =
     (case h1_CreateClientHello cr rnd psk (unix now) of
        (Inl e, _) \<Rightarrow> Inl e
      | (Inr (clientHello, clientNonce, ts), _) \<Rightarrow>
          (case h1_Derive0RTTKey cr psk ts clientNonce of
             Inl e \<Rightarrow> Inl e
           | Inr k0RTT \<Rightarrow>
               (case EncodeOpenFrame target [] of
                  Inl e \<Rightarrow> Inl e
                | Inr openFrame \<Rightarrow>
                    (case h1_Encrypt0RTTChunk cr k0RTT openFrame of
                       Inl e \<Rightarrow> Inl e
                     | Inr encrypted0RTT \<Rightarrow> Inr (clientHello, encrypted0RTT, clientNonce)))))"

lemma NewServerWithUsers_ok:
  assumes "NewServerWithUsers trim lower path users = Inr s"
  shows "server_ok s" "length (hs_users s) = length users" "i < length users \<Longrightarrow> uk_psk (hs_users s ! i) = uk_psk (users ! i)"
    "hs_pskList s = map uk_psk users" "i < length users \<Longrightarrow> 32 \<le> length (uk_psk (users ! i))"
    "hs_psk s = (if length users = 1 then uk_psk (users ! 0) else [])"
proof -
  have v: "ValidateUserKeys trim lower users = None" using assms by (auto simp: NewServerWithUsers_def split: option.splits)
  have s: "s = \<lparr>hs_path = path, hs_psk = (if length users = 1 then uk_psk (users ! 0) else []), hs_users = map (\<lambda>u. u\<lparr>uk_email := trim (uk_email u)\<rparr>) users,
      hs_pskList = map uk_psk users\<rparr>"
    using assms v by (cases users) (auto simp: NewServerWithUsers_def copyUserKeys_def)
  have l: "validate_loop trim lower b us e k = None \<Longrightarrow> \<forall>u \<in> set us. 32 \<le> length (uk_psk u)" for b us e k
    by (induction us arbitrary: e k) (auto simp: Let_def split: if_splits)
  have k: "\<forall>u \<in> set users. 32 \<le> length (uk_psk u)" using v l by (auto simp: ValidateUserKeys_def split: if_splits)
  then show "i < length users \<Longrightarrow> 32 \<le> length (uk_psk (users ! i))" by simp
  show "length (hs_users s) = length users" "i < length users \<Longrightarrow> uk_psk (hs_users s ! i) = uk_psk (users ! i)" "hs_pskList s = map uk_psk users"
    "hs_psk s = (if length users = 1 then uk_psk (users ! 0) else [])"
    by (simp_all add: s)
  show "server_ok s" using k by (auto simp: server_ok_def s)
qed

lemma plain_h1_hello_accepts:
  assumes "crypto_ok cr" "NewServerWithUsers trim lower path users = Inr s" "i < length users"
    and "h1_CreateClientHello cr rnd (uk_psk (users ! i)) (unix now) = (Inr (hello, nonce, ts), rnd')"
    and "\<forall>j < i. h1_client_tag cr (uk_psk (users ! j)) (putUint64 (unix now)) nonce \<noteq> h1_client_tag cr (uk_psk (users ! i)) (putUint64 (unix now)) nonce"
    and "\<bar>int64_diff (unix now') (unix now)\<bar> \<le> 90" "src_clean (rq_body r)" "src_bytes (rq_body r) = hello @ rest"
  shows "\<exists>body. plain_h1_hello cr s now' r = (Some (hs_users s ! i, nonce, unix now), r\<lparr>rq_body := body\<rparr>) \<and> src_clean body \<and> src_bytes body = rest"
proof -
  note su = NewServerWithUsers_ok [OF assms(2)]
  note rec = h1_CreateClientHello_record [OF assms(4,1)]
  have m: "\<exists>j \<le> k. MatchClientHello cr keys hello (unix now') = Inr (j, nonce, unix now) \<and>
      h1_client_tag cr (keys ! j) (putUint64 (unix now)) nonce = h1_client_tag cr (uk_psk (users ! i)) (putUint64 (unix now)) nonce"
    if "k < length keys" "keys ! k = uk_psk (users ! i)" for k keys
    using h1_client_hello_matched [OF assms(1,4) that assms(6)] .
  have l: "length hello = 48" using rec by auto
  obtain body where b: "readFull 48 (rq_body r) = (hello, None, body)" "src_clean body" "src_bytes body = rest"
    by (rule readFull_append_clean [OF assms(7,8)]) (use l in auto)
  have "plain_h1_hello cr s now' r = (Some (hs_users s ! i, nonce, unix now), r\<lparr>rq_body := body\<rparr>)"
  proof (cases "length users = 1")
    case True
    then have i: "i = 0" "hs_psk s = uk_psk (users ! 0)" "32 \<le> length (uk_psk (users ! 0))" using assms(3) su by auto
    have "MatchClientHello cr [uk_psk (users ! 0)] hello (unix now') = Inr (0, nonce, unix now)" using m [of 0 "[uk_psk (users ! 0)]"] i by auto
    then have "h1_VerifyClientHello cr (hs_psk s) hello (unix now') = Inr (nonce, unix now)" using i by (simp add: h1_VerifyClientHello_def)
    moreover have "hs_psk s \<noteq> []" using i by auto
    ultimately show ?thesis using b True i su(2) by (simp add: plain_h1_hello_def h1_ClientHelloSize_def)
  next
    case False
    obtain j where j: "j \<le> i" "MatchClientHello cr (map uk_psk users) hello (unix now') = Inr (j, nonce, unix now)"
        "h1_client_tag cr (map uk_psk users ! j) (putUint64 (unix now)) nonce = h1_client_tag cr (uk_psk (users ! i)) (putUint64 (unix now)) nonce"
      using m [of i "map uk_psk users"] assms(3) by auto
    have "j = i"
    proof (rule ccontr)
      assume "j \<noteq> i"
      then show False using j(1,3) assms(3,5) by simp
    qed
    then show ?thesis using b False j(2) assms(3) su(2,4,6) by (simp add: plain_h1_hello_def h1_ClientHelloSize_def)
  qed
  then show ?thesis using b by blast
qed

text \<open>
  C27: A plain HTTP/1.1 session. Given a server with several users, a client with the key of user \<open>i\<close>, clocks within 90 seconds of each other
  and no earlier user's key authenticating the same hello, a request body that begins with the client's flight, however it is split,
  makes the server recognise user \<open>i\<close>, send its hello, open the destination the client asked for (in
  canonical spelling) and leave what follows the flight unread; and the client derives from that hello exactly the server's session keys.
\<close>

theorem h1_session_established:
  assumes "crypto_ok cr" "NewServerWithUsers trim lower path users = Inr s" "i < length users"
    and "plain_h1_flight cr rnd (uk_psk (users ! i)) now target = Inr (hello, chunk, nonce)"
    and "\<forall>j < i. h1_client_tag cr (uk_psk (users ! j)) (putUint64 (unix now)) nonce \<noteq> h1_client_tag cr (uk_psk (users ! i)) (putUint64 (unix now)) nonce"
    and "\<bar>int64_diff (unix now') (unix now)\<bar> \<le> 90" "src_clean (rq_body r)" "src_bytes (rq_body r) = hello @ chunk @ rest"
    and "h1_encode_address target = Inr a" "6 \<le> length a"
    and "h1_CreateServerHello cr srnd (uk_psk (users ! i)) nonce = (Inr (serverHello, clientKey, serverKey), srnd')" "sink_ok w"
  shows "\<exists>body body'. plain_h1_hello cr s now' r = (Some (hs_users s ! i, nonce, unix now), r\<lparr>rq_body := body\<rparr>) \<and>
    plain_h1_open cr srnd w (hs_users s ! i) nonce (unix now) body =
      (Inr \<lparr>h1s_user = hs_users s ! i, h1s_target = canonAddr target, h1s_payload = [], h1s_clientKey = clientKey, h1s_serverKey = serverKey\<rparr>,
       body', w\<lparr>snk_out := snk_out w @ serverHello\<rparr>) \<and> src_clean body' \<and> src_bytes body' = rest \<and>
    h1_VerifyServerHello cr (uk_psk (users ! i)) nonce serverHello = Inr (clientKey, serverKey)"
proof -
  let ?psk = "uk_psk (users ! i)"
  obtain ts rnd' k0 frame where f: "h1_CreateClientHello cr rnd ?psk (unix now) = (Inr (hello, nonce, ts), rnd')" "h1_Derive0RTTKey cr ?psk ts nonce = Inr k0"
      "EncodeOpenFrame target [] = Inr frame" "h1_Encrypt0RTTChunk cr k0 frame = Inr chunk"
    using assms(4) by (auto simp: plain_h1_flight_def split: sum.splits prod.splits)
  have ts: "ts = unix now" using f(1) by (auto simp: h1_CreateClientHello_def Let_def split: if_splits prod.splits option.splits)
  obtain body where b: "plain_h1_hello cr s now' r = (Some (hs_users s ! i, nonce, unix now), r\<lparr>rq_body := body\<rparr>)" "src_clean body" "src_bytes body = chunk @ rest"
    using plain_h1_hello_accepts [OF assms(1-3) f(1) assms(5-8)] by blast
  have fr: "7 \<le> length frame" using f(3) assms(9,10) by (auto simp: EncodeOpenFrame_def)
  note fl = h1_open_flight [OF assms(1) f(3,4)]
  have lc: "chunk = take 2 chunk @ drop 2 chunk" "length (take 2 chunk) = 2" "length (drop 2 chunk) = length frame + 16" "length frame \<le> 16384"
    using f(4) crypto_ok_simps(7) [OF assms(1)] by (auto simp: h1_Encrypt0RTTChunk_def h1_MaxChunkPayloadLen_def split: if_splits)
  obtain b1 where b1: "readFull 2 body = (take 2 chunk, None, b1)" "src_clean b1" "src_bytes b1 = drop 2 chunk @ rest"
    by (rule readFull_append_clean [OF b(2), of "take 2 chunk" "drop 2 chunk @ rest" 2]) (use b(3) lc(1,2) in auto)
  obtain b2 where b2: "readFull (length (drop 2 chunk)) b1 = (drop 2 chunk, None, b2)" "src_clean b2" "src_bytes b2 = rest"
    by (rule readFull_append_clean [OF b1(2,3)]) auto
  have o: "plain_h1_open cr srnd w (hs_users s ! i) nonce (unix now) body =
      (Inr \<lparr>h1s_user = hs_users s ! i, h1s_target = canonAddr target, h1s_payload = [], h1s_clientKey = clientKey, h1s_serverKey = serverKey\<rparr>,
       b2, w\<lparr>snk_out := snk_out w @ serverHello\<rparr>)"
    using f(2) ts assms(11,12) b1(1) b2(1) fl fr lc(3,4) NewServerWithUsers_ok(3) [OF assms(2,3)]
    by (simp add: plain_h1_open_def h1_MaxChunkWireLen_def)
  have "h1_VerifyServerHello cr ?psk nonce serverHello = Inr (clientKey, serverKey)" by (rule h1_server_hello_accepted [OF assms(1,11)])
  then show ?thesis using b(1) o b2 by blast
qed

theorem h1_session_established_witness:
  "\<exists>s hello chunk nonce sh ck sk body' r1.
     NewServerWithUsers id id (lit ''/s'') [\<lparr>uk_email = [97], uk_psk = replicate 32 1, uk_level = 0\<rparr>, \<lparr>uk_email = [98], uk_psk = replicate 40 2, uk_level = 0\<rparr>] = Inr s \<and>
     plain_h1_flight toy_crypto [(replicate 24 5, None)] (replicate 32 1) 500000000000 (lit ''abc:80'') = Inr (hello, chunk, nonce) \<and>
     plain_h1_hello toy_crypto s 580000000000 (demo_post\<lparr>rq_body := [(hello, None), (chunk, None), ([9], None)]\<rparr>) = (Some (hs_users s ! 0, nonce, 500), r1) \<and>
     fst (plain_h1_open toy_crypto [(replicate 24 6, None)] \<lparr>snk_out = [], snk_resp = []\<rparr> (hs_users s ! 0) nonce 500 (rq_body r1)) =
       Inr \<lparr>h1s_user = hs_users s ! 0, h1s_target = lit ''abc:80'', h1s_payload = [], h1s_clientKey = ck, h1s_serverKey = sk\<rparr> \<and>
     h1_VerifyServerHello toy_crypto (replicate 32 1) nonce sh = Inr (ck, sk)"
proof -
  let ?us = "[\<lparr>uk_email = [97], uk_psk = replicate 32 1, uk_level = 0\<rparr>, \<lparr>uk_email = [98], uk_psk = replicate 40 2, uk_level = 0\<rparr>]"
  let ?n = "NewServerWithUsers id id (lit ''/s'') ?us"
  let ?f = "plain_h1_flight toy_crypto [(replicate 24 5, None)] (replicate 32 1) 500000000000 (lit ''abc:80'')"
  have "\<not> isl ?n" "\<not> isl ?f" by code_simp+
  then obtain s hello chunk nonce where n: "?n = Inr s" and f: "?f = Inr (hello, chunk, nonce)" by (metis prod.collapse sum.collapse(2))
  have a: "h1_encode_address (lit ''abc:80'') = Inr [3, 3, 97, 98, 99, 0, 80]" by code_simp
  have c: "canonAddr (lit ''abc:80'') = lit ''abc:80''" "int64_diff (unix 580000000000) (unix 500000000000) = 80" "unix 500000000000 = 500" by code_simp+
  let ?h = "h1_CreateServerHello toy_crypto [(replicate 24 6, None)] (replicate 32 1) nonce"
  have "fst (snd (readFull 24 [(replicate 24 6, None)])) = None" by code_simp
  then have "\<not> isl (fst ?h)" by (cases "readFull 24 [(replicate 24 6, None)]") (auto simp: h1_CreateServerHello_def split: prod.splits)
  then obtain sh ck sk rnd' where h: "?h = (Inr (sh, ck, sk), rnd')" by (metis prod.collapse sum.collapse(2))
  let ?r = "demo_post\<lparr>rq_body := [(hello, None), (chunk, None), ([9], None)]\<rparr>"
  have b: "src_clean (rq_body ?r)" "src_bytes (rq_body ?r) = hello @ chunk @ [9]" by (simp_all add: src_clean_simps src_bytes_simps)
  have f0: "plain_h1_flight toy_crypto [(replicate 24 5, None)] (uk_psk (?us ! 0)) 500000000000 (lit ''abc:80'') = Inr (hello, chunk, nonce)"
    and h0: "h1_CreateServerHello toy_crypto [(replicate 24 6, None)] (uk_psk (?us ! 0)) nonce = (Inr (sh, ck, sk), rnd')" using f h by simp_all
  have ok: "sink_ok \<lparr>snk_out = [], snk_resp = []\<rparr>" "(6 :: nat) \<le> length [3, 3, 97, 98, 99, 0, 80 :: byte]" "0 < length ?us" by code_simp+
  have d: "\<bar>int64_diff (unix 580000000000) (unix 500000000000)\<bar> \<le> 90" using c(2) by simp
  obtain body body' where "plain_h1_hello toy_crypto s 580000000000 ?r = (Some (hs_users s ! 0, nonce, unix 500000000000), ?r\<lparr>rq_body := body\<rparr>)"
    "plain_h1_open toy_crypto [(replicate 24 6, None)] \<lparr>snk_out = [], snk_resp = []\<rparr> (hs_users s ! 0) nonce (unix 500000000000) body =
      (Inr \<lparr>h1s_user = hs_users s ! 0, h1s_target = canonAddr (lit ''abc:80''), h1s_payload = [], h1s_clientKey = ck, h1s_serverKey = sk\<rparr>,
       body', \<lparr>snk_out = [], snk_resp = []\<rparr>\<lparr>snk_out := [] @ sh\<rparr>)"
    "h1_VerifyServerHello toy_crypto (uk_psk (?us ! 0)) nonce sh = Inr (ck, sk)"
    using h1_session_established [OF toy_crypto_ok n ok(3) f0 _ d b a ok(2) h0 ok(1)] by auto
  then show ?thesis using n f c(1,3) 
    by (intro exI [of _ s] exI [of _ hello] exI [of _ chunk] exI [of _ nonce] exI [of _ sh] exI [of _ ck] exI [of _ sk] exI [of _ body'] exI [of _ "?r\<lparr>rq_body := body\<rparr>"]) simp
qed

end
