(* ===== verification/H1Chunked.thy ===== *)
theory H1Chunked
  imports Interfaces GoText
begin

text \<open>
  The chunked transfer coding of the plain HTTP/1.1 client, \<^verbatim>\<open>src/pkg/client/conn_h1.go\<close>: lines of bounded length, the chunk
  writer and the chunk reader, which can be interrupted by a timeout anywhere and go on later. The reader works on
  a \<open>bufio.Reader\<close>, represented by the script of what it delivers; header fields are validated by functions of
  the package httpguts, which are parameters.
\<close>

definition maxH1HeaderBytes :: int where "maxH1HeaderBytes = 16 * 1024"
definition maxH1HeaderLine :: int where "maxH1HeaderLine = 4 * 1024"
definition maxH1HeaderLines :: nat where "maxH1HeaderLines = 64"
definition maxH1ChunkLine :: int where "maxH1ChunkLine = 1024"

subsection \<open>Lines\<close>

definition ErrBufferFull :: goerr where "ErrBufferFull = Errorf ''bufio: buffer full''"
definition bufioSize :: nat where "bufioSize = 4096"

definition put_back :: "bytes \<Rightarrow> goerr option \<Rightarrow> source \<Rightarrow> source" where
  "put_back bs e src = (if bs = [] \<and> e = None then src else (bs, e) # src)"

text \<open>\<open>ReadSlice('\n')\<close>: up to the newline, or what there is before an error or when the buffer is full.\<close>

fun ReadSlice :: "bytes \<Rightarrow> source \<Rightarrow> bytes \<times> goerr option \<times> source" where
  "ReadSlice buf [] = (buf, Some EOF, [])"
| "ReadSlice buf ((bs, e) # src) =
     (let room = bufioSize - length buf
      in if 10 \<in> set (take room bs) then
           (let line = takeWhile (\<lambda>c. c \<noteq> 10) bs @ [10]
            in (buf @ line, None, put_back (drop (length line) bs) e src))
         else if room < length bs \<or> (room = length bs \<and> e = None) then
           (buf @ take room bs, Some ErrBufferFull, put_back (drop room bs) e src)
         else case e of None \<Rightarrow> ReadSlice (buf @ bs) src | Some x \<Rightarrow> (buf @ bs, Some x, src))"

lemma put_back_size: "src_size (put_back bs e src) \<le> Suc (length bs + src_size src)"
  by (simp add: put_back_def)

lemma put_back_bytes [simp]: "src_bytes (put_back bs e src) = bs @ src_bytes src"
  by (simp add: put_back_def)

lemma put_back_calm [simp]: "src_calm (put_back bs e src) \<longleftrightarrow> soft e \<and> src_calm src"
  by (auto simp: put_back_def)

lemma takeWhile_newline: "10 \<in> set bs \<Longrightarrow> takeWhile (\<lambda>c. c \<noteq> 10) bs @ [10] @ drop (Suc (length (takeWhile (\<lambda>c. c \<noteq> 10) bs))) bs = (bs :: bytes)"
  by (induction bs) auto

lemma ReadSlice_size: "ReadSlice buf src = (part, e, src') \<Longrightarrow> src \<noteq> [] \<Longrightarrow> length buf < bufioSize \<Longrightarrow> src_size src' < src_size src"
proof (induction buf src arbitrary: part e src' rule: ReadSlice.induct)
  case (2 buf bs x src)
  let ?room = "bufioSize - length buf" and ?l = "takeWhile (\<lambda>c. c \<noteq> 10) bs @ [10]"
  show ?case
  proof (cases "10 \<in> set (take ?room bs)")
    case True
    then have "10 \<in> set bs" by (meson in_set_takeD)
    then have "length bs = length ?l + length (drop (length ?l) bs)" using takeWhile_newline [of bs] by (metis length_append append_assoc length_append_singleton)
    then show ?thesis using True "2.prems" put_back_size [of "drop (length ?l) bs" x src] by (auto simp: Let_def)
  next
    case False
    consider "?room < length bs \<or> (?room = length bs \<and> x = None)" | "length bs < ?room \<or> (?room = length bs \<and> x \<noteq> None)" by linarith
    then show ?thesis
    proof cases
      case 1
      then have "src' = put_back (drop ?room bs) x src" using False "2.prems"(1) by (simp add: Let_def)
      then show ?thesis using 1 "2.prems"(3) put_back_size [of "drop ?room bs" x src] by auto
    next
      case less: 2
      show ?thesis
      proof (cases x)
        case None
        then have r: "ReadSlice (buf @ bs) src = (part, e, src')" "length (buf @ bs) < bufioSize" using False less "2.prems" by (auto simp: Let_def)
        show ?thesis
        proof (cases "src = []")
          case True
          then show ?thesis using r by simp
        next
          case ne: False
          have "src_size src' < src_size src"
            by (rule "2.IH" [OF refl _ _ None r(1) ne r(2)]) (use False less None in auto)
          then show ?thesis by simp
        qed
      qed (use False less "2.prems"(1) in \<open>auto simp: Let_def split: if_splits\<close>)
    qed
  qed
qed simp

lemma ReadSlice_full:
  assumes "ReadSlice [] src = (part, Some ErrBufferFull, src')"
  shows "src_size src' < src_size src"
  using ReadSlice_size [OF assms] assms by (cases "src = []") (auto simp: ErrBufferFull_def bufioSize_def)

function line_read :: "int \<Rightarrow> bytes \<Rightarrow> source \<Rightarrow> bytes result \<times> bytes \<times> source" where
  "line_read limit partial src =
     (case ReadSlice [] src of
        (part, err, src') \<Rightarrow>
          if int (length part) > limit - int (length partial) then (Inl (Errorf ''H1 line exceeds byte limit''), partial, src')
          else let partial = partial @ part
               in if err = Some ErrBufferFull then line_read limit partial src'
                  else case err of
                         Some x \<Rightarrow> (Inl x, partial, src')
                       | None \<Rightarrow>
                           if length partial < 2 \<or> partial ! (length partial - 2) \<noteq> 13 then (Inl (Errorf ''H1 requires CRLF''), partial, src')
                           else (Inr (take (length partial - 2) partial), [], src'))"
  by pat_completeness auto
termination
  by (relation "measure (\<lambda>(_, _, src). src_size src)") (auto dest: ReadSlice_full [OF sym])

declare line_read.simps [simp del]

subsection \<open>Chunks\<close>

definition hex_value :: "byte \<Rightarrow> nat" where
  "hex_value c = the (fromHexChar c)"

definition parseH1ChunkSize :: "bytes \<Rightarrow> int result" where
  "parseH1ChunkSize line =
     (if length line = 0 \<or> 16 < length line then Inl (Errorf ''invalid chunk size'')
      else if \<exists>c \<in> set line. fromHexChar c = None then Inl (Errorf ''invalid chunk size'')
      else let v = foldl (\<lambda>acc c. acc * 16 + int (hex_value c)) 0 line
           in if v < 2 ^ 63 then Inr v else Inl (Errorf ''value out of range''))"

definition validH1Header :: "(bytes \<Rightarrow> bool) \<Rightarrow> (bytes \<Rightarrow> bool) \<Rightarrow> bytes \<Rightarrow> bool" where
  "validH1Header validName validValue line =
     (case strings_Cut 58 line of (name, value, ok) \<Rightarrow> ok \<and> validName name \<and> validValue value)"

text \<open>\<open>strconv.AppendUint(nil, n, 16)\<close>\<close>

fun hex_digits :: "nat \<Rightarrow> bytes" where
  "hex_digits n = (if n < 16 then [hex_char n] else hex_digits (n div 16) @ [hex_char (n mod 16)])"

declare hex_digits.simps [simp del]

definition CRLF :: bytes where "CRLF = [13, 10]"

definition chunk_wire :: "bytes \<Rightarrow> bytes" where
  "chunk_wire p = hex_digits (length p) @ CRLF @ p @ CRLF"

definition chunkedWriter_Write :: "bytes \<Rightarrow> sink \<Rightarrow> nat \<times> goerr option \<times> sink" where
  "chunkedWriter_Write p w =
     (if p = [] then (0, None, w)
      else let buf = chunk_wire p
           in case sink_write buf w of
                (n, Some err, w) \<Rightarrow> (0, Some err, w)
              | (n, None, w) \<Rightarrow> if n \<noteq> length buf then (0, Some ErrShortWrite, w) else (length p, None, w))"

definition last_chunk :: bytes where "last_chunk = lit ''0'' @ CRLF @ CRLF"

definition chunkedWriter_Close :: "sink \<Rightarrow> goerr option \<times> sink" where
  "chunkedWriter_Close w = (case sink_write last_chunk w of (_, err, w) \<Rightarrow> (err, w))"

record chunked_reader =
  cr_r :: source
  cr_chunkLeft :: nat
  cr_chunkEnded :: bool
  cr_line :: bytes
  cr_needCRLF :: bool
  cr_crlf :: bytes
  cr_trailers :: bool
  cr_trailerBytes :: nat
  cr_trailerLines :: nat
  cr_terminal :: "goerr option"

definition newChunkedReader :: "source \<Rightarrow> chunked_reader" where
  "newChunkedReader r = \<lparr>cr_r = r, cr_chunkLeft = 0, cr_chunkEnded = False, cr_line = [], cr_needCRLF = False, cr_crlf = [], cr_trailers = False,
     cr_trailerBytes = 0, cr_trailerLines = 0, cr_terminal = None\<rparr>"

definition cr_readError :: "goerr \<Rightarrow> chunked_reader \<Rightarrow> goerr \<times> chunked_reader" where
  "cr_readError err cr =
     (if isTimeout err then (err, cr)
      else let err = (if err = EOF then UnexpectedEOF else err) in (err, cr\<lparr>cr_terminal := Some err\<rparr>))"

definition cr_fail :: "goerr \<Rightarrow> chunked_reader \<Rightarrow> bytes \<times> goerr option \<times> chunked_reader" where
  "cr_fail err cr = (case cr_readError err cr of (err, cr) \<Rightarrow> ([], Some err, cr))"

text \<open>The trailer lines up to the empty one.\<close>

lemma line_read_size:
  "line_read limit partial src = (Inr line, partial', src') \<Longrightarrow> src_size src' < src_size src"
proof (induction limit partial src rule: line_read.induct)
  case (1 limit partial src)
  obtain part err s1 where r: "ReadSlice [] src = (part, err, s1)" by (metis prod_cases3)
  have ne: "src \<noteq> []" using r "1.prems" by (auto simp: line_read.simps [of limit partial src] ErrBufferFull_def split: if_splits)
  have lt: "src_size s1 < src_size src" using ReadSlice_size [OF r ne] by (simp add: bufioSize_def)
  show ?case
  proof (cases "err = Some ErrBufferFull")
    case True
    have fit: "\<not> int (length part) > limit - int (length partial)" using "1.prems" r by (auto simp: line_read.simps [of limit partial src])
    then have "line_read limit (partial @ part) s1 = (Inr line, partial', src')" using "1.prems" r True by (simp add: line_read.simps [of limit partial src])
    from "1.IH" [OF r [symmetric] refl fit refl True this] show ?thesis using lt by simp
  next
    case False
    then have "src' = s1" using "1.prems" r by (auto simp: line_read.simps [of limit partial src] Let_def split: if_splits option.splits)
    then show ?thesis using lt by simp
  qed
qed

function trailer_loop :: "(bytes \<Rightarrow> bool) \<Rightarrow> (bytes \<Rightarrow> bool) \<Rightarrow> chunked_reader \<Rightarrow> bytes \<times> goerr option \<times> chunked_reader" where
  "trailer_loop validName validValue cr =
     (case line_read (min maxH1HeaderLine (maxH1HeaderBytes - int (cr_trailerBytes cr))) (cr_line cr) (cr_r cr) of
        (Inl err, partial, src) \<Rightarrow> cr_fail err (cr\<lparr>cr_line := partial, cr_r := src\<rparr>)
      | (Inr line, partial, src) \<Rightarrow>
          (let cr' = cr\<lparr>cr_line := partial, cr_r := src, cr_trailerBytes := cr_trailerBytes cr + length line + 2\<rparr>
           in if line = [] then ([], Some EOF, cr'\<lparr>cr_chunkEnded := True\<rparr>)
              else let cr' = cr'\<lparr>cr_trailerLines := cr_trailerLines cr' + 1\<rparr>
                   in if maxH1HeaderLines < cr_trailerLines cr' \<or> \<not> validH1Header validName validValue line
                      then cr_fail (Errorf ''invalid chunk trailer'') cr'
                      else trailer_loop validName validValue cr'))"
  by pat_completeness auto
termination
  by (relation "measure (\<lambda>(_, _, cr). src_size (cr_r cr))") (auto dest: line_read_size [OF sym])

declare trailer_loop.simps [simp del]

definition cr_terminator :: "chunked_reader \<Rightarrow> goerr option \<times> chunked_reader" where
  "cr_terminator cr =
     (if \<not> cr_needCRLF cr then (None, cr)
      else case readFull (2 - length (cr_crlf cr)) (cr_r cr) of
             (bs, e, src) \<Rightarrow>
               let cr = cr\<lparr>cr_crlf := cr_crlf cr @ bs, cr_r := src\<rparr>
               in case e of
                    Some err \<Rightarrow> (case cr_readError err cr of (err, cr) \<Rightarrow> (Some err, cr))
                  | None \<Rightarrow>
                      if cr_crlf cr \<noteq> CRLF then (case cr_readError (Errorf ''invalid chunk terminator'') cr of (err, cr) \<Rightarrow> (Some err, cr))
                      else (None, cr\<lparr>cr_needCRLF := False, cr_crlf := []\<rparr>))"

definition cr_size :: "chunked_reader \<Rightarrow> goerr option \<times> chunked_reader" where
  "cr_size cr =
     (if 0 < cr_chunkLeft cr \<or> cr_trailers cr then (None, cr)
      else case line_read maxH1ChunkLine (cr_line cr) (cr_r cr) of
             (Inl err, partial, src) \<Rightarrow> (case cr_readError err (cr\<lparr>cr_line := partial, cr_r := src\<rparr>) of (err, cr) \<Rightarrow> (Some err, cr))
           | (Inr line, partial, src) \<Rightarrow>
               let cr = cr\<lparr>cr_line := partial, cr_r := src\<rparr>
               in case parseH1ChunkSize line of
                    Inl _ \<Rightarrow> (case cr_readError (Errorf ''invalid chunk length'') cr of (err, cr) \<Rightarrow> (Some err, cr))
                  | Inr sz \<Rightarrow>
                      if 65536 < sz then (case cr_readError (Errorf ''invalid chunk length'') cr of (err, cr) \<Rightarrow> (Some err, cr))
                      else (None, cr\<lparr>cr_chunkLeft := nat sz, cr_trailers := (sz = 0)\<rparr>))"

definition chunkedReader_Read :: "(bytes \<Rightarrow> bool) \<Rightarrow> (bytes \<Rightarrow> bool) \<Rightarrow> nat \<Rightarrow> chunked_reader \<Rightarrow> bytes \<times> goerr option \<times> chunked_reader" where
  "chunkedReader_Read validName validValue n cr =
     (if n = 0 then ([], None, cr)
      else case cr_terminal cr of
        Some e \<Rightarrow> ([], Some e, cr)
      | None \<Rightarrow>
        if cr_chunkEnded cr then ([], Some EOF, cr)
        else case cr_terminator cr of
          (Some e, cr) \<Rightarrow> ([], Some e, cr)
        | (None, cr) \<Rightarrow>
          (case cr_size cr of
             (Some e, cr) \<Rightarrow> ([], Some e, cr)
           | (None, cr) \<Rightarrow>
             if cr_trailers cr then trailer_loop validName validValue cr
             else (case src_read (min n (cr_chunkLeft cr)) (cr_r cr) of
                     (bs, e, src) \<Rightarrow>
                       let cr = cr\<lparr>cr_r := src, cr_chunkLeft := cr_chunkLeft cr - length bs\<rparr>;
                           cr = (if cr_chunkLeft cr = 0 then cr\<lparr>cr_needCRLF := True\<rparr> else cr)
                       in case e of
                            None \<Rightarrow> (bs, None, cr)
                          | Some err \<Rightarrow> (case cr_readError err cr of (err, cr) \<Rightarrow> (bs, Some err, cr)))))"

subsection \<open>Reading lines of a calm source\<close>

lemma takeWhile_upto: "10 \<notin> set l \<Longrightarrow> takeWhile (\<lambda>c. c \<noteq> 10) (l @ 10 # r) = (l :: bytes)"
  by (induction l) auto

lemma append_newline_cases:
  assumes "bs @ r = l @ 10 # (rest :: bytes)" "10 \<notin> set l"
  shows "(10 \<in> set bs \<and> (\<exists>t. bs = l @ 10 # t \<and> rest = t @ r)) \<or> (10 \<notin> set bs \<and> (\<exists>t. l = bs @ t \<and> r = t @ 10 # rest))"
  using assms by (auto simp: append_eq_append_conv2 append_eq_Cons_conv Cons_eq_append_conv)

lemma ReadSlice_calm:
  assumes "src_calm src" "src_bytes src = l @ 10 # rest" "10 \<notin> set l" "length buf + length l < bufioSize" "ReadSlice buf src = (part, e, src')"
  shows "src_calm src' \<and> (e = None \<and> part = buf @ l @ [10] \<and> src_bytes src' = rest \<or>
    (\<exists>x t. e = Some x \<and> isTimeout x \<and> part = buf @ t \<and> 10 \<notin> set t \<and> t @ src_bytes src' = l @ 10 # rest))"
  using assms
proof (induction buf src arbitrary: l rule: ReadSlice.induct)
  case (2 buf bs x src)
  have eq: "bs @ src_bytes src = l @ 10 # rest" using "2.prems"(2) by simp
  from append_newline_cases [OF eq "2.prems"(3)] show ?case
  proof (elim disjE conjE exE)
    fix t assume t: "bs = l @ 10 # t" "rest = t @ src_bytes src"
    have "10 \<in> set (take (bufioSize - length buf) bs)" using t(1) "2.prems"(4) by (simp add: take_Cons')
    then show ?thesis using "2.prems"(1,5) t takeWhile_upto [OF "2.prems"(3), of t] by (auto simp: Let_def)
  next
    fix t assume n: "10 \<notin> set bs" and t: "l = bs @ t" "src_bytes src = t @ 10 # rest"
    have n': "10 \<notin> set (take (bufioSize - length buf) bs)" using n by (meson in_set_takeD)
    have len: "\<not> (bufioSize - length buf < length bs \<or> bufioSize - length buf = length bs \<and> x = None)" using "2.prems"(4) t(1) by auto
    show ?thesis
    proof (cases x)
      case None
      then have r: "ReadSlice (buf @ bs) src = (part, e, src')" using "2.prems"(5) n' len by (auto simp: Let_def)
      have "src_calm src' \<and> (e = None \<and> part = (buf @ bs) @ t @ [10] \<and> src_bytes src' = rest \<or>
        (\<exists>x t'. e = Some x \<and> isTimeout x \<and> part = (buf @ bs) @ t' \<and> 10 \<notin> set t' \<and> t' @ src_bytes src' = t @ 10 # rest))"
        by (rule "2.IH" [OF refl n' len None _ t(2) _ _ r]) (use "2.prems"(1,3,4) t(1) in auto)
      then show ?thesis using t(1) n by (auto intro!: exI [of _ "bs @ _"])
    next
      case (Some y)
      then show ?thesis using "2.prems"(1,5) n' len n t by (auto simp: Let_def split: if_splits)
    qed
  qed
qed simp

lemma line_read_calm:
  assumes "src_calm src" "partial @ src_bytes src = l @ CRLF @ rest" "10 \<notin> set l" "10 \<notin> set partial" "int (length l) + 2 \<le> limit" "limit \<le> 4096"
    "line_read limit partial src = (res, partial', src')"
  shows "src_calm src' \<and> src_size src' < src_size src \<and> (res = Inr l \<and> partial' = [] \<and> src_bytes src' = rest \<or>
    (\<exists>x. res = Inl x \<and> isTimeout x \<and> 10 \<notin> set partial' \<and> partial' @ src_bytes src' = l @ CRLF @ rest))"
proof -
  have eq: "partial @ src_bytes src = (l @ [13]) @ 10 # rest" using assms(2) by (simp add: CRLF_def)
  have l13: "10 \<notin> set (l @ [13])" using assms(3) by simp
  obtain t where t: "l @ [13] = partial @ t" "src_bytes src = t @ 10 # rest"
    using append_newline_cases [OF eq l13] assms(4) by auto
  have len: "length partial + length t = length l + 1" using arg_cong [OF t(1), of length] by simp
  obtain part err s1 where r: "ReadSlice [] src = (part, err, s1)" by (metis prod_cases3)
  have nt: "10 \<notin> set t" using l13 t(1) by (metis UnCI set_append)
  have "length ([] :: bytes) + length t < bufioSize" using len assms(5,6) by (simp add: bufioSize_def)
  note c = ReadSlice_calm [OF assms(1) t(2) nt this r]
  have ne: "src \<noteq> []" using t(2) by auto
  have sz: "src_size s1 < src_size src" using ReadSlice_size [OF r ne] by (simp add: bufioSize_def)
  from c show ?thesis
  proof (elim conjE disjE exE)
    assume a: "src_calm s1" "err = None" "part = [] @ t @ [10]" "src_bytes s1 = rest"
    have p: "partial @ part = l @ [13, 10]" using t(1) a(3) by (metis append.assoc append_Cons append_Nil)
    have "\<not> int (length part) > limit - int (length partial)" using a(3) len assms(5) by simp
    then have "line_read limit partial src = (Inr l, [], s1)" using r a(2) p by (simp add: line_read.simps [of limit partial src] Let_def nth_append)
    then show ?thesis using assms(7) a sz by simp
  next
    fix x u assume a: "src_calm s1" "err = Some x" "isTimeout x" "part = [] @ u" "10 \<notin> set u" "u @ src_bytes s1 = t @ 10 # rest"
    have u: "length u \<le> length t" using append_newline_cases [OF a(6) nt] a(5) by auto
    have "\<not> int (length part) > limit - int (length partial)" using a(4) len u assms(5) by simp
    moreover have "x \<noteq> ErrBufferFull" using a(3) by (auto simp: ErrBufferFull_def)
    ultimately have "line_read limit partial src = (Inl x, partial @ u, s1)" using r a(2,4) by (simp add: line_read.simps [of limit partial src] Let_def)
    moreover have "(partial @ u) @ src_bytes s1 = l @ CRLF @ rest" using a(6) t(2) assms(2) by simp
    ultimately show ?thesis using assms(4,7) a sz by auto
  qed
qed

subsection \<open>Chunk sizes\<close>

lemma hex_char_value: "n < 16 \<Longrightarrow> hex_value (hex_char n) = n" "n < 16 \<Longrightarrow> fromHexChar (hex_char n) \<noteq> None"
  by (simp_all add: hex_value_def fromHexChar_char)

lemma hex_digits_value: "foldl (\<lambda>acc c. acc * 16 + int (hex_value c)) 0 (hex_digits n) = int n"
proof (induction n rule: hex_digits.induct)
  case (1 n)
  show ?case
  proof (cases "n < 16")
    case True
    then show ?thesis by (simp add: hex_digits.simps [of n] hex_char_value)
  next
    case False
    have "int (n div 16 * 16 + n mod 16) = int n" by (simp only: div_mult_mod_eq)
    then have "int (n div 16) * 16 + int (n mod 16) = int n" by (simp only: of_nat_add of_nat_mult of_nat_numeral)
    then show ?thesis using False 1 by (simp add: hex_digits.simps [of n] hex_char_value)
  qed
qed

lemma hex_digits_set: "c \<in> set (hex_digits n) \<Longrightarrow> \<exists>d < 16. c = hex_char d"
proof (induction n rule: hex_digits.induct)
  case (1 n)
  have "\<exists>d < 16. hex_char (n mod 16) = hex_char d" by (rule exI [of _ "n mod 16"]) simp
  then show ?case using 1 by (cases "n < 16") (auto simp: hex_digits.simps [of n])
qed

lemma hex_digits_length: "0 < k \<Longrightarrow> n < 16 ^ k \<Longrightarrow> length (hex_digits n) \<le> k"
proof (induction k arbitrary: n)
  case (Suc k)
  show ?case
  proof (cases "n < 16")
    case False
    then have "0 < k" using Suc.prems(2) by (cases k) auto
    then show ?thesis using Suc.IH [of "n div 16"] Suc.prems(2) False by (simp add: hex_digits.simps [of n] div_less_iff_less_mult mult.commute)
  qed (simp add: hex_digits.simps [of n])
qed simp

lemma hex_digits_nonempty [simp]: "hex_digits n \<noteq> []"
  by (subst hex_digits.simps) simp

lemma parse_hex_digits: "n < 2 ^ 60 \<Longrightarrow> parseH1ChunkSize (hex_digits n) = Inr (int n)"
proof -
  assume n: "n < 2 ^ 60"
  have "length (hex_digits n) \<le> 15" using n by (intro hex_digits_length) simp_all
  moreover have "\<not> (\<exists>c \<in> set (hex_digits n). fromHexChar c = None)" using hex_digits_set hex_char_value(2) by fastforce
  ultimately show ?thesis using n by (simp add: parseH1ChunkSize_def hex_digits_value)
qed

lemma hex_digits_clean: "10 \<notin> set (hex_digits n)"
proof
  assume "10 \<in> set (hex_digits n)"
  then obtain d where d: "d < 16" "10 = hex_char d" using hex_digits_set by blast
  have "fromHexChar 10 = None" by (simp add: fromHexChar_def)
  then show False using hex_char_value(2) [OF d(1)] d(2) by simp
qed

subsection \<open>What the reader carries\<close>

definition chunks_wire :: "bytes list \<Rightarrow> bytes" where
  "chunks_wire cs = concat (map chunk_wire cs) @ last_chunk"

definition chunk_list_ok :: "bytes list \<Rightarrow> bool" where
  "chunk_list_ok cs \<longleftrightarrow> (\<forall>c \<in> set cs. c \<noteq> [] \<and> length c \<le> 65536)"

definition cr_carries :: "chunked_reader \<Rightarrow> bytes \<Rightarrow> bool" where
  "cr_carries cr pl \<longleftrightarrow> cr_terminal cr = None \<and> \<not> cr_chunkEnded cr \<and> src_calm (cr_r cr) \<and> 10 \<notin> set (cr_line cr) \<and> cr_trailerBytes cr = 0 \<and>
     (if cr_trailers cr then pl = [] \<and> cr_line cr @ src_bytes (cr_r cr) = CRLF \<and> \<not> cr_needCRLF cr \<and> cr_chunkLeft cr = 0
      else \<exists>cs. chunk_list_ok cs \<and>
        (if cr_needCRLF cr then pl = concat cs \<and> cr_chunkLeft cr = 0 \<and> cr_line cr = [] \<and> length (cr_crlf cr) < 2 \<and> cr_crlf cr @ src_bytes (cr_r cr) = CRLF @ chunks_wire cs
         else cr_crlf cr = [] \<and>
           (if cr_chunkLeft cr = 0 then pl = concat cs \<and> cr_line cr @ src_bytes (cr_r cr) = chunks_wire cs
            else \<exists>d. pl = d @ concat cs \<and> length d = cr_chunkLeft cr \<and> cr_line cr = [] \<and> src_bytes (cr_r cr) = d @ CRLF @ chunks_wire cs)))"

text \<open>At the start of a chunk, after the terminator of the previous one.\<close>

definition cr_at_size :: "chunked_reader \<Rightarrow> bytes list \<Rightarrow> bool" where
  "cr_at_size cr cs \<longleftrightarrow> cr_terminal cr = None \<and> \<not> cr_chunkEnded cr \<and> src_calm (cr_r cr) \<and> 10 \<notin> set (cr_line cr) \<and> cr_trailerBytes cr = 0 \<and> \<not> cr_trailers cr \<and>
     chunk_list_ok cs \<and> \<not> cr_needCRLF cr \<and> cr_crlf cr = [] \<and> cr_chunkLeft cr = 0 \<and> cr_line cr @ src_bytes (cr_r cr) = chunks_wire cs"

lemma cr_terminator_step:
  assumes "cr_carries cr pl" "cr_needCRLF cr" "cr_terminator cr = (e, cr')"
  shows "src_size (cr_r cr') < src_size (cr_r cr) \<and>
    (e = None \<and> (\<exists>cs. pl = concat cs \<and> cr_at_size cr' cs) \<or> (\<exists>x. e = Some x \<and> isTimeout x \<and> cr_carries cr' pl))"
proof -
  obtain cs where c: "\<not> cr_trailers cr" "chunk_list_ok cs" "pl = concat cs" "cr_chunkLeft cr = 0" "cr_line cr = []" "length (cr_crlf cr) < 2"
      "cr_crlf cr @ src_bytes (cr_r cr) = CRLF @ chunks_wire cs" "cr_terminal cr = None" "\<not> cr_chunkEnded cr" "src_calm (cr_r cr)" "cr_trailerBytes cr = 0"
    using assms(1,2) by (auto simp: cr_carries_def split: if_splits)
  let ?n = "2 - length (cr_crlf cr)"
  obtain bs x src where r: "readFull ?n (cr_r cr) = (bs, x, src)" by (metis prod_cases3)
  have n: "0 < ?n" "?n \<le> length (src_bytes (cr_r cr))"
    using c(6) arg_cong [OF c(7), of length] by (auto simp: CRLF_def)
  note rc = readFull_calm [OF c(10) n r] and rl = readFull_length [OF r]
  have all: "(cr_crlf cr @ bs) @ src_bytes src = CRLF @ chunks_wire cs" using c(7) rc(2) by simp
  show ?thesis
  proof (cases x)
    case None
    then have "length (cr_crlf cr @ bs) = 2" using rl c(6) by simp
    then have "cr_crlf cr @ bs = CRLF" "src_bytes src = chunks_wire cs" using append_eq_append_conv [of "cr_crlf cr @ bs" CRLF "src_bytes src" "chunks_wire cs"] all by (auto simp: CRLF_def)
    then have "e = None" "cr' = cr\<lparr>cr_crlf := [], cr_r := src, cr_needCRLF := False\<rparr>"
      using assms(2,3) r None by (auto simp: cr_terminator_def Let_def)
    then show ?thesis using c rc \<open>src_bytes src = chunks_wire cs\<close> by (auto simp: cr_at_size_def)
  next
    case (Some y)
    then have y: "isTimeout y" using rc(3) by simp
    have "length (cr_crlf cr @ bs) < 2" using rl Some c(6) by auto
    moreover have "e = Some y" "cr' = cr\<lparr>cr_crlf := cr_crlf cr @ bs, cr_r := src\<rparr>"
      using assms(2,3) r Some y by (auto simp: cr_terminator_def cr_readError_def Let_def)
    ultimately show ?thesis using assms(2) c rc all y by (auto simp: cr_carries_def)
  qed
qed

lemma chunks_wire_line:
  "chunks_wire (c # cs) = hex_digits (length c) @ CRLF @ (c @ CRLF @ chunks_wire cs)" "chunks_wire [] = hex_digits 0 @ CRLF @ CRLF"
proof -
  have "lit ''0'' = hex_digits 0" by (simp add: hex_digits.simps hex_char_def lit_def)
  then show "chunks_wire [] = hex_digits 0 @ CRLF @ CRLF" by (simp add: chunks_wire_def last_chunk_def)
qed (simp add: chunks_wire_def chunk_wire_def)

lemma size_line_short: "c = [] \<or> length c \<le> 65536 \<Longrightarrow> int (length (hex_digits (length c))) + 2 \<le> maxH1ChunkLine"
  using hex_digits_length [of 5 "length c"] by (auto simp: maxH1ChunkLine_def)

text \<open>After the size line: in a chunk, or behind the last one.\<close>

definition cr_at_data :: "chunked_reader \<Rightarrow> bytes \<Rightarrow> bool" where
  "cr_at_data cr pl \<longleftrightarrow> cr_carries cr pl \<and> \<not> cr_needCRLF cr \<and> (0 < cr_chunkLeft cr \<or> cr_trailers cr)"

lemma cr_size_line:
  assumes "cr_at_size cr cs" "cr_size cr = (e, cr')"
  shows "src_size (cr_r cr') < src_size (cr_r cr) \<and>
    (e = None \<and> cr_at_data cr' (concat cs) \<or> (\<exists>x. e = Some x \<and> isTimeout x \<and> cr_carries cr' (concat cs)))"
proof -
  define c where "c = (case cs of [] \<Rightarrow> [] | c # _ \<Rightarrow> c)"
  define rest where "rest = (case cs of [] \<Rightarrow> CRLF | c # cs' \<Rightarrow> c @ CRLF @ chunks_wire cs')"
  have a: "cr_terminal cr = None" "\<not> cr_chunkEnded cr" "src_calm (cr_r cr)" "10 \<notin> set (cr_line cr)" "cr_trailerBytes cr = 0" "\<not> cr_trailers cr"
     "chunk_list_ok cs" "\<not> cr_needCRLF cr" "cr_crlf cr = []" "cr_chunkLeft cr = 0" "cr_line cr @ src_bytes (cr_r cr) = chunks_wire cs"
    using assms(1) by (auto simp: cr_at_size_def)
  have ln: "cr_line cr @ src_bytes (cr_r cr) = hex_digits (length c) @ CRLF @ rest"
    using a(11) by (cases cs) (auto simp: chunks_wire_line c_def rest_def)
  have lc: "c = [] \<or> length c \<le> 65536" using a(7) by (cases cs) (auto simp: chunk_list_ok_def c_def)
  obtain res partial src where r: "line_read maxH1ChunkLine (cr_line cr) (cr_r cr) = (res, partial, src)" by (metis prod_cases3)
  have "maxH1ChunkLine \<le> 4096" by (simp add: maxH1ChunkLine_def)
  from line_read_calm [OF a(3) ln hex_digits_clean a(4) size_line_short [OF lc] this r]
  show ?thesis
  proof (elim conjE disjE exE)
    assume h: "src_calm src" "src_size src < src_size (cr_r cr)" "res = Inr (hex_digits (length c))" "partial = []" "src_bytes src = rest"
    have p: "parseH1ChunkSize (hex_digits (length c)) = Inr (int (length c))" using lc by (intro parse_hex_digits) auto
    have e: "e = None" "cr' = cr\<lparr>cr_line := [], cr_r := src, cr_chunkLeft := length c, cr_trailers := (c = [])\<rparr>"
      using assms(2) a(6,10) r h(3,4) p lc by (auto simp: cr_size_def Let_def)
    have "cr_carries cr' (concat cs)"
    proof (cases cs)
      case Nil
      then show ?thesis using a h e by (simp add: cr_carries_def c_def rest_def)
    next
      case (Cons d ds)
      then have "d \<noteq> []" "chunk_list_ok ds" using a(7) by (auto simp: chunk_list_ok_def)
      then show ?thesis using a h e Cons by (auto simp: cr_carries_def c_def rest_def)
    qed
    then show ?thesis using a(8) h(2) e by (auto simp: cr_at_data_def)
  next
    fix x assume h: "src_calm src" "src_size src < src_size (cr_r cr)" "res = Inl x" "isTimeout x" "10 \<notin> set partial"
      "partial @ src_bytes src = hex_digits (length c) @ CRLF @ rest"
    have "e = Some x" "cr' = cr\<lparr>cr_line := partial, cr_r := src\<rparr>"
      using assms(2) a(6,10) r h(3,4) by (auto simp: cr_size_def cr_readError_def)
    then show ?thesis using a h ln by (auto simp: cr_carries_def)
  qed
qed

lemma trailer_loop_end:
  assumes "cr_carries cr pl" "cr_trailers cr" "trailer_loop vn vv cr = (bs, e, cr')"
  shows "bs = [] \<and> pl = [] \<and> (e = Some EOF \<or> (\<exists>x. e = Some x \<and> isTimeout x \<and> cr_carries cr' [] \<and> src_size (cr_r cr') < src_size (cr_r cr)))"
proof -
  have a: "pl = []" "cr_line cr @ src_bytes (cr_r cr) = [] @ CRLF @ []" "src_calm (cr_r cr)" "10 \<notin> set (cr_line cr)" "cr_trailerBytes cr = 0"
    using assms(1,2) by (auto simp: cr_carries_def)
  define limit where "limit = min maxH1HeaderLine (maxH1HeaderBytes - int (cr_trailerBytes cr))"
  have l: "int (length ([] :: bytes)) + 2 \<le> limit" "limit \<le> 4096" using a(5) by (auto simp: limit_def maxH1HeaderLine_def maxH1HeaderBytes_def)
  obtain res partial src where r: "line_read limit (cr_line cr) (cr_r cr) = (res, partial, src)" by (metis prod_cases3)
  have n: "10 \<notin> set ([] :: bytes)" by simp
  from line_read_calm [OF a(3,2) n a(4) l r] show ?thesis
  proof (elim conjE disjE exE)
    assume "res = Inr []"
    then show ?thesis using assms(3) r a(1) by (subst (asm) trailer_loop.simps) (simp add: limit_def Let_def)
  next
    fix x assume h: "src_calm src" "src_size src < src_size (cr_r cr)" "res = Inl x" "isTimeout x" "10 \<notin> set partial" "partial @ src_bytes src = [] @ CRLF @ []"
    have "bs = [] \<and> e = Some x \<and> cr' = cr\<lparr>cr_line := partial, cr_r := src\<rparr>"
      using assms(3) r h(3,4) by (subst (asm) trailer_loop.simps) (auto simp: limit_def cr_fail_def cr_readError_def)
    then show ?thesis using assms(1,2) h a(1) by (auto simp: cr_carries_def)
  qed
qed

lemma cr_data_step:
  assumes "cr_carries cr pl" "\<not> cr_needCRLF cr" "0 < cr_chunkLeft cr" "0 < n" "src_read (min n (cr_chunkLeft cr)) (cr_r cr) = (bs, e, src)"
  defines "cr1 \<equiv> cr\<lparr>cr_r := src, cr_chunkLeft := cr_chunkLeft cr - length bs\<rparr>"
  defines "cr2 \<equiv> (if cr_chunkLeft cr1 = 0 then cr1\<lparr>cr_needCRLF := True\<rparr> else cr1)"
  shows "soft e" "\<exists>pl'. pl = bs @ pl' \<and> cr_carries cr2 pl'" "src_size src < src_size (cr_r cr)" "cr_r cr2 = src"
proof -
  obtain cs d where c: "\<not> cr_trailers cr" "chunk_list_ok cs" "pl = d @ concat cs" "length d = cr_chunkLeft cr" "cr_line cr = []" "cr_crlf cr = []"
      "src_bytes (cr_r cr) = d @ CRLF @ chunks_wire cs" "cr_terminal cr = None" "\<not> cr_chunkEnded cr" "src_calm (cr_r cr)" "cr_trailerBytes cr = 0"
    using assms(1-3) by (auto simp: cr_carries_def split: if_splits)
  have ne: "cr_r cr \<noteq> []" using c(7) by (auto simp: CRLF_def)
  have pos: "0 < min n (cr_chunkLeft cr)" using assms(3,4) by simp
  note rc = src_read_calm [OF c(10) assms(5) ne pos]
  show "soft e" "src_size src < src_size (cr_r cr)" using rc by auto
  show "cr_r cr2 = src" by (simp add: cr2_def cr1_def)
  have lb: "length bs \<le> length d" using src_read_length [OF assms(5)] c(4) by simp
  have "bs @ src_bytes src = d @ CRLF @ chunks_wire cs" using rc(2) c(7) by simp
  then have d: "d = bs @ drop (length bs) d" "src_bytes src = drop (length bs) d @ CRLF @ chunks_wire cs"
    using lb by (auto simp: append_eq_append_conv2)
  have "cr_carries cr2 (drop (length bs) d @ concat cs)"
  proof (cases "length bs = length d")
    case True
    then show ?thesis using c rc(1) d(2) by (auto simp: cr2_def cr1_def cr_carries_def)
  next
    case False
    then show ?thesis using c rc(1) d(2) lb assms(2) by (auto simp: cr2_def cr1_def cr_carries_def)
  qed
  then show "\<exists>pl'. pl = bs @ pl' \<and> cr_carries cr2 pl'" using c(3) d(1) by (metis append.assoc)
qed

lemma cr_at_data_step:
  assumes "cr_at_data cr pl" "0 < n" "(if cr_trailers cr then trailer_loop vn vv cr
       else (case src_read (min n (cr_chunkLeft cr)) (cr_r cr) of
                     (bs, e, src) \<Rightarrow>
                       let cr = cr\<lparr>cr_r := src, cr_chunkLeft := cr_chunkLeft cr - length bs\<rparr>;
                           cr = (if cr_chunkLeft cr = 0 then cr\<lparr>cr_needCRLF := True\<rparr> else cr)
                       in case e of
                            None \<Rightarrow> (bs, None, cr)
                          | Some err \<Rightarrow> (case cr_readError err cr of (err, cr) \<Rightarrow> (bs, Some err, cr)))) = (bs, e, cr')"
  shows "soft e \<and> (\<exists>pl'. pl = bs @ pl' \<and> cr_carries cr' pl') \<and> src_size (cr_r cr') < src_size (cr_r cr) \<or> e = Some EOF \<and> bs = [] \<and> pl = []"
proof (cases "cr_trailers cr")
  case True
  then show ?thesis using assms trailer_loop_end [of cr pl vn vv bs e cr'] by (auto simp: cr_at_data_def)
next
  case False
  obtain b x src where r: "src_read (min n (cr_chunkLeft cr)) (cr_r cr) = (b, x, src)" by (metis prod_cases3)
  have a: "cr_carries cr pl" "\<not> cr_needCRLF cr" "0 < cr_chunkLeft cr" using assms(1) False by (auto simp: cr_at_data_def)
  note d = cr_data_step [OF a assms(2) r]
  show ?thesis
  proof (cases x)
    case None
    then show ?thesis using assms(3) False r d by (auto simp: Let_def)
  next
    case (Some y)
    then have "isTimeout y" using d(1) by simp
    then show ?thesis using assms(3) False r d Some by (auto simp: Let_def cr_readError_def)
  qed
qed

lemma chunkedReader_progress:
  assumes "cr_carries cr pl" "0 < n" "chunkedReader_Read vn vv n cr = (bs, e, cr')"
  shows "soft e \<and> (\<exists>pl'. pl = bs @ pl' \<and> cr_carries cr' pl') \<and> src_size (cr_r cr') < src_size (cr_r cr) \<or> e = Some EOF \<and> bs = [] \<and> pl = []"
proof -
  have t: "cr_terminal cr = None" "\<not> cr_chunkEnded cr" using assms(1) by (auto simp: cr_carries_def)
  obtain e1 cr1 where c1: "cr_terminator cr = (e1, cr1)" by fastforce
  consider (wait) x where "e1 = Some x" "isTimeout x" "cr_carries cr1 pl" "src_size (cr_r cr1) < src_size (cr_r cr)"
    | (size) cs where "e1 = None" "pl = concat cs" "cr_at_size cr1 cs" "src_size (cr_r cr1) \<le> src_size (cr_r cr)"
    | (data) "e1 = None" "cr1 = cr" "cr_at_data cr pl"
  proof (cases "cr_needCRLF cr")
    case True
    from cr_terminator_step [OF assms(1) True c1] show thesis using that(1,2) by fastforce
  next
    case False
    then have n: "e1 = None" "cr1 = cr" using c1 by (auto simp: cr_terminator_def)
    show thesis
    proof (cases "0 < cr_chunkLeft cr \<or> cr_trailers cr")
      case True
      then show thesis using that(3) n False assms(1) by (simp add: cr_at_data_def)
    next
      case no: False
      then obtain cs where "pl = concat cs" "cr_at_size cr cs" using assms(1) False by (auto simp: cr_carries_def cr_at_size_def)
      then show thesis using that(2) n by auto
    qed
  qed
  then show ?thesis
  proof cases
    case wait
    then show ?thesis using assms(2,3) t c1 by (auto simp: chunkedReader_Read_def)
  next
    case size
    obtain e2 cr2 where c2: "cr_size cr1 = (e2, cr2)" by fastforce
    from cr_size_line [OF size(3) c2] show ?thesis
    proof (elim conjE disjE exE)
      fix x assume "src_size (cr_r cr2) < src_size (cr_r cr1)" "e2 = Some x" "isTimeout x" "cr_carries cr2 (concat cs)"
      then show ?thesis using assms(2,3) t c1 c2 size by (auto simp: chunkedReader_Read_def)
    next
      assume h: "src_size (cr_r cr2) < src_size (cr_r cr1)" "e2 = None" "cr_at_data cr2 (concat cs)"
      have "soft e \<and> (\<exists>pl'. pl = bs @ pl' \<and> cr_carries cr' pl') \<and> src_size (cr_r cr') < src_size (cr_r cr2) \<or> e = Some EOF \<and> bs = [] \<and> pl = []"
        using assms(2,3) t c1 c2 size(1,2) h(2,3) by (intro cr_at_data_step [of cr2 _ n]) (auto simp: chunkedReader_Read_def)
      then show ?thesis using h(1) size(4) by auto
    qed
  next
    case data
    then have "cr_size cr = (None, cr)" by (auto simp: cr_size_def cr_at_data_def)
    then show ?thesis using assms(2,3) t c1 data by (intro cr_at_data_step) (auto simp: chunkedReader_Read_def)
  qed
qed

interpretation h1_chunks: framed_reader "chunkedReader_Read vn vv" cr_carries "\<lambda>cr. src_size (cr_r cr)" bound EOF
  by unfold_locales (use chunkedReader_progress in \<open>simp, blast\<close>)

subsection \<open>Bounds\<close>

text \<open>A state in which nothing has grown past the limits.\<close>

definition cr_bounded :: "chunked_reader \<Rightarrow> bool" where
  "cr_bounded cr \<longleftrightarrow> length (cr_line cr) \<le> 4096 \<and> cr_chunkLeft cr \<le> 65536 \<and> cr_trailerBytes cr \<le> 16384"

lemma line_read_bounded:
  "line_read limit partial src = (res, partial', src') \<Longrightarrow> limit \<le> 4096 \<Longrightarrow> length partial \<le> 4096 \<Longrightarrow>
   length partial' \<le> 4096 \<and> (\<forall>line. res = Inr line \<longrightarrow> int (length line) + 2 \<le> limit)"
proof (induction limit partial src rule: line_read.induct)
  case (1 limit partial src)
  obtain part err s1 where r: "ReadSlice [] src = (part, err, s1)" by (metis prod_cases3)
  show ?case
  proof (cases "int (length part) > limit - int (length partial)")
    case True
    then show ?thesis using "1.prems" r by (auto simp: line_read.simps [of limit partial src])
  next
    case fit: False
    then have l: "length (partial @ part) \<le> 4096" "int (length (partial @ part)) \<le> limit" using "1.prems"(2) by auto
    show ?thesis
    proof (cases "err = Some ErrBufferFull")
      case True
      have "line_read limit (partial @ part) s1 = (res, partial', src')" using "1.prems"(1) r True fit by (simp add: line_read.simps [of limit partial src])
      from "1.IH" [OF r [symmetric] refl fit refl True this "1.prems"(2) l(1)] show ?thesis .
    next
      case False
      then show ?thesis using "1.prems"(1) r fit l
        by (auto simp: line_read.simps [of limit partial src] Let_def split: option.splits if_splits)
    qed
  qed
qed

lemma cr_readError_bounded: "cr_readError err cr = (e, cr') \<Longrightarrow> cr_bounded cr' = cr_bounded cr"
  by (auto simp: cr_readError_def cr_bounded_def Let_def split: if_splits)

lemma cr_fail_bounded: "cr_fail err cr = (bs, e, cr') \<Longrightarrow> cr_bounded cr' = cr_bounded cr"
  by (auto simp: cr_fail_def dest: cr_readError_bounded split: prod.splits)

lemma trailer_loop_bounded: "trailer_loop vn vv cr = (bs, e, cr') \<Longrightarrow> cr_bounded cr \<Longrightarrow> cr_bounded cr'"
proof (induction vn vv cr rule: trailer_loop.induct)
  case (1 vn vv cr)
  let ?limit = "min maxH1HeaderLine (maxH1HeaderBytes - int (cr_trailerBytes cr))"
  obtain res partial src where r: "line_read ?limit (cr_line cr) (cr_r cr) = (res, partial, src)" by (metis prod_cases3)
  have b: "length partial \<le> 4096" "\<And>line. res = Inr line \<Longrightarrow> int (length line) + 2 \<le> ?limit"
    using line_read_bounded [OF r] "1.prems"(2) by (auto simp: cr_bounded_def maxH1HeaderLine_def)
  note unf = "1.prems"(1) [unfolded trailer_loop.simps [of vn vv cr] r prod.case]
  show ?case
  proof (cases res)
    case (Inl err)
    have "cr_bounded (cr\<lparr>cr_line := partial, cr_r := src\<rparr>)" using "1.prems"(2) b(1) by (simp add: cr_bounded_def)
    then show ?thesis using unf Inl cr_fail_bounded by auto
  next
    case (Inr line)
    define cr1 where "cr1 = cr\<lparr>cr_line := partial, cr_r := src, cr_trailerBytes := cr_trailerBytes cr + length line + 2\<rparr>"
    define cr2 where "cr2 = cr1\<lparr>cr_trailerLines := cr_trailerLines cr1 + 1\<rparr>"
    have c: "cr_bounded (cr1\<lparr>cr_chunkEnded := True\<rparr>)" "cr_bounded cr2" using b Inr "1.prems"(2) by (auto simp: cr1_def cr2_def cr_bounded_def maxH1HeaderBytes_def)
    have u: "(if line = [] then ([], Some EOF, cr1\<lparr>cr_chunkEnded := True\<rparr>)
        else if maxH1HeaderLines < cr_trailerLines cr2 \<or> \<not> validH1Header vn vv line then cr_fail (Errorf ''invalid chunk trailer'') cr2
        else trailer_loop vn vv cr2) = (bs, e, cr')"
      using unf unfolding Inr sum.case prod.case Let_def cr1_def [symmetric] cr2_def [symmetric] .
    show ?thesis
    proof (cases "line = [] \<or> maxH1HeaderLines < cr_trailerLines cr2 \<or> \<not> validH1Header vn vv line")
      case True
      then show ?thesis using u c cr_fail_bounded by (auto split: if_splits)
    next
      case False
      then have "trailer_loop vn vv cr2 = (bs, e, cr')" using u by auto
      then show ?thesis using "1.IH" [OF r [symmetric] Inr refl cr1_def _ cr2_def] False c(2) by blast
    qed
  qed
qed

lemma cr_terminator_bounded: "cr_terminator cr = (e, cr') \<Longrightarrow> cr_bounded cr \<Longrightarrow> cr_bounded cr'"
  unfolding cr_terminator_def Let_def
  by (auto dest!: cr_readError_bounded split: if_splits option.splits prod.splits) (simp_all add: cr_bounded_def)

lemma cr_size_bounded:
  assumes "cr_size cr = (e, cr')" "cr_bounded cr"
  shows "cr_bounded cr'"
proof -
  obtain res partial src where r: "line_read maxH1ChunkLine (cr_line cr) (cr_r cr) = (res, partial, src)" by (metis prod_cases3)
  have b: "length partial \<le> 4096" using line_read_bounded [OF r] assms(2) by (simp add: cr_bounded_def maxH1ChunkLine_def)
  show ?thesis using assms r b unfolding cr_size_def Let_def
    by (auto dest!: cr_readError_bounded split: if_splits sum.splits prod.splits) (simp_all add: cr_bounded_def)
qed

lemma chunkedReader_bounded:
  assumes "chunkedReader_Read vn vv n cr = (bs, e, cr')" "cr_bounded cr"
  shows "cr_bounded cr'"
proof -
  obtain e1 cr1 where c1: "cr_terminator cr = (e1, cr1)" by fastforce
  obtain e2 cr2 where c2: "cr_size cr1 = (e2, cr2)" by fastforce
  have b: "cr_bounded cr1" "cr_bounded cr2" using cr_terminator_bounded [OF c1 assms(2)] cr_size_bounded [OF c2] by auto
  show ?thesis using assms c1 c2 b unfolding chunkedReader_Read_def Let_def
    by (auto dest!: cr_readError_bounded trailer_loop_bounded split: if_splits option.splits prod.splits) (auto simp: cr_bounded_def)
qed

subsection \<open>Bytes taken for trailers\<close>

abbreviation (input) left :: "chunked_reader \<Rightarrow> nat" where "left cr \<equiv> length (src_bytes (cr_r cr))"

lemma takeWhile_shorter: "10 \<in> set xs \<Longrightarrow> length (takeWhile (\<lambda>c. c \<noteq> (10 :: byte)) xs) < length xs"
  by (induction xs) auto

lemma ReadSlice_taken:
  "ReadSlice buf src = (part, e, src') \<Longrightarrow> length buf \<le> bufioSize \<Longrightarrow> buf @ src_bytes src = part @ src_bytes src' \<and> length part \<le> bufioSize"
proof (induction buf src arbitrary: part e src' rule: ReadSlice.induct)
  case (2 buf bs x src)
  let ?room = "bufioSize - length buf" and ?l = "takeWhile (\<lambda>c. c \<noteq> 10) bs @ [10]"
  show ?case
  proof (cases "10 \<in> set (take ?room bs)")
    case True
    then have e: "part = buf @ ?l" "src' = put_back (drop (length ?l) bs) x src" using "2.prems"(1) by (simp_all add: Let_def)
    have "10 \<in> set bs" using True by (meson in_set_takeD)
    then have b: "?l @ drop (length ?l) bs = bs" using takeWhile_newline [of bs] by simp
    have "takeWhile (\<lambda>c. c \<noteq> 10) (take ?room bs) = takeWhile (\<lambda>c. c \<noteq> 10) bs" using True takeWhile_append1 [of 10 "take ?room bs" "\<lambda>c. c \<noteq> 10" "drop ?room bs"] by simp
    moreover have "length (takeWhile (\<lambda>c. c \<noteq> 10) (take ?room bs)) < length (take ?room bs)"
      by (rule takeWhile_shorter [OF True])
    ultimately have "length ?l \<le> ?room" by simp
    then have "length part \<le> bufioSize" using "2.prems"(2) by (simp add: e)
    moreover have "part @ src_bytes src' = buf @ (?l @ drop (length ?l) bs) @ src_bytes src" by (simp add: e)
    ultimately show ?thesis unfolding b by simp
  next
    case False
    then show ?thesis using "2.prems" "2.IH" [OF refl False] by (auto simp: Let_def split: if_splits option.splits)
  qed
qed simp

text \<open>A line that is not finished is kept; only what overflows the limit, at most one buffer, is taken without being kept.\<close>

lemma line_read_taken:
  "line_read limit partial src = (res, partial', src') \<Longrightarrow> int (length partial) \<le> limit \<Longrightarrow>
   int (length partial') \<le> limit \<and> length (src_bytes src) + length partial \<le> length (src_bytes src') +
     (case res of Inr line \<Rightarrow> length line + 2 | Inl err \<Rightarrow> length partial' + (if isTimeout err then 0 else bufioSize)) \<and>
   (\<forall>line. res = Inr line \<longrightarrow> partial' = [] \<and> int (length line) + 2 \<le> limit)"
proof (induction limit partial src rule: line_read.induct)
  case (1 limit partial src)
  obtain part err s1 where r: "ReadSlice [] src = (part, err, s1)" by (metis prod_cases3)
  have t: "length (src_bytes src) = length part + length (src_bytes s1)" "length part \<le> bufioSize" using ReadSlice_taken [OF r] by auto
  show ?case
  proof (cases "int (length part) > limit - int (length partial)")
    case True
    then have "res = Inl (Errorf ''H1 line exceeds byte limit'')" "partial' = partial" "src' = s1" using "1.prems"(1) r by (auto simp: line_read.simps [of limit partial src])
    then show ?thesis using t "1.prems"(2) by simp
  next
    case fit: False
    show ?thesis
    proof (cases "err = Some ErrBufferFull")
      case True
      have "line_read limit (partial @ part) s1 = (res, partial', src')" using "1.prems"(1) r True fit by (simp add: line_read.simps [of limit partial src])
      from "1.IH" [OF r [symmetric] refl fit refl True this] show ?thesis using fit t by auto
    next
      case False
      then show ?thesis using "1.prems" r fit t
        by (auto simp: line_read.simps [of limit partial src] Let_def split: option.splits if_splits)
    qed
  qed
qed

text \<open>
  \<open>budget b cr\<close>: the reader is in the trailers and has, since \<open>b\<close> bytes were left, taken the lines it counted, the unfinished one, and after a failure at
  most one buffer.
\<close>

definition budget :: "nat \<Rightarrow> chunked_reader \<Rightarrow> bool" where
  "budget b cr \<longleftrightarrow> cr_trailers cr \<and> \<not> cr_needCRLF cr \<and> cr_trailerBytes cr + length (cr_line cr) \<le> 16384 \<and> int (length (cr_line cr)) \<le> maxH1HeaderLine \<and>
     b \<le> left cr + cr_trailerBytes cr + length (cr_line cr) + (if cr_terminal cr = None then 0 else bufioSize)"

lemma budget_fail:
  assumes "cr_fail err cr = (bs, e, cr')" "cr_trailers cr" "\<not> cr_needCRLF cr" "cr_trailerBytes cr + length (cr_line cr) \<le> 16384" "int (length (cr_line cr)) \<le> maxH1HeaderLine"
    and "b \<le> left cr + cr_trailerBytes cr + length (cr_line cr) + (if isTimeout err then 0 else bufioSize)" "cr_terminal cr = None"
  shows "budget b cr'"
  using assms by (auto simp: cr_fail_def cr_readError_def budget_def Let_def split: if_splits)

lemma trailer_loop_budget: "trailer_loop vn vv cr = (bs, e, cr') \<Longrightarrow> budget b cr \<Longrightarrow> cr_terminal cr = None \<Longrightarrow> budget b cr'"
proof (induction vn vv cr rule: trailer_loop.induct)
  case (1 vn vv cr)
  let ?limit = "min maxH1HeaderLine (maxH1HeaderBytes - int (cr_trailerBytes cr))"
  obtain res partial src where r: "line_read ?limit (cr_line cr) (cr_r cr) = (res, partial, src)" by (metis prod_cases3)
  have i: "cr_trailers cr" "\<not> cr_needCRLF cr" "cr_trailerBytes cr + length (cr_line cr) \<le> 16384" "int (length (cr_line cr)) \<le> maxH1HeaderLine"
    "b \<le> left cr + cr_trailerBytes cr + length (cr_line cr)" using "1.prems"(2,3) by (auto simp: budget_def)
  then have "int (length (cr_line cr)) \<le> ?limit" by (simp add: maxH1HeaderBytes_def)
  note t = line_read_taken [OF r this]
  note unf = "1.prems"(1) [unfolded trailer_loop.simps [of vn vv cr] r prod.case]
  show ?case
  proof (cases res)
    case (Inl err)
    then have "cr_fail err (cr\<lparr>cr_line := partial, cr_r := src\<rparr>) = (bs, e, cr')" using unf by simp
    then show ?thesis by (rule budget_fail) (use t i Inl "1.prems"(3) in \<open>auto simp: maxH1HeaderBytes_def\<close>)
  next
    case (Inr line)
    define cr1 where "cr1 = cr\<lparr>cr_line := partial, cr_r := src, cr_trailerBytes := cr_trailerBytes cr + length line + 2\<rparr>"
    define cr2 where "cr2 = cr1\<lparr>cr_trailerLines := cr_trailerLines cr1 + 1\<rparr>"
    have b: "budget b cr2" "cr_terminal cr2 = None" "budget b (cr1\<lparr>cr_chunkEnded := True\<rparr>)" using t i Inr "1.prems"(3)
      by (auto simp: budget_def cr1_def cr2_def maxH1HeaderBytes_def maxH1HeaderLine_def)
    have u: "(if line = [] then ([], Some EOF, cr1\<lparr>cr_chunkEnded := True\<rparr>)
        else if maxH1HeaderLines < cr_trailerLines cr2 \<or> \<not> validH1Header vn vv line then cr_fail (Errorf ''invalid chunk trailer'') cr2
        else trailer_loop vn vv cr2) = (bs, e, cr')"
      using unf unfolding Inr sum.case prod.case Let_def cr1_def [symmetric] cr2_def [symmetric] .
    consider (last) "line = []" | (bad) "cr_fail (Errorf ''invalid chunk trailer'') cr2 = (bs, e, cr')"
      | (next_line) "line \<noteq> []" "\<not> (maxH1HeaderLines < cr_trailerLines cr2 \<or> \<not> validH1Header vn vv line)" "trailer_loop vn vv cr2 = (bs, e, cr')"
      using u by (auto split: if_splits)
    then show ?thesis
    proof cases
      case last
      then show ?thesis using u b(3) by simp
    next
      case bad
      then show ?thesis by (rule budget_fail) (use b(1,2) in \<open>auto simp: budget_def\<close>)
    next
      case next_line
      then show ?thesis using "1.IH" [OF r [symmetric] Inr refl cr1_def _ cr2_def] b(1,2) by blast
    qed
  qed
qed

lemma Read_budget:
  assumes "chunkedReader_Read vn vv n cr = (bs, e, cr')" "budget b cr"
  shows "budget b cr'"
proof -
  have "cr_terminator cr = (None, cr)" "cr_size cr = (None, cr)" "cr_trailers cr" using assms(2) by (auto simp: budget_def cr_terminator_def cr_size_def)
  then show ?thesis using assms trailer_loop_budget by (auto simp: chunkedReader_Read_def split: if_splits option.splits)
qed

lemma Reads_budget: "budget b cr \<Longrightarrow> budget b (foldl (\<lambda>cr n. snd (snd (chunkedReader_Read vn vv n cr))) cr ns)"
proof (induction ns rule: rev_induct)
  case (snoc n ns)
  then show ?case by (cases "chunkedReader_Read vn vv n (foldl (\<lambda>cr n. snd (snd (chunkedReader_Read vn vv n cr))) cr ns)") (auto dest: Read_budget)
qed simp

text \<open>The call in which the last chunk is seen first takes at most a terminator and a size line.\<close>

lemma cr_terminator_taken:
  assumes "cr_terminator cr = (e, cr')"
  shows "left cr \<le> left cr' + 2" "cr_trailers cr' = cr_trailers cr" "cr_line cr' = cr_line cr" "cr_trailerBytes cr' = cr_trailerBytes cr" "e = None \<Longrightarrow> \<not> cr_needCRLF cr'"
    "e = None \<Longrightarrow> cr_terminal cr' = cr_terminal cr"
proof -
  obtain bs x src where r: "readFull (2 - length (cr_crlf cr)) (cr_r cr) = (bs, x, src)" by (metis prod_cases3)
  have "length bs \<le> 2" using readFull_length(1) [OF r] by simp
  moreover have "length (src_bytes (cr_r cr)) = length bs + length (src_bytes src)" using readFull_bytes [OF r] by simp
  ultimately show "left cr \<le> left cr' + 2" using assms r by (auto simp: cr_terminator_def cr_readError_def Let_def split: if_splits option.splits)
qed (use assms in \<open>auto simp: cr_terminator_def cr_readError_def Let_def split: if_splits option.splits prod.splits\<close>)

lemma cr_size_taken:
  assumes "cr_size cr = (e, cr')" "\<not> cr_trailers cr" "int (length (cr_line cr)) \<le> maxH1ChunkLine"
  shows "cr_trailerBytes cr' = cr_trailerBytes cr \<and> (if cr_trailers cr'
    then e = None \<and> cr_line cr' = [] \<and> left cr \<le> left cr' + 1024 \<and> cr_needCRLF cr' = cr_needCRLF cr \<and> cr_terminal cr' = cr_terminal cr
    else int (length (cr_line cr')) \<le> maxH1ChunkLine)"
proof (cases "0 < cr_chunkLeft cr")
  case True
  then show ?thesis using assms by (simp add: cr_size_def)
next
  case no: False
  obtain res partial src where r: "line_read maxH1ChunkLine (cr_line cr) (cr_r cr) = (res, partial, src)" by (metis prod_cases3)
  note t = line_read_taken [OF r assms(3)]
  show ?thesis
  proof (cases res)
    case (Inl err)
    then have "cr_readError err (cr\<lparr>cr_line := partial, cr_r := src\<rparr>) = (the e, cr')" using assms(1,2) no r by (auto simp: cr_size_def split: prod.splits)
    then show ?thesis using t assms(2) by (auto simp: cr_readError_def Let_def split: if_splits)
  next
    case (Inr line)
    define cr1 where "cr1 = cr\<lparr>cr_line := partial, cr_r := src\<rparr>"
    have u: "(case parseH1ChunkSize line of Inl _ \<Rightarrow> (case cr_readError (Errorf ''invalid chunk length'') cr1 of (err, cr) \<Rightarrow> (Some err, cr))
        | Inr sz \<Rightarrow> if 65536 < sz then (case cr_readError (Errorf ''invalid chunk length'') cr1 of (err, cr) \<Rightarrow> (Some err, cr))
            else (None, cr1\<lparr>cr_chunkLeft := nat sz, cr_trailers := (sz = 0)\<rparr>)) = (e, cr')"
      using assms(1,2) no r Inr unfolding cr1_def by (simp add: cr_size_def Let_def)
    have c: "cr_line cr1 = []" "left cr \<le> left cr1 + 1024" "\<not> cr_trailers cr1" "cr_needCRLF cr1 = cr_needCRLF cr" "cr_terminal cr1 = cr_terminal cr" "cr_trailerBytes cr1 = cr_trailerBytes cr"
      using t Inr assms(2) by (simp_all add: cr1_def maxH1ChunkLine_def)
    consider (bad) "cr' = snd (cr_readError (Errorf ''invalid chunk length'') cr1)" | (ok) sz where "e = None" "cr' = cr1\<lparr>cr_chunkLeft := nat sz, cr_trailers := (sz = 0)\<rparr>"
      using u by (auto split: sum.splits if_splits prod.splits)
    then show ?thesis
    proof cases
      case bad
      then show ?thesis using c by (simp add: cr_readError_def Let_def maxH1ChunkLine_def)
    next
      case ok
      then show ?thesis using c by (simp add: maxH1ChunkLine_def)
    qed
  qed
qed

text \<open>Before the trailers the line is part of a chunk size.\<close>

definition cr_before :: "chunked_reader \<Rightarrow> bool" where
  "cr_before cr \<longleftrightarrow> \<not> cr_trailers cr \<and> cr_trailerBytes cr = 0 \<and> int (length (cr_line cr)) \<le> maxH1ChunkLine"

lemma Read_before:
  assumes "chunkedReader_Read vn vv n cr = (bs, e, cr')" "cr_before cr"
  shows "cr_before cr' \<or> (\<exists>b. left cr \<le> b + 1026 \<and> budget b cr')"
proof (cases "n = 0 \<or> cr_terminal cr \<noteq> None \<or> cr_chunkEnded cr")
  case True
  then show ?thesis using assms by (auto simp: chunkedReader_Read_def split: option.splits if_splits)
next
  case False
  obtain e1 cr1 where c1: "cr_terminator cr = (e1, cr1)" by fastforce
  obtain e2 cr2 where c2: "cr_size cr1 = (e2, cr2)" by fastforce
  note t1 = cr_terminator_taken [OF c1]
  have b: "\<not> cr_trailers cr1" "int (length (cr_line cr1)) \<le> maxH1ChunkLine" "cr_trailerBytes cr1 = 0" using assms(2) t1 by (auto simp: cr_before_def)
  note t2 = cr_size_taken [OF c2 b(1,2)]
  consider (stop) "e1 \<noteq> None" "cr' = cr1" | (size) "e1 = None" "e2 \<noteq> None" "cr' = cr2" | (trailers) "e1 = None" "e2 = None" "cr_trailers cr2" "trailer_loop vn vv cr2 = (bs, e, cr')"
    | (data) "\<not> cr_trailers cr2" "cr_trailers cr' = cr_trailers cr2" "cr_trailerBytes cr' = cr_trailerBytes cr2" "cr_line cr' = cr_line cr2"
    using assms(1) False c1 c2 by (auto simp: chunkedReader_Read_def cr_readError_def Let_def split: if_splits option.splits prod.splits)
  then show ?thesis
  proof cases
    case stop
    then show ?thesis using b by (simp add: cr_before_def)
  next
    case size
    then show ?thesis using t2 b(3) by (auto simp: cr_before_def split: if_splits)
  next
    case trailers
    have "budget (left cr2) cr2" "cr_terminal cr2 = None" using trailers(1-3) t1 t2 b(3) False by (auto simp: budget_def maxH1HeaderLine_def)
    then have "budget (left cr2) cr'" using trailer_loop_budget [OF trailers(4)] by blast
    moreover have "left cr \<le> left cr2 + 1026" using t1(1) t2 trailers(3) by simp
    ultimately show ?thesis by blast
  next
    case data
    then show ?thesis using t2 b(3) by (auto simp: cr_before_def)
  qed
qed

subsection \<open>Properties\<close>

lemma write_all_chunks:
  "sink_ok w \<Longrightarrow> write_all chunkedWriter_Write ps w = (None, w\<lparr>snk_out := snk_out w @ concat (map chunk_wire (filter (\<lambda>p. p \<noteq> []) ps))\<rparr>)"
  by (induction ps arbitrary: w) (auto simp: chunkedWriter_Write_def Let_def)

text \<open>
  C28: Chunked coding is transparent. Whatever is written to a chunk writer in pieces of at most 64 KiB and closed, a chunk reader
  delivers exactly these bytes and then \<open>io.EOF\<close>, for every splitting of the stream by the network, every read buffer size and every
  timeout in between, even in the middle of a size line or a terminator.
\<close>

theorem chunked_roundtrip:
  assumes "\<forall>p \<in> set ps. length p \<le> 65536" "write_all chunkedWriter_Write ps \<lparr>snk_out = [], snk_resp = []\<rparr> = (e1, w1)" "chunkedWriter_Close w1 = (e2, w2)"
    and "src_calm src" "src_bytes src = snk_out w2" "0 < n" "src_size src < fuel"
  shows "e1 = None \<and> e2 = None \<and> drain (chunkedReader_Read vn vv) fuel n (newChunkedReader src) = Some (concat ps, EOF)"
proof -
  let ?cs = "filter (\<lambda>p. p \<noteq> []) ps"
  have w: "e1 = None" "w1 = \<lparr>snk_out = concat (map chunk_wire ?cs), snk_resp = []\<rparr>"
    using write_all_chunks [of "\<lparr>snk_out = [], snk_resp = []\<rparr>" ps] assms(2) by (auto simp: sink_ok_def)
  have "sink_ok w1" by (simp add: w(2) sink_ok_def)
  then have c: "e2 = None" "snk_out w2 = chunks_wire ?cs" using assms(3) by (auto simp: chunkedWriter_Close_def w(2) chunks_wire_def)
  have "concat ?cs = concat ps" by (induction ps) auto
  then have "cr_carries (newChunkedReader src) (concat ps)"
    using assms(1,4,5) c(2) by (auto simp: cr_carries_def newChunkedReader_def chunk_list_ok_def intro!: exI [of _ ?cs])
  then have "drain (chunkedReader_Read vn vv) fuel n (newChunkedReader src) = Some (concat ps, EOF)"
    by (rule h1_chunks.drain_carries [OF _ assms(6) order_refl]) (use assms(7) in \<open>simp add: newChunkedReader_def\<close>)
  then show ?thesis using w(1) c(1) by simp
qed

theorem chunked_roundtrip_witness:
  "drain (chunkedReader_Read (\<lambda>_. True) (\<lambda>_. True)) 20 2
     (newChunkedReader [([51, 13], Some (Timeout 0)), ([10, 1, 2, 3, 13, 10, 48, 13], None), ([10, 13, 10], None)]) = Some ([1, 2, 3], EOF)"
proof -
  have w: "write_all chunkedWriter_Write [[1, 2, 3]] \<lparr>snk_out = [], snk_resp = []\<rparr> = (None, \<lparr>snk_out = [51, 13, 10, 1, 2, 3, 13, 10], snk_resp = []\<rparr>)"
    "chunkedWriter_Close \<lparr>snk_out = [51, 13, 10, 1, 2, 3, 13, 10], snk_resp = []\<rparr> =
      (None, \<lparr>snk_out = [51, 13, 10, 1, 2, 3, 13, 10, 48, 13, 10, 13, 10], snk_resp = []\<rparr>)"
    by code_simp+
  have "drain (chunkedReader_Read (\<lambda>_. True) (\<lambda>_. True)) 20 2
      (newChunkedReader [([51, 13], Some (Timeout 0)), ([10, 1, 2, 3, 13, 10, 48, 13], None), ([10, 13, 10], None)]) = Some (concat [[1, 2, 3]], EOF)"
    by (rule chunked_roundtrip [OF _ w, THEN conjunct2, THEN conjunct2]) simp_all
  moreover have "concat [[1, 2, 3 :: byte]] = [1, 2, 3]" by simp
  ultimately show ?thesis by metis
qed

text \<open>The reader after a number of calls.\<close>

abbreviation (input) reads :: "(bytes \<Rightarrow> bool) \<Rightarrow> (bytes \<Rightarrow> bool) \<Rightarrow> chunked_reader \<Rightarrow> nat list \<Rightarrow> chunked_reader" where
  "reads vn vv \<equiv> foldl (\<lambda>cr n. snd (snd (chunkedReader_Read vn vv n cr)))"

lemma reads_bounded: "cr_bounded (reads vn vv (newChunkedReader src) ns)"
proof (induction ns rule: rev_induct)
  case (snoc n ns)
  then show ?case
    by (cases "chunkedReader_Read vn vv n (reads vn vv (newChunkedReader src) ns)") (auto dest: chunkedReader_bounded)
qed (simp add: cr_bounded_def newChunkedReader_def)

lemma reads_before: "cr_before (reads vn vv (newChunkedReader src) ns) \<or> (\<exists>b. budget b (reads vn vv (newChunkedReader src) ns))"
proof (induction ns rule: rev_induct)
  case Nil
  then show ?case by (simp add: cr_before_def newChunkedReader_def maxH1ChunkLine_def)
next
  case (snoc n ns)
  then show ?case
    by (cases "chunkedReader_Read vn vv n (reads vn vv (newChunkedReader src) ns)") (auto dest: Read_before Read_budget)
qed

text \<open>
  C29: A server cannot make the client buffer or read on without bound. Whatever bytes arrive, in whatever splitting and with whatever
  errors, and however often the reader is called, it never holds more than 4 KiB of an unfinished line and never admits a chunk above
  64 KiB. The trailers are bounded by the bytes taken from the connection: from the state before the call that meets the last chunk, all calls together,
  however many follow, take at most the terminator of the chunk before (2 bytes), the size line (1 KiB) and 16 KiB of trailers, and at most one buffer
  (4 KiB) more if they end in a failure; after this nothing is read.
\<close>

theorem chunked_reader_bounded:
  "let before = reads vn vv (newChunkedReader src) ns; entered = reads vn vv before [n]; later = reads vn vv entered ms
   in length (cr_line later) \<le> 4096 \<and> cr_chunkLeft later \<le> 65536 \<and>
     (\<not> cr_trailers before \<and> cr_trailers entered \<longrightarrow>
        length (src_bytes (cr_r before)) \<le> length (src_bytes (cr_r later)) + (2 + 1024 + 16384 + (if cr_terminal later = None then 0 else 4096)))"
proof -
  define before where "before = reads vn vv (newChunkedReader src) ns"
  define entered where "entered = reads vn vv before [n]"
  define later where "later = reads vn vv entered ms"
  have "later = reads vn vv (newChunkedReader src) (ns @ n # ms)" by (simp add: later_def entered_def before_def)
  then have b: "cr_bounded later" by (simp only: reads_bounded)
  have "length (src_bytes (cr_r before)) \<le> length (src_bytes (cr_r later)) + (2 + 1024 + 16384 + (if cr_terminal later = None then 0 else 4096))"
    if t: "\<not> cr_trailers before" "cr_trailers entered"
  proof -
    have "cr_before before" using reads_before [of vn vv src ns] t(1) by (auto simp: budget_def before_def)
    then have "cr_before entered \<or> (\<exists>b. left before \<le> b + 1026 \<and> budget b entered)"
      by (cases "chunkedReader_Read vn vv n before") (auto simp: entered_def dest: Read_before)
    then obtain b where b: "left before \<le> b + 1026" "budget b entered" using t(2) by (auto simp: cr_before_def)
    have "budget b later" unfolding later_def by (rule Reads_budget [OF b(2)])
    then show ?thesis using b(1) by (auto simp: budget_def bufioSize_def split: if_splits)
  qed
  then show ?thesis using b unfolding before_def [symmetric] Let_def entered_def [symmetric] later_def [symmetric] by (simp add: cr_bounded_def)
qed

text \<open>A last chunk with one trailer, read in two calls because of a timeout, and read again after the end.\<close>

theorem chunked_reader_bounded_witness:
  "let before = newChunkedReader [([48, 13, 10, 97], Some (Timeout 0)), ([58, 98, 13, 10, 13, 10], None), ([1, 2, 3], None)];
       entered = reads (\<lambda>_. True) (\<lambda>_. True) before [5]; later = reads (\<lambda>_. True) (\<lambda>_. True) entered [5, 5]
   in \<not> cr_trailers before \<and> cr_trailers entered \<and> length (src_bytes (cr_r before)) = 13 \<and> length (src_bytes (cr_r later)) = 3 \<and> cr_terminal later = None \<and>
     length (src_bytes (cr_r before)) \<le> length (src_bytes (cr_r later)) + (2 + 1024 + 16384)"
proof -
  let ?before = "newChunkedReader [([48, 13, 10, 97], Some (Timeout 0)), ([58, 98, 13, 10, 13, 10], None), ([1, 2, 3], None)]"
  let ?entered = "reads (\<lambda>_. True) (\<lambda>_. True) ?before [5]"
  let ?later = "reads (\<lambda>_. True) (\<lambda>_. True) ?entered [5, 5]"
  have e: "\<not> cr_trailers ?before" "cr_trailers ?entered" "length (src_bytes (cr_r ?before)) = 13" "length (src_bytes (cr_r ?later)) = 3" "cr_terminal ?later = None"
    by code_simp+
  from chunked_reader_bounded [of "\<lambda>_. True" "\<lambda>_. True" "[([48, 13, 10, 97], Some (Timeout 0)), ([58, 98, 13, 10, 13, 10], None), ([1, 2, 3], None)]" "[]" 5 "[5, 5]"]
  have "\<not> cr_trailers ?before \<and> cr_trailers ?entered \<longrightarrow>
      length (src_bytes (cr_r ?before)) \<le> length (src_bytes (cr_r ?later)) + (2 + 1024 + 16384 + (if cr_terminal ?later = None then 0 else 4096))"
    unfolding Let_def foldl_Nil by blast
  then have "length (src_bytes (cr_r ?before)) \<le> length (src_bytes (cr_r ?later)) + (2 + 1024 + 16384)" using e(1,2,5) by simp
  then show ?thesis unfolding Let_def using e by blast
qed

end
