(* ===== verification/Target.thy ===== *)
theory Target
  imports GoNet
begin

text \<open>
  The policy on destinations: \<^verbatim>\<open>src/internal/target/target.go\<close>. Every transport of the server dials or
  resolves its targets through these functions, which must not reach the server's own or private networks
  whatever name the client sends and whatever the name resolves to. The predicates of \<open>net.IP\<close> and \<open>net.IPNet\<close> are
  modelled on bytes, as in Go; the specification is a list of address blocks as numbers. The resolver and the
  dialer are arguments.
\<close>

unbundle bit_operations_syntax

subsection \<open>Go's predicates on addresses\<close>

definition IPv4zero :: bytes where "IPv4zero = v4mapped [0, 0, 0, 0]"
definition IPv4bcast :: bytes where "IPv4bcast = v4mapped [255, 255, 255, 255]"
definition IPv6unspecified :: bytes where "IPv6unspecified = replicate 16 0"
definition IPv6loopback :: bytes where "IPv6loopback = replicate 15 0 @ [1]"

definition IP_Equal :: "bytes \<Rightarrow> bytes \<Rightarrow> bool" where
  "IP_Equal ip x \<longleftrightarrow>
     (if length ip = length x then ip = x
      else if length ip = 4 \<and> length x = 16 then take 12 x = replicate 10 0 @ [255, 255] \<and> ip = drop 12 x
      else if length ip = 16 \<and> length x = 4 then take 12 ip = replicate 10 0 @ [255, 255] \<and> drop 12 ip = x
      else False)"

definition IsUnspecified :: "bytes \<Rightarrow> bool" where
  "IsUnspecified ip \<longleftrightarrow> IP_Equal ip IPv4zero \<or> IP_Equal ip IPv6unspecified"

definition IsLoopback :: "bytes \<Rightarrow> bool" where
  "IsLoopback ip \<longleftrightarrow> (case To4 ip of Some ip4 \<Rightarrow> ip4 ! 0 = 127 | None \<Rightarrow> IP_Equal ip IPv6loopback)"

definition IsPrivate :: "bytes \<Rightarrow> bool" where
  "IsPrivate ip \<longleftrightarrow> (case To4 ip of
       Some ip4 \<Rightarrow> ip4 ! 0 = 10 \<or> (ip4 ! 0 = 172 \<and> ip4 ! 1 AND 0xf0 = 16) \<or> (ip4 ! 0 = 192 \<and> ip4 ! 1 = 168)
     | None \<Rightarrow> length ip = 16 \<and> ip ! 0 AND 0xfe = 0xfc)"

definition IsMulticast :: "bytes \<Rightarrow> bool" where
  "IsMulticast ip \<longleftrightarrow> (case To4 ip of Some ip4 \<Rightarrow> ip4 ! 0 AND 0xf0 = 0xe0 | None \<Rightarrow> length ip = 16 \<and> ip ! 0 = 0xff)"

definition IsLinkLocalMulticast :: "bytes \<Rightarrow> bool" where
  "IsLinkLocalMulticast ip \<longleftrightarrow> (case To4 ip of
       Some ip4 \<Rightarrow> ip4 ! 0 = 224 \<and> ip4 ! 1 = 0 \<and> ip4 ! 2 = 0
     | None \<Rightarrow> length ip = 16 \<and> ip ! 0 = 0xff \<and> ip ! 1 AND 0x0f = 0x02)"

definition IsLinkLocalUnicast :: "bytes \<Rightarrow> bool" where
  "IsLinkLocalUnicast ip \<longleftrightarrow> (case To4 ip of
       Some ip4 \<Rightarrow> ip4 ! 0 = 169 \<and> ip4 ! 1 = 254
     | None \<Rightarrow> length ip = 16 \<and> ip ! 0 = 0xfe \<and> ip ! 1 AND 0xc0 = 0x80)"

definition IsGlobalUnicast :: "bytes \<Rightarrow> bool" where
  "IsGlobalUnicast ip \<longleftrightarrow> (length ip = 4 \<or> length ip = 16) \<and> \<not> IP_Equal ip IPv4bcast \<and> \<not> IsUnspecified ip \<and>
     \<not> IsLoopback ip \<and> \<not> IsMulticast ip \<and> \<not> IsLinkLocalUnicast ip"

text \<open>\<open>net.CIDRMask\<close> for \<open>n\<close> leading ones in \<open>l\<close> bytes, \<open>IP.Mask\<close> for equal lengths and \<open>IPNet.Contains\<close>.\<close>

primrec CIDRMask :: "nat \<Rightarrow> nat \<Rightarrow> bytes" where
  "CIDRMask n 0 = []"
| "CIDRMask n (Suc l) = (if 8 \<le> n then 0xff # CIDRMask (n - 8) l else NOT (drop_bit n 0xff) # CIDRMask 0 l)"

definition IP_Mask :: "bytes \<Rightarrow> bytes \<Rightarrow> bytes" where
  "IP_Mask ip m = map2 (AND) ip m"

definition IPNet_Contains :: "bytes \<times> bytes \<Rightarrow> bytes \<Rightarrow> bool" where
  "IPNet_Contains network ip \<longleftrightarrow>
     (case network of (nn, m) \<Rightarrow>
        let ip = (case To4 ip of Some x \<Rightarrow> x | None \<Rightarrow> ip)
        in length ip = length nn \<and> IP_Mask nn m = IP_Mask ip m)"

text \<open>\<open>net.ParseCIDR\<close>; an address that is written with dots only has four bytes.\<close>

definition ParseCIDR :: "bytes \<Rightarrow> (bytes \<times> bytes) option" where
  "ParseCIDR s =
     (case dropWhile (\<lambda>c. c \<noteq> 47) s of
        [] \<Rightarrow> None
      | _ # maskText \<Rightarrow>
          let addr = takeWhile (\<lambda>c. c \<noteq> 47) s
          in case ParseIP addr of
               None \<Rightarrow> None
             | Some ip \<Rightarrow>
                 let ip = (if chColon \<in> set addr then ip else drop 12 ip); n = decimal maskText
                 in if maskText = [] \<or> \<not> list_all isDigit maskText \<or> 8 * length ip < n then None
                    else Some (IP_Mask ip (CIDRMask n (length ip)), CIDRMask n (length ip)))"

subsection \<open>The program\<close>

definition ErrForbidden :: goerr where "ErrForbidden = Errorf ''target is not a public unicast address''"

definition mustNetworks :: "string list \<Rightarrow> (bytes \<times> bytes) list" where
  "mustNetworks values = map (\<lambda>v. the (ParseCIDR (lit v))) values"

definition specialUseNetworks :: "(bytes \<times> bytes) list" where
  "specialUseNetworks = mustNetworks
     [''0.0.0.0/8'', ''100.64.0.0/10'', ''192.0.0.0/24'', ''192.0.2.0/24'', ''192.88.99.0/24'', ''198.18.0.0/15'',
      ''198.51.100.0/24'', ''203.0.113.0/24'', ''240.0.0.0/4'', ''100::/64'', ''2001:2::/48'', ''2001:db8::/32'']"

text \<open>A nil address is the empty byte list.\<close>

definition target_allowed :: "bytes \<Rightarrow> bool" where
  "target_allowed ip \<longleftrightarrow>
     \<not> (ip = [] \<or> \<not> IsGlobalUnicast ip \<or> IsPrivate ip \<or> IsUnspecified ip \<or> IsLoopback ip \<or> IsLinkLocalUnicast ip \<or>
        IsLinkLocalMulticast ip \<or> IsMulticast ip) \<and>
     (\<forall>network \<in> set specialUseNetworks. \<not> IPNet_Contains network ip)"

type_synonym lookup = "bytes \<Rightarrow> (bytes \<times> bytes) list result"

definition target_resolve :: "lookup \<Rightarrow> bytes \<Rightarrow> (bytes \<times> bytes \<times> (bytes \<times> bytes) list) result" where
  "target_resolve LookupIPAddr address =
     (case SplitHostPort address of
        Inl e \<Rightarrow> Inl (Errorf ''invalid target'')
      | Inr (host, portText) \<Rightarrow>
          (case Atoi portText of
             None \<Rightarrow> Inl (Errorf ''invalid target port'')
           | Some port \<Rightarrow>
               if port < 1 \<or> 65535 < port then Inl (Errorf ''invalid target port'')
               else (case LookupIPAddr host of
                       Inl e \<Rightarrow> Inl e
                     | Inr addresses \<Rightarrow> Inr (host, portText, addresses))))"

text \<open>The loop of \<open>DialContext\<close>, with the last error and the destinations dialled so far.\<close>

fun dial_loop :: "(bytes \<Rightarrow> 'c result) \<Rightarrow> bytes \<Rightarrow> (bytes \<times> bytes) list \<Rightarrow> goerr option \<Rightarrow> bytes list \<Rightarrow> 'c result \<times> bytes list" where
  "dial_loop dial portText [] err dialled = ((case err of Some e \<Rightarrow> Inl e | None \<Rightarrow> Inl ErrForbidden), dialled)"
| "dial_loop dial portText ((ip, zone) # addresses) err dialled =
     (if \<not> target_allowed ip then dial_loop dial portText addresses err dialled
      else let dst = JoinHostPort (IP_String ip) portText
           in case dial dst of
                Inr conn \<Rightarrow> (Inr conn, dialled @ [dst])
              | Inl dialErr \<Rightarrow> dial_loop dial portText addresses (Some dialErr) (dialled @ [dst]))"

definition DialContext :: "lookup \<Rightarrow> (bytes \<Rightarrow> 'c result) \<Rightarrow> bytes \<Rightarrow> 'c result \<times> bytes list" where
  "DialContext LookupIPAddr dial address =
     (case target_resolve LookupIPAddr address of
        Inl e \<Rightarrow> (Inl e, [])
      | Inr (host, portText, addresses) \<Rightarrow> dial_loop dial portText addresses None [])"

definition ResolveUDPAddr :: "lookup \<Rightarrow> bytes \<Rightarrow> (bytes \<times> int \<times> bytes) result" where
  "ResolveUDPAddr LookupIPAddr address =
     (case target_resolve LookupIPAddr address of
        Inl e \<Rightarrow> Inl e
      | Inr (host, portText, addresses) \<Rightarrow>
          (case List.find (\<lambda>(ip, zone). target_allowed ip) addresses of
             Some (ip, zone) \<Rightarrow> Inr (ip, the (Atoi portText), zone)
           | None \<Rightarrow> Inl ErrForbidden))"

definition ResolveICMPIP :: "lookup \<Rightarrow> bytes \<Rightarrow> bool \<Rightarrow> bytes result" where
  "ResolveICMPIP LookupIPAddr host allowPrivate =
     (case ParseIP host of
        Some ip \<Rightarrow>
          if \<not> allowPrivate \<and> \<not> target_allowed ip then Inl ErrForbidden
          else if \<not> IsGlobalUnicast ip \<and> \<not> IsLoopback ip then Inl ErrForbidden
          else Inr ip
      | None \<Rightarrow>
          (case LookupIPAddr host of
             Inl e \<Rightarrow> Inl e
           | Inr addresses \<Rightarrow>
               (case List.find (\<lambda>(ip, zone). (allowPrivate \<or> target_allowed ip) \<and> (IsGlobalUnicast ip \<or> IsLoopback ip)) addresses of
                  Some (ip, zone) \<Rightarrow> Inr ip
                | None \<Rightarrow> Inl ErrForbidden)))"

subsection \<open>Prefixes as numbers\<close>

text \<open>\<open>in_block k n (base, len)\<close>: the first \<open>len\<close> of \<open>k\<close> bits of \<open>n\<close> are those of \<open>base\<close>.\<close>

definition in_block :: "nat \<Rightarrow> nat \<Rightarrow> nat \<times> nat \<Rightarrow> bool" where
  "in_block k n block \<longleftrightarrow> (case block of (base, len) \<Rightarrow> n div 2 ^ (k - len) = base div 2 ^ (k - len))"

lemma be_get_Cons: "be_get (b # bs) = unat b * 256 ^ length bs + be_get bs"
proof (induction bs rule: rev_induct)
  case Nil
  show ?case using be_get_snoc [of "[]" b] by simp
next
  case (snoc x xs)
  then show ?case using be_get_snoc [of "b # xs" x] by (simp add: algebra_simps)
qed

lemma mask_byte:
  assumes "n \<le> 8"
  shows "((x :: byte) AND NOT (drop_bit n 0xff) = y AND NOT (drop_bit n 0xff)) \<longleftrightarrow> unat x div 2 ^ (8 - n) = unat y div 2 ^ (8 - n)"
proof -
  have m: "bit (NOT (drop_bit n 0xff) :: byte) i \<longleftrightarrow> i < 8 \<and> 8 - n \<le> i" for i
  proof -
    have f: "(0xff :: byte) = mask 8" by (simp add: mask_eq_exp_minus_1)
    show ?thesis unfolding f using assms by (auto simp: bit_simps)
  qed
  have b: "bit (z AND NOT (drop_bit n 0xff)) i \<longleftrightarrow> i < 8 \<and> 8 - n \<le> i \<and> bit z i" for z :: byte and i by (auto simp: bit_and_iff m)
  have "(x AND NOT (drop_bit n 0xff) = y AND NOT (drop_bit n 0xff)) \<longleftrightarrow> drop_bit (8 - n) x = drop_bit (8 - n) y"
  proof
    assume e: "x AND NOT (drop_bit n 0xff) = y AND NOT (drop_bit n 0xff)"
    have "bit x (8 - n + i) = bit y (8 - n + i)" for i
      using arg_cong [OF e, of "\<lambda>w. bit w (8 - n + i)"] b bit_imp_le_length [of x "8 - n + i"] bit_imp_le_length [of y "8 - n + i"]
      by auto
    then show "drop_bit (8 - n) x = drop_bit (8 - n) y" by (intro bit_eqI) (simp add: bit_drop_bit_eq)
  next
    assume e: "drop_bit (8 - n) x = drop_bit (8 - n) y"
    have "bit x i = bit y i" if "8 - n \<le> i" for i
      using arg_cong [OF e, of "\<lambda>w. bit w (i - (8 - n))"] that by (simp add: bit_drop_bit_eq)
    then show "x AND NOT (drop_bit n 0xff) = y AND NOT (drop_bit n 0xff)" by (intro bit_eqI) (auto simp: b)
  qed
  also have "\<dots> \<longleftrightarrow> unat x div 2 ^ (8 - n) = unat y div 2 ^ (8 - n)"
    unfolding word_unat_eq_iff unat_drop_bit_eq by (simp add: drop_bit_eq_div)
  finally show ?thesis .
qed

lemma prefix_div:
  fixes x r a b :: nat
  assumes "r < 2 ^ a"
  shows "(x * 2 ^ a + r) div 2 ^ (a + b) = x div 2 ^ b"
  using assms by (simp add: power_add div_mult2_eq)

lemma prefix_step:
  fixes x y r s a b :: nat
  assumes "r < 2 ^ a" "s < 2 ^ a" "b \<le> a"
  shows "(x * 2 ^ a + r) div 2 ^ b = (y * 2 ^ a + s) div 2 ^ b \<longleftrightarrow> x = y \<and> r div 2 ^ b = s div 2 ^ b"
proof -
  have p: "(z * 2 ^ a + q) div 2 ^ b = z * 2 ^ (a - b) + q div 2 ^ b" for z q :: nat
  proof -
    have "z * 2 ^ a + q = (z * 2 ^ (a - b)) * 2 ^ b + q" using assms(3) by (simp add: mult.assoc flip: power_add)
    then show ?thesis by (simp only: div_mult_self3 [of "2 ^ b"] power_not_zero zero_neq_numeral not_False_eq_True)
  qed
  have l: "q div 2 ^ b < 2 ^ (a - b)" if "q < 2 ^ a" for q :: nat
    using that assms(3) by (simp add: less_mult_imp_div_less flip: power_add)
  have "z = (z * 2 ^ (a - b) + q div 2 ^ b) div 2 ^ (a - b)" "q div 2 ^ b = (z * 2 ^ (a - b) + q div 2 ^ b) mod 2 ^ (a - b)"
    if "q < 2 ^ a" for z q :: nat using l [OF that] by simp_all
  then show ?thesis unfolding p using assms(1,2) by metis
qed

text \<open>Comparing masked bytes is comparing prefixes of numbers, for every prefix length.\<close>

lemma mask_is_prefix:
  assumes "length xs = l" "length ys = l" "n \<le> 8 * l"
  shows "IP_Mask xs (CIDRMask n l) = IP_Mask ys (CIDRMask n l) \<longleftrightarrow> in_block (8 * l) (be_get xs) (be_get ys, n)"
  using assms
proof (induction l arbitrary: xs ys n)
  case 0
  then show ?case by (simp add: IP_Mask_def in_block_def)
next
  case (Suc l)
  obtain x xs' y ys' where e: "xs = x # xs'" "ys = y # ys'" "length xs' = l" "length ys' = l"
    using Suc.prems(1,2) by (metis length_Suc_conv)
  have p: "(256 :: nat) ^ l = 2 ^ (8 * l)" by (simp add: power_mult)
  have lt: "be_get xs' < 2 ^ (8 * l)" "be_get ys' < 2 ^ (8 * l)" using be_get_less [of xs'] be_get_less [of ys'] e p by simp_all
  have g: "be_get xs = unat x * 2 ^ (8 * l) + be_get xs'" "be_get ys = unat y * 2 ^ (8 * l) + be_get ys'"
    using e p by (simp_all add: be_get_Cons)
  show ?case
  proof (cases "8 \<le> n")
    case True
    have "(0xff :: byte) = - 1" by simp
    then have ff: "z AND 0xff = z" for z :: byte by (simp only: and.right_neutral)
    have "IP_Mask xs (CIDRMask n (Suc l)) = IP_Mask ys (CIDRMask n (Suc l)) \<longleftrightarrow>
        x = y \<and> IP_Mask xs' (CIDRMask (n - 8) l) = IP_Mask ys' (CIDRMask (n - 8) l)"
      using True e ff by (simp add: IP_Mask_def)
    also have "\<dots> \<longleftrightarrow> x = y \<and> in_block (8 * l) (be_get xs') (be_get ys', n - 8)" using Suc.IH [of xs' ys' "n - 8"] e Suc.prems(3) by simp
    also have "\<dots> \<longleftrightarrow> in_block (8 * Suc l) (be_get xs) (be_get ys, n)"
    proof -
      have k: "8 * Suc l - n = 8 * l - (n - 8)" using True by simp
      show ?thesis unfolding in_block_def k prod.case g using prefix_step [OF lt, of "8 * l - (n - 8)" "unat x" "unat y"]
        by (simp add: word_unat_eq_iff)
    qed
    finally show ?thesis .
  next
    case False
    have z: "IP_Mask zs (CIDRMask 0 k) = replicate k 0" if "length zs = k" for zs k
    proof -
      have n: "(- 256 :: byte) = 0" by simp
      have "y AND - 256 = 0" for y :: byte by (subst n) simp
      then show ?thesis using that by (induction k arbitrary: zs) (auto simp: IP_Mask_def length_Suc_conv)
    qed
    have "IP_Mask xs (CIDRMask n (Suc l)) = IP_Mask ys (CIDRMask n (Suc l)) \<longleftrightarrow> x AND NOT (drop_bit n 0xff) = y AND NOT (drop_bit n 0xff)"
      using False e z [OF e(3)] z [OF e(4)] by (simp add: IP_Mask_def)
    also have "\<dots> \<longleftrightarrow> unat x div 2 ^ (8 - n) = unat y div 2 ^ (8 - n)" using False by (intro mask_byte) simp
    also have "\<dots> \<longleftrightarrow> in_block (8 * Suc l) (be_get xs) (be_get ys, n)"
    proof -
      have k: "8 * Suc l - n = 8 * l + (8 - n)" using False by simp
      show ?thesis unfolding in_block_def k prod.case g prefix_div [OF lt(1)] prefix_div [OF lt(2)] ..
    qed
    finally show ?thesis .
  qed
qed

subsection \<open>The policy as address blocks\<close>

text \<open>
  The blocks that are not public unicast: this host, private use, shared address space, loopback, link local, IETF assignments,
  documentation, 6to4 relays, benchmarking, multicast and reserved; and the same for IPv6.
\<close>

definition special4 :: "(bytes \<times> nat) list" where
  "special4 = [([0, 0, 0, 0], 8), ([10, 0, 0, 0], 8), ([100, 64, 0, 0], 10), ([127, 0, 0, 0], 8), ([169, 254, 0, 0], 16),
     ([172, 16, 0, 0], 12), ([192, 0, 0, 0], 24), ([192, 0, 2, 0], 24), ([192, 88, 99, 0], 24), ([192, 168, 0, 0], 16),
     ([198, 18, 0, 0], 15), ([198, 51, 100, 0], 24), ([203, 0, 113, 0], 24), ([224, 0, 0, 0], 4), ([240, 0, 0, 0], 4)]"

definition special6 :: "(bytes \<times> nat) list" where
  "special6 = [(replicate 16 0, 128), (replicate 15 0 @ [1], 128), (0xfc # replicate 15 0, 7), (0xfe # 0x80 # replicate 14 0, 10),
     (0xff # replicate 15 0, 8), (0x01 # replicate 15 0, 64), ([0x20, 0x01, 0, 2] @ replicate 12 0, 48), ([0x20, 0x01, 0x0d, 0xb8] @ replicate 12 0, 32)]"

definition block_of :: "bytes \<times> nat \<Rightarrow> nat \<times> nat" where
  "block_of b = (be_get (fst b), snd b)"

definition public_unicast :: "bytes \<Rightarrow> bool" where
  "public_unicast ip \<longleftrightarrow> (case To4 ip of
       Some ip4 \<Rightarrow> (\<forall>b \<in> set special4. \<not> in_block 32 (be_get ip4) (block_of b))
     | None \<Rightarrow> length ip = 16 \<and> (\<forall>b \<in> set special6. \<not> in_block 128 (be_get ip) (block_of b)))"

lemma block_masked:
  "length ip = 4 \<Longrightarrow> length base = 4 \<Longrightarrow> n \<le> 32 \<Longrightarrow>
    in_block 32 (be_get ip) (block_of (base, n)) \<longleftrightarrow> IP_Mask ip (CIDRMask n 4) = IP_Mask base (CIDRMask n 4)"
  "length ip = 16 \<Longrightarrow> length base = 16 \<Longrightarrow> n \<le> 128 \<Longrightarrow>
    in_block 128 (be_get ip) (block_of (base, n)) \<longleftrightarrow> IP_Mask ip (CIDRMask n 16) = IP_Mask base (CIDRMask n 16)"
  using mask_is_prefix [of ip 4 base n] mask_is_prefix [of ip 16 base n] by (simp_all add: block_of_def)

lemma parsed_networks:
  "ParseCIDR (lit ''0.0.0.0/8'') = Some ([0, 0, 0, 0], [255, 0, 0, 0])"
  "ParseCIDR (lit ''100.64.0.0/10'') = Some ([100, 64, 0, 0], [255, 192, 0, 0])"
  "ParseCIDR (lit ''192.0.0.0/24'') = Some ([192, 0, 0, 0], [255, 255, 255, 0])"
  "ParseCIDR (lit ''192.0.2.0/24'') = Some ([192, 0, 2, 0], [255, 255, 255, 0])"
  "ParseCIDR (lit ''192.88.99.0/24'') = Some ([192, 88, 99, 0], [255, 255, 255, 0])"
  "ParseCIDR (lit ''198.18.0.0/15'') = Some ([198, 18, 0, 0], [255, 254, 0, 0])"
  "ParseCIDR (lit ''198.51.100.0/24'') = Some ([198, 51, 100, 0], [255, 255, 255, 0])"
  "ParseCIDR (lit ''203.0.113.0/24'') = Some ([203, 0, 113, 0], [255, 255, 255, 0])"
  "ParseCIDR (lit ''240.0.0.0/4'') = Some ([240, 0, 0, 0], [240, 0, 0, 0])"
  "ParseCIDR (lit ''100::/64'') = Some (1 # replicate 15 0, CIDRMask 64 16)"
  "ParseCIDR (lit ''2001:2::/48'') = Some ([32, 1, 0, 2] @ replicate 12 0, CIDRMask 48 16)"
  "ParseCIDR (lit ''2001:db8::/32'') = Some ([32, 1, 13, 184] @ replicate 12 0, CIDRMask 32 16)"
  by code_simp+

lemma special_networks [code]:
  "specialUseNetworks = [([0, 0, 0, 0], [255, 0, 0, 0]), ([100, 64, 0, 0], [255, 192, 0, 0]), ([192, 0, 0, 0], [255, 255, 255, 0]),
     ([192, 0, 2, 0], [255, 255, 255, 0]), ([192, 88, 99, 0], [255, 255, 255, 0]), ([198, 18, 0, 0], [255, 254, 0, 0]),
     ([198, 51, 100, 0], [255, 255, 255, 0]), ([203, 0, 113, 0], [255, 255, 255, 0]), ([240, 0, 0, 0], [240, 0, 0, 0]),
     (1 # replicate 15 0, CIDRMask 64 16), ([32, 1, 0, 2] @ replicate 12 0, CIDRMask 48 16), ([32, 1, 13, 184] @ replicate 12 0, CIDRMask 32 16)]"
  unfolding specialUseNetworks_def mustNetworks_def list.map parsed_networks option.sel ..

declare CIDRMask.simps [simp del]

lemma masks4:
  "CIDRMask 4 4 = [240, 0, 0, 0]" "CIDRMask 8 4 = [255, 0, 0, 0]" "CIDRMask 10 4 = [255, 192, 0, 0]" "CIDRMask 12 4 = [255, 240, 0, 0]"
  "CIDRMask 15 4 = [255, 254, 0, 0]" "CIDRMask 16 4 = [255, 255, 0, 0]" "CIDRMask 24 4 = [255, 255, 255, 0]"
  by code_simp+

lemma masks6:
  "CIDRMask 7 16 = 254 # replicate 15 0" "CIDRMask 8 16 = 255 # replicate 15 0" "CIDRMask 10 16 = 255 # 192 # replicate 14 0"
  "CIDRMask 32 16 = replicate 4 255 @ replicate 12 0" "CIDRMask 48 16 = replicate 6 255 @ replicate 10 0"
  "CIDRMask 64 16 = replicate 8 255 @ replicate 8 0" "CIDRMask 128 16 = replicate 16 255"
  by code_simp+

lemma byte_masks: "x AND 255 = x" "x AND 0 = 0" for x :: byte
proof -
  have "(255 :: byte) = - 1" by simp
  then show "x AND 255 = x" by (simp only: and.right_neutral)
qed simp

lemma To4_cases:
  assumes "To4 ip = Some ip4"
  shows "length ip4 = 4" "ip = ip4 \<or> ip = v4mapped ip4"
proof -
  show "length ip4 = 4" using assms by (auto simp: To4_def split: if_splits)
  have "ip = v4mapped (drop 12 ip)" if "take 12 ip = replicate 10 0 @ [255, 255]"
    using append_take_drop_id [of 12 ip] unfolding that v4mapped_def by simp
  then show "ip = ip4 \<or> ip = v4mapped ip4" using assms by (auto simp: To4_def split: if_splits)
qed

lemma IP_Equal_v4:
  assumes "To4 ip = Some ip4"
  shows "length x = 4 \<Longrightarrow> IP_Equal ip (v4mapped x) \<longleftrightarrow> ip4 = x" "\<not> IP_Equal ip IPv6unspecified"
proof -
  have "v4mapped ip4 ! 10 = 255" "(replicate 10 0 @ [255, 255]) ! 10 = (255 :: byte)" by (simp_all add: v4mapped_def nth_append)
  then have "replicate 16 0 \<noteq> v4mapped ip4" "take 12 (replicate 16 0) \<noteq> replicate 10 (0 :: byte) @ [255, 255]"
    by (auto dest!: arg_cong [of _ _ "\<lambda>xs. xs ! 10"])
  moreover have "length (v4mapped x) = 12 + length x" for x by (simp add: v4mapped_def)
  ultimately show "length x = 4 \<Longrightarrow> IP_Equal ip (v4mapped x) \<longleftrightarrow> ip4 = x" "\<not> IP_Equal ip IPv6unspecified"
    using To4_cases [OF assms] by (auto simp: IP_Equal_def IPv6unspecified_def) (auto simp: v4mapped_def)
qed

lemma special4_bytes:
  "(\<forall>x \<in> set special4. \<not> in_block 32 (be_get [a, b, c, d]) (block_of x)) \<longleftrightarrow>
     a \<noteq> 0 \<and> a \<noteq> 10 \<and> \<not> (a = 100 \<and> b AND 192 = 64) \<and> a \<noteq> 127 \<and> \<not> (a = 169 \<and> b = 254) \<and> \<not> (a = 172 \<and> b AND 240 = 16) \<and>
     \<not> (a = 192 \<and> b = 0 \<and> c = 0) \<and> \<not> (a = 192 \<and> b = 0 \<and> c = 2) \<and> \<not> (a = 192 \<and> b = 88 \<and> c = 99) \<and> \<not> (a = 192 \<and> b = 168) \<and>
     \<not> (a = 198 \<and> b AND 254 = 18) \<and> \<not> (a = 198 \<and> b = 51 \<and> c = 100) \<and> \<not> (a = 203 \<and> b = 0 \<and> c = 113) \<and>
     a AND 240 \<noteq> 224 \<and> a AND 240 \<noteq> 240"
  by (simp add: special4_def block_masked masks4 IP_Mask_def byte_masks)

lemma networks_bytes:
  assumes "To4 ip = Some [a, b, c, d]"
  shows "(\<forall>network \<in> set specialUseNetworks. \<not> IPNet_Contains network ip) \<longleftrightarrow>
     a \<noteq> 0 \<and> \<not> (a = 100 \<and> b AND 192 = 64) \<and> \<not> (a = 192 \<and> b = 0 \<and> c = 0) \<and> \<not> (a = 192 \<and> b = 0 \<and> c = 2) \<and> \<not> (a = 192 \<and> b = 88 \<and> c = 99) \<and>
     \<not> (a = 198 \<and> b AND 254 = 18) \<and> \<not> (a = 198 \<and> b = 51 \<and> c = 100) \<and> \<not> (a = 203 \<and> b = 0 \<and> c = 113) \<and> a AND 240 \<noteq> 240"
  unfolding special_networks by (simp add: IPNet_Contains_def assms IP_Mask_def byte_masks eq_commute [of 0] eq_commute [of "numeral _ :: byte"])

lemma allowed_v4:
  assumes "To4 ip = Some ip4"
  shows "target_allowed ip \<longleftrightarrow> (\<forall>b \<in> set special4. \<not> in_block 32 (be_get ip4) (block_of b))"
proof -
  note t = To4_cases [OF assms]
  obtain a b c d where q: "ip4 = [a, b, c, d]" using t(1) by (auto simp: length_Suc_conv numeral_eq_Suc)
  have l: "ip \<noteq> []" "length ip = 4 \<or> length ip = 16" using t by (auto simp: v4mapped_def)
  have a: "To4 ip = Some [a, b, c, d]" using assms q by simp
  have m: "a = 255 \<Longrightarrow> a AND 240 = 240" "a = 224 \<Longrightarrow> a AND 240 = 224" by simp_all
  have p: "IsPrivate ip \<longleftrightarrow> a = 10 \<or> (a = 172 \<and> b AND 240 = 16) \<or> (a = 192 \<and> b = 168)" "IsLoopback ip \<longleftrightarrow> a = 127"
    "IsMulticast ip \<longleftrightarrow> a AND 240 = 224" "IsLinkLocalUnicast ip \<longleftrightarrow> a = 169 \<and> b = 254" "IsLinkLocalMulticast ip \<longleftrightarrow> a = 224 \<and> b = 0 \<and> c = 0"
    by (simp_all add: IsPrivate_def IsLoopback_def IsMulticast_def IsLinkLocalUnicast_def IsLinkLocalMulticast_def a)
  have u: "IsUnspecified ip \<longleftrightarrow> a = 0 \<and> b = 0 \<and> c = 0 \<and> d = 0" "IP_Equal ip IPv4bcast \<longleftrightarrow> a = 255 \<and> b = 255 \<and> c = 255 \<and> d = 255"
    using IP_Equal_v4 [OF a] by (simp_all add: IsUnspecified_def IPv4zero_def IPv4bcast_def)
  show ?thesis unfolding target_allowed_def IsGlobalUnicast_def q special4_bytes networks_bytes [OF a] p u using l m by argo
qed

text \<open>IPv6: the first bytes decide, the unspecified and the loopback address apart.\<close>

lemma masked16:
  assumes "length ip = 16"
  shows "in_block 128 (be_get ip) (block_of (replicate 16 0, 128)) \<longleftrightarrow> ip = replicate 16 0"
    "in_block 128 (be_get ip) (block_of (replicate 15 0 @ [1], 128)) \<longleftrightarrow> ip = replicate 15 0 @ [1]"
    "in_block 128 (be_get ip) (block_of (0xfc # replicate 15 0, 7)) \<longleftrightarrow> ip ! 0 AND 0xfe = 0xfc"
    "in_block 128 (be_get ip) (block_of (0xfe # 0x80 # replicate 14 0, 10)) \<longleftrightarrow> ip ! 0 = 0xfe \<and> ip ! 1 AND 0xc0 = 0x80"
    "in_block 128 (be_get ip) (block_of (0xff # replicate 15 0, 8)) \<longleftrightarrow> ip ! 0 = 0xff"
proof -
  obtain x y xs where e: "ip = x # y # xs" "length xs = 14" using assms by (auto simp: length_Suc_conv numeral_eq_Suc)
  have full: "IP_Mask zs (replicate (length zs) 255) = zs" for zs
    by (induction zs) (simp_all add: IP_Mask_def byte_masks)
  have none: "IP_Mask zs (replicate (length zs) 0) = replicate (length zs) 0" for zs
    by (induction zs) (simp_all add: IP_Mask_def byte_masks)
  have z: "IP_Mask zs (replicate n 0) = replicate n 0" if "length zs = n" for zs n using none [of zs] that by simp
  have c: "IP_Mask (a # as) (m # ms) = (a AND m) # IP_Mask as ms" for a as m ms by (simp add: IP_Mask_def)
  have r: "replicate 15 v = v # replicate 14 v" for v :: byte by (simp add: numeral_eq_Suc)
  show "in_block 128 (be_get ip) (block_of (replicate 16 0, 128)) \<longleftrightarrow> ip = replicate 16 0"
    "in_block 128 (be_get ip) (block_of (replicate 15 0 @ [1], 128)) \<longleftrightarrow> ip = replicate 15 0 @ [1]"
    using full [of ip] full [of "replicate 16 0"] full [of "replicate 15 0 @ [1]"] assms by (simp_all add: block_masked(2) masks6)
  show "in_block 128 (be_get ip) (block_of (0xfc # replicate 15 0, 7)) \<longleftrightarrow> ip ! 0 AND 0xfe = 0xfc"
    "in_block 128 (be_get ip) (block_of (0xfe # 0x80 # replicate 14 0, 10)) \<longleftrightarrow> ip ! 0 = 0xfe \<and> ip ! 1 AND 0xc0 = 0x80"
    "in_block 128 (be_get ip) (block_of (0xff # replicate 15 0, 8)) \<longleftrightarrow> ip ! 0 = 0xff"
    using e z [OF e(2)] z [of "replicate 14 0" 14] by (simp_all add: block_masked(2) masks6 c r byte_masks)
qed

lemma masked_network:
  assumes "To4 ip = None" "length ip = 16" "length base = 16" "n \<le> 128"
  shows "IPNet_Contains (base, CIDRMask n 16) ip \<longleftrightarrow> in_block 128 (be_get ip) (block_of (base, n))"
  using assms by (auto simp: IPNet_Contains_def block_masked(2))

lemma allowed_v6:
  assumes "To4 ip = None" "length ip = 16"
  shows "target_allowed ip \<longleftrightarrow> (\<forall>b \<in> set special6. \<not> in_block 128 (be_get ip) (block_of b))"
proof -
  have n4: "\<not> IP_Equal ip (v4mapped x)" if "length x = 4" for x
    using assms that by (auto simp: IP_Equal_def To4_def v4mapped_def split: if_splits)
  have p: "IsPrivate ip \<longleftrightarrow> ip ! 0 AND 0xfe = 0xfc" "IsLoopback ip \<longleftrightarrow> ip = replicate 15 0 @ [1]" "IsMulticast ip \<longleftrightarrow> ip ! 0 = 0xff"
    "IsLinkLocalUnicast ip \<longleftrightarrow> ip ! 0 = 0xfe \<and> ip ! 1 AND 0xc0 = 0x80" "IsLinkLocalMulticast ip \<longrightarrow> ip ! 0 = 0xff"
    using assms by (simp_all add: IsPrivate_def IsLoopback_def IsMulticast_def IsLinkLocalUnicast_def IsLinkLocalMulticast_def IP_Equal_def IPv6loopback_def)
  have u: "IsUnspecified ip \<longleftrightarrow> ip = replicate 16 0" "\<not> IP_Equal ip IPv4bcast"
    using n4 [of "[0, 0, 0, 0]"] n4 [of "[255, 255, 255, 255]"] assms(2)
    by (simp_all add: IsUnspecified_def IPv4zero_def IPv4bcast_def IPv6unspecified_def IP_Equal_def)
  have w: "(\<forall>network \<in> set specialUseNetworks. \<not> IPNet_Contains network ip) \<longleftrightarrow>
     \<not> in_block 128 (be_get ip) (block_of (1 # replicate 15 0, 64)) \<and> \<not> in_block 128 (be_get ip) (block_of ([32, 1, 0, 2] @ replicate 12 0, 48)) \<and>
     \<not> in_block 128 (be_get ip) (block_of ([32, 1, 13, 184] @ replicate 12 0, 32))"
  proof -
    have v4: "\<not> IPNet_Contains ([a, b, c, d], m) ip" for a b c d m using assms by (simp add: IPNet_Contains_def)
    have "IPNet_Contains (1 # replicate 15 0, CIDRMask 64 16) ip \<longleftrightarrow> in_block 128 (be_get ip) (block_of (1 # replicate 15 0, 64))"
      "IPNet_Contains ([32, 1, 0, 2] @ replicate 12 0, CIDRMask 48 16) ip \<longleftrightarrow> in_block 128 (be_get ip) (block_of ([32, 1, 0, 2] @ replicate 12 0, 48))"
      "IPNet_Contains ([32, 1, 13, 184] @ replicate 12 0, CIDRMask 32 16) ip \<longleftrightarrow> in_block 128 (be_get ip) (block_of ([32, 1, 13, 184] @ replicate 12 0, 32))"
      by (rule masked_network [OF assms]; simp)+
    then show ?thesis using v4 unfolding special_networks by (simp del: append.simps)
  qed
  have b: "(\<forall>b \<in> set special6. \<not> in_block 128 (be_get ip) (block_of b)) \<longleftrightarrow>
     \<not> (ip = replicate 16 0) \<and> \<not> (ip = replicate 15 0 @ [1]) \<and> \<not> (ip ! 0 AND 0xfe = 0xfc) \<and> \<not> (ip ! 0 = 0xfe \<and> ip ! 1 AND 0xc0 = 0x80) \<and> \<not> (ip ! 0 = 0xff) \<and>
     \<not> in_block 128 (be_get ip) (block_of (1 # replicate 15 0, 64)) \<and> \<not> in_block 128 (be_get ip) (block_of ([32, 1, 0, 2] @ replicate 12 0, 48)) \<and>
     \<not> in_block 128 (be_get ip) (block_of ([32, 1, 13, 184] @ replicate 12 0, 32))"
    unfolding special6_def list.set ball_simps masked16 [OF assms(2)] by (simp del: append.simps)
  have l: "ip \<noteq> []" "length ip = 4 \<or> length ip = 16" using assms(2) by auto
  show ?thesis unfolding target_allowed_def IsGlobalUnicast_def b w u(1) using p u(2) l by argo
qed

lemma public_addr: "target_allowed ip \<longleftrightarrow> public_unicast ip"
proof (cases "To4 ip")
  case (Some ip4)
  then show ?thesis by (simp add: public_unicast_def allowed_v4)
next
  case None
  show ?thesis
  proof (cases "length ip = 16")
    case True
    then show ?thesis using None by (simp add: public_unicast_def allowed_v6)
  next
    case False
    then have "length ip \<noteq> 4" using None by (auto simp: To4_def)
    then show ?thesis using None False by (simp add: public_unicast_def target_allowed_def IsGlobalUnicast_def)
  qed
qed

subsection \<open>Properties\<close>

text \<open>
  C32: The address policy, which combines nine predicates of Go's \<open>net.IP\<close> and masks of parsed CIDR strings on address bytes,
  decides exactly by address blocks: an address is allowed if and only if it is an IPv4 or IPv6 address outside all listed blocks,
  where an IPv4-mapped IPv6 address counts as the IPv4 address it carries.
\<close>

theorem target_policy_exact: "target_allowed ip \<longleftrightarrow> public_unicast ip"
  by (rule public_addr)

lemma find_SomeD: "List.find P xs = Some x \<Longrightarrow> P x \<and> x \<in> set xs"
  by (auto simp: find_Some_iff)

text \<open>The destinations a dial loop tries, and its outcome.\<close>

definition dial_targets :: "bytes \<Rightarrow> (bytes \<times> bytes) list \<Rightarrow> bytes list" where
  "dial_targets portText addresses = map (\<lambda>(ip, zone). JoinHostPort (IP_String ip) portText) (filter (\<lambda>(ip, zone). target_allowed ip) addresses)"

lemma dial_loop_spec:
  assumes "dial_loop dial portText addresses err dialled = (r, tried)"
  shows "\<exists>now rest. dial_targets portText addresses = now @ rest \<and> tried = dialled @ now \<and>
    (case r of
       Inr conn \<Rightarrow> now \<noteq> [] \<and> dial (last now) = Inr conn \<and> (\<forall>dst \<in> set (butlast now). isl (dial dst))
     | Inl e \<Rightarrow> rest = [] \<and> (\<forall>dst \<in> set now. isl (dial dst)) \<and>
         e = (if now \<noteq> [] then projl (dial (last now)) else case err of Some e \<Rightarrow> e | None \<Rightarrow> ErrForbidden))"
  using assms
proof (induction dial portText addresses err dialled rule: dial_loop.induct)
  case (1 dial portText err dialled)
  then show ?case by (auto simp: dial_targets_def split: option.splits)
next
  case (2 dial portText ip zone addresses err dialled)
  show ?case
  proof (cases "target_allowed ip")
    case False
    then show ?thesis using 2 by (simp add: dial_targets_def)
  next
    case True
    let ?dst = "JoinHostPort (IP_String ip) portText"
    have dt: "dial_targets portText ((ip, zone) # addresses) = ?dst # dial_targets portText addresses" using True by (simp add: dial_targets_def)
    show ?thesis
    proof (cases "dial ?dst")
      case (Inl e)
      then have "dial_loop dial portText addresses (Some e) (dialled @ [?dst]) = (r, tried)" using 2(3) True by simp
      from 2(2) [OF _ refl Inl this] True obtain now rest where n: "dial_targets portText addresses = now @ rest" "tried = dialled @ ?dst # now"
        "case r of Inr conn \<Rightarrow> now \<noteq> [] \<and> dial (last now) = Inr conn \<and> (\<forall>dst \<in> set (butlast now). isl (dial dst))
         | Inl e' \<Rightarrow> rest = [] \<and> (\<forall>dst \<in> set now. isl (dial dst)) \<and>
             e' = (if now \<noteq> [] then projl (dial (last now)) else case Some e of Some e \<Rightarrow> e | None \<Rightarrow> ErrForbidden)" by auto
      then show ?thesis unfolding dt using Inl by - (rule exI [of _ "?dst # now"], rule exI [of _ rest], auto split: sum.splits dest: in_set_butlastD)
    next
      case (Inr conn)
      then have "r = Inr conn" "tried = dialled @ [?dst]" using 2(3) True by simp_all
      then show ?thesis unfolding dt using Inr by - (rule exI [of _ "[?dst]"], rule exI [of _ "dial_targets portText addresses"], simp)
    qed
  qed
qed

lemma find_NoneD: "List.find P xs = None \<longleftrightarrow> (\<forall>x \<in> set xs. \<not> P x)"
  by (auto simp: find_None_iff)

text \<open>What is dialled, and the connection that is returned.\<close>

lemma DialContext_tried:
  assumes "DialContext LookupIPAddr dial address = (r, tried)"
  shows "(\<forall>dst \<in> set tried. \<exists>host portText addresses ip zone. SplitHostPort address = Inr (host, portText) \<and> LookupIPAddr host = Inr addresses \<and>
       (ip, zone) \<in> set addresses \<and> public_unicast ip \<and> dst = JoinHostPort (IP_String ip) portText) \<and>
    (\<forall>conn. r = Inr conn \<longrightarrow> tried \<noteq> [] \<and> dial (last tried) = Inr conn \<and> (\<forall>dst \<in> set (butlast tried). isl (dial dst))) \<and>
    (\<forall>e. r = Inl e \<and> tried \<noteq> [] \<longrightarrow> dial (last tried) = Inl e \<and> (\<forall>dst \<in> set tried. isl (dial dst)))"
proof (cases "target_resolve LookupIPAddr address")
  case (Inl e)
  then show ?thesis using assms by (auto simp: DialContext_def)
next
  case (Inr y)
  then obtain host portText addresses where t: "target_resolve LookupIPAddr address = Inr (host, portText, addresses)" by (cases y) auto
  have l: "dial_loop dial portText addresses None [] = (r, tried)" using assms t by (simp add: DialContext_def)
  have h: "SplitHostPort address = Inr (host, portText)" "LookupIPAddr host = Inr addresses"
    using t by (auto simp: target_resolve_def split: sum.splits option.splits if_splits)
  have "set tried \<subseteq> set (dial_targets portText addresses)" using dial_loop_spec [OF l] by auto
  moreover have "tried \<noteq> [] \<and> dial (last tried) = Inr conn \<and> (\<forall>dst \<in> set (butlast tried). isl (dial dst))" if "r = Inr conn" for conn
    using dial_loop_spec [OF l] that by auto
  moreover have "dial (last tried) = Inl e \<and> (\<forall>dst \<in> set tried. isl (dial dst))" if e: "r = Inl e" "tried \<noteq> []" for e
  proof -
    have "\<forall>dst \<in> set tried. isl (dial dst)" "e = projl (dial (last tried))" using dial_loop_spec [OF l] e by auto
    then show ?thesis using e(2) by (metis last_in_set sum.collapse(1))
  qed
  ultimately show ?thesis using h by (fastforce simp: dial_targets_def public_addr)
qed

text \<open>A well-formed destination whose name resolves.\<close>

lemma resolved_outcomes:
  assumes "SplitHostPort address = Inr (host, portText)" "Atoi portText = Some port" "1 \<le> port" "port \<le> 65535" "LookupIPAddr host = Inr addresses"
  shows "DialContext LookupIPAddr dial address = (Inl ErrForbidden, []) \<longleftrightarrow> (\<forall>(ip, zone) \<in> set addresses. \<not> public_unicast ip)"
    "ResolveUDPAddr LookupIPAddr address = Inl ErrForbidden \<longleftrightarrow> (\<forall>(ip, zone) \<in> set addresses. \<not> public_unicast ip)"
    "ResolveUDPAddr LookupIPAddr address = Inr (ip, p, zone) \<Longrightarrow> p = port \<and> (ip, zone) \<in> set addresses \<and> public_unicast ip"
proof -
  have t: "target_resolve LookupIPAddr address = Inr (host, portText, addresses)" using assms by (simp add: target_resolve_def)
  obtain r tried where l: "dial_loop dial portText addresses None [] = (r, tried)" by fastforce
  have "(r = Inl ErrForbidden \<and> tried = []) \<longleftrightarrow> dial_targets portText addresses = []" using dial_loop_spec [OF l] by (cases r) auto
  then show "DialContext LookupIPAddr dial address = (Inl ErrForbidden, []) \<longleftrightarrow> (\<forall>(ip, zone) \<in> set addresses. \<not> public_unicast ip)"
    using t l by (auto simp: DialContext_def dial_targets_def filter_empty_conv public_addr)
  show "ResolveUDPAddr LookupIPAddr address = Inl ErrForbidden \<longleftrightarrow> (\<forall>(ip, zone) \<in> set addresses. \<not> public_unicast ip)"
    using t find_NoneD [of "\<lambda>(ip, zone). target_allowed ip" addresses] by (auto simp: ResolveUDPAddr_def public_addr split: option.splits)
  show "ResolveUDPAddr LookupIPAddr address = Inr (ip, p, zone) \<Longrightarrow> p = port \<and> (ip, zone) \<in> set addresses \<and> public_unicast ip"
    using t assms(2) by (auto simp: ResolveUDPAddr_def public_addr split: option.splits dest!: find_SomeD)
qed

lemma public_reachable: "public_unicast ip \<Longrightarrow> IsGlobalUnicast ip"
  unfolding public_addr [symmetric] by (simp add: target_allowed_def)

text \<open>An ICMP destination is an address or a name.\<close>

definition icmp_candidates :: "lookup \<Rightarrow> bytes \<Rightarrow> bytes list result" where
  "icmp_candidates LookupIPAddr host =
     (case ParseIP host of Some ip \<Rightarrow> Inr [ip] | None \<Rightarrow> (case LookupIPAddr host of Inl e \<Rightarrow> Inl e | Inr addresses \<Rightarrow> Inr (map fst addresses)))"

lemma icmp_outcomes:
  "(\<forall>e. icmp_candidates LookupIPAddr host = Inl e \<longrightarrow> ResolveICMPIP LookupIPAddr host allowPrivate = Inl e) \<and>
   (\<forall>ips. icmp_candidates LookupIPAddr host = Inr ips \<longrightarrow>
      (\<forall>e. ResolveICMPIP LookupIPAddr host allowPrivate = Inl e \<longrightarrow> e = ErrForbidden \<and>
         (\<forall>ip \<in> set ips. \<not> (if allowPrivate then IsGlobalUnicast ip \<or> IsLoopback ip else public_unicast ip))) \<and>
      (\<forall>ip. ResolveICMPIP LookupIPAddr host allowPrivate = Inr ip \<longrightarrow>
         ip \<in> set ips \<and> (if allowPrivate then IsGlobalUnicast ip \<or> IsLoopback ip else public_unicast ip)))"
proof (cases "ParseIP host")
  case (Some ip)
  then show ?thesis using public_reachable [of ip] by (auto simp: icmp_candidates_def ResolveICMPIP_def public_addr)
next
  case name: None
  show ?thesis
  proof (cases "LookupIPAddr host")
    case (Inr addresses)
    let ?P = "\<lambda>(ip, zone). (allowPrivate \<or> target_allowed ip) \<and> (IsGlobalUnicast ip \<or> IsLoopback ip)"
    have r: "ResolveICMPIP LookupIPAddr host allowPrivate = (case List.find ?P addresses of Some (ip, zone) \<Rightarrow> Inr ip | None \<Rightarrow> Inl ErrForbidden)"
      using name Inr by (simp add: ResolveICMPIP_def)
    show ?thesis
    proof (cases "List.find ?P addresses")
      case None
      then have "\<forall>x \<in> set addresses. \<not> ?P x" by (simp only: find_NoneD)
      then have "\<not> ((allowPrivate \<or> public_unicast ip) \<and> (IsGlobalUnicast ip \<or> IsLoopback ip))" if "ip \<in> fst ` set addresses" for ip using that by (auto simp: public_addr)
      then have "\<forall>ip \<in> fst ` set addresses. \<not> (if allowPrivate then IsGlobalUnicast ip \<or> IsLoopback ip else public_unicast ip)" using public_reachable by simp blast
      then show ?thesis using name Inr r None by (simp add: icmp_candidates_def)
    next
      case (Some y)
      then have "?P y \<and> y \<in> set addresses" by (rule find_SomeD)
      moreover obtain ip zone where "y = (ip, zone)" by fastforce
      ultimately show ?thesis using name Inr r Some by (force simp: icmp_candidates_def public_addr)
    qed
  qed (simp add: name icmp_candidates_def ResolveICMPIP_def)
qed

text \<open>
  C31: Whatever name a client asks for and whatever the resolver answers, only public unicast addresses are reached.
  \<open>DialContext\<close> dials, up to the first success, addresses of the answer that are public, under the requested port, and
  returns the connection of the last one dialled, or its error when none of them answered. A destination that does not split into host and port is refused with ``invalid target'', one whose port
  is not a number from 1 to 65535 with ``invalid target port'', by \<open>DialContext\<close> and \<open>ResolveUDPAddr\<close> alike, whatever the resolver and without dialling; an
  error of the resolver is passed on; and a well-formed destination is refused with \<open>ErrForbidden\<close>, without dialling, exactly when the answer
  has no public address. \<open>ResolveUDPAddr\<close> returns a public address of the answer with the requested port. \<open>ResolveICMPIP\<close>
  chooses among the address it was given or the answer for the name: a public one, or, if private targets are enabled, one that is global unicast or loopback; it fails with the
  error of the resolver, or with \<open>ErrForbidden\<close> when none of them qualifies.
\<close>

theorem target_reaches_public_only:
  "(\<forall>r tried. DialContext LookupIPAddr dial address = (r, tried) \<longrightarrow>
      (\<forall>dst \<in> set tried. \<exists>host portText addresses ip zone. SplitHostPort address = Inr (host, portText) \<and> LookupIPAddr host = Inr addresses \<and>
         (ip, zone) \<in> set addresses \<and> public_unicast ip \<and> dst = JoinHostPort (IP_String ip) portText) \<and>
      (\<forall>conn. r = Inr conn \<longrightarrow> tried \<noteq> [] \<and> dial (last tried) = Inr conn \<and> (\<forall>dst \<in> set (butlast tried). isl (dial dst))) \<and>
      (\<forall>e. r = Inl e \<and> tried \<noteq> [] \<longrightarrow> dial (last tried) = Inl e \<and> (\<forall>dst \<in> set tried. isl (dial dst)))) \<and>
   (\<forall>e. SplitHostPort address = Inl e \<longrightarrow>
      DialContext LookupIPAddr dial address = (Inl (Errorf ''invalid target''), []) \<and> ResolveUDPAddr LookupIPAddr address = Inl (Errorf ''invalid target'')) \<and>
   (\<forall>host portText. SplitHostPort address = Inr (host, portText) \<and> (\<forall>port. Atoi portText = Some port \<longrightarrow> port < 1 \<or> 65535 < port) \<longrightarrow>
      DialContext LookupIPAddr dial address = (Inl (Errorf ''invalid target port''), []) \<and> ResolveUDPAddr LookupIPAddr address = Inl (Errorf ''invalid target port'')) \<and>
   (\<forall>host portText port. SplitHostPort address = Inr (host, portText) \<and> Atoi portText = Some port \<and> 1 \<le> port \<and> port \<le> 65535 \<longrightarrow>
      (\<forall>e. LookupIPAddr host = Inl e \<longrightarrow> DialContext LookupIPAddr dial address = (Inl e, []) \<and> ResolveUDPAddr LookupIPAddr address = Inl e) \<and>
      (\<forall>addresses. LookupIPAddr host = Inr addresses \<longrightarrow>
         (DialContext LookupIPAddr dial address = (Inl ErrForbidden, []) \<longleftrightarrow> (\<forall>(ip, zone) \<in> set addresses. \<not> public_unicast ip)) \<and>
         (ResolveUDPAddr LookupIPAddr address = Inl ErrForbidden \<longleftrightarrow> (\<forall>(ip, zone) \<in> set addresses. \<not> public_unicast ip)) \<and>
         (\<forall>ip p zone. ResolveUDPAddr LookupIPAddr address = Inr (ip, p, zone) \<longrightarrow> p = port \<and> (ip, zone) \<in> set addresses \<and> public_unicast ip))) \<and>
   (\<forall>e. icmp_candidates LookupIPAddr address = Inl e \<longrightarrow> ResolveICMPIP LookupIPAddr address allowPrivate = Inl e) \<and>
   (\<forall>ips. icmp_candidates LookupIPAddr address = Inr ips \<longrightarrow>
      (\<forall>e. ResolveICMPIP LookupIPAddr address allowPrivate = Inl e \<longrightarrow> e = ErrForbidden \<and>
         (\<forall>ip \<in> set ips. \<not> (if allowPrivate then IsGlobalUnicast ip \<or> IsLoopback ip else public_unicast ip))) \<and>
      (\<forall>ip. ResolveICMPIP LookupIPAddr address allowPrivate = Inr ip \<longrightarrow>
         ip \<in> set ips \<and> (if allowPrivate then IsGlobalUnicast ip \<or> IsLoopback ip else public_unicast ip)))"
    (is "?tried \<and> ?malformed \<and> ?port \<and> ?resolved \<and> ?icmp_error \<and> ?icmp")
proof (intro conjI)
  show ?tried using DialContext_tried [of LookupIPAddr dial address] by simp
  show ?malformed by (simp add: DialContext_def ResolveUDPAddr_def target_resolve_def)
  show ?port by (auto simp: DialContext_def ResolveUDPAddr_def target_resolve_def split: option.splits)
  show ?resolved
  proof (intro allI impI, elim conjE)
    fix host portText port
    assume a: "SplitHostPort address = Inr (host, portText)" "Atoi portText = Some port" "1 \<le> port" "port \<le> 65535"
    have e: "DialContext LookupIPAddr dial address = (Inl e, []) \<and> ResolveUDPAddr LookupIPAddr address = Inl e" if "LookupIPAddr host = Inl e" for e
      using a that by (simp add: DialContext_def ResolveUDPAddr_def target_resolve_def)
    note r = resolved_outcomes [OF a]
    show "(\<forall>e. LookupIPAddr host = Inl e \<longrightarrow> DialContext LookupIPAddr dial address = (Inl e, []) \<and> ResolveUDPAddr LookupIPAddr address = Inl e) \<and>
      (\<forall>addresses. LookupIPAddr host = Inr addresses \<longrightarrow>
         (DialContext LookupIPAddr dial address = (Inl ErrForbidden, []) \<longleftrightarrow> (\<forall>(ip, zone) \<in> set addresses. \<not> public_unicast ip)) \<and>
         (ResolveUDPAddr LookupIPAddr address = Inl ErrForbidden \<longleftrightarrow> (\<forall>(ip, zone) \<in> set addresses. \<not> public_unicast ip)) \<and>
         (\<forall>ip p zone. ResolveUDPAddr LookupIPAddr address = Inr (ip, p, zone) \<longrightarrow> p = port \<and> (ip, zone) \<in> set addresses \<and> public_unicast ip))"
      by (intro conjI allI impI r(1,2)) (assumption | erule e [THEN conjunct1] | erule e [THEN conjunct2] | erule (1) r(3) [THEN conjunct1]
        | erule (1) r(3) [THEN conjunct2, THEN conjunct1] | erule (1) r(3) [THEN conjunct2, THEN conjunct2])+
  qed
  show ?icmp_error ?icmp using icmp_outcomes [of LookupIPAddr address allowPrivate] by blast+
qed

text \<open>
  A name that resolves to the loopback address in IPv4-mapped form, a private address, and two public ones of which the first does not answer.
\<close>

definition demo_lookup :: lookup where
  "demo_lookup host = Inr [(v4mapped [127, 0, 0, 1], []), ([10, 0, 0, 1], []), ([1, 1, 1, 1], []), (v4mapped [8, 8, 8, 8], []), ([9, 9, 9, 9], [])]"

definition demo_dial :: "bytes \<Rightarrow> nat result" where
  "demo_dial dst = (if dst = lit ''8.8.8.8:443'' then Inr 7 else Inl (Errorf ''connection refused''))"

theorem target_reaches_public_only_witness:
  "DialContext demo_lookup demo_dial (lit ''x:443'') = (Inr 7, [lit ''1.1.1.1:443'', lit ''8.8.8.8:443'']) \<and>
   demo_dial (last [lit ''1.1.1.1:443'', lit ''8.8.8.8:443'']) = Inr 7 \<and>
   ResolveUDPAddr demo_lookup (lit ''x:443'') = Inr ([1, 1, 1, 1], 443, []) \<and> public_unicast [1, 1, 1, 1] \<and>
   DialContext demo_lookup demo_dial (lit ''x:0'') = (Inl (Errorf ''invalid target port''), []) \<and>
   DialContext (\<lambda>_. Inr [([10, 0, 0, 1], [])]) demo_dial (lit ''x:443'') = (Inl ErrForbidden, []) \<and>
   ResolveICMPIP demo_lookup (lit ''1.1.1.1'') False = Inr (v4mapped [1, 1, 1, 1]) \<and> public_unicast (v4mapped [1, 1, 1, 1])"
proof -
  have d: "DialContext demo_lookup demo_dial (lit ''x:443'') = (Inr 7, [lit ''1.1.1.1:443'', lit ''8.8.8.8:443''])" by code_simp
  have u: "ResolveUDPAddr demo_lookup (lit ''x:443'') = Inr ([1, 1, 1, 1], 443, [])" by code_simp
  have i: "ResolveICMPIP demo_lookup (lit ''1.1.1.1'') False = Inr (v4mapped [1, 1, 1, 1])" by code_simp
  have s: "SplitHostPort (lit ''x:443'') = Inr (lit ''x'', lit ''443'')" "Atoi (lit ''443'') = Some 443" "SplitHostPort (lit ''x:0'') = Inr (lit ''x'', lit ''0'')" "Atoi (lit ''0'') = Some 0"
    "ParseIP (lit ''1.1.1.1'') = Some (v4mapped [1, 1, 1, 1])" by code_simp+
  have p: "\<not> public_unicast [10, 0, 0, 1]" unfolding public_addr [symmetric] by code_simp
  note t = target_reaches_public_only [of _ demo_dial _ False]
  note resolved = t [THEN conjunct2, THEN conjunct2, THEN conjunct2, THEN conjunct1, THEN spec, THEN spec, THEN spec, THEN mp, OF conjI [OF s(1) conjI [OF s(2)]], simplified]
  have "demo_dial (last [lit ''1.1.1.1:443'', lit ''8.8.8.8:443'']) = Inr 7" using t [THEN conjunct1, THEN spec, THEN spec, THEN mp, OF d] by blast
  moreover have "public_unicast [1, 1, 1, 1]" using resolved [of demo_lookup] u by (simp add: demo_lookup_def)
  moreover have "DialContext demo_lookup demo_dial (lit ''x:0'') = (Inl (Errorf ''invalid target port''), [])"
    using t [THEN conjunct2, THEN conjunct2, THEN conjunct1, THEN spec, THEN spec, THEN mp, OF conjI [OF s(3)]] s(4) by simp
  moreover have "DialContext (\<lambda>_. Inr [([10, 0, 0, 1], [])]) demo_dial (lit ''x:443'') = (Inl ErrForbidden, [])"
    using resolved [of "\<lambda>_. Inr [([10, 0, 0, 1], [])]"] p by simp
  moreover have "public_unicast (v4mapped [1, 1, 1, 1])"
    using t [THEN conjunct2, THEN conjunct2, THEN conjunct2, THEN conjunct2, THEN conjunct2, of demo_lookup "lit ''1.1.1.1''"] i s(5) by (simp add: icmp_candidates_def)
  ultimately show ?thesis using d u i by blast
qed

end
