(* ===== verification/UdpReplay.thy ===== *)
theory UdpReplay
  imports Datagram StreamServer
begin

text \<open>
  Anti-replay protection of native UDP sessions: the per-session window
  \<open>UDPReplayWindow\<close> (\<^verbatim>\<open>src/pkg/server/plain_udp.go\<close>), its persistent admission of 10 second timestamp buckets
  (\<^verbatim>\<open>src/pkg/server/udp_replay_persistent.go\<close>) and the table of windows of the Xray integration
  (\<^verbatim>\<open>src/integration/xray/udp_replay.go\<close>). Windows are dropped when a session is idle and the replay
  cache forgets after 180 seconds; the theorems show that neither lets a packet in twice while the server runs. Times are nanoseconds since the Unix epoch and do not run backwards.
\<close>

subsection \<open>The window of a session\<close>

record udp_window =
  uw_window :: replay_window
  uw_cache :: bool
  uw_namespace :: bytes
  uw_sessionID :: u64
  uw_buckets :: "(u64 \<times> int) list"

definition UDPReplayBucketSeconds :: u64 where "UDPReplayBucketSeconds = 10"

definition MaxTimestampSkewSeconds :: int where "MaxTimestampSkewSeconds = 30"

definition UDPReplayNamespace :: "crypto \<Rightarrow> bytes \<Rightarrow> bytes \<Rightarrow> bytes" where
  "UDPReplayNamespace cr psk serverID =
     hex_encode (sha256 cr (lit ''plainudp'' @ [0] @ serverID @ [0] @ psk @ [0]))"

definition udpReplayNamespaces :: "crypto \<Rightarrow> user_key list \<Rightarrow> bytes \<Rightarrow> bytes list" where
  "udpReplayNamespaces cr users serverID = map (\<lambda>u. UDPReplayNamespace cr (uk_psk u) serverID) users"

definition NewPersistentUDPReplayWindow :: "bool \<Rightarrow> bytes \<Rightarrow> u64 \<Rightarrow> udp_window" where
  "NewPersistentUDPReplayWindow cache namespace sessionID =
     \<lparr>uw_window = new_window, uw_cache = cache, uw_namespace = namespace, uw_sessionID = sessionID, uw_buckets = []\<rparr>"

definition NewUDPReplayWindow :: udp_window where
  "NewUDPReplayWindow = NewPersistentUDPReplayWindow False [] 0"

definition UDPReplayWindow_Accept :: "u64 \<Rightarrow> udp_window \<Rightarrow> bool \<times> udp_window" where
  "UDPReplayWindow_Accept seq w = (case ReplayWindow_Accept (uw_window w) seq of (ok, r) \<Rightarrow> (ok, w\<lparr>uw_window := r\<rparr>))"

text \<open>\<open>fmt.Sprintf("udp-bucket/%s/%016x/%d", namespace, sessionID, bucket)\<close>\<close>

definition bucketKey :: "bytes \<Rightarrow> u64 \<Rightarrow> u64 \<Rightarrow> bytes" where
  "bucketKey namespace sessionID bucket =
     lit ''udp-bucket/'' @ namespace @ lit ''/'' @ hex_encode (putUint64 sessionID) @ lit ''/'' @ Itoa (unat bucket)"

text \<open>\<open>ask\<close> is the answer of the blocking call \<open>cache.Accept(key, now)\<close>.\<close>

definition AcceptAuthenticated :: "(bytes \<Rightarrow> int \<Rightarrow> bool \<times> goerr option) \<Rightarrow> u64 \<Rightarrow> u64 \<Rightarrow> int \<Rightarrow> udp_window \<Rightarrow> bool \<times> udp_window" where
  "AcceptAuthenticated ask seq timestamp now w =
     (let diff = int64_diff (unix now) timestamp
      in if diff < - MaxTimestampSkewSeconds \<or> MaxTimestampSkewSeconds < diff then (False, w)
         else if uw_cache w then
           let bucket = timestamp div UDPReplayBucketSeconds;
               w = w\<lparr>uw_buckets := filter (\<lambda>(b, expiry). now < expiry) (uw_buckets w)\<rparr>
           in if map_of (uw_buckets w) bucket \<noteq> None then UDPReplayWindow_Accept seq w
              else (case ask (bucketKey (uw_namespace w) (uw_sessionID w) bucket) now of
                      (accepted, err) \<Rightarrow>
                        if err \<noteq> None \<or> \<not> accepted then (False, w)
                        else UDPReplayWindow_Accept seq (w\<lparr>uw_buckets := AList.update bucket (now + 2 * MaxClockSkew) (uw_buckets w)\<rparr>))
         else UDPReplayWindow_Accept seq w)"

subsection \<open>The table of windows of the Xray integration\<close>

definition maxUDPReplaySessions :: nat where "maxUDPReplaySessions = 10000"
definition udpReplayRetention :: int where "udpReplayRetention = 65 * 1000000000"

text \<open>An entry's \<open>last\<close> is the zero time (\<open>None\<close>) until its first accepted packet.\<close>

record udp_registry =
  ur_entries :: "(u64 \<times> udp_window \<times> int option) list"
  ur_closed :: bool
  ur_cache :: bool
  ur_namespace :: bytes

definition udpReplayRegistry_accept ::
    "(bytes \<Rightarrow> int \<Rightarrow> bool \<times> goerr option) \<Rightarrow> u64 \<Rightarrow> u64 \<Rightarrow> int \<Rightarrow> u64 option \<Rightarrow> udp_registry \<Rightarrow> bool \<times> udp_registry" where
  "udpReplayRegistry_accept ask sid seq now timestamp r =
     (if ur_closed r then (False, r)
      else if map_of (ur_entries r) sid = None \<and> maxUDPReplaySessions \<le> length (ur_entries r) then (False, r)
      else let (w, last) = (case map_of (ur_entries r) sid of
                              Some e \<Rightarrow> e
                            | None \<Rightarrow> (NewPersistentUDPReplayWindow (ur_cache r) (ur_namespace r) sid, None));
               (accepted, w) = (case timestamp of
                                  Some ts \<Rightarrow> AcceptAuthenticated ask seq ts now w
                                | None \<Rightarrow> UDPReplayWindow_Accept seq w)
           in (accepted, r\<lparr>ur_entries := AList.update sid (w, if accepted then Some now else last) (ur_entries r)\<rparr>))"

text \<open>\<open>now.Sub(e.last)\<close> saturates at the largest duration for the zero time.\<close>

definition entry_stale :: "int \<Rightarrow> int option \<Rightarrow> bool" where
  "entry_stale now lastSeen = (case lastSeen of None \<Rightarrow> True | Some t \<Rightarrow> udpReplayRetention < now - t)"

definition udpReplayRegistry_expire :: "int \<Rightarrow> udp_registry \<Rightarrow> udp_registry" where
  "udpReplayRegistry_expire now r = r\<lparr>ur_entries := filter (\<lambda>(sid, w, last). \<not> entry_stale now last) (ur_entries r)\<rparr>"

text \<open>What \<open>run\<close> does when its context is done.\<close>

definition udpReplayRegistry_stop :: "udp_registry \<Rightarrow> udp_registry" where
  "udpReplayRegistry_stop r = r\<lparr>ur_closed := True, ur_entries := []\<rparr>"

subsection \<open>What a window accepts\<close>

definition window_ok :: "udp_window \<Rightarrow> bool" where
  "window_ok w \<longleftrightarrow> (\<exists>sp. window_refines (uw_window w) sp)"

definition seen :: "udp_window \<Rightarrow> u64 \<Rightarrow> bool" where
  "seen w seq \<longleftrightarrow> \<not> fst (ReplayWindow_Accept (uw_window w) seq)"

definition fresh :: "int \<Rightarrow> u64 \<Rightarrow> bool" where
  "fresh now ts \<longleftrightarrow> \<bar>int64_diff (unix now) ts\<bar> \<le> 30"

lemma fresh_window [simp]: "window_ok (NewPersistentUDPReplayWindow c ns sid)"
  using new_window_refines by (auto simp: window_ok_def NewPersistentUDPReplayWindow_def)

text \<open>The outcome of \<open>AcceptAuthenticated\<close>: a rejection before the window, or the verdict of the window.\<close>

lemma AcceptAuthenticated_cases:
  assumes "AcceptAuthenticated ask seq ts now w = (ok, w')"
  shows "(\<not> ok \<and> uw_window w' = uw_window w) \<or>
    (fresh now ts \<and> ok = fst (ReplayWindow_Accept (uw_window w) seq) \<and> uw_window w' = snd (ReplayWindow_Accept (uw_window w) seq))"
  using assms
  by (auto simp: AcceptAuthenticated_def UDPReplayWindow_Accept_def MaxTimestampSkewSeconds_def fresh_def Let_def
      split: if_splits prod.splits)

lemma AcceptAuthenticated_accepted:
  assumes "AcceptAuthenticated ask seq ts now w = (True, w')"
  shows "fresh now ts" "\<not> seen w seq"
  using AcceptAuthenticated_cases [OF assms] by (auto simp: seen_def)

lemma AcceptAuthenticated_window:
  assumes "AcceptAuthenticated ask seq ts now w = (ok, w')" "window_ok w"
  shows "window_ok w'" "ok \<Longrightarrow> seen w' seq" "seen w s \<Longrightarrow> seen w' s"
  using AcceptAuthenticated_cases [OF assms(1)] assms(2) replay_window.inv_accept [of "uw_window w" seq]
    replay_window.accept_blocks [of "uw_window w" seq] replay_window.blocked_stays [of "uw_window w" s seq]
  by (auto simp: window_ok_def seen_def)

lemma AcceptAuthenticated_ident:
  assumes "AcceptAuthenticated ask seq ts now w = (ok, w')"
  shows "uw_cache w' = uw_cache w" "uw_namespace w' = uw_namespace w" "uw_sessionID w' = uw_sessionID w"
  using assms by (auto simp: AcceptAuthenticated_def UDPReplayWindow_Accept_def Let_def split: if_splits prod.splits)

subsection \<open>Sessions that come and go\<close>

text \<open>
  The specification both session tables refine: a window and the second of the last activity per session; a session is
  created empty, takes packets, may be touched, and may be dropped when it was idle for more than 60 seconds.
  \<open>P\<close> bounds the keys the replay cache grants, \<open>persist\<close> says whether there is one, \<open>ident\<close> is the
  namespace and session number of a session. The log has every accepted packet.
\<close>

record 'k udp_world =
  ud_tab :: "'k \<Rightarrow> (udp_window \<times> int) option"
  ud_log :: "('k \<times> u64 \<times> u64 \<times> int) list"
  ud_now :: int

abbreviation (input) secs :: "int \<Rightarrow> int" where "secs t \<equiv> t div second"

definition log_if :: "bool \<Rightarrow> 'x \<Rightarrow> 'x list \<Rightarrow> 'x list" where
  "log_if ok x xs = (if ok then x # xs else xs)"

inductive udp_run :: "bool \<Rightarrow> ('k \<Rightarrow> bytes \<times> u64) \<Rightarrow> (bytes \<times> int) set \<Rightarrow> int \<Rightarrow> 'k udp_world \<Rightarrow> bool" for persist ident P now0 where
  u_start: "udp_run persist ident P now0 \<lparr>ud_tab = (\<lambda>_. None), ud_log = [], ud_now = now0\<rparr>"
| u_create: "udp_run persist ident P now0 u \<Longrightarrow> ud_tab u k = None \<Longrightarrow>
    udp_run persist ident P now0 (u\<lparr>ud_tab := (ud_tab u)(k \<mapsto> (NewPersistentUDPReplayWindow persist (fst (ident k)) (snd (ident k)), l))\<rparr>)"
| u_packet: "udp_run persist ident P now0 u \<Longrightarrow> ud_tab u k = Some (w, l) \<Longrightarrow> ud_now u \<le> now \<Longrightarrow>
    (\<And>key. ask key now = (True, None) \<Longrightarrow> (key, now) \<in> P) \<Longrightarrow> AcceptAuthenticated ask seq ts now w = (ok, w') \<Longrightarrow>
    (if ok then secs now \<le> l' else l' = l) \<Longrightarrow>
    udp_run persist ident P now0 (u\<lparr>ud_tab := (ud_tab u)(k \<mapsto> (w', l')), ud_log := log_if ok (k, seq, ts, now) (ud_log u), ud_now := now\<rparr>)"
| u_touch: "udp_run persist ident P now0 u \<Longrightarrow> ud_tab u k = Some (w, l) \<Longrightarrow> l \<le> l' \<Longrightarrow>
    udp_run persist ident P now0 (u\<lparr>ud_tab := (ud_tab u)(k \<mapsto> (w, l'))\<rparr>)"
| u_drop: "udp_run persist ident P now0 u \<Longrightarrow> (\<forall>k \<in> K. \<forall>w l. ud_tab u k = Some (w, l) \<longrightarrow> 60 < secs (ud_now u) - l) \<Longrightarrow>
    udp_run persist ident P now0 (u\<lparr>ud_tab := ud_tab u |` (- K)\<rparr>)"
| u_wait: "udp_run persist ident P now0 u \<Longrightarrow> ud_now u \<le> now \<Longrightarrow> udp_run persist ident P now0 (u\<lparr>ud_now := now\<rparr>)"

text \<open>Two readings of the clock at which one timestamp is fresh are at most 60 seconds apart.\<close>

lemma fresh_span:
  assumes "fresh t ts" "fresh t' ts" "0 \<le> t" "t \<le> t'" "secs t' < 2 ^ 63"
  shows "secs t' - secs t \<le> 60"
proof -
  have "0 \<le> secs t" "secs t \<le> secs t'" using assms(3,4) by (simp_all add: pos_imp_zdiv_nonneg_iff zdiv_mono1)
  then have "int64_diff (unix t') ts - int64_diff (unix t) ts = secs t' - secs t"
    unfolding unix_def using assms(1,2,5) by (intro int64_diff_shift) (auto simp: fresh_def unix_def)
  then show ?thesis using assms(1,2) by (simp add: fresh_def)
qed

text \<open>
  The invariant: a logged packet is remembered by the window of its session, or was accepted more than 60 seconds ago.
\<close>

definition remembered :: "'k udp_world \<Rightarrow> 'k \<times> u64 \<times> u64 \<times> int \<Rightarrow> bool" where
  "remembered u x \<longleftrightarrow> (case x of (k, seq, ts, t) \<Rightarrow> t \<le> ud_now u \<and> fresh t ts \<and>
     (60 < secs (ud_now u) - secs t \<or> (\<exists>w l. ud_tab u k = Some (w, l) \<and> seen w seq \<and> secs t \<le> l)))"

definition packet_of :: "'k \<times> u64 \<times> u64 \<times> int \<Rightarrow> 'k \<times> u64 \<times> u64" where
  "packet_of x = (case x of (k, seq, ts, t) \<Rightarrow> (k, seq, ts))"

definition udp_inv :: "int \<Rightarrow> 'k udp_world \<Rightarrow> bool" where
  "udp_inv now0 u \<longleftrightarrow> now0 \<le> ud_now u \<and> (\<forall>k w l. ud_tab u k = Some (w, l) \<longrightarrow> window_ok w) \<and>
     (\<forall>x \<in> set (ud_log u). now0 \<le> snd (snd (snd x)) \<and> remembered u x) \<and>
     (secs (ud_now u) < 2 ^ 63 \<longrightarrow> distinct (map packet_of (ud_log u)))"

lemma remembered_later: "remembered u x \<Longrightarrow> ud_now u \<le> now \<Longrightarrow> remembered (u\<lparr>ud_now := now\<rparr>) x"
  using zdiv_mono1 [of "ud_now u" now second] by (auto simp: remembered_def)

lemma udp_inv_packet:
  assumes "udp_inv now0 u" "0 \<le> now0" "ud_tab u k = Some (w, l)" "ud_now u \<le> now" "AcceptAuthenticated ask seq ts now w = (ok, w')"
    and "if ok then secs now \<le> l' else l' = l"
  shows "udp_inv now0 (u\<lparr>ud_tab := (ud_tab u)(k \<mapsto> (w', l')), ud_log := log_if ok (k, seq, ts, now) (ud_log u), ud_now := now\<rparr>)"
    (is "udp_inv now0 ?u")
proof -
  note i = assms(1) [unfolded udp_inv_def]
  have wok: "window_ok w" using i assms(3) by blast
  note a = AcceptAuthenticated_window [OF assms(5) wok]
  have s: "secs (ud_now u) \<le> secs now" using assms(4) by (simp add: zdiv_mono1)
  have old: "remembered ?u x" if "x \<in> set (ud_log u)" for x
  proof -
    have x: "remembered u x" using i that by blast
    obtain k1 s1 ts1 t1 where e: "x = (k1, s1, ts1, t1)" by (cases x) auto
    have "secs t1 \<le> l \<Longrightarrow> secs t1 \<le> l'" using assms(6) x s zdiv_mono1 [of t1 "ud_now u" second] e
      by (auto simp: remembered_def split: if_splits)
    then show ?thesis using x e s a(3) assms(3,4) by (auto simp: remembered_def)
  qed
  have new: "remembered ?u (k, seq, ts, now)" if ok
    using that a(2) AcceptAuthenticated_accepted(1) assms(5,6) by (auto simp: remembered_def)
  have "packet_of x \<noteq> (k, seq, ts)" if x: "x \<in> set (ud_log u)" and ok and lim: "secs now < 2 ^ 63" for x
  proof
    assume "packet_of x = (k, seq, ts)"
    then obtain t where e: "x = (k, seq, ts, t)" by (cases x) (auto simp: packet_of_def)
    have r: "remembered u (k, seq, ts, t)" "now0 \<le> t" using i x e by auto
    have ac: "fresh now ts" "\<not> seen w seq" using AcceptAuthenticated_accepted assms(5) \<open>ok\<close> by auto
    have "secs now - secs t \<le> 60" using fresh_span [of t ts now] r ac(1) assms(2,4) lim by (auto simp: remembered_def)
    then show False using r(1) ac(2) assms(3) s by (auto simp: remembered_def)
  qed
  then have d: "secs now < 2 ^ 63 \<longrightarrow> distinct (map packet_of (log_if ok (k, seq, ts, now) (ud_log u)))"
    using i s by (auto simp: log_if_def packet_of_def)
  then show ?thesis using i old new a(1) assms(4) by (auto simp: udp_inv_def log_if_def)
qed

text \<open>Changes to the table that keep what a window has seen and its activity, or affect only sessions idle for 60 seconds.\<close>

lemma udp_inv_update:
  assumes "udp_inv now0 u" "\<And>k w l. tab k = Some (w, l) \<Longrightarrow> window_ok w"
    and "\<And>k seq t w l. ud_tab u k = Some (w, l) \<Longrightarrow> seen w seq \<Longrightarrow> t \<le> l \<Longrightarrow>
      60 < secs (ud_now u) - t \<or> (\<exists>w' l'. tab k = Some (w', l') \<and> seen w' seq \<and> t \<le> l')"
  shows "udp_inv now0 (u\<lparr>ud_tab := tab\<rparr>)" (is "udp_inv now0 ?u")
proof -
  note i = assms(1) [unfolded udp_inv_def]
  have "remembered ?u x" if "x \<in> set (ud_log u)" for x
  proof -
    obtain k s ts t where e: "x = (k, s, ts, t)" by (cases x) auto
    have "remembered u (k, s, ts, t)" using i that e by blast
    then show ?thesis using assms(3) [of k _ _ s "secs t"] e by (auto simp: remembered_def)
  qed
  then show ?thesis using i assms(2) by (auto simp: udp_inv_def)
qed

lemma udp_inv_window: "udp_inv now0 u \<Longrightarrow> ud_tab u k = Some (w, l) \<Longrightarrow> window_ok w"
  unfolding udp_inv_def by blast

lemma udp_inv_touch:
  assumes "udp_inv now0 u" "ud_tab u k = Some (w, l)" "l \<le> l'"
  shows "udp_inv now0 (u\<lparr>ud_tab := (ud_tab u)(k \<mapsto> (w, l'))\<rparr>)"
  by (rule udp_inv_update [OF assms(1)]) (use assms(2,3) udp_inv_window [OF assms(1)] in \<open>auto split: if_splits\<close>)

lemma udp_inv_drop:
  assumes "udp_inv now0 u" "\<forall>k \<in> K. \<forall>w l. ud_tab u k = Some (w, l) \<longrightarrow> 60 < secs (ud_now u) - l"
  shows "udp_inv now0 (u\<lparr>ud_tab := ud_tab u |` (- K)\<rparr>)"
proof (rule udp_inv_update [OF assms(1)])
  show "window_ok w" if "(ud_tab u |` (- K)) k = Some (w, l)" for k w l
    using that udp_inv_window [OF assms(1)] by (auto simp: restrict_map_def split: if_splits)
  show "60 < secs (ud_now u) - t \<or> (\<exists>w' l'. (ud_tab u |` (- K)) k = Some (w', l') \<and> seen w' seq \<and> t \<le> l')"
    if "ud_tab u k = Some (w, l)" "seen w seq" "t \<le> l" for k seq t w l
    using that assms(2) by (cases "k \<in> K") fastforce+
qed

lemma udp_inv_create:
  assumes "udp_inv now0 u" "ud_tab u k = None"
  shows "udp_inv now0 (u\<lparr>ud_tab := (ud_tab u)(k \<mapsto> (NewPersistentUDPReplayWindow c ns sid, l))\<rparr>)"
  by (rule udp_inv_update [OF assms(1)]) (use assms(2) udp_inv_window [OF assms(1)] in \<open>auto split: if_splits\<close>)

lemma udp_run_inv:
  assumes "udp_run persist ident P now0 u" "0 \<le> now0"
  shows "udp_inv now0 u"
  using assms(1)
proof (induction rule: udp_run.induct)
  case u_start
  show ?case by (simp add: udp_inv_def)
next
  case (u_packet u k w l now ask seq ts ok w' l')
  then show ?case using assms(2) by (intro udp_inv_packet)
next
  case (u_wait u now)
  then show ?case using remembered_later [of u _ now] zdiv_mono1 [of "ud_now u" now second] by (auto simp: udp_inv_def)
qed (intro udp_inv_create udp_inv_touch udp_inv_drop; assumption)+

lemma udp_run_once:
  assumes "udp_run persist ident P now0 u" "0 \<le> now0" "secs (ud_now u) < 2 ^ 63"
  shows "distinct (map packet_of (ud_log u))"
  using udp_run_inv [OF assms(1,2)] assms(3) by (simp add: udp_inv_def)

subsection \<open>Buckets in the replay cache\<close>

definition bucket_granted :: "('k \<Rightarrow> bytes \<times> u64) \<Rightarrow> (bytes \<times> int) set \<Rightarrow> int \<Rightarrow> 'k \<Rightarrow> u64 \<Rightarrow> int \<Rightarrow> bool" where
  "bucket_granted ident P now0 k b t0 \<longleftrightarrow> (bucketKey (fst (ident k)) (snd (ident k)) b, t0) \<in> P \<and> now0 \<le> t0 \<and>
     (\<exists>ts. ts div UDPReplayBucketSeconds = b \<and> fresh t0 ts)"

lemma update_entries: "(k, v) \<in> set (AList.update k v xs)" "set (AList.update k v xs) \<subseteq> insert (k, v) (set xs)"
  by (induction xs) auto

lemma AcceptAuthenticated_buckets:
  assumes "AcceptAuthenticated ask seq ts now w = (ok, w')" "uw_cache w"
  shows "(b, e) \<in> set (uw_buckets w') \<Longrightarrow> (b, e) \<in> set (uw_buckets w) \<or> (b = ts div UDPReplayBucketSeconds \<and> e = now + 2 * MaxClockSkew \<and>
      fresh now ts \<and> ask (bucketKey (uw_namespace w) (uw_sessionID w) b) now = (True, None))"
    and "ok \<Longrightarrow> \<exists>e. (ts div UDPReplayBucketSeconds, e) \<in> set (uw_buckets w')"
proof -
  let ?b = "ts div UDPReplayBucketSeconds" and ?l = "filter (\<lambda>(b, expiry). now < expiry) (uw_buckets w)"
  have l: "set ?l \<subseteq> set (uw_buckets w)" by auto
  have u: "\<exists>e. (?b, e) \<in> set (AList.update ?b v ?l)" "(b, e) \<in> set (AList.update ?b v ?l) \<Longrightarrow> (b, e) \<in> set (uw_buckets w) \<or> b = ?b \<and> e = v" for v
    using update_entries [of ?b v ?l] l by auto
  have k: "\<exists>e. (?b, e) \<in> set ?l" if "map_of ?l ?b = Some x" for x using map_of_SomeD [OF that] by blast
  show "(b, e) \<in> set (uw_buckets w') \<Longrightarrow> (b, e) \<in> set (uw_buckets w) \<or> (b = ?b \<and> e = now + 2 * MaxClockSkew \<and>
      fresh now ts \<and> ask (bucketKey (uw_namespace w) (uw_sessionID w) b) now = (True, None))"
    using assms l u(2) [of "now + 2 * MaxClockSkew"]
    by (auto simp: AcceptAuthenticated_def UDPReplayWindow_Accept_def MaxTimestampSkewSeconds_def fresh_def Let_def
        split: if_splits prod.splits)
  show "ok \<Longrightarrow> \<exists>e. (?b, e) \<in> set (uw_buckets w')"
    using assms u(1) k
    by (auto simp: AcceptAuthenticated_def UDPReplayWindow_Accept_def Let_def split: if_splits prod.splits)
qed

text \<open>\<open>bucket_known\<close>: the bucket was granted at some time up to \<open>now\<close>.\<close>

definition bucket_known :: "('k \<Rightarrow> bytes \<times> u64) \<Rightarrow> (bytes \<times> int) set \<Rightarrow> int \<Rightarrow> 'k \<Rightarrow> int \<Rightarrow> u64 \<Rightarrow> bool" where
  "bucket_known ident P now0 k now b \<longleftrightarrow> (\<exists>t0 \<le> now. bucket_granted ident P now0 k b t0)"

definition session_ok :: "bool \<Rightarrow> ('k \<Rightarrow> bytes \<times> u64) \<Rightarrow> (bytes \<times> int) set \<Rightarrow> int \<Rightarrow> int \<Rightarrow> 'k \<Rightarrow> udp_window \<Rightarrow> bool" where
  "session_ok persist ident P now0 now k w \<longleftrightarrow> uw_cache w = persist \<and> ident k = (uw_namespace w, uw_sessionID w) \<and>
     (\<forall>b \<in> fst ` set (uw_buckets w). bucket_known ident P now0 k now b)"

definition logged_ok :: "bool \<Rightarrow> ('k \<Rightarrow> bytes \<times> u64) \<Rightarrow> (bytes \<times> int) set \<Rightarrow> int \<Rightarrow> int \<Rightarrow> 'k \<times> u64 \<times> u64 \<times> int \<Rightarrow> bool" where
  "logged_ok persist ident P now0 now x \<longleftrightarrow> (case x of (k, seq, ts, t) \<Rightarrow> t \<le> now \<and> fresh t ts \<and>
     (persist \<longrightarrow> bucket_known ident P now0 k t (ts div UDPReplayBucketSeconds)))"

definition bucket_inv :: "bool \<Rightarrow> ('k \<Rightarrow> bytes \<times> u64) \<Rightarrow> (bytes \<times> int) set \<Rightarrow> int \<Rightarrow> 'k udp_world \<Rightarrow> bool" where
  "bucket_inv persist ident P now0 u \<longleftrightarrow> now0 \<le> ud_now u \<and>
     (\<forall>k w l. ud_tab u k = Some (w, l) \<longrightarrow> session_ok persist ident P now0 (ud_now u) k w) \<and>
     (\<forall>x \<in> set (ud_log u). logged_ok persist ident P now0 (ud_now u) x)"

lemma AcceptAuthenticated_memory:
  assumes "AcceptAuthenticated ask seq ts now w = (ok, w')" "\<not> uw_cache w"
  shows "uw_buckets w' = uw_buckets w"
  using assms by (auto simp: AcceptAuthenticated_def UDPReplayWindow_Accept_def Let_def split: if_splits prod.splits)

lemma bucket_known_later: "bucket_known ident P now0 k now b \<Longrightarrow> now \<le> now' \<Longrightarrow> bucket_known ident P now0 k now' b"
  by (meson bucket_known_def order_trans)

lemma session_ok_later: "session_ok persist ident P now0 now k w \<Longrightarrow> now \<le> now' \<Longrightarrow> session_ok persist ident P now0 now' k w"
  using bucket_known_later by (fastforce simp: session_ok_def)

lemma logged_ok_later: "logged_ok persist ident P now0 now x \<Longrightarrow> now \<le> now' \<Longrightarrow> logged_ok persist ident P now0 now' x"
  by (auto simp: logged_ok_def)

lemma session_ok_packet:
  assumes "session_ok persist ident P now0 now k w" "now0 \<le> now"
    and "\<And>key. ask key now = (True, None) \<Longrightarrow> (key, now) \<in> P" "AcceptAuthenticated ask seq ts now w = (ok, w')"
  shows "session_ok persist ident P now0 now k w'"
    and "ok \<Longrightarrow> logged_ok persist ident P now0 now (k, seq, ts, now)"
proof -
  note i = assms(1) [unfolded session_ok_def]
  note b = AcceptAuthenticated_buckets [OF assms(4)]
  have "bucket_known ident P now0 k now b" if m: "(b, e) \<in> set (uw_buckets w')" for b e
  proof (cases "(b, e) \<in> set (uw_buckets w)")
    case True
    then show ?thesis using i by force
  next
    case False
    then have persist using AcceptAuthenticated_memory [OF assms(4)] i m by auto
    then have "b = ts div UDPReplayBucketSeconds" "fresh now ts" "ask (bucketKey (uw_namespace w) (uw_sessionID w) b) now = (True, None)"
      using b(1) [OF _ m] False i by auto
    then have "bucket_granted ident P now0 k b now" using assms(2,3) i by (auto simp: bucket_granted_def)
    then show ?thesis by (auto simp: bucket_known_def)
  qed
  then show s: "session_ok persist ident P now0 now k w'"
    using i AcceptAuthenticated_ident [OF assms(4)] by (auto simp: session_ok_def)
  show "logged_ok persist ident P now0 now (k, seq, ts, now)" if ok
  proof -
    have "fresh now ts" using AcceptAuthenticated_accepted(1) [of ask seq ts now w w'] assms(4) that by simp
    moreover have "bucket_known ident P now0 k now (ts div UDPReplayBucketSeconds)" if persist
      using b(2) s i \<open>ok\<close> that by (force simp: session_ok_def)
    ultimately show ?thesis by (simp add: logged_ok_def)
  qed
qed

lemma bucket_inv_later:
  assumes "bucket_inv persist ident P now0 u" "ud_now u \<le> now"
  shows "bucket_inv persist ident P now0 (u\<lparr>ud_now := now\<rparr>)"
  using assms session_ok_later [of persist ident P now0 "ud_now u" _ _ now] logged_ok_later [of persist ident P now0 "ud_now u" _ now]
  by (auto simp: bucket_inv_def)

lemma bucket_inv_packet:
  assumes "bucket_inv persist ident P now0 u" "ud_tab u k = Some (w, l)" "ud_now u \<le> now"
    and "\<And>key. ask key now = (True, None) \<Longrightarrow> (key, now) \<in> P" "AcceptAuthenticated ask seq ts now w = (ok, w')"
  shows "bucket_inv persist ident P now0 (u\<lparr>ud_tab := (ud_tab u)(k \<mapsto> (w', l')), ud_log := log_if ok (k, seq, ts, now) (ud_log u), ud_now := now\<rparr>)"
proof -
  note i = assms(1) [unfolded bucket_inv_def]
  have n: "now0 \<le> now" using i assms(3) by linarith
  have later: "bucket_inv persist ident P now0 (u\<lparr>ud_now := now\<rparr>)" by (rule bucket_inv_later [OF assms(1,3)])
  then have "session_ok persist ident P now0 now k w" using assms(2) by (auto simp: bucket_inv_def)
  note p = session_ok_packet [OF this n assms(4,5)]
  show ?thesis using later p unfolding bucket_inv_def log_if_def by simp
qed

lemma udp_run_buckets:
  assumes "udp_run persist ident P now0 u"
  shows "bucket_inv persist ident P now0 u"
  using assms
proof (induction rule: udp_run.induct)
  case (u_packet u k w l now ask seq ts ok w' l')
  then show ?case by (intro bucket_inv_packet)
next
  case (u_wait u now)
  then show ?case by (intro bucket_inv_later)
qed (auto simp: bucket_inv_def session_ok_def NewPersistentUDPReplayWindow_def restrict_map_def split: if_splits)

subsection \<open>The registry is such a table\<close>

record registry_world =
  rg_reg :: udp_registry
  rg_log :: "(u64 \<times> u64 \<times> u64 \<times> int) list"
  rg_now :: int

inductive registry_run :: "bool \<Rightarrow> bytes \<Rightarrow> (bytes \<times> int) set \<Rightarrow> int \<Rightarrow> registry_world \<Rightarrow> bool" for cache namespace P now0 where
  r_start: "registry_run cache namespace P now0
    \<lparr>rg_reg = \<lparr>ur_entries = [], ur_closed = False, ur_cache = cache, ur_namespace = namespace\<rparr>, rg_log = [], rg_now = now0\<rparr>"
| r_accept: "registry_run cache namespace P now0 g \<Longrightarrow> rg_now g \<le> now \<Longrightarrow> (\<And>key. ask key now = (True, None) \<Longrightarrow> (key, now) \<in> P) \<Longrightarrow>
    udpReplayRegistry_accept ask sid seq now (Some ts) (rg_reg g) = (ok, r) \<Longrightarrow>
    registry_run cache namespace P now0 \<lparr>rg_reg = r, rg_log = log_if ok (sid, seq, ts, now) (rg_log g), rg_now = now\<rparr>"
| r_expire: "registry_run cache namespace P now0 g \<Longrightarrow> rg_now g \<le> now \<Longrightarrow>
    registry_run cache namespace P now0 (g\<lparr>rg_reg := udpReplayRegistry_expire now (rg_reg g), rg_now := now\<rparr>)"
| r_stop: "registry_run cache namespace P now0 g \<Longrightarrow> registry_run cache namespace P now0 (g\<lparr>rg_reg := udpReplayRegistry_stop (rg_reg g)\<rparr>)"

text \<open>The second of the last activity, with the zero time of Go before everything.\<close>

definition entry_abs :: "udp_window \<times> int option \<Rightarrow> udp_window \<times> int" where
  "entry_abs e = (fst e, case snd e of None \<Rightarrow> - 62135596800 | Some t \<Rightarrow> secs t)"

definition registry_abs :: "udp_registry \<Rightarrow> u64 \<Rightarrow> (udp_window \<times> int) option" where
  "registry_abs r sid = map_option entry_abs (map_of (ur_entries r) sid)"

text \<open>Every run of the registry is a run of the specification; once stopped, it accepts nothing.\<close>

definition registry_sim :: "bool \<Rightarrow> bytes \<Rightarrow> (bytes \<times> int) set \<Rightarrow> int \<Rightarrow> registry_world \<Rightarrow> bool" where
  "registry_sim cache ns P now0 g \<longleftrightarrow> distinct (map fst (ur_entries (rg_reg g))) \<and> length (ur_entries (rg_reg g)) \<le> maxUDPReplaySessions \<and>
     ur_cache (rg_reg g) = cache \<and> ur_namespace (rg_reg g) = ns \<and>
     (\<exists>tab. udp_run cache (\<lambda>sid. (ns, sid)) P now0 \<lparr>ud_tab = tab, ud_log = rg_log g, ud_now = rg_now g\<rparr> \<and>
        (\<not> ur_closed (rg_reg g) \<longrightarrow> tab = registry_abs (rg_reg g)))"

lemma registry_abs_update:
  "registry_abs (r\<lparr>ur_entries := AList.update sid e (ur_entries r)\<rparr>) = (registry_abs r)(sid \<mapsto> entry_abs e)"
  by (rule ext) (simp add: registry_abs_def update_conv')

lemma length_AList_update: "length (AList.update k v xs) = (if map_of xs k = None then Suc (length xs) else length xs)"
  by (induction xs) auto

text \<open>One accepted or refused packet is the creation of the session, where it is missing, and a packet of the specification.\<close>

lemma registry_accept_run:
  assumes "udp_run cache (\<lambda>sid. (ns, sid)) P now0 \<lparr>ud_tab = registry_abs r, ud_log = log, ud_now = now1\<rparr>" "now1 \<le> now"
    and "\<And>key. ask key now = (True, None) \<Longrightarrow> (key, now) \<in> P" "ur_cache r = cache" "ur_namespace r = ns"
    and "udpReplayRegistry_accept ask sid seq now (Some ts) r = (ok, r')" "\<not> ur_closed r"
  shows "udp_run cache (\<lambda>sid. (ns, sid)) P now0 \<lparr>ud_tab = registry_abs r', ud_log = log_if ok (sid, seq, ts, now) log, ud_now = now\<rparr>"
proof (cases "map_of (ur_entries r) sid = None \<and> maxUDPReplaySessions \<le> length (ur_entries r)")
  case True
  then have "ok = False" "r' = r" using assms(6,7) by (simp_all add: udpReplayRegistry_accept_def)
  then show ?thesis using udp_run.u_wait [OF assms(1), of now] assms(2) by (simp add: log_if_def)
next
  case False
  define e where "e = (case map_of (ur_entries r) sid of Some e \<Rightarrow> e | None \<Rightarrow> (NewPersistentUDPReplayWindow cache ns sid, None))"
  define tab where "tab = (registry_abs r)(sid \<mapsto> entry_abs e)"
  obtain ok1 w1 where aa: "AcceptAuthenticated ask seq ts now (fst e) = (ok1, w1)" by (cases "AcceptAuthenticated ask seq ts now (fst e)") auto
  let ?e' = "(w1, if ok1 then Some now else snd e)"
  have r': "ok = ok1" "r' = r\<lparr>ur_entries := AList.update sid ?e' (ur_entries r)\<rparr>"
    using False assms(4-7) aa unfolding udpReplayRegistry_accept_def Let_def e_def [symmetric]
    by (auto simp: e_def split: if_splits prod.splits option.splits)
  have "udp_run cache (\<lambda>sid. (ns, sid)) P now0 \<lparr>ud_tab = tab, ud_log = log, ud_now = now1\<rparr>"
  proof (cases "map_of (ur_entries r) sid")
    case None
    then show ?thesis using udp_run.u_create [OF assms(1), of sid] by (simp add: registry_abs_def tab_def e_def entry_abs_def)
  next
    case (Some x)
    then have "tab = registry_abs r" by (auto simp: tab_def registry_abs_def e_def)
    then show ?thesis using assms(1) by simp
  qed
  from udp_run.u_packet [OF this, of sid "fst (entry_abs e)" "snd (entry_abs e)" now ask seq ts ok1 w1 "snd (entry_abs ?e')"]
  have "udp_run cache (\<lambda>sid. (ns, sid)) P now0 \<lparr>ud_tab = tab(sid \<mapsto> entry_abs ?e'), ud_log = log_if ok1 (sid, seq, ts, now) log, ud_now = now\<rparr>"
    using assms(2,3) aa by (simp add: tab_def entry_abs_def)
  then show ?thesis unfolding r' registry_abs_update by (simp add: tab_def)
qed

lemma registry_accept_table:
  assumes "udpReplayRegistry_accept ask sid seq now ts r = (ok, r')"
  shows "ur_cache r' = ur_cache r" "ur_namespace r' = ur_namespace r" "ur_closed r' = ur_closed r" "ur_closed r \<Longrightarrow> \<not> ok \<and> r' = r"
    "distinct (map fst (ur_entries r)) \<Longrightarrow> distinct (map fst (ur_entries r'))"
    "length (ur_entries r) \<le> maxUDPReplaySessions \<Longrightarrow> length (ur_entries r') \<le> maxUDPReplaySessions"
  using assms by (auto simp: udpReplayRegistry_accept_def Let_def length_AList_update distinct_update split: if_splits prod.splits option.splits)

lemma map_of_kept:
  assumes "distinct (map fst entries)"
  shows "map_of (filter keep entries) sid = Option.bind (map_of entries sid) (\<lambda>e. if keep (sid, e) then Some e else None)"
  using assms by (induction entries) (auto simp: map_of_eq_None_iff bind_eq_None_conv)

lemma registry_expire_abs:
  assumes "distinct (map fst (ur_entries r))"
  shows "registry_abs (udpReplayRegistry_expire now r) = registry_abs r |` (- {sid. \<exists>w l. map_of (ur_entries r) sid = Some (w, l) \<and> entry_stale now l})"
proof
  fix sid
  show "registry_abs (udpReplayRegistry_expire now r) sid =
      (registry_abs r |` (- {sid. \<exists>w l. map_of (ur_entries r) sid = Some (w, l) \<and> entry_stale now l})) sid"
    by (cases "map_of (ur_entries r) sid") (auto simp: registry_abs_def udpReplayRegistry_expire_def map_of_kept [OF assms] restrict_map_def)
qed

lemma registry_expire_table:
  "ur_cache (udpReplayRegistry_expire now r) = ur_cache r" "ur_namespace (udpReplayRegistry_expire now r) = ur_namespace r"
  "ur_closed (udpReplayRegistry_expire now r) = ur_closed r"
  "distinct (map fst (ur_entries r)) \<Longrightarrow> distinct (map fst (ur_entries (udpReplayRegistry_expire now r)))"
  "length (ur_entries r) \<le> n \<Longrightarrow> length (ur_entries (udpReplayRegistry_expire now r)) \<le> n"
  by (simp_all add: udpReplayRegistry_expire_def distinct_map_filter order_trans [OF length_filter_le])

lemma registry_run_sim:
  assumes "registry_run cache ns P now0 g" "0 \<le> now0"
  shows "now0 \<le> rg_now g \<and> registry_sim cache ns P now0 g"
  using assms(1)
proof (induction rule: registry_run.induct)
  case r_start
  have "registry_abs \<lparr>ur_entries = [], ur_closed = False, ur_cache = cache, ur_namespace = ns\<rparr> = (\<lambda>_. None)" by (rule ext) (simp add: registry_abs_def)
  then show ?case using udp_run.u_start [of cache "\<lambda>sid. (ns, sid)" P now0] by (simp add: registry_sim_def)
next
  case (r_accept g now ask sid seq ts ok r)
  note t = registry_accept_table [OF r_accept(4)]
  from r_accept obtain tab where i: "udp_run cache (\<lambda>sid. (ns, sid)) P now0 \<lparr>ud_tab = tab, ud_log = rg_log g, ud_now = rg_now g\<rparr>"
    "\<not> ur_closed (rg_reg g) \<Longrightarrow> tab = registry_abs (rg_reg g)" "ur_cache (rg_reg g) = cache" "ur_namespace (rg_reg g) = ns"
    by (auto simp: registry_sim_def)
  have "\<exists>tab. udp_run cache (\<lambda>sid. (ns, sid)) P now0 \<lparr>ud_tab = tab, ud_log = log_if ok (sid, seq, ts, now) (rg_log g), ud_now = now\<rparr> \<and>
    (\<not> ur_closed r \<longrightarrow> tab = registry_abs r)"
  proof (cases "ur_closed (rg_reg g)")
    case True
    then show ?thesis using udp_run.u_wait [OF i(1), of now] r_accept(2) t(4) by (auto simp: log_if_def)
  next
    case False
    have "udp_run cache (\<lambda>sid. (ns, sid)) P now0 \<lparr>ud_tab = registry_abs (rg_reg g), ud_log = rg_log g, ud_now = rg_now g\<rparr>"
      using i(1,2) False by simp
    from registry_accept_run [OF this r_accept(2,3) i(3,4) r_accept(4) False] show ?thesis by blast
  qed
  then show ?case using r_accept(2,5) t by (auto simp: registry_sim_def)
next
  case (r_expire g now)
  then obtain tab where i: "udp_run cache (\<lambda>sid. (ns, sid)) P now0 \<lparr>ud_tab = tab, ud_log = rg_log g, ud_now = now\<rparr>"
    "\<not> ur_closed (rg_reg g) \<Longrightarrow> tab = registry_abs (rg_reg g)" and d: "distinct (map fst (ur_entries (rg_reg g)))"
    using udp_run.u_wait [of cache "\<lambda>sid. (ns, sid)" P now0 _ now] by (fastforce simp: registry_sim_def)
  let ?K = "{sid. \<exists>w l. map_of (ur_entries (rg_reg g)) sid = Some (w, l) \<and> entry_stale now l}"
  have "0 \<le> now" using r_expire(2,3) assms(2) by simp
  then have n: "0 \<le> secs now" by (simp add: pos_imp_zdiv_nonneg_iff)
  have old: "60 < secs now - secs t" if "udpReplayRetention < now - t" for t
    using zdiv_mono1 [of "t + 65 * second" now second] that by (simp add: udpReplayRetention_def)
  have "\<exists>tab. udp_run cache (\<lambda>sid. (ns, sid)) P now0 \<lparr>ud_tab = tab, ud_log = rg_log g, ud_now = now\<rparr> \<and>
    (\<not> ur_closed (rg_reg g) \<longrightarrow> tab = registry_abs (udpReplayRegistry_expire now (rg_reg g)))"
  proof (cases "ur_closed (rg_reg g)")
    case False
    have "60 < secs now - l" if "k \<in> ?K" "registry_abs (rg_reg g) k = Some (w, l)" for k w l
      using that n old by (auto simp: registry_abs_def entry_abs_def entry_stale_def split: option.splits)
    then have "udp_run cache (\<lambda>sid. (ns, sid)) P now0 \<lparr>ud_tab = registry_abs (rg_reg g) |` (- ?K), ud_log = rg_log g, ud_now = now\<rparr>"
      using udp_run.u_drop [OF i(1), of ?K] i(2) False by simp
    then show ?thesis unfolding registry_expire_abs [OF d] by blast
  qed (use i(1) in blast)
  then show ?case using r_expire(2,3) d registry_expire_table(4,5) [of "rg_reg g"]
    by (auto simp: registry_sim_def registry_expire_table(1-3))
next
  case (r_stop g)
  then show ?case by (auto simp: registry_sim_def udpReplayRegistry_stop_def)
qed

subsection \<open>Properties\<close>

text \<open>
  C30: In every run of the Xray UDP replay registry (packets of any sessions, replays, expiry of idle windows and re-creation of
  their sessions, with or without a replay cache, which may answer anything) no packet, identified by session, sequence number
  and authenticated timestamp, is accepted twice, and there are at most 10000 windows. Dropping a window after 65 seconds is safe
  because the timestamp of every packet it has seen is stale by then.
\<close>

theorem registry_admits_once:
  assumes "registry_run cache namespace P now0 g" "0 \<le> now0" "rg_now g < 2 ^ 63 * second"
  shows "distinct (map packet_of (rg_log g)) \<and> length (ur_entries (rg_reg g)) \<le> 10000"
proof -
  note i = registry_run_sim [OF assms(1,2)]
  then obtain tab where u: "udp_run cache (\<lambda>sid. (namespace, sid)) P now0 \<lparr>ud_tab = tab, ud_log = rg_log g, ud_now = rg_now g\<rparr>"
    by (auto simp: registry_sim_def)
  have "secs (rg_now g) * second \<le> rg_now g" by (simp add: minus_mod_eq_div_mult [symmetric])
  then have "secs (rg_now g) < 2 ^ 63" using assms(3) by linarith
  then show ?thesis using udp_run_once [OF u assms(2)] i by (simp add: registry_sim_def maxUDPReplaySessions_def)
qed

text \<open>A packet is accepted, its session expires, and the replay that re-creates the session is refused.\<close>

definition demo_registry :: udp_registry where
  "demo_registry = \<lparr>ur_entries = [], ur_closed = False, ur_cache = False, ur_namespace = []\<rparr>"

definition demo_ask :: "bytes \<Rightarrow> int \<Rightarrow> bool \<times> goerr option" where "demo_ask key now = (False, None)"

definition demo_r1 :: udp_registry where "demo_r1 = snd (udpReplayRegistry_accept demo_ask 5 1 (1 * second) (Some 31) demo_registry)"
definition demo_r2 :: udp_registry where "demo_r2 = udpReplayRegistry_expire (67 * second) demo_r1"
definition demo_r3 :: udp_registry where "demo_r3 = snd (udpReplayRegistry_accept demo_ask 5 1 (67 * second) (Some 31) demo_r2)"

theorem registry_admits_once_witness:
  "\<exists>g. registry_run False [] {} 0 g \<and> rg_log g = [(5, 1, 31, 1 * second)] \<and> ur_entries demo_r2 = [] \<and> ur_entries (rg_reg g) \<noteq> [] \<and>
     distinct (map packet_of (rg_log g)) \<and> length (ur_entries (rg_reg g)) \<le> 10000"
proof -
  have r0: "registry_run False [] {} 0 \<lparr>rg_reg = demo_registry, rg_log = [], rg_now = 0\<rparr>"
    unfolding demo_registry_def by (rule registry_run.r_start)
  have v: "fst (udpReplayRegistry_accept demo_ask 5 1 (1 * second) (Some 31) demo_registry)"
    "\<not> fst (udpReplayRegistry_accept demo_ask 5 1 (67 * second) (Some 31) demo_r2)" "ur_entries demo_r2 = []" "ur_entries demo_r3 \<noteq> []" by code_simp+
  then have a: "udpReplayRegistry_accept demo_ask 5 1 (1 * second) (Some 31) demo_registry = (True, demo_r1)"
    "udpReplayRegistry_accept demo_ask 5 1 (67 * second) (Some 31) demo_r2 = (False, demo_r3)"
    by (simp_all add: demo_r1_def demo_r3_def prod_eq_iff)
  have "registry_run False [] {} 0 \<lparr>rg_reg = demo_r1, rg_log = [(5, 1, 31, 1 * second)], rg_now = 1 * second\<rparr>"
    using registry_run.r_accept [OF r0, of "1 * second" demo_ask 5 1 31 True demo_r1] a(1) by (simp add: demo_ask_def [abs_def] log_if_def)
  from registry_run.r_expire [OF this, of "67 * second"]
  have "registry_run False [] {} 0 \<lparr>rg_reg = demo_r2, rg_log = [(5, 1, 31, 1 * second)], rg_now = 67 * second\<rparr>" by (simp add: demo_r2_def)
  from registry_run.r_accept [OF this, of "67 * second" demo_ask 5 1 31 False demo_r3] a(2)
  have g: "registry_run False [] {} 0 \<lparr>rg_reg = demo_r3, rg_log = [(5, 1, 31, 1 * second)], rg_now = 67 * second\<rparr>"
    by (simp add: demo_ask_def [abs_def] log_if_def)
  show ?thesis using registry_admits_once [OF g] g v(3,4) by (intro exI) auto
qed

end
