(* ===== verification/UdpBudget.thy ===== *)
theory UdpBudget
  imports Crypto GoText "HOL-Library.Multiset"
begin

text \<open>
  The process-wide budget of UDP target sockets, \<^verbatim>\<open>src/pkg/server/udp_budget.go\<close>, and the contract its users
  (native UDP, HTTP/3 datagrams, the Xray integration) rely on: a pool of leases, with a limit on all
  of them and one per identity, that counts exactly the leases that are out.
\<close>

subsection \<open>Pools of leases\<close>

text \<open>\<open>holds b M\<close>: the leases that are out are \<open>M\<close>.\<close>

locale lease_pool =
  fixes reserve :: "'i \<Rightarrow> 'b \<Rightarrow> 'b option"
    and release :: "'i \<Rightarrow> 'b \<Rightarrow> 'b"
    and holds :: "'b \<Rightarrow> 'i multiset \<Rightarrow> bool"
    and capacity :: nat
    and share :: nat
  assumes reserve_counts: "holds b M \<Longrightarrow> reserve i b = Some b' \<Longrightarrow> holds b' (add_mset i M)"
    and reserve_refuses: "holds b M \<Longrightarrow> reserve i b = None \<longleftrightarrow> capacity \<le> size M \<or> share \<le> count M i"
    and release_counts: "holds b M \<Longrightarrow> i \<in># M \<Longrightarrow> holds (release i b) (M - {#i#})"
    and within: "holds b M \<Longrightarrow> size M \<le> capacity \<and> count M i \<le> share"
begin

lemma release_added: "holds b (add_mset i M) \<Longrightarrow> holds (release i b) M"
  using release_counts [of b "add_mset i M" i] by simp

text \<open>A lease that was refused is granted again as soon as one of the same identity is returned.\<close>

lemma release_readmits:
  assumes "holds b M" "i \<in># M"
  shows "reserve i (release i b) \<noteq> None"
proof -
  obtain N where "M = add_mset i N" using assms(2) by (metis insert_DiffM)
  then have "size (M - {#i#}) < capacity" "count (M - {#i#}) i < share" using within [OF assms(1), of i] by auto
  then show ?thesis using reserve_refuses [OF release_counts [OF assms], of i] by auto
qed

end

subsection \<open>The budget\<close>

definition MaxUDPTargets :: int where "MaxUDPTargets = 1024"
definition MaxUserUDPTargets :: int where "MaxUserUDPTargets = 256"

record udp_budget =
  ub_used :: int
  ub_users :: "bytes \<rightharpoonup> int"

definition UDPResourceIdentity :: "crypto \<Rightarrow> bytes \<Rightarrow> bytes" where
  "UDPResourceIdentity cr psk = hex_encode (sha256 cr psk)"

text \<open>Reading a missing key of a Go map gives zero.\<close>

definition users_of :: "udp_budget \<Rightarrow> bytes \<Rightarrow> int" where
  "users_of b identity = (case ub_users b identity of None \<Rightarrow> 0 | Some n \<Rightarrow> n)"

definition ReserveUDPTarget :: "bytes \<Rightarrow> udp_budget \<Rightarrow> udp_budget option" where
  "ReserveUDPTarget identity b =
     (if MaxUDPTargets \<le> ub_used b \<or> MaxUserUDPTargets \<le> users_of b identity then None
      else Some (b\<lparr>ub_used := ub_used b + 1, ub_users := (ub_users b)(identity \<mapsto> users_of b identity + 1)\<rparr>))"

text \<open>The body of the release function; its callers run it once (\<open>sync.Once\<close>).\<close>

definition releaseUDPTarget :: "bytes \<Rightarrow> udp_budget \<Rightarrow> udp_budget" where
  "releaseUDPTarget identity b =
     (let n = users_of b identity - 1
      in b\<lparr>ub_used := ub_used b - 1, ub_users := (ub_users b)(identity := if n = 0 then None else Some n)\<rparr>)"

definition budget_ok :: "udp_budget \<Rightarrow> bytes multiset \<Rightarrow> bool" where
  "budget_ok b M \<longleftrightarrow> ub_used b = int (size M) \<and> (\<forall>i. users_of b i = int (count M i)) \<and> (\<forall>i. ub_users b i \<noteq> Some 0) \<and>
     size M \<le> 1024 \<and> (\<forall>i. count M i \<le> 256)"

lemma users_of_update: "users_of (b\<lparr>ub_used := u, ub_users := (ub_users b)(i := v)\<rparr>) j = (if j = i then case v of None \<Rightarrow> 0 | Some n \<Rightarrow> n else users_of b j)"
  by (simp add: users_of_def)

lemma budget_reserved: "budget_ok b M \<Longrightarrow> ReserveUDPTarget i b = Some b' \<Longrightarrow> budget_ok b' (add_mset i M)"
  by (auto simp: budget_ok_def ReserveUDPTarget_def users_of_update MaxUDPTargets_def MaxUserUDPTargets_def Suc_le_eq
      simp flip: of_nat_Suc split: if_splits)

lemma budget_released:
  assumes "budget_ok b M" "i \<in># M"
  shows "budget_ok (releaseUDPTarget i b) (M - {#i#})"
proof -
  have c: "0 < count M i" "count M i \<le> size M" "0 < size M" using assms(2) count_le_size [of M i] count_greater_zero_iff [of M i] by linarith+
  have "count (M - {#i#}) j \<le> 256" for j using assms(1) by (auto simp: budget_ok_def intro: le_trans [OF diff_le_self])
  then show ?thesis
    using assms c by (auto simp: budget_ok_def releaseUDPTarget_def Let_def users_of_update size_Diff_singleton int_ops of_nat_diff)
qed

interpretation udp_targets: lease_pool ReserveUDPTarget releaseUDPTarget budget_ok 1024 256
proof
  fix b M i b'
  show "budget_ok b M \<Longrightarrow> ReserveUDPTarget i b = Some b' \<Longrightarrow> budget_ok b' (add_mset i M)" by (rule budget_reserved)
  show "budget_ok b M \<Longrightarrow> i \<in># M \<Longrightarrow> budget_ok (releaseUDPTarget i b) (M - {#i#})" by (rule budget_released)
  show "budget_ok b M \<Longrightarrow> ReserveUDPTarget i b = None \<longleftrightarrow> 1024 \<le> size M \<or> 256 \<le> count M i"
    by (auto simp: budget_ok_def ReserveUDPTarget_def MaxUDPTargets_def MaxUserUDPTargets_def)
  show "budget_ok b M \<Longrightarrow> size M \<le> 1024 \<and> count M i \<le> 256" by (simp add: budget_ok_def)
qed

end
