(* ===== verification/PlainUdpServer.thy ===== *)
theory PlainUdpServer
  imports UdpReplay UdpBudget PlainUdp "HOL-Library.Sublist"
begin

text \<open>
  The native UDP server, \<^verbatim>\<open>src/pkg/server/plain_udp.go\<close>: the read loop with its memory budget, the worker
  queues, the table of sessions with their replay guards, the target sockets of a session with their
  leases, the readers of these sockets and the cleaner. Sessions and targets are objects on a heap (lists; a
  reference is an index), because workers and readers hold references to objects that were already removed from
  the tables. A worker is a thread that is somewhere in \<open>processTask\<close>; what runs under a lock or as one atomic
  operation is one step, and the steps of all threads interleave freely. The outcomes of resolving and
  dialling, the answers of the replay cache and the datagrams are arbitrary.
\<close>

unbundle bit_operations_syntax

subsection \<open>Data\<close>

record udp_task =
  tk_userIndex :: nat
  tk_sessionID :: u64
  tk_clientAddr :: bytes
  tk_targetAddr :: bytes
  tk_payload :: bytes
  tk_memoryCost :: int
  tk_seq :: u64
  tk_timestamp :: u64

type_synonym session_key = "nat \<times> u64"

record udp_target =
  tg_icmp :: bool
  tg_session :: nat
  tg_address :: bytes
  tg_identity :: bytes
  tg_closed :: bool
  tg_reading :: bool

record udp_session =
  us_key :: session_key
  us_guard :: udp_window
  us_identity :: bytes
  us_clientAddr :: "bytes option"
  us_targets :: "(bytes \<times> nat) list"
  us_targetCount :: int
  us_lastActive :: int
  us_closed :: bool
  us_locked :: bool

record udp_config =
  cf_codecs :: "codec list"
  cf_namespaces :: "bytes list"
  cf_identities :: "bytes list"
  cf_cache :: bool
  cf_maxSessions :: int
  cf_maxMemBudget :: int
  cf_workers :: nat

text \<open>Where a worker is: in \<open>workerLoop\<close> (\<open>W_Idle\<close>, \<open>W_Done\<close>) or in \<open>processTask\<close>; \<open>W_Accepted\<close> and \<open>W_Dial\<close> hold the
  lock \<open>targetMu\<close> of the session, \<open>W_Dial\<close> also a lease for the given identity.\<close>

datatype worker = W_Idle | W_Lookup udp_task | W_Create udp_task | W_Lock udp_task nat | W_Accepted udp_task nat | W_Dial udp_task nat bytes
  | W_Done udp_task | W_Panic udp_task

record plain_udp =
  ps_tab :: "(session_key \<times> nat) list"
  ps_sessions :: "udp_session list"
  ps_count :: int
  ps_targets :: "udp_target list"
  ps_budget :: udp_budget
  ps_foreign :: "bytes multiset"
  ps_queues :: "udp_task list list"
  ps_workers :: "worker list"
  ps_mem :: int
  ps_now :: int
  ps_stopped :: bool
  ps_drained :: bool
  ps_log :: "(session_key \<times> u64 \<times> u64 \<times> int) list"

subsection \<open>Construction\<close>

definition DefaultUDPWorkerQueueSize :: nat where "DefaultUDPWorkerQueueSize = 1024"
definition DefaultUDPMemoryBudget :: int where "DefaultUDPMemoryBudget = 64 * 2 ^ 20"
definition plainUDPTaskOverhead :: int where "plainUDPTaskOverhead = 256"

text \<open>The loop that doubles the size class; it starts at 256.\<close>

function size_class :: "int \<Rightarrow> int \<Rightarrow> int" where
  "size_class backing wireLen = (if 0 < backing \<and> backing < wireLen then size_class (2 * backing) wireLen else backing)"
  by pat_completeness auto
termination
  by (relation "measure (\<lambda>(backing, wireLen). nat (wireLen - backing))") auto

declare size_class.simps [simp del]

definition plainUDPTaskMemoryCost :: "int \<Rightarrow> int" where
  "plainUDPTaskMemoryCost wireLen = size_class 256 wireLen + plainUDPTaskOverhead"

fun make_codecs :: "crypto \<Rightarrow> bytes \<Rightarrow> user_key list \<Rightarrow> codec list result" where
  "make_codecs cr serverID [] = Inr []"
| "make_codecs cr serverID (user # users) =
     (case NewCodec cr (uk_psk user) [serverID] of
        Inl e \<Rightarrow> Inl e
      | Inr codec \<Rightarrow> (case make_codecs cr serverID users of Inl e \<Rightarrow> Inl e | Inr codecs \<Rightarrow> Inr (codec # codecs)))"

text \<open>\<open>cpus\<close> is \<open>runtime.NumCPU()\<close>; a listener is given and at most one set of options.\<close>

definition NewPlainUDPServerWithUsers :: "(bytes \<Rightarrow> bytes) \<Rightarrow> (bytes \<Rightarrow> bytes) \<Rightarrow> crypto \<Rightarrow> nat \<Rightarrow> user_key list \<Rightarrow> bytes \<Rightarrow> bool \<Rightarrow> udp_config result" where
  "NewPlainUDPServerWithUsers trim lower cr cpus users serverID cache =
     (case ValidateUserKeys trim lower users of
        Some e \<Rightarrow> Inl e
      | None \<Rightarrow>
          (case make_codecs cr serverID users of
             Inl e \<Rightarrow> Inl e
           | Inr codecs \<Rightarrow>
               Inr \<lparr>cf_codecs = codecs, cf_namespaces = udpReplayNamespaces cr users serverID,
                    cf_identities = map (\<lambda>u. UDPResourceIdentity cr (uk_psk u)) users, cf_cache = cache,
                    cf_maxSessions = 10000, cf_maxMemBudget = DefaultUDPMemoryBudget, cf_workers = max 8 (cpus * 2)\<rparr>))"

definition plain_udp_start :: "udp_config \<Rightarrow> int \<Rightarrow> udp_budget \<Rightarrow> bytes multiset \<Rightarrow> plain_udp" where
  "plain_udp_start cfg now0 b M =
     \<lparr>ps_tab = [], ps_sessions = [], ps_count = 0, ps_targets = [], ps_budget = b, ps_foreign = M,
      ps_queues = replicate (cf_workers cfg) [], ps_workers = replicate (cf_workers cfg) W_Idle, ps_mem = 0, ps_now = now0,
      ps_stopped = False, ps_drained = False, ps_log = []\<rparr>"

subsection \<open>The read loop\<close>

definition decode_client :: "crypto \<Rightarrow> udp_config \<Rightarrow> bytes \<Rightarrow> int \<Rightarrow> (nat \<times> decoded) result" where
  "decode_client cr cfg packet now =
     (if length (cf_codecs cfg) = 1
      then (case DecodePacket cr (cf_codecs cfg ! 0) packet DirClientToServer (unix now) of Inl e \<Rightarrow> Inl e | Inr d \<Rightarrow> Inr (0, d))
      else DecodePacketMulti cr (map Some (cf_codecs cfg)) packet DirClientToServer (unix now))"

definition worker_of :: "udp_config \<Rightarrow> nat \<Rightarrow> u64 \<Rightarrow> nat" where
  "worker_of cfg userIndex sessionID = unat ((sessionID XOR word_of_nat userIndex) mod word_of_nat (cf_workers cfg))"

text \<open>
  A datagram from the socket. The read loop is the only one to add to the memory counter: the addition, the decoding and the reversal for a datagram that is dropped are one step, so the
  counter here is the one between datagrams; while one is examined, the counter of the code may exceed the limit by that datagram.
\<close>

definition udp_receive :: "crypto \<Rightarrow> udp_config \<Rightarrow> bytes \<Rightarrow> bytes \<Rightarrow> int \<Rightarrow> plain_udp \<Rightarrow> plain_udp" where
  "udp_receive cr cfg clientAddr packet now s =
     (let cost = plainUDPTaskMemoryCost (int (length packet))
      in if cf_maxMemBudget cfg < ps_mem s + cost then s
         else (case decode_client cr cfg packet now of
                 Inl e \<Rightarrow> s
               | Inr (userIndex, d) \<Rightarrow>
                   let i = worker_of cfg userIndex (de_sessionID d);
                       task = \<lparr>tk_userIndex = userIndex, tk_sessionID = de_sessionID d, tk_clientAddr = clientAddr, tk_targetAddr = de_targetAddr d,
                               tk_payload = de_payload d, tk_memoryCost = cost, tk_seq = de_seq d, tk_timestamp = de_timestamp d\<rparr>
                   in if length (ps_queues s ! i) < DefaultUDPWorkerQueueSize
                      then s\<lparr>ps_mem := ps_mem s + cost, ps_queues := (ps_queues s)[i := ps_queues s ! i @ [task]]\<rparr>
                      else s))"

subsection \<open>Workers\<close>

definition set_pc :: "nat \<Rightarrow> worker \<Rightarrow> plain_udp \<Rightarrow> plain_udp" where
  "set_pc i pc s = s\<lparr>ps_workers := (ps_workers s)[i := pc]\<rparr>"

definition update_session :: "nat \<Rightarrow> (udp_session \<Rightarrow> udp_session) \<Rightarrow> plain_udp \<Rightarrow> plain_udp" where
  "update_session r f s = s\<lparr>ps_sessions := (ps_sessions s)[r := f (ps_sessions s ! r)]\<rparr>"

definition task_key :: "udp_task \<Rightarrow> session_key" where
  "task_key task = (tk_userIndex task, tk_sessionID task)"

definition worker_take :: "nat \<Rightarrow> plain_udp \<Rightarrow> plain_udp" where
  "worker_take i s =
     (let task = hd (ps_queues s ! i); s = s\<lparr>ps_queues := (ps_queues s)[i := tl (ps_queues s ! i)]\<rparr>
      in set_pc i (if ps_stopped s then W_Done task else W_Lookup task) s)"

definition worker_done :: "nat \<Rightarrow> udp_task \<Rightarrow> plain_udp \<Rightarrow> plain_udp" where
  "worker_done i task s = set_pc i W_Idle (s\<lparr>ps_mem := ps_mem s - tk_memoryCost task\<rparr>)"

text \<open>\<open>processTask\<close>: finding or creating the session, the replay check under its lock, and its target.\<close>

definition process_lookup :: "udp_config \<Rightarrow> nat \<Rightarrow> udp_task \<Rightarrow> plain_udp \<Rightarrow> plain_udp" where
  "process_lookup cfg i task s =
     (if length (cf_codecs cfg) \<le> tk_userIndex task then set_pc i (W_Done task) s
      else (case map_of (ps_tab s) (task_key task) of
              Some r \<Rightarrow> set_pc i (W_Lock task r) s
            | None \<Rightarrow> if 0 < cf_maxSessions cfg \<and> cf_maxSessions cfg \<le> ps_count s then set_pc i (W_Done task) s
                      else set_pc i (W_Create task) s))"

definition new_session :: "udp_config \<Rightarrow> udp_task \<Rightarrow> udp_session" where
  "new_session cfg task =
     \<lparr>us_key = task_key task,
      us_guard = NewPersistentUDPReplayWindow (cf_cache cfg) (cf_namespaces cfg ! tk_userIndex task) (tk_sessionID task),
      us_identity = (if tk_userIndex task < length (cf_identities cfg) then cf_identities cfg ! tk_userIndex task else []),
      us_clientAddr = None, us_targets = [], us_targetCount = 0, us_lastActive = 0, us_closed = False, us_locked = False\<rparr>"

text \<open>Storing a new session and counting it are one step; the check of the limit is an earlier one.\<close>

definition process_create :: "udp_config \<Rightarrow> nat \<Rightarrow> udp_task \<Rightarrow> plain_udp \<Rightarrow> plain_udp" where
  "process_create cfg i task s =
     (case map_of (ps_tab s) (task_key task) of
        Some r \<Rightarrow> set_pc i (W_Lock task r) s
      | None \<Rightarrow> set_pc i (W_Lock task (length (ps_sessions s)))
          (s\<lparr>ps_tab := (task_key task, length (ps_sessions s)) # ps_tab s, ps_sessions := ps_sessions s @ [new_session cfg task],
             ps_count := ps_count s + 1\<rparr>))"

text \<open>Under \<open>targetMu\<close>, which is kept when the packet was accepted.\<close>

definition process_accept :: "(bytes \<Rightarrow> int \<Rightarrow> bool \<times> goerr option) \<Rightarrow> int \<Rightarrow> nat \<Rightarrow> udp_task \<Rightarrow> nat \<Rightarrow> plain_udp \<Rightarrow> plain_udp" where
  "process_accept ask now i task r s =
     (if us_closed (ps_sessions s ! r) \<or> ps_stopped s then set_pc i (W_Done task) s
      else (case AcceptAuthenticated ask (tk_seq task) (tk_timestamp task) now (us_guard (ps_sessions s ! r)) of
              (accepted, g) \<Rightarrow>
                set_pc i (if accepted then W_Accepted task r else W_Done task)
                  ((update_session r (\<lambda>u. u\<lparr>us_guard := g, us_locked := accepted\<rparr>) s)\<lparr>
                     ps_log := log_if accepted (task_key task, tk_seq task, tk_timestamp task, now) (ps_log s)\<rparr>)))"

definition unlock :: "nat \<Rightarrow> plain_udp \<Rightarrow> plain_udp" where
  "unlock r s = update_session r (us_locked_update (\<lambda>_. False)) s"

text \<open>
  The asserted type of a target that was found; a failing unchecked assertion panics, the checked one of \<open>processICMPTask\<close>
  drops the packet. \<open>resolved\<close> is the outcome of \<open>ResolveICMPIP\<close>. Sending on the socket is output only.
\<close>

definition is_icmp :: "udp_task \<Rightarrow> bool" where
  "is_icmp task \<longleftrightarrow> prefix (lit ''icmp:'') (tk_targetAddr task)"

definition process_target :: "bool \<Rightarrow> int \<Rightarrow> nat \<Rightarrow> udp_task \<Rightarrow> nat \<Rightarrow> plain_udp \<Rightarrow> plain_udp" where
  "process_target resolved now i task r s =
     (let s = update_session r (\<lambda>u. u\<lparr>us_clientAddr := Some (tk_clientAddr task), us_lastActive := now div second\<rparr>) s; u = ps_sessions s ! r
      in if is_icmp task \<and> \<not> resolved then set_pc i (W_Done task) (unlock r s)
         else (case map_of (us_targets u) (tk_targetAddr task) of
                 Some t \<Rightarrow> set_pc i (if \<not> is_icmp task \<and> tg_icmp (ps_targets s ! t) then W_Panic task else W_Done task) (unlock r s)
               | None \<Rightarrow>
                   if 32 \<le> us_targetCount u then set_pc i (W_Done task) (unlock r s)
                   else (case ReserveUDPTarget (us_identity u) (ps_budget s) of
                           None \<Rightarrow> set_pc i (W_Done task) (unlock r s)
                         | Some b \<Rightarrow> set_pc i (W_Dial task r (us_identity u)) (s\<lparr>ps_budget := b\<rparr>))))"

definition close_target :: "nat \<Rightarrow> plain_udp \<Rightarrow> plain_udp" where
  "close_target t s =
     (if tg_closed (ps_targets s ! t) then s
      else s\<lparr>ps_targets := (ps_targets s)[t := (ps_targets s ! t)\<lparr>tg_closed := True\<rparr>],
             ps_budget := releaseUDPTarget (tg_identity (ps_targets s ! t)) (ps_budget s)\<rparr>)"

text \<open>Creating the socket: \<open>LoadOrStore\<close> keeps a target that is there already and closes the new one.\<close>

definition process_dial :: "bool \<Rightarrow> nat \<Rightarrow> udp_task \<Rightarrow> nat \<Rightarrow> bytes \<Rightarrow> plain_udp \<Rightarrow> plain_udp" where
  "process_dial dialled i task r identity s =
     (let u = ps_sessions s ! r
      in if \<not> dialled then set_pc i (W_Done task) (unlock r (s\<lparr>ps_budget := releaseUDPTarget identity (ps_budget s)\<rparr>))
         else let t = length (ps_targets s);
                  leased = \<lparr>tg_icmp = is_icmp task, tg_session = r, tg_address = tk_targetAddr task, tg_identity = identity,
                            tg_closed = False, tg_reading = False\<rparr>
              in (case map_of (us_targets u) (tk_targetAddr task) of
                    Some actual \<Rightarrow>
                      set_pc i (if tg_icmp (ps_targets s ! actual) \<noteq> is_icmp task then W_Panic task else W_Done task)
                        (unlock r (close_target t (s\<lparr>ps_targets := ps_targets s @ [leased]\<rparr>)))
                  | None \<Rightarrow>
                      set_pc i (W_Done task)
                        (update_session r (\<lambda>u. u\<lparr>us_targets := (tk_targetAddr task, t) # us_targets u, us_targetCount := us_targetCount u + 1,
                            us_locked := False\<rparr>) (s\<lparr>ps_targets := ps_targets s @ [leased\<lparr>tg_reading := True\<rparr>]\<rparr>))))"

subsection \<open>Readers of target sockets, the cleaner and the shutdown\<close>

text \<open>\<open>listenUpstream\<close> and \<open>listenICMPUpstream\<close>: a packet from the target, an error of the socket, and the end of the server.\<close>

definition upstream_packet :: "int \<Rightarrow> nat \<Rightarrow> plain_udp \<Rightarrow> plain_udp" where
  "upstream_packet now t s = update_session (tg_session (ps_targets s ! t)) (us_lastActive_update (\<lambda>_. now div second)) s"

definition end_reading :: "nat \<Rightarrow> plain_udp \<Rightarrow> plain_udp" where
  "end_reading t s = s\<lparr>ps_targets := (ps_targets s)[t := (ps_targets s ! t)\<lparr>tg_reading := False\<rparr>]\<rparr>"

definition upstream_error :: "nat \<Rightarrow> plain_udp \<Rightarrow> plain_udp" where
  "upstream_error t s =
     (let target = ps_targets s ! t; r = tg_session target
      in end_reading t (close_target t
           (if map_of (us_targets (ps_sessions s ! r)) (tg_address target) \<noteq> None
            then update_session r (\<lambda>u. u\<lparr>us_targets := AList.delete (tg_address target) (us_targets u), us_targetCount := us_targetCount u - 1\<rparr>) s
            else s)))"

definition upstream_stop :: "nat \<Rightarrow> plain_udp \<Rightarrow> plain_udp" where
  "upstream_stop t s = end_reading t (close_target t s)"

text \<open>The body of the cleaner's \<open>Range\<close> for one session, with \<open>TryLock\<close>; \<open>seconds\<close> is the time the sweep began.\<close>

definition cleaner_visit :: "int \<Rightarrow> session_key \<Rightarrow> plain_udp \<Rightarrow> plain_udp" where
  "cleaner_visit seconds key s =
     (case map_of (ps_tab s) key of
        None \<Rightarrow> s
      | Some r \<Rightarrow>
          if seconds - us_lastActive (ps_sessions s ! r) \<le> 60 \<or> us_locked (ps_sessions s ! r) then s
          else let s = update_session r (us_closed_update (\<lambda>_. True)) s;
                   s = fold close_target (map snd (us_targets (ps_sessions s ! r))) s
               in (update_session r (us_targets_update (\<lambda>_. [])) s)\<lparr>ps_tab := AList.delete key (ps_tab s), ps_count := ps_count s - 1\<rparr>)"

definition closeSessions :: "plain_udp \<Rightarrow> plain_udp" where
  "closeSessions s =
     (let s = fold (\<lambda>(key, r) s. fold close_target (map snd (us_targets (ps_sessions s ! r))) s) (ps_tab s) s
      in s\<lparr>ps_tab := [], ps_drained := True\<rparr>)"

subsection \<open>Interleavings\<close>

inductive plain_udp_run :: "crypto \<Rightarrow> udp_config \<Rightarrow> (bytes \<times> int) set \<Rightarrow> int \<Rightarrow> plain_udp \<Rightarrow> bool" for cr cfg P now0 where
  p_start: "budget_ok b M \<Longrightarrow> plain_udp_run cr cfg P now0 (plain_udp_start cfg now0 b M)"
| p_receive: "plain_udp_run cr cfg P now0 s \<Longrightarrow> \<not> ps_drained s \<Longrightarrow> plain_udp_run cr cfg P now0 (udp_receive cr cfg clientAddr packet now s)"
| p_take: "plain_udp_run cr cfg P now0 s \<Longrightarrow> i < length (ps_workers s) \<Longrightarrow> ps_workers s ! i = W_Idle \<Longrightarrow> ps_queues s ! i \<noteq> [] \<Longrightarrow>
    plain_udp_run cr cfg P now0 (worker_take i s)"
| p_lookup: "plain_udp_run cr cfg P now0 s \<Longrightarrow> i < length (ps_workers s) \<Longrightarrow> ps_workers s ! i = W_Lookup task \<Longrightarrow>
    plain_udp_run cr cfg P now0 (process_lookup cfg i task s)"
| p_create: "plain_udp_run cr cfg P now0 s \<Longrightarrow> i < length (ps_workers s) \<Longrightarrow> ps_workers s ! i = W_Create task \<Longrightarrow>
    plain_udp_run cr cfg P now0 (process_create cfg i task s)"
| p_accept: "plain_udp_run cr cfg P now0 s \<Longrightarrow> i < length (ps_workers s) \<Longrightarrow> ps_workers s ! i = W_Lock task r \<Longrightarrow> \<not> us_locked (ps_sessions s ! r) \<Longrightarrow>
    ps_now s \<le> now \<Longrightarrow> (\<And>key. ask key now = (True, None) \<Longrightarrow> (key, now) \<in> P) \<Longrightarrow>
    plain_udp_run cr cfg P now0 ((process_accept ask now i task r s)\<lparr>ps_now := now\<rparr>)"
| p_target: "plain_udp_run cr cfg P now0 s \<Longrightarrow> i < length (ps_workers s) \<Longrightarrow> ps_workers s ! i = W_Accepted task r \<Longrightarrow> ps_now s \<le> now \<Longrightarrow>
    plain_udp_run cr cfg P now0 ((process_target resolved now i task r s)\<lparr>ps_now := now\<rparr>)"
| p_dial: "plain_udp_run cr cfg P now0 s \<Longrightarrow> i < length (ps_workers s) \<Longrightarrow> ps_workers s ! i = W_Dial task r identity \<Longrightarrow>
    plain_udp_run cr cfg P now0 (process_dial dialled i task r identity s)"
| p_done: "plain_udp_run cr cfg P now0 s \<Longrightarrow> i < length (ps_workers s) \<Longrightarrow> ps_workers s ! i = W_Done task \<Longrightarrow>
    plain_udp_run cr cfg P now0 (worker_done i task s)"
| p_upstream: "plain_udp_run cr cfg P now0 s \<Longrightarrow> t < length (ps_targets s) \<Longrightarrow> tg_reading (ps_targets s ! t) \<Longrightarrow> ps_now s \<le> now \<Longrightarrow>
    plain_udp_run cr cfg P now0 ((upstream_packet now t s)\<lparr>ps_now := now\<rparr>)"
| p_error: "plain_udp_run cr cfg P now0 s \<Longrightarrow> t < length (ps_targets s) \<Longrightarrow> tg_reading (ps_targets s ! t) \<Longrightarrow>
    plain_udp_run cr cfg P now0 (upstream_error t s)"
| p_end: "plain_udp_run cr cfg P now0 s \<Longrightarrow> t < length (ps_targets s) \<Longrightarrow> tg_reading (ps_targets s ! t) \<Longrightarrow> ps_stopped s \<Longrightarrow>
    plain_udp_run cr cfg P now0 (upstream_stop t s)"
| p_clean: "plain_udp_run cr cfg P now0 s \<Longrightarrow> seconds \<le> ps_now s div second \<Longrightarrow> plain_udp_run cr cfg P now0 (cleaner_visit seconds key s)"
| p_stop: "plain_udp_run cr cfg P now0 s \<Longrightarrow> plain_udp_run cr cfg P now0 (s\<lparr>ps_stopped := True\<rparr>)"
| p_drain: "plain_udp_run cr cfg P now0 s \<Longrightarrow> ps_stopped s \<Longrightarrow> (\<forall>pc \<in> set (ps_workers s). pc = W_Idle) \<Longrightarrow> (\<forall>q \<in> set (ps_queues s). q = []) \<Longrightarrow>
    plain_udp_run cr cfg P now0 (closeSessions s)"
| p_others_reserve: "plain_udp_run cr cfg P now0 s \<Longrightarrow> ReserveUDPTarget identity (ps_budget s) = Some b \<Longrightarrow>
    plain_udp_run cr cfg P now0 (s\<lparr>ps_budget := b, ps_foreign := add_mset identity (ps_foreign s)\<rparr>)"
| p_others_release: "plain_udp_run cr cfg P now0 s \<Longrightarrow> identity \<in># ps_foreign s \<Longrightarrow>
    plain_udp_run cr cfg P now0 (s\<lparr>ps_budget := releaseUDPTarget identity (ps_budget s), ps_foreign := ps_foreign s - {#identity#}\<rparr>)"
| p_wait: "plain_udp_run cr cfg P now0 s \<Longrightarrow> ps_now s \<le> now \<Longrightarrow> plain_udp_run cr cfg P now0 (s\<lparr>ps_now := now\<rparr>)"

end
