(* ===== verification/PlainUdpInv.thy ===== *)
theory PlainUdpInv
  imports PlainUdpServer
begin

text \<open>
  Invariants of the native UDP server over all interleavings of its threads: the accounting of memory and
  sessions, the leases and types of target sockets, and the refinement of the session table to the
  specification of expiring replay windows (theory UdpReplay).
\<close>

subsection \<open>Fields that steps leave alone\<close>

lemmas step_defs = process_lookup_def process_create_def process_accept_def process_target_def process_dial_def

lemma update_frame [simp]:
  "ps_tab (update_session r f s) = ps_tab s" "ps_count (update_session r f s) = ps_count s" "ps_targets (update_session r f s) = ps_targets s"
  "ps_budget (update_session r f s) = ps_budget s" "ps_foreign (update_session r f s) = ps_foreign s" "ps_queues (update_session r f s) = ps_queues s"
  "ps_workers (update_session r f s) = ps_workers s" "ps_mem (update_session r f s) = ps_mem s" "ps_now (update_session r f s) = ps_now s"
  "ps_stopped (update_session r f s) = ps_stopped s" "ps_drained (update_session r f s) = ps_drained s" "ps_log (update_session r f s) = ps_log s"
  "ps_sessions (update_session r f s) = (ps_sessions s)[r := f (ps_sessions s ! r)]"
  by (simp_all add: update_session_def)

lemma set_pc_frame [simp]:
  "ps_tab (set_pc i pc s) = ps_tab s" "ps_count (set_pc i pc s) = ps_count s" "ps_targets (set_pc i pc s) = ps_targets s"
  "ps_budget (set_pc i pc s) = ps_budget s" "ps_foreign (set_pc i pc s) = ps_foreign s" "ps_queues (set_pc i pc s) = ps_queues s"
  "ps_sessions (set_pc i pc s) = ps_sessions s" "ps_mem (set_pc i pc s) = ps_mem s" "ps_now (set_pc i pc s) = ps_now s"
  "ps_stopped (set_pc i pc s) = ps_stopped s" "ps_drained (set_pc i pc s) = ps_drained s" "ps_log (set_pc i pc s) = ps_log s"
  "ps_workers (set_pc i pc s) = (ps_workers s)[i := pc]"
  by (simp_all add: set_pc_def)

lemma close_frame [simp]:
  "ps_tab (close_target t s) = ps_tab s" "ps_count (close_target t s) = ps_count s" "ps_sessions (close_target t s) = ps_sessions s"
  "ps_foreign (close_target t s) = ps_foreign s" "ps_queues (close_target t s) = ps_queues s" "ps_workers (close_target t s) = ps_workers s"
  "ps_mem (close_target t s) = ps_mem s" "ps_now (close_target t s) = ps_now s" "ps_stopped (close_target t s) = ps_stopped s"
  "ps_drained (close_target t s) = ps_drained s" "ps_log (close_target t s) = ps_log s" "length (ps_targets (close_target t s)) = length (ps_targets s)"
  by (simp_all add: close_target_def)

lemma fold_close_frame [simp]:
  "ps_tab (fold close_target ts s) = ps_tab s" "ps_count (fold close_target ts s) = ps_count s" "ps_sessions (fold close_target ts s) = ps_sessions s"
  "ps_foreign (fold close_target ts s) = ps_foreign s" "ps_queues (fold close_target ts s) = ps_queues s" "ps_workers (fold close_target ts s) = ps_workers s"
  "ps_mem (fold close_target ts s) = ps_mem s" "ps_now (fold close_target ts s) = ps_now s" "ps_stopped (fold close_target ts s) = ps_stopped s"
  "ps_drained (fold close_target ts s) = ps_drained s" "ps_log (fold close_target ts s) = ps_log s"
  "length (ps_targets (fold close_target ts s)) = length (ps_targets s)"
  by (induction ts arbitrary: s) simp_all

lemma end_reading_frame [simp]:
  "ps_tab (end_reading t s) = ps_tab s" "ps_count (end_reading t s) = ps_count s" "ps_sessions (end_reading t s) = ps_sessions s"
  "ps_budget (end_reading t s) = ps_budget s"
  "ps_foreign (end_reading t s) = ps_foreign s" "ps_queues (end_reading t s) = ps_queues s" "ps_workers (end_reading t s) = ps_workers s"
  "ps_mem (end_reading t s) = ps_mem s" "ps_now (end_reading t s) = ps_now s" "ps_stopped (end_reading t s) = ps_stopped s"
  "ps_drained (end_reading t s) = ps_drained s" "ps_log (end_reading t s) = ps_log s"
  by (simp_all add: end_reading_def)

lemma receive_frame [simp]:
  fixes cr cfg addr packet now s
  defines "s' \<equiv> udp_receive cr cfg addr packet now s"
  shows "ps_tab s' = ps_tab s" "ps_count s' = ps_count s" "ps_sessions s' = ps_sessions s" "ps_targets s' = ps_targets s" "ps_budget s' = ps_budget s"
    "ps_foreign s' = ps_foreign s" "ps_workers s' = ps_workers s" "ps_now s' = ps_now s" "ps_stopped s' = ps_stopped s"
    "ps_drained s' = ps_drained s" "ps_log s' = ps_log s"
  unfolding s'_def udp_receive_def Let_def by (simp_all split: sum.split prod.split)

lemma worker_frame [simp]:
  "ps_tab (worker_take i s) = ps_tab s" "ps_count (worker_take i s) = ps_count s" "ps_sessions (worker_take i s) = ps_sessions s"
  "ps_targets (worker_take i s) = ps_targets s" "ps_budget (worker_take i s) = ps_budget s" "ps_foreign (worker_take i s) = ps_foreign s"
  "ps_now (worker_take i s) = ps_now s" "ps_stopped (worker_take i s) = ps_stopped s" "ps_drained (worker_take i s) = ps_drained s" "ps_log (worker_take i s) = ps_log s"
  "ps_workers (worker_take i s) = (ps_workers s)[i := if ps_stopped s then W_Done (hd (ps_queues s ! i)) else W_Lookup (hd (ps_queues s ! i))]"
  "ps_tab (worker_done i task s) = ps_tab s" "ps_count (worker_done i task s) = ps_count s" "ps_sessions (worker_done i task s) = ps_sessions s"
  "ps_targets (worker_done i task s) = ps_targets s" "ps_budget (worker_done i task s) = ps_budget s" "ps_foreign (worker_done i task s) = ps_foreign s"
  "ps_now (worker_done i task s) = ps_now s" "ps_stopped (worker_done i task s) = ps_stopped s" "ps_drained (worker_done i task s) = ps_drained s"
  "ps_log (worker_done i task s) = ps_log s" "ps_workers (worker_done i task s) = (ps_workers s)[i := W_Idle]"
  by (simp_all add: worker_take_def worker_done_def Let_def)

lemma upstream_frame [simp]:
  "ps_tab (upstream_packet now t s) = ps_tab s" "ps_count (upstream_packet now t s) = ps_count s" "ps_targets (upstream_packet now t s) = ps_targets s"
  "ps_budget (upstream_packet now t s) = ps_budget s" "ps_foreign (upstream_packet now t s) = ps_foreign s" "ps_workers (upstream_packet now t s) = ps_workers s"
  "ps_stopped (upstream_packet now t s) = ps_stopped s" "ps_drained (upstream_packet now t s) = ps_drained s" "ps_log (upstream_packet now t s) = ps_log s"
  "ps_tab (upstream_stop t s) = ps_tab s" "ps_count (upstream_stop t s) = ps_count s" "ps_sessions (upstream_stop t s) = ps_sessions s"
  "ps_foreign (upstream_stop t s) = ps_foreign s" "ps_workers (upstream_stop t s) = ps_workers s" "ps_now (upstream_stop t s) = ps_now s"
  "ps_stopped (upstream_stop t s) = ps_stopped s" "ps_drained (upstream_stop t s) = ps_drained s" "ps_log (upstream_stop t s) = ps_log s"
  by (simp_all add: upstream_packet_def upstream_stop_def)

text \<open>The targets a shutdown closes.\<close>

definition open_refs :: "plain_udp \<Rightarrow> nat list" where
  "open_refs s = concat (map (\<lambda>(key, r). map snd (us_targets (ps_sessions s ! r))) (ps_tab s))"

lemma closeSessions_fold: "closeSessions s = (fold close_target (open_refs s) s)\<lparr>ps_tab := [], ps_drained := True\<rparr>"
proof -
  have "fold (\<lambda>(key, r) s. fold close_target (map snd (us_targets (ps_sessions s ! r))) s) tab s' =
      fold close_target (concat (map (\<lambda>(key, r). map snd (us_targets (ps_sessions s' ! r))) tab)) s'" for tab s'
    by (induction tab arbitrary: s') (auto simp: case_prod_beta)
  from this [of "ps_tab s" s] show ?thesis unfolding closeSessions_def Let_def open_refs_def by (rule arg_cong)
qed

subsection \<open>Sums over threads\<close>

lemma sum_list_upd: "i < length xs \<Longrightarrow> sum_list (xs[i := y]) + xs ! i = sum_list xs + (y :: 'a :: comm_monoid_add)"
proof (induction xs arbitrary: i)
  case (Cons x xs)
  then show ?case by (cases i) (auto simp: ac_simps)
qed simp

definition wsum :: "(worker \<Rightarrow> 'a :: comm_monoid_add) \<Rightarrow> plain_udp \<Rightarrow> 'a" where
  "wsum f s = sum_list (map f (ps_workers s))"

lemma wsum_move:
  assumes "i < length (ps_workers s)" "ps_workers s' = (ps_workers s)[i := pc]"
  shows "wsum f s' + f (ps_workers s ! i) = wsum f s + f pc"
  using sum_list_upd [of i "map f (ps_workers s)" "f pc"] assms by (simp add: wsum_def map_update)

lemma wsum_same: "ps_workers s' = ps_workers s \<Longrightarrow> wsum f s' = wsum f s"
  by (simp add: wsum_def)

text \<open>The task a worker has; steps of \<open>processTask\<close> move a worker on with its task and touch neither queues nor memory.\<close>

fun pc_task :: "worker \<Rightarrow> udp_task option" where
  "pc_task W_Idle = None"
| "pc_task (W_Lookup task) = Some task"
| "pc_task (W_Create task) = Some task"
| "pc_task (W_Lock task r) = Some task"
| "pc_task (W_Accepted task r) = Some task"
| "pc_task (W_Dial task r identity) = Some task"
| "pc_task (W_Done task) = Some task"
| "pc_task (W_Panic task) = Some task"

definition moves :: "nat \<Rightarrow> udp_task \<Rightarrow> plain_udp \<Rightarrow> plain_udp \<Rightarrow> bool" where
  "moves i task s s' \<longleftrightarrow> ps_mem s' = ps_mem s \<and> ps_queues s' = ps_queues s \<and> (\<exists>pc. ps_workers s' = (ps_workers s)[i := pc] \<and> pc_task pc = Some task)"

lemma processing_moves:
  "moves i task s (process_lookup cfg i task s)" "moves i task s (process_create cfg i task s)"
  "moves i task s ((process_accept ask now i task r s)\<lparr>ps_now := now\<rparr>)" "moves i task s ((process_target resolved now i task r s)\<lparr>ps_now := now\<rparr>)"
  "moves i task s (process_dial dialled i task r identity s)"
  by (auto simp: moves_def step_defs unlock_def Let_def split: option.splits prod.splits)

definition idle :: "plain_udp \<Rightarrow> plain_udp \<Rightarrow> bool" where
  "idle s s' \<longleftrightarrow> ps_mem s' = ps_mem s \<and> ps_queues s' = ps_queues s \<and> ps_workers s' = ps_workers s"

lemma other_idle:
  "idle s ((upstream_packet now t s)\<lparr>ps_now := now\<rparr>)" "idle s (upstream_error t s)" "idle s (upstream_stop t s)" "idle s (cleaner_visit seconds key s)"
  "idle s (closeSessions s)"
  by (auto simp: idle_def upstream_packet_def upstream_error_def upstream_stop_def cleaner_visit_def closeSessions_fold Let_def split: option.splits)

subsection \<open>Memory\<close>

definition pc_cost :: "worker \<Rightarrow> int" where
  "pc_cost pc = (case pc_task pc of None \<Rightarrow> 0 | Some task \<Rightarrow> tk_memoryCost task)"

definition qcost :: "udp_task list \<Rightarrow> int" where
  "qcost q = sum_list (map tk_memoryCost q)"

definition mem_inv :: "udp_config \<Rightarrow> plain_udp \<Rightarrow> bool" where
  "mem_inv cfg s \<longleftrightarrow> length (ps_queues s) = cf_workers cfg \<and> length (ps_workers s) = cf_workers cfg \<and>
     ps_mem s = sum_list (map qcost (ps_queues s)) + wsum pc_cost s \<and> ps_mem s \<le> cf_maxMemBudget cfg \<and>
     (\<forall>q \<in> set (ps_queues s). length q \<le> 1024 \<and> (\<forall>task \<in> set q. 0 \<le> tk_memoryCost task)) \<and>
     (\<forall>pc \<in> set (ps_workers s). 0 \<le> pc_cost pc)"

lemma size_class_ge: "0 < b \<Longrightarrow> b \<le> size_class b n \<and> n \<le> size_class b n"
proof (induction b n rule: size_class.induct)
  case (1 b n)
  then show ?case by (subst (1 2) size_class.simps) (fastforce simp: size_class.simps [of b n])
qed

lemma task_cost_pos: "0 \<le> plainUDPTaskMemoryCost n"
  using size_class_ge [of 256 n] by (simp add: plainUDPTaskMemoryCost_def plainUDPTaskOverhead_def)

lemma worker_of_less: "0 < cf_workers cfg \<Longrightarrow> cf_workers cfg < 2 ^ 64 \<Longrightarrow> worker_of cfg u sid < cf_workers cfg"
  by (simp add: worker_of_def unat_mod_distrib unsigned_of_nat take_bit_nat_eq_self)

lemma mem_inv_moves:
  assumes "mem_inv cfg s" "i < length (ps_workers s)" "pc_task (ps_workers s ! i) = Some task" "moves i task s s'"
  shows "mem_inv cfg s'"
proof -
  obtain pc where w: "ps_workers s' = (ps_workers s)[i := pc]" "pc_task pc = Some task" "ps_mem s' = ps_mem s" "ps_queues s' = ps_queues s"
    using assms(4) by (auto simp: moves_def)
  have c: "pc_cost pc = pc_cost (ps_workers s ! i)" using assms(3) w(2) by (simp add: pc_cost_def)
  then have "wsum pc_cost s' = wsum pc_cost s" using wsum_move [OF assms(2) w(1), of pc_cost] by simp
  moreover have "0 \<le> pc_cost p" if "p \<in> set (ps_workers s')" for p
    using that assms(1,2) c set_update_subset_insert [of "ps_workers s" i pc] w(1) by (auto simp: mem_inv_def)
  ultimately show ?thesis using assms(1) w by (simp add: mem_inv_def)
qed

lemma mem_inv_receive:
  assumes "mem_inv cfg s" "0 < cf_workers cfg" "cf_workers cfg < 2 ^ 64"
  shows "mem_inv cfg (udp_receive cr cfg addr packet now s)"
proof -
  let ?s = "udp_receive cr cfg addr packet now s" and ?cost = "plainUDPTaskMemoryCost (int (length packet))"
  consider "?s = s" | i task where "i < cf_workers cfg" "?s = s\<lparr>ps_mem := ps_mem s + ?cost, ps_queues := (ps_queues s)[i := ps_queues s ! i @ [task]]\<rparr>"
    "tk_memoryCost task = ?cost" "length (ps_queues s ! i) < 1024" "ps_mem s + ?cost \<le> cf_maxMemBudget cfg"
  proof (cases "cf_maxMemBudget cfg < ps_mem s + ?cost \<or> isl (decode_client cr cfg packet now)")
    case True
    then show ?thesis using that(1) by (auto simp: udp_receive_def Let_def isl_def)
  next
    case False
    then obtain u d where d: "decode_client cr cfg packet now = Inr (u, d)" by (cases "decode_client cr cfg packet now") auto
    let ?i = "worker_of cfg u (de_sessionID d)"
    show ?thesis
    proof (cases "length (ps_queues s ! ?i) < 1024")
      case True
      then show ?thesis using that(2) [OF worker_of_less [OF assms(2,3), of u "de_sessionID d"]] d False
        by (simp add: udp_receive_def Let_def DefaultUDPWorkerQueueSize_def)
    next
      case long: False
      then show ?thesis using that(1) d False by (simp add: udp_receive_def Let_def DefaultUDPWorkerQueueSize_def)
    qed
  qed
  then show ?thesis
  proof cases
    case 1
    then show ?thesis using assms(1) by simp
  next
    case (2 i task)
    have i: "i < length (ps_queues s)" "i < length (map qcost (ps_queues s))" using 2(1) assms(1) by (simp_all add: mem_inv_def)
    have "sum_list (map qcost (ps_queues ?s)) + qcost (ps_queues s ! i) = sum_list (map qcost (ps_queues s)) + qcost (ps_queues s ! i @ [task])"
      using sum_list_upd [OF i(2), of "qcost (ps_queues s ! i @ [task])"] i(1) unfolding 2(2) by (simp add: map_update)
    then have q: "sum_list (map qcost (ps_queues ?s)) = sum_list (map qcost (ps_queues s)) + ?cost" using 2(3) by (simp add: qcost_def)
    have "length q \<le> 1024 \<and> (\<forall>task \<in> set q. 0 \<le> tk_memoryCost task)" if "q \<in> set (ps_queues ?s)" for q
    proof -
      have "q \<in> set (ps_queues s) \<or> q = ps_queues s ! i @ [task]" using that set_update_subset_insert [of "ps_queues s" i] unfolding 2(2) by auto
      then show ?thesis using assms(1) 2(3,4) nth_mem [OF i(1)] task_cost_pos [of "int (length packet)"] by (auto simp: mem_inv_def)
    qed
    moreover have "wsum pc_cost ?s = wsum pc_cost s" unfolding 2(2) by (simp add: wsum_def)
    ultimately show ?thesis using q assms(1) 2(5) unfolding mem_inv_def by (simp add: 2(2))
  qed
qed

lemma mem_inv_take:
  assumes "mem_inv cfg s" "i < length (ps_workers s)" "ps_workers s ! i = W_Idle" "ps_queues s ! i \<noteq> []"
  shows "mem_inv cfg (worker_take i s)"
proof -
  let ?s = "worker_take i s"
  obtain task q where tq: "ps_queues s ! i = task # q" using assms(4) by (cases "ps_queues s ! i") auto
  define pc where "pc = (if ps_stopped s then W_Done task else W_Lookup task)"
  have s: "ps_mem ?s = ps_mem s" "ps_queues ?s = (ps_queues s)[i := q]" "ps_workers ?s = (ps_workers s)[i := pc]"
    using tq by (simp_all add: worker_take_def Let_def pc_def)
  have i: "i < length (ps_queues s)" "i < length (map qcost (ps_queues s))" using assms(1,2) by (simp_all add: mem_inv_def)
  have mem: "task # q \<in> set (ps_queues s)" using nth_mem [OF i(1)] tq by simp
  have "sum_list (map qcost (ps_queues ?s)) + qcost (task # q) = sum_list (map qcost (ps_queues s)) + qcost q"
    using sum_list_upd [OF i(2), of "qcost q"] i(1) tq s(2) by (simp add: map_update)
  moreover have "wsum pc_cost ?s = wsum pc_cost s + tk_memoryCost task"
    using wsum_move [OF assms(2) s(3), of pc_cost] assms(3) by (simp add: pc_cost_def pc_def)
  moreover have "length q' \<le> 1024 \<and> (\<forall>task \<in> set q'. 0 \<le> tk_memoryCost task)" if "q' \<in> set (ps_queues ?s)" for q'
  proof -
    have "length (task # q) \<le> 1024 \<and> (\<forall>x \<in> set (task # q). 0 \<le> tk_memoryCost x)" using assms(1) mem unfolding mem_inv_def by blast
    then have "length q \<le> 1024 \<and> (\<forall>x \<in> set q. 0 \<le> tk_memoryCost x)" by simp
    then show ?thesis using that set_update_subset_insert [of "ps_queues s" i q] assms(1) unfolding mem_inv_def s(2) by blast
  qed
  moreover have "0 \<le> pc_cost p" if "p \<in> set (ps_workers ?s)" for p
  proof -
    have "0 \<le> tk_memoryCost task" using assms(1) mem unfolding mem_inv_def by auto
    then have "0 \<le> pc_cost pc" by (simp add: pc_def pc_cost_def)
    then show ?thesis using that set_update_subset_insert [of "ps_workers s" i pc] assms(1) s(3) unfolding mem_inv_def by auto
  qed
  ultimately show ?thesis using assms(1) s by (simp add: mem_inv_def qcost_def)
qed

lemma mem_inv_done:
  assumes "mem_inv cfg s" "i < length (ps_workers s)" "ps_workers s ! i = W_Done task"
  shows "mem_inv cfg (worker_done i task s)"
proof -
  let ?s = "worker_done i task s"
  have s: "ps_mem ?s = ps_mem s - tk_memoryCost task" "ps_queues ?s = ps_queues s" "ps_workers ?s = (ps_workers s)[i := W_Idle]"
    by (simp_all add: worker_done_def)
  have "wsum pc_cost ?s + tk_memoryCost task = wsum pc_cost s"
    using wsum_move [OF assms(2) s(3), of pc_cost] assms(3) by (simp add: pc_cost_def)
  moreover have "0 \<le> tk_memoryCost task" using assms nth_mem [OF assms(2)] by (auto simp: mem_inv_def pc_cost_def)
  moreover have "0 \<le> pc_cost p" if "p \<in> set (ps_workers ?s)" for p
    using that set_update_subset_insert [of "ps_workers s" i W_Idle] assms(1) s(3) by (auto simp: mem_inv_def pc_cost_def)
  ultimately show ?thesis using assms(1) s by (simp add: mem_inv_def)
qed

lemma mem_inv_idle: "mem_inv cfg s \<Longrightarrow> idle s s' \<Longrightarrow> mem_inv cfg s'"
  by (simp add: mem_inv_def idle_def wsum_def)

lemma plain_udp_mem:
  assumes "plain_udp_run cr cfg P now0 s" "0 < cf_workers cfg" "cf_workers cfg < 2 ^ 64" "0 \<le> cf_maxMemBudget cfg"
  shows "mem_inv cfg s"
  using assms(1)
proof (induction rule: plain_udp_run.induct)
  case (p_start b M)
  show ?case using assms(4) by (simp add: mem_inv_def plain_udp_start_def wsum_def pc_cost_def qcost_def map_replicate_const sum_list_replicate)
next
  case (p_receive s addr packet now)
  then show ?case using assms(2,3) by (intro mem_inv_receive)
next
  case (p_take s i)
  then show ?case by (intro mem_inv_take)
next
  case (p_done s i task)
  then show ?case by (intro mem_inv_done)
next
  case (p_lookup s i task)
  then show ?case by (intro mem_inv_moves [OF _ _ _ processing_moves(1)]) simp_all
next
  case (p_create s i task)
  then show ?case by (intro mem_inv_moves [OF _ _ _ processing_moves(2)]) simp_all
next
  case (p_accept s i task r now ask)
  then show ?case by (intro mem_inv_moves [OF _ _ _ processing_moves(3)]) simp_all
next
  case (p_target s i task r now resolved)
  then show ?case by (intro mem_inv_moves [OF _ _ _ processing_moves(4)]) simp_all
next
  case (p_dial s i task r identity dialled)
  then show ?case by (intro mem_inv_moves [OF _ _ _ processing_moves(5)]) simp_all
qed ((rule mem_inv_idle, assumption, rule other_idle) | (rule mem_inv_idle, assumption, simp add: idle_def))+

subsection \<open>The session table and the locks\<close>

fun pc_ref :: "worker \<Rightarrow> (udp_task \<times> nat) option" where
  "pc_ref (W_Lock task r) = Some (task, r)"
| "pc_ref (W_Accepted task r) = Some (task, r)"
| "pc_ref (W_Dial task r identity) = Some (task, r)"
| "pc_ref _ = None"

fun holder :: "nat \<Rightarrow> worker \<Rightarrow> nat" where
  "holder r (W_Accepted task r') = of_bool (r' = r)"
| "holder r (W_Dial task r' identity) = of_bool (r' = r)"
| "holder r _ = 0"

definition creating :: "worker \<Rightarrow> int" where
  "creating pc = (case pc of W_Create task \<Rightarrow> 1 | _ \<Rightarrow> 0)"

definition ref_ok :: "udp_session list \<Rightarrow> worker \<Rightarrow> bool" where
  "ref_ok ss pc \<longleftrightarrow> (case pc_ref pc of None \<Rightarrow> True | Some (task, r) \<Rightarrow> r < length ss \<and> us_key (ss ! r) = task_key task)"

text \<open>
  Every entry of the table is an open session under its own key, every open session is in the table, locks are held by exactly one worker,
  and closed sessions are never locked. The session counter is exact until the shutdown; the check against the limit and the
  insertion are separate steps, so the limit can be exceeded, by less than the number of workers.
\<close>

definition tab_inv :: "udp_config \<Rightarrow> plain_udp \<Rightarrow> bool" where
  "tab_inv cfg s \<longleftrightarrow> distinct (map fst (ps_tab s)) \<and>
     (\<forall>(k, r) \<in> set (ps_tab s). r < length (ps_sessions s) \<and> us_key (ps_sessions s ! r) = k \<and> \<not> us_closed (ps_sessions s ! r)) \<and>
     (\<forall>r < length (ps_sessions s). \<not> us_closed (ps_sessions s ! r) \<longrightarrow> ps_drained s \<or> (us_key (ps_sessions s ! r), r) \<in> set (ps_tab s)) \<and>
     (\<forall>pc \<in> set (ps_workers s). ref_ok (ps_sessions s) pc) \<and>
     (\<forall>r < length (ps_sessions s). wsum (holder r) s = of_bool (us_locked (ps_sessions s ! r)) \<and> \<not> (us_locked (ps_sessions s ! r) \<and> us_closed (ps_sessions s ! r)))"

definition count_inv :: "udp_config \<Rightarrow> plain_udp \<Rightarrow> bool" where
  "count_inv cfg s \<longleftrightarrow> ps_drained s \<or> ps_count s = int (length (ps_tab s)) \<and>
     (0 < cf_maxSessions cfg \<longrightarrow> ps_count s + wsum creating s < cf_maxSessions cfg + int (length (ps_workers s)))"

lemma tab_inv_move:
  assumes "tab_inv cfg s" "i < length (ps_workers s)" "ps_workers s' = (ps_workers s)[i := pc]"
    and "ps_tab s' = ps_tab s" "ps_drained s' = ps_drained s" "length (ps_sessions s') = length (ps_sessions s)" "ref_ok (ps_sessions s) pc"
    and "\<And>r. r < length (ps_sessions s) \<Longrightarrow> us_key (ps_sessions s' ! r) = us_key (ps_sessions s ! r) \<and> us_closed (ps_sessions s' ! r) = us_closed (ps_sessions s ! r) \<and>
      of_bool (us_locked (ps_sessions s' ! r)) + holder r (ps_workers s ! i) = of_bool (us_locked (ps_sessions s ! r)) + holder r pc \<and>
      \<not> (us_locked (ps_sessions s' ! r) \<and> us_closed (ps_sessions s ! r))"
  shows "tab_inv cfg s'"
proof -
  have ok: "ref_ok (ps_sessions s') p = ref_ok (ps_sessions s) p" for p
    using assms(6,8) by (auto simp: ref_ok_def split: option.splits)
  have w: "wsum (holder r) s' = of_bool (us_locked (ps_sessions s' ! r))" if "r < length (ps_sessions s)" for r
  proof -
    have "wsum (holder r) s = of_bool (us_locked (ps_sessions s ! r))" using assms(1) that by (simp add: tab_inv_def)
    then show ?thesis using wsum_move [OF assms(2,3), of "holder r"] assms(8) [OF that] by linarith
  qed
  have "ref_ok (ps_sessions s') p" if "p \<in> set (ps_workers s')" for p
    using that assms(1,7) set_update_subset_insert [of "ps_workers s" i pc] unfolding ok assms(3) tab_inv_def by blast
  moreover have "\<forall>(k, r) \<in> set (ps_tab s'). r < length (ps_sessions s') \<and> us_key (ps_sessions s' ! r) = k \<and> \<not> us_closed (ps_sessions s' ! r)"
    using assms(1,4,6,8) unfolding tab_inv_def by auto
  moreover have "\<forall>r < length (ps_sessions s'). \<not> us_closed (ps_sessions s' ! r) \<longrightarrow> ps_drained s' \<or> (us_key (ps_sessions s' ! r), r) \<in> set (ps_tab s')"
    using assms(1,4,5,6,8) unfolding tab_inv_def by auto
  ultimately show ?thesis using assms(1,4,6,8) w unfolding tab_inv_def by auto
qed

lemma tab_inv_frame:
  assumes "tab_inv cfg s" "ps_workers s' = ps_workers s" "ps_tab s' = ps_tab s" "ps_drained s' = ps_drained s" "length (ps_sessions s') = length (ps_sessions s)"
    and "\<And>r. r < length (ps_sessions s) \<Longrightarrow> us_key (ps_sessions s' ! r) = us_key (ps_sessions s ! r) \<and> us_closed (ps_sessions s' ! r) = us_closed (ps_sessions s ! r) \<and>
      us_locked (ps_sessions s' ! r) = us_locked (ps_sessions s ! r)"
  shows "tab_inv cfg s'"
proof -
  have "ref_ok (ps_sessions s') p = ref_ok (ps_sessions s) p" for p using assms(5,6) by (auto simp: ref_ok_def split: option.splits)
  moreover have "wsum (holder r) s' = wsum (holder r) s" for r by (rule wsum_same [OF assms(2)])
  ultimately show ?thesis using assms unfolding tab_inv_def by auto
qed

lemma worker_ref:
  assumes "tab_inv cfg s" "i < length (ps_workers s)" "pc_ref (ps_workers s ! i) = Some (task, r)"
  shows "r < length (ps_sessions s)" "us_key (ps_sessions s ! r) = task_key task"
proof -
  have "ref_ok (ps_sessions s) (ps_workers s ! i)" using assms(1,2) by (simp add: tab_inv_def)
  then show "r < length (ps_sessions s)" "us_key (ps_sessions s ! r) = task_key task" using assms(3) by (simp_all add: ref_ok_def)
qed

lemma holder_locked:
  assumes "tab_inv cfg s" "i < length (ps_workers s)" "r < length (ps_sessions s)" "holder r (ps_workers s ! i) = 1"
  shows "us_locked (ps_sessions s ! r)" "\<not> us_closed (ps_sessions s ! r)"
proof -
  have "holder r (ps_workers s ! i) \<le> wsum (holder r) s"
    unfolding wsum_def using assms(2) by (intro member_le_sum_list) simp_all
  then show "us_locked (ps_sessions s ! r)" "\<not> us_closed (ps_sessions s ! r)" using assms(1,3,4)
    by (cases "us_locked (ps_sessions s ! r)"; simp add: tab_inv_def)+
qed

text \<open>The steps of a worker on the session it refers to.\<close>

lemma tab_inv_release:
  assumes "tab_inv cfg s" "i < length (ps_workers s)" "pc_ref (ps_workers s ! i) = Some (task, r)" "holder r (ps_workers s ! i) = 1"
    and "\<And>q. holder q pc = 0" "pc_ref pc = None" "ps_workers s' = (ps_workers s)[i := pc]" "ps_tab s' = ps_tab s" "ps_drained s' = ps_drained s"
    and "ps_sessions s' = (ps_sessions s)[r := u]" "us_key u = us_key (ps_sessions s ! r)" "us_closed u = us_closed (ps_sessions s ! r)" "\<not> us_locked u"
  shows "tab_inv cfg s'"
proof (rule tab_inv_move [OF assms(1,2,7,8,9)])
  note r = worker_ref(1) [OF assms(1-3)]
  note l = holder_locked [OF assms(1,2) r assms(4)]
  have h: "holder q (ps_workers s ! i) = of_bool (q = r)" for q using assms(3,4) by (cases "ps_workers s ! i") auto
  show "length (ps_sessions s') = length (ps_sessions s)" using assms(10) by simp
  show "ref_ok (ps_sessions s) pc" using assms(6) by (simp add: ref_ok_def)
  show "us_key (ps_sessions s' ! q) = us_key (ps_sessions s ! q) \<and> us_closed (ps_sessions s' ! q) = us_closed (ps_sessions s ! q) \<and>
      of_bool (us_locked (ps_sessions s' ! q)) + holder q (ps_workers s ! i) = of_bool (us_locked (ps_sessions s ! q)) + holder q pc \<and>
      \<not> (us_locked (ps_sessions s' ! q) \<and> us_closed (ps_sessions s ! q))" if "q < length (ps_sessions s)" for q
    using that r l h assms(1,5,10-13) by (auto simp: nth_list_update tab_inv_def)
qed

lemma tab_inv_pc:
  assumes "tab_inv cfg s" "i < length (ps_workers s)" "ref_ok (ps_sessions s) pc" "\<And>q. holder q pc = holder q (ps_workers s ! i)"
  shows "tab_inv cfg (set_pc i pc s)"
  by (rule tab_inv_move [OF assms(1,2), of _ pc]) (use assms in \<open>auto simp: tab_inv_def\<close>)

lemma tab_inv_lookup:
  assumes "tab_inv cfg s" "i < length (ps_workers s)" "ps_workers s ! i = W_Lookup task"
  shows "tab_inv cfg (process_lookup cfg i task s)"
proof -
  have "r < length (ps_sessions s) \<and> us_key (ps_sessions s ! r) = task_key task" if "map_of (ps_tab s) (task_key task) = Some r" for r
    using map_of_SomeD [OF that] assms(1) by (auto simp: tab_inv_def)
  then show ?thesis
    by (auto simp: process_lookup_def ref_ok_def assms intro!: tab_inv_pc [OF assms(1,2)] split: option.splits)
qed

lemma nth_append_new: "r < length xs \<Longrightarrow> (xs @ [x]) ! r = xs ! r" "(xs @ [x]) ! length xs = x"
  by (simp_all add: nth_append)

lemma tab_inv_create:
  assumes "tab_inv cfg s" "i < length (ps_workers s)" "ps_workers s ! i = W_Create task"
  shows "tab_inv cfg (process_create cfg i task s)"
proof (cases "map_of (ps_tab s) (task_key task)")
  case (Some r)
  then have "r < length (ps_sessions s) \<and> us_key (ps_sessions s ! r) = task_key task" using map_of_SomeD [OF Some] assms(1) by (auto simp: tab_inv_def)
  then show ?thesis using Some by (auto simp: process_create_def ref_ok_def assms intro!: tab_inv_pc [OF assms(1,2)])
next
  case None
  let ?s = "process_create cfg i task s" and ?n = "length (ps_sessions s)"
  have f: "ps_tab ?s = (task_key task, ?n) # ps_tab s" "ps_sessions ?s = ps_sessions s @ [new_session cfg task]" "ps_drained ?s = ps_drained s"
    "ps_workers ?s = (ps_workers s)[i := W_Lock task ?n]" using None by (simp_all add: process_create_def)
  have ok: "ref_ok (ps_sessions ?s) pc" if "ref_ok (ps_sessions s) pc" for pc
    using that by (auto simp: ref_ok_def f(2) nth_append_new split: option.splits)
  have w: "wsum (holder r) ?s = wsum (holder r) s" for r using wsum_move [OF assms(2) f(4), of "holder r"] assms(3) by simp
  have old: "holder ?n pc = 0" if "pc \<in> set (ps_workers s)" for pc
  proof -
    have "ref_ok (ps_sessions s) pc" using assms(1) that by (auto simp: tab_inv_def)
    then show ?thesis by (cases pc) (auto simp: ref_ok_def)
  qed
  then have n: "wsum (holder ?n) s = 0" by (auto simp: wsum_def)
  have new: "us_key (new_session cfg task) = task_key task" "\<not> us_closed (new_session cfg task)" "\<not> us_locked (new_session cfg task)"
    by (simp_all add: new_session_def)
  have refs: "ref_ok (ps_sessions ?s) pc" if "pc \<in> set (ps_workers ?s)" for pc
  proof -
    have "pc = W_Lock task ?n \<or> pc \<in> set (ps_workers s)" using that set_update_subset_insert [of "ps_workers s" i] f(4) by auto
    then show ?thesis using ok assms(1) new by (auto simp: tab_inv_def ref_ok_def f(2) nth_append_new)
  qed
  have tab: "r < length (ps_sessions ?s) \<and> us_key (ps_sessions ?s ! r) = k \<and> \<not> us_closed (ps_sessions ?s ! r)" if "(k, r) \<in> set (ps_tab ?s)" for k r
    using that assms(1) new unfolding f tab_inv_def by (auto simp: nth_append_new)
  have all: "(\<not> us_closed (ps_sessions ?s ! r) \<longrightarrow> ps_drained ?s \<or> (us_key (ps_sessions ?s ! r), r) \<in> set (ps_tab ?s)) \<and>
      wsum (holder r) ?s = of_bool (us_locked (ps_sessions ?s ! r)) \<and> \<not> (us_locked (ps_sessions ?s ! r) \<and> us_closed (ps_sessions ?s ! r))"
    if "r < length (ps_sessions ?s)" for r
  proof (cases "r = ?n")
    case True
    then show ?thesis using new n w by (simp add: f nth_append_new)
  next
    case False
    then have "r < ?n" using that f(2) by simp
    then show ?thesis using assms(1) w by (auto simp: f nth_append_new tab_inv_def)
  qed
  have "distinct (map fst (ps_tab ?s))" using assms(1) None by (simp add: f tab_inv_def map_of_eq_None_iff)
  then show ?thesis unfolding tab_inv_def using refs tab all by blast
qed

lemma tab_inv_accept:
  assumes "tab_inv cfg s" "i < length (ps_workers s)" "ps_workers s ! i = W_Lock task r" "\<not> us_locked (ps_sessions s ! r)"
  shows "tab_inv cfg ((process_accept ask now i task r s)\<lparr>ps_now := now\<rparr>)"
proof (cases "us_closed (ps_sessions s ! r) \<or> ps_stopped s")
  case True
  have "tab_inv cfg (set_pc i (W_Done task) s)" by (rule tab_inv_pc [OF assms(1,2)]) (use assms(3) in \<open>auto simp: ref_ok_def\<close>)
  then have "tab_inv cfg ((set_pc i (W_Done task) s)\<lparr>ps_now := now\<rparr>)" by (rule tab_inv_frame) simp_all
  then show ?thesis using True by (simp add: process_accept_def)
next
  case False
  let ?s = "(process_accept ask now i task r s)\<lparr>ps_now := now\<rparr>"
  obtain ok g where a: "AcceptAuthenticated ask (tk_seq task) (tk_timestamp task) now (us_guard (ps_sessions s ! r)) = (ok, g)" by fastforce
  let ?pc = "if ok then W_Accepted task r else W_Done task"
  have f: "ps_workers ?s = (ps_workers s)[i := ?pc]" "ps_tab ?s = ps_tab s" "ps_drained ?s = ps_drained s"
    "ps_sessions ?s = (ps_sessions s)[r := (ps_sessions s ! r)\<lparr>us_guard := g, us_locked := ok\<rparr>]"
    using False a by (simp_all add: process_accept_def)
  have r: "r < length (ps_sessions s)" "us_key (ps_sessions s ! r) = task_key task" using worker_ref [OF assms(1,2)] assms(3) by simp_all
  show ?thesis
  proof (rule tab_inv_move [OF assms(1,2) f(1,2,3)])
    show "ref_ok (ps_sessions s) ?pc" using r by (simp add: ref_ok_def)
    show "us_key (ps_sessions ?s ! q) = us_key (ps_sessions s ! q) \<and> us_closed (ps_sessions ?s ! q) = us_closed (ps_sessions s ! q) \<and>
      of_bool (us_locked (ps_sessions ?s ! q)) + holder q (ps_workers s ! i) = of_bool (us_locked (ps_sessions s ! q)) + holder q ?pc \<and>
      \<not> (us_locked (ps_sessions ?s ! q) \<and> us_closed (ps_sessions s ! q))" if "q < length (ps_sessions s)" for q
      using that False assms(1,3,4) unfolding f(4) by (auto simp: nth_list_update tab_inv_def)
  qed (simp add: f(4))
qed

lemma tab_inv_now: "tab_inv cfg s \<Longrightarrow> tab_inv cfg (s\<lparr>ps_now := now\<rparr>)"
  by (erule tab_inv_frame) simp_all

text \<open>The outcome of a step on the target of a packet: where the worker goes, its session and the targets.\<close>

definition target_pc :: "bool \<Rightarrow> udp_task \<Rightarrow> nat \<Rightarrow> plain_udp \<Rightarrow> worker" where
  "target_pc resolved task r s =
     (let u = ps_sessions s ! r
      in if is_icmp task \<and> \<not> resolved then W_Done task
         else case map_of (us_targets u) (tk_targetAddr task) of
                Some t \<Rightarrow> if \<not> is_icmp task \<and> tg_icmp (ps_targets s ! t) then W_Panic task else W_Done task
              | None \<Rightarrow> if 32 \<le> us_targetCount u \<or> ReserveUDPTarget (us_identity u) (ps_budget s) = None then W_Done task
                        else W_Dial task r (us_identity u))"

definition is_dial :: "worker \<Rightarrow> bool" where
  "is_dial pc = (case pc of W_Dial task r identity \<Rightarrow> True | _ \<Rightarrow> False)"

lemma process_target_parts:
  fixes s resolved now i task r
  defines "s' \<equiv> process_target resolved now i task r s" and "pc \<equiv> target_pc resolved task r s"
  assumes "r < length (ps_sessions s)"
  shows "ps_workers s' = (ps_workers s)[i := pc]" "ps_tab s' = ps_tab s" "ps_drained s' = ps_drained s" "ps_count s' = ps_count s"
    "ps_targets s' = ps_targets s" "ps_log s' = ps_log s" "ps_foreign s' = ps_foreign s" "ps_stopped s' = ps_stopped s"
    "ps_sessions s' = (ps_sessions s)[r := (ps_sessions s ! r)\<lparr>us_clientAddr := Some (tk_clientAddr task), us_lastActive := now div second,
        us_locked := is_dial pc \<and> us_locked (ps_sessions s ! r)\<rparr>]"
    "ps_budget s' = (if is_dial pc then the (ReserveUDPTarget (us_identity (ps_sessions s ! r)) (ps_budget s)) else ps_budget s)"
  unfolding s'_def pc_def target_pc_def process_target_def unlock_def Let_def using assms(3)
  by (auto simp: is_dial_def split: option.splits)

definition dial_stores :: "bool \<Rightarrow> udp_task \<Rightarrow> nat \<Rightarrow> plain_udp \<Rightarrow> bool" where
  "dial_stores dialled task r s \<longleftrightarrow> dialled \<and> map_of (us_targets (ps_sessions s ! r)) (tk_targetAddr task) = None"

definition dial_pc :: "bool \<Rightarrow> udp_task \<Rightarrow> nat \<Rightarrow> plain_udp \<Rightarrow> worker" where
  "dial_pc dialled task r s =
     (case map_of (us_targets (ps_sessions s ! r)) (tk_targetAddr task) of
        Some t \<Rightarrow> if dialled \<and> tg_icmp (ps_targets s ! t) \<noteq> is_icmp task then W_Panic task else W_Done task
      | None \<Rightarrow> W_Done task)"

definition dial_session :: "bool \<Rightarrow> udp_task \<Rightarrow> nat \<Rightarrow> plain_udp \<Rightarrow> udp_session" where
  "dial_session dialled task r s =
     (let u = ps_sessions s ! r
      in if dial_stores dialled task r s
         then u\<lparr>us_targets := (tk_targetAddr task, length (ps_targets s)) # us_targets u, us_targetCount := us_targetCount u + 1, us_locked := False\<rparr>
         else u\<lparr>us_locked := False\<rparr>)"

definition dial_target :: "bool \<Rightarrow> udp_task \<Rightarrow> nat \<Rightarrow> bytes \<Rightarrow> udp_target" where
  "dial_target stored task r identity = \<lparr>tg_icmp = is_icmp task, tg_session = r, tg_address = tk_targetAddr task, tg_identity = identity,
     tg_closed = \<not> stored, tg_reading = stored\<rparr>"

lemma process_dial_parts:
  fixes s dialled i task r identity
  defines "s' \<equiv> process_dial dialled i task r identity s"
  shows "ps_workers s' = (ps_workers s)[i := dial_pc dialled task r s]" "ps_tab s' = ps_tab s" "ps_drained s' = ps_drained s"
    "ps_count s' = ps_count s" "ps_log s' = ps_log s" "ps_foreign s' = ps_foreign s" "ps_stopped s' = ps_stopped s" "ps_now s' = ps_now s"
    "ps_sessions s' = (ps_sessions s)[r := dial_session dialled task r s]"
    "ps_targets s' = (if dialled then ps_targets s @ [dial_target (dial_stores dialled task r s) task r identity] else ps_targets s)"
    "ps_budget s' = (if dial_stores dialled task r s then ps_budget s else releaseUDPTarget identity (ps_budget s))"
  unfolding s'_def process_dial_def Let_def dial_pc_def dial_session_def dial_stores_def dial_target_def unlock_def
  by (auto simp: close_target_def nth_append_new split: option.splits)

lemma tab_inv_target:
  assumes "tab_inv cfg s" "i < length (ps_workers s)" "ps_workers s ! i = W_Accepted task r"
  shows "tab_inv cfg ((process_target resolved now i task r s)\<lparr>ps_now := now\<rparr>)"
proof (rule tab_inv_now)
  let ?s = "process_target resolved now i task r s" and ?pc = "target_pc resolved task r s"
  have r: "r < length (ps_sessions s)" "us_key (ps_sessions s ! r) = task_key task" using worker_ref [OF assms(1,2)] assms(3) by simp_all
  note p = process_target_parts [OF r(1), of resolved now i task]
  show "tab_inv cfg ?s"
  proof (cases "is_dial ?pc")
    case True
    then obtain identity where "?pc = W_Dial task r identity" by (auto simp: target_pc_def is_dial_def Let_def split: if_splits option.splits)
    then show ?thesis
      by (intro tab_inv_move [OF assms(1,2) p(1-3)]) (use r assms(1,3) True in \<open>auto simp: p(9) ref_ok_def nth_list_update tab_inv_def\<close>)
  next
    case False
    then have "?pc = W_Done task \<or> ?pc = W_Panic task" by (auto simp: target_pc_def is_dial_def Let_def split: if_splits option.splits)
    then show ?thesis using False assms(3) by (intro tab_inv_release [OF assms(1,2) _ _ _ _ p(1-3) p(9)]) auto
  qed
qed

lemma tab_inv_dial:
  assumes "tab_inv cfg s" "i < length (ps_workers s)" "ps_workers s ! i = W_Dial task r identity"
  shows "tab_inv cfg (process_dial dialled i task r identity s)"
proof -
  note p = process_dial_parts [of dialled i task r identity s]
  have "dial_pc dialled task r s = W_Done task \<or> dial_pc dialled task r s = W_Panic task" by (auto simp: dial_pc_def split: option.splits)
  then show ?thesis using assms(3) by (intro tab_inv_release [OF assms(1,2) _ _ _ _ p(1-3) p(9)]) (auto simp: dial_session_def Let_def)
qed

subsection \<open>Closing targets\<close>

lemma close_update: "close_target t (update_session r f s) = update_session r f (close_target t s)"
  by (simp add: close_target_def update_session_def)

lemma fold_close_update: "fold close_target ts (update_session r f s) = update_session r f (fold close_target ts s)"
  by (induction ts arbitrary: s) (simp_all add: close_update)

lemma close_target_nth:
  assumes "t < length (ps_targets s)"
  shows "ps_targets (close_target u s) ! t = (ps_targets s ! t)\<lparr>tg_closed := tg_closed (ps_targets s ! t) \<or> t = u\<rparr>"
  using assms by (cases "u = t") (auto simp: close_target_def nth_list_update)

lemma fold_close_nth:
  assumes "t < length (ps_targets s)"
  shows "ps_targets (fold close_target ts s) ! t = (ps_targets s ! t)\<lparr>tg_closed := tg_closed (ps_targets s ! t) \<or> t \<in> set ts\<rparr>"
  using assms by (induction ts arbitrary: s) (auto simp: close_target_nth)

text \<open>What the cleaner does to an idle session that is not locked.\<close>

definition cleaned :: "session_key \<Rightarrow> nat \<Rightarrow> plain_udp \<Rightarrow> plain_udp" where
  "cleaned key r s = (update_session r (\<lambda>u. u\<lparr>us_closed := True, us_targets := []\<rparr>) (fold close_target (map snd (us_targets (ps_sessions s ! r))) s))\<lparr>
     ps_tab := AList.delete key (ps_tab s), ps_count := ps_count s - 1\<rparr>"

lemma cleaner_cases:
  assumes "tab_inv cfg s"
  obtains (same) "cleaner_visit seconds key s = s"
    | (cleaned) r where "map_of (ps_tab s) key = Some r" "60 < seconds - us_lastActive (ps_sessions s ! r)" "\<not> us_locked (ps_sessions s ! r)"
      "cleaner_visit seconds key s = cleaned key r s"
proof (cases "map_of (ps_tab s) key")
  case None
  then show ?thesis using same by (simp add: cleaner_visit_def)
next
  case (Some r)
  then have r: "r < length (ps_sessions s)" using map_of_SomeD [OF Some] assms by (auto simp: tab_inv_def)
  show ?thesis
  proof (cases "seconds - us_lastActive (ps_sessions s ! r) \<le> 60 \<or> us_locked (ps_sessions s ! r)")
    case True
    then show ?thesis using same Some by (simp add: cleaner_visit_def)
  next
    case False
    have "cleaner_visit seconds key s = cleaned key r s"
      using Some False r by (simp add: cleaner_visit_def cleaned_def Let_def fold_close_update)
    then show ?thesis using cleaned Some False by simp
  qed
qed

lemma map_of_inj_ref:
  assumes "tab_inv cfg s" "map_of (ps_tab s) key = Some r"
  shows "r < length (ps_sessions s)" "us_key (ps_sessions s ! r) = key" "\<not> us_closed (ps_sessions s ! r)"
  using map_of_SomeD [OF assms(2)] assms(1) by (auto simp: tab_inv_def)

lemma tab_inv_clean:
  assumes "tab_inv cfg s" "map_of (ps_tab s) key = Some r" "\<not> us_locked (ps_sessions s ! r)"
  shows "tab_inv cfg (cleaned key r s)"
proof -
  let ?s = "cleaned key r s"
  note r = map_of_inj_ref [OF assms(1,2)]
  have f: "ps_tab ?s = AList.delete key (ps_tab s)" "ps_workers ?s = ps_workers s" "ps_drained ?s = ps_drained s"
    "ps_sessions ?s = (ps_sessions s)[r := (ps_sessions s ! r)\<lparr>us_closed := True, us_targets := []\<rparr>]" by (simp_all add: cleaned_def)
  have ref: "ref_ok (ps_sessions ?s) pc = ref_ok (ps_sessions s) pc" for pc
    unfolding f(4) using r(1) by (auto simp: ref_ok_def nth_list_update split: option.splits)
  have w: "wsum (holder q) ?s = wsum (holder q) s" for q by (rule wsum_same [OF f(2)])
  have d: "set (ps_tab ?s) = {(k, q) \<in> set (ps_tab s). k \<noteq> key}" unfolding f(1) by (auto simp: AList.delete_eq)
  have "distinct (map fst (ps_tab ?s))" using assms(1) unfolding f(1) by (simp add: tab_inv_def distinct_delete)
  moreover have "\<forall>(k, q) \<in> set (ps_tab ?s). q < length (ps_sessions ?s) \<and> us_key (ps_sessions ?s ! q) = k \<and> \<not> us_closed (ps_sessions ?s ! q)"
    using assms(1) r unfolding d f(4) by (auto simp: tab_inv_def nth_list_update)
  moreover have "\<forall>q < length (ps_sessions ?s). \<not> us_closed (ps_sessions ?s ! q) \<longrightarrow> ps_drained ?s \<or> (us_key (ps_sessions ?s ! q), q) \<in> set (ps_tab ?s)"
  proof (intro allI impI)
    fix q assume q: "q < length (ps_sessions ?s)" "\<not> us_closed (ps_sessions ?s ! q)"
    then have n: "q \<noteq> r" "q < length (ps_sessions s)" using r(1) by (auto simp: f(4))
    then have "ps_drained s \<or> (us_key (ps_sessions s ! q), q) \<in> set (ps_tab s)" using assms(1) q by (auto simp: f(4) tab_inv_def)
    moreover have "us_key (ps_sessions s ! q) \<noteq> key" if "(us_key (ps_sessions s ! q), q) \<in> set (ps_tab s)"
    proof
      assume "us_key (ps_sessions s ! q) = key"
      then have "map_of (ps_tab s) key = Some q" using that assms(1) by (simp add: tab_inv_def)
      then show False using assms(2) n(1) by simp
    qed
    ultimately show "ps_drained ?s \<or> (us_key (ps_sessions ?s ! q), q) \<in> set (ps_tab ?s)" using n unfolding d by (auto simp: f(3,4))
  qed
  moreover have "\<forall>q < length (ps_sessions ?s). wsum (holder q) ?s = of_bool (us_locked (ps_sessions ?s ! q)) \<and> \<not> (us_locked (ps_sessions ?s ! q) \<and> us_closed (ps_sessions ?s ! q))"
    using assms(1,3) r unfolding w f(4) by (auto simp: tab_inv_def nth_list_update)
  ultimately show ?thesis using assms(1) unfolding tab_inv_def ref f(2) by blast
qed

lemma upstream_error_parts:
  fixes s t
  defines "s' \<equiv> upstream_error t s" and "r \<equiv> tg_session (ps_targets s ! t)"
  shows "ps_workers s' = ps_workers s" "ps_tab s' = ps_tab s" "ps_drained s' = ps_drained s" "ps_count s' = ps_count s" "ps_log s' = ps_log s"
    "ps_foreign s' = ps_foreign s" "ps_stopped s' = ps_stopped s" "ps_now s' = ps_now s"
    "ps_sessions s' = (if map_of (us_targets (ps_sessions s ! r)) (tg_address (ps_targets s ! t)) = None then ps_sessions s
       else (ps_sessions s)[r := (ps_sessions s ! r)\<lparr>us_targets := AList.delete (tg_address (ps_targets s ! t)) (us_targets (ps_sessions s ! r)),
         us_targetCount := us_targetCount (ps_sessions s ! r) - 1\<rparr>])"
    "ps_targets s' = ps_targets (end_reading t (close_target t s))" "ps_budget s' = ps_budget (close_target t s)"
  unfolding s'_def r_def upstream_error_def Let_def by (simp_all add: close_update) (simp_all add: end_reading_def)

lemma tab_inv_session:
  assumes "tab_inv cfg s" "ps_workers s' = ps_workers s" "ps_tab s' = ps_tab s" "ps_drained s' = ps_drained s"
    and "ps_sessions s' = (ps_sessions s)[r := u]" "us_key u = us_key (ps_sessions s ! r)" "us_closed u = us_closed (ps_sessions s ! r)" "us_locked u = us_locked (ps_sessions s ! r)"
  shows "tab_inv cfg s'"
proof (rule tab_inv_frame [OF assms(1-4)])
  show "us_key (ps_sessions s' ! q) = us_key (ps_sessions s ! q) \<and> us_closed (ps_sessions s' ! q) = us_closed (ps_sessions s ! q) \<and>
      us_locked (ps_sessions s' ! q) = us_locked (ps_sessions s ! q)" if "q < length (ps_sessions s)" for q
    using that assms(5-8) by (cases "q = r") simp_all
qed (simp add: assms(5))

lemma plain_udp_tab:
  assumes "plain_udp_run cr cfg P now0 s"
  shows "tab_inv cfg s"
  using assms
proof (induction rule: plain_udp_run.induct)
  case (p_start b M)
  show ?case by (simp add: tab_inv_def plain_udp_start_def wsum_def ref_ok_def)
next
  case (p_receive s addr packet now)
  then show ?case by - (rule tab_inv_frame [of cfg s], simp_all)
next
  case (p_take s i)
  have "tab_inv cfg (s\<lparr>ps_queues := (ps_queues s)[i := tl (ps_queues s ! i)]\<rparr>)" using p_take by - (rule tab_inv_frame [of cfg s], simp_all)
  then show ?case unfolding worker_take_def Let_def using p_take by (intro tab_inv_pc) (auto simp: ref_ok_def)
next
  case (p_done s i task)
  have "tab_inv cfg (s\<lparr>ps_mem := ps_mem s - tk_memoryCost task\<rparr>)" using p_done by - (rule tab_inv_frame [of cfg s], simp_all)
  then show ?case unfolding worker_done_def using p_done by (intro tab_inv_pc) (auto simp: ref_ok_def)
next
  case (p_lookup s i task)
  then show ?case by (intro tab_inv_lookup)
next
  case (p_create s i task)
  then show ?case by (intro tab_inv_create)
next
  case (p_accept s i task r now ask)
  then show ?case by (intro tab_inv_accept)
next
  case (p_target s i task r now resolved)
  then show ?case by (intro tab_inv_target)
next
  case (p_dial s i task r identity dialled)
  then show ?case by (intro tab_inv_dial)
next
  case (p_upstream s t now)
  then show ?case unfolding upstream_packet_def by - (rule tab_inv_now, rule tab_inv_session [OF _ _ _ _ update_frame(13)], simp_all)
next
  case (p_error s t)
  note p = upstream_error_parts [of t s]
  show ?case
  proof (cases "map_of (us_targets (ps_sessions s ! tg_session (ps_targets s ! t))) (tg_address (ps_targets s ! t)) = None")
    case True
    then show ?thesis using p_error by - (rule tab_inv_frame [OF _ p(1-3)], simp_all add: p(9))
  next
    case False
    note q = p(9) [unfolded if_not_P [OF False]]
    show ?thesis by (rule tab_inv_session [OF _ p(1-3) q]) (use p_error in simp_all)
  qed
next
  case (p_end s t)
  then show ?case unfolding upstream_stop_def by - (rule tab_inv_frame [of cfg s], simp_all)
next
  case (p_clean s seconds key)
  show ?case
    using cleaner_cases [OF p_clean.IH, of seconds key] p_clean.IH tab_inv_clean by metis
next
  case (p_drain s)
  have "ps_workers (closeSessions s) = ps_workers s" "ps_sessions (closeSessions s) = ps_sessions s" by (simp_all add: closeSessions_fold)
  then show ?case using p_drain.IH by (simp add: tab_inv_def wsum_def closeSessions_fold)
qed (rule tab_inv_frame, assumption, simp, simp, simp, simp, simp)+

lemma creating_sum: "wsum creating s \<le> int (length (ps_workers s))" "0 \<le> wsum creating s"
proof -
  have "sum_list (map creating ws) \<le> int (length ws) \<and> 0 \<le> sum_list (map creating ws)" for ws
    by (induction ws) (auto simp: creating_def split: worker.splits)
  then show "wsum creating s \<le> int (length (ps_workers s))" "0 \<le> wsum creating s" by (simp_all add: wsum_def)
qed

lemma length_delete_found: "distinct (map fst xs) \<Longrightarrow> map_of xs k = Some v \<Longrightarrow> length (AList.delete k xs) + 1 = length xs"
proof (induction xs)
  case (Cons x xs)
  then show ?case by (cases "fst x = k") (auto simp: AList.delete_eq filter_id_conv rev_image_eqI dest: map_of_SomeD intro!: arg_cong [of _ _ length])
qed simp

text \<open>Moves of a worker that do not start a session.\<close>

lemma count_inv_move:
  assumes "count_inv cfg s" "i < length (ps_workers s)" "ps_workers s' = (ps_workers s)[i := pc]" "ps_tab s' = ps_tab s" "ps_count s' = ps_count s" "ps_drained s' = ps_drained s"
    and "creating pc \<le> creating (ps_workers s ! i)"
  shows "count_inv cfg s'"
  using assms(1,4-7) wsum_move [OF assms(2,3), of creating] by (auto simp: count_inv_def assms(3))

lemma count_inv_same:
  assumes "count_inv cfg s" "ps_workers s' = ps_workers s" "ps_tab s' = ps_tab s" "ps_count s' = ps_count s" "ps_drained s' = ps_drained s"
  shows "count_inv cfg s'"
  using assms wsum_same [OF assms(2), of creating] by (simp add: count_inv_def)

lemma plain_udp_count:
  assumes "plain_udp_run cr cfg P now0 s" "0 < cf_workers cfg"
  shows "length (ps_workers s) = cf_workers cfg \<and> count_inv cfg s"
  using assms(1)
proof (induction rule: plain_udp_run.induct)
  case (p_start b M)
  show ?case using assms(2) by (simp add: count_inv_def plain_udp_start_def wsum_def creating_def map_replicate_const sum_list_replicate)
next
  case (p_take s i)
  then show ?case using count_inv_move [of cfg s i "worker_take i s"] by (auto simp: creating_def)
next
  case (p_done s i task)
  then show ?case using count_inv_move [of cfg s i "worker_done i task s" W_Idle] by (auto simp: creating_def)
next
  case (p_lookup s i task)
  then have w: "i < length (ps_workers s)" "count_inv cfg s" "ps_workers s ! i = W_Lookup task" by simp_all
  let ?s = "process_lookup cfg i task s"
  show ?case
  proof (cases "tk_userIndex task < length (cf_codecs cfg) \<and> map_of (ps_tab s) (task_key task) = None \<and> \<not> (0 < cf_maxSessions cfg \<and> cf_maxSessions cfg \<le> ps_count s)")
    case True
    then have s: "?s = set_pc i (W_Create task) s" by (auto simp: process_lookup_def)
    have "wsum creating ?s = wsum creating s + 1" using wsum_move [OF w(1), of ?s "W_Create task" creating] w(3) s by (simp add: creating_def)
    then show ?thesis using True w(2) creating_sum(1) [of ?s] p_lookup.IH s by (auto simp: count_inv_def)
  next
    case False
    let ?pc = "case map_of (ps_tab s) (task_key task) of Some r \<Rightarrow> if length (cf_codecs cfg) \<le> tk_userIndex task then W_Done task else W_Lock task r | None \<Rightarrow> W_Done task"
    have "?s = set_pc i ?pc s" "creating ?pc = 0" using False by (auto simp: process_lookup_def creating_def split: option.splits)
    then show ?thesis using count_inv_move [OF w(2,1), of ?s ?pc] w(3) p_lookup.IH by (simp add: creating_def)
  qed
next
  case (p_create s i task)
  then have w: "i < length (ps_workers s)" "count_inv cfg s" "ps_workers s ! i = W_Create task" by simp_all
  let ?s = "process_create cfg i task s"
  obtain r where s: "ps_workers ?s = (ps_workers s)[i := W_Lock task r]" "ps_drained ?s = ps_drained s" by (cases "map_of (ps_tab s) (task_key task)") (auto simp: process_create_def)
  have "wsum creating ?s + 1 = wsum creating s" using wsum_move [OF w(1) s(1), of creating] w(3) by (simp add: creating_def)
  then show ?case using w(2) p_create.IH s unfolding count_inv_def by (cases "map_of (ps_tab s) (task_key task)") (auto simp: process_create_def)
next
  case (p_accept s i task r now ask)
  let ?s = "(process_accept ask now i task r s)\<lparr>ps_now := now\<rparr>"
  obtain pc where s: "ps_workers ?s = (ps_workers s)[i := pc]" "creating pc = 0" "ps_tab ?s = ps_tab s" "ps_count ?s = ps_count s" "ps_drained ?s = ps_drained s"
    by (cases "us_closed (ps_sessions s ! r) \<or> ps_stopped s";
        cases "AcceptAuthenticated ask (tk_seq task) (tk_timestamp task) now (us_guard (ps_sessions s ! r))") (auto simp: process_accept_def creating_def)
  show ?case using count_inv_move [OF _ p_accept.hyps(2) s(1,3-5)] p_accept s(1,2) by (simp add: creating_def)
next
  case (p_target s i task r now resolved)
  have "r < length (ps_sessions s)" using worker_ref(1) [OF plain_udp_tab [OF p_target.hyps(1)] p_target.hyps(2)] p_target.hyps(3) by simp
  note p = process_target_parts [OF this, of resolved now i task]
  have "creating (target_pc resolved task r s) = 0" by (auto simp: target_pc_def creating_def Let_def split: option.splits)
  then show ?case using count_inv_move [of cfg s i "(process_target resolved now i task r s)\<lparr>ps_now := now\<rparr>" "target_pc resolved task r s"] p_target p
    by (simp add: creating_def)
next
  case (p_dial s i task r identity dialled)
  note p = process_dial_parts [of dialled i task r identity s]
  have "creating (dial_pc dialled task r s) = 0" by (auto simp: dial_pc_def creating_def split: option.splits)
  then show ?case using count_inv_move [OF _ p_dial.hyps(2) p(1,2,4,3)] p_dial p by (simp add: creating_def)
next
  case (p_error s t)
  then show ?case using count_inv_same [of cfg s "upstream_error t s"] upstream_error_parts [of t s] by simp
next
  case (p_clean s seconds key)
  note i = plain_udp_tab [OF p_clean.hyps(1)]
  show ?case
    using i
  proof (cases rule: cleaner_cases [of _ _ seconds key])
    case (cleaned r)
    have l: "length (AList.delete key (ps_tab s)) + 1 = length (ps_tab s)"
      using cleaned(1) i by (intro length_delete_found) (simp_all add: tab_inv_def)
    have "wsum creating (cleaned key r s) = wsum creating s" by (rule wsum_same) (simp add: cleaned_def)
    then show ?thesis using p_clean.IH l unfolding cleaned(4) count_inv_def by (auto simp: cleaned_def)
  qed (use p_clean.IH in simp)
next
  case (p_drain s)
  then show ?case by (simp add: count_inv_def closeSessions_fold)
qed (elim conjE, rule conjI, simp, rule count_inv_same, assumption, simp, simp, simp, simp)+

end
