(* ===== verification/PlainUdpTargets.thy ===== *)
theory PlainUdpTargets
  imports PlainUdpInv
begin

text \<open>
  The target sockets of the native UDP server: leases of the process-wide budget, types of targets, and limits per session,
  over all interleavings.
\<close>

subsection \<open>Targets and leases\<close>

fun dialer :: "nat \<Rightarrow> worker \<Rightarrow> nat" where
  "dialer r (W_Dial task r' identity) = of_bool (r' = r)"
| "dialer r _ = 0"

fun pc_lease :: "worker \<Rightarrow> bytes multiset" where
  "pc_lease (W_Dial task r identity) = {#identity#}"
| "pc_lease _ = {#}"

definition target_lease :: "udp_target \<Rightarrow> bytes multiset" where
  "target_lease t = (if tg_closed t then {#} else {#tg_identity t#})"

text \<open>All leases that are out: of other transports, of open targets, and of workers that are dialling.\<close>

definition leases :: "plain_udp \<Rightarrow> bytes multiset" where
  "leases s = ps_foreign s + sum_list (map target_lease (ps_targets s)) + wsum pc_lease s"

definition icmp_address :: "bytes \<Rightarrow> bool" where
  "icmp_address a \<longleftrightarrow> prefix (lit ''icmp:'') a"

text \<open>
  An open target is read by its reader and belongs to an open session; the entry of a target that is read is that target; an entry has the type its
  address says; an open session has as many entries as it counts, and room for the one that is being dialled.
\<close>

definition target_ok :: "udp_session list \<Rightarrow> nat \<Rightarrow> udp_target \<Rightarrow> bool" where
  "target_ok ss t x \<longleftrightarrow> tg_session x < length ss \<and> tg_icmp x = icmp_address (tg_address x) \<and>
     (\<not> tg_closed x \<longrightarrow> tg_reading x \<and> \<not> us_closed (ss ! tg_session x)) \<and>
     (tg_reading x \<longrightarrow> us_closed (ss ! tg_session x) \<or> map_of (us_targets (ss ! tg_session x)) (tg_address x) = Some t)"

definition session_targets_ok :: "plain_udp \<Rightarrow> nat \<Rightarrow> udp_session \<Rightarrow> bool" where
  "session_targets_ok s r u \<longleftrightarrow> distinct (map fst (us_targets u)) \<and>
     (\<forall>(a, t) \<in> set (us_targets u). t < length (ps_targets s) \<and> tg_session (ps_targets s ! t) = r \<and> tg_address (ps_targets s ! t) = a) \<and>
     (if us_closed u then us_targets u = [] else us_targetCount u = int (length (us_targets u)) \<and> length (us_targets u) + wsum (dialer r) s \<le> 32)"

definition target_inv :: "plain_udp \<Rightarrow> bool" where
  "target_inv s \<longleftrightarrow> (\<forall>t < length (ps_targets s). target_ok (ps_sessions s) t (ps_targets s ! t)) \<and>
     (\<forall>r < length (ps_sessions s). session_targets_ok s r (ps_sessions s ! r)) \<and>
     (\<forall>pc \<in> set (ps_workers s). \<forall>task. pc \<noteq> W_Panic task) \<and> budget_ok (ps_budget s) (leases s)"

lemma session_targets_ok_frame:
  assumes "session_targets_ok s r u" "length (ps_targets s) \<le> length (ps_targets s')" "wsum (dialer r) s' = wsum (dialer r) s"
    and "\<And>t. t < length (ps_targets s) \<Longrightarrow> tg_session (ps_targets s' ! t) = tg_session (ps_targets s ! t) \<and> tg_address (ps_targets s' ! t) = tg_address (ps_targets s ! t)"
  shows "session_targets_ok s' r u"
proof -
  have "t < length (ps_targets s') \<and> tg_session (ps_targets s' ! t) = r \<and> tg_address (ps_targets s' ! t) = a" if "(a, t) \<in> set (us_targets u)" for a t
  proof -
    have "t < length (ps_targets s)" "tg_session (ps_targets s ! t) = r" "tg_address (ps_targets s ! t) = a"
      using assms(1) that by (auto simp: session_targets_ok_def)
    then show ?thesis using assms(2,4) by auto
  qed
  then show ?thesis using assms(1,3) by (auto simp: session_targets_ok_def)
qed

lemma target_ok_update:
  assumes "us_closed u = us_closed (ss ! r)" "us_targets u = us_targets (ss ! r)"
  shows "target_ok (ss[r := u]) t x = target_ok ss t x"
  using assms by (cases "tg_session x = r"; cases "r < length ss") (auto simp: target_ok_def)

lemma dialer_sum:
  assumes "tab_inv cfg s" "i < length (ps_workers s)" "r < length (ps_sessions s)" "ps_workers s ! i = W_Accepted task r"
  shows "wsum (dialer r) s = 0"
proof -
  have le: "dialer r pc \<le> holder r pc" for pc by (cases pc) auto
  have "sum_list (map (dialer r) ws) + 1 \<le> sum_list (map (holder r) ws)" if "j < length ws" "ws ! j = W_Accepted task r" for j ws
    using that
  proof (induction ws arbitrary: j)
    case (Cons w ws)
    show ?case
    proof (cases j)
      case 0
      have "sum_list (map (dialer r) ws) \<le> sum_list (map (holder r) ws)" using le by (intro sum_list_mono)
      then show ?thesis using Cons.prems 0 by simp
    next
      case (Suc k)
      then show ?thesis using Cons le [of w] by (force intro: add_mono)
    qed
  qed simp
  then have "wsum (dialer r) s + 1 \<le> wsum (holder r) s" using assms(2,4) unfolding wsum_def by blast
  then show ?thesis using assms(1,3) by (cases "us_locked (ps_sessions s ! r)") (simp_all add: tab_inv_def)
qed

text \<open>Steps that neither touch targets nor leases.\<close>

lemma target_inv_quiet:
  assumes "target_inv s" "ps_targets s' = ps_targets s" "ps_budget s' = ps_budget s" "ps_foreign s' = ps_foreign s" "length (ps_sessions s') = length (ps_sessions s)"
    and "\<And>r. r < length (ps_sessions s) \<Longrightarrow> us_closed (ps_sessions s' ! r) = us_closed (ps_sessions s ! r) \<and> us_targets (ps_sessions s' ! r) = us_targets (ps_sessions s ! r) \<and>
      us_targetCount (ps_sessions s' ! r) = us_targetCount (ps_sessions s ! r)"
    and "\<And>r. wsum (dialer r) s' = wsum (dialer r) s" "wsum pc_lease s' = wsum pc_lease s" "\<forall>pc \<in> set (ps_workers s'). \<forall>task. pc \<noteq> W_Panic task"
  shows "target_inv s'"
proof -
  have "target_ok (ps_sessions s') t x = target_ok (ps_sessions s) t x" for t x using assms(5,6) by (auto simp: target_ok_def)
  moreover have "session_targets_ok s' r (ps_sessions s' ! r) = session_targets_ok s r (ps_sessions s ! r)" if "r < length (ps_sessions s)" for r
    using assms(2,6,7) that by (simp add: session_targets_ok_def)
  ultimately show ?thesis using assms by (simp add: target_inv_def leases_def)
qed

lemma leases_close:
  assumes "t < length (ps_targets s)" "\<not> tg_closed (ps_targets s ! t)"
  shows "leases s = add_mset (tg_identity (ps_targets s ! t)) (leases (close_target t s))"
proof -
  let ?x = "ps_targets s ! t"
  have "sum_list ((map target_lease (ps_targets s))[t := {#}]) + target_lease ?x = sum_list (map target_lease (ps_targets s)) + {#}"
    using sum_list_upd [of t "map target_lease (ps_targets s)" "{#}"] assms(1) by simp
  moreover have "map target_lease (ps_targets (close_target t s)) = (map target_lease (ps_targets s))[t := {#}]"
    using assms by (simp add: close_target_def map_update target_lease_def)
  moreover have "wsum pc_lease (close_target t s) = wsum pc_lease s" by (rule wsum_same) simp
  ultimately show ?thesis using assms(2) by (simp add: leases_def target_lease_def)
qed

lemma target_inv_close:
  assumes "target_inv s" "t < length (ps_targets s)"
  shows "target_inv (close_target t s)"
proof -
  let ?s = "close_target t s"
  have w: "wsum f ?s = wsum f s" for f :: "worker \<Rightarrow> nat" by (rule wsum_same) simp
  have "budget_ok (ps_budget ?s) (leases ?s)"
  proof (cases "tg_closed (ps_targets s ! t)")
    case True
    then show ?thesis using assms(1) by (simp add: close_target_def target_inv_def)
  next
    case False
    have "budget_ok (releaseUDPTarget (tg_identity (ps_targets s ! t)) (ps_budget s)) (leases ?s)"
      by (rule udp_targets.release_added) (use assms(1) leases_close [OF assms(2) False] in \<open>simp add: target_inv_def\<close>)
    then show ?thesis using False by (simp add: close_target_def)
  qed
  moreover have "target_ok (ps_sessions ?s) u (ps_targets ?s ! u)" if "u < length (ps_targets s)" for u
    using assms(1) that unfolding close_target_nth [OF that] by (auto simp: target_inv_def target_ok_def)
  moreover have "session_targets_ok ?s r (ps_sessions s ! r)" if "r < length (ps_sessions s)" for r
    by (rule session_targets_ok_frame [of s]) (use assms(1) that w in \<open>simp_all add: target_inv_def close_target_nth\<close>)
  ultimately show ?thesis using assms(1) by (simp add: target_inv_def)
qed

lemma target_inv_fold_close:
  "target_inv s \<Longrightarrow> (\<forall>t \<in> set ts. t < length (ps_targets s)) \<Longrightarrow> target_inv (fold close_target ts s)"
  by (induction ts arbitrary: s) (simp_all add: target_inv_close)

lemma target_inv_end:
  assumes "target_inv s" "t < length (ps_targets s)" "tg_closed (ps_targets s ! t)"
  shows "target_inv (end_reading t s)"
proof -
  let ?s = "end_reading t s"
  have w: "wsum f ?s = wsum f s" for f :: "worker \<Rightarrow> 'a :: comm_monoid_add" by (rule wsum_same) simp
  have n: "ps_targets ?s ! u = (if u = t then (ps_targets s ! t)\<lparr>tg_reading := False\<rparr> else ps_targets s ! u)" if "u < length (ps_targets s)" for u
    using that by (simp add: end_reading_def nth_list_update)
  have l: "length (ps_targets ?s) = length (ps_targets s)" by (simp add: end_reading_def)
  have "map target_lease (ps_targets ?s) = map target_lease (ps_targets s)"
    using assms(2) n l by (intro nth_equalityI) (auto simp: target_lease_def)
  then have "leases ?s = leases s" using wsum_same [of ?s s pc_lease] by (simp add: leases_def)
  moreover have "target_ok (ps_sessions s) u (ps_targets ?s ! u)" if "u < length (ps_targets s)" for u
    using assms that n [OF that] by (auto simp: target_inv_def target_ok_def)
  moreover have "session_targets_ok ?s r (ps_sessions s ! r)" if "r < length (ps_sessions s)" for r
    by (rule session_targets_ok_frame [of s]) (use assms(1) that w [of "dialer r"] n l in \<open>simp_all add: target_inv_def\<close>)
  ultimately show ?thesis using assms(1) l by (simp add: target_inv_def)
qed

text \<open>Removing the entry of an address that no reader uses.\<close>

lemma target_inv_forget:
  assumes "target_inv s" "r < length (ps_sessions s)" "\<forall>u < length (ps_targets s). tg_session (ps_targets s ! u) = r \<longrightarrow> tg_address (ps_targets s ! u) = a \<longrightarrow> \<not> tg_reading (ps_targets s ! u)"
    and "map_of (us_targets (ps_sessions s ! r)) a \<noteq> None"
  shows "target_inv (update_session r (\<lambda>u. u\<lparr>us_targets := AList.delete a (us_targets u), us_targetCount := us_targetCount u - 1\<rparr>) s)" (is "target_inv ?s")
proof -
  have w: "wsum f ?s = wsum f s" for f :: "worker \<Rightarrow> 'a :: comm_monoid_add" by (rule wsum_same) simp
  have "leases ?s = leases s" using wsum_same [of ?s s pc_lease] by (simp add: leases_def)
  moreover have "target_ok (ps_sessions ?s) t (ps_targets s ! t)" if "t < length (ps_targets s)" for t
    using assms that by (cases "tg_session (ps_targets s ! t) = r") (auto simp: target_inv_def target_ok_def delete_conv')
  moreover have "session_targets_ok ?s q (ps_sessions ?s ! q)" if "q < length (ps_sessions s)" for q
  proof (cases "q = r")
    case True
    obtain t where "map_of (us_targets (ps_sessions s ! r)) a = Some t" using assms(4) by blast
    moreover have d: "distinct (map fst (us_targets (ps_sessions s ! r)))" using assms(1,2) by (simp add: target_inv_def session_targets_ok_def)
    ultimately have "length (AList.delete a (us_targets (ps_sessions s ! r))) + 1 = length (us_targets (ps_sessions s ! r))" by (intro length_delete_found)
    then show ?thesis using assms(1,2) True d w [of "dialer r"] by (auto simp: target_inv_def session_targets_ok_def AList.delete_eq distinct_map_filter)
  next
    case False
    show ?thesis by (rule session_targets_ok_frame [of s]) (use False assms(1) that w [of "dialer q"] in \<open>simp_all add: target_inv_def\<close>)
  qed
  ultimately show ?thesis using assms(1) by (simp add: target_inv_def)
qed

subsection \<open>The steps\<close>

lemma ball_list_update: "\<forall>x \<in> set xs. Q x \<Longrightarrow> Q y \<Longrightarrow> \<forall>x \<in> set (xs[i := y]). Q x"
  using set_update_subset_insert [of xs i y] by auto

lemma quiet_moves:
  assumes "i < length (ps_workers s)" "ps_workers s' = (ps_workers s)[i := pc]" "pc_lease pc = pc_lease (ps_workers s ! i)" "\<And>r. dialer r pc = dialer r (ps_workers s ! i)"
    and "\<forall>pc \<in> set (ps_workers s). \<forall>task. pc \<noteq> W_Panic task" "\<forall>task. pc \<noteq> W_Panic task"
  shows "wsum (dialer r) s' = wsum (dialer r) s" "wsum pc_lease s' = wsum pc_lease s" "\<forall>pc \<in> set (ps_workers s'). \<forall>task. pc \<noteq> W_Panic task"
proof -
  show "wsum (dialer r) s' = wsum (dialer r) s" using wsum_move [OF assms(1,2), of "dialer r"] assms(4) by simp
  show "wsum pc_lease s' = wsum pc_lease s" using wsum_move [OF assms(1,2), of pc_lease] assms(3) by simp
  show "\<forall>pc \<in> set (ps_workers s'). \<forall>task. pc \<noteq> W_Panic task" unfolding assms(2) by (rule ball_list_update [OF assms(5,6)])
qed

lemma target_typed:
  assumes "target_inv s" "r < length (ps_sessions s)" "map_of (us_targets (ps_sessions s ! r)) a = Some t"
  shows "t < length (ps_targets s)" "tg_session (ps_targets s ! t) = r" "tg_address (ps_targets s ! t) = a" "tg_icmp (ps_targets s ! t) = icmp_address a"
proof -
  have "(a, t) \<in> set (us_targets (ps_sessions s ! r))" using assms(3) by (rule map_of_SomeD)
  moreover have "session_targets_ok s r (ps_sessions s ! r)" using assms(1,2) by (simp add: target_inv_def)
  ultimately show t: "t < length (ps_targets s)" "tg_session (ps_targets s ! t) = r" "tg_address (ps_targets s ! t) = a"
    by (auto simp: session_targets_ok_def)
  then show "tg_icmp (ps_targets s ! t) = icmp_address a" using assms(1) by (auto simp: target_inv_def target_ok_def)
qed

lemma target_inv_target:
  assumes "target_inv s" "tab_inv cfg s" "i < length (ps_workers s)" "ps_workers s ! i = W_Accepted task r"
  shows "target_inv (process_target resolved now i task r s)" (is "target_inv ?s")
proof -
  let ?pc = "target_pc resolved task r s" and ?u = "ps_sessions s ! r"
  have r: "r < length (ps_sessions s)" using worker_ref(1) [OF assms(2,3)] assms(4) by simp
  note p = process_target_parts [OF r, of resolved now i task]
  have np: "\<forall>pc \<in> set (ps_workers s). \<forall>task. pc \<noteq> W_Panic task" using assms(1) by (simp add: target_inv_def)
  have nopanic: "\<forall>task'. ?pc \<noteq> W_Panic task'"
    using target_typed(4) [OF assms(1) r, of "tk_targetAddr task"] by (auto simp: target_pc_def Let_def is_icmp_def icmp_address_def split: option.splits)
  have np': "\<forall>pc \<in> set (ps_workers ?s). \<forall>task. pc \<noteq> W_Panic task"
    unfolding p(1) by (rule ball_list_update [OF np nopanic])
  have same: "us_closed (ps_sessions ?s ! q) = us_closed (ps_sessions s ! q) \<and> us_targets (ps_sessions ?s ! q) = us_targets (ps_sessions s ! q) \<and>
      us_targetCount (ps_sessions ?s ! q) = us_targetCount (ps_sessions s ! q)" for q
    using r by (cases "q = r") (simp_all add: p(9))
  show ?thesis
  proof (cases "is_dial ?pc")
    case False
    then have "pc_lease ?pc = {#}" "\<And>q. dialer q ?pc = 0" by (auto simp: is_dial_def split: worker.splits)
    then have q: "wsum (dialer q) ?s = wsum (dialer q) s" "wsum pc_lease ?s = wsum pc_lease s" for q
      using quiet_moves(1,2) [OF assms(3) p(1) _ _ np nopanic] assms(4) by simp_all
    show ?thesis by (rule target_inv_quiet [OF assms(1)]) (use p False same np' q in simp_all)
  next
    case True
    then have d: "?pc = W_Dial task r (us_identity ?u)" "us_targetCount ?u < 32" "ReserveUDPTarget (us_identity ?u) (ps_budget s) \<noteq> None"
      by (auto simp: target_pc_def is_dial_def Let_def split: if_splits option.splits)
    have w: "wsum (dialer q) ?s = wsum (dialer q) s + of_bool (q = r)" "wsum pc_lease ?s = add_mset (us_identity ?u) (wsum pc_lease s)" for q
      using wsum_move [OF assms(3) p(1), of "dialer q"] wsum_move [OF assms(3) p(1), of pc_lease] assms(4) d(1) by auto
    have "leases ?s = add_mset (us_identity ?u) (leases s)" using w(2) p(5,7) by (simp add: leases_def)
    moreover have "budget_ok (ps_budget s) (leases s)" using assms(1) by (simp add: target_inv_def)
    ultimately have "budget_ok (ps_budget ?s) (leases ?s)" using True d(3) budget_reserved by (auto simp: p(10))
    moreover have "target_ok (ps_sessions ?s) t (ps_targets ?s ! t)" if "t < length (ps_targets s)" for t
      using assms(1) that unfolding p(5,9) by (subst target_ok_update) (simp_all add: target_inv_def)
    moreover have "session_targets_ok ?s q (ps_sessions ?s ! q)" if "q < length (ps_sessions s)" for q
    proof (cases "q = r")
      case True
      have "wsum (dialer r) s = 0" by (rule dialer_sum [OF assms(2,3) r assms(4)])
      then show ?thesis using assms(1) that True same [of r] d(2) w(1) [of r] p(5) by (auto simp: target_inv_def session_targets_ok_def)
    next
      case False
      then show ?thesis using assms(1) that w(1) [of q] p(5) by (auto simp: target_inv_def session_targets_ok_def p(9))
    qed
    ultimately show ?thesis using np' p(5,9) by (simp add: target_inv_def)
  qed
qed

lemma target_inv_now: "target_inv s \<Longrightarrow> target_inv (s\<lparr>ps_now := now\<rparr>)"
  by (rule target_inv_quiet) (auto simp: target_inv_def wsum_def)

lemma target_inv_dial:
  assumes "target_inv s" "tab_inv cfg s" "i < length (ps_workers s)" "ps_workers s ! i = W_Dial task r identity"
  shows "target_inv (process_dial dialled i task r identity s)" (is "target_inv ?s")
proof -
  let ?pc = "dial_pc dialled task r s" and ?u = "ps_sessions s ! r" and ?st = "dial_stores dialled task r s" and ?a = "tk_targetAddr task"
  have r: "r < length (ps_sessions s)" using worker_ref(1) [OF assms(2,3)] assms(4) by simp
  have open_r: "\<not> us_closed ?u" by (rule holder_locked(2) [OF assms(2,3) r]) (simp add: assms(4))
  note p = process_dial_parts [of dialled i task r identity s]
  have np: "\<forall>pc \<in> set (ps_workers s). \<forall>task. pc \<noteq> W_Panic task" using assms(1) by (simp add: target_inv_def)
  have pc: "?pc = W_Done task"
    using target_typed(4) [OF assms(1) r, of ?a] by (auto simp: dial_pc_def is_icmp_def icmp_address_def split: option.splits)
  have np': "\<forall>pc \<in> set (ps_workers ?s). \<forall>task. pc \<noteq> W_Panic task" unfolding p(1) by (rule ball_list_update [OF np]) (simp add: pc)
  have w: "wsum (dialer q) ?s + of_bool (q = r) = wsum (dialer q) s" "add_mset identity (wsum pc_lease ?s) = wsum pc_lease s" for q
    using wsum_move [OF assms(3) p(1), of "dialer q"] wsum_move [OF assms(3) p(1), of pc_lease] assms(4) pc by auto
  have "add_mset identity (leases ?s) = (if ?st then add_mset identity (leases s) else leases s)"
    unfolding leases_def p(6,10) w(2) [symmetric] by (auto simp: target_lease_def dial_target_def dial_stores_def)
  then have l: "if ?st then leases ?s = leases s else leases s = add_mset identity (leases ?s)" by (auto split: if_splits)
  have "budget_ok (ps_budget s) (leases s)" using assms(1) by (simp add: target_inv_def)
  then have b: "budget_ok (ps_budget ?s) (leases ?s)" unfolding p(11) using l udp_targets.release_added by (auto split: if_splits)
  have old: "ps_targets ?s ! t = ps_targets s ! t" if "t < length (ps_targets s)" for t using that by (simp add: p(10) nth_append)
  have len: "length (ps_targets s) \<le> length (ps_targets ?s)" by (simp add: p(10))
  have closed: "us_closed (dial_session dialled task r s) = us_closed ?u" by (simp add: dial_session_def Let_def)
  have ok: "target_ok (ps_sessions ?s) t (ps_targets s ! t)" if "t < length (ps_targets s)" for t
  proof -
    let ?x = "ps_targets s ! t"
    have x: "target_ok (ps_sessions s) t ?x" using assms(1) that by (simp add: target_inv_def)
    show ?thesis
    proof (cases "tg_session ?x = r")
      case True
      then have "map_of (us_targets (dial_session dialled task r s)) (tg_address ?x) = Some t" if "tg_reading ?x"
        using x that open_r by (auto simp: target_ok_def dial_session_def dial_stores_def Let_def)
      then show ?thesis using x True r closed by (auto simp: target_ok_def p(9))
    next
      case False
      then show ?thesis using x by (simp add: target_ok_def p(9))
    qed
  qed
  have new: "target_ok (ps_sessions ?s) (length (ps_targets s)) (dial_target ?st task r identity)"
    using r open_r closed by (auto simp: target_ok_def dial_target_def p(9) is_icmp_def icmp_address_def dial_session_def Let_def)
  have t: "target_ok (ps_sessions ?s) t (ps_targets ?s ! t)" if "t < length (ps_targets ?s)" for t
  proof (cases "t < length (ps_targets s)")
    case True
    then show ?thesis using ok old by simp
  next
    case False
    then have "t = length (ps_targets s)" "dialled" using that by (auto simp: p(10) split: if_splits)
    then have "ps_targets ?s ! t = dial_target ?st task r identity" unfolding p(10) by (simp add: nth_append)
    then show ?thesis using new \<open>t = length (ps_targets s)\<close> by simp
  qed
  have ss: "session_targets_ok ?s q (ps_sessions ?s ! q)" if "q < length (ps_sessions s)" for q
  proof (cases "q = r")
    case False
    show ?thesis by (rule session_targets_ok_frame [of s]) (use False assms(1) that w(1) [of q] old len in \<open>simp_all add: target_inv_def p(9)\<close>)
  next
    case True
    have o: "session_targets_ok s r ?u" using assms(1) r by (simp add: target_inv_def)
    have e: "t < length (ps_targets ?s) \<and> tg_session (ps_targets ?s ! t) = r \<and> tg_address (ps_targets ?s ! t) = a"
      if "(a, t) \<in> set (us_targets (dial_session dialled task r s))" for a t
    proof (cases "(a, t) \<in> set (us_targets ?u)")
      case True
      then have "t < length (ps_targets s)" "tg_session (ps_targets s ! t) = r" "tg_address (ps_targets s ! t) = a" using o by (auto simp: session_targets_ok_def)
      then show ?thesis using old len by simp
    next
      case False
      then have "?st" "a = ?a" "t = length (ps_targets s)" using that by (auto simp: dial_session_def Let_def split: if_splits)
      then show ?thesis unfolding p(10) by (simp add: dial_stores_def dial_target_def)
    qed
    have d: "distinct (map fst (us_targets (dial_session dialled task r s)))"
      using o by (auto simp: session_targets_ok_def dial_session_def dial_stores_def Let_def map_of_eq_None_iff)
    have c: "us_targetCount (dial_session dialled task r s) = int (length (us_targets (dial_session dialled task r s)))"
      "length (us_targets (dial_session dialled task r s)) + wsum (dialer r) ?s \<le> 32"
      using o w(1) [of r] open_r by (auto simp: session_targets_ok_def dial_session_def Let_def)
    show ?thesis unfolding True p(9) nth_list_update_eq [OF r] session_targets_ok_def using d e c open_r closed by auto
  qed
  show ?thesis using t ss np' b by (simp add: target_inv_def p(9))
qed

lemma target_inv_stop:
  assumes "target_inv s" "t < length (ps_targets s)"
  shows "target_inv (upstream_stop t s)"
  unfolding upstream_stop_def
  by (rule target_inv_end [OF target_inv_close [OF assms]]) (use assms(2) close_target_nth [OF assms(2), of t] in simp_all)

lemma end_update: "end_reading t (update_session r f s) = update_session r f (end_reading t s)"
  by (simp add: end_reading_def update_session_def)

lemma target_inv_error:
  assumes "target_inv s" "t < length (ps_targets s)" "tg_reading (ps_targets s ! t)"
  shows "target_inv (upstream_error t s)"
proof -
  let ?x = "ps_targets s ! t" and ?r = "tg_session (ps_targets s ! t)"
  define s1 where "s1 = upstream_stop t s"
  have i: "target_inv s1" unfolding s1_def by (rule target_inv_stop [OF assms(1,2)])
  have x: "target_ok (ps_sessions s) t ?x" using assms(1,2) by (simp add: target_inv_def)
  have n: "ps_targets s1 ! u = (ps_targets s ! u)\<lparr>tg_closed := tg_closed (ps_targets s ! u) \<or> u = t, tg_reading := tg_reading (ps_targets s ! u) \<and> u \<noteq> t\<rparr>"
    if "u < length (ps_targets s)" for u
    using that close_target_nth [OF that, of t] by (cases "u = t") (simp_all add: s1_def upstream_stop_def end_reading_def)
  have l: "length (ps_targets s1) = length (ps_targets s)" "ps_sessions s1 = ps_sessions s" by (simp_all add: s1_def upstream_stop_def end_reading_def)
  show ?thesis
  proof (cases "map_of (us_targets (ps_sessions s ! ?r)) (tg_address ?x) = None")
    case True
    then have "upstream_error t s = s1" by (simp add: upstream_error_def s1_def upstream_stop_def Let_def)
    then show ?thesis using i by simp
  next
    case False
    have e: "upstream_error t s = update_session ?r (\<lambda>u. u\<lparr>us_targets := AList.delete (tg_address ?x) (us_targets u), us_targetCount := us_targetCount u - 1\<rparr>) s1"
      using False by (simp add: upstream_error_def s1_def upstream_stop_def Let_def close_update end_update)
    have free: "\<not> tg_reading (ps_targets s1 ! u)" if "u < length (ps_targets s1)" "tg_session (ps_targets s1 ! u) = ?r" "tg_address (ps_targets s1 ! u) = tg_address ?x" for u
    proof
      assume "tg_reading (ps_targets s1 ! u)"
      then have u: "u \<noteq> t" "tg_reading (ps_targets s ! u)" "tg_session (ps_targets s ! u) = ?r" "tg_address (ps_targets s ! u) = tg_address ?x"
        "u < length (ps_targets s)" using that n l by auto
      have "session_targets_ok s ?r (ps_sessions s ! ?r)" using assms(1) x by (simp add: target_inv_def target_ok_def)
      then have "\<not> us_closed (ps_sessions s ! ?r)" using False by (auto simp: session_targets_ok_def)
      moreover have "target_ok (ps_sessions s) u (ps_targets s ! u)" using assms(1) u(5) by (simp add: target_inv_def)
      ultimately show False using x u assms(3) by (auto simp: target_ok_def)
    qed
    show ?thesis unfolding e by (rule target_inv_forget [OF i]) (use x free False l in \<open>auto simp: target_ok_def\<close>)
  qed
qed

lemma target_inv_clean:
  assumes "target_inv s" "tab_inv cfg s" "map_of (ps_tab s) key = Some r"
  shows "target_inv (cleaned key r s)" (is "target_inv ?s")
proof -
  note r = map_of_inj_ref [OF assms(2,3)]
  let ?ts = "map snd (us_targets (ps_sessions s ! r))"
  define s1 where "s1 = fold close_target ?ts s"
  have so: "session_targets_ok s r (ps_sessions s ! r)" using assms(1) r(1) by (simp add: target_inv_def)
  have "\<forall>t \<in> set ?ts. t < length (ps_targets s)" using so by (auto simp: session_targets_ok_def)
  with assms(1) have i: "target_inv s1" unfolding s1_def by (rule target_inv_fold_close)
  have f: "ps_targets ?s = ps_targets s1" "ps_budget ?s = ps_budget s1" "ps_workers ?s = ps_workers s1" "ps_foreign ?s = ps_foreign s1"
    "ps_sessions s1 = ps_sessions s" "ps_sessions ?s = (ps_sessions s)[r := (ps_sessions s ! r)\<lparr>us_closed := True, us_targets := []\<rparr>]"
    by (simp_all add: cleaned_def s1_def)
  have w: "wsum g ?s = wsum g s1" for g :: "worker \<Rightarrow> 'a :: comm_monoid_add" by (rule wsum_same [OF f(3)])
  have closed: "tg_closed (ps_targets s1 ! t)" if "t < length (ps_targets s1)" "tg_session (ps_targets s1 ! t) = r" for t
  proof -
    have t: "t < length (ps_targets s)" using that(1) by (simp add: s1_def)
    note n = fold_close_nth [OF t, of ?ts]
    have "target_ok (ps_sessions s) t (ps_targets s ! t)" using assms(1) t by (simp add: target_inv_def)
    then have "tg_closed (ps_targets s ! t) \<or> map_of (us_targets (ps_sessions s ! r)) (tg_address (ps_targets s ! t)) = Some t"
      using that(2) r(3) n by (auto simp: target_ok_def s1_def)
    then show ?thesis using n by (auto simp: s1_def dest!: map_of_SomeD intro: rev_image_eqI)
  qed
  have "target_ok (ps_sessions ?s) t (ps_targets s1 ! t)" if "t < length (ps_targets s1)" for t
  proof -
    have o: "target_ok (ps_sessions s) t (ps_targets s1 ! t)" using i that f(5) by (simp add: target_inv_def)
    show ?thesis
      using o closed [OF that] r(1) unfolding f(6) by (cases "tg_session (ps_targets s1 ! t) = r") (auto simp: target_ok_def)
  qed
  moreover have "session_targets_ok ?s q (ps_sessions ?s ! q)" if "q < length (ps_sessions s)" for q
  proof (cases "q = r")
    case True
    then show ?thesis using r(1) by (simp add: f(6) session_targets_ok_def)
  next
    case False
    show ?thesis by (rule session_targets_ok_frame [of s1]) (use i False that w [of "dialer q"] f in \<open>simp_all add: target_inv_def\<close>)
  qed
  moreover have "leases ?s = leases s1" using w [of pc_lease] f by (simp add: leases_def)
  ultimately show ?thesis using i f by (simp add: target_inv_def)
qed

lemma open_refs_bound:
  assumes "target_inv s" "tab_inv cfg s"
  shows "\<forall>t \<in> set (open_refs s). t < length (ps_targets s)"
proof
  fix t assume "t \<in> set (open_refs s)"
  then obtain key r a where k: "(key, r) \<in> set (ps_tab s)" "(a, t) \<in> set (us_targets (ps_sessions s ! r))" by (auto simp: open_refs_def)
  then have "r < length (ps_sessions s)" using assms(2) by (auto simp: tab_inv_def)
  then have "session_targets_ok s r (ps_sessions s ! r)" using assms(1) by (simp add: target_inv_def)
  then show "t < length (ps_targets s)" using k(2) by (auto simp: session_targets_ok_def)
qed

lemma target_inv_drain:
  assumes "target_inv s" "tab_inv cfg s"
  shows "target_inv (closeSessions s)"
proof -
  have i: "target_inv (fold close_target (open_refs s) s)" by (rule target_inv_fold_close [OF assms(1) open_refs_bound [OF assms]])
  show ?thesis unfolding closeSessions_fold by (rule target_inv_quiet [OF i]) (use assms(1) in \<open>simp_all add: target_inv_def wsum_def\<close>)
qed

text \<open>Steps of a worker that has no lease.\<close>

lemma target_inv_worker:
  assumes "target_inv s" "i < length (ps_workers s)" "ps_workers s' = (ps_workers s)[i := pc]" "pc_lease pc = {#}" "\<And>r. dialer r pc = 0" "\<forall>task. pc \<noteq> W_Panic task"
    and "pc_lease (ps_workers s ! i) = {#}" "\<And>r. dialer r (ps_workers s ! i) = 0"
    and "ps_targets s' = ps_targets s" "ps_budget s' = ps_budget s" "ps_foreign s' = ps_foreign s" "ps_sessions s' = ps_sessions s"
  shows "target_inv s'"
proof -
  have np: "\<forall>pc \<in> set (ps_workers s). \<forall>task. pc \<noteq> W_Panic task" using assms(1) by (simp add: target_inv_def)
  note q = quiet_moves [OF assms(2,3) _ _ np assms(6)]
  show ?thesis by (rule target_inv_quiet [OF assms(1,9,10,11)]) (use assms q in simp_all)
qed

lemma no_leases: "sum_list (replicate n {#}) = {#}"
  by (induction n) simp_all

lemma target_inv_session:
  assumes "target_inv s" "\<And>u. us_closed (f u) = us_closed u \<and> us_targets (f u) = us_targets u \<and> us_targetCount (f u) = us_targetCount u"
  shows "target_inv (update_session r f s)"
proof (rule target_inv_quiet [OF assms(1)])
  show "us_closed (ps_sessions (update_session r f s) ! q) = us_closed (ps_sessions s ! q) \<and> us_targets (ps_sessions (update_session r f s) ! q) = us_targets (ps_sessions s ! q) \<and>
      us_targetCount (ps_sessions (update_session r f s) ! q) = us_targetCount (ps_sessions s ! q)" if "q < length (ps_sessions s)" for q
    using that assms(2) by (cases "q = r") simp_all
qed (use assms(1) in \<open>simp_all add: target_inv_def wsum_def\<close>)

lemma target_inv_accept:
  assumes "target_inv s" "i < length (ps_workers s)" "ps_workers s ! i = W_Lock task r"
  shows "target_inv (process_accept ask now i task r s)"
proof (cases "us_closed (ps_sessions s ! r) \<or> ps_stopped s")
  case True
  show ?thesis using True unfolding process_accept_def if_P [OF True]
    by - (rule target_inv_worker [OF assms(1,2) set_pc_frame(13)], use assms(3) in simp_all)
next
  case False
  obtain ok g where a: "AcceptAuthenticated ask (tk_seq task) (tk_timestamp task) now (us_guard (ps_sessions s ! r)) = (ok, g)" by fastforce
  let ?s = "(update_session r (\<lambda>u. u\<lparr>us_guard := g, us_locked := ok\<rparr>) s)\<lparr>ps_log := log_if ok (task_key task, tk_seq task, tk_timestamp task, now) (ps_log s)\<rparr>"
  have "target_inv (update_session r (\<lambda>u. u\<lparr>us_guard := g, us_locked := ok\<rparr>) s)" by (rule target_inv_session [OF assms(1)]) simp
  then have i: "target_inv ?s" by - (rule target_inv_quiet, assumption, simp_all add: target_inv_def wsum_def)
  have "target_inv (set_pc i (if ok then W_Accepted task r else W_Done task) ?s)"
    by (rule target_inv_worker [OF i _ set_pc_frame(13)]) (use assms(2,3) in simp_all)
  then show ?thesis using False a by (simp add: process_accept_def)
qed

lemma target_inv_create:
  assumes "target_inv s" "tab_inv cfg s" "i < length (ps_workers s)" "ps_workers s ! i = W_Create task"
  shows "target_inv (process_create cfg i task s)"
proof (cases "map_of (ps_tab s) (task_key task)")
  case (Some r)
  show ?thesis unfolding process_create_def Some option.case
    by (rule target_inv_worker [OF assms(1,3) set_pc_frame(13)]) (use assms(4) in simp_all)
next
  case None
  let ?n = "length (ps_sessions s)" and ?u = "new_session cfg task"
  let ?s = "s\<lparr>ps_tab := (task_key task, ?n) # ps_tab s, ps_sessions := ps_sessions s @ [?u], ps_count := ps_count s + 1\<rparr>"
  have w: "wsum f ?s = wsum f s" for f :: "worker \<Rightarrow> 'a :: comm_monoid_add" by (simp add: wsum_def)
  have "dialer ?n pc = 0" if "pc \<in> set (ps_workers s)" for pc
  proof -
    have "ref_ok (ps_sessions s) pc" using assms(2) that by (auto simp: tab_inv_def)
    then show ?thesis by (cases pc) (auto simp: ref_ok_def)
  qed
  then have "wsum (dialer ?n) s = 0" by (auto simp: wsum_def)
  then have new: "session_targets_ok ?s ?n ?u" using w [of "dialer ?n"] by (simp add: session_targets_ok_def new_session_def)
  have "target_ok (ps_sessions ?s) t (ps_targets s ! t)" if "t < length (ps_targets s)" for t
    using assms(1) that by (auto simp: target_inv_def target_ok_def nth_append)
  moreover have "session_targets_ok ?s q (ps_sessions ?s ! q)" if "q < length (ps_sessions ?s)" for q
  proof (cases "q = ?n")
    case False
    then have "q < ?n" using that by simp
    then show ?thesis by - (rule session_targets_ok_frame [of s], use assms(1) w [of "dialer q"] in \<open>simp_all add: target_inv_def nth_append\<close>)
  qed (use new in simp)
  moreover have "leases ?s = leases s" using w [of pc_lease] by (simp add: leases_def)
  ultimately have i: "target_inv ?s" using assms(1) by (simp add: target_inv_def)
  show ?thesis unfolding process_create_def None option.case
    by (rule target_inv_worker [OF i _ set_pc_frame(13)]) (use assms(3,4) in simp_all)
qed

lemma target_inv_foreign:
  assumes "target_inv s" "ps_targets s' = ps_targets s" "ps_workers s' = ps_workers s" "ps_sessions s' = ps_sessions s" "budget_ok (ps_budget s') (leases s')"
  shows "target_inv s'"
proof -
  have "session_targets_ok s' r u = session_targets_ok s r u" for r u using wsum_same [OF assms(3), of "dialer r"] by (simp add: session_targets_ok_def assms(2))
  then show ?thesis using assms by (simp add: target_inv_def)
qed

lemma plain_udp_targets:
  assumes "plain_udp_run cr cfg P now0 s"
  shows "target_inv s"
  using assms
proof (induction rule: plain_udp_run.induct)
  case (p_start b M)
  then show ?case
    by (simp add: target_inv_def plain_udp_start_def leases_def wsum_def map_replicate_const no_leases)
next
  case (p_receive s addr packet now)
  then show ?case by - (rule target_inv_quiet, assumption, simp_all add: target_inv_def wsum_def)
next
  case (p_take s i)
  show ?case by (rule target_inv_worker [OF p_take.IH p_take.hyps(2) worker_frame(11)]) (use p_take.hyps(3) in simp_all)
next
  case (p_done s i task)
  show ?case by (rule target_inv_worker [OF p_done.IH p_done.hyps(2) worker_frame(22)]) (use p_done.hyps(3) in simp_all)
next
  case (p_lookup s i task)
  let ?pc = "case map_of (ps_tab s) (task_key task) of Some r \<Rightarrow> if length (cf_codecs cfg) \<le> tk_userIndex task then W_Done task else W_Lock task r
    | None \<Rightarrow> if length (cf_codecs cfg) \<le> tk_userIndex task \<or> 0 < cf_maxSessions cfg \<and> cf_maxSessions cfg \<le> ps_count s then W_Done task else W_Create task"
  have e: "process_lookup cfg i task s = set_pc i ?pc s" by (auto simp: process_lookup_def split: option.splits)
  show ?case unfolding e by (rule target_inv_worker [OF p_lookup.IH p_lookup.hyps(2) set_pc_frame(13)]) (use p_lookup.hyps(3) in \<open>auto split: option.splits\<close>)
next
  case (p_create s i task)
  then show ?case using target_inv_create [OF _ plain_udp_tab] by blast
next
  case (p_accept s i task r now ask)
  then show ?case using target_inv_accept by (intro target_inv_now) blast
next
  case (p_target s i task r now resolved)
  then show ?case using target_inv_target [OF _ plain_udp_tab] by (intro target_inv_now) blast
next
  case (p_dial s i task r identity dialled)
  then show ?case using target_inv_dial [OF _ plain_udp_tab] by blast
next
  case (p_upstream s t now)
  then show ?case unfolding upstream_packet_def by (intro target_inv_now target_inv_session) simp_all
next
  case (p_error s t)
  then show ?case by (intro target_inv_error)
next
  case (p_end s t)
  then show ?case by (intro target_inv_stop)
next
  case (p_clean s seconds key)
  show ?case using cleaner_cases [OF plain_udp_tab [OF p_clean.hyps(1)], of seconds key] target_inv_clean [OF p_clean.IH plain_udp_tab [OF p_clean.hyps(1)]] p_clean.IH
    by metis
next
  case (p_drain s)
  then show ?case using target_inv_drain [OF _ plain_udp_tab] by blast
next
  case (p_others_reserve s identity b)
  have "budget_ok b (add_mset identity (leases s))" using p_others_reserve by (auto simp: target_inv_def intro: budget_reserved)
  then show ?case by - (rule target_inv_foreign [OF p_others_reserve.IH], simp_all add: leases_def wsum_def)
next
  case (p_others_release s identity)
  then have "leases s = add_mset identity (ps_foreign s - {#identity#} + sum_list (map target_lease (ps_targets s)) + wsum pc_lease s)"
    by (simp add: leases_def)
  then have "budget_ok (releaseUDPTarget identity (ps_budget s)) (ps_foreign s - {#identity#} + sum_list (map target_lease (ps_targets s)) + wsum pc_lease s)"
    using p_others_release.IH by (intro udp_targets.release_added) (simp add: target_inv_def)
  then show ?case by - (rule target_inv_foreign [OF p_others_release.IH], simp_all add: leases_def wsum_def)
next
  case (p_stop s)
  have "leases (s\<lparr>ps_stopped := True\<rparr>) = leases s" by (simp add: leases_def wsum_def)
  then show ?case by - (rule target_inv_foreign [OF p_stop.IH], use p_stop.IH in \<open>simp_all add: target_inv_def\<close>)
next
  case (p_wait s now)
  then show ?case by (intro target_inv_now)
qed

subsection \<open>The shutdown returns every lease\<close>

definition quiescent :: "plain_udp \<Rightarrow> bool" where
  "quiescent s \<longleftrightarrow> (\<forall>t < length (ps_targets s). tg_closed (ps_targets s ! t)) \<and> (\<forall>pc \<in> set (ps_workers s). pc = W_Idle) \<and> (\<forall>q \<in> set (ps_queues s). q = []) \<and>
     ps_tab s = [] \<and> ps_stopped s"

lemma drain_closes:
  assumes "target_inv s" "tab_inv cfg s" "\<not> ps_drained s" "t < length (ps_targets s)"
  shows "tg_closed (ps_targets (closeSessions s) ! t)"
proof (rule ccontr)
  let ?x = "ps_targets s ! t" and ?r = "tg_session (ps_targets s ! t)"
  assume "\<not> ?thesis"
  then have c: "\<not> tg_closed ?x" "t \<notin> set (open_refs s)" using fold_close_nth [OF assms(4), of "open_refs s"] by (simp_all add: closeSessions_fold)
  have x: "?r < length (ps_sessions s)" "\<not> us_closed (ps_sessions s ! ?r)" "map_of (us_targets (ps_sessions s ! ?r)) (tg_address ?x) = Some t"
    using assms(1,4) c(1) by (auto simp: target_inv_def target_ok_def)
  then have "(us_key (ps_sessions s ! ?r), ?r) \<in> set (ps_tab s)" using assms(2,3) by (simp add: tab_inv_def)
  then obtain us vs where "ps_tab s = us @ (us_key (ps_sessions s ! ?r), ?r) # vs" by (meson split_list)
  moreover have "t \<in> set (map snd (us_targets (ps_sessions s ! ?r)))" using map_of_SomeD [OF x(3)] by (simp add: rev_image_eqI)
  ultimately have "t \<in> set (open_refs s)" by (simp add: open_refs_def)
  then show False using c(2) by simp
qed

text \<open>Workers do not undo the shutdown, and after it there is no worker to do anything.\<close>

lemma process_drained [simp]:
  "ps_drained (process_lookup cfg i task s) = ps_drained s" "ps_drained (process_create cfg i task s) = ps_drained s"
  "ps_drained (process_accept ask now i task r s) = ps_drained s" "ps_drained (process_target resolved now i task r s) = ps_drained s"
  "ps_drained (process_dial dialled i task r identity s) = ps_drained s"
  by (auto simp: step_defs unlock_def Let_def split: option.splits prod.splits)

lemma busy_not_quiescent: "i < length (ps_workers s) \<Longrightarrow> ps_workers s ! i = pc \<Longrightarrow> pc \<noteq> W_Idle \<Longrightarrow> \<not> quiescent s"
  by (auto simp: quiescent_def dest: nth_mem)

lemma plain_udp_drained:
  assumes "plain_udp_run cr cfg P now0 s" "0 < cf_workers cfg" "cf_workers cfg < 2 ^ 64" "0 \<le> cf_maxMemBudget cfg"
  shows "ps_drained s \<longrightarrow> quiescent s"
  using assms(1)
proof (induction rule: plain_udp_run.induct)
  case (p_start b M)
  show ?case by (simp add: plain_udp_start_def)
next
  case (p_take s i)
  have "length (ps_queues s) = length (ps_workers s)" using plain_udp_mem [OF p_take.hyps(1) assms(2-4)] by (simp add: mem_inv_def)
  then show ?case using p_take by (auto simp: quiescent_def)
next
  case (p_lookup s i task)
  then show ?case using busy_not_quiescent [OF p_lookup(2,3)] by simp
next
  case (p_create s i task)
  then show ?case using busy_not_quiescent [OF p_create(2,3)] by simp
next
  case (p_accept s i task r now ask)
  then show ?case using busy_not_quiescent [OF p_accept(2,3)] by simp
next
  case (p_target s i task r now resolved)
  then show ?case using busy_not_quiescent [OF p_target(2,3)] by simp
next
  case (p_dial s i task r identity dialled)
  then show ?case using busy_not_quiescent [OF p_dial(2,3)] by simp
next
  case (p_done s i task)
  then show ?case using busy_not_quiescent [OF p_done(2,3)] by simp
next
  case (p_upstream s t now)
  then show ?case by (simp add: quiescent_def upstream_packet_def)
next
  case (p_end s t)
  then show ?case using other_idle(3) [of s t]
    by (auto simp: quiescent_def idle_def upstream_stop_def end_reading_def close_target_nth nth_list_update)
next
  case (p_error s t)
  then show ?case using other_idle(2) [of s t]
    by (auto simp: quiescent_def idle_def upstream_error_parts(2,3,7,10) end_reading_def close_target_nth nth_list_update)
next
  case (p_clean s seconds key)
  note i = plain_udp_tab [OF p_clean.hyps(1)]
  show ?case
    using i
  proof (cases rule: cleaner_cases [of _ _ seconds key])
    case (cleaned r)
    then show ?thesis using p_clean.IH by (auto simp: quiescent_def cleaned_def)
  qed (use p_clean.IH in simp)
next
  case (p_drain s)
  show ?case
  proof (cases "ps_drained s")
    case True
    then show ?thesis using p_drain by (simp add: quiescent_def closeSessions_fold fold_close_nth)
  next
    case False
    then show ?thesis using drain_closes [OF plain_udp_targets plain_udp_tab] p_drain by (auto simp: quiescent_def closeSessions_fold)
  qed
qed (auto simp: quiescent_def)

end
