(* ===== verification/PlainUdpProps.thy ===== *)
theory PlainUdpProps
  imports PlainUdpTargets
begin

text \<open>
  What the native UDP server guarantees over all interleavings of its threads: its session table refines the specification
  of expiring replay windows (theory UdpReplay), so no packet is forwarded twice; its resources stay within their bounds
  and are returned; and no worker panics.
\<close>

subsection \<open>The session table refines the specification of expiring windows\<close>

definition session_ident :: "udp_config \<Rightarrow> session_key \<Rightarrow> bytes \<times> u64" where
  "session_ident cfg key = (cf_namespaces cfg ! fst key, snd key)"

fun accepting :: "nat \<Rightarrow> worker \<Rightarrow> bool" where
  "accepting r (W_Accepted task r') = (r' = r)"
| "accepting r _ = False"

text \<open>
  The abstract activity \<open>l\<close> of a session is the second of its last accepted packet; the server stores it a little later, under the lock, while the
  worker is between accepting the packet and recording the activity.
\<close>

definition entry_sim :: "plain_udp \<Rightarrow> nat \<Rightarrow> (udp_window \<times> int) option \<Rightarrow> bool" where
  "entry_sim s r e \<longleftrightarrow> (\<exists>l. e = Some (us_guard (ps_sessions s ! r), l) \<and> l \<le> secs (ps_now s) \<and>
     ((\<forall>pc \<in> set (ps_workers s). \<not> accepting r pc) \<longrightarrow> l \<le> us_lastActive (ps_sessions s ! r)))"

definition tab_sim :: "plain_udp \<Rightarrow> (session_key \<Rightarrow> (udp_window \<times> int) option) \<Rightarrow> bool" where
  "tab_sim s tab \<longleftrightarrow> (\<forall>k. map_of (ps_tab s) k = None \<longrightarrow> tab k = None) \<and> (\<forall>k r. map_of (ps_tab s) k = Some r \<longrightarrow> entry_sim s r (tab k))"

definition udp_sim :: "udp_config \<Rightarrow> (bytes \<times> int) set \<Rightarrow> int \<Rightarrow> plain_udp \<Rightarrow> bool" where
  "udp_sim cfg P now0 s \<longleftrightarrow> now0 \<le> ps_now s \<and>
     (\<exists>tab. udp_run (cf_cache cfg) (session_ident cfg) P now0 \<lparr>ud_tab = tab, ud_log = ps_log s, ud_now = ps_now s\<rparr> \<and> (\<not> ps_drained s \<longrightarrow> tab_sim s tab))"

lemma tab_simD:
  "tab_sim s tab \<Longrightarrow> map_of (ps_tab s) k = None \<Longrightarrow> tab k = None"
  "tab_sim s tab \<Longrightarrow> map_of (ps_tab s) k = Some r \<Longrightarrow> entry_sim s r (tab k)"
  unfolding tab_sim_def by blast+

text \<open>A step that only lets time pass, as far as packets are concerned.\<close>

lemma udp_sim_quiet:
  assumes "udp_sim cfg P now0 s" "ps_log s' = ps_log s" "ps_now s \<le> ps_now s'" "ps_tab s' = ps_tab s" "ps_drained s' = ps_drained s"
    and "\<And>r. r \<in> snd ` set (ps_tab s) \<Longrightarrow> us_guard (ps_sessions s' ! r) = us_guard (ps_sessions s ! r) \<and>
      ((\<forall>pc \<in> set (ps_workers s'). \<not> accepting r pc) \<longrightarrow>
        secs (ps_now s) \<le> us_lastActive (ps_sessions s' ! r) \<or>
        (\<forall>pc \<in> set (ps_workers s). \<not> accepting r pc) \<and> us_lastActive (ps_sessions s ! r) \<le> us_lastActive (ps_sessions s' ! r))"
  shows "udp_sim cfg P now0 s'"
proof -
  obtain tab where i: "udp_run (cf_cache cfg) (session_ident cfg) P now0 \<lparr>ud_tab = tab, ud_log = ps_log s, ud_now = ps_now s\<rparr>"
    "\<not> ps_drained s \<Longrightarrow> tab_sim s tab" "now0 \<le> ps_now s" using assms(1) by (auto simp: udp_sim_def)
  have "entry_sim s' r (tab k)" if "map_of (ps_tab s) k = Some r" "entry_sim s r (tab k)" for k r
  proof -
    have "r \<in> snd ` set (ps_tab s)" using map_of_SomeD [OF that(1)] by force
    note a = assms(6) [OF this] and m = zdiv_mono1 [OF assms(3), of second]
    from that(2) show ?thesis using a m unfolding entry_sim_def by (elim exE) (rule exI, auto)
  qed
  then have "tab_sim s' tab" if "\<not> ps_drained s" using i(2) [OF that] unfolding tab_sim_def assms(4) by blast
  moreover have "udp_run (cf_cache cfg) (session_ident cfg) P now0 \<lparr>ud_tab = tab, ud_log = ps_log s', ud_now = ps_now s'\<rparr>"
    using udp_run.u_wait [OF i(1), of "ps_now s'"] assms(2,3) by simp
  ultimately show ?thesis using i(3) assms(3,5) unfolding udp_sim_def by auto
qed

lemma nth_update_field: "f x = f (xs ! r) \<Longrightarrow> f (xs[r := x] ! q) = f (xs ! q)"
  by (cases "r < length xs"; cases "q = r") (simp_all add: list_update_beyond)

lemma nth_list_update': "xs[r := x] ! q = (if q = r \<and> r < length xs then x else xs ! q)"
  by (cases "r < length xs") (auto simp: list_update_beyond)

lemma still_accepting:
  assumes "\<not> accepting r (ws ! i)" "\<forall>pc \<in> set (ws[i := pc']). \<not> accepting r pc"
  shows "\<forall>pc \<in> set ws. \<not> accepting r pc"
proof
  fix pc assume "pc \<in> set ws"
  then obtain j where j: "j < length ws" "pc = ws ! j" by (auto simp: in_set_conv_nth)
  then have "ws[i := pc'] ! j \<in> set (ws[i := pc'])" by simp
  then have "\<not> accepting r (ws[i := pc'] ! j)" using assms(2) by blast
  then show "\<not> accepting r pc" using assms(1) j by (cases "j = i") auto
qed

text \<open>A worker that moves, is not between accepting and recording, and leaves the activity alone.\<close>

lemma udp_sim_worker:
  assumes "udp_sim cfg P now0 s" "ps_log s' = ps_log s" "ps_now s \<le> ps_now s'" "ps_tab s' = ps_tab s" "ps_drained s' = ps_drained s"
    and "ps_workers s' = (ps_workers s)[i := pc]" "\<And>r. \<not> accepting r (ps_workers s ! i)"
    and "\<And>r. us_guard (ps_sessions s' ! r) = us_guard (ps_sessions s ! r) \<and> us_lastActive (ps_sessions s' ! r) = us_lastActive (ps_sessions s ! r)"
  shows "udp_sim cfg P now0 s'"
proof (rule udp_sim_quiet [OF assms(1-5)])
  fix r
  show "us_guard (ps_sessions s' ! r) = us_guard (ps_sessions s ! r) \<and>
      ((\<forall>pc \<in> set (ps_workers s'). \<not> accepting r pc) \<longrightarrow>
        secs (ps_now s) \<le> us_lastActive (ps_sessions s' ! r) \<or>
        (\<forall>pc \<in> set (ps_workers s). \<not> accepting r pc) \<and> us_lastActive (ps_sessions s ! r) \<le> us_lastActive (ps_sessions s' ! r))"
    using still_accepting [OF assms(7)] assms(8) [of r] unfolding assms(6) by simp
qed

lemma udp_sim_create:
  assumes "udp_sim cfg P now0 s" "tab_inv cfg s" "0 \<le> now0" "ps_workers s ! i = W_Create task"
  shows "udp_sim cfg P now0 (process_create cfg i task s)"
proof (cases "map_of (ps_tab s) (task_key task)")
  case (Some r)
  then show ?thesis using assms(4) by (intro udp_sim_worker [OF assms(1), of _ i "W_Lock task r"]) (auto simp: process_create_def)
next
  case None
  let ?s = "process_create cfg i task s" and ?k = "task_key task" and ?n = "length (ps_sessions s)"
  obtain tab where i: "udp_run (cf_cache cfg) (session_ident cfg) P now0 \<lparr>ud_tab = tab, ud_log = ps_log s, ud_now = ps_now s\<rparr>"
    "\<not> ps_drained s \<Longrightarrow> tab_sim s tab" "now0 \<le> ps_now s" using assms(1) by (auto simp: udp_sim_def)
  have p: "ps_tab ?s = (?k, ?n) # ps_tab s" "ps_log ?s = ps_log s" "ps_now ?s = ps_now s" "ps_drained ?s = ps_drained s"
    "ps_sessions ?s = ps_sessions s @ [new_session cfg task]" "ps_workers ?s = (ps_workers s)[i := W_Lock task ?n]" using None by (simp_all add: process_create_def)
  show ?thesis
  proof (cases "ps_drained s")
    case True
    then show ?thesis using i unfolding udp_sim_def p by blast
  next
    case False
    note t = i(2) [OF False]
    let ?tab = "tab(?k \<mapsto> (NewPersistentUDPReplayWindow (cf_cache cfg) (fst (session_ident cfg ?k)) (snd (session_ident cfg ?k)), 0))"
    have "tab ?k = None" using tab_simD(1) [OF t None] .
    from udp_run.u_create [OF i(1), of ?k 0] this
    have u: "udp_run (cf_cache cfg) (session_ident cfg) P now0 \<lparr>ud_tab = ?tab, ud_log = ps_log s, ud_now = ps_now s\<rparr>" by simp
    have n: "entry_sim ?s ?n (?tab ?k)" using i(3) assms(3) unfolding entry_sim_def p
      by (simp add: nth_append new_session_def session_ident_def task_key_def pos_imp_zdiv_nonneg_iff)
    have o: "entry_sim ?s r (tab k)" if "map_of (ps_tab s) k = Some r" for k r
    proof -
      have "r < ?n" using map_of_inj_ref(1) [OF assms(2) that] .
      moreover have "entry_sim s r (tab k)" using tab_simD(2) [OF t that] .
      ultimately show ?thesis using still_accepting [of r "ps_workers s" i "W_Lock task ?n"] assms(4) unfolding entry_sim_def p by (auto simp: nth_append)
    qed
    have "tab_sim ?s ?tab" using tab_simD(1) [OF t] n o unfolding tab_sim_def p by (auto simp del: split_paired_All)
    then show ?thesis using u i(3) unfolding udp_sim_def p by blast
  qed
qed

text \<open>A packet that reaches the replay check is a packet of the specification.\<close>

lemma udp_sim_accept:
  assumes "udp_sim cfg P now0 s" "tab_inv cfg s" "\<not> ps_drained s" "i < length (ps_workers s)" "ps_workers s ! i = W_Lock task r" "ps_now s \<le> now"
    and "\<And>key. ask key now = (True, None) \<Longrightarrow> (key, now) \<in> P"
  shows "udp_sim cfg P now0 ((process_accept ask now i task r s)\<lparr>ps_now := now\<rparr>)" (is "udp_sim cfg P now0 ?s")
proof (cases "us_closed (ps_sessions s ! r) \<or> ps_stopped s")
  case True
  then show ?thesis using assms(5,6) by (intro udp_sim_worker [OF assms(1), of _ i "W_Done task"]) (auto simp: process_accept_def)
next
  case False
  let ?k = "task_key task"
  have r: "r < length (ps_sessions s)" "us_key (ps_sessions s ! r) = ?k" using worker_ref [OF assms(2,4), of task r] assms(5) by simp_all
  obtain tab where i: "udp_run (cf_cache cfg) (session_ident cfg) P now0 \<lparr>ud_tab = tab, ud_log = ps_log s, ud_now = ps_now s\<rparr>"
    "tab_sim s tab" "now0 \<le> ps_now s" using assms(1,3) by (auto simp: udp_sim_def)
  obtain ok g where a: "AcceptAuthenticated ask (tk_seq task) (tk_timestamp task) now (us_guard (ps_sessions s ! r)) = (ok, g)" by fastforce
  have p: "ps_tab ?s = ps_tab s" "ps_now ?s = now" "ps_drained ?s = ps_drained s" "ps_workers ?s = (ps_workers s)[i := if ok then W_Accepted task r else W_Done task]"
    "ps_log ?s = log_if ok (?k, tk_seq task, tk_timestamp task, now) (ps_log s)"
    "ps_sessions ?s = (ps_sessions s)[r := (ps_sessions s ! r)\<lparr>us_guard := g, us_locked := ok\<rparr>]" using a False by (simp_all add: process_accept_def)
  have "(us_key (ps_sessions s ! r), r) \<in> set (ps_tab s)" using assms(2,3) r(1) False by (simp add: tab_inv_def)
  then have k: "map_of (ps_tab s) ?k = Some r" using assms(2) r(2) by (simp add: tab_inv_def)
  then obtain l where l: "tab ?k = Some (us_guard (ps_sessions s ! r), l)" "l \<le> secs (ps_now s)"
    "(\<forall>pc \<in> set (ps_workers s). \<not> accepting r pc) \<Longrightarrow> l \<le> us_lastActive (ps_sessions s ! r)"
    using tab_simD(2) [OF i(2)] unfolding entry_sim_def by blast
  let ?l = "if ok then secs now else l"
  have m: "secs (ps_now s) \<le> secs now" using assms(6) by (rule zdiv_mono1) simp
  from udp_run.u_packet [OF i(1), of ?k _ _ now ask _ _ ok g ?l] l(1) a assms(6,7)
  have u: "udp_run (cf_cache cfg) (session_ident cfg) P now0 \<lparr>ud_tab = tab(?k \<mapsto> (g, ?l)), ud_log = ps_log ?s, ud_now = now\<rparr>" unfolding p by simp
  have same: "(\<forall>pc \<in> set (ps_workers ?s). \<not> accepting q pc) \<Longrightarrow> (\<forall>pc \<in> set (ps_workers s). \<not> accepting q pc)" for q
    using still_accepting [of q "ps_workers s" i] assms(5) unfolding p by simp
  have busy: "ok \<Longrightarrow> accepting r (ps_workers ?s ! i)" "i < length (ps_workers ?s)" using assms(4) by (simp_all add: p)
  have "entry_sim ?s r (Some (g, ?l))" using l(2,3) m r assms(5) same [of r] busy nth_mem [OF busy(2)]
    unfolding entry_sim_def p(2,6) by (auto simp del: p)
  moreover have "entry_sim ?s q (tab k')" if q: "map_of (ps_tab s) k' = Some q" "k' \<noteq> ?k" for k' q
  proof -
    have "q \<noteq> r" using map_of_inj_ref(2) [OF assms(2) q(1)] map_of_inj_ref(2) [OF assms(2) k] q(2) by auto
    then show ?thesis using tab_simD(2) [OF i(2) q(1)] m same [of q] unfolding entry_sim_def p(2,6) by auto
  qed
  ultimately have "tab_sim ?s (tab(?k \<mapsto> (g, ?l)))" using tab_simD(1) [OF i(2)] k unfolding tab_sim_def p(1) by (auto simp del: split_paired_All)
  then show ?thesis using u i(3) assms(6) unfolding udp_sim_def p(2) by auto
qed

lemma udp_sim_clean:
  assumes "udp_sim cfg P now0 s" "tab_inv cfg s" "seconds \<le> secs (ps_now s)"
  shows "udp_sim cfg P now0 (cleaner_visit seconds key s)"
  using assms(2)
proof (cases rule: cleaner_cases [of _ _ seconds key])
  case same
  then show ?thesis using assms(1) by simp
next
  case (cleaned r)
  let ?s = "cleaned key r s"
  obtain tab where i: "udp_run (cf_cache cfg) (session_ident cfg) P now0 \<lparr>ud_tab = tab, ud_log = ps_log s, ud_now = ps_now s\<rparr>"
    "\<not> ps_drained s \<Longrightarrow> tab_sim s tab" "now0 \<le> ps_now s" using assms(1) by (auto simp: udp_sim_def)
  have p: "ps_tab ?s = AList.delete key (ps_tab s)" "ps_log ?s = ps_log s" "ps_now ?s = ps_now s" "ps_drained ?s = ps_drained s" "ps_workers ?s = ps_workers s"
    "ps_sessions ?s = (ps_sessions s)[r := (ps_sessions s ! r)\<lparr>us_closed := True, us_targets := []\<rparr>]" by (simp_all add: cleaned_def)
  note r = map_of_inj_ref [OF assms(2) cleaned(1)]
  show ?thesis
  proof (cases "ps_drained s")
    case True
    then show ?thesis using i(1,3) unfolding cleaned(4) udp_sim_def p by blast
  next
    case False
    note t = i(2) [OF False]
    have free: "\<not> accepting r pc" if pc: "pc \<in> set (ps_workers s)" for pc
    proof
      assume acc: "accepting r pc"
      obtain j where j: "j < length (ps_workers s)" "ps_workers s ! j = pc" using pc by (auto simp: in_set_conv_nth)
      have "holder r pc = 1" using acc by (cases pc) auto
      then show False using holder_locked(1) [OF assms(2) j(1) r(1)] cleaned(3) j(2) by simp
    qed
    have "60 < secs (ps_now s) - l" if "tab key = Some (w, l)" for w l
      using tab_simD(2) [OF t cleaned(1)] that free cleaned(2) assms(3) unfolding entry_sim_def by auto
    then have u: "udp_run (cf_cache cfg) (session_ident cfg) P now0 \<lparr>ud_tab = tab |` (- {key}), ud_log = ps_log s, ud_now = ps_now s\<rparr>"
      using udp_run.u_drop [OF i(1), of "{key}"] by simp
    have "entry_sim ?s q (tab k)" if "map_of (ps_tab s) k = Some q" for k q
      using tab_simD(2) [OF t that] r(1) unfolding entry_sim_def p by (auto simp: nth_list_update)
    then have "tab_sim ?s (tab |` (- {key}))" using tab_simD(1) [OF t]
      unfolding tab_sim_def p by (auto simp: delete_conv' restrict_map_def simp del: split_paired_All)
    then show ?thesis using u i(3) unfolding cleaned(4) udp_sim_def p by blast
  qed
qed

lemma udp_sim_target:
  assumes "udp_sim cfg P now0 s" "tab_inv cfg s" "i < length (ps_workers s)" "ps_workers s ! i = W_Accepted task r" "ps_now s \<le> now"
  shows "udp_sim cfg P now0 ((process_target resolved now i task r s)\<lparr>ps_now := now\<rparr>)" (is "udp_sim cfg P now0 ?s")
proof -
  have r: "r < length (ps_sessions s)" using worker_ref(1) [OF assms(2,3), of task r] assms(4) by simp
  note p = process_target_parts [OF r, of resolved now i task]
  show ?thesis
  proof (rule udp_sim_quiet [OF assms(1)])
    fix q
    have m: "secs (ps_now s) \<le> secs now" using assms(5) by (rule zdiv_mono1) simp
    show "us_guard (ps_sessions ?s ! q) = us_guard (ps_sessions s ! q) \<and>
      ((\<forall>pc \<in> set (ps_workers ?s). \<not> accepting q pc) \<longrightarrow>
        secs (ps_now s) \<le> us_lastActive (ps_sessions ?s ! q) \<or>
        (\<forall>pc \<in> set (ps_workers s). \<not> accepting q pc) \<and> us_lastActive (ps_sessions s ! q) \<le> us_lastActive (ps_sessions ?s ! q))"
    proof (cases "q = r")
      case True
      then show ?thesis using m r by (simp add: p(9))
    next
      case False
      then show ?thesis using still_accepting [of q "ps_workers s" i "target_pc resolved task r s"] assms(4) by (simp add: p(1,9))
    qed
  qed (use assms(5) in \<open>simp_all add: p\<close>)
qed

lemma plain_udp_sim:
  assumes "plain_udp_run cr cfg P now0 s" "0 < cf_workers cfg" "cf_workers cfg < 2 ^ 64" "0 \<le> cf_maxMemBudget cfg" "0 \<le> now0"
  shows "udp_sim cfg P now0 s"
  using assms(1)
proof (induction rule: plain_udp_run.induct)
  case (p_start b M)
  show ?case using udp_run.u_start [of "cf_cache cfg" "session_ident cfg" P now0]
    unfolding udp_sim_def tab_sim_def by (intro conjI exI [of _ "\<lambda>_. None"]) (simp_all add: plain_udp_start_def)
next
  case (p_receive s addr packet now)
  then show ?case by (elim udp_sim_quiet) (simp_all)
next
  case (p_take s i)
  show ?case by (rule udp_sim_worker [OF p_take.IH, of _ i "if ps_stopped s then W_Done (hd (ps_queues s ! i)) else W_Lookup (hd (ps_queues s ! i))"]) (use p_take in simp_all)
next
  case (p_lookup s i task)
  from processing_moves(1) obtain pc where "ps_workers (process_lookup cfg i task s) = (ps_workers s)[i := pc]" unfolding moves_def by blast
  then show ?case by (rule udp_sim_worker [OF p_lookup.IH, rotated 4]) (use p_lookup in \<open>auto simp: process_lookup_def split: option.splits\<close>)
next
  case (p_create s i task)
  then show ?case using udp_sim_create plain_udp_tab assms(5) by blast
next
  case (p_accept s i task r now ask)
  have "\<not> ps_drained s" using plain_udp_drained [OF p_accept(1) assms(2-4)] busy_not_quiescent [OF p_accept(2,3)] by simp
  then show ?case by (rule udp_sim_accept [OF p_accept(7) plain_udp_tab [OF p_accept(1)] _ p_accept(2,3,5,6)])
next
  case (p_target s i task r now resolved)
  then show ?case using udp_sim_target plain_udp_tab by blast
next
  case (p_dial s i task r identity dialled)
  note p = process_dial_parts [of dialled i task r identity s]
  show ?case by (rule udp_sim_worker [OF p_dial.IH _ _ _ _ p(1)]) (use p_dial in \<open>simp_all add: p nth_update_field dial_session_def Let_def\<close>)
next
  case (p_done s i task)
  show ?case by (rule udp_sim_worker [OF p_done.IH, of _ i W_Idle]) (use p_done in simp_all)
next
  case (p_upstream s t now)
  have "secs (ps_now s) \<le> secs now" using p_upstream(4) by (rule zdiv_mono1) simp
  then show ?case using map_of_inj_ref(1) [OF plain_udp_tab [OF p_upstream(1)]] plain_udp_tab [OF p_upstream(1)] p_upstream(4)
    by (intro udp_sim_quiet [OF p_upstream.IH]) (auto simp: upstream_packet_def tab_inv_def nth_update_field nth_list_update')
next
  case (p_error s t)
  note p = upstream_error_parts [where s = s and t = t]
  show ?case by (rule udp_sim_quiet [OF p_error.IH]) (auto simp: p nth_update_field)
next
  case (p_clean s seconds key)
  then show ?case using udp_sim_clean plain_udp_tab by blast
next
  case (p_drain s)
  then show ?case unfolding udp_sim_def by (auto simp: closeSessions_fold)
qed (erule udp_sim_quiet; simp)+

subsection \<open>Properties\<close>

text \<open>After the shutdown no target is open and no worker dials.\<close>

lemma quiescent_leases:
  assumes "quiescent s"
  shows "leases s = ps_foreign s"
proof -
  have "map target_lease (ps_targets s) = replicate (length (ps_targets s)) {#}"
    using assms by (intro nth_equalityI) (auto simp: quiescent_def target_lease_def)
  moreover have "ps_workers s = replicate (length (ps_workers s)) W_Idle" using assms by (intro replicate_eqI) (simp_all add: quiescent_def)
  then have "map pc_lease (ps_workers s) = replicate (length (ps_workers s)) {#}" by (metis map_replicate pc_lease.simps(2))
  ultimately show ?thesis by (simp add: leases_def wsum_def no_leases)
qed

text \<open>The limits a server is constructed with.\<close>

lemma constructed_limits:
  assumes "NewPlainUDPServerWithUsers trim lower cr cpus users serverID cache = Inr cfg" "cpus < 2 ^ 62"
  shows "cf_workers cfg = max 8 (cpus * 2)" "0 < cf_workers cfg" "cf_workers cfg < 2 ^ 64" "cf_maxSessions cfg = 10000" "cf_maxMemBudget cfg = 67108864"
    "0 \<le> cf_maxMemBudget cfg"
  using assms by (auto simp: NewPlainUDPServerWithUsers_def DefaultUDPMemoryBudget_def split: option.splits sum.splits)

text \<open>
  C33: The native UDP server handles no datagram twice. In every interleaving of its read loop, workers, target readers, cleaner and shutdown, with any
  datagrams and replays of them, sessions that expire after 60 idle seconds and are created again, any outcome of dialling and any answers of
  the replay cache, the packets that pass the replay check are pairwise different in user, session, sequence number and authenticated timestamp.
\<close>

theorem plain_udp_admits_once:
  assumes "NewPlainUDPServerWithUsers trim lower cr cpus users serverID cache = Inr cfg" "cpus < 2 ^ 62"
    and "plain_udp_run cr cfg P now0 s" "0 \<le> now0" "ps_now s < 2 ^ 63 * second"
  shows "distinct (map packet_of (ps_log s))"
proof -
  note c = constructed_limits [OF assms(1,2)]
  obtain tab where u: "udp_run (cf_cache cfg) (session_ident cfg) P now0 \<lparr>ud_tab = tab, ud_log = ps_log s, ud_now = ps_now s\<rparr>"
    using plain_udp_sim [OF assms(3) c(2,3,6) assms(4)] by (auto simp: udp_sim_def)
  have "secs (ps_now s) * second \<le> ps_now s" by (simp add: minus_mod_eq_div_mult [symmetric])
  then have "secs (ps_now s) < 2 ^ 63" using assms(5) by linarith
  then show ?thesis using udp_run_once [OF u assms(4)] by simp
qed

text \<open>
  C34: The resources of the native UDP server stay within their limits in every interleaving: the memory counter is the cost of the queued and running tasks
  and at most 64 MiB, every queue has at most 1024 tasks; until the shutdown the session counter is the number of sessions, which exceeds
  the limit of 10000 by less than the number of workers; a session has at most 32 targets; the process-wide budget counts exactly the leases of
  other transports, of open target sockets and of workers that are dialling, at most 1024 and at most 256 for one identity; and after the
  shutdown only those of other transports are left.
\<close>

theorem plain_udp_resources:
  assumes "NewPlainUDPServerWithUsers trim lower cr cpus users serverID cache = Inr cfg" "cpus < 2 ^ 62" "plain_udp_run cr cfg P now0 s"
  shows "ps_mem s = sum_list (map qcost (ps_queues s)) + wsum pc_cost s \<and> ps_mem s \<le> 67108864 \<and> (\<forall>q \<in> set (ps_queues s). length q \<le> 1024) \<and>
    (ps_drained s \<or> ps_count s = int (length (ps_tab s)) \<and> ps_count s < 10000 + int (max 8 (cpus * 2))) \<and>
    (\<forall>u \<in> set (ps_sessions s). length (us_targets u) \<le> 32) \<and>
    ub_used (ps_budget s) = int (size (leases s)) \<and> size (leases s) \<le> 1024 \<and> (\<forall>identity. count (leases s) identity \<le> 256) \<and>
    (ps_drained s \<longrightarrow> leases s = ps_foreign s)"
proof -
  note c = constructed_limits [OF assms(1,2)]
  note m = plain_udp_mem [OF assms(3) c(2,3,6)] and n = plain_udp_count [OF assms(3) c(2)] and t = plain_udp_targets [OF assms(3)]
  have "ps_drained s \<or> ps_count s = int (length (ps_tab s)) \<and> ps_count s < 10000 + int (max 8 (cpus * 2))"
    using n c creating_sum(2) [of s] by (auto simp: count_inv_def)
  moreover have "\<forall>u \<in> set (ps_sessions s). length (us_targets u) \<le> 32"
  proof
    fix u assume "u \<in> set (ps_sessions s)"
    then obtain r where "r < length (ps_sessions s)" "u = ps_sessions s ! r" by (metis in_set_conv_nth)
    then have "session_targets_ok s r u" using t by (simp add: target_inv_def)
    then show "length (us_targets u) \<le> 32" by (auto simp: session_targets_ok_def split: if_splits)
  qed
  moreover have "leases s = ps_foreign s" if "ps_drained s"
    using quiescent_leases plain_udp_drained [OF assms(3) c(2,3,6)] that by blast
  ultimately show ?thesis using m t c by (simp add: mem_inv_def target_inv_def budget_ok_def)
qed

text \<open>
  C35: No type assertion of the native UDP server fails: the sockets a session keeps for addresses with the prefix \<open>icmp:\<close> are ICMP sockets and all others are UDP
  sockets, so that no worker panics, in whatever order datagrams for both kinds of targets, errors of sockets and the cleaner interleave.
\<close>

theorem plain_udp_no_panic:
  assumes "plain_udp_run cr cfg P now0 s"
  shows "(\<forall>pc \<in> set (ps_workers s). \<forall>task. pc \<noteq> W_Panic task) \<and>
    (\<forall>u \<in> set (ps_sessions s). \<forall>(address, t) \<in> set (us_targets u). tg_icmp (ps_targets s ! t) = prefix (lit ''icmp:'') address)"
proof -
  note t = plain_udp_targets [OF assms]
  have "tg_icmp (ps_targets s ! x) = prefix (lit ''icmp:'') a" if u: "u \<in> set (ps_sessions s)" and a: "(a, x) \<in> set (us_targets u)" for u a x
  proof -
    obtain r where r: "r < length (ps_sessions s)" "u = ps_sessions s ! r" using u by (metis in_set_conv_nth)
    then have x: "x < length (ps_targets s)" "tg_address (ps_targets s ! x) = a" using t a by (auto simp: target_inv_def session_targets_ok_def)
    then have "target_ok (ps_sessions s) x (ps_targets s ! x)" using t by (simp add: target_inv_def)
    then show ?thesis using x(2) by (simp add: target_ok_def icmp_address_def)
  qed
  then show ?thesis using t unfolding target_inv_def by blast
qed

subsection \<open>A run\<close>

text \<open>
  One datagram of session 77 for \<open>a:53\<close> passes through a server with 8 workers: it is received, queued for worker 5, a session is created, the packet accepted
  and its target dialled; then the same datagram arrives again and is refused.
\<close>

definition demo_user :: user_key where "demo_user = \<lparr>uk_email = [], uk_psk = replicate 32 7, uk_level = 0\<rparr>"

definition demo_cfg :: udp_config where
  "demo_cfg = (case NewPlainUDPServerWithUsers (\<lambda>x. x) (\<lambda>x. x) toy_crypto 4 [demo_user] [] False of Inr cfg \<Rightarrow> cfg)"

definition demo_packet :: bytes where
  "demo_packet = replicate 24 9 @ putUint64 1000 @ putUint64 7 @ putUint64 77 @ [3, 1, 97, 0, 53, 5] @ 1 # replicate 15 9"

definition demo_task :: udp_task where
  "demo_task = \<lparr>tk_userIndex = 0, tk_sessionID = 77, tk_clientAddr = [1], tk_targetAddr = lit ''a:53'', tk_payload = [5], tk_memoryCost = 512,
     tk_seq = 7, tk_timestamp = 1000\<rparr>"

lemma demo_cfg: "NewPlainUDPServerWithUsers (\<lambda>x. x) (\<lambda>x. x) toy_crypto 4 [demo_user] [] False = Inr demo_cfg"
proof -
  have "\<not> isl (NewPlainUDPServerWithUsers (\<lambda>x. x) (\<lambda>x. x) toy_crypto 4 [demo_user] [] False)" by code_simp
  then show ?thesis unfolding demo_cfg_def by (auto simp: isl_def split: sum.splits)
qed

lemma constructed_single:
  assumes "NewPlainUDPServerWithUsers trim lower cr cpus [user] serverID cache = Inr cfg"
  shows "cf_cache cfg = cache" "\<exists>c. cf_codecs cfg = [c]"
  using assms by (auto simp: NewPlainUDPServerWithUsers_def NewCodec_def split: option.splits sum.splits prod.splits)

lemma demo_limits: "cf_workers demo_cfg = 8" "cf_maxSessions demo_cfg = 10000" "cf_maxMemBudget demo_cfg = 67108864" "cf_cache demo_cfg = False" "\<exists>c. cf_codecs demo_cfg = [c]"
  using constructed_limits [OF demo_cfg] constructed_single [OF demo_cfg] by simp_all

lemma demo_decode:
  assumes "now \<in> {1000 * second, 1002 * second}"
  shows "decode_client toy_crypto demo_cfg demo_packet now =
    Inr (0, \<lparr>de_sessionID = 77, de_targetAddr = lit ''a:53'', de_payload = [5], de_timestamp = 1000, de_seq = 7\<rparr>)"
proof -
  obtain c where c: "cf_codecs demo_cfg = [c]" using demo_limits(5) by blast
  have "DecodePacket toy_crypto (codec.make k1 k2 n) demo_packet DirClientToServer (unix now) =
    Inr \<lparr>de_sessionID = 77, de_targetAddr = lit ''a:53'', de_payload = [5], de_timestamp = 1000, de_seq = 7\<rparr>" for k1 k2 n
    using assms by (elim insertE emptyE; simp only:) (code_simp)+
  then show ?thesis using c by (cases c) (simp add: decode_client_def codec.make_def)
qed

text \<open>The states of the run.\<close>

definition demo_ws :: "worker \<Rightarrow> worker list" where "demo_ws pc = (replicate 8 W_Idle)[5 := pc]"

definition demo_s0 :: plain_udp where
  "demo_s0 = plain_udp_start demo_cfg (1000 * second) \<lparr>ub_used = 0, ub_users = (\<lambda>_. None)\<rparr> {#}"

definition demo_u :: udp_session where "demo_u = new_session demo_cfg demo_task"

definition demo_id :: bytes where "demo_id = us_identity demo_u"

definition demo_g0 :: udp_window where "demo_g0 = us_guard demo_u"

definition demo_g :: udp_window where "demo_g = snd (AcceptAuthenticated demo_ask 7 1000 (1000 * second) (us_guard demo_u))"

definition demo_s1 :: plain_udp where "demo_s1 = demo_s0\<lparr>ps_mem := 512, ps_workers := demo_ws (W_Lookup demo_task)\<rparr>"

definition demo_s2 :: plain_udp where
  "demo_s2 = demo_s1\<lparr>ps_tab := [((0, 77), 0)], ps_sessions := [demo_u], ps_count := 1, ps_workers := demo_ws (W_Lock demo_task 0)\<rparr>"

definition demo_s3 :: plain_udp where
  "demo_s3 = demo_s2\<lparr>ps_sessions := [demo_u\<lparr>us_guard := demo_g, us_locked := True\<rparr>], ps_workers := demo_ws (W_Accepted demo_task 0),
     ps_log := [((0, 77), 7, 1000, 1000 * second)]\<rparr>"

definition demo_s4 :: plain_udp where
  "demo_s4 = demo_s3\<lparr>ps_sessions := [demo_u\<lparr>us_guard := demo_g, us_clientAddr := Some [1], us_lastActive := 1001, us_locked := True\<rparr>],
     ps_budget := \<lparr>ub_used = 1, ub_users = [demo_id \<mapsto> 1]\<rparr>, ps_workers := demo_ws (W_Dial demo_task 0 (demo_id)), ps_now := 1001 * second\<rparr>"

definition demo_s5 :: plain_udp where
  "demo_s5 = demo_s4\<lparr>ps_sessions := [demo_u\<lparr>us_guard := demo_g, us_clientAddr := Some [1], us_targets := [(lit ''a:53'', 0)], us_targetCount := 1, us_lastActive := 1001\<rparr>],
     ps_targets := [\<lparr>tg_icmp = False, tg_session = 0, tg_address = lit ''a:53'', tg_identity = demo_id, tg_closed = False, tg_reading = True\<rparr>],
     ps_workers := demo_ws (W_Done demo_task)\<rparr>"

definition demo_s6 :: plain_udp where "demo_s6 = demo_s5\<lparr>ps_workers := demo_ws (W_Lock demo_task 0)\<rparr>"

definition demo_s7 :: plain_udp where "demo_s7 = demo_s6\<lparr>ps_workers := demo_ws (W_Done demo_task), ps_now := 1002 * second\<rparr>"

lemma demo_frame: "length (demo_ws pc) = 8" "(demo_ws pc)[5 := pc'] = demo_ws pc'" "demo_ws pc ! 5 = pc" "demo_ws W_Idle = replicate 8 W_Idle"
  by (simp_all add: demo_ws_def list_update_same_conv)

lemma demo_worker_of: "worker_of demo_cfg 0 77 = 5"
  unfolding worker_of_def demo_limits by code_simp

lemma demo_receive:
  assumes "now \<in> {1000 * second, 1002 * second}" "ps_mem s = 0" "ps_queues s = replicate 8 []"
  shows "udp_receive toy_crypto demo_cfg [1] demo_packet now s = s\<lparr>ps_mem := 512, ps_queues := (replicate 8 [])[5 := [demo_task]]\<rparr>"
proof -
  have "plainUDPTaskMemoryCost (int (length demo_packet)) = 512" by code_simp
  then show ?thesis unfolding udp_receive_def demo_decode [OF assms(1)] demo_limits Let_def
    using assms(2,3) by (simp add: demo_worker_of demo_task_def DefaultUDPWorkerQueueSize_def)
qed

lemma demo_enqueued:
  assumes "plain_udp_run toy_crypto demo_cfg {} (1000 * second) s" "now \<in> {1000 * second, 1002 * second}" "ps_mem s = 0" "ps_queues s = replicate 8 []"
    and "ps_workers s = replicate 8 W_Idle" "\<not> ps_drained s" "\<not> ps_stopped s"
  shows "plain_udp_run toy_crypto demo_cfg {} (1000 * second) (s\<lparr>ps_mem := 512, ps_workers := demo_ws (W_Lookup demo_task)\<rparr>)"
proof -
  have "plain_udp_run toy_crypto demo_cfg {} (1000 * second) (s\<lparr>ps_mem := 512, ps_queues := (replicate 8 [])[5 := [demo_task]]\<rparr>)"
    using p_receive [OF assms(1,6), of "[1]" demo_packet now] unfolding demo_receive [OF assms(2-4)] .
  from p_take [OF this, of 5] assms(5,7)
  have "plain_udp_run toy_crypto demo_cfg {} (1000 * second)
      (s\<lparr>ps_mem := 512, ps_queues := (replicate 8 [])[5 := []], ps_workers := (replicate 8 W_Idle)[5 := W_Lookup demo_task]\<rparr>)"
    by (simp add: worker_take_def Let_def set_pc_def)
  moreover have "(replicate 8 [])[5 := []] = ps_queues s" unfolding assms(4) by (simp add: list_update_same_conv)
  ultimately show ?thesis by (simp add: demo_ws_def)
qed

lemma demo_verdicts:
  "AcceptAuthenticated demo_ask 7 1000 (1000 * second) (us_guard demo_u) = (True, demo_g)"
  "AcceptAuthenticated demo_ask 7 1000 (1002 * second) demo_g = (False, demo_g)"
proof -
  have u: "us_guard demo_u = NewPersistentUDPReplayWindow False (cf_namespaces demo_cfg ! 0) 77"
    by (simp add: demo_u_def new_session_def demo_limits demo_task_def)
  have "fst (AcceptAuthenticated demo_ask 7 1000 (1000 * second) (NewPersistentUDPReplayWindow False ns 77))" for ns by code_simp
  then show a: "AcceptAuthenticated demo_ask 7 1000 (1000 * second) (us_guard demo_u) = (True, demo_g)"
    unfolding demo_g_def u by (simp add: prod_eq_iff)
  have "AcceptAuthenticated demo_ask 7 1000 (1002 * second) (snd (AcceptAuthenticated demo_ask 7 1000 (1000 * second) (NewPersistentUDPReplayWindow False ns 77)))
    = (False, snd (AcceptAuthenticated demo_ask 7 1000 (1000 * second) (NewPersistentUDPReplayWindow False ns 77)))" for ns by code_simp
  then show "AcceptAuthenticated demo_ask 7 1000 (1002 * second) demo_g = (False, demo_g)" unfolding demo_g_def u .
qed

lemma demo_task_fields [simp]:
  "tk_userIndex demo_task = 0" "tk_sessionID demo_task = 77" "tk_seq demo_task = 7" "tk_timestamp demo_task = 1000" "task_key demo_task = (0, 77)"
  "tk_targetAddr demo_task = lit ''a:53''" "tk_memoryCost demo_task = 512" "tk_clientAddr demo_task = [1]" "is_icmp demo_task = False"
  "us_closed demo_u = False" "us_locked demo_u = False" "us_targets demo_u = []" "us_targetCount demo_u = 0"
  by (simp_all add: demo_task_def task_key_def is_icmp_def demo_u_def new_session_def lit_def)

lemma demo_u_fields: "demo_u = \<lparr>us_key = (0, 77), us_guard = demo_g0, us_identity = demo_id, us_clientAddr = None, us_targets = [], us_targetCount = 0,
    us_lastActive = 0, us_closed = False, us_locked = False\<rparr>"
  by (rule udp_session.equality) (simp_all add: demo_g0_def demo_id_def, simp_all add: demo_u_def new_session_def)

lemmas demo_states = demo_s0_def demo_s1_def demo_s2_def demo_s3_def demo_s4_def demo_s5_def demo_s6_def demo_s7_def plain_udp_start_def demo_frame

lemma demo_accepted: "plain_udp_run toy_crypto demo_cfg {} (1000 * second) demo_s3"
proof -
  let ?run = "plain_udp_run toy_crypto demo_cfg {} (1000 * second)"
  obtain c where c: "cf_codecs demo_cfg = [c]" using demo_limits(5) by blast
  have "budget_ok \<lparr>ub_used = 0, ub_users = (\<lambda>_. None)\<rparr> {#}" by (simp add: budget_ok_def users_of_def)
  from p_start [OF this] have "?run demo_s0" unfolding demo_s0_def .
  then have "?run demo_s1" unfolding demo_s1_def
    by (rule demo_enqueued [of _ "1000 * second"]) (simp_all add: demo_s0_def plain_udp_start_def demo_limits)
  from p_lookup [OF this, of 5 demo_task]
  have "?run (demo_s1\<lparr>ps_workers := demo_ws (W_Create demo_task)\<rparr>)"
    by (simp add: demo_states process_lookup_def set_pc_def c demo_limits)
  from p_create [OF this, of 5 demo_task] have "?run demo_s2"
    by (simp add: demo_states process_create_def set_pc_def demo_u_def)
  from p_accept [OF this, of 5 demo_task 0 "1000 * second" demo_ask] show ?thesis
    by (simp add: demo_states process_accept_def set_pc_def
        update_session_def demo_verdicts [simplified] log_if_def) (simp add: demo_ask_def)
qed

lemma demo_reserved: "ReserveUDPTarget identity \<lparr>ub_used = 0, ub_users = (\<lambda>_. None)\<rparr> = Some \<lparr>ub_used = 1, ub_users = [identity \<mapsto> 1]\<rparr>"
  by (simp add: ReserveUDPTarget_def MaxUDPTargets_def MaxUserUDPTargets_def users_of_def)

lemma demo_replayed: "plain_udp_run toy_crypto demo_cfg {} (1000 * second) demo_s7"
proof -
  let ?run = "plain_udp_run toy_crypto demo_cfg {} (1000 * second)"
  obtain c where c: "cf_codecs demo_cfg = [c]" using demo_limits(5) by blast
  from p_target [OF demo_accepted, of 5 demo_task 0 "1001 * second" False] have "?run demo_s4"
    by (simp add: demo_u_fields demo_states process_target_def Let_def update_session_def set_pc_def demo_reserved)
  from p_dial [OF this, of 5 demo_task 0 "demo_id" True] have "?run demo_s5"
    by (simp add: demo_u_fields demo_states process_dial_def Let_def update_session_def set_pc_def)
  from p_done [OF this, of 5 demo_task] have "?run (demo_s5\<lparr>ps_mem := 0, ps_workers := replicate 8 W_Idle\<rparr>)"
    by (simp add: demo_u_fields demo_states worker_done_def set_pc_def)
  from demo_enqueued [OF this, of "1002 * second"] have "?run (demo_s5\<lparr>ps_mem := 512, ps_workers := demo_ws (W_Lookup demo_task)\<rparr>)"
    by (simp add: demo_u_fields demo_states demo_limits)
  from p_lookup [OF this, of 5 demo_task] have "?run demo_s6"
    by (simp add: demo_u_fields demo_states process_lookup_def set_pc_def c)
  from p_accept [OF this, of 5 demo_task 0 "1002 * second" demo_ask] show ?thesis
    by (simp add: demo_u_fields demo_states process_accept_def set_pc_def update_session_def demo_verdicts [simplified] log_if_def) (simp add: demo_ask_def)
qed

theorem plain_udp_admits_once_witness:
  "\<exists>s. plain_udp_run toy_crypto demo_cfg {} (1000 * second) s \<and> ps_workers s ! 5 = W_Done demo_task \<and> ps_log s = [((0, 77), 7, 1000, 1000 * second)] \<and>
     distinct (map packet_of (ps_log s))"
  using plain_udp_admits_once [OF demo_cfg _ demo_replayed] demo_replayed by (intro exI [of _ demo_s7]) (simp add: demo_states)

theorem plain_udp_resources_witness:
  "ps_mem demo_s7 = 512 \<and> ps_count demo_s7 = 1 \<and> 1 < 10000 + int (max 8 (4 * 2)) \<and> ub_used (ps_budget demo_s7) = 1 \<and> size (leases demo_s7) = 1"
  using plain_udp_resources [OF demo_cfg _ demo_replayed] by (auto simp: demo_states)

theorem plain_udp_no_panic_witness:
  "us_targets (ps_sessions demo_s7 ! 0) = [(lit ''a:53'', 0)] \<and> \<not> tg_icmp (ps_targets demo_s7 ! 0) \<and> W_Panic demo_task \<notin> set (ps_workers demo_s7) \<and>
     \<not> prefix (lit ''icmp:'') (lit ''a:53'')"
  using plain_udp_no_panic [OF demo_replayed] by (auto simp: demo_states)

end
