(* ===== verification/CarrierPool.thy ===== *)
theory CarrierPool
  imports Crypto GoText "HOL-Library.Multiset" "HOL-Library.Sublist"
begin

text \<open>
  The carrier pools of the client: choosing a carrier for a stream and closing the client
  (\<^verbatim>\<open>src/pkg/client/client.go\<close>), statistics, adding and evicting carriers (\<^verbatim>\<open>src/pkg/client/scaler.go\<close>), the
  failover hysteresis of the prober (\<^verbatim>\<open>src/pkg/client/prober.go\<close>) and the decision of the autoscaler plugin to
  scale (\<^verbatim>\<open>src/pkg/plugin/autoscaler/autoscaler.go\<close>). Carriers are objects on a heap, because streams hold
  references to carriers that were evicted. What runs under the locks is one step; the steps of all goroutines interleave freely.
  Creating and probing a carrier are outcomes. Times are nanoseconds; the zero time is \<open>None\<close>.
\<close>

subsection \<open>Data\<close>

record carrier =
  ca_active :: int
  ca_dynamic :: bool
  ca_idleSince :: "int option"
  ca_closed :: bool

record pool =
  po_refs :: "nat list"
  po_base :: nat
  po_next :: u64

record client =
  cl_closed :: bool
  cl_max :: int
  cl_h2 :: pool
  cl_h3 :: pool
  cl_carriers :: "carrier list"

definition new_carrier :: carrier where
  "new_carrier = \<lparr>ca_active = 0, ca_dynamic = False, ca_idleSince = None, ca_closed = False\<rparr>"

definition ErrPoolAtCapacity :: goerr where "ErrPoolAtCapacity = Errorf ''chitanda: connection pool reached maximum capacity''"
definition ErrUnsupportedTransport :: goerr where "ErrUnsupportedTransport = Errorf ''chitanda: transport does not support carrier scaling''"
definition errClientClosed :: goerr where "errClientClosed = Errorf ''client closed''"

definition pool_of :: "string \<Rightarrow> client \<Rightarrow> pool option" where
  "pool_of transport c = (if transport = ''h2'' then Some (cl_h2 c) else if transport = ''h3'' then Some (cl_h3 c) else None)"

definition set_pool :: "string \<Rightarrow> pool \<Rightarrow> client \<Rightarrow> client" where
  "set_pool transport p c = (if transport = ''h2'' then c\<lparr>cl_h2 := p\<rparr> else c\<lparr>cl_h3 := p\<rparr>)"

definition update_carrier :: "nat \<Rightarrow> (carrier \<Rightarrow> carrier) \<Rightarrow> client \<Rightarrow> client" where
  "update_carrier r f c = c\<lparr>cl_carriers := (cl_carriers c)[r := f (cl_carriers c ! r)]\<rparr>"

definition active :: "client \<Rightarrow> nat \<Rightarrow> int" where
  "active c r = ca_active (cl_carriers c ! r)"

subsection \<open>Construction\<close>

text \<open>The sizes \<open>New\<close> computes: carriers of HTTP/2 and HTTP/3 to start with and the limit of both pools.\<close>

definition tcp_size :: "int \<Rightarrow> int" where
  "tcp_size n = (let n = (if n \<le> 0 then 4 else n) in if 16 < n then 16 else n)"

definition udp_size :: "int \<Rightarrow> int \<Rightarrow> int" where
  "udp_size tcp n = (let n = (if n \<le> 0 then tcp_size tcp else n) in if 16 < n then 16 else n)"

definition h2_count :: "string \<Rightarrow> int \<Rightarrow> nat" where
  "h2_count transport tcp =
     (if transport \<in> {''plain-h1'', ''h1'', ''stream''} then 0 else if transport = ''h3'' then 0 else nat (tcp_size tcp))"

definition h3_count :: "string \<Rightarrow> int \<Rightarrow> int \<Rightarrow> nat" where
  "h3_count transport tcp udp =
     (if transport \<in> {''plain-h1'', ''h1'', ''stream''} then 0
      else let n = udp_size tcp udp
           in nat (if transport \<in> {''h3'', ''auto''} \<and> n < tcp_size tcp then tcp_size tcp else n))"

definition max_carriers :: "int \<Rightarrow> int \<Rightarrow> int \<Rightarrow> int" where
  "max_carriers tcp udp n =
     (let n = (if n \<le> 0 then 8 else n); n = (if 16 < n then 16 else n);
          n = (if n < tcp_size tcp then tcp_size tcp else n)
      in if n < udp_size tcp udp then udp_size tcp udp else n)"

definition new_client :: "string \<Rightarrow> int \<Rightarrow> int \<Rightarrow> int \<Rightarrow> client" where
  "new_client transport tcp udp maxPool =
     (let m = h2_count transport tcp; n = h3_count transport tcp udp
      in \<lparr>cl_closed = False, cl_max = max_carriers tcp udp maxPool, cl_h2 = \<lparr>po_refs = [0..<m], po_base = m, po_next = 0\<rparr>,
          cl_h3 = \<lparr>po_refs = [m..<m + n], po_base = n, po_next = 0\<rparr>, cl_carriers = replicate (m + n) new_carrier\<rparr>)"

subsection \<open>Choosing a carrier\<close>

text \<open>
  \<open>loads i\<close> is the number of streams the loop reads for the carrier at index \<open>i\<close>; streams come and go while it runs. The result is the carrier with
  what the autoscaler is told.
\<close>

function best_loop :: "(nat \<Rightarrow> int) \<Rightarrow> nat \<Rightarrow> nat \<Rightarrow> nat \<Rightarrow> nat \<times> int \<Rightarrow> nat \<times> int" where
  "best_loop loads start n i (best, minActive) =
     (if i < n then let idx = (start + i) mod n
                    in best_loop loads start n (Suc i) (if loads idx < minActive then (idx, loads idx) else (best, minActive))
      else (best, minActive))"
  by pat_completeness auto
termination
  by (relation "measure (\<lambda>(loads, start, n, i, b). n - i)") auto

declare best_loop.simps [simp del]

definition pickBest :: "string \<Rightarrow> (nat \<Rightarrow> int) \<Rightarrow> client \<Rightarrow> (nat \<times> int \<times> nat) option \<times> client" where
  "pickBest transport loads c =
     (case pool_of transport c of
        None \<Rightarrow> (None, c)
      | Some p \<Rightarrow>
          let n = length (po_refs p)
          in if n = 0 then (None, c)
             else if n = 1 then
               let r = po_refs p ! 0; c = update_carrier r (\<lambda>x. x\<lparr>ca_active := ca_active x + 1\<rparr>) c
               in (Some (r, active c r, 1), c)
             else
               let p = p\<lparr>po_next := po_next p + 1\<rparr>; start = unat (po_next p mod word_of_nat n);
                   (best, minActive) = best_loop loads start n 1 (start, loads start); r = po_refs p ! best
               in (Some (r, minActive + 1, n), update_carrier r (\<lambda>x. x\<lparr>ca_active := ca_active x + 1\<rparr>) (set_pool transport p c)))"

definition reserveH3Manager :: "(nat \<Rightarrow> int) \<Rightarrow> client \<Rightarrow> (nat \<times> int \<times> nat) option \<times> client" where
  "reserveH3Manager loads c = (if cl_closed c then (None, c) else pickBest ''h3'' loads c)"

text \<open>
  The end of a stream or of a failed dial. The run relation below lets a stream end once; the guards that see to this are in the connections (\<^verbatim>\<open>conn_tcp.go\<close> and
  \<^verbatim>\<open>conn_udp.go\<close>, for packets \<open>quic_Close\<close> of \<open>ClientQuic\<close>).
\<close>

definition release_stream :: "nat \<Rightarrow> client \<Rightarrow> client" where
  "release_stream r c = update_carrier r (\<lambda>x. x\<lparr>ca_active := ca_active x - 1\<rparr>) c"

subsection \<open>Statistics\<close>

record pool_stats =
  st_total :: nat
  st_base :: nat
  st_dynamic :: nat
  st_streams :: "int list"
  st_min :: int
  st_max :: int
  st_sum :: int

text \<open>The first carrier is read twice: \<open>first\<close> is what the initialisation read and \<open>acts\<close> what the loop read.\<close>

fun stats_loop :: "int list \<Rightarrow> int \<times> int \<times> int \<Rightarrow> int \<times> int \<times> int" where
  "stats_loop [] s = s"
| "stats_loop (act # acts) (mn, mx, sm) =
     stats_loop acts (if act < mn then act else mn, if mx < act then act else mx, sm + act)"

definition Stats :: "string \<Rightarrow> int \<Rightarrow> int list \<Rightarrow> client \<Rightarrow> pool_stats" where
  "Stats transport first acts c =
     (case pool_of transport c of
        None \<Rightarrow> \<lparr>st_total = 0, st_base = 0, st_dynamic = 0, st_streams = [], st_min = 0, st_max = 0, st_sum = 0\<rparr>
      | Some p \<Rightarrow>
          let total = length (po_refs p); base = (if total < po_base p then total else po_base p)
          in if total = 0 then \<lparr>st_total = 0, st_base = base, st_dynamic = total - base, st_streams = [], st_min = 0, st_max = 0, st_sum = 0\<rparr>
             else let (mn, mx, sm) = stats_loop acts (first, first, 0)
                  in \<lparr>st_total = total, st_base = base, st_dynamic = total - base, st_streams = acts, st_min = mn, st_max = mx, st_sum = sm\<rparr>)"

subsection \<open>Adding and evicting carriers\<close>

text \<open>
  \<open>AddCarrier\<close>: the checks before the carrier is created, each under its own lock, and the registration under both. \<open>ctxErr\<close> is the error of the
  caller's context.
\<close>

definition add_begin :: "goerr option \<Rightarrow> client \<Rightarrow> goerr option" where
  "add_begin ctxErr c = (if ctxErr \<noteq> None then ctxErr else if cl_closed c then Some errClientClosed else None)"

definition add_capacity :: "string \<Rightarrow> client \<Rightarrow> goerr option" where
  "add_capacity transport c =
     (case pool_of transport c of
        None \<Rightarrow> Some ErrUnsupportedTransport
      | Some p \<Rightarrow> if cl_max c \<le> int (length (po_refs p)) then Some ErrPoolAtCapacity else None)"

definition add_create :: "client \<Rightarrow> nat \<times> client" where
  "add_create c = (length (cl_carriers c), c\<lparr>cl_carriers := cl_carriers c @ [new_carrier]\<rparr>)"

definition add_register :: "goerr option \<Rightarrow> int \<Rightarrow> string \<Rightarrow> nat \<Rightarrow> client \<Rightarrow> goerr option \<times> client" where
  "add_register ctxErr now transport r c =
     (let c = update_carrier r (\<lambda>x. x\<lparr>ca_dynamic := True, ca_idleSince := Some now\<rparr>) c
      in case pool_of transport c of
           None \<Rightarrow> (Some ErrUnsupportedTransport, c)
         | Some p \<Rightarrow>
             let atCapacity = cl_max c \<le> int (length (po_refs p))
             in if cl_closed c then (Some errClientClosed, c)
                else if ctxErr \<noteq> None then (ctxErr, c)
                else if atCapacity then (Some ErrPoolAtCapacity, c)
                else (None, set_pool transport (p\<lparr>po_refs := po_refs p @ [r]\<rparr>) c))"

text \<open>The checks of \<open>RemoveIdleCarrier\<close> that fail.\<close>

definition remove_begin :: "string \<Rightarrow> client \<Rightarrow> goerr option" where
  "remove_begin transport c = (if cl_closed c then Some errClientClosed else if pool_of transport c = None then Some ErrUnsupportedTransport else None)"

text \<open>The loop of \<open>RemoveIdleCarrier\<close> over the carriers behind the base ones; the result counts from there.\<close>

fun idle_loop :: "int \<Rightarrow> int \<Rightarrow> nat list \<Rightarrow> client \<Rightarrow> nat option \<times> client" where
  "idle_loop now minIdle [] c = (None, c)"
| "idle_loop now minIdle (r # rs) c =
     (if active c r = 0 then
        let c = (if ca_idleSince (cl_carriers c ! r) = None then update_carrier r (ca_idleSince_update (\<lambda>_. Some now)) c else c)
        in if minIdle = 0 \<or> minIdle \<le> now - the (ca_idleSince (cl_carriers c ! r)) then (Some 0, c)
           else map_prod (map_option Suc) (\<lambda>c. c) (idle_loop now minIdle rs c)
      else map_prod (map_option Suc) (\<lambda>c. c) (idle_loop now minIdle rs (update_carrier r (ca_idleSince_update (\<lambda>_. None)) c)))"

definition remove_idle :: "int \<Rightarrow> int \<Rightarrow> string \<Rightarrow> client \<Rightarrow> nat option \<times> client" where
  "remove_idle now minIdle transport c =
     (case pool_of transport c of
        None \<Rightarrow> (None, c)
      | Some p \<Rightarrow>
          if length (po_refs p) \<le> po_base p then (None, c)
          else (case idle_loop now minIdle (drop (po_base p) (po_refs p)) c of
                  (None, c) \<Rightarrow> (None, c)
                | (Some i, c) \<Rightarrow>
                    let candidateIdx = po_base p + i
                    in (Some (po_refs p ! candidateIdx),
                        set_pool transport (p\<lparr>po_refs := take candidateIdx (po_refs p) @ drop (Suc candidateIdx) (po_refs p)\<rparr>) c)))"

definition close_carrier :: "nat \<Rightarrow> client \<Rightarrow> client" where
  "close_carrier r c = update_carrier r (ca_closed_update (\<lambda>_. True)) c"

text \<open>\<open>Close\<close>: the section that marks the client and the one that takes the pools.\<close>

definition close_begin :: "client \<Rightarrow> client option" where
  "close_begin c = (if cl_closed c then None else Some (c\<lparr>cl_closed := True\<rparr>))"

definition close_drain :: "client \<Rightarrow> nat list \<times> client" where
  "close_drain c = (po_refs (cl_h2 c) @ po_refs (cl_h3 c), c\<lparr>cl_h2 := (cl_h2 c)\<lparr>po_refs := []\<rparr>, cl_h3 := (cl_h3 c)\<lparr>po_refs := []\<rparr>\<rparr>)"

subsection \<open>Failover of the prober\<close>

definition ErrCarrierNotReady :: goerr where "ErrCarrierNotReady = Errorf ''chitanda: carrier dialer not ready''"





subsection \<open>Decisions of the autoscaler\<close>

record scaler =
  sc_maxCarriers :: int
  sc_threshold :: int
  sc_idle :: int
  sc_cooldown :: int
  sc_sweep :: int

definition New_autoscaler :: "scaler \<Rightarrow> scaler" where
  "New_autoscaler cfg =
     (let cfg = (if sc_maxCarriers cfg \<le> 0 then cfg\<lparr>sc_maxCarriers := 8\<rparr> else cfg);
          cfg = (if 16 < sc_maxCarriers cfg then cfg\<lparr>sc_maxCarriers := 16\<rparr> else cfg);
          cfg = (if sc_threshold cfg \<le> 0 then cfg\<lparr>sc_threshold := 4\<rparr> else cfg);
          cfg = (if sc_idle cfg \<le> 0 then cfg\<lparr>sc_idle := 30000000000\<rparr> else cfg);
          cfg = (if sc_cooldown cfg \<le> 0 then cfg\<lparr>sc_cooldown := 1000000000\<rparr> else cfg)
      in if sc_sweep cfg \<le> 0 then cfg\<lparr>sc_sweep := 5000000000\<rparr> else cfg)"

definition Init_autoscaler :: "int \<Rightarrow> scaler \<Rightarrow> scaler" where
  "Init_autoscaler poolMax cfg = (if 0 < poolMax \<and> poolMax < sc_maxCarriers cfg then cfg\<lparr>sc_maxCarriers := poolMax\<rparr> else cfg)"

text \<open>The average is a quotient of numbers far below \<open>2 ^ 53\<close>, so comparing its \<open>float64\<close> value with
  the threshold compares the sum with the product.\<close>

definition tryScaleUp :: "scaler \<Rightarrow> int option \<Rightarrow> int \<Rightarrow> pool_stats \<Rightarrow> bool" where
  "tryScaleUp cfg lastScale now stats =
     (if lastScale \<noteq> None \<and> now - the lastScale < sc_cooldown cfg then False
      else if sc_maxCarriers cfg \<le> int (st_total stats) \<or> int (st_total stats) \<le> 0 then False
      else if sc_threshold cfg \<le> st_min stats then True
      else if sc_threshold cfg * int (st_total stats) \<le> st_sum stats then True
      else max 6 (sc_threshold cfg * 2) \<le> st_max stats \<and> int (st_total stats) < st_sum stats)"

subsection \<open>Interleavings\<close>

text \<open>
  \<open>pw_streams\<close> has the carrier of every stream that is open or being dialled, \<open>pw_adding\<close> the carriers \<open>AddCarrier\<close> has created and not yet registered or
  given up, \<open>pw_closing\<close> the carriers that were taken out of a pool, or never got into one, and are about to be closed. The checks of \<open>AddCarrier\<close> and
  \<open>RemoveIdleCarrier\<close> before these sections hold in earlier states only, so nothing is assumed of them.
\<close>

record pool_world =
  pw_client :: client
  pw_streams :: "nat multiset"
  pw_adding :: "(string \<times> nat) multiset"
  pw_closing :: "nat multiset"
  pw_drained :: bool

inductive pool_run :: "string \<Rightarrow> int \<Rightarrow> int \<Rightarrow> int \<Rightarrow> pool_world \<Rightarrow> bool" for transport tcp udp maxPool where
  w_new: "pool_run transport tcp udp maxPool
    \<lparr>pw_client = new_client transport tcp udp maxPool, pw_streams = {#}, pw_adding = {#}, pw_closing = {#}, pw_drained = False\<rparr>"
| w_pick: "pool_run transport tcp udp maxPool w \<Longrightarrow> pickBest ''h2'' loads (pw_client w) = (Some (r, told), c) \<Longrightarrow>
    pool_run transport tcp udp maxPool (w\<lparr>pw_client := c, pw_streams := add_mset r (pw_streams w)\<rparr>)"
| w_reserve: "pool_run transport tcp udp maxPool w \<Longrightarrow> reserveH3Manager loads (pw_client w) = (Some (r, told), c) \<Longrightarrow>
    pool_run transport tcp udp maxPool (w\<lparr>pw_client := c, pw_streams := add_mset r (pw_streams w)\<rparr>)"
| w_release: "pool_run transport tcp udp maxPool w \<Longrightarrow> r \<in># pw_streams w \<Longrightarrow>
    pool_run transport tcp udp maxPool (w\<lparr>pw_client := release_stream r (pw_client w), pw_streams := pw_streams w - {#r#}\<rparr>)"
| w_create: "pool_run transport tcp udp maxPool w \<Longrightarrow> t \<in> {''h2'', ''h3''} \<Longrightarrow> add_create (pw_client w) = (r, c) \<Longrightarrow>
    pool_run transport tcp udp maxPool (w\<lparr>pw_client := c, pw_adding := add_mset (t, r) (pw_adding w)\<rparr>)"
| w_unprobed: "pool_run transport tcp udp maxPool w \<Longrightarrow> (t, r) \<in># pw_adding w \<Longrightarrow>
    pool_run transport tcp udp maxPool (w\<lparr>pw_adding := pw_adding w - {#(t, r)#}, pw_closing := add_mset r (pw_closing w)\<rparr>)"
| w_register: "pool_run transport tcp udp maxPool w \<Longrightarrow> (t, r) \<in># pw_adding w \<Longrightarrow> add_register ctxErr now t r (pw_client w) = (err, c) \<Longrightarrow>
    pool_run transport tcp udp maxPool (w\<lparr>pw_client := c, pw_adding := pw_adding w - {#(t, r)#},
      pw_closing := (if err = None then pw_closing w else add_mset r (pw_closing w))\<rparr>)"
| w_remove: "pool_run transport tcp udp maxPool w \<Longrightarrow> remove_idle now minIdle t (pw_client w) = (evicted, c) \<Longrightarrow>
    pool_run transport tcp udp maxPool (w\<lparr>pw_client := c, pw_closing := (case evicted of None \<Rightarrow> pw_closing w | Some r \<Rightarrow> add_mset r (pw_closing w))\<rparr>)"
| w_closed: "pool_run transport tcp udp maxPool w \<Longrightarrow> r \<in># pw_closing w \<Longrightarrow>
    pool_run transport tcp udp maxPool (w\<lparr>pw_client := close_carrier r (pw_client w), pw_closing := pw_closing w - {#r#}\<rparr>)"
| w_close: "pool_run transport tcp udp maxPool w \<Longrightarrow> close_begin (pw_client w) = Some c \<Longrightarrow> pool_run transport tcp udp maxPool (w\<lparr>pw_client := c\<rparr>)"
| w_drain: "pool_run transport tcp udp maxPool w \<Longrightarrow> cl_closed (pw_client w) \<Longrightarrow> \<not> pw_drained w \<Longrightarrow> close_drain (pw_client w) = (rs, c) \<Longrightarrow>
    pool_run transport tcp udp maxPool (w\<lparr>pw_client := c, pw_closing := pw_closing w + mset rs, pw_drained := True\<rparr>)"

subsection \<open>The invariant\<close>

text \<open>Every carrier that is not closed has exactly one owner: a pool, an \<open>AddCarrier\<close> in progress, or whoever is about to close it.\<close>

definition pooled :: "client \<Rightarrow> nat list" where
  "pooled c = po_refs (cl_h2 c) @ po_refs (cl_h3 c)"

definition owned :: "pool_world \<Rightarrow> nat multiset" where
  "owned w = mset (pooled (pw_client w)) + image_mset snd (pw_adding w) + pw_closing w"

definition open_carriers :: "client \<Rightarrow> nat multiset" where
  "open_carriers c = mset (filter (\<lambda>r. \<not> ca_closed (cl_carriers c ! r)) [0..<length (cl_carriers c)])"

definition pool_ok :: "bool \<Rightarrow> int \<Rightarrow> nat list \<Rightarrow> pool \<Rightarrow> bool" where
  "pool_ok drained limit base p \<longleftrightarrow> po_base p = length base \<and> int (length base) \<le> limit \<and>
     (if drained then po_refs p = [] else prefix base (po_refs p) \<and> int (length (po_refs p)) \<le> limit)"

definition streams_ok :: "client \<Rightarrow> nat multiset \<Rightarrow> bool" where
  "streams_ok c M \<longleftrightarrow> (\<forall>r < length (cl_carriers c). active c r = int (count M r)) \<and>
     (\<forall>r \<in># M. r < length (cl_carriers c) \<and> (cl_closed c \<or> r \<in> set (pooled c)))"

definition pool_inv :: "nat list \<Rightarrow> nat list \<Rightarrow> int \<Rightarrow> pool_world \<Rightarrow> bool" where
  "pool_inv base2 base3 limit w \<longleftrightarrow> owned w = open_carriers (pw_client w) \<and> cl_max (pw_client w) = limit \<and>
     pool_ok (pw_drained w) limit base2 (cl_h2 (pw_client w)) \<and> pool_ok (pw_drained w) limit base3 (cl_h3 (pw_client w)) \<and>
     streams_ok (pw_client w) (pw_streams w) \<and> (pw_drained w \<longrightarrow> cl_closed (pw_client w))"

lemma update_carrier_frame [simp]:
  "cl_closed (update_carrier r f c) = cl_closed c" "cl_max (update_carrier r f c) = cl_max c" "cl_h2 (update_carrier r f c) = cl_h2 c"
  "cl_h3 (update_carrier r f c) = cl_h3 c" "cl_carriers (update_carrier r f c) = (cl_carriers c)[r := f (cl_carriers c ! r)]"
  "pool_of t (update_carrier r f c) = pool_of t c" "pooled (update_carrier r f c) = pooled c"
  by (simp_all add: update_carrier_def pool_of_def pooled_def)

lemma set_pool_frame [simp]:
  "cl_closed (set_pool t p c) = cl_closed c" "cl_max (set_pool t p c) = cl_max c" "cl_carriers (set_pool t p c) = cl_carriers c"
  "open_carriers (set_pool t p c) = open_carriers c" "active (set_pool t p c) = active c"
  by (auto simp: set_pool_def open_carriers_def active_def)

lemma open_carriers_update:
  assumes "\<And>x. ca_closed (f x) = ca_closed x"
  shows "open_carriers (update_carrier r f c) = open_carriers c"
proof -
  have "ca_closed ((cl_carriers c)[r := f (cl_carriers c ! r)] ! q) = ca_closed (cl_carriers c ! q)" for q
    using assms by (cases "q = r"; cases "r < length (cl_carriers c)") (simp_all add: list_update_beyond)
  then show ?thesis by (simp add: open_carriers_def)
qed

lemma owned_less:
  assumes "owned w = open_carriers (pw_client w)" "r \<in># owned w"
  shows "r < length (cl_carriers (pw_client w))" "\<not> ca_closed (cl_carriers (pw_client w) ! r)" "count (owned w) r = 1"
proof -
  let ?xs = "filter (\<lambda>r. \<not> ca_closed (cl_carriers (pw_client w) ! r)) [0..<length (cl_carriers (pw_client w))]"
  have "r \<in> set ?xs" using assms unfolding open_carriers_def by (metis set_mset_mset)
  moreover have "distinct ?xs" by simp
  ultimately show "r < length (cl_carriers (pw_client w))" "\<not> ca_closed (cl_carriers (pw_client w) ! r)" "count (owned w) r = 1"
    using assms(1) unfolding open_carriers_def by (auto simp: distinct_count_atmost_1)
qed

text \<open>Steps on streams leave the pools alone.\<close>

definition same_pools :: "client \<Rightarrow> client \<Rightarrow> bool" where
  "same_pools c c' \<longleftrightarrow> cl_closed c' = cl_closed c \<and> cl_max c' = cl_max c \<and> po_refs (cl_h2 c') = po_refs (cl_h2 c) \<and> po_base (cl_h2 c') = po_base (cl_h2 c) \<and>
     po_refs (cl_h3 c') = po_refs (cl_h3 c) \<and> po_base (cl_h3 c') = po_base (cl_h3 c)"

lemma same_pools_simps:
  assumes "same_pools c c'"
  shows "cl_closed c' = cl_closed c" "cl_max c' = cl_max c" "pooled c' = pooled c" "pool_ok d l b (cl_h2 c') = pool_ok d l b (cl_h2 c)"
    "pool_ok d l b (cl_h3 c') = pool_ok d l b (cl_h3 c)"
  using assms by (simp_all add: same_pools_def pooled_def pool_ok_def)

lemma best_loop_less: "0 < n \<Longrightarrow> fst b < n \<Longrightarrow> fst (best_loop loads start n i b) < n"
proof (induction loads start n i b rule: best_loop.induct)
  case (1 loads start n i best minActive)
  then show ?case by (subst best_loop.simps) (simp add: Let_def)
qed

lemma start_less:
  assumes "0 < n" "n < 2 ^ 64"
  shows "unat (x mod word_of_nat n :: u64) < n"
proof -
  have "unat (word_of_nat n :: u64) = n" using assms(2) by (simp add: unat_of_nat take_bit_nat_eq_self)
  then show ?thesis using assms(1) by (simp add: unat_mod)
qed

text \<open>Choosing a carrier counts one stream more on one carrier of a pool.\<close>

lemma pick_effect:
  assumes "pickBest t loads c = (Some (r, told), c')" "length (pooled c) < 2 ^ 64"
  shows "r \<in> set (pooled c)" "same_pools c c'"
    "cl_carriers c' = (cl_carriers c)[r := (cl_carriers c ! r)\<lparr>ca_active := active c r + 1\<rparr>]" "open_carriers c' = open_carriers c"
proof -
  obtain p where p: "pool_of t c = Some p" using assms by (auto simp: pickBest_def split: option.splits)
  let ?n = "length (po_refs p)"
  have po: "p = cl_h2 c \<and> t = ''h2'' \<or> p = cl_h3 c \<and> t \<noteq> ''h2''" using p by (auto simp: pool_of_def split: if_splits)
  have n: "0 < ?n" "?n < 2 ^ 64" "set (po_refs p) \<subseteq> set (pooled c)" using assms p po by (auto simp: pickBest_def pooled_def)
  let ?start = "unat ((po_next p + 1) mod word_of_nat ?n)"
  have "\<exists>i c1. i < ?n \<and> r = po_refs p ! i \<and> same_pools c c1 \<and> cl_carriers c1 = cl_carriers c \<and> c' = update_carrier r (\<lambda>x. x\<lparr>ca_active := ca_active x + 1\<rparr>) c1"
  proof (cases "?n = 1")
    case True
    then show ?thesis using assms p by (intro exI [of _ 0] exI [of _ c]) (auto simp: pickBest_def Let_def same_pools_def)
  next
    case False
    have "same_pools c (set_pool t (p\<lparr>po_next := po_next p + 1\<rparr>) c)" using po by (auto simp: same_pools_def set_pool_def)
    moreover have "fst (best_loop loads ?start ?n 1 (?start, loads ?start)) < ?n"
      using best_loop_less [OF n(1), of "(?start, loads ?start)"] start_less [OF n(1,2)] by simp
    ultimately show ?thesis using assms p n(1) False
      by (intro exI [of _ "fst (best_loop loads ?start ?n 1 (?start, loads ?start))"] exI [of _ "set_pool t (p\<lparr>po_next := po_next p + 1\<rparr>) c"])
        (auto simp: pickBest_def Let_def split: prod.splits)
  qed
  then obtain i c1 where i: "i < ?n" "r = po_refs p ! i" "same_pools c c1" "cl_carriers c1 = cl_carriers c"
    "c' = update_carrier r (\<lambda>x. x\<lparr>ca_active := ca_active x + 1\<rparr>) c1" by blast
  show "r \<in> set (pooled c)" using i(1,2) n(3) by auto
  show "same_pools c c'" using i(3,5) by (simp add: same_pools_def)
  show "cl_carriers c' = (cl_carriers c)[r := (cl_carriers c ! r)\<lparr>ca_active := active c r + 1\<rparr>]" using i(4,5) by (simp add: active_def)
  have "open_carriers c1 = open_carriers c" using i(4) by (simp add: open_carriers_def)
  then show "open_carriers c' = open_carriers c" using i(5) by (simp add: open_carriers_update)
qed

lemma streams_ok_count:
  assumes "streams_ok c M" "same_pools c c'" "r < length (cl_carriers c)" "cl_carriers c' = (cl_carriers c)[r := (cl_carriers c ! r)\<lparr>ca_active := int (count M' r)\<rparr>]"
    and "\<And>q. q \<noteq> r \<Longrightarrow> count M' q = count M q" "r \<in># M' \<Longrightarrow> cl_closed c \<or> r \<in> set (pooled c)"
  shows "streams_ok c' M'"
proof -
  have "active c' q = int (count M' q)" if "q < length (cl_carriers c')" for q
    using assms(1,3,4,5) that by (cases "q = r") (auto simp: streams_ok_def active_def)
  moreover have "q < length (cl_carriers c') \<and> (cl_closed c' \<or> q \<in> set (pooled c'))" if q: "q \<in># M'" for q
  proof (cases "q = r")
    case True
    then show ?thesis using assms(3,4,6) q same_pools_simps [OF assms(2)] by simp
  next
    case False
    then have "q \<in># M" using assms(5) q by (metis count_greater_zero_iff)
    then show ?thesis using assms(1,4) same_pools_simps [OF assms(2)] by (auto simp: streams_ok_def)
  qed
  ultimately show ?thesis by (simp add: streams_ok_def)
qed

lemma pooled_owned: "r \<in> set (pooled (pw_client w)) \<Longrightarrow> r \<in># owned w"
  by (simp add: owned_def)

lemma owned_same:
  assumes "same_pools (pw_client w) c"
  shows "owned (w\<lparr>pw_client := c, pw_streams := M\<rparr>) = owned w"
  using same_pools_simps(3) [OF assms] by (simp add: owned_def)

lemma pool_inv_streams:
  assumes "pool_inv b2 b3 l w" "same_pools (pw_client w) c" "open_carriers c = open_carriers (pw_client w)" "streams_ok c M"
  shows "pool_inv b2 b3 l (w\<lparr>pw_client := c, pw_streams := M\<rparr>)"
  using assms(1,3,4) same_pools_simps [OF assms(2)] owned_same [OF assms(2)] by (simp add: pool_inv_def)

lemma pooled_short:
  assumes "pool_inv b2 b3 l w" "l < 2 ^ 62"
  shows "length (pooled (pw_client w)) < 2 ^ 64"
proof -
  have "int (length (po_refs (cl_h2 (pw_client w)))) \<le> l" "int (length (po_refs (cl_h3 (pw_client w)))) \<le> l"
    using assms(1) by (auto simp: pool_inv_def pool_ok_def split: if_splits)
  then show ?thesis using assms(2) by (simp add: pooled_def)
qed

lemma pool_inv_pick:
  assumes "pool_inv b2 b3 l w" "l < 2 ^ 62" "pickBest t loads (pw_client w) = (Some (r, told), c)"
  shows "pool_inv b2 b3 l (w\<lparr>pw_client := c, pw_streams := add_mset r (pw_streams w)\<rparr>)"
proof -
  note e = pick_effect [OF assms(3) pooled_short [OF assms(1,2)]]
  have r: "r < length (cl_carriers (pw_client w))" using owned_less(1) [OF _ pooled_owned [OF e(1)]] assms(1) by (simp add: pool_inv_def)
  have a: "active (pw_client w) r = int (count (pw_streams w) r)" and s: "streams_ok (pw_client w) (pw_streams w)"
    using assms(1) r by (simp_all add: pool_inv_def streams_ok_def)
  have "streams_ok c (add_mset r (pw_streams w))"
    by (rule streams_ok_count [OF s e(2) r]) (use e(1,3) a in \<open>simp_all add: add.commute\<close>)
  then show ?thesis by (rule pool_inv_streams [OF assms(1) e(2,4)])
qed

lemma pool_inv_release:
  assumes "pool_inv b2 b3 l w" "r \<in># pw_streams w"
  shows "pool_inv b2 b3 l (w\<lparr>pw_client := release_stream r (pw_client w), pw_streams := pw_streams w - {#r#}\<rparr>)"
proof -
  let ?c = "pw_client w"
  have s: "streams_ok ?c (pw_streams w)" using assms(1) by (simp add: pool_inv_def)
  then have r: "r < length (cl_carriers ?c)" "cl_closed ?c \<or> r \<in> set (pooled ?c)" "active ?c r = int (count (pw_streams w) r)"
    using assms(2) by (auto simp: streams_ok_def)
  have p: "same_pools ?c (release_stream r ?c)" by (simp add: release_stream_def same_pools_def)
  have "0 < count (pw_streams w) r" using assms(2) by simp
  then have "streams_ok (release_stream r ?c) (pw_streams w - {#r#})"
    by (intro streams_ok_count [OF s p r(1)]) (use r in \<open>simp_all add: release_stream_def active_def of_nat_diff\<close>)
  then show ?thesis by (intro pool_inv_streams [OF assms(1) p]) (simp_all add: release_stream_def open_carriers_update)
qed

text \<open>A step that moves carriers between owners and leaves the counters alone.\<close>

lemma pool_inv_owner:
  assumes "pool_inv b2 b3 l w" "owned w' = open_carriers (pw_client w')" "cl_max (pw_client w') = cl_max (pw_client w)"
    and "pool_ok (pw_drained w') l b2 (cl_h2 (pw_client w'))" "pool_ok (pw_drained w') l b3 (cl_h3 (pw_client w'))" "pw_streams w' = pw_streams w"
    and "\<And>r. r < length (cl_carriers (pw_client w)) \<Longrightarrow> active (pw_client w') r = active (pw_client w) r"
    and "length (cl_carriers (pw_client w')) = length (cl_carriers (pw_client w))"
    and "pw_drained w' \<longrightarrow> cl_closed (pw_client w')"
    and "\<And>r. r \<in># pw_streams w \<Longrightarrow> cl_closed (pw_client w) \<or> r \<in> set (pooled (pw_client w)) \<Longrightarrow> cl_closed (pw_client w') \<or> r \<in> set (pooled (pw_client w'))"
  shows "pool_inv b2 b3 l w'"
  using assms unfolding pool_inv_def streams_ok_def by simp

lemma open_carriers_append: "open_carriers (c\<lparr>cl_carriers := cl_carriers c @ [new_carrier]\<rparr>) = add_mset (length (cl_carriers c)) (open_carriers c)"
proof -
  have "filter (\<lambda>r. \<not> ca_closed ((cl_carriers c @ [new_carrier]) ! r)) [0..<length (cl_carriers c)] =
      filter (\<lambda>r. \<not> ca_closed (cl_carriers c ! r)) [0..<length (cl_carriers c)]"
    by (rule filter_cong) (simp_all add: nth_append)
  then show ?thesis by (simp add: open_carriers_def nth_append new_carrier_def)
qed

lemma pool_inv_create:
  assumes "pool_inv b2 b3 l w" "add_create (pw_client w) = (r, c)"
  shows "pool_inv b2 b3 l (w\<lparr>pw_client := c, pw_adding := add_mset (t, r) (pw_adding w)\<rparr>)"
proof -
  let ?c = "pw_client w" and ?n = "length (cl_carriers (pw_client w))"
  have c: "r = ?n" "c = ?c\<lparr>cl_carriers := cl_carriers ?c @ [new_carrier]\<rparr>" using assms(2) by (auto simp: add_create_def)
  have s: "streams_ok ?c (pw_streams w)" using assms(1) by (simp add: pool_inv_def)
  then have "?n \<notin># pw_streams w" by (auto simp: streams_ok_def)
  then have "streams_ok c (pw_streams w)" using s by (auto simp: streams_ok_def c active_def nth_append new_carrier_def pooled_def count_eq_zero_iff less_Suc_eq)
  moreover have "owned (w\<lparr>pw_client := c, pw_adding := add_mset (t, r) (pw_adding w)\<rparr>) = open_carriers c"
    using assms(1) unfolding c(2) open_carriers_append by (simp add: c(1) pool_inv_def owned_def pooled_def)
  ultimately show ?thesis using assms(1) c(2) by (simp add: pool_inv_def)
qed

lemma pool_inv_unprobed:
  assumes "pool_inv b2 b3 l w" "(t, r) \<in># pw_adding w"
  shows "pool_inv b2 b3 l (w\<lparr>pw_adding := pw_adding w - {#(t, r)#}, pw_closing := add_mset r (pw_closing w)\<rparr>)"
proof -
  obtain A where "pw_adding w = add_mset (t, r) A" using assms(2) by (meson multi_member_split)
  then show ?thesis using assms(1) by (intro pool_inv_owner [OF assms(1)]) (auto simp: pool_inv_def owned_def)
qed

lemma pool_ok_append:
  assumes "pool_ok d l b p" "\<not> d" "int (length (po_refs p)) < l"
  shows "pool_ok d l b (p\<lparr>po_refs := po_refs p @ [r]\<rparr>)"
  using assms by (simp add: pool_ok_def)

lemma pool_inv_register:
  assumes "pool_inv b2 b3 l w" "(t, r) \<in># pw_adding w" "add_register ctxErr now t r (pw_client w) = (err, c)"
  shows "pool_inv b2 b3 l (w\<lparr>pw_client := c, pw_adding := pw_adding w - {#(t, r)#}, pw_closing := (if err = None then pw_closing w else add_mset r (pw_closing w))\<rparr>)"
proof -
  let ?c = "update_carrier r (\<lambda>x. x\<lparr>ca_dynamic := True, ca_idleSince := Some now\<rparr>) (pw_client w)"
  obtain A where A: "pw_adding w = add_mset (t, r) A" using assms(2) by (meson multi_member_split)
  have i: "owned w = open_carriers (pw_client w)" "pool_ok (pw_drained w) l b2 (cl_h2 (pw_client w))" "pool_ok (pw_drained w) l b3 (cl_h3 (pw_client w))"
    "cl_max (pw_client w) = l" "pw_drained w \<longrightarrow> cl_closed (pw_client w)" using assms(1) by (simp_all add: pool_inv_def)
  have a: "active ?c q = active (pw_client w) q" for q
    by (cases "q = r"; cases "r < length (cl_carriers (pw_client w))") (simp_all add: active_def list_update_beyond)
  have oc: "open_carriers ?c = open_carriers (pw_client w)" by (rule open_carriers_update) simp
  show ?thesis
  proof (cases "err = None")
    case False
    then have "c = ?c" using assms(3) by (auto simp: add_register_def Let_def split: option.splits if_splits)
    then show ?thesis using False i A a oc by (intro pool_inv_owner [OF assms(1)]) (auto simp: owned_def)
  next
    case True
    then obtain p where p: "pool_of t ?c = Some p" "\<not> cl_closed (pw_client w)" "int (length (po_refs p)) < l" "c = set_pool t (p\<lparr>po_refs := po_refs p @ [r]\<rparr>) ?c"
      using assms(3) i(4) by (auto simp: add_register_def Let_def split: option.splits if_splits)
    have d: "\<not> pw_drained w" using p(2) i(5) by blast
    show ?thesis
    proof (rule pool_inv_owner [OF assms(1)])
      show "owned (w\<lparr>pw_client := c, pw_adding := pw_adding w - {#(t, r)#}, pw_closing := (if err = None then pw_closing w else add_mset r (pw_closing w))\<rparr>) =
          open_carriers (pw_client (w\<lparr>pw_client := c, pw_adding := pw_adding w - {#(t, r)#}, pw_closing := (if err = None then pw_closing w else add_mset r (pw_closing w))\<rparr>))"
        using i(1) A True p(1,4) oc by (auto simp: owned_def pooled_def pool_of_def set_pool_def open_carriers_def split: if_splits)
    qed (use i d p a True pool_ok_append in \<open>auto simp: pool_of_def set_pool_def pooled_def active_def split: if_splits\<close>)
  qed
qed

text \<open>The loop of \<open>RemoveIdleCarrier\<close> changes only idle times, and finds a carrier without streams.\<close>

definition same_streams :: "client \<Rightarrow> client \<Rightarrow> bool" where
  "same_streams c c' \<longleftrightarrow> cl_closed c' = cl_closed c \<and> cl_max c' = cl_max c \<and> cl_h2 c' = cl_h2 c \<and> cl_h3 c' = cl_h3 c \<and> open_carriers c' = open_carriers c \<and>
     length (cl_carriers c') = length (cl_carriers c) \<and> (\<forall>r. active c' r = active c r)"

lemma same_streams_refl: "same_streams c c"
  by (simp add: same_streams_def)

lemma same_streams_trans: "same_streams c c' \<Longrightarrow> same_streams c' c'' \<Longrightarrow> same_streams c c''"
  by (simp add: same_streams_def)

lemma same_streams_idle: "same_streams c (update_carrier r (ca_idleSince_update f) c)"
proof -
  have "active (update_carrier r (ca_idleSince_update f) c) q = active c q" for q
    by (cases "q = r"; cases "r < length (cl_carriers c)") (simp_all add: active_def list_update_beyond)
  then show ?thesis by (simp add: same_streams_def open_carriers_update)
qed

lemma idle_loop_effect:
  assumes "idle_loop now minIdle rs c = (res, c')"
  shows "same_streams c c' \<and> (\<forall>i. res = Some i \<longrightarrow> i < length rs \<and> active c (rs ! i) = 0)"
  using assms
proof (induction rs arbitrary: c res c')
  case Nil
  then show ?case by (simp add: same_streams_refl)
next
  case (Cons r rs)
  define c1 where "c1 = (if active c r = 0 then if ca_idleSince (cl_carriers c ! r) = None then update_carrier r (ca_idleSince_update (\<lambda>_. Some now)) c else c
    else update_carrier r (ca_idleSince_update (\<lambda>_. None)) c)"
  have c1: "same_streams c c1" by (simp add: c1_def same_streams_idle same_streams_refl)
  then have a: "active c1 q = active c q" for q by (simp add: same_streams_def)
  show ?case
  proof (cases "active c r = 0 \<and> (minIdle = 0 \<or> minIdle \<le> now - the (ca_idleSince (cl_carriers c1 ! r)))")
    case True
    then have "(res, c') = (Some 0, c1)" using Cons.prems by (auto simp: c1_def Let_def split: if_splits)
    then show ?thesis using True c1 by simp
  next
    case False
    then have "(res, c') = map_prod (map_option Suc) (\<lambda>c. c) (idle_loop now minIdle rs c1)"
      using Cons.prems unfolding c1_def by (cases "active c r = 0"; cases "ca_idleSince (cl_carriers c ! r) = None") (auto simp: Let_def)
    then obtain res1 where l: "idle_loop now minIdle rs c1 = (res1, c')" "res = map_option Suc res1"
      by (cases "idle_loop now minIdle rs c1") auto
    then show ?thesis using Cons.IH [OF l(1)] same_streams_trans [OF c1] a by auto
  qed
qed

lemma pool_ok_evict:
  assumes "pool_ok d l b p" "po_base p \<le> k" "k < length (po_refs p)"
  shows "pool_ok d l b (p\<lparr>po_refs := take k (po_refs p) @ drop (Suc k) (po_refs p)\<rparr>)"
proof -
  have "prefix b (take k (po_refs p))" if "prefix b (po_refs p)" "length b \<le> k"
    using that by (auto simp: prefix_def)
  then show ?thesis using assms by (auto simp: pool_ok_def)
qed

lemma mset_evict: "k < length xs \<Longrightarrow> mset xs = add_mset (xs ! k) (mset (take k xs @ drop (Suc k) xs))"
  by (metis id_take_nth_drop mset_append mset.simps(2) union_mset_add_mset_right)

lemma remove_none:
  assumes "remove_idle now minIdle t c = (None, c')"
  shows "same_streams c c'"
proof (cases "pool_of t c")
  case None
  then show ?thesis using assms by (simp add: remove_idle_def same_streams_refl)
next
  case (Some p)
  obtain res c1 where l: "idle_loop now minIdle (drop (po_base p) (po_refs p)) c = (res, c1)" by fastforce
  show ?thesis using idle_loop_effect [OF l] assms Some l by (auto simp: remove_idle_def Let_def same_streams_refl split: if_splits option.splits)
qed

lemma pool_inv_remove:
  assumes "pool_inv b2 b3 l w" "remove_idle now minIdle t (pw_client w) = (evicted, c)"
  shows "pool_inv b2 b3 l (w\<lparr>pw_client := c, pw_closing := (case evicted of None \<Rightarrow> pw_closing w | Some r \<Rightarrow> add_mset r (pw_closing w))\<rparr>)"
proof -
  have i: "owned w = open_carriers (pw_client w)" "pool_ok (pw_drained w) l b2 (cl_h2 (pw_client w))" "pool_ok (pw_drained w) l b3 (cl_h3 (pw_client w))"
    "pw_drained w \<longrightarrow> cl_closed (pw_client w)" "streams_ok (pw_client w) (pw_streams w)" using assms(1) by (simp_all add: pool_inv_def)
  show ?thesis
  proof (cases evicted)
    case None
    then have "same_streams (pw_client w) c" using remove_none assms(2) by blast
    then show ?thesis using i None
      by (intro pool_inv_owner [OF assms(1)]) (auto simp: same_streams_def owned_def pooled_def)
  next
    case (Some r)
    then obtain p k c1 where p: "pool_of t (pw_client w) = Some p" "idle_loop now minIdle (drop (po_base p) (po_refs p)) (pw_client w) = (Some k, c1)"
      "r = po_refs p ! (po_base p + k)" "c = set_pool t (p\<lparr>po_refs := take (po_base p + k) (po_refs p) @ drop (Suc (po_base p + k)) (po_refs p)\<rparr>) c1"
      using assms(2) by (auto simp: remove_idle_def Let_def split: option.splits if_splits prod.splits)
    let ?k = "po_base p + k"
    have s: "same_streams (pw_client w) c1" "?k < length (po_refs p)" "active (pw_client w) r = 0"
      using idle_loop_effect [OF p(2)] p(3) by (auto simp: add.commute)
    note m = mset_evict [OF s(2)] and e = pool_ok_evict [OF _ _ s(2)]
    have "r \<in># owned w" using p(1,3) s(2) by (auto simp: owned_def pooled_def pool_of_def split: if_splits)
    then have "r < length (cl_carriers (pw_client w))" using owned_less(1) [OF i(1)] by blast
    then have "count (pw_streams w) r = 0" using i(5) s(3) by (simp add: streams_ok_def)
    then have r: "r \<notin># pw_streams w" by (simp add: count_eq_zero_iff)
    have "mset (pooled (pw_client w)) = add_mset r (mset (pooled c))"
      using p(1,3,4) m s(1) by (auto simp: pooled_def pool_of_def set_pool_def same_streams_def split: if_splits)
    then have o: "owned w = add_mset r (mset (pooled c) + image_mset snd (pw_adding w) + pw_closing w)"
      and sub: "set (pooled (pw_client w)) = insert r (set (pooled c))" by (simp add: owned_def, metis set_mset_add_mset_insert set_mset_mset)
    show ?thesis
    proof (rule pool_inv_owner [OF assms(1)])
      show "owned (w\<lparr>pw_client := c, pw_closing := (case evicted of None \<Rightarrow> pw_closing w | Some r \<Rightarrow> add_mset r (pw_closing w))\<rparr>) =
          open_carriers (pw_client (w\<lparr>pw_client := c, pw_closing := (case evicted of None \<Rightarrow> pw_closing w | Some r \<Rightarrow> add_mset r (pw_closing w))\<rparr>))"
        using o i(1) s(1) Some p(4) by (simp add: owned_def same_streams_def)
    qed (use i e p s(1) r sub in \<open>auto simp: same_streams_def pool_of_def set_pool_def active_def split: if_splits\<close>)
  qed
qed

lemma count_open: "count (open_carriers c) q = of_bool (q < length (cl_carriers c) \<and> \<not> ca_closed (cl_carriers c ! q))"
proof -
  have "distinct (filter (\<lambda>r. \<not> ca_closed (cl_carriers c ! r)) [0..<length (cl_carriers c)])" by simp
  then show ?thesis unfolding open_carriers_def distinct_count_atmost_1 by simp
qed

lemma pool_inv_closed:
  assumes "pool_inv b2 b3 l w" "r \<in># pw_closing w"
  shows "pool_inv b2 b3 l (w\<lparr>pw_client := close_carrier r (pw_client w), pw_closing := pw_closing w - {#r#}\<rparr>)"
proof -
  let ?c = "pw_client w"
  have i: "owned w = open_carriers ?c" "pool_ok (pw_drained w) l b2 (cl_h2 ?c)" "pool_ok (pw_drained w) l b3 (cl_h3 ?c)" "pw_drained w \<longrightarrow> cl_closed ?c"
    using assms(1) by (simp_all add: pool_inv_def)
  obtain C where C: "pw_closing w = add_mset r C" using assms(2) by (meson multi_member_split)
  then have "r \<in># owned w" by (simp add: owned_def)
  note r = owned_less [OF i(1) this]
  have "open_carriers ?c = add_mset r (open_carriers (close_carrier r ?c))"
    by (rule multiset_eqI) (use r in \<open>auto simp: count_open close_carrier_def nth_list_update\<close>)
  then have "owned (w\<lparr>pw_client := close_carrier r ?c, pw_closing := pw_closing w - {#r#}\<rparr>) = open_carriers (close_carrier r ?c)"
    using i(1) C by (simp add: owned_def close_carrier_def)
  then show ?thesis using i r(1)
    by (intro pool_inv_owner [OF assms(1)]) (auto simp: close_carrier_def active_def nth_list_update)
qed

lemma pool_inv_drain:
  assumes "pool_inv b2 b3 l w" "cl_closed (pw_client w)" "close_drain (pw_client w) = (rs, c)"
  shows "pool_inv b2 b3 l (w\<lparr>pw_client := c, pw_closing := pw_closing w + mset rs, pw_drained := True\<rparr>)"
proof -
  have c: "rs = pooled (pw_client w)" "c = (pw_client w)\<lparr>cl_h2 := (cl_h2 (pw_client w))\<lparr>po_refs := []\<rparr>, cl_h3 := (cl_h3 (pw_client w))\<lparr>po_refs := []\<rparr>\<rparr>"
    using assms(3) by (auto simp: close_drain_def pooled_def)
  have "owned (w\<lparr>pw_client := c, pw_closing := pw_closing w + mset rs, pw_drained := True\<rparr>) = owned w" by (simp add: owned_def c pooled_def)
  then show ?thesis using assms(1,2)
    by (intro pool_inv_owner [OF assms(1)]) (auto simp: pool_inv_def pool_ok_def c(2) open_carriers_def active_def split: if_splits)
qed

text \<open>The sizes of a new client.\<close>

lemma pool_sizes:
  "int (h2_count transport tcp) \<le> max_carriers tcp udp maxPool" "int (h3_count transport tcp udp) \<le> max_carriers tcp udp maxPool"
  "1 \<le> max_carriers tcp udp maxPool" "max_carriers tcp udp maxPool \<le> 16"
  by (auto simp: h2_count_def h3_count_def max_carriers_def udp_size_def tcp_size_def Let_def)

abbreviation (input) base_h2 :: "string \<Rightarrow> int \<Rightarrow> nat list" where "base_h2 transport tcp \<equiv> [0..<h2_count transport tcp]"
abbreviation (input) base_h3 :: "string \<Rightarrow> int \<Rightarrow> int \<Rightarrow> nat list" where
  "base_h3 transport tcp udp \<equiv> [h2_count transport tcp..<h2_count transport tcp + h3_count transport tcp udp]"

lemma pool_run_inv:
  assumes "pool_run transport tcp udp maxPool w"
  shows "pool_inv (base_h2 transport tcp) (base_h3 transport tcp udp) (max_carriers tcp udp maxPool) w"
  using assms
proof (induction rule: pool_run.induct)
  case w_new
  let ?n = "h2_count transport tcp + h3_count transport tcp udp"
  have "filter (\<lambda>r. \<not> ca_closed (replicate ?n new_carrier ! r)) [0..<?n] = [0..<?n]" by (rule filter_True) (simp add: new_carrier_def)
  then have "open_carriers (new_client transport tcp udp maxPool) = mset [0..<?n]" by (simp add: open_carriers_def new_client_def Let_def)
  moreover have "mset [0..<?n] = mset (base_h2 transport tcp) + mset (base_h3 transport tcp udp)" by (metis le_add1 le_add_same_cancel1 mset_append upt_add_eq_append zero_le)
  ultimately show ?case using pool_sizes(1) [of transport tcp udp maxPool] pool_sizes(2) [of transport tcp udp maxPool]
    by (auto simp: pool_inv_def owned_def pooled_def pool_ok_def streams_ok_def new_client_def Let_def active_def new_carrier_def)
next
  case (w_pick w loads r told c)
  then show ?case using pool_inv_pick [OF w_pick.IH _ w_pick.hyps(2)] pool_sizes(4) [of tcp udp maxPool] by simp
next
  case (w_reserve w loads r told c)
  then have "pickBest ''h3'' loads (pw_client w) = (Some (r, told), c)" by (simp add: reserveH3Manager_def split: if_splits)
  then show ?case using pool_inv_pick [OF w_reserve.IH] pool_sizes(4) [of tcp udp maxPool] by simp
next
  case (w_close w c)
  then have "c = (pw_client w)\<lparr>cl_closed := True\<rparr>" by (auto simp: close_begin_def split: if_splits)
  then show ?case using w_close.IH
    by (intro pool_inv_owner [OF w_close.IH]) (auto simp: pool_inv_def owned_def pooled_def open_carriers_def active_def)
qed (blast intro: pool_inv_release pool_inv_create pool_inv_unprobed pool_inv_register pool_inv_remove pool_inv_closed pool_inv_drain)+

subsection \<open>Balance and statistics\<close>

lemma best_loop_min:
  assumes "snd b = loads (fst b)" "fst b < n" "0 < n"
  shows "snd (best_loop loads start n i b) = loads (fst (best_loop loads start n i b)) \<and>
    (\<forall>j. i \<le> j \<longrightarrow> j < n \<longrightarrow> snd (best_loop loads start n i b) \<le> loads ((start + j) mod n)) \<and> snd (best_loop loads start n i b) \<le> snd b"
  using assms
proof (induction loads start n i b rule: best_loop.induct)
  case (1 loads start n i best minActive)
  show ?case
  proof (cases "i < n")
    case True
    let ?idx = "(start + i) mod n" and ?b = "if loads ((start + i) mod n) < minActive then ((start + i) mod n, loads ((start + i) mod n)) else (best, minActive)"
    have e: "best_loop loads start n i (best, minActive) = best_loop loads start n (Suc i) ?b" using True by (subst best_loop.simps) (simp add: Let_def)
    have ih: "snd (best_loop loads start n (Suc i) ?b) = loads (fst (best_loop loads start n (Suc i) ?b)) \<and>
      (\<forall>j. Suc i \<le> j \<longrightarrow> j < n \<longrightarrow> snd (best_loop loads start n (Suc i) ?b) \<le> loads ((start + j) mod n)) \<and> snd (best_loop loads start n (Suc i) ?b) \<le> snd ?b"
      by (rule 1(1) [OF True refl]) (use 1(2-4) in auto)
    have m: "snd ?b \<le> minActive" "snd ?b \<le> loads ?idx" by auto
    have "snd (best_loop loads start n (Suc i) ?b) \<le> loads ((start + j) mod n)" if "i \<le> j" "j < n" for j
      using ih m(2) that by (cases "j = i") (auto intro: order_trans)
    then show ?thesis unfolding e using ih m(1) by auto
  next
    case False
    then show ?thesis using 1(2) by (subst (1 2 3 4) best_loop.simps) auto
  qed
qed

lemma rotation_covers:
  assumes "k < n"
  shows "\<exists>j < n. (start + j) mod n = (k :: nat)"
proof -
  let ?j = "(k + (n - start mod n)) mod n"
  have "(start + ?j) mod n = (start mod n + (k + (n - start mod n))) mod n" by (simp add: mod_simps)
  also have "start mod n + (k + (n - start mod n)) = k + n" using mod_less_divisor [of n start] assms by linarith
  finally have "(start + ?j) mod n = k" using assms by simp
  moreover have "?j < n" using assms by simp
  ultimately show ?thesis by blast
qed

text \<open>With the exact counts the loop finds a carrier that no other carrier of the pool has fewer streams than.\<close>

lemma pick_least:
  assumes "pickBest t loads c = (Some (r, told, n), c')" "pool_of t c = Some p" "length (po_refs p) < 2 ^ 64"
    and "\<And>i. i < length (po_refs p) \<Longrightarrow> loads i = active c (po_refs p ! i)"
  shows "r \<in> set (po_refs p) \<and> n = length (po_refs p) \<and> (\<forall>q \<in> set (po_refs p). active c r \<le> active c q) \<and> (r < length (cl_carriers c) \<longrightarrow> told = active c r + 1)"
proof (cases "length (po_refs p) = 1")
  case True
  then obtain x where "po_refs p = [x]" by (auto simp: length_Suc_conv)
  then show ?thesis using assms(1,2) by (auto simp: pickBest_def Let_def active_def)
next
  case False
  define n' start where "n' = length (po_refs p)" and "start = unat ((po_next p + 1) mod word_of_nat n')"
  define b where "b = best_loop loads start n' 1 (start, loads start)"
  have n: "0 < n'" using assms(1,2) by (auto simp: pickBest_def n'_def)
  have st: "start < n'" unfolding start_def by (rule start_less) (use n assms(3) in \<open>simp_all add: n'_def\<close>)
  have m: "snd b = loads (fst b)" "\<And>j. 1 \<le> j \<Longrightarrow> j < n' \<Longrightarrow> snd b \<le> loads ((start + j) mod n')" "snd b \<le> loads start"
    using best_loop_min [of "(start, loads start)" loads n' start 1] n st unfolding b_def by auto
  have i: "fst b < n'" unfolding b_def by (rule best_loop_less) (use n st in simp_all)
  have e: "r = po_refs p ! fst b" "told = snd b + 1" "n = n'" using assms(1,2) n False
    by (auto simp: pickBest_def Let_def b_def start_def n'_def split: prod.splits)
  have "snd b \<le> loads k" if k: "k < n'" for k
  proof -
    obtain j where j: "j < n'" "(start + j) mod n' = k" using rotation_covers [OF k] by blast
    show ?thesis using m(2) [of j] m(3) j st by (cases "j = 0") auto
  qed
  then have "snd b \<le> active c q" if "q \<in> set (po_refs p)" for q using that assms(4) unfolding n'_def by (metis in_set_conv_nth)
  moreover have "snd b = active c r" using m(1) i assms(4) e(1) by (simp add: n'_def)
  ultimately show ?thesis using e i by (simp add: n'_def)
qed

lemma stats_loop_eq: "stats_loop acts (mn, mx, sm) = (fold min acts mn, fold max acts mx, sm + sum_list acts)"
  by (induction acts arbitrary: mn mx sm) (auto simp: min_def max_def)

lemma Stats_exact:
  assumes "pool_of t c = Some p" "po_refs p \<noteq> []" "acts = map (active c) (po_refs p)" "po_base p \<le> length (po_refs p)"
  shows "Stats t (hd acts) acts c = \<lparr>st_total = length (po_refs p), st_base = po_base p, st_dynamic = length (po_refs p) - po_base p, st_streams = acts,
    st_min = Min (set acts), st_max = Max (set acts), st_sum = sum_list acts\<rparr>"
proof -
  obtain a as where a: "acts = a # as" using assms(2,3) by (cases acts) auto
  have "fold min acts (hd acts) = Min (set acts)" "fold max acts (hd acts) = Max (set acts)"
    unfolding a using Min.set_eq_fold [of a as] Max.set_eq_fold [of a as] by simp_all
  then show ?thesis using assms by (simp add: Stats_def stats_loop_eq Let_def)
qed

subsection \<open>The prober as a function of its history\<close>










subsection \<open>Properties\<close>

text \<open>
  C36: The carrier pools stay sound over all interleavings of streams, scaling and closing. Until \<open>Close\<close> has taken the pools, each begins with the carriers it was
  configured with, which are never evicted, and has at most the limit of carriers, at most 16; the counter of every carrier is the number of its streams;
  until the client is closed no carrier with a stream is evicted or closed; and no carrier leaks: once \<open>Close\<close> is through and no \<open>AddCarrier\<close> is in progress,
  every carrier that was ever created is closed, also one whose probe finished after \<open>Close\<close>.
\<close>

theorem carrier_pool_sound:
  assumes "pool_run transport tcp udp maxPool w"
  defines "c \<equiv> pw_client w"
  shows "(pw_drained w \<or>
      prefix [0..<h2_count transport tcp] (po_refs (cl_h2 c)) \<and>
      prefix [h2_count transport tcp..<h2_count transport tcp + h3_count transport tcp udp] (po_refs (cl_h3 c)) \<and>
      int (length (po_refs (cl_h2 c))) \<le> max_carriers tcp udp maxPool \<and> int (length (po_refs (cl_h3 c))) \<le> max_carriers tcp udp maxPool) \<and>
    max_carriers tcp udp maxPool \<le> 16 \<and>
    (\<forall>r < length (cl_carriers c). ca_active (cl_carriers c ! r) = int (count (pw_streams w) r)) \<and>
    (cl_closed c \<or> (\<forall>r \<in># pw_streams w. r \<in> set (pooled c) \<and> \<not> ca_closed (cl_carriers c ! r))) \<and>
    (pw_drained w \<and> pw_adding w = {#} \<and> pw_closing w = {#} \<longrightarrow> (\<forall>x \<in> set (cl_carriers c). ca_closed x))"
proof -
  note i = pool_run_inv [OF assms(1), unfolded pool_inv_def c_def [symmetric]]
  have own: "owned w = open_carriers (pw_client w)" using i by (simp add: c_def)
  have "r \<in> set (pooled c) \<and> \<not> ca_closed (cl_carriers c ! r)" if "\<not> cl_closed c" "r \<in># pw_streams w" for r
  proof -
    have "r \<in> set (pooled c)" using i that by (auto simp: streams_ok_def)
    then show ?thesis using owned_less(2) [OF own pooled_owned] by (simp add: c_def)
  qed
  moreover have "ca_closed x" if d: "pw_drained w" "pw_adding w = {#}" "pw_closing w = {#}" and x: "x \<in> set (cl_carriers c)" for x
  proof -
    obtain r where r: "r < length (cl_carriers c)" "x = cl_carriers c ! r" using x by (metis in_set_conv_nth)
    have "owned w = {#}" using d i by (simp add: owned_def pooled_def pool_ok_def c_def)
    then have "count (open_carriers c) r = 0" using own by (simp add: c_def)
    then show ?thesis using r by (auto simp: count_open)
  qed
  ultimately show ?thesis using i pool_sizes(4) [of tcp udp maxPool] by (auto simp: pool_ok_def streams_ok_def active_def)
qed

text \<open>A carrier is added and evicted again while the base carrier has a stream; then the client is closed.\<close>

definition demo_c0 :: client where "demo_c0 = new_client ''h2'' 1 1 2"
definition demo_c1 :: client where "demo_c1 = snd (add_create (snd (pickBest ''h2'' (\<lambda>_. 0) demo_c0)))"
definition demo_c2 :: client where "demo_c2 = snd (add_register None 5 ''h2'' 2 demo_c1)"
definition demo_c3 :: client where "demo_c3 = snd (remove_idle 9 0 ''h2'' demo_c2)"

lemma demo_steps:
  "pickBest ''h2'' (\<lambda>_. 0) demo_c0 = (Some (0, 1, 1), snd (pickBest ''h2'' (\<lambda>_. 0) demo_c0))"
  "add_create (snd (pickBest ''h2'' (\<lambda>_. 0) demo_c0)) = (2, demo_c1)" "add_register None 5 ''h2'' 2 demo_c1 = (None, demo_c2)"
  "remove_idle 9 0 ''h2'' demo_c2 = (Some 2, demo_c3)" "po_refs (cl_h2 demo_c2) = [0, 2]" "po_refs (cl_h2 demo_c3) = [0]" "cl_closed demo_c3 = False"
  "map ca_active (cl_carriers demo_c3) = [1, 0, 0]"
  by code_simp+

lemma demo_pool: "pool_run ''h2'' 1 1 2 \<lparr>pw_client = demo_c3, pw_streams = {#0#}, pw_adding = {#}, pw_closing = {#2#}, pw_drained = False\<rparr>"
proof -
  have "pool_run ''h2'' 1 1 2 \<lparr>pw_client = demo_c0, pw_streams = {#}, pw_adding = {#}, pw_closing = {#}, pw_drained = False\<rparr>"
    unfolding demo_c0_def by (rule w_new)
  from w_create [OF w_pick [OF this], of "\<lambda>_. 0" 0 "(1, 1)" "snd (pickBest ''h2'' (\<lambda>_. 0) demo_c0)" "''h2''" 2 demo_c1] demo_steps(1,2)
  have "pool_run ''h2'' 1 1 2 \<lparr>pw_client = demo_c1, pw_streams = {#0#}, pw_adding = {#(''h2'', 2)#}, pw_closing = {#}, pw_drained = False\<rparr>" by simp
  from w_register [OF this, of "''h2''" 2 None 5 None demo_c2] demo_steps(3)
  have "pool_run ''h2'' 1 1 2 \<lparr>pw_client = demo_c2, pw_streams = {#0#}, pw_adding = {#}, pw_closing = {#}, pw_drained = False\<rparr>" by simp
  from w_remove [OF this, of 9 0 "''h2''" "Some 2" demo_c3] demo_steps(4) show ?thesis by simp
qed

theorem carrier_pool_sound_witness:
  "po_refs (cl_h2 demo_c2) = [0, 2] \<and> po_refs (cl_h2 demo_c3) = [0] \<and> prefix [0..<h2_count ''h2'' 1] (po_refs (cl_h2 demo_c3)) \<and>
     map ca_active (cl_carriers demo_c3) = [1, 0, 0] \<and> ca_active (cl_carriers demo_c3 ! 0) = int (count {#0 :: nat#} 0) \<and> \<not> ca_closed (cl_carriers demo_c3 ! 0)"
  using carrier_pool_sound [OF demo_pool] demo_steps(5-8) by auto


end
