(* ===== verification/ClientAddr.thy ===== *)
theory ClientAddr
  imports Datagram PlainUdp Target GoText "HOL-Library.Sublist"
begin

text \<open>
  What the packet connections of the client share: the addresses of \<^verbatim>\<open>src/pkg/client/client.go\<close> with their text and the way back, and the
  fact that a guard which admits an identity once gives a log without repetitions.
\<close>

subsection \<open>Addresses\<close>

text \<open>
  The implementations of \<open>net.Addr\<close> that occur; \<open>OtherAddr\<close> has its network and its text, and \<open>NilUDPAddr\<close> and \<open>NilICMPAddr\<close> are interface values that hold a
  nil pointer. A nil interface is \<open>None\<close> below.
\<close>

datatype netaddr = UDPAddr bytes int bytes | ICMPAddr bytes | DomainUDPAddr bytes | OtherAddr bytes bytes | NilUDPAddr | NilICMPAddr

fun addr_Network :: "netaddr \<Rightarrow> bytes" where
  "addr_Network (UDPAddr ip port zone) = lit ''udp''"
| "addr_Network (ICMPAddr ip) = lit ''icmp''"
| "addr_Network (DomainUDPAddr a) = lit ''udp''"
| "addr_Network (OtherAddr network text) = network"
| "addr_Network NilUDPAddr = lit ''udp''"
| "addr_Network NilICMPAddr = lit ''icmp''"

fun addr_String :: "netaddr \<Rightarrow> bytes" where
  "addr_String (UDPAddr ip port zone) =
     (let host = (if ip = [] then [] else IP_String ip)
      in JoinHostPort (if zone = [] then host else host @ [chPct] @ zone) (FormatInt port))"
| "addr_String (ICMPAddr ip) = (if ip = [] then [] else IP_String ip)"
| "addr_String (DomainUDPAddr a) = a"
| "addr_String (OtherAddr network text) = text"
| "addr_String NilUDPAddr = lit ''<nil>''"
| "addr_String NilICMPAddr = []"

definition isICMPAddr :: "netaddr option \<Rightarrow> bool" where
  "isICMPAddr addr =
     (case addr of
        None \<Rightarrow> False
      | Some (ICMPAddr ip) \<Rightarrow> True
      | Some NilICMPAddr \<Rightarrow> True
      | Some a \<Rightarrow>
          (let netw = addr_Network a
           in if netw = lit ''icmp'' \<or> netw = lit ''icmp4'' \<or> netw = lit ''icmp6'' \<or> netw = lit ''ip4:icmp'' \<or> netw = lit ''ip6:ipv6-icmp'' then True
              else prefix icmpPrefix (addr_String a)))"

definition formatDatagramAddress :: "netaddr option \<Rightarrow> bytes" where
  "formatDatagramAddress addr =
     (case addr of
        None \<Rightarrow> []
      | Some a \<Rightarrow> let s = addr_String a in if isICMPAddr addr \<and> \<not> prefix icmpPrefix s then icmpPrefix @ s else s)"

text \<open>\<open>netip.ParseAddr\<close> and \<open>netip.ParseAddrPort\<close>: the address as a slice with its zone, and the port.\<close>

definition netip_ParseAddr :: "bytes \<Rightarrow> (bytes \<times> bytes) option" where
  "netip_ParseAddr s =
     (case dropWhile (\<lambda>c. c \<noteq> chDot \<and> c \<noteq> chColon \<and> c \<noteq> chPct) s of
        [] \<Rightarrow> None
      | c # _ \<Rightarrow>
          if c = chDot then map_option (\<lambda>ip. (ip, [])) (parse4 s None 0 0 [])
          else if c = chColon then
            (if chPct \<in> set s then
               let zone = tl (dropWhile (\<lambda>c. c \<noteq> chPct) s)
               in if zone = [] then None else map_option (\<lambda>ip. (ip, zone)) (parseIPv6 (takeWhile (\<lambda>c. c \<noteq> chPct) s))
             else map_option (\<lambda>ip. (ip, [])) (parseIPv6 s))
          else None)"

definition ParseUint16 :: "bytes \<Rightarrow> nat option" where
  "ParseUint16 s = (if s \<noteq> [] \<and> list_all isDigit s \<and> decimal s < 65536 then Some (decimal s) else None)"

definition netip_ParseAddrPort :: "bytes \<Rightarrow> (bytes \<times> bytes \<times> nat) option" where
  "netip_ParseAddrPort s =
     (case split_last chColon s of
        None \<Rightarrow> None
      | Some (ip, port) \<Rightarrow>
          if ip = [] \<or> port = [] then None
          else let v6 = (hd ip = chLB)
               in if v6 \<and> (length ip < 2 \<or> last ip \<noteq> chRB) then None
                  else (case (ParseUint16 port, netip_ParseAddr (if v6 then butlast (tl ip) else ip)) of
                          (Some p, Some (addr, zone)) \<Rightarrow> if v6 = (length addr = 4) then None else Some (addr, zone, p)
                        | _ \<Rightarrow> None))"

definition parseUDPAddr :: "bytes \<Rightarrow> netaddr" where
  "parseUDPAddr addrStr =
     (if prefix icmpPrefix addrStr then
        (case ParseIP (drop 5 addrStr) of Some ip \<Rightarrow> ICMPAddr ip | None \<Rightarrow> ICMPAddr IPv4zero)
      else (case netip_ParseAddrPort addrStr of
              Some (ip, zone, port) \<Rightarrow> UDPAddr ip (int port) zone
            | None \<Rightarrow>
                (case SplitHostPort addrStr of
                   Inl e \<Rightarrow> UDPAddr IPv4zero 0 []
                 | Inr (host, portStr) \<Rightarrow>
                     (case Atoi portStr of
                        None \<Rightarrow> UDPAddr IPv4zero 0 []
                      | Some port \<Rightarrow> (case ParseIP host of Some ip \<Rightarrow> UDPAddr ip port [] | None \<Rightarrow> DomainUDPAddr addrStr)))))"

text \<open>
  \<open>resolveUDP\<close>: the address, the port and the zone of a server. \<open>fn\<close> is the resolver of the embedding program, \<open>lookup\<close> the resolver of the system.
\<close>

type_synonym resolver = "(bytes \<Rightarrow> (bytes \<times> int \<times> bytes) result) option \<times> (bytes \<Rightarrow> bytes list result)"

definition resolveUDP :: "resolver \<Rightarrow> bytes \<Rightarrow> (bytes \<times> int \<times> bytes) result" where
  "resolveUDP rs addrStr =
     (case netip_ParseAddrPort addrStr of
        Some (ip, zone, port) \<Rightarrow> Inr (ip, int port, zone)
      | None \<Rightarrow>
          (case SplitHostPort addrStr of
             Inl err \<Rightarrow> Inl err
           | Inr (host, portStr) \<Rightarrow>
               (case Atoi portStr of
                  None \<Rightarrow> Inl (Errorf ''strconv.Atoi: invalid syntax'')
                | Some port \<Rightarrow>
                    (case ParseIP host of
                       Some ip \<Rightarrow> Inr (ip, port, [])
                     | None \<Rightarrow>
                         (case rs of
                            (Some fn, _) \<Rightarrow> fn addrStr
                          | (None, lookup) \<Rightarrow>
                              (case lookup host of
                                 Inl err \<Rightarrow> Inl err
                               | Inr [] \<Rightarrow> Inl (Errorf ''no IP resolved'')
                               | Inr (ip # ips) \<Rightarrow> Inr (ip, port, [])))))))"

text \<open>What a read of a packet gives: it waits for the next one, fails, or returns a payload with its address.\<close>

datatype reading = Next | Failed goerr | Delivered bytes netaddr

subsection \<open>A log of admitted identities\<close>

context replay_guard
begin

text \<open>A log all of whose entries the guard blocks stays free of repetitions.\<close>

lemma log_admits:
  assumes "inv g" "\<forall>j \<in> set log. blocked g j" "distinct log" "accept g i = (ok, g')"
  shows "inv g'" "\<forall>j \<in> set (if ok then i # log else log). blocked g' j" "distinct (if ok then i # log else log)"
  using assms inv_accept [OF assms(1), of i] blocked_rejects [OF assms(1), of i] accept_blocks [OF assms(1), of i] blocked_stays [OF assms(1), of _ i] by auto

end

subsection \<open>Addresses survive the trip\<close>

text \<open>The addresses of IPv4 sockets, of IPv4 echo targets, and of domain names other than \<open>icmp\<close>, whose text would be taken for an echo target.\<close>

definition plain_addr :: "netaddr \<Rightarrow> bool" where
  "plain_addr a \<longleftrightarrow> (\<exists>ip port. a = UDPAddr ip (int port) [] \<and> length ip = 4 \<and> 0 < port \<and> port < 65536) \<or> (\<exists>ip. a = ICMPAddr (v4mapped ip) \<and> length ip = 4) \<or>
     (\<exists>h port. a = DomainUDPAddr (JoinHostPort h (Itoa port)) \<and> domain_ok h \<and> h \<noteq> lit ''icmp'' \<and> 0 < port \<and> port < 65536)"

lemma netip_domain:
  assumes "ParseIP h = None" "chColon \<notin> set h"
  shows "netip_ParseAddr h = None"
proof (cases "dropWhile (\<lambda>c. c \<noteq> chDot \<and> c \<noteq> chColon \<and> c \<noteq> chPct) h")
  case Nil
  then show ?thesis unfolding netip_ParseAddr_def Nil by simp
next
  case (Cons c cs)
  have "c \<in> set (dropWhile (\<lambda>c. c \<noteq> chDot \<and> c \<noteq> chColon \<and> c \<noteq> chPct) h)" unfolding Cons by simp
  then have "c \<in> set h" by (blast dest: set_dropWhileD)
  then have "c \<noteq> chColon" using assms(2) by auto
  then show ?thesis using assms(1) unfolding ParseIP_def netip_ParseAddr_def Cons by (simp split: if_splits)
qed

lemma netip_dotted: "length ip = 4 \<Longrightarrow> netip_ParseAddr (dotted ip) = Some (ip, [])"
  using parse4_dotted [of ip] dropWhile_Itoa by (simp add: netip_ParseAddr_def dotted_def)

lemma ParseUint16_Itoa: "n < 65536 \<Longrightarrow> ParseUint16 (Itoa n) = Some n"
  by (simp add: ParseUint16_def Itoa_digits)

lemma netip_join:
  assumes "chColon \<notin> set h" "chLB \<notin> set h" "h \<noteq> []" "n < 65536"
  shows "netip_ParseAddrPort (JoinHostPort h (Itoa n)) =
    (case netip_ParseAddr h of None \<Rightarrow> None | Some (addr, zone) \<Rightarrow> if length addr = 4 then Some (addr, zone, n) else None)"
proof -
  have "split_last chColon (h @ chColon # Itoa n) = Some (h, Itoa n)" by (rule split_last_append) simp
  moreover have "hd h \<noteq> chLB" using assms(2,3) by (cases h) auto
  ultimately show ?thesis using assms by (simp add: netip_ParseAddrPort_def JoinHostPort_def ParseUint16_Itoa Let_def split: option.splits)
qed

text \<open>Only the host \<open>icmp\<close> makes an address that starts like an echo target.\<close>

lemma icmp_prefix_join:
  assumes "chColon \<notin> set h"
  shows "prefix icmpPrefix (JoinHostPort h p) \<longleftrightarrow> h = lit ''icmp''"
proof -
  have i: "icmpPrefix = lit ''icmp'' @ [chColon]" by (simp add: icmpPrefix_def lit_def)
  have c: "chColon \<notin> set (lit ''icmp'')" by code_simp
  have "takeWhile (\<lambda>x. x \<noteq> chColon) (g @ chColon # q) = g" if "chColon \<notin> set g" for g q using that by (induction g) auto
  then have "h @ chColon # p = lit ''icmp'' @ chColon # zs \<Longrightarrow> h = lit ''icmp''" for zs using assms c by metis
  then show ?thesis using assms by (auto simp: prefix_def JoinHostPort_def i)
qed

lemma take5_icmp: "take 5 a = icmpPrefix \<longleftrightarrow> prefix icmpPrefix a"
proof -
  have "length icmpPrefix = 5" by code_simp
  then show ?thesis by (metis append_eq_conv_conj prefix_def take_is_prefix)
qed

lemma plain_addr_domain:
  assumes "domain_ok h" "h \<noteq> lit ''icmp''" "n < 65536"
  shows "parseUDPAddr (JoinHostPort h (Itoa n)) = DomainUDPAddr (JoinHostPort h (Itoa n))" "canonUdp (JoinHostPort h (Itoa n)) = JoinHostPort h (Itoa n)"
proof -
  have h: "h \<noteq> []" "ParseIP h = None" "chColon \<notin> set h" "chLB \<notin> set h" "host_ok h" using assms(1) by (auto simp: domain_ok_def host_ok_def)
  note p = icmp_prefix_join [OF h(3), of "Itoa n"]
  show "parseUDPAddr (JoinHostPort h (Itoa n)) = DomainUDPAddr (JoinHostPort h (Itoa n))"
    using p assms(2,3) h netip_join [OF h(3,4,1) assms(3)] netip_domain [OF h(2,3)] by (simp add: parseUDPAddr_def)
  show "canonUdp (JoinHostPort h (Itoa n)) = JoinHostPort h (Itoa n)"
    using p assms(2,3) h(5) by (simp add: canonUdp_def take5_icmp)
qed

lemma dotted_not_icmp: "length ip = 4 \<Longrightarrow> dotted ip \<noteq> lit ''icmp''"
proof
  assume "length ip = 4" "dotted ip = lit ''icmp''"
  moreover have "ParseIP (lit ''icmp'') = None" by code_simp
  ultimately show False using ParseIP_dotted [of ip] by simp
qed

lemma plain_addr_v4:
  assumes "length ip = 4" "n < 65536"
  shows "parseUDPAddr (JoinHostPort (dotted ip) (Itoa n)) = UDPAddr ip (int n) []" "canonUdp (JoinHostPort (dotted ip) (Itoa n)) = JoinHostPort (dotted ip) (Itoa n)"
proof -
  have h: "chColon \<notin> set (dotted ip)" "chLB \<notin> set (dotted ip)" "host_ok (dotted ip)" using dotted_set assms(1) by (auto simp: host_ok_def)
  note p = icmp_prefix_join [OF h(1), of "Itoa n"]
  show "parseUDPAddr (JoinHostPort (dotted ip) (Itoa n)) = UDPAddr ip (int n) []"
    using p dotted_not_icmp [OF assms(1)] netip_join [OF h(1,2) dotted_nonempty assms(2)] assms(1) by (simp add: parseUDPAddr_def netip_dotted)
  show "canonUdp (JoinHostPort (dotted ip) (Itoa n)) = JoinHostPort (dotted ip) (Itoa n)"
    using p dotted_not_icmp [OF assms(1)] h(3) assms(2) by (simp add: canonUdp_def take5_icmp)
qed

text \<open>What a peer reads back from the text of an address is the address.\<close>

lemma address_roundtrip:
  assumes "plain_addr a"
  shows "parseUDPAddr (formatDatagramAddress (Some a)) = a \<and> canonUdp (formatDatagramAddress (Some a)) = formatDatagramAddress (Some a)"
proof -
  have icmp5: "length icmpPrefix = 5" by code_simp
  consider (udp) ip port where "a = UDPAddr ip (int port) []" "length ip = 4" "port < 65536" | (icmp) ip where "a = ICMPAddr (v4mapped ip)" "length ip = 4"
    | (domain) h port where "a = DomainUDPAddr (JoinHostPort h (Itoa port))" "domain_ok h" "h \<noteq> lit ''icmp''" "port < 65536"
    using assms unfolding plain_addr_def by blast
  then show ?thesis
  proof cases
    case udp
    have h: "chColon \<notin> set (dotted ip)" using dotted_set by blast
    have "ip \<noteq> []" using udp(2) by auto
    then have s: "addr_String a = JoinHostPort (dotted ip) (Itoa port)" using udp by (simp add: FormatInt_def)
    have "\<not> isICMPAddr (Some a)" using udp(1) s icmp_prefix_join [OF h] dotted_not_icmp [OF udp(2)]
      by (simp add: isICMPAddr_def Let_def lit_def)
    then show ?thesis using s plain_addr_v4 [OF udp(2,3)] udp(1) by (simp add: formatDatagramAddress_def)
  next
    case icmp
    have s: "addr_String a = dotted ip" using icmp by (simp add: IP_String_def v4mapped_def To4_def)
    have "chColon \<notin> set (dotted ip)" "chColon \<in> set icmpPrefix" using dotted_set by (blast, code_simp)
    then have "\<not> prefix icmpPrefix (dotted ip)" using set_mono_prefix by blast
    then have "formatDatagramAddress (Some a) = icmpPrefix @ dotted ip" using s icmp(1) by (simp add: formatDatagramAddress_def isICMPAddr_def)
    moreover have "canonHost (dotted ip) = dotted ip" using icmp(2) by (intro host_ok_canon) (auto simp: host_ok_def)
    ultimately show ?thesis using icmp icmp5 by (simp add: canonUdp_def parseUDPAddr_def)
  next
    case domain
    have h: "chColon \<notin> set h" using domain(2) by (simp add: domain_ok_def)
    have "\<not> isICMPAddr (Some a)" using domain(1,3) icmp_prefix_join [OF h] by (simp add: isICMPAddr_def Let_def lit_def)
    then show ?thesis using plain_addr_domain [OF domain(2-4)] domain(1) by (simp add: formatDatagramAddress_def)
  qed
qed
end
