(* ===== verification/ClientUdp.thy ===== *)
theory ClientUdp
  imports ClientAddr
begin

text \<open>
  The native UDP connection of the client, \<^verbatim>\<open>src/pkg/client/conn_plain_udp.go\<close>. Readers, writers and \<open>Close\<close> run concurrently: what runs under a lock is one
  step. \<open>Close\<close> marks the connection outside the lock that readers hold; a reader's load of the mark and its use of the window are one step, at the load. The socket is its outcomes.
\<close>

subsection \<open>Native UDP\<close>

record plain_conn =
  pn_sessionID :: u64
  pn_server :: "bytes \<times> int"
  pn_codec :: codec
  pn_closed :: bool
  pn_replay :: response_window

text \<open>\<open>origin\<close> is the address of the sender; \<open>None\<close> where it is not a \<open>net.UDPAddr\<close>.\<close>

definition plain_decode :: "crypto \<Rightarrow> (bytes \<times> int) option \<Rightarrow> bytes \<Rightarrow> u64 \<Rightarrow> plain_conn \<Rightarrow> decoded option" where
  "plain_decode cr origin packet now c =
     (if (case origin of None \<Rightarrow> False | Some (ip, port) \<Rightarrow> \<not> IP_Equal ip (fst (pn_server c)) \<or> port \<noteq> snd (pn_server c)) then None
      else (case DecodePacket cr (pn_codec c) packet DirServerToClient now of
              Inl e \<Rightarrow> None
            | Inr d \<Rightarrow> if de_sessionID d \<noteq> pn_sessionID c then None else Some d))"

text \<open>Under \<open>replayMu\<close>; \<open>n\<close> is the size of the caller's buffer.\<close>

definition plain_accept :: "nat \<Rightarrow> decoded \<Rightarrow> plain_conn \<Rightarrow> reading \<times> plain_conn" where
  "plain_accept n d c =
     (if pn_closed c then (Failed NetErrClosed, c)
      else (case ResponseReplayWindow_Accept (pn_replay c) (de_timestamp d, de_seq d) of
              (accepted, w) \<Rightarrow>
                (if accepted then Delivered (take n (de_payload d)) (parseUDPAddr (de_targetAddr d)) else Next, c\<lparr>pn_replay := w\<rparr>)))"

text \<open>A read on its own, over what the socket delivers; \<open>None\<close> waits for more.\<close>

fun plain_read_loop :: "crypto \<Rightarrow> nat \<Rightarrow> (goerr + (bytes \<times> int) option \<times> bytes \<times> u64) list \<Rightarrow> plain_conn \<Rightarrow> reading option \<times> plain_conn" where
  "plain_read_loop cr n [] c = (None, c)"
| "plain_read_loop cr n (Inl e # ds) c = (Some (Failed e), c)"
| "plain_read_loop cr n (Inr (origin, packet, now) # ds) c =
     (case plain_decode cr origin packet now c of
        None \<Rightarrow> plain_read_loop cr n ds c
      | Some d \<Rightarrow> (case plain_accept n d c of (Next, c) \<Rightarrow> plain_read_loop cr n ds c | (r, c) \<Rightarrow> (Some r, c)))"

definition plain_ReadFrom :: "crypto \<Rightarrow> nat \<Rightarrow> (goerr + (bytes \<times> int) option \<times> bytes \<times> u64) list \<Rightarrow> plain_conn \<Rightarrow> reading option \<times> plain_conn" where
  "plain_ReadFrom cr n ds c = (if pn_closed c then (Some (Failed NetErrClosed), c) else plain_read_loop cr n ds c)"

definition plain_WriteTo :: "crypto \<Rightarrow> source \<Rightarrow> u64 \<Rightarrow> bytes \<Rightarrow> netaddr option \<Rightarrow> plain_conn \<Rightarrow> bytes result \<times> plain_conn" where
  "plain_WriteTo cr rnd now p addr c =
     (if pn_closed c then (Inl NetErrClosed, c)
      else (case EncodePacket cr (pn_codec c) rnd [] DirClientToServer (pn_sessionID c) (formatDatagramAddress addr) p now of
              (packet, codec, rnd) \<Rightarrow> (packet, c\<lparr>pn_codec := codec\<rparr>)))"

text \<open>\<open>Close\<close>: marking the connection and, later and under \<open>replayMu\<close>, giving up the window.\<close>

definition plain_close_mark :: "plain_conn \<Rightarrow> plain_conn" where
  "plain_close_mark c = c\<lparr>pn_closed := True\<rparr>"

definition plain_close_reset :: "plain_conn \<Rightarrow> plain_conn" where
  "plain_close_reset c = c\<lparr>pn_replay := new_response_window\<rparr>"

text \<open>
  \<open>ctxErr1\<close>, \<open>ctxErr2\<close> and \<open>ctxErr3\<close> are what \<open>ctx.Err()\<close> gives at its three uses; the outcomes of opening the
  socket and of the random source are given, too. The second result says whether a socket is left open.
\<close>

definition newPlainUDPConn :: "crypto \<Rightarrow> goerr option \<times> goerr option \<times> goerr option \<Rightarrow> resolver \<Rightarrow> bytes \<Rightarrow> goerr option \<Rightarrow> source \<Rightarrow> bytes \<Rightarrow> bytes \<Rightarrow>
    plain_conn result \<times> bool" where
  "newPlainUDPConn cr ctxErr rs server listened rnd psk serverID =
     (case ctxErr of (ctxErr1, ctxErr2, ctxErr3) \<Rightarrow>
        (case ctxErr1 of
           Some err \<Rightarrow> (Inl err, False)
         | None \<Rightarrow>
             (case resolveUDP rs server of
                Inl err \<Rightarrow> (Inl (Errorf ''resolve server udp addr''), False)
              | Inr (ip, port, zone) \<Rightarrow>
                  (case ctxErr2 of
                     Some err \<Rightarrow> (Inl err, False)
                   | None \<Rightarrow>
                       (case listened of
                          Some err \<Rightarrow> (Inl err, False)
                        | None \<Rightarrow>
                            (case ctxErr3 of
                               Some err \<Rightarrow> (Inl err, False)
                             | None \<Rightarrow>
                                 (case NewCodec cr psk [serverID] of
                                    Inl err \<Rightarrow> (Inl err, False)
                                  | Inr codec \<Rightarrow>
                                      (case readFull 8 rnd of
                                         (sessionBytes, Some err, _) \<Rightarrow> (Inl (Errorf ''generate session ID''), False)
                                       | (sessionBytes, None, _) \<Rightarrow>
                                           (Inr \<lparr>pn_sessionID = getUint64 sessionBytes, pn_server = (ip, port), pn_codec = codec,
                                                 pn_closed = False, pn_replay = new_response_window\<rparr>, True)))))))))"

subsection \<open>Runs of a native connection\<close>

text \<open>A delivery: the packet with its sender and the clock when it was decoded, what it decodes to, and what the reader returned.\<close>

type_synonym delivery = "bytes \<times> (bytes \<times> int) option \<times> u64 \<times> decoded \<times> bytes \<times> netaddr"

record plain_world =
  pl_conn :: plain_conn
  pl_delivered :: "delivery list"
  pl_sent :: "bytes list"

inductive plain_run :: "crypto \<Rightarrow> plain_conn \<Rightarrow> plain_world \<Rightarrow> bool" for cr c0 where
  l_open: "plain_run cr c0 \<lparr>pl_conn = c0, pl_delivered = [], pl_sent = []\<rparr>"
| l_packet: "plain_run cr c0 w \<Longrightarrow> plain_decode cr origin packet now (pl_conn w) = Some d \<Longrightarrow> plain_run cr c0 w' \<Longrightarrow>
    plain_accept n d (pl_conn w') = (r, c) \<Longrightarrow>
    plain_run cr c0 (w'\<lparr>pl_conn := c, pl_delivered := (case r of Delivered p a \<Rightarrow> (packet, origin, now, d, p, a) # pl_delivered w' | _ \<Rightarrow> pl_delivered w')\<rparr>)"
| l_write: "plain_run cr c0 w \<Longrightarrow> plain_WriteTo cr rnd now p addr (pl_conn w) = (r, c) \<Longrightarrow>
    plain_run cr c0 (w\<lparr>pl_conn := c, pl_sent := (case r of Inl e \<Rightarrow> pl_sent w | Inr packet \<Rightarrow> packet # pl_sent w)\<rparr>)"
| l_mark: "plain_run cr c0 w \<Longrightarrow> plain_run cr c0 (w\<lparr>pl_conn := plain_close_mark (pl_conn w)\<rparr>)"
| l_reset: "plain_run cr c0 w \<Longrightarrow> pn_closed (pl_conn w) \<Longrightarrow> plain_run cr c0 (w\<lparr>pl_conn := plain_close_reset (pl_conn w)\<rparr>)"

text \<open>A packet is decoded in one state and checked against the window in a later one; the run \<open>w'\<close> may be any, which allows more than later states.\<close>

fun response_id :: "delivery \<Rightarrow> responseID" where
  "response_id (packet, origin, now, d, p, a) = (de_timestamp d, de_seq d)"

lemma EncodePacket_keys: "EncodePacket cr c rnd dst dir sid a payload now = (r, c', rnd') \<Longrightarrow> cd_c2s c' = cd_c2s c \<and> cd_s2c c' = cd_s2c c"
  by (auto simp: EncodePacket_def Let_def split: sum.splits prod.splits option.splits if_splits)

lemma DecodePacket_keys:
  assumes "cd_c2s c' = cd_c2s c" "cd_s2c c' = cd_s2c c"
  shows "DecodePacket cr c' packet dir now = DecodePacket cr c packet dir now"
  using assms by (simp add: DecodePacket_def dirKey_def)

lemma plain_decode_same:
  assumes "pn_server c' = pn_server c" "pn_sessionID c' = pn_sessionID c" "DecodePacket cr (pn_codec c') packet DirServerToClient now = DecodePacket cr (pn_codec c) packet DirServerToClient now"
  shows "plain_decode cr origin packet now c' = plain_decode cr origin packet now c"
  unfolding plain_decode_def assms ..

definition plain_inv :: "crypto \<Rightarrow> plain_conn \<Rightarrow> plain_world \<Rightarrow> bool" where
  "plain_inv cr c0 w \<longleftrightarrow> cd_c2s (pn_codec (pl_conn w)) = cd_c2s (pn_codec c0) \<and> cd_s2c (pn_codec (pl_conn w)) = cd_s2c (pn_codec c0) \<and>
     pn_sessionID (pl_conn w) = pn_sessionID c0 \<and> pn_server (pl_conn w) = pn_server c0 \<and> distinct (map response_id (pl_delivered w)) \<and>
     (pn_closed (pl_conn w) \<or> rs_inv (pn_replay (pl_conn w)) \<and> (\<forall>i \<in> set (map response_id (pl_delivered w)). rs_blocked (pn_replay (pl_conn w)) i)) \<and>
     (\<forall>(packet, origin, now, d, p, a) \<in> set (pl_delivered w). plain_decode cr origin packet now c0 = Some d \<and> a = parseUDPAddr (de_targetAddr d) \<and> prefix p (de_payload d))"

lemma plain_run_inv:
  assumes "plain_run cr c0 w" "pn_replay c0 = new_response_window"
  shows "plain_inv cr c0 w"
  using assms(1)
proof (induction rule: plain_run.induct)
  case l_open
  show ?case using assms(2) new_response_window_inv by (simp add: plain_inv_def)
next
  case (l_packet w origin packet now d w' n r c)
  let ?c = "pl_conn w'"
  have d: "plain_decode cr origin packet now c0 = Some d"
  proof -
    have "plain_decode cr origin packet now (pl_conn w) = plain_decode cr origin packet now c0"
      using l_packet.IH(1) DecodePacket_keys [of "pn_codec (pl_conn w)" "pn_codec c0"] by (intro plain_decode_same) (simp_all add: plain_inv_def)
    then show ?thesis using l_packet.hyps(2) by simp
  qed
  show ?case
  proof (cases "pn_closed ?c")
    case True
    then show ?thesis using l_packet by (auto simp: plain_accept_def)
  next
    case False
    note i = l_packet.IH(2) [unfolded plain_inv_def]
    obtain ok g where a: "ResponseReplayWindow_Accept (pn_replay ?c) (de_timestamp d, de_seq d) = (ok, g)" by fastforce
    let ?log = "if ok then (packet, origin, now, d, take n (de_payload d), parseUDPAddr (de_targetAddr d)) # pl_delivered w' else pl_delivered w'"
    have e: "c = ?c\<lparr>pn_replay := g\<rparr>" "(case r of Delivered p a \<Rightarrow> (packet, origin, now, d, p, a) # pl_delivered w' | _ \<Rightarrow> pl_delivered w') = ?log"
      using l_packet.hyps(4) False a by (auto simp: plain_accept_def split: if_splits)
    have m: "map response_id ?log = (if ok then (de_timestamp d, de_seq d) # map response_id (pl_delivered w') else map response_id (pl_delivered w'))"
      by simp
    have g: "rs_inv g" "\<forall>j \<in> set (map response_id ?log). rs_blocked g j" "distinct (map response_id ?log)"
      unfolding m using response_window.log_admits [OF _ _ _ a, of "map response_id (pl_delivered w')"] i False by auto
    have "prefix (take n (de_payload d)) (de_payload d)" by (rule take_is_prefix)
    then show ?thesis unfolding e plain_inv_def using i g d by auto
  qed
next
  case (l_write w rnd now p addr r c)
  then show ?case using EncodePacket_keys by (fastforce simp: plain_inv_def plain_WriteTo_def split: if_splits prod.splits)
qed (auto simp: plain_inv_def plain_close_mark_def plain_close_reset_def)

subsection \<open>Opening\<close>

lemma newPlainUDPConn_ok:
  assumes "newPlainUDPConn cr ctxErr rs server listened rnd psk serverID = (Inr c, kept)"
  shows "pn_replay c = new_response_window" "\<not> pn_closed c" "NewCodec cr psk [serverID] = Inr (pn_codec c)" "\<exists>zone. resolveUDP rs server = Inr (fst (pn_server c), snd (pn_server c), zone)" "kept"
  using assms by (auto simp: newPlainUDPConn_def split: prod.splits option.splits sum.splits)

text \<open>No socket is left behind by a failure.\<close>

lemma newPlainUDPConn_no_leak: "snd (newPlainUDPConn cr ctxErr rs server listened rnd psk serverID) \<longleftrightarrow> \<not> isl (fst (newPlainUDPConn cr ctxErr rs server listened rnd psk serverID))"
  by (auto simp: newPlainUDPConn_def split: prod.splits option.splits sum.splits)

subsection \<open>Properties of native UDP\<close>

text \<open>
  C38: Over every interleaving of readers, writers and \<open>Close\<close> on a native UDP connection, no response is delivered to the application twice, and
  whatever is delivered was sealed by a holder of the key under the server-to-client direction for this session and this direction only, with a timestamp within 30
  seconds of the clock: the packet consists of the nonce and the sealed timestamp, sequence number, session, address and payload. The packet came from the server's address if the socket
  reports the sender as a \<open>net.UDPAddr\<close>; a sender of another type of address, which a socket of the embedding program may report, is not compared at all. The application gets a
  prefix of the payload, as much as its buffer holds, with the address of the packet. Nothing is delivered after \<open>Close\<close> has marked the connection.
\<close>

theorem plain_client_delivers_once:
  assumes "crypto_ok cr" "newPlainUDPConn cr ctxErr rs server listened rnd psk serverID = (Inr c, kept)" "plain_run cr c w"
  shows "distinct (map response_id (pl_delivered w)) \<and>
    (\<forall>(packet, origin, now, d, p, a) \<in> set (pl_delivered w). de_sessionID d = pn_sessionID c \<and> prefix p (de_payload d) \<and> a = parseUDPAddr (de_targetAddr d) \<and>
       (\<forall>ip port. origin = Some (ip, port) \<longrightarrow> IP_Equal ip (fst (pn_server c)) \<and> port = snd (pn_server c)) \<and> \<bar>int64_diff now (de_timestamp d)\<bar> \<le> 30 \<and>
       (\<exists>nonce addr. packet = nonce @ xchacha_seal cr (cd_s2c (pn_codec c)) nonce (putUint64 (de_timestamp d) @ putUint64 (de_seq d) @
          putUint64 (pn_sessionID c) @ addr @ de_payload d) [DirServerToClient] \<and> udp_decodeTargetAddress (addr @ de_payload d) = Inr (de_targetAddr d, de_payload d))) \<and>
    (pn_closed (pl_conn w) \<longrightarrow> (\<forall>n d. plain_accept n d (pl_conn w) = (Failed NetErrClosed, pl_conn w)))"
proof -
  note i = plain_run_inv [OF assms(3) newPlainUDPConn_ok(1) [OF assms(2)], unfolded plain_inv_def]
  have d: "case x of (packet, origin, now, d, p, a) \<Rightarrow> de_sessionID d = pn_sessionID c \<and> prefix p (de_payload d) \<and> a = parseUDPAddr (de_targetAddr d) \<and>
       (\<forall>ip port. origin = Some (ip, port) \<longrightarrow> IP_Equal ip (fst (pn_server c)) \<and> port = snd (pn_server c)) \<and> \<bar>int64_diff now (de_timestamp d)\<bar> \<le> 30 \<and>
       (\<exists>nonce addr. packet = nonce @ xchacha_seal cr (cd_s2c (pn_codec c)) nonce (putUint64 (de_timestamp d) @ putUint64 (de_seq d) @
          putUint64 (pn_sessionID c) @ addr @ de_payload d) [DirServerToClient] \<and> udp_decodeTargetAddress (addr @ de_payload d) = Inr (de_targetAddr d, de_payload d))"
    if x: "x \<in> set (pl_delivered w)" for x
  proof -
    obtain packet origin now d p a where e: "x = (packet, origin, now, d, p, a)" by (cases x)
    then have s: "plain_decode cr origin packet now c = Some d" "a = parseUDPAddr (de_targetAddr d)" "prefix p (de_payload d)" using i x by fastforce+
    from s(1) have o: "\<forall>ip port. origin = Some (ip, port) \<longrightarrow> IP_Equal ip (fst (pn_server c)) \<and> port = snd (pn_server c)"
      "DecodePacket cr (pn_codec c) packet DirServerToClient now = Inr d" "de_sessionID d = pn_sessionID c"
      by (auto simp: plain_decode_def split: if_splits sum.splits option.splits)
    have "dirKey (pn_codec c) DirServerToClient = Some (cd_s2c (pn_codec c))" by (simp add: dirKey_def)
    then show ?thesis using plainudp_accepts_only_sealed [OF assms(1) o(2)] s(2,3) o(1,3) by (auto simp: e)
  qed
  then show ?thesis using i by (auto simp: plain_accept_def)
qed

text \<open>A connection to a server under the example cipher, and an answer of that server.\<close>

definition example_conn :: "plain_conn result \<times> bool" where
  "example_conn = newPlainUDPConn toy_crypto (None, None, None) (None, \<lambda>_. Inl EOF) (lit ''192.0.2.1:443'') None [(replicate 8 9, None)] (replicate 32 7) (lit ''s'')"

definition example_plain :: plain_conn where
  "example_plain = (case fst example_conn of Inr c \<Rightarrow> c)"

definition example_reply :: "bytes result \<times> codec \<times> source" where
  "example_reply = EncodePacket toy_crypto ((pn_codec example_plain)\<lparr>cd_sequence := 6\<rparr>) [(replicate 24 9, None)] [] DirServerToClient (pn_sessionID example_plain) (lit ''a:53'') [5, 6, 7] 1000"

lemma example_opened: "newPlainUDPConn toy_crypto (None, None, None) (None, \<lambda>_. Inl EOF) (lit ''192.0.2.1:443'') None [(replicate 8 9, None)] (replicate 32 7) (lit ''s'') = (Inr example_plain, True)"
proof -
  have "\<not> isl (fst example_conn)" by code_simp
  moreover from this have "snd example_conn" unfolding example_conn_def newPlainUDPConn_no_leak .
  ultimately show ?thesis unfolding example_conn_def [symmetric] example_plain_def by (auto simp: prod_eq_iff split: sum.splits)
qed

theorem plain_client_delivers_once_witness:
  "\<exists>w. plain_run toy_crypto example_plain w \<and> map (\<lambda>(packet, origin, now, d, p, a). (origin, p, a)) (pl_delivered w) = [(Some ([192, 0, 2, 1], 443), [5, 6], DomainUDPAddr (lit ''a:53''))] \<and>
     distinct (map response_id (pl_delivered w))"
proof -
  let ?packet = "case fst example_reply of Inr x \<Rightarrow> x"
  have "plain_decode toy_crypto (Some ([192, 0, 2, 1], 443)) ?packet 1010 example_plain \<noteq> None" by code_simp
  then obtain d where d: "plain_decode toy_crypto (Some ([192, 0, 2, 1], 443)) ?packet 1010 example_plain = Some d" by blast
  have "fst (plain_accept 2 (the (plain_decode toy_crypto (Some ([192, 0, 2, 1], 443)) ?packet 1010 example_plain)) example_plain) = Delivered [5, 6] (DomainUDPAddr (lit ''a:53''))" by code_simp
  then obtain c where a: "plain_accept 2 d example_plain = (Delivered [5, 6] (DomainUDPAddr (lit ''a:53'')), c)" unfolding d by (metis option.sel prod.collapse)
  let ?w = "\<lparr>pl_conn = example_plain, pl_delivered = [], pl_sent = []\<rparr>"
  have "plain_run toy_crypto example_plain ?w" by (rule l_open)
  let ?v = "\<lparr>pl_conn = c, pl_delivered = [(?packet, Some ([192, 0, 2, 1], 443), 1010, d, [5, 6], DomainUDPAddr (lit ''a:53''))], pl_sent = []\<rparr>"
  from l_packet [OF \<open>plain_run toy_crypto example_plain ?w\<close> _ \<open>plain_run toy_crypto example_plain ?w\<close>, of "Some ([192, 0, 2, 1], 443)" ?packet 1010 d 2] d a
  have run: "plain_run toy_crypto example_plain ?v" by fastforce
  have "map (\<lambda>(packet, origin, now, d, p, a). (origin, p, a)) (pl_delivered ?v) = [(Some ([192, 0, 2, 1], 443), [5, 6], DomainUDPAddr (lit ''a:53''))]" by simp
  with run conjunct1 [OF plain_client_delivers_once [OF toy_crypto_ok example_opened run]] show ?thesis by (intro exI [of _ ?v] conjI)
qed

text \<open>
  C39: A client and a server with the same key and server identity, whose clocks differ by at most 30 seconds, exchange packets without loss of
  meaning. What the client writes to an IPv4 socket address, an IPv4 echo target or a domain name (other than \<open>icmp\<close>) the server decodes to the
  session, the payload and the text of the address; and when the server answers under the address it decoded, the client, provided its response
  window admits the packet, returns the payload cut to the size of its buffer together with the very address the application had written to.
\<close>

theorem udp_association_roundtrip:
  assumes "crypto_ok cr" "newPlainUDPConn cr ctxErr rs server listened rnd psk serverID = (Inr c0, kept)" "plain_run cr c0 w" "NewCodec cr psk [serverID] = Inr peer"
    and "plain_addr a" "plain_WriteTo cr rnd1 sent p (Some a) (pl_conn w) = (Inr packet, c)" "\<bar>int64_diff received sent\<bar> \<le> 30"
    and "EncodePacket cr (peer\<lparr>cd_sequence := n\<rparr>) rnd2 [] DirServerToClient (pn_sessionID c0) (formatDatagramAddress (Some a)) q answered = (Inr reply, peer', rnd3)"
    and "\<bar>int64_diff returned answered\<bar> \<le> 30" "fst (ResponseReplayWindow_Accept (pn_replay c) (answered, n + 1))"
  shows "DecodePacket cr peer packet DirClientToServer received = Inr \<lparr>de_sessionID = pn_sessionID c0, de_targetAddr = formatDatagramAddress (Some a),
      de_payload = p, de_timestamp = sent, de_seq = cd_sequence (pn_codec (pl_conn w)) + 1\<rparr> \<and>
    fst (plain_ReadFrom cr m [Inr (Some (pn_server c0), reply, returned)] c) = Some (Delivered (take m q) a)"
proof -
  note new = newPlainUDPConn_ok [OF assms(2)]
  note i = plain_run_inv [OF assms(3) new(1), unfolded plain_inv_def]
  have peer: "peer = pn_codec c0" using new(3) assms(4) by simp
  have addr: "parseUDPAddr (formatDatagramAddress (Some a)) = a" "canonUdp (formatDatagramAddress (Some a)) = formatDatagramAddress (Some a)"
    using address_roundtrip [OF assms(5)] by blast+
  obtain codec rnd' where e: "EncodePacket cr (pn_codec (pl_conn w)) rnd1 [] DirClientToServer (pn_sessionID c0) (formatDatagramAddress (Some a)) p sent = (Inr packet, codec, rnd')"
    "c = (pl_conn w)\<lparr>pn_codec := codec\<rparr>" "\<not> pn_closed (pl_conn w)"
    using assms(6) i by (auto simp: plain_WriteTo_def split: if_splits prod.splits)
  have "dirKey peer DirClientToServer = dirKey (pn_codec (pl_conn w)) DirClientToServer" using i by (simp add: dirKey_def peer)
  note request = plainudp_roundtrip [OF assms(1) e(1) this assms(7)]
  have "dirKey (pn_codec c) DirServerToClient = dirKey (peer\<lparr>cd_sequence := n\<rparr>) DirServerToClient"
    using EncodePacket_keys [OF e(1)] i by (simp add: dirKey_def peer e(2))
  note response = plainudp_roundtrip [OF assms(1,8) this assms(9)]
  have "IP_Equal ip ip" for ip by (simp add: IP_Equal_def)
  then have "plain_decode cr (Some (pn_server c0)) reply returned c = Some \<lparr>de_sessionID = pn_sessionID c0, de_targetAddr = formatDatagramAddress (Some a),
      de_payload = q, de_timestamp = answered, de_seq = n + 1\<rparr>"
    using response i addr(2) by (simp add: plain_decode_def e(2) split: prod.splits)
  then show ?thesis using request addr assms(10) e(2,3) by (auto simp: plain_ReadFrom_def plain_accept_def split: prod.splits)
qed

definition example_request :: "bytes result \<times> plain_conn" where
  "example_request = plain_WriteTo toy_crypto [(replicate 24 8, None)] 990 [1, 2] (Some (DomainUDPAddr (lit ''a:53''))) example_plain"

theorem udp_association_roundtrip_witness:
  "DecodePacket toy_crypto (pn_codec example_plain) (case fst example_request of Inr x \<Rightarrow> x) DirClientToServer 995 =
     Inr \<lparr>de_sessionID = pn_sessionID example_plain, de_targetAddr = lit ''a:53'', de_payload = [1, 2], de_timestamp = 990, de_seq = 1\<rparr> \<and>
   fst (plain_ReadFrom toy_crypto 2 [Inr (Some (pn_server example_plain), case fst example_reply of Inr x \<Rightarrow> x, 1010)] (snd example_request)) =
     Some (Delivered [5, 6] (DomainUDPAddr (lit ''a:53'')))"
proof -
  let ?w = "\<lparr>pl_conn = example_plain, pl_delivered = [], pl_sent = []\<rparr>"
  have run: "plain_run toy_crypto example_plain ?w" by (rule l_open)
  have codec: "NewCodec toy_crypto (replicate 32 7) [lit ''s''] = Inr (pn_codec example_plain)" by (rule newPlainUDPConn_ok(3) [OF example_opened])
  have f: "formatDatagramAddress (Some (DomainUDPAddr (lit ''a:53''))) = lit ''a:53''" by code_simp
  have "JoinHostPort (lit ''a'') (Itoa 53) = lit ''a:53''" "domain_ok (lit ''a'')" "lit ''a'' \<noteq> lit ''icmp''" by code_simp+
  then have "DomainUDPAddr (lit ''a:53'') = DomainUDPAddr (JoinHostPort (lit ''a'') (Itoa 53)) \<and> domain_ok (lit ''a'') \<and> lit ''a'' \<noteq> lit ''icmp'' \<and> 0 < (53 :: nat) \<and> (53 :: nat) < 65536"
    by simp
  then have addr: "plain_addr (DomainUDPAddr (lit ''a:53''))" unfolding plain_addr_def by blast
  have ok: "\<not> isl (fst example_request)" "\<not> isl (fst example_reply)" "fst (ResponseReplayWindow_Accept (pn_replay (snd example_request)) (1000, 6 + 1))"
    "cd_sequence (pn_codec example_plain) + 1 = 1" "int64_diff 995 990 = 5" "int64_diff 1010 1000 = 10" by code_simp+
  obtain packet c where request: "example_request = (Inr packet, c)" using ok(1) by (metis isl_def obj_sumE prod.collapse)
  obtain reply server rnd where reply: "example_reply = (Inr reply, server, rnd)" using ok(2) by (metis isl_def obj_sumE prod.collapse)
  from udp_association_roundtrip [OF toy_crypto_ok example_opened run codec addr, of _ 990 "[1, 2]" packet c 995 6 _ "[5, 6, 7]" 1000 reply server rnd 1010 2]
  show ?thesis using request reply ok f by (simp add: example_request_def example_reply_def)
qed

end
