(* ===== verification/ClientQuic.thy ===== *)
theory ClientQuic
  imports ClientAddr "HOL-Library.Multiset"
begin

text \<open>
  Datagrams over HTTP/3: \<open>quicPacketConn\<close> of \<^verbatim>\<open>src/pkg/client/conn_udp.go\<close>. Readers, writers, deadline changes and \<open>Close\<close> run concurrently: what runs
  under a lock is one step. What the QUIC stream receives and whether a send succeeds are outcomes.
\<close>

subsection \<open>Datagrams over HTTP/3\<close>

definition DeadlineExceeded :: goerr where "DeadlineExceeded = Timeout 0"
definition Canceled :: goerr where "Canceled = Errorf ''context canceled''"

text \<open>
  Contexts made from the context of the connection: the deadline and whether the context was cancelled. They are numbered in the order of their creation; a read that waits and
  its entry in the list of reads hold the number of the same context.
\<close>

type_synonym go_context = "int option \<times> bool"
type_synonym read_entry = "u64 \<times> nat"

record quic_conn =
  qc_closed :: bool
  qc_sequence :: u64
  qc_replay :: replay_window
  qc_decoder :: datagram_cache
  qc_readDeadline :: "int option"
  qc_writeDeadline :: "int option"
  qc_writeContext :: "nat option"
  qc_contexts :: "go_context list"
  qc_reads :: "read_entry list"
  qc_nextReadID :: u64

definition new_quic_conn :: quic_conn where
  "new_quic_conn = \<lparr>qc_closed = False, qc_sequence = 0, qc_replay = new_window, qc_decoder = \<lparr>dc_key = [], dc_address = []\<rparr>, qc_readDeadline = None,
     qc_writeDeadline = None, qc_writeContext = None, qc_contexts = [], qc_reads = [], qc_nextReadID = 0\<rparr>"

text \<open>\<open>context.WithCancel\<close> and \<open>context.WithDeadline\<close>; the context of a closed connection is done, and so are those made from it.\<close>

definition new_context :: "int option \<Rightarrow> quic_conn \<Rightarrow> nat \<times> quic_conn" where
  "new_context deadline c = (length (qc_contexts c), c\<lparr>qc_contexts := qc_contexts c @ [(deadline, qc_closed c)]\<rparr>)"

definition cancel :: "nat \<Rightarrow> quic_conn \<Rightarrow> quic_conn" where
  "cancel ctx c = c\<lparr>qc_contexts := (qc_contexts c)[ctx := (fst (qc_contexts c ! ctx), True)]\<rparr>"

definition passed :: "int option \<Rightarrow> int \<Rightarrow> bool" where
  "passed deadline now = (case deadline of None \<Rightarrow> False | Some t \<Rightarrow> t \<le> now)"

text \<open>The result is the number of the read with its context.\<close>

definition quic_read_begin :: "goerr option \<Rightarrow> int \<Rightarrow> quic_conn \<Rightarrow> read_entry result \<times> quic_conn" where
  "quic_read_begin ctxErr now c =
     (case ctxErr of
        Some e \<Rightarrow> (Inl e, c)
      | None \<Rightarrow>
          if qc_closed c then (Inl NetErrClosed, c)
          else if passed (qc_readDeadline c) now then (Inl DeadlineExceeded, c)
          else (case new_context (qc_readDeadline c) c of
                  (ctx, c) \<Rightarrow>
                    let readID = qc_nextReadID c + 1
                    in (Inr (readID, ctx), c\<lparr>qc_nextReadID := readID, qc_reads := qc_reads c @ [(readID, ctx)]\<rparr>)))"

text \<open>The entry is replaced by the last one, which is then cut off.\<close>

fun entry_index :: "u64 \<Rightarrow> read_entry list \<Rightarrow> nat option" where
  "entry_index readID [] = None"
| "entry_index readID (e # es) = (if fst e = readID then Some 0 else map_option Suc (entry_index readID es))"

definition remove_entry :: "u64 \<Rightarrow> read_entry list \<Rightarrow> read_entry list" where
  "remove_entry readID es = (case entry_index readID es of None \<Rightarrow> es | Some i \<Rightarrow> butlast (es[i := last es]))"

text \<open>After \<open>ReceiveDatagram\<close> came back, under \<open>mu\<close>; a packet goes on to \<open>quic_accept\<close>.\<close>

definition quic_read_end :: "goerr option \<Rightarrow> int \<Rightarrow> read_entry \<Rightarrow> bytes result \<Rightarrow> quic_conn \<Rightarrow> (reading + bytes) \<times> quic_conn" where
  "quic_read_end ctxErr now r outcome c =
     (let c = cancel (snd r) c; c = c\<lparr>qc_reads := remove_entry (fst r) (qc_reads c)\<rparr>
      in if qc_closed c then (Inl (Failed NetErrClosed), c)
         else (case outcome of
                 Inr packet \<Rightarrow> (Inr packet, c)
               | Inl err \<Rightarrow>
                   if err = Canceled \<or> err = DeadlineExceeded then
                     (case ctxErr of
                        Some e \<Rightarrow> (Inl (Failed e), c)
                      | None \<Rightarrow> if passed (qc_readDeadline c) now then (Inl (Failed DeadlineExceeded), c) else (Inl Next, c))
                   else (Inl (Failed err), c)))"

text \<open>Under \<open>readMu\<close>.\<close>

definition quic_accept :: "nat \<Rightarrow> bytes \<Rightarrow> quic_conn \<Rightarrow> reading \<times> quic_conn" where
  "quic_accept n packet c =
     (case DatagramCache_Decode (qc_decoder c) packet of
        (Inl e, dc) \<Rightarrow> (Next, c\<lparr>qc_decoder := dc\<rparr>)
      | (Inr (seq, address, payload), dc) \<Rightarrow>
          (case ReplayWindow_Accept (qc_replay c) seq of
             (accepted, w) \<Rightarrow>
               (if accepted then Delivered (take n payload) (parseUDPAddr address) else Next, c\<lparr>qc_decoder := dc, qc_replay := w\<rparr>)))"

definition cancel_reads :: "quic_conn \<Rightarrow> quic_conn" where
  "cancel_reads c = fold (\<lambda>(readID, ctx). cancel ctx) (qc_reads c) c"

definition quic_SetReadDeadline :: "int option \<Rightarrow> int \<Rightarrow> quic_conn \<Rightarrow> quic_conn" where
  "quic_SetReadDeadline t now c =
     (let oldDl = qc_readDeadline c; c = c\<lparr>qc_readDeadline := t\<rparr>
      in if t = None \<or> oldDl = None \<or> the t < the oldDl \<or> the oldDl \<le> now then cancel_reads c else c)"

text \<open>Under \<open>mu\<close>; the result is the context that was replaced, which is cancelled after \<open>mu\<close> is released.\<close>

definition quic_SetWriteDeadline :: "int option \<Rightarrow> quic_conn \<Rightarrow> nat option \<times> quic_conn" where
  "quic_SetWriteDeadline t c =
     (case new_context t c of (next, c) \<Rightarrow> (qc_writeContext c, c\<lparr>qc_writeDeadline := t, qc_writeContext := Some next\<rparr>))"

definition quic_encode :: "bytes \<Rightarrow> netaddr option \<Rightarrow> quic_conn \<Rightarrow> bytes result \<times> quic_conn" where
  "quic_encode p addr c =
     (EncodeDatagram (qc_sequence c + 1) (formatDatagramAddress addr) p, c\<lparr>qc_sequence := qc_sequence c + 1\<rparr>)"

fun encode_batch :: "(bytes \<times> netaddr option) list \<Rightarrow> quic_conn \<Rightarrow> bytes list result \<times> quic_conn" where
  "encode_batch [] c = (Inr [], c)"
| "encode_batch ((p, addr) # ps) c =
     (case quic_encode p addr c of
        (Inl e, c) \<Rightarrow> (Inl e, c)
      | (Inr packet, c) \<Rightarrow> (case encode_batch ps c of (Inl e, c) \<Rightarrow> (Inl e, c) | (Inr packets, c) \<Rightarrow> (Inr (packet # packets), c)))"

definition quic_WriteBatch :: "bytes list \<Rightarrow> netaddr option list \<Rightarrow> quic_conn \<Rightarrow> bytes list result \<times> quic_conn" where
  "quic_WriteBatch payloads addrs c =
     (if length payloads \<noteq> length addrs then (Inl (Errorf ''chitanda: payload/address batch lengths differ''), c)
      else (case List.find (\<lambda>addr. addr \<in> {None, Some NilUDPAddr, Some NilICMPAddr}) addrs of
              Some None \<Rightarrow> (Inl (Errorf ''nil datagram destination''), c)
            | Some (Some NilUDPAddr) \<Rightarrow> (Inl (Errorf ''nil UDP destination''), c)
            | Some _ \<Rightarrow> (Inl (Errorf ''nil ICMP destination''), c)
            | None \<Rightarrow> encode_batch (zip payloads addrs) c))"

text \<open>\<open>sendWithWriteDeadline\<close>: the context of one attempt, and whether to try again after it failed.\<close>

definition quic_send_begin :: "goerr option \<Rightarrow> int \<Rightarrow> quic_conn \<Rightarrow> nat result \<times> quic_conn" where
  "quic_send_begin ctxErr now c =
     (if qc_closed c \<or> ctxErr \<noteq> None then (Inl NetErrClosed, c)
      else if passed (qc_writeDeadline c) now then (Inl DeadlineExceeded, c)
      else (case qc_writeContext c of
              Some ctx \<Rightarrow> (Inr ctx, c)
            | None \<Rightarrow> (case new_context None c of (ctx, c) \<Rightarrow> (Inr ctx, c\<lparr>qc_writeContext := Some ctx\<rparr>))))"

datatype send_outcome = Sent | Send_error goerr | Send_again

definition quic_send_end :: "goerr option \<Rightarrow> int \<Rightarrow> nat \<Rightarrow> goerr option \<Rightarrow> quic_conn \<Rightarrow> send_outcome" where
  "quic_send_end ctxErr now ctx err c =
     (case err of
        None \<Rightarrow> Sent
      | Some e \<Rightarrow>
          if \<not> (ctxErr \<noteq> None \<or> snd (qc_contexts c ! ctx) \<or> passed (fst (qc_contexts c ! ctx)) now) then Send_error e
          else if qc_closed c then Send_error NetErrClosed
          else if qc_writeContext c \<noteq> Some ctx then Send_again
          else Send_error e)"

text \<open>The entries, the context for writes and then the context of the connection are cancelled, and with it all that were made from it.\<close>

definition quic_Close :: "quic_conn \<Rightarrow> bool \<times> quic_conn" where
  "quic_Close c =
     (if qc_closed c then (False, c)
      else let c = cancel_reads (c\<lparr>qc_closed := True\<rparr>); c = (case qc_writeContext c of None \<Rightarrow> c | Some ctx \<Rightarrow> cancel ctx c)
           in (True, c\<lparr>qc_contexts := map (\<lambda>(deadline, _). (deadline, True)) (qc_contexts c)\<rparr>))"

subsection \<open>Runs of a connection over HTTP/3\<close>

text \<open>
  Beside the connection: \<open>qw_readers\<close> are the reads that wait in \<open>ReceiveDatagram\<close>, each with its number and its context, and \<open>qw_started\<close> counts the reads that ever waited; \<open>qw_received\<close>
  has all packets the stream gave to a read, \<open>qw_packets\<close> those that are not yet examined, and \<open>qw_delivered\<close> those a read returned, with the size of its buffer and what it
  returned; \<open>qw_senders\<close> are the contexts of the sends that wait, and \<open>qw_cancelling\<close> the replaced contexts that \<open>SetWriteDeadline\<close> is about to cancel.
\<close>

record quic_world =
  qw_conn :: quic_conn
  qw_readers :: "read_entry list"
  qw_started :: nat
  qw_received :: "bytes list"
  qw_packets :: "bytes list"
  qw_delivered :: "(bytes \<times> nat \<times> bytes \<times> netaddr) list"
  qw_senders :: "nat list"
  qw_cancelling :: "nat list"

inductive quic_run :: "quic_world \<Rightarrow> bool" where
  q_open: "quic_run \<lparr>qw_conn = new_quic_conn, qw_readers = [], qw_started = 0, qw_received = [], qw_packets = [], qw_delivered = [], qw_senders = [], qw_cancelling = []\<rparr>"
| q_fail: "quic_run w \<Longrightarrow> quic_read_begin ctxErr now (qw_conn w) = (Inl e, c) \<Longrightarrow> quic_run (w\<lparr>qw_conn := c\<rparr>)"
| q_wait: "quic_run w \<Longrightarrow> quic_read_begin ctxErr now (qw_conn w) = (Inr r, c) \<Longrightarrow>
    quic_run (w\<lparr>qw_conn := c, qw_readers := r # qw_readers w, qw_started := qw_started w + 1\<rparr>)"
| q_receive: "quic_run w \<Longrightarrow> r \<in> set (qw_readers w) \<Longrightarrow> quic_read_end ctxErr now r outcome (qw_conn w) = (res, c) \<Longrightarrow>
    quic_run (w\<lparr>qw_conn := c, qw_readers := remove1 r (qw_readers w),
      qw_received := (case outcome of Inl e \<Rightarrow> qw_received w | Inr packet \<Rightarrow> packet # qw_received w),
      qw_packets := (case res of Inl x \<Rightarrow> qw_packets w | Inr packet \<Rightarrow> packet # qw_packets w)\<rparr>)"
| q_accept: "quic_run w \<Longrightarrow> packet \<in> set (qw_packets w) \<Longrightarrow> quic_accept n packet (qw_conn w) = (res, c) \<Longrightarrow>
    quic_run (w\<lparr>qw_conn := c, qw_packets := remove1 packet (qw_packets w),
      qw_delivered := (case res of Delivered p a \<Rightarrow> (packet, n, p, a) # qw_delivered w | _ \<Rightarrow> qw_delivered w)\<rparr>)"
| q_read_deadline: "quic_run w \<Longrightarrow> quic_run (w\<lparr>qw_conn := quic_SetReadDeadline t now (qw_conn w)\<rparr>)"
| q_write_deadline: "quic_run w \<Longrightarrow> quic_SetWriteDeadline t (qw_conn w) = (old, c) \<Longrightarrow>
    quic_run (w\<lparr>qw_conn := c, qw_cancelling := (case old of None \<Rightarrow> qw_cancelling w | Some ctx \<Rightarrow> ctx # qw_cancelling w)\<rparr>)"
| q_cancelled: "quic_run w \<Longrightarrow> ctx \<in> set (qw_cancelling w) \<Longrightarrow>
    quic_run (w\<lparr>qw_conn := cancel ctx (qw_conn w), qw_cancelling := remove1 ctx (qw_cancelling w)\<rparr>)"
| q_write: "quic_run w \<Longrightarrow> quic_run (w\<lparr>qw_conn := snd (quic_encode p addr (qw_conn w))\<rparr>)"
| q_batch: "quic_run w \<Longrightarrow> quic_run (w\<lparr>qw_conn := snd (quic_WriteBatch ps addrs (qw_conn w))\<rparr>)"
| q_send: "quic_run w \<Longrightarrow> quic_send_begin ctxErr now (qw_conn w) = (res, c) \<Longrightarrow>
    quic_run (w\<lparr>qw_conn := c, qw_senders := (case res of Inl e \<Rightarrow> qw_senders w | Inr ctx \<Rightarrow> ctx # qw_senders w)\<rparr>)"
| q_sent: "quic_run w \<Longrightarrow> ctx \<in> set (qw_senders w) \<Longrightarrow> quic_run (w\<lparr>qw_senders := remove1 ctx (qw_senders w)\<rparr>)"
| q_close: "quic_run w \<Longrightarrow> quic_run (w\<lparr>qw_conn := snd (quic_Close (qw_conn w))\<rparr>)"

text \<open>
  A waiting read is woken no later than the current deadline asks, since its context is cancelled or ends in time; a send that waits has the current context, or its context is or
  will be cancelled.
\<close>

definition woken_in_time :: "quic_conn \<Rightarrow> nat \<Rightarrow> bool" where
  "woken_in_time c ctx \<longleftrightarrow> snd (qc_contexts c ! ctx) \<or>
     \<not> qc_closed c \<and> (\<forall>t. qc_readDeadline c = Some t \<longrightarrow> (\<exists>d \<le> t. fst (qc_contexts c ! ctx) = Some d))"

definition reads_ok :: "quic_world \<Rightarrow> bool" where
  "reads_ok w \<longleftrightarrow> (let c = qw_conn w in mset (qw_readers w) = mset (qc_reads c) \<and> distinct (map fst (qc_reads c)) \<and> qc_nextReadID c = word_of_nat (qw_started w) \<and>
     (\<forall>(readID, ctx) \<in> set (qc_reads c). (\<exists>k \<le> qw_started w. readID = word_of_nat k) \<and> ctx < length (qc_contexts c) \<and> woken_in_time c ctx))"

definition sends_ok :: "quic_world \<Rightarrow> bool" where
  "sends_ok w \<longleftrightarrow> (let c = qw_conn w in (qc_closed c \<longrightarrow> (\<forall>x \<in> set (qc_contexts c). snd x)) \<and>
     (case qc_writeContext c of None \<Rightarrow> qc_writeDeadline c = None | Some ctx \<Rightarrow> ctx < length (qc_contexts c) \<and> fst (qc_contexts c ! ctx) = qc_writeDeadline c) \<and>
     (\<forall>ctx \<in> set (qw_senders w). ctx < length (qc_contexts c) \<and> (snd (qc_contexts c ! ctx) \<or> ctx \<in> set (qw_cancelling w) \<or> \<not> qc_closed c \<and> qc_writeContext c = Some ctx)))"

fun datagram_seq :: "bytes \<times> nat \<times> bytes \<times> netaddr \<Rightarrow> u64" where
  "datagram_seq (packet, n, p, a) = (case DecodeDatagram packet of Inr (seq, address, payload) \<Rightarrow> seq | Inl e \<Rightarrow> 0)"

definition log_ok :: "quic_world \<Rightarrow> bool" where
  "log_ok w \<longleftrightarrow> (\<exists>sp. window_refines (qc_replay (qw_conn w)) sp) \<and> datagram_cache_ok (qc_decoder (qw_conn w)) \<and> set (qw_packets w) \<subseteq> set (qw_received w) \<and>
     distinct (map datagram_seq (qw_delivered w)) \<and> (\<forall>q \<in> set (map datagram_seq (qw_delivered w)). \<not> fst (ReplayWindow_Accept (qc_replay (qw_conn w)) q)) \<and>
     (\<forall>(packet, n, p, a) \<in> set (qw_delivered w). packet \<in> set (qw_received w) \<and>
        (\<exists>seq address payload. DecodeDatagram packet = Inr (seq, address, payload) \<and> p = take n payload \<and> a = parseUDPAddr address))"

subsection \<open>Contexts\<close>

text \<open>Contexts are added and cancelled, never revived; a deadline does not change.\<close>

definition extends :: "go_context list \<Rightarrow> go_context list \<Rightarrow> bool" where
  "extends xs ys \<longleftrightarrow> length xs \<le> length ys \<and> (\<forall>i < length xs. fst (ys ! i) = fst (xs ! i) \<and> (snd (xs ! i) \<longrightarrow> snd (ys ! i)))"

lemma extends_refl [simp]: "extends xs xs"
  by (simp add: extends_def)

lemma extends_trans: "extends xs ys \<Longrightarrow> extends ys zs \<Longrightarrow> extends xs zs"
  by (auto simp: extends_def)

lemma extends_snoc [simp]: "extends xs (xs @ [x])"
  by (simp add: extends_def nth_append)

lemma extends_cancel: "extends xs (xs[i := (fst (xs ! i), True)])"
  by (cases "i < length xs") (auto simp: extends_def nth_list_update)

lemma extends_map: "extends xs (map (\<lambda>(deadline, _). (deadline, True)) xs)"
  by (simp add: extends_def case_prod_beta)

lemma fold_cancel:
  "\<exists>cs. fold (\<lambda>(readID, ctx). cancel ctx) es c = c\<lparr>qc_contexts := cs\<rparr> \<and> extends (qc_contexts c) cs \<and> length cs = length (qc_contexts c) \<and>
     (\<forall>(readID, ctx) \<in> set es. ctx < length cs \<longrightarrow> snd (cs ! ctx))"
proof (induction es arbitrary: c)
  case Nil
  show ?case by (intro exI [of _ "qc_contexts c"]) simp
next
  case (Cons e es)
  obtain i ctx where e: "e = (i, ctx)" by fastforce
  obtain cs where cs: "fold (\<lambda>(readID, ctx). cancel ctx) es (cancel ctx c) = (cancel ctx c)\<lparr>qc_contexts := cs\<rparr>" "extends (qc_contexts (cancel ctx c)) cs"
    "length cs = length (qc_contexts (cancel ctx c))" "\<forall>(readID, ctx) \<in> set es. ctx < length cs \<longrightarrow> snd (cs ! ctx)" using Cons.IH by blast
  have x: "extends (qc_contexts c) (qc_contexts (cancel ctx c))" "length (qc_contexts (cancel ctx c)) = length (qc_contexts c)" "(cancel ctx c)\<lparr>qc_contexts := cs\<rparr> = c\<lparr>qc_contexts := cs\<rparr>"
    by (simp_all add: cancel_def extends_cancel)
  have "snd (cs ! ctx)" if "ctx < length cs" using cs(2,3) that by (simp add: extends_def cancel_def)
  then show ?case using cs x(2,3) extends_trans [OF x(1) cs(2)] by (intro exI [of _ cs]) (simp add: e)
qed

lemma cancel_reads_obtain:
  obtains cs where "cancel_reads c = c\<lparr>qc_contexts := cs\<rparr>" "extends (qc_contexts c) cs" "length cs = length (qc_contexts c)"
    "\<forall>(readID, ctx) \<in> set (qc_reads c). ctx < length cs \<longrightarrow> snd (cs ! ctx)"
  using fold_cancel [of "qc_reads c" c] that unfolding cancel_reads_def by blast

lemma woken_extends:
  assumes "woken_in_time c ctx" "ctx < length (qc_contexts c)" "extends (qc_contexts c) (qc_contexts c')" "qc_closed c' = qc_closed c" "qc_readDeadline c' = qc_readDeadline c"
  shows "woken_in_time c' ctx"
  using assms by (auto simp: woken_in_time_def extends_def)

subsection \<open>Steps that leave the reads, the sends or the packets alone\<close>

lemma reads_frame:
  assumes "reads_ok w" "qw_readers w' = qw_readers w" "qw_started w' = qw_started w" "qc_reads (qw_conn w') = qc_reads (qw_conn w)"
    and "qc_nextReadID (qw_conn w') = qc_nextReadID (qw_conn w)" "qc_closed (qw_conn w') = qc_closed (qw_conn w)" "qc_readDeadline (qw_conn w') = qc_readDeadline (qw_conn w)"
    and "extends (qc_contexts (qw_conn w)) (qc_contexts (qw_conn w'))"
  shows "reads_ok w'"
proof -
  have "ctx < length (qc_contexts (qw_conn w')) \<and> woken_in_time (qw_conn w') ctx" if "(i, ctx) \<in> set (qc_reads (qw_conn w))" for i ctx
  proof -
    have "ctx < length (qc_contexts (qw_conn w))" "woken_in_time (qw_conn w) ctx" using assms(1) that by (auto simp: reads_ok_def Let_def)
    then show ?thesis using woken_extends [OF _ _ assms(8,6,7)] assms(8) by (auto simp: extends_def)
  qed
  then show ?thesis using assms(1-5) by (fastforce simp: reads_ok_def Let_def)
qed

lemma sends_frame:
  assumes "sends_ok w" "qw_senders w' = qw_senders w" "set (qw_cancelling w) \<subseteq> set (qw_cancelling w') \<union> {ctx. snd (qc_contexts (qw_conn w') ! ctx)}"
    and "qc_writeContext (qw_conn w') = qc_writeContext (qw_conn w)" "qc_writeDeadline (qw_conn w') = qc_writeDeadline (qw_conn w)"
    and "qc_closed (qw_conn w') = qc_closed (qw_conn w)" "extends (qc_contexts (qw_conn w)) (qc_contexts (qw_conn w'))"
    and "qc_closed (qw_conn w) \<longrightarrow> (\<forall>x \<in> set (qc_contexts (qw_conn w')). snd x)"
  shows "sends_ok w'"
proof -
  let ?c = "qw_conn w" and ?c' = "qw_conn w'"
  have "ctx < length (qc_contexts ?c') \<and> (snd (qc_contexts ?c' ! ctx) \<or> ctx \<in> set (qw_cancelling w') \<or> \<not> qc_closed ?c' \<and> qc_writeContext ?c' = Some ctx)" if "ctx \<in> set (qw_senders w)" for ctx
  proof -
    have "ctx < length (qc_contexts ?c)" "snd (qc_contexts ?c ! ctx) \<or> ctx \<in> set (qw_cancelling w) \<or> \<not> qc_closed ?c \<and> qc_writeContext ?c = Some ctx"
      using assms(1) that by (auto simp: sends_ok_def Let_def)
    then show ?thesis using assms(3,4,6,7) by (auto simp: extends_def)
  qed
  moreover have "case qc_writeContext ?c' of None \<Rightarrow> qc_writeDeadline ?c' = None | Some ctx \<Rightarrow> ctx < length (qc_contexts ?c') \<and> fst (qc_contexts ?c' ! ctx) = qc_writeDeadline ?c'"
    using assms(1,4,5,7) by (auto simp: sends_ok_def Let_def extends_def split: option.splits)
  ultimately show ?thesis using assms(2,6,8) unfolding sends_ok_def Let_def by simp
qed

lemma log_frame:
  assumes "log_ok w" "qc_replay (qw_conn w') = qc_replay (qw_conn w)" "qc_decoder (qw_conn w') = qc_decoder (qw_conn w)"
    and "set (qw_packets w') \<subseteq> set (qw_received w')" "set (qw_received w) \<subseteq> set (qw_received w')" "qw_delivered w' = qw_delivered w"
  shows "log_ok w'"
  using assms unfolding log_ok_def by fastforce

subsection \<open>The list of reads\<close>

lemma entry_index_distinct:
  assumes "distinct (map fst es)" "(i, ctx) \<in> set es"
  shows "\<exists>k. entry_index i es = Some k \<and> k < length es \<and> es ! k = (i, ctx)"
  using assms by (induction es) force+

lemma mset_butlast: "xs \<noteq> [] \<Longrightarrow> add_mset (last xs) (mset (butlast xs)) = mset xs"
  by (induction xs rule: rev_induct) simp_all

lemma mset_remove_entry:
  assumes "distinct (map fst es)" "(i, ctx) \<in> set es"
  shows "mset (remove_entry i es) = mset es - {#(i, ctx)#}"
proof -
  obtain k where k: "entry_index i es = Some k" "k < length es" "es ! k = (i, ctx)" using entry_index_distinct [OF assms] by blast
  let ?us = "es[k := last es]"
  have ne: "es \<noteq> []" "?us \<noteq> []" using k(2) by auto
  have l: "last ?us = last es" using ne k(2) by (simp add: last_list_update)
  have "mset ?us = add_mset (last es) (mset (butlast ?us))" using mset_butlast [OF ne(2)] unfolding l by (rule sym)
  moreover have "mset ?us = add_mset (last es) (mset es - {#es ! k#})" using k(2) by (simp add: mset_update)
  ultimately show ?thesis using k by (simp add: remove_entry_def)
qed

lemma remove_entry_distinct:
  assumes "distinct (map fst es)" "(i, ctx) \<in> set es"
  shows "distinct (map fst (remove_entry i es))" "set (remove_entry i es) \<subseteq> set es"
proof -
  have m: "mset (remove_entry i es) = mset (remove1 (i, ctx) es)" using mset_remove_entry [OF assms] by simp
  then have "mset (map fst (remove_entry i es)) = mset (map fst (remove1 (i, ctx) es))" by simp
  moreover have "distinct (map fst (remove1 (i, ctx) es))"
    using assms(1) set_remove1_subset [of "(i, ctx)" es] by (auto simp: distinct_map intro: inj_on_subset)
  ultimately show "distinct (map fst (remove_entry i es))" using mset_eq_imp_distinct_iff by blast
  show "set (remove_entry i es) \<subseteq> set es" using mset_eq_setD [OF m] set_remove1_subset [of "(i, ctx)" es] by blast
qed

subsection \<open>The steps\<close>

lemma reads_wait:
  assumes "reads_ok w" "quic_read_begin ctxErr now (qw_conn w) = (Inr r, c)" "qw_started w + 1 < 2 ^ 64"
    and "qw_conn w' = c" "qw_readers w' = r # qw_readers w" "qw_started w' = qw_started w + 1"
  shows "reads_ok w'"
proof -
  let ?c = "qw_conn w" and ?id = "qc_nextReadID (qw_conn w) + 1" and ?ctx = "length (qc_contexts (qw_conn w))"
  have c: "r = (?id, ?ctx)" "qc_reads c = qc_reads ?c @ [r]" "qc_nextReadID c = ?id" "qc_contexts c = qc_contexts ?c @ [(qc_readDeadline ?c, False)]" "\<not> qc_closed c" "\<not> qc_closed ?c"
    "qc_readDeadline c = qc_readDeadline ?c"
    using assms(2) by (auto simp: quic_read_begin_def new_context_def Let_def split: option.splits if_splits)
  have i: "mset (qw_readers w) = mset (qc_reads ?c)" "distinct (map fst (qc_reads ?c))" "qc_nextReadID ?c = word_of_nat (qw_started w)"
    "\<And>j ctx. (j, ctx) \<in> set (qc_reads ?c) \<Longrightarrow> (\<exists>k \<le> qw_started w. j = word_of_nat k) \<and> ctx < ?ctx \<and> woken_in_time ?c ctx"
    using assms(1) by (auto simp: reads_ok_def Let_def)
  have id: "?id = word_of_nat (qw_started w + 1)" using i(3) by simp
  have "word_of_nat k \<noteq> (word_of_nat (qw_started w + 1) :: u64)" if "k \<le> qw_started w" for k
  proof -
    have "unat (word_of_nat j :: u64) = j" if "j < 2 ^ 64" for j using that by (simp add: unat_of_nat take_bit_nat_eq_self)
    from this [of k] this [OF assms(3)] have "unat (word_of_nat k :: u64) = k" "unat (word_of_nat (qw_started w + 1) :: u64) = qw_started w + 1"
      using that assms(3) by linarith+
    moreover have "k \<noteq> qw_started w + 1" using that by simp
    ultimately show ?thesis by metis
  qed
  then have fresh: "k \<le> qw_started w \<Longrightarrow> ?id \<noteq> word_of_nat k" for k unfolding id by metis
  have "?id \<notin> set (map fst (qc_reads ?c))"
  proof
    assume "?id \<in> set (map fst (qc_reads ?c))"
    then obtain ctx where "(?id, ctx) \<in> set (qc_reads ?c)" by auto
    then show False using i(4) fresh by blast
  qed
  moreover have "(\<exists>k \<le> qw_started w + 1. j = word_of_nat k) \<and> ctx < length (qc_contexts c) \<and> woken_in_time c ctx" if x: "(j, ctx) \<in> set (qc_reads c)" for j ctx
  proof (cases "(j, ctx) = r")
    case True
    then show ?thesis using c(1,4,5,7) id by (auto simp: woken_in_time_def)
  next
    case False
    then have "(j, ctx) \<in> set (qc_reads ?c)" using x c(2) by auto
    from i(4) [OF this] show ?thesis using woken_extends [of ?c ctx c] c(4,5,6,7) by (auto intro: le_SucI)
  qed
  ultimately show ?thesis using i(1,2) c(1,2,3) id assms(4-6) by (auto simp: reads_ok_def Let_def)
qed

lemma reads_receive:
  assumes "reads_ok w" "r \<in> set (qw_readers w)" "quic_read_end ctxErr now r outcome (qw_conn w) = (res, c)"
    and "qw_conn w' = c" "qw_readers w' = remove1 r (qw_readers w)" "qw_started w' = qw_started w"
  shows "reads_ok w'"
proof -
  let ?c = "qw_conn w"
  obtain i ctx where r: "r = (i, ctx)" by fastforce
  have c: "c = (cancel ctx ?c)\<lparr>qc_reads := remove_entry i (qc_reads ?c)\<rparr>"
    using assms(3) by (auto simp: r quic_read_end_def Let_def cancel_def split: sum.splits option.splits if_splits)
  have m: "mset (qw_readers w) = mset (qc_reads ?c)" "distinct (map fst (qc_reads ?c))" using assms(1) by (simp_all add: reads_ok_def Let_def)
  then have x: "(i, ctx) \<in> set (qc_reads ?c)" using assms(2) r by (metis set_mset_mset)
  have "reads_ok (w\<lparr>qw_conn := cancel ctx ?c\<rparr>)" by (rule reads_frame [OF assms(1)]) (simp_all add: cancel_def extends_cancel)
  then have "\<forall>(j, ctx) \<in> set (remove_entry i (qc_reads ?c)). (\<exists>k \<le> qw_started w. j = word_of_nat k) \<and> ctx < length (qc_contexts c) \<and> woken_in_time c ctx"
    using remove_entry_distinct(2) [OF m(2) x] by (fastforce simp: reads_ok_def Let_def c cancel_def woken_in_time_def)
  moreover have "qc_nextReadID c = word_of_nat (qw_started w)" using assms(1) by (simp add: reads_ok_def Let_def c cancel_def)
  ultimately show ?thesis using remove_entry_distinct(1) [OF m(2) x] mset_remove_entry [OF m(2) x] m(1) assms(4-6)
    by (simp add: reads_ok_def Let_def r c)
qed

lemma log_accept:
  assumes "log_ok w" "packet \<in> set (qw_packets w)" "quic_accept n packet (qw_conn w) = (res, c)"
  shows "log_ok (w\<lparr>qw_conn := c, qw_packets := remove1 packet (qw_packets w),
    qw_delivered := (case res of Delivered p a \<Rightarrow> (packet, n, p, a) # qw_delivered w | _ \<Rightarrow> qw_delivered w)\<rparr>)"
proof -
  let ?c = "qw_conn w"
  note i = assms(1) [unfolded log_ok_def]
  have t: "fst (DatagramCache_Decode (qc_decoder ?c) packet) = DecodeDatagram packet" "datagram_cache_ok (snd (DatagramCache_Decode (qc_decoder ?c) packet))"
    using i DatagramCache_Decode_transparent DatagramCache_Decode_ok by blast+
  have p: "set (remove1 packet (qw_packets w)) \<subseteq> set (qw_received w)" "packet \<in> set (qw_received w)"
    using i assms(2) set_remove1_subset [of packet "qw_packets w"] by blast+
  show ?thesis
  proof (cases "DecodeDatagram packet")
    case (Inl e)
    then have c: "res = Next" "c = ?c\<lparr>qc_decoder := snd (DatagramCache_Decode (qc_decoder ?c) packet)\<rparr>"
      using assms(3) t(1) by (auto simp: quic_accept_def split: sum.splits prod.splits)
    then show ?thesis using i t(2) p(1) by (simp add: log_ok_def)
  next
    case (Inr y)
    then obtain seq address payload where y: "DecodeDatagram packet = Inr (seq, address, payload)" by (cases y) auto
    obtain ok g where a: "ReplayWindow_Accept (qc_replay ?c) seq = (ok, g)" by fastforce
    let ?log = "if ok then (packet, n, take n payload, parseUDPAddr address) # qw_delivered w else qw_delivered w"
    have c: "c = ?c\<lparr>qc_decoder := snd (DatagramCache_Decode (qc_decoder ?c) packet), qc_replay := g\<rparr>"
      "(case res of Delivered p a \<Rightarrow> (packet, n, p, a) # qw_delivered w | _ \<Rightarrow> qw_delivered w) = ?log"
      using assms(3) t(1) y a by (auto simp: quic_accept_def split: sum.splits prod.splits if_splits)
    have m: "map datagram_seq ?log = (if ok then seq # map datagram_seq (qw_delivered w) else map datagram_seq (qw_delivered w))" by (simp add: y)
    have g: "\<exists>sp. window_refines g sp" "\<forall>j \<in> set (map datagram_seq ?log). \<not> fst (ReplayWindow_Accept g j)" "distinct (map datagram_seq ?log)"
      unfolding m using replay_window.log_admits [OF _ _ _ a, of "map datagram_seq (qw_delivered w)"] i by auto
    have d: "\<forall>(packet, n, p, a) \<in> set ?log. packet \<in> set (qw_received w) \<and>
        (\<exists>seq address payload. DecodeDatagram packet = Inr (seq, address, payload) \<and> p = take n payload \<and> a = parseUDPAddr address)" using i p(2) y by auto
    show ?thesis unfolding c log_ok_def using g t(2) p(1) d by simp
  qed
qed

lemma encode_batch_frame:
  "\<exists>n. snd (encode_batch ps c) = c\<lparr>qc_sequence := n\<rparr>"
proof (induction ps arbitrary: c)
  case Nil
  show ?case by (intro exI [of _ "qc_sequence c"]) simp
next
  case (Cons x ps)
  obtain p addr where x: "x = (p, addr)" by fastforce
  obtain n where n: "snd (encode_batch ps (c\<lparr>qc_sequence := qc_sequence c + 1\<rparr>)) = c\<lparr>qc_sequence := n\<rparr>" using Cons.IH [of "c\<lparr>qc_sequence := qc_sequence c + 1\<rparr>"] by auto
  have "snd (encode_batch (x # ps) c) = c\<lparr>qc_sequence := qc_sequence c + 1\<rparr> \<or> snd (encode_batch (x # ps) c) = c\<lparr>qc_sequence := n\<rparr>"
    using n by (auto simp: x quic_encode_def split: sum.splits prod.splits)
  then show ?case by blast
qed

lemma quic_WriteBatch_frame: "\<exists>n. snd (quic_WriteBatch ps addrs c) = c\<lparr>qc_sequence := n\<rparr>"
proof -
  have "snd (quic_WriteBatch ps addrs c) = c \<or> snd (quic_WriteBatch ps addrs c) = snd (encode_batch (zip ps addrs) c)"
    by (simp add: quic_WriteBatch_def split: option.splits netaddr.splits)
  moreover have "c = c\<lparr>qc_sequence := qc_sequence c\<rparr>" by simp
  ultimately show ?thesis using encode_batch_frame [of "zip ps addrs" c] by metis
qed

text \<open>A step that changes nothing but the sequence number.\<close>

lemma sequence_frame:
  assumes "log_ok w \<and> reads_ok w \<and> sends_ok w"
  shows "log_ok (w\<lparr>qw_conn := (qw_conn w)\<lparr>qc_sequence := n\<rparr>\<rparr>) \<and> reads_ok (w\<lparr>qw_conn := (qw_conn w)\<lparr>qc_sequence := n\<rparr>\<rparr>) \<and> sends_ok (w\<lparr>qw_conn := (qw_conn w)\<lparr>qc_sequence := n\<rparr>\<rparr>)"
  using assms by (auto simp: log_ok_def reads_ok_def sends_ok_def Let_def woken_in_time_def split: option.splits)

lemma read_deadline_ok:
  assumes "reads_ok w" "sends_ok w"
  shows "reads_ok (w\<lparr>qw_conn := quic_SetReadDeadline t now (qw_conn w)\<rparr>)" "sends_ok (w\<lparr>qw_conn := quic_SetReadDeadline t now (qw_conn w)\<rparr>)"
proof -
  let ?c = "qw_conn w"
  let ?cond = "t = None \<or> qc_readDeadline ?c = None \<or> the t < the (qc_readDeadline ?c) \<or> the (qc_readDeadline ?c) \<le> now"
  let ?d = "?c\<lparr>qc_readDeadline := t\<rparr>"
  obtain cs where cs: "cancel_reads ?d = ?d\<lparr>qc_contexts := cs\<rparr>" "extends (qc_contexts ?d) cs" "length cs = length (qc_contexts ?d)"
    "\<forall>(readID, ctx) \<in> set (qc_reads ?d). ctx < length cs \<longrightarrow> snd (cs ! ctx)" by (rule cancel_reads_obtain)
  have e: "quic_SetReadDeadline t now ?c = (if ?cond then ?d\<lparr>qc_contexts := cs\<rparr> else ?d)" using cs(1) by (simp add: quic_SetReadDeadline_def Let_def)
  have "\<forall>x \<in> set cs. snd x" if "qc_closed ?c"
  proof
    fix x assume "x \<in> set cs"
    then obtain k where "k < length cs" "x = cs ! k" by (metis in_set_conv_nth)
    moreover have "\<forall>x \<in> set (qc_contexts ?c). snd x" using assms(2) that by (simp add: sends_ok_def Let_def)
    ultimately show "snd x" using cs(2,3) by (simp add: extends_def)
  qed
  then show "sends_ok (w\<lparr>qw_conn := quic_SetReadDeadline t now ?c\<rparr>)" unfolding e using cs(2) assms(2)
    by (intro sends_frame [OF assms(2)]) (auto simp: sends_ok_def Let_def)
  have r: "mset (qw_readers w) = mset (qc_reads ?c)" "distinct (map fst (qc_reads ?c))" "qc_nextReadID ?c = word_of_nat (qw_started w)"
    "\<And>j ctx. (j, ctx) \<in> set (qc_reads ?c) \<Longrightarrow> (\<exists>k \<le> qw_started w. j = word_of_nat k) \<and> ctx < length (qc_contexts ?c) \<and> woken_in_time ?c ctx"
    using assms(1) by (auto simp: reads_ok_def Let_def)
  have w: "woken_in_time (if ?cond then ?d\<lparr>qc_contexts := cs\<rparr> else ?d) ctx" if x: "(j, ctx) \<in> set (qc_reads ?c)" for j ctx
  proof (cases ?cond)
    case True
    then show ?thesis using cs(3,4) r(4) [OF x] x by (auto simp: woken_in_time_def)
  next
    case False
    then obtain t1 t2 where t: "t = Some t2" "qc_readDeadline ?c = Some t1" "t1 \<le> t2" by force
    then show ?thesis using False r(4) [OF x] by (auto simp: woken_in_time_def)
  qed
  show "reads_ok (w\<lparr>qw_conn := quic_SetReadDeadline t now ?c\<rparr>)" unfolding e reads_ok_def Let_def using r w cs(3) by auto
qed

lemma quic_Close_obtain:
  assumes "\<not> qc_closed c"
  obtains ds where "snd (quic_Close c) = c\<lparr>qc_closed := True, qc_contexts := ds\<rparr>" "extends (qc_contexts c) ds" "length ds = length (qc_contexts c)" "\<forall>x \<in> set ds. snd x"
proof -
  let ?d = "c\<lparr>qc_closed := True\<rparr>"
  obtain cs where cs: "cancel_reads ?d = ?d\<lparr>qc_contexts := cs\<rparr>" "extends (qc_contexts ?d) cs" "length cs = length (qc_contexts ?d)" by (rule cancel_reads_obtain)
  define es where "es = (case qc_writeContext c of None \<Rightarrow> cs | Some ctx \<Rightarrow> cs[ctx := (fst (cs ! ctx), True)])"
  have e: "extends (qc_contexts c) es" "length es = length (qc_contexts c)" using cs(2,3) extends_trans [OF _ extends_cancel] by (auto simp: es_def split: option.splits)
  show thesis
  proof (rule that)
    show "snd (quic_Close c) = c\<lparr>qc_closed := True, qc_contexts := map (\<lambda>(deadline, _). (deadline, True)) es\<rparr>"
      using assms cs(1) by (simp add: quic_Close_def Let_def es_def cancel_def split: option.splits)
    show "extends (qc_contexts c) (map (\<lambda>(deadline, _). (deadline, True)) es)" by (rule extends_trans [OF e(1) extends_map])
  qed (use e(2) in auto)
qed

lemma quic_run_inv: "quic_run w \<Longrightarrow> qw_started w < 2 ^ 64 \<Longrightarrow> log_ok w \<and> reads_ok w \<and> sends_ok w"
proof (induction rule: quic_run.induct)
  case q_open
  show ?case using new_window_refines by (auto simp: log_ok_def reads_ok_def sends_ok_def new_quic_conn_def datagram_cache_ok_def)
next
  case (q_fail w ctxErr now e c)
  then have "c = qw_conn w" by (auto simp: quic_read_begin_def new_context_def Let_def split: option.splits if_splits)
  then show ?case using q_fail by simp
next
  case (q_wait w ctxErr now r c)
  then have i: "log_ok w" "reads_ok w" "sends_ok w" by simp_all
  have c: "qc_replay c = qc_replay (qw_conn w)" "qc_decoder c = qc_decoder (qw_conn w)" "qc_writeContext c = qc_writeContext (qw_conn w)" "qc_writeDeadline c = qc_writeDeadline (qw_conn w)"
    "qc_closed c = qc_closed (qw_conn w)" "extends (qc_contexts (qw_conn w)) (qc_contexts c)" "\<not> qc_closed c"
    using q_wait.hyps(2) by (auto simp: quic_read_begin_def new_context_def Let_def split: option.splits if_splits)
  show ?case using c i(1) q_wait.prems by (intro conjI log_frame [OF i(1)] reads_wait [OF i(2) q_wait.hyps(2)] sends_frame [OF i(3)]) (auto simp: log_ok_def)
next
  case (q_receive w r ctxErr now outcome res c)
  then have i: "log_ok w" "reads_ok w" "sends_ok w" by simp_all
  have c: "c = (cancel (snd r) (qw_conn w))\<lparr>qc_reads := remove_entry (fst r) (qc_reads (qw_conn w))\<rparr>" "\<And>packet. res = Inr packet \<Longrightarrow> outcome = Inr packet"
    using q_receive.hyps(3) by (auto simp: quic_read_end_def Let_def cancel_def split: sum.splits option.splits if_splits)
  have "set (case res of Inl x \<Rightarrow> qw_packets w | Inr packet \<Rightarrow> packet # qw_packets w) \<subseteq> set (case outcome of Inl e \<Rightarrow> qw_received w | Inr packet \<Rightarrow> packet # qw_received w)"
    using i(1) c(2) by (cases res; cases outcome) (auto simp: log_ok_def)
  moreover have "set (qw_received w) \<subseteq> set (case outcome of Inl e \<Rightarrow> qw_received w | Inr packet \<Rightarrow> packet # qw_received w)" by (cases outcome) auto
  moreover have "qc_closed (qw_conn w) \<longrightarrow> (\<forall>x \<in> set (qc_contexts c). snd x)" using i(3) by (auto simp: sends_ok_def Let_def c(1) cancel_def dest!: set_update_subset_insert [THEN subsetD])
  ultimately show ?case
    by (intro conjI log_frame [OF i(1)] reads_receive [OF i(2) q_receive.hyps(2,3)] sends_frame [OF i(3)]) (simp_all add: c(1) cancel_def extends_cancel)
next
  case (q_accept w packet n res c)
  then have i: "log_ok w" "reads_ok w" "sends_ok w" by simp_all
  have c: "qc_reads c = qc_reads (qw_conn w)" "qc_nextReadID c = qc_nextReadID (qw_conn w)" "qc_closed c = qc_closed (qw_conn w)" "qc_readDeadline c = qc_readDeadline (qw_conn w)"
    "qc_contexts c = qc_contexts (qw_conn w)" "qc_writeContext c = qc_writeContext (qw_conn w)" "qc_writeDeadline c = qc_writeDeadline (qw_conn w)"
    using q_accept.hyps(3) by (auto simp: quic_accept_def split: sum.splits prod.splits)
  show ?case using i(3) by (intro conjI log_accept [OF i(1) q_accept.hyps(2,3)] reads_frame [OF i(2)] sends_frame [OF i(3)]) (simp_all add: c sends_ok_def Let_def)
next
  case (q_read_deadline w t now)
  then have i: "log_ok w" "reads_ok w" "sends_ok w" by simp_all
  obtain cs where "cancel_reads ((qw_conn w)\<lparr>qc_readDeadline := t\<rparr>) = (qw_conn w)\<lparr>qc_readDeadline := t, qc_contexts := cs\<rparr>" by (rule cancel_reads_obtain) simp
  then have "log_ok (w\<lparr>qw_conn := quic_SetReadDeadline t now (qw_conn w)\<rparr>)" using i(1) by (intro log_frame [OF i(1)]) (auto simp: quic_SetReadDeadline_def Let_def log_ok_def)
  then show ?case using read_deadline_ok [OF i(2,3)] by blast
next
  case (q_write_deadline w t old c)
  then have i: "log_ok w" "reads_ok w" "sends_ok w" by simp_all
  have c: "old = qc_writeContext (qw_conn w)" "c = (qw_conn w)\<lparr>qc_contexts := qc_contexts (qw_conn w) @ [(t, qc_closed (qw_conn w))], qc_writeDeadline := t, qc_writeContext := Some (length (qc_contexts (qw_conn w)))\<rparr>"
    using q_write_deadline.hyps(2) by (auto simp: quic_SetWriteDeadline_def new_context_def)
  have "sends_ok (w\<lparr>qw_conn := c, qw_cancelling := (case old of None \<Rightarrow> qw_cancelling w | Some ctx \<Rightarrow> ctx # qw_cancelling w)\<rparr>)"
    using i(3) by (auto simp: sends_ok_def Let_def c nth_append split: option.splits)
  then show ?case using i(1) by (intro conjI log_frame [OF i(1)] reads_frame [OF i(2)]) (auto simp: c(2) log_ok_def)
next
  case (q_cancelled w ctx)
  then have i: "log_ok w" "reads_ok w" "sends_ok w" by simp_all
  have "sends_ok (w\<lparr>qw_conn := cancel ctx (qw_conn w), qw_cancelling := remove1 ctx (qw_cancelling w)\<rparr>)"
    using i(3) by (cases "ctx < length (qc_contexts (qw_conn w))")
      (auto simp: sends_ok_def Let_def cancel_def nth_list_update split: option.splits dest!: set_update_subset_insert [THEN subsetD])
  then show ?case using i(1) by (intro conjI log_frame [OF i(1)] reads_frame [OF i(2)]) (auto simp: cancel_def extends_cancel log_ok_def)
next
  case (q_write w p addr)
  then show ?case using sequence_frame [of w "qc_sequence (qw_conn w) + 1"] by (simp add: quic_encode_def)
next
  case (q_batch w ps addrs)
  obtain n where "snd (quic_WriteBatch ps addrs (qw_conn w)) = (qw_conn w)\<lparr>qc_sequence := n\<rparr>" using quic_WriteBatch_frame by blast
  then show ?case using q_batch sequence_frame [of w n] by simp
next
  case (q_send w ctxErr now res c)
  then have i: "log_ok w" "reads_ok w" "sends_ok w" by simp_all
  have c: "(isl res \<and> c = qw_conn w) \<or> (\<exists>ctx. res = Inr ctx \<and> qc_writeContext (qw_conn w) = Some ctx \<and> c = qw_conn w \<and> \<not> qc_closed c) \<or>
      (res = Inr (length (qc_contexts (qw_conn w))) \<and> qc_writeContext (qw_conn w) = None \<and> \<not> qc_closed c \<and>
       c = (qw_conn w)\<lparr>qc_contexts := qc_contexts (qw_conn w) @ [(None, False)], qc_writeContext := Some (length (qc_contexts (qw_conn w)))\<rparr>)"
    using q_send.hyps(2) by (auto simp: quic_send_begin_def new_context_def split: option.splits if_splits)
  have "sends_ok (w\<lparr>qw_conn := c, qw_senders := (case res of Inl e \<Rightarrow> qw_senders w | Inr ctx \<Rightarrow> ctx # qw_senders w)\<rparr>)"
    using c
  proof (elim disjE exE conjE)
    assume "isl res" "c = qw_conn w"
    then show ?thesis using i(3) by (cases res) simp_all
  next
    fix ctx assume "res = Inr ctx" "qc_writeContext (qw_conn w) = Some ctx" "c = qw_conn w" "\<not> qc_closed c"
    then show ?thesis using i(3) by (simp add: sends_ok_def Let_def)
  next
    assume "res = Inr (length (qc_contexts (qw_conn w)))" "qc_writeContext (qw_conn w) = None" "\<not> qc_closed c"
      "c = (qw_conn w)\<lparr>qc_contexts := qc_contexts (qw_conn w) @ [(None, False)], qc_writeContext := Some (length (qc_contexts (qw_conn w)))\<rparr>"
    then show ?thesis using i(3) by (auto simp: sends_ok_def Let_def nth_append)
  qed
  then show ?case using i(1) c by (intro conjI log_frame [OF i(1)] reads_frame [OF i(2)]) (auto simp: log_ok_def)
next
  case (q_sent w ctx)
  then show ?case using set_remove1_subset [of ctx "qw_senders w"] by (auto simp: log_ok_def reads_ok_def sends_ok_def Let_def split: option.splits)
next
  case (q_close w)
  then have i: "log_ok w" "reads_ok w" "sends_ok w" by simp_all
  let ?c = "qw_conn w"
  show ?case
  proof (cases "qc_closed ?c")
    case True
    then show ?thesis using i by (simp add: quic_Close_def)
  next
    case False
    obtain ds where ds: "snd (quic_Close ?c) = ?c\<lparr>qc_closed := True, qc_contexts := ds\<rparr>" "extends (qc_contexts ?c) ds" "length ds = length (qc_contexts ?c)" "\<forall>x \<in> set ds. snd x"
      by (rule quic_Close_obtain [OF False])
    then have n: "snd (ds ! ctx)" if "ctx < length (qc_contexts ?c)" for ctx using that by simp
    have "reads_ok (w\<lparr>qw_conn := snd (quic_Close ?c)\<rparr>)" using i(2) n by (auto simp: reads_ok_def Let_def ds(1,3) woken_in_time_def)
    moreover have "sends_ok (w\<lparr>qw_conn := snd (quic_Close ?c)\<rparr>)" using i(3) n ds(2,4) by (auto simp: sends_ok_def Let_def ds(1,3) extends_def split: option.splits)
    moreover have "log_ok (w\<lparr>qw_conn := snd (quic_Close ?c)\<rparr>)" using i(1) by (simp add: log_ok_def ds(1))
    ultimately show ?thesis by blast
  qed
qed

subsection \<open>Properties of datagrams over HTTP/3\<close>

text \<open>
  C40: Over every interleaving of readers, writers, deadline changes and \<open>Close\<close> on a packet connection over HTTP/3 (with fewer than \<open>2 ^ 64\<close> reads), no sequence number is delivered
  twice, and whatever a read returns comes from a packet the stream received that is a well-formed datagram: as much of its payload as the buffer holds, with its address.
  Every goroutine that waits in a read has a context that is cancelled, or the connection is open and that context ends no later than the read deadline now in force: no change of
  the deadline leaves a read waiting beyond it, whichever other reads ended in between, and after \<open>Close\<close> every waiting read has been cancelled. Every goroutine that
  waits in a send has a context that is cancelled or about to be cancelled by the \<open>SetWriteDeadline\<close> that replaced it, or the connection is open and the context has the write
  deadline now in force.
\<close>

theorem quic_conn_sound:
  assumes "quic_run w" "qw_started w < 2 ^ 64"
  defines "c \<equiv> qw_conn w"
  shows "distinct (map datagram_seq (qw_delivered w)) \<and>
    (\<forall>(packet, n, p, a) \<in> set (qw_delivered w). packet \<in> set (qw_received w) \<and>
       (\<exists>seq address payload. DecodeDatagram packet = Inr (seq, address, payload) \<and> p = take n payload \<and> a = parseUDPAddr address)) \<and>
    (\<forall>(readID, ctx) \<in> set (qw_readers w). snd (qc_contexts c ! ctx) \<or>
       \<not> qc_closed c \<and> (\<forall>t. qc_readDeadline c = Some t \<longrightarrow> (\<exists>d \<le> t. fst (qc_contexts c ! ctx) = Some d))) \<and>
    (\<forall>ctx \<in> set (qw_senders w). snd (qc_contexts c ! ctx) \<or> ctx \<in> set (qw_cancelling w) \<or> \<not> qc_closed c \<and> fst (qc_contexts c ! ctx) = qc_writeDeadline c)"
proof -
  have i: "log_ok w" "reads_ok w" "sends_ok w" using quic_run_inv [OF assms(1,2)] by blast+
  have "set (qw_readers w) = set (qc_reads c)" using i(2) by (metis (no_types, lifting) c_def reads_ok_def mset_eq_setD)
  then have "woken_in_time c ctx" if "(readID, ctx) \<in> set (qw_readers w)" for readID ctx using i(2) that by (auto simp: reads_ok_def Let_def c_def)
  moreover have "snd (qc_contexts c ! ctx) \<or> ctx \<in> set (qw_cancelling w) \<or> \<not> qc_closed c \<and> fst (qc_contexts c ! ctx) = qc_writeDeadline c" if "ctx \<in> set (qw_senders w)" for ctx
    using i(3) that by (fastforce simp: sends_ok_def Let_def c_def)
  moreover have "distinct (map datagram_seq (qw_delivered w))"
    "\<forall>(packet, n, p, a) \<in> set (qw_delivered w). packet \<in> set (qw_received w) \<and>
       (\<exists>seq address payload. DecodeDatagram packet = Inr (seq, address, payload) \<and> p = take n payload \<and> a = parseUDPAddr address)"
    using i(1) unfolding log_ok_def by blast+
  ultimately show ?thesis unfolding woken_in_time_def by blast
qed


text \<open>
  Two reads wait; the first ends with a packet, which is delivered; the deadline is then set, and the second read, which was begun without one, has been cancelled.
\<close>

definition example_datagram :: bytes where
  "example_datagram = (case EncodeDatagram 9 (lit ''a:53'') [5, 6, 7] of Inr x \<Rightarrow> x)"

definition example_c1 :: quic_conn where "example_c1 = snd (quic_read_begin None 0 new_quic_conn)"
definition example_c2 :: quic_conn where "example_c2 = snd (quic_read_begin None 0 example_c1)"
definition example_c3 :: quic_conn where "example_c3 = snd (quic_read_end None 1 (1, 0) (Inr example_datagram) example_c2)"
definition example_c4 :: quic_conn where "example_c4 = snd (quic_accept 2 example_datagram example_c3)"
definition example_c5 :: quic_conn where "example_c5 = quic_SetReadDeadline (Some 5) 2 example_c4"

lemma example_steps:
  "fst (quic_read_begin None 0 new_quic_conn) = Inr (1, 0)" "fst (quic_read_begin None 0 example_c1) = Inr (2, 1)"
  "fst (quic_read_end None 1 (1, 0) (Inr example_datagram) example_c2) = Inr example_datagram"
  "fst (quic_accept 2 example_datagram example_c3) = Delivered [5, 6] (DomainUDPAddr (lit ''a:53''))"
  by code_simp+

lemma example_quic:
  "quic_run \<lparr>qw_conn = example_c5, qw_readers = [(2, 1)], qw_started = 2, qw_received = [example_datagram], qw_packets = [],
     qw_delivered = [(example_datagram, 2, [5, 6], DomainUDPAddr (lit ''a:53''))], qw_senders = [], qw_cancelling = []\<rparr>"
proof -
  have e: "quic_read_begin None 0 new_quic_conn = (Inr (1, 0), example_c1)" "quic_read_begin None 0 example_c1 = (Inr (2, 1), example_c2)"
    "quic_read_end None 1 (1, 0) (Inr example_datagram) example_c2 = (Inr example_datagram, example_c3)"
    "quic_accept 2 example_datagram example_c3 = (Delivered [5, 6] (DomainUDPAddr (lit ''a:53'')), example_c4)"
    using example_steps by (simp_all add: prod_eq_iff example_c1_def example_c2_def example_c3_def example_c4_def)
  from q_wait [OF q_open, of None 0 "(1, 0)" example_c1] e(1)
  have "quic_run \<lparr>qw_conn = example_c1, qw_readers = [(1, 0)], qw_started = 1, qw_received = [], qw_packets = [], qw_delivered = [], qw_senders = [], qw_cancelling = []\<rparr>" by simp
  from q_wait [OF this, of None 0 "(2, 1)" example_c2] e(2)
  have "quic_run \<lparr>qw_conn = example_c2, qw_readers = [(2, 1), (1, 0)], qw_started = 2, qw_received = [], qw_packets = [], qw_delivered = [], qw_senders = [], qw_cancelling = []\<rparr>"
    by (simp add: numeral_2_eq_2)
  from q_receive [OF this, of "(1, 0)" None 1 "Inr example_datagram" "Inr example_datagram" example_c3] e(3)
  have "quic_run \<lparr>qw_conn = example_c3, qw_readers = [(2, 1)], qw_started = 2, qw_received = [example_datagram], qw_packets = [example_datagram], qw_delivered = [], qw_senders = [], qw_cancelling = []\<rparr>" by simp
  from q_accept [OF this, of example_datagram 2 "Delivered [5, 6] (DomainUDPAddr (lit ''a:53''))" example_c4] e(4)
  have "quic_run \<lparr>qw_conn = example_c4, qw_readers = [(2, 1)], qw_started = 2, qw_received = [example_datagram], qw_packets = [],
     qw_delivered = [(example_datagram, 2, [5, 6], DomainUDPAddr (lit ''a:53''))], qw_senders = [], qw_cancelling = []\<rparr>" by simp
  from q_read_deadline [OF this, of "Some 5" 2] show ?thesis by (simp add: example_c5_def)
qed

theorem quic_conn_sound_witness:
  "qc_readDeadline example_c5 = Some 5 \<and> \<not> qc_closed example_c5 \<and> fst (qc_contexts example_c5 ! 1) = None \<and> snd (qc_contexts example_c5 ! 1)"
proof -
  have e: "qc_readDeadline example_c5 = Some 5" "\<not> qc_closed example_c5" "fst (qc_contexts example_c5 ! 1) = None" by code_simp+
  from quic_conn_sound [OF example_quic] have "snd (qc_contexts example_c5 ! 1) \<or> (\<forall>t. qc_readDeadline example_c5 = Some t \<longrightarrow> (\<exists>d \<le> t. fst (qc_contexts example_c5 ! 1) = Some d))" by auto
  then show ?thesis using e by simp
qed

end
