(* ===== verification/Spec2Isabelle.thy ===== *)
theory Spec2Isabelle
  imports Frame Datagram Socks5 PlainUdp Icmp H1Session StreamServer BufPipe PacketQueue HttpServer H1Chunked Target PlainUdpProps CarrierPool ClientUdp ClientQuic
begin

text \<open>
  Verification of chitanda, a proxy that carries TCP, UDP and ICMP traffic between a client and a
  server over authenticated transports.

  \<^bold>\<open>The program and its model.\<close> Every theory names the Go files it models; definitions keep the
  names of the source where they can.

  \<^item> \<open>Prelude\<close>, \<open>GoIO\<close>, \<open>GoNet\<close>, \<open>GoText\<close>, \<open>GoHeap\<close>: what the source uses of the Go language and its
    standard library. Byte strings are lists of 8-bit words and integers keep their width. An \<open>io.Reader\<close> is a
    script of answers and an \<open>io.Writer\<close> the bytes it took with a script of its answers; theorems
    quantify over the scripts, so over every splitting, delay and failure of the environment.
  \<^item> \<open>Interfaces\<close>: the locales the components are connected by: a reader of framed data, a byte
    channel made of a writer and a reader, a reader that authenticates its end, a guard that admits a
    number once, an address codec. Each is interpreted on the definitions of the components.
  \<^item> \<open>Crypto\<close>: the primitives (HMAC, SHA-256, AEAD) are fields of a parameter record; \<open>crypto_ok\<close> states
    the documented facts that are used (lengths, opening inverts sealing, only sealed messages open).
  \<^item> \<open>Frame\<close> and \<open>Datagram\<close>: \<^verbatim>\<open>src/internal/frame\<close>, the framed stream, the datagram codec
    and the sequence number window.
  \<^item> \<open>Address\<close> and \<open>Socks5\<close>: \<^verbatim>\<open>src/internal/socks5\<close>, the front end of the client.
  \<^item> \<open>PlainUdp\<close>: \<^verbatim>\<open>src/internal/plainudp\<close>, the native UDP codec and its response window.
  \<^item> \<open>RawHello\<close> and \<open>RawStream\<close>: \<^verbatim>\<open>src/internal/rawstream\<close>, hello records, matching of users, 0-RTT
    OPEN frame, sealed record stream.
  \<^item> \<open>H1Session\<close>: \<^verbatim>\<open>src/internal/h1session\<close>, the same over HTTP/1.1 bodies.
  \<^item> \<open>Icmp\<close>: \<^verbatim>\<open>src/internal/icmpmsg\<close>, the echo relay.
  \<^item> \<open>ReplayCache\<close> and \<open>ReplayDurable\<close>: \<^verbatim>\<open>src/pkg/auth/auth.go\<close>, the durable anti-replay cache.
  \<^item> \<open>StreamServer\<close>: \<^verbatim>\<open>src/pkg/server/stream_server.go\<close> with
    \<^verbatim>\<open>src/pkg/client/conn_stream.go\<close>: both sides of the RawStream handshake, composed of hello records, OPEN frame and
    replay cache, for any interleaving of connections.
  \<^item> \<open>ReplayGuard\<close> and \<open>HttpServer\<close>: what every user of the replay cache gets from it, the signed requests of \<^verbatim>\<open>src/pkg/auth/auth.go\<close> and the admission of HTTP requests in
    \<^verbatim>\<open>src/pkg/server/server.go\<close>: which request is a session, which goes to the fallback site, and when a nonce is used up.
  \<^item> \<open>H1Chunked\<close>: the chunked coding of \<^verbatim>\<open>src/pkg/client/conn_h1.go\<close>, its writer and its resumable reader.
  \<^item> \<open>Ring\<close>, \<open>BufPipe\<close> and \<open>PacketQueue\<close>: the bounded byte pipe \<^verbatim>\<open>src/pkg/client/bufpipe.go\<close> and the sender queues with a
    global budget of \<^verbatim>\<open>src/integration/mihomo_tunnel/chitanda_sender_queue.go\<close>.
  \<^item> \<open>Target\<close>: \<^verbatim>\<open>src/internal/target\<close>, which destinations may be reached.
  \<^item> \<open>UdpReplay\<close>: the windows of authenticated UDP sessions (\<^verbatim>\<open>src/pkg/server/udp_replay_persistent.go\<close>) and the registry
    of the Xray inbound (\<^verbatim>\<open>src/integration/xray/udp_replay.go\<close>).
  \<^item> \<open>UdpBudget\<close>, \<open>PlainUdpServer\<close>, \<open>PlainUdpInv\<close>, \<open>PlainUdpTargets\<close> and \<open>PlainUdpProps\<close>:
    \<^verbatim>\<open>src/pkg/server/udp_budget.go\<close> and \<^verbatim>\<open>src/pkg/server/plain_udp.go\<close>, the native UDP server. Read loop, workers, target readers,
    cleaner and shutdown are atomic steps on one record; the theories hold the model, the invariant of memory and sessions, the invariant of
    target sockets and leases, and the properties.
  \<^item> \<open>CarrierPool\<close>: the pools of HTTP/2 and HTTP/3 carriers of the client (\<^verbatim>\<open>src/pkg/client/client.go\<close> and
    \<^verbatim>\<open>scaler.go\<close>), the failover prober (\<^verbatim>\<open>prober.go\<close>) and the decisions of the autoscaler
    (\<^verbatim>\<open>src/pkg/plugin/autoscaler\<close>). Carriers live on a heap, since streams hold references to evicted ones.
  \<^item> \<open>ClientAddr\<close>, \<open>ClientUdp\<close> and \<open>ClientQuic\<close>: the address helpers of \<^verbatim>\<open>src/pkg/client/client.go\<close>, the native UDP connection
    (\<^verbatim>\<open>src/pkg/client/conn_plain_udp.go\<close>) and \<open>quicPacketConn\<close> of \<^verbatim>\<open>conn_udp.go\<close>; built on \<open>PlainUdp\<close> and \<open>Datagram\<close>. The goroutines
    that wait in a read or a send are part of the state, beside the lists the code keeps of them.

  \<^bold>\<open>What is shown.\<close> Streams: the reader delivers exactly what was written and then the end, for every
  splitting of the bytes; an end of stream is reported only when the peer sent one; a sealed stream cannot
  be truncated, reordered or altered unnoticed; after failures the wire holds a prefix of a
  well-formed sequence. Codecs: encoding and decoding are inverse and nothing else decodes; caches are
  transparent. Replay protection: the windows refine unbounded sets and admit nothing twice;
  the cache refines the full history in memory and loses no acknowledged nonce over crashes; a
  recorded handshake is not accepted again. Handshakes: both ends agree on user,
  destination and keys; a request no user signed is indistinguishable from a visit of the fallback site. UDP: over every interleaving a datagram
  passes the replay check of the server once and an answer is delivered by the client once; what a client writes the server decodes, and the answer
  comes back under the address the application used; memory, sessions, sockets and leases are counted exactly, stay within their limits, and none is
  left after the shutdown. Policy: only destinations outside the reserved ranges are dialled. Client: stream counters of the carriers are exact, no carrier in use is
  evicted, none outlives \<open>Close\<close>; failover is exactly the rule of two failures and ten successes; a waiting read never outlasts its deadline.

  \<^bold>\<open>Loops and bounds.\<close> Loops over input are total functions with a measure on the script or the data; no definition
  uses fuel, except that theorems which drain a reader give a number of reads that is proved to be enough.
  Sequence numbers and lengths are words; theorems whose statement needs the absence of
  wrap-around say so (fewer than \<open>2 ^ 64\<close> records or calls).

  \<^bold>\<open>Not modelled.\<close> Goroutines appear as interleavings of atomic sections where state is
  shared under a mutex or an atomic variable; where a section uses several atomic variables or a clock in between, the definition says what is taken as one step.
  Scheduling fairness is not modelled. Sockets, TLS, HTTP/2, HTTP/3 and QUIC (third-party libraries), timers
  and deadlines, logging, configuration files, generated protobuf code, and the glue to the Xray and mihomo
  cores (beside the registry and the queues named above) are outside the model; so are cryptographic strength and timing. The native UDP server's
  target sockets, the resolvers and the probes of carriers are outcomes that theorems quantify over.
\<close>

end
